(* ===== verification/Prelude.thy ===== *)
theory Prelude
  imports Main "HOL-Library.Word" "HOL-Library.Monad_Syntax"
begin

unbundle bit_operations_syntax

text \<open>
  The shared base of the development: the names of the machine types, the collections of
  simplification rules the components fill, generic facts on lists, options and the option
  monad, and little-endian byte strings of machine words.
\<close>

section \<open>Machine types\<close>

text \<open>
  The sources are compiled for a little-endian LP64 target (the iOS devices and simulators of
  the Xcode project): \<open>size_t\<close> and pointers have 64 bits.
\<close>

type_synonym byte = "8 word"
type_synonym u32 = "32 word"
type_synonym u64 = "64 word"
type_synonym size_t = "64 word"
type_synonym addr = nat

named_theorems mem_simps \<open>loads and stores of the C memory model\<close>
named_theorems pb_defs \<open>unfolding rules of nanopb definitions that hold no loop\<close>
named_theorems stream_simps \<open>behaviour of the stream primitives\<close>

section \<open>The option monad\<close>

lemma bind_Some_iff: "(Option.bind m f = Some y) \<longleftrightarrow> (\<exists>x. m = Some x \<and> f x = Some y)"
  by (cases m) auto

lemma bind_neq_None_iff: "(Option.bind m f \<noteq> None) \<longleftrightarrow> (\<exists>x. m = Some x \<and> f x \<noteq> None)"
  by (cases m) auto

lemma bind_SomeE:
  assumes "Option.bind m f = Some y"
  obtains x where "m = Some x" and "f x = Some y"
  using assms by (cases m) auto

section \<open>Lists\<close>

lemma take_append_drop_take:
  "i + n \<le> length xs \<Longrightarrow> take i xs @ take n (drop i xs) @ drop (i + n) xs = xs"
  by (metis append_take_drop_id drop_drop add.commute)

lemma drop_length_append [simp]: "drop (length xs) (xs @ ys) = ys"
  by simp

section \<open>Words\<close>

lemma unat_drop_bit_div: "unat (drop_bit n (w :: 'a::len word)) = unat w div 2 ^ n"
  unfolding unat_drop_bit_eq by (rule drop_bit_eq_div)

lemma unat_take_bit_mod: "unat (take_bit n (w :: 'a::len word)) = unat w mod 2 ^ n"
  unfolding unsigned_take_bit_eq by (rule take_bit_eq_mod)

lemma unat_drop_bit_less: "w \<noteq> 0 \<Longrightarrow> 0 < n \<Longrightarrow> unat (drop_bit n (w :: 'a::len word)) < unat w"
proof -
  assume "w \<noteq> 0" and "0 < n"
  then have "0 < unat w" by (simp add: unat_gt_0)
  moreover have "1 < (2::nat) ^ n" using \<open>0 < n\<close> by (rule one_less_power [rotated]) simp
  ultimately show ?thesis unfolding unat_drop_bit_div by (rule div_less_dividend [rotated])
qed

lemma unat_lt_64: "unat (v :: 64 word) < 2 ^ 64"
  using unsigned_less [of v, where 'a = nat] by simp

lemma unat_lt_32: "unat (v :: 32 word) < 2 ^ 32"
  using unsigned_less [of v, where 'a = nat] by simp

lemma unat_of_nat_64: "n < 2 ^ 64 \<Longrightarrow> unat (of_nat n :: 64 word) = n"
  by (simp add: unat_of_nat)

lemma unat_of_nat_32: "n < 2 ^ 32 \<Longrightarrow> unat (of_nat n :: 32 word) = n"
  by (simp add: unat_of_nat)

section \<open>Little-endian byte strings\<close>

text \<open>
  \<open>le_bytes n w\<close> are the \<open>n\<close> low bytes of \<open>w\<close>, lowest first; \<open>le_word\<close> reads a byte
  string back as a word of the wanted width.
\<close>

primrec le_bytes :: "nat \<Rightarrow> 'a::len word \<Rightarrow> byte list" where
  "le_bytes 0 w = []"
| "le_bytes (Suc n) w = ucast w # le_bytes n (drop_bit 8 w)"

primrec le_word :: "byte list \<Rightarrow> 'a::len word" where
  "le_word [] = 0"
| "le_word (b # bs) = ucast b OR push_bit 8 (le_word bs)"

lemma le_bytes_numeral:
  "le_bytes (numeral k) w = ucast w # le_bytes (pred_numeral k) (drop_bit 8 w)"
  by (simp add: numeral_eq_Suc)

lemma ucast_and_FF:
  "(ucast ((w :: 32 word) AND 0xFF) :: byte) = ucast w"
  "(ucast ((v :: 64 word) AND 0xFF) :: byte) = ucast v"
proof -
  have m: "(0xFF :: 32 word) = mask 8" "(0xFF :: 64 word) = mask 8"
    by (simp_all add: mask_eq_exp_minus_1)
  show "(ucast (w AND 0xFF) :: byte) = ucast w" "(ucast (v AND 0xFF) :: byte) = ucast v"
    unfolding m by (rule bit_word_eqI; auto simp: bit_simps)+
qed

lemma length_le_bytes [simp]: "length (le_bytes n w) = n"
  by (induction n arbitrary: w) auto

lemma le_word_le_bytes:
  fixes w :: "'a::len word"
  shows "le_word (le_bytes n w) = take_bit (8 * n) w"
proof (induction n arbitrary: w)
  case 0
  then show ?case by simp
next
  case (Suc n)
  show ?case
    by (rule bit_word_eqI) (auto simp: Suc bit_simps possible_bit_def)
qed

lemma le_word_le_bytes_full [simp]:
  fixes w :: "'a::len word"
  assumes "LENGTH('a) \<le> 8 * n"
  shows "le_word (le_bytes n w) = w"
  using assms by (simp add: le_word_le_bytes take_bit_word_eq_self)

end
