(* ===== verification/C_Memory.thy ===== *)
theory C_Memory
  imports Prelude
begin

text \<open>
  The memory the C sources work on. A memory holds the bytes of all live objects, by address,
  and the heap blocks \<open>malloc\<close> and \<open>realloc\<close> have handed out. An access to an address that
  holds no object is undefined behaviour, modelled by \<open>None\<close>: a function of the model that
  returns \<open>Some\<close> has only touched live objects. Address 0 is the null pointer.
\<close>

section \<open>Memory\<close>

record mem =
  cells :: "addr \<Rightarrow> byte option"
  blocks :: "addr \<Rightarrow> nat option"
  brk :: addr
  heap_end :: addr
  junk :: "addr \<Rightarrow> byte"

definition NULL :: addr where
  "NULL = 0"

definition PTR_SIZE :: nat where
  "PTR_SIZE = 8"

definition ptr_add :: "addr \<Rightarrow> int \<Rightarrow> addr" where
  "ptr_add p off = nat (int p + off)"

fun load_bytes :: "mem \<Rightarrow> addr \<Rightarrow> nat \<Rightarrow> byte list option" where
  "load_bytes m p 0 = Some []"
| "load_bytes m p (Suc n) =
     do { b \<leftarrow> cells m p; bs \<leftarrow> load_bytes m (Suc p) n; Some (b # bs) }"

fun store_bytes :: "mem \<Rightarrow> addr \<Rightarrow> byte list \<Rightarrow> mem option" where
  "store_bytes m p [] = Some m"
| "store_bytes m p (b # bs) =
     (case cells m p of
        None \<Rightarrow> None
      | Some _ \<Rightarrow> store_bytes (m\<lparr>cells := (cells m)(p \<mapsto> b)\<rparr>) (Suc p) bs)"

definition load_u8 :: "mem \<Rightarrow> addr \<Rightarrow> byte option" where
  "load_u8 m p = cells m p"

definition load_u16 :: "mem \<Rightarrow> addr \<Rightarrow> 16 word option" where
  "load_u16 m p = map_option le_word (load_bytes m p 2)"

definition load_u32 :: "mem \<Rightarrow> addr \<Rightarrow> u32 option" where
  "load_u32 m p = map_option le_word (load_bytes m p 4)"

definition load_u64 :: "mem \<Rightarrow> addr \<Rightarrow> u64 option" where
  "load_u64 m p = map_option le_word (load_bytes m p 8)"

definition load_ptr :: "mem \<Rightarrow> addr \<Rightarrow> addr option" where
  "load_ptr m p = map_option unat (load_u64 m p)"

definition load_bool :: "mem \<Rightarrow> addr \<Rightarrow> bool option" where
  "load_bool m p = map_option (\<lambda>b. b \<noteq> 0) (load_u8 m p)"

definition store_u8 :: "mem \<Rightarrow> addr \<Rightarrow> byte \<Rightarrow> mem option" where
  "store_u8 m p b = store_bytes m p [b]"

definition store_u16 :: "mem \<Rightarrow> addr \<Rightarrow> 16 word \<Rightarrow> mem option" where
  "store_u16 m p w = store_bytes m p (le_bytes 2 w)"

definition store_u32 :: "mem \<Rightarrow> addr \<Rightarrow> u32 \<Rightarrow> mem option" where
  "store_u32 m p w = store_bytes m p (le_bytes 4 w)"

definition store_u64 :: "mem \<Rightarrow> addr \<Rightarrow> u64 \<Rightarrow> mem option" where
  "store_u64 m p w = store_bytes m p (le_bytes 8 w)"

definition store_ptr :: "mem \<Rightarrow> addr \<Rightarrow> addr \<Rightarrow> mem option" where
  "store_ptr m p q = store_u64 m p (word_of_nat q)"

definition store_bool :: "mem \<Rightarrow> addr \<Rightarrow> bool \<Rightarrow> mem option" where
  "store_bool m p b = store_u8 m p (if b then 1 else 0)"

definition mem_set :: "mem \<Rightarrow> addr \<Rightarrow> byte \<Rightarrow> nat \<Rightarrow> mem option" where
  "mem_set m p b n = store_bytes m p (replicate n b)"

section \<open>The heap allocator\<close>

text \<open>
  \<open>realloc\<close> and \<open>free\<close> of the C library, on which \<open>pb_realloc\<close> and \<open>pb_free\<close> rest. The
  allocator takes fresh addresses at \<open>brk\<close> and fails (returns the null pointer) when the heap
  is full; the bytes beyond the preserved prefix are indeterminate (\<open>junk\<close>). Reallocating or
  freeing a pointer that is neither null nor a live block is undefined.
\<close>

definition map_range :: "mem \<Rightarrow> addr \<Rightarrow> byte list \<Rightarrow> mem" where
  "map_range m p bs =
     m\<lparr>cells := (\<lambda>a. if p \<le> a \<and> a < p + length bs then Some (bs ! (a - p)) else cells m a)\<rparr>"

definition unmap_range :: "mem \<Rightarrow> addr \<Rightarrow> nat \<Rightarrow> mem" where
  "unmap_range m p n = m\<lparr>cells := (\<lambda>a. if p \<le> a \<and> a < p + n then None else cells m a)\<rparr>"

definition c_free :: "mem \<Rightarrow> addr \<Rightarrow> mem option" where
  "c_free m p =
     (if p = NULL then Some m
      else case blocks m p of
             None \<Rightarrow> None
           | Some n \<Rightarrow> Some ((unmap_range m p n)\<lparr>blocks := (blocks m)(p := None)\<rparr>))"

definition c_malloc :: "mem \<Rightarrow> byte list \<Rightarrow> nat \<Rightarrow> addr \<times> mem" where
  "c_malloc m old n =
     (if brk m + n > heap_end m then (NULL, m)
      else (brk m,
        (map_range m (brk m)
           (map (\<lambda>i. if i < length old then old ! i else junk m (brk m + i)) [0..<n]))
        \<lparr>blocks := (blocks m)(brk m \<mapsto> n), brk := brk m + n\<rparr>))"

definition c_realloc :: "mem \<Rightarrow> addr \<Rightarrow> nat \<Rightarrow> (addr \<times> mem) option" where
  "c_realloc m p n =
     (if p = NULL then Some (c_malloc m [] n)
      else do {
        k \<leftarrow> blocks m p;
        old \<leftarrow> load_bytes m p (min k n);
        let (q, m1) = c_malloc m old n;
        if q = NULL then Some (NULL, m1)
        else do { m2 \<leftarrow> c_free m1 p; Some (q, m2) }
      })"

section \<open>Live ranges\<close>

definition valid :: "mem \<Rightarrow> addr \<Rightarrow> nat \<Rightarrow> bool" where
  "valid m p n \<longleftrightarrow> (\<forall>a \<in> {p..<p + n}. cells m a \<noteq> None)"

text \<open>Two memories agree outside a set of addresses, and have the same live objects.\<close>

definition same_except :: "addr set \<Rightarrow> mem \<Rightarrow> mem \<Rightarrow> bool" where
  "same_except A m m' \<longleftrightarrow>
     (\<forall>a. a \<notin> A \<longrightarrow> cells m' a = cells m a) \<and> dom (cells m') = dom (cells m) \<and>
     blocks m' = blocks m \<and> brk m' = brk m \<and> heap_end m' = heap_end m \<and> junk m' = junk m"

lemma valid_0 [simp]: "valid m p 0"
  by (simp add: valid_def)

lemma valid_Suc: "valid m p (Suc n) \<longleftrightarrow> cells m p \<noteq> None \<and> valid m (Suc p) n"
proof -
  have "{p..<p + Suc n} = insert p {Suc p..<Suc p + n}" by auto
  then show ?thesis by (simp add: valid_def)
qed

lemma valid_sub: "valid m p n \<Longrightarrow> p \<le> q \<Longrightarrow> q + k \<le> p + n \<Longrightarrow> valid m q k"
  by (auto simp: valid_def)

lemma valid_dom: "valid m p n \<longleftrightarrow> {p..<p + n} \<subseteq> dom (cells m)"
  by (auto simp: valid_def)

lemma same_except_refl [simp]: "same_except A m m"
  by (simp add: same_except_def)

lemma same_except_trans: "same_except A m m' \<Longrightarrow> same_except A m' m'' \<Longrightarrow> same_except A m m''"
  by (simp add: same_except_def)

lemma same_except_mono: "same_except A m m' \<Longrightarrow> A \<subseteq> B \<Longrightarrow> same_except B m m'"
  by (auto simp: same_except_def)

lemma same_except_valid: "same_except A m m' \<Longrightarrow> valid m' p n = valid m p n"
  by (auto simp: same_except_def valid_dom)

section \<open>Loads and stores\<close>

lemma load_bytes_Some_iff: "(\<exists>bs. load_bytes m p n = Some bs) \<longleftrightarrow> valid m p n"
  by (induction n arbitrary: p) (auto simp: valid_Suc bind_Some_iff)

lemma load_bytes_valid: "valid m p n \<Longrightarrow> \<exists>bs. load_bytes m p n = Some bs"
  by (simp add: load_bytes_Some_iff)

lemma load_bytes_length: "load_bytes m p n = Some bs \<Longrightarrow> length bs = n"
  by (induction n arbitrary: p bs) (auto simp: bind_Some_iff)

lemma load_bytes_cong:
  "(\<And>a. a \<in> {p..<p + n} \<Longrightarrow> cells m' a = cells m a) \<Longrightarrow> load_bytes m' p n = load_bytes m p n"
proof (induction n arbitrary: p)
  case 0
  then show ?case by simp
next
  case (Suc n)
  have "load_bytes m' (Suc p) n = load_bytes m (Suc p) n"
    by (rule Suc.IH) (auto intro: Suc.prems)
  moreover have "cells m' p = cells m p" by (rule Suc.prems) simp
  ultimately show ?case by simp
qed

lemma load_bytes_same_except:
  "same_except A m m' \<Longrightarrow> {p..<p + n} \<inter> A = {} \<Longrightarrow> load_bytes m' p n = load_bytes m p n"
  by (rule load_bytes_cong) (auto simp: same_except_def)

lemma load_bytes_append:
  "load_bytes m p (n + k) =
     do { xs \<leftarrow> load_bytes m p n; ys \<leftarrow> load_bytes m (p + n) k; Some (xs @ ys) }"
  by (induction n arbitrary: p) (simp_all split: option.splits Option.bind_splits)

lemma store_bytes_same_except:
  "store_bytes m p bs = Some m' \<Longrightarrow> same_except {p..<p + length bs} m m'"
proof (induction bs arbitrary: m p)
  case Nil
  then show ?case by simp
next
  case (Cons b bs)
  then obtain x where x: "cells m p = Some x"
    and st: "store_bytes (m\<lparr>cells := (cells m)(p \<mapsto> b)\<rparr>) (Suc p) bs = Some m'"
    by (auto split: option.splits)
  from Cons.IH [OF st]
  have "same_except {Suc p..<Suc p + length bs} (m\<lparr>cells := (cells m)(p \<mapsto> b)\<rparr>) m'" .
  with x show ?case by (auto simp: same_except_def)
qed

lemma store_bytes_Some_iff: "(\<exists>m'. store_bytes m p bs = Some m') \<longleftrightarrow> valid m p (length bs)"
proof (induction bs arbitrary: m p)
  case Nil
  then show ?case by simp
next
  case (Cons b bs)
  have *: "valid (m\<lparr>cells := (cells m)(p \<mapsto> b)\<rparr>) (Suc p) n = valid m (Suc p) n" for n
    by (auto simp: valid_def)
  show ?case
    by (cases "cells m p") (simp_all add: valid_Suc Cons.IH *)
qed

lemma store_bytes_valid: "valid m p (length bs) \<Longrightarrow> \<exists>m'. store_bytes m p bs = Some m'"
  by (simp add: store_bytes_Some_iff)

lemma load_store_bytes:
  "store_bytes m p bs = Some m' \<Longrightarrow> load_bytes m' p (length bs) = Some bs"
proof (induction bs arbitrary: m p)
  case Nil
  then show ?case by simp
next
  case (Cons b bs)
  then obtain x where x: "cells m p = Some x"
    and st: "store_bytes (m\<lparr>cells := (cells m)(p \<mapsto> b)\<rparr>) (Suc p) bs = Some m'"
    by (auto split: option.splits)
  from store_bytes_same_except [OF st] have "cells m' p = Some b"
    by (auto simp: same_except_def)
  with Cons.IH [OF st] show ?case by simp
qed

lemma load_store_other:
  assumes "store_bytes m p bs = Some m'" and "q + n \<le> p \<or> p + length bs \<le> q"
  shows "load_bytes m' q n = load_bytes m q n"
  using load_bytes_same_except [OF store_bytes_same_except [OF assms(1)], of q n] assms(2)
  by auto

lemma load_store_word:
  "store_u8 m p b = Some m' \<Longrightarrow> load_u8 m' p = Some b"
  "store_u16 m p w16 = Some m' \<Longrightarrow> load_u16 m' p = Some w16"
  "store_u32 m p w32 = Some m' \<Longrightarrow> load_u32 m' p = Some w32"
  "store_u64 m p w64 = Some m' \<Longrightarrow> load_u64 m' p = Some w64"
  using load_store_bytes [of m p "[b]" m'] load_store_bytes [of m p "le_bytes 2 w16" m']
    load_store_bytes [of m p "le_bytes 4 w32" m'] load_store_bytes [of m p "le_bytes 8 w64" m']
  by (auto simp: store_u8_def store_u16_def store_u32_def store_u64_def
      load_u8_def load_u16_def load_u32_def load_u64_def bind_Some_iff split: Option.bind_splits)

lemma load_store_bool: "store_bool m p b = Some m' \<Longrightarrow> load_bool m' p = Some b"
  by (auto simp: store_bool_def load_bool_def dest: load_store_word(1))

lemma load_store_ptr:
  "store_ptr m p q = Some m' \<Longrightarrow> q < 2 ^ 64 \<Longrightarrow> load_ptr m' p = Some q"
  by (auto simp: store_ptr_def load_ptr_def unat_of_nat dest: load_store_word(4))

section \<open>A heap in order\<close>

text \<open>
  Blocks lie below \<open>brk\<close> and are live; nothing is live between \<open>brk\<close> and the end of the heap.
\<close>

definition wf_heap :: "mem \<Rightarrow> bool" where
  "wf_heap m \<longleftrightarrow>
     heap_end m < 2 ^ 64 \<and> (\<forall>a. brk m \<le> a \<and> a < heap_end m \<longrightarrow> cells m a = None) \<and>
     (\<forall>p n. blocks m p = Some n \<longrightarrow> p + n \<le> brk m \<and> p < brk m)"

lemma c_malloc_block:
  assumes "c_malloc m old n = (q, m')" and "q \<noteq> NULL" and "length old \<le> n"
  shows "q = brk m" and "brk m + n \<le> heap_end m" and "blocks m' = (blocks m)(q \<mapsto> n)"
    and "valid m' q n" and "load_bytes m' q (length old) = Some old"
    and "\<And>a. a < brk m \<Longrightarrow> cells m' a = cells m a"
proof -
  show q: "q = brk m" and "brk m + n \<le> heap_end m" and "blocks m' = (blocks m)(q \<mapsto> n)"
    using assms by (auto simp: c_malloc_def split: if_splits)
  have c: "cells m' = (\<lambda>a. if q \<le> a \<and> a < q + n
      then Some (if a - q < length old then old ! (a - q) else junk m a) else cells m a)"
    using assms by (auto simp: c_malloc_def map_range_def fun_eq_iff split: if_splits)
  show "valid m' q n" by (simp add: valid_def c)
  show "\<And>a. a < brk m \<Longrightarrow> cells m' a = cells m a" using q by (simp add: c)
  have "load_bytes m' (q + i) (length xs) = Some xs" if "drop i old = xs" for i xs
    using that
  proof (induction xs arbitrary: i)
    case Nil
    then show ?case by simp
  next
    case (Cons x xs)
    from Cons.prems have "i < length old" "old ! i = x" "drop (Suc i) old = xs"
      by (auto simp: drop_Suc nth_via_drop drop_tl intro: ccontr)
    with Cons.IH [of "Suc i"] assms(3) show ?case by (simp add: c)
  qed
  from this [of 0 old] show "load_bytes m' q (length old) = Some old" by simp
qed

lemma c_realloc_block:
  assumes "c_realloc m p n = Some (q, m')" and "q \<noteq> NULL" and "wf_heap m"
  shows "q = brk m" and "brk m + n \<le> heap_end m" and "blocks m' q = Some n" and "valid m' q n"
    and "\<And>k. blocks m p = Some k \<Longrightarrow> p \<noteq> NULL \<Longrightarrow>
           load_bytes m' q (min k n) = load_bytes m p (min k n)"
proof -
  have *: "q = brk m \<and> brk m + n \<le> heap_end m \<and> blocks m' q = Some n \<and> valid m' q n \<and>
     (\<forall>k. blocks m p = Some k \<longrightarrow> p \<noteq> NULL \<longrightarrow> load_bytes m' q (min k n) = load_bytes m p (min k n))"
  proof (cases "p = NULL")
    case True
    with assms c_malloc_block [of m "[]" n q m'] show ?thesis by (simp add: c_realloc_def)
  next
    case False
    with assms(1) obtain k old where k: "blocks m p = Some k" and old: "load_bytes m p (min k n) = Some old"
      and rest: "(let (q, m1) = c_malloc m old n in
        if q = NULL then Some (NULL, m1) else do { m2 \<leftarrow> c_free m1 p; Some (q, m2) }) = Some (q, m')"
      by (auto simp: c_realloc_def bind_Some_iff)
    from rest assms(2) obtain m1 where m1: "c_malloc m old n = (q, m1)" and fr: "c_free m1 p = Some m'"
      by (cases "c_malloc m old n") (auto simp: bind_Some_iff split: if_splits)
    from old have len: "length old = min k n" by (rule load_bytes_length)
    note b = c_malloc_block [OF m1 assms(2)]
    from k assms(3) have pk: "p + k \<le> brk m" "p < brk m" by (auto simp: wf_heap_def)
    with b len k False fr have blk: "blocks m' = (blocks m1)(p := None)"
      and c: "\<And>a. brk m \<le> a \<Longrightarrow> cells m' a = cells m1 a"
      by (auto simp: c_free_def unmap_range_def)
    have "valid m' q n" using b(1,4) len c by (simp add: valid_def)
    moreover have "load_bytes m' q (min k n) = load_bytes m1 q (min k n)"
      using b(1) len c by (intro load_bytes_cong) auto
    ultimately show ?thesis using b len blk pk k old by auto
  qed
  then show "q = brk m" and "brk m + n \<le> heap_end m" and "blocks m' q = Some n" and "valid m' q n"
    and "\<And>k. blocks m p = Some k \<Longrightarrow> p \<noteq> NULL \<Longrightarrow>
           load_bytes m' q (min k n) = load_bytes m p (min k n)"
    by auto
qed

end
