(* ===== verification/PB_Types.thy ===== *)
theory PB_Types
  imports C_Memory
begin

text \<open>
  The data of nanopb: the constants and the field descriptor of \<open>pb.h\<close>, the macros that
  declare descriptors, the stream structures of \<open>pb_encode.h\<close> and \<open>pb_decode.h\<close>, and the
  environment a message is handled in (the constant descriptor arrays and the user's function
  pointers, which are parameters of the model). The library is built with \<open>PB_FIELD_32BIT\<close>,
  \<open>PB_NO_PACKED_STRUCTS\<close> and \<open>PB_ENABLE_MALLOC\<close> (the pod's build settings), so \<open>pb_size_t\<close>
  has 32 bits.
\<close>

section \<open>Field types\<close>

type_synonym pb_type_t = byte
type_synonym pb_size_t = u32
type_synonym pb_byte_t = byte

abbreviation (input) PB_MAX_REQUIRED_FIELDS :: nat where "PB_MAX_REQUIRED_FIELDS \<equiv> 64"

abbreviation (input) PB_LTYPE_VARINT :: byte where "PB_LTYPE_VARINT \<equiv> 0x00"
abbreviation (input) PB_LTYPE_UVARINT :: byte where "PB_LTYPE_UVARINT \<equiv> 0x01"
abbreviation (input) PB_LTYPE_SVARINT :: byte where "PB_LTYPE_SVARINT \<equiv> 0x02"
abbreviation (input) PB_LTYPE_FIXED32 :: byte where "PB_LTYPE_FIXED32 \<equiv> 0x03"
abbreviation (input) PB_LTYPE_FIXED64 :: byte where "PB_LTYPE_FIXED64 \<equiv> 0x04"
abbreviation (input) PB_LTYPE_LAST_PACKABLE :: byte where "PB_LTYPE_LAST_PACKABLE \<equiv> 0x04"
abbreviation (input) PB_LTYPE_BYTES :: byte where "PB_LTYPE_BYTES \<equiv> 0x05"
abbreviation (input) PB_LTYPE_STRING :: byte where "PB_LTYPE_STRING \<equiv> 0x06"
abbreviation (input) PB_LTYPE_SUBMESSAGE :: byte where "PB_LTYPE_SUBMESSAGE \<equiv> 0x07"
abbreviation (input) PB_LTYPE_EXTENSION :: byte where "PB_LTYPE_EXTENSION \<equiv> 0x08"
abbreviation (input) PB_LTYPE_FIXED_LENGTH_BYTES :: byte where "PB_LTYPE_FIXED_LENGTH_BYTES \<equiv> 0x09"
abbreviation (input) PB_LTYPES_COUNT :: byte where "PB_LTYPES_COUNT \<equiv> 0x0A"
abbreviation (input) PB_LTYPE_MASK :: byte where "PB_LTYPE_MASK \<equiv> 0x0F"

abbreviation (input) PB_HTYPE_REQUIRED :: byte where "PB_HTYPE_REQUIRED \<equiv> 0x00"
abbreviation (input) PB_HTYPE_OPTIONAL :: byte where "PB_HTYPE_OPTIONAL \<equiv> 0x10"
abbreviation (input) PB_HTYPE_REPEATED :: byte where "PB_HTYPE_REPEATED \<equiv> 0x20"
abbreviation (input) PB_HTYPE_ONEOF :: byte where "PB_HTYPE_ONEOF \<equiv> 0x30"
abbreviation (input) PB_HTYPE_MASK :: byte where "PB_HTYPE_MASK \<equiv> 0x30"

abbreviation (input) PB_ATYPE_STATIC :: byte where "PB_ATYPE_STATIC \<equiv> 0x00"
abbreviation (input) PB_ATYPE_POINTER :: byte where "PB_ATYPE_POINTER \<equiv> 0x80"
abbreviation (input) PB_ATYPE_CALLBACK :: byte where "PB_ATYPE_CALLBACK \<equiv> 0x40"
abbreviation (input) PB_ATYPE_MASK :: byte where "PB_ATYPE_MASK \<equiv> 0xC0"

definition PB_ATYPE :: "byte \<Rightarrow> byte" where
  "PB_ATYPE x = x AND PB_ATYPE_MASK"

definition PB_HTYPE :: "byte \<Rightarrow> byte" where
  "PB_HTYPE x = x AND PB_HTYPE_MASK"

definition PB_LTYPE :: "byte \<Rightarrow> byte" where
  "PB_LTYPE x = x AND PB_LTYPE_MASK"

definition PB_SIZE_MAX :: pb_size_t where
  "PB_SIZE_MAX = - 1"

text \<open>\<open>offsetof(pb_bytes_array_t, bytes)\<close>: the byte array follows the 32-bit size.\<close>

abbreviation (input) BYTES_OFFSET :: nat where "BYTES_OFFSET \<equiv> 4"

definition PB_BYTES_ARRAY_T_ALLOCSIZE :: "u32 \<Rightarrow> size_t" where
  "PB_BYTES_ARRAY_T_ALLOCSIZE n = ucast n + of_nat BYTES_OFFSET"

section \<open>Field descriptors\<close>

text \<open>
  \<open>ptr\<close> of a descriptor is null, the descriptor array of a submessage type (named by its
  address in the constant data, see \<open>msg_fields\<close> below) or the bytes of a default value.
\<close>

datatype pb_ptr = Ptr_null | Ptr_fields addr | Ptr_default "byte list"

record pb_field_t =
  tag :: pb_size_t
  type :: pb_type_t
  data_offset :: pb_size_t
  size_offset :: "32 word"
  data_size :: pb_size_t
  array_size :: pb_size_t
  ptr :: pb_ptr

definition PB_LAST_FIELD :: pb_field_t where
  "PB_LAST_FIELD = \<lparr>tag = 0, type = 0, data_offset = 0, size_offset = 0, data_size = 0,
                    array_size = 0, ptr = Ptr_null\<rparr>"

section \<open>Wire types\<close>

text \<open>\<open>pb_wire_type_t\<close> is an integer type in C: a decoded tag can carry any of the values 0 to 7.\<close>

type_synonym pb_wire_type_t = u32

abbreviation (input) PB_WT_VARINT :: pb_wire_type_t where "PB_WT_VARINT \<equiv> 0"
abbreviation (input) PB_WT_64BIT :: pb_wire_type_t where "PB_WT_64BIT \<equiv> 1"
abbreviation (input) PB_WT_STRING :: pb_wire_type_t where "PB_WT_STRING \<equiv> 2"
abbreviation (input) PB_WT_32BIT :: pb_wire_type_t where "PB_WT_32BIT \<equiv> 5"

section \<open>Declaring descriptors\<close>

text \<open>
  A member of a message structure, as the macros see it: \<open>offsetof\<close>, \<open>sizeof\<close>, and the size
  of one element (\<open>sizeof m[0]\<close>, the pointed-to type for a pointer member).
\<close>

record member =
  m_offset :: nat
  m_size :: nat
  m_elem :: nat

definition pb_membersize :: "member \<Rightarrow> pb_size_t" where
  "pb_membersize m = of_nat (m_size m)"

definition pb_arraysize :: "member \<Rightarrow> pb_size_t" where
  "pb_arraysize m = of_nat (m_size m div m_elem m)"

definition pb_delta :: "member \<Rightarrow> member \<Rightarrow> 32 word" where
  "pb_delta m1 m2 = of_int (int (m_offset m1) - int (m_offset m2))"

definition PB_DATAOFFSET_FIRST :: "member \<Rightarrow> member \<Rightarrow> pb_size_t" where
  "PB_DATAOFFSET_FIRST m1 m2 = of_nat (m_offset m1)"

definition PB_DATAOFFSET_OTHER :: "member \<Rightarrow> member \<Rightarrow> pb_size_t" where
  "PB_DATAOFFSET_OTHER m1 m2 =
     of_int (int (m_offset m1) - int (m_offset m2) - int (m_size m2))"

definition PB_DATAOFFSET_UNION :: "member \<Rightarrow> member \<Rightarrow> pb_size_t" where
  "PB_DATAOFFSET_UNION m1 m2 = PB_SIZE_MAX"

definition PB_DATAOFFSET_CHOOSE :: "member \<Rightarrow> member \<Rightarrow> pb_size_t" where
  "PB_DATAOFFSET_CHOOSE m1 m2 =
     (if m_offset m1 = m_offset m2 then PB_DATAOFFSET_FIRST m1 m2 else PB_DATAOFFSET_OTHER m1 m2)"

definition PB_REQUIRED_STATIC ::
  "u32 \<Rightarrow> member \<Rightarrow> pb_size_t \<Rightarrow> byte \<Rightarrow> pb_ptr \<Rightarrow> pb_field_t" where
  "PB_REQUIRED_STATIC tg m fd ltype p =
     \<lparr>tag = tg, type = PB_ATYPE_STATIC OR PB_HTYPE_REQUIRED OR ltype, data_offset = fd,
      size_offset = 0, data_size = pb_membersize m, array_size = 0, ptr = p\<rparr>"

definition PB_OPTIONAL_STATIC ::
  "u32 \<Rightarrow> member \<Rightarrow> member \<Rightarrow> pb_size_t \<Rightarrow> byte \<Rightarrow> pb_ptr \<Rightarrow> pb_field_t" where
  "PB_OPTIONAL_STATIC tg has m fd ltype p =
     \<lparr>tag = tg, type = PB_ATYPE_STATIC OR PB_HTYPE_OPTIONAL OR ltype, data_offset = fd,
      size_offset = pb_delta has m, data_size = pb_membersize m, array_size = 0, ptr = p\<rparr>"

definition PB_SINGULAR_STATIC ::
  "u32 \<Rightarrow> member \<Rightarrow> pb_size_t \<Rightarrow> byte \<Rightarrow> pb_ptr \<Rightarrow> pb_field_t" where
  "PB_SINGULAR_STATIC tg m fd ltype p =
     \<lparr>tag = tg, type = PB_ATYPE_STATIC OR PB_HTYPE_OPTIONAL OR ltype, data_offset = fd,
      size_offset = 0, data_size = pb_membersize m, array_size = 0, ptr = p\<rparr>"

definition PB_REPEATED_STATIC ::
  "u32 \<Rightarrow> member \<Rightarrow> member \<Rightarrow> pb_size_t \<Rightarrow> byte \<Rightarrow> pb_ptr \<Rightarrow> pb_field_t" where
  "PB_REPEATED_STATIC tg cnt m fd ltype p =
     \<lparr>tag = tg, type = PB_ATYPE_STATIC OR PB_HTYPE_REPEATED OR ltype, data_offset = fd,
      size_offset = pb_delta cnt m, data_size = of_nat (m_elem m),
      array_size = pb_arraysize m, ptr = p\<rparr>"

definition PB_REQUIRED_POINTER ::
  "u32 \<Rightarrow> member \<Rightarrow> pb_size_t \<Rightarrow> byte \<Rightarrow> pb_ptr \<Rightarrow> pb_field_t" where
  "PB_REQUIRED_POINTER tg m fd ltype p =
     \<lparr>tag = tg, type = PB_ATYPE_POINTER OR PB_HTYPE_REQUIRED OR ltype, data_offset = fd,
      size_offset = 0, data_size = of_nat (m_elem m), array_size = 0, ptr = p\<rparr>"

definition PB_OPTIONAL_POINTER ::
  "u32 \<Rightarrow> member \<Rightarrow> pb_size_t \<Rightarrow> byte \<Rightarrow> pb_ptr \<Rightarrow> pb_field_t" where
  "PB_OPTIONAL_POINTER tg m fd ltype p =
     \<lparr>tag = tg, type = PB_ATYPE_POINTER OR PB_HTYPE_OPTIONAL OR ltype, data_offset = fd,
      size_offset = 0, data_size = of_nat (m_elem m), array_size = 0, ptr = p\<rparr>"

definition PB_SINGULAR_POINTER ::
  "u32 \<Rightarrow> member \<Rightarrow> pb_size_t \<Rightarrow> byte \<Rightarrow> pb_ptr \<Rightarrow> pb_field_t" where
  "PB_SINGULAR_POINTER tg m fd ltype p =
     \<lparr>tag = tg, type = PB_ATYPE_POINTER OR PB_HTYPE_OPTIONAL OR ltype, data_offset = fd,
      size_offset = 0, data_size = of_nat (m_elem m), array_size = 0, ptr = p\<rparr>"

definition PB_REPEATED_POINTER ::
  "u32 \<Rightarrow> member \<Rightarrow> member \<Rightarrow> pb_size_t \<Rightarrow> byte \<Rightarrow> pb_ptr \<Rightarrow> pb_field_t" where
  "PB_REPEATED_POINTER tg cnt m fd ltype p =
     \<lparr>tag = tg, type = PB_ATYPE_POINTER OR PB_HTYPE_REPEATED OR ltype, data_offset = fd,
      size_offset = pb_delta cnt m, data_size = of_nat (m_elem m), array_size = 0, ptr = p\<rparr>"

definition PB_REQUIRED_CALLBACK ::
  "u32 \<Rightarrow> member \<Rightarrow> pb_size_t \<Rightarrow> byte \<Rightarrow> pb_ptr \<Rightarrow> pb_field_t" where
  "PB_REQUIRED_CALLBACK tg m fd ltype p =
     \<lparr>tag = tg, type = PB_ATYPE_CALLBACK OR PB_HTYPE_REQUIRED OR ltype, data_offset = fd,
      size_offset = 0, data_size = pb_membersize m, array_size = 0, ptr = p\<rparr>"

definition PB_OPTIONAL_CALLBACK ::
  "u32 \<Rightarrow> member \<Rightarrow> pb_size_t \<Rightarrow> byte \<Rightarrow> pb_ptr \<Rightarrow> pb_field_t" where
  "PB_OPTIONAL_CALLBACK tg m fd ltype p =
     \<lparr>tag = tg, type = PB_ATYPE_CALLBACK OR PB_HTYPE_OPTIONAL OR ltype, data_offset = fd,
      size_offset = 0, data_size = pb_membersize m, array_size = 0, ptr = p\<rparr>"

definition PB_SINGULAR_CALLBACK ::
  "u32 \<Rightarrow> member \<Rightarrow> pb_size_t \<Rightarrow> byte \<Rightarrow> pb_ptr \<Rightarrow> pb_field_t" where
  "PB_SINGULAR_CALLBACK tg m fd ltype p =
     \<lparr>tag = tg, type = PB_ATYPE_CALLBACK OR PB_HTYPE_OPTIONAL OR ltype, data_offset = fd,
      size_offset = 0, data_size = pb_membersize m, array_size = 0, ptr = p\<rparr>"

definition PB_REPEATED_CALLBACK ::
  "u32 \<Rightarrow> member \<Rightarrow> pb_size_t \<Rightarrow> byte \<Rightarrow> pb_ptr \<Rightarrow> pb_field_t" where
  "PB_REPEATED_CALLBACK tg m fd ltype p =
     \<lparr>tag = tg, type = PB_ATYPE_CALLBACK OR PB_HTYPE_REPEATED OR ltype, data_offset = fd,
      size_offset = 0, data_size = pb_membersize m, array_size = 0, ptr = p\<rparr>"

definition PB_OPTEXT_STATIC ::
  "u32 \<Rightarrow> member \<Rightarrow> pb_size_t \<Rightarrow> byte \<Rightarrow> pb_ptr \<Rightarrow> pb_field_t" where
  "PB_OPTEXT_STATIC tg m fd ltype p =
     \<lparr>tag = tg, type = PB_ATYPE_STATIC OR PB_HTYPE_REQUIRED OR ltype, data_offset = 0,
      size_offset = 0, data_size = pb_membersize m, array_size = 0, ptr = p\<rparr>"

definition PB_OPTEXT_POINTER ::
  "u32 \<Rightarrow> member \<Rightarrow> pb_size_t \<Rightarrow> byte \<Rightarrow> pb_ptr \<Rightarrow> pb_field_t" where
  "PB_OPTEXT_POINTER tg m fd ltype p = PB_OPTIONAL_POINTER tg m fd ltype p"

definition PB_OPTEXT_CALLBACK ::
  "u32 \<Rightarrow> member \<Rightarrow> pb_size_t \<Rightarrow> byte \<Rightarrow> pb_ptr \<Rightarrow> pb_field_t" where
  "PB_OPTEXT_CALLBACK tg m fd ltype p = PB_OPTIONAL_CALLBACK tg m fd ltype p"

text \<open>The type names of a \<open>.proto\<close> file and the local type each one is mapped to.\<close>

datatype proto_type =
  BOOL | BYTES | DOUBLE | ENUM | UENUM | FIXED32 | FIXED64 | FLOAT | INT32 | INT64 | MESSAGE
| SFIXED32 | SFIXED64 | SINT32 | SINT64 | STRING | UINT32 | UINT64 | EXTENSION
| FIXED_LENGTH_BYTES

fun PB_LTYPE_MAP :: "proto_type \<Rightarrow> byte" where
  "PB_LTYPE_MAP BOOL = PB_LTYPE_VARINT"
| "PB_LTYPE_MAP BYTES = PB_LTYPE_BYTES"
| "PB_LTYPE_MAP DOUBLE = PB_LTYPE_FIXED64"
| "PB_LTYPE_MAP ENUM = PB_LTYPE_VARINT"
| "PB_LTYPE_MAP UENUM = PB_LTYPE_UVARINT"
| "PB_LTYPE_MAP FIXED32 = PB_LTYPE_FIXED32"
| "PB_LTYPE_MAP FIXED64 = PB_LTYPE_FIXED64"
| "PB_LTYPE_MAP FLOAT = PB_LTYPE_FIXED32"
| "PB_LTYPE_MAP INT32 = PB_LTYPE_VARINT"
| "PB_LTYPE_MAP INT64 = PB_LTYPE_VARINT"
| "PB_LTYPE_MAP MESSAGE = PB_LTYPE_SUBMESSAGE"
| "PB_LTYPE_MAP SFIXED32 = PB_LTYPE_FIXED32"
| "PB_LTYPE_MAP SFIXED64 = PB_LTYPE_FIXED64"
| "PB_LTYPE_MAP SINT32 = PB_LTYPE_SVARINT"
| "PB_LTYPE_MAP SINT64 = PB_LTYPE_SVARINT"
| "PB_LTYPE_MAP STRING = PB_LTYPE_STRING"
| "PB_LTYPE_MAP UINT32 = PB_LTYPE_UVARINT"
| "PB_LTYPE_MAP UINT64 = PB_LTYPE_UVARINT"
| "PB_LTYPE_MAP EXTENSION = PB_LTYPE_EXTENSION"
| "PB_LTYPE_MAP FIXED_LENGTH_BYTES = PB_LTYPE_FIXED_LENGTH_BYTES"

text \<open>
  \<open>PB_FIELD\<close> selects its parts by pasting tokens; here the tokens are datatypes. The second
  member is the one that holds the has-flag or count of \<open>m\<close>, used by the rules that have one.
\<close>

datatype pb_rules = REQUIRED | OPTIONAL | SINGULAR | REPEATED | OPTEXT
datatype pb_alloc = STATIC | POINTER | CALLBACK
datatype pb_place = FIRST | OTHER | UNION | CHOOSE

fun PB_DATAOFFSET :: "pb_place \<Rightarrow> member \<Rightarrow> member \<Rightarrow> pb_size_t" where
  "PB_DATAOFFSET FIRST m1 m2 = PB_DATAOFFSET_FIRST m1 m2"
| "PB_DATAOFFSET OTHER m1 m2 = PB_DATAOFFSET_OTHER m1 m2"
| "PB_DATAOFFSET UNION m1 m2 = PB_DATAOFFSET_UNION m1 m2"
| "PB_DATAOFFSET CHOOSE m1 m2 = PB_DATAOFFSET_CHOOSE m1 m2"

fun PB_RULES_ALLOC ::
  "pb_rules \<Rightarrow> pb_alloc \<Rightarrow> u32 \<Rightarrow> member \<Rightarrow> member \<Rightarrow> pb_size_t \<Rightarrow> byte \<Rightarrow> pb_ptr \<Rightarrow> pb_field_t" where
  "PB_RULES_ALLOC REQUIRED STATIC tg aux m = PB_REQUIRED_STATIC tg m"
| "PB_RULES_ALLOC OPTIONAL STATIC tg aux m = PB_OPTIONAL_STATIC tg aux m"
| "PB_RULES_ALLOC SINGULAR STATIC tg aux m = PB_SINGULAR_STATIC tg m"
| "PB_RULES_ALLOC REPEATED STATIC tg aux m = PB_REPEATED_STATIC tg aux m"
| "PB_RULES_ALLOC OPTEXT STATIC tg aux m = PB_OPTEXT_STATIC tg m"
| "PB_RULES_ALLOC REQUIRED POINTER tg aux m = PB_REQUIRED_POINTER tg m"
| "PB_RULES_ALLOC OPTIONAL POINTER tg aux m = PB_OPTIONAL_POINTER tg m"
| "PB_RULES_ALLOC SINGULAR POINTER tg aux m = PB_SINGULAR_POINTER tg m"
| "PB_RULES_ALLOC REPEATED POINTER tg aux m = PB_REPEATED_POINTER tg aux m"
| "PB_RULES_ALLOC OPTEXT POINTER tg aux m = PB_OPTEXT_POINTER tg m"
| "PB_RULES_ALLOC REQUIRED CALLBACK tg aux m = PB_REQUIRED_CALLBACK tg m"
| "PB_RULES_ALLOC OPTIONAL CALLBACK tg aux m = PB_OPTIONAL_CALLBACK tg m"
| "PB_RULES_ALLOC SINGULAR CALLBACK tg aux m = PB_SINGULAR_CALLBACK tg m"
| "PB_RULES_ALLOC REPEATED CALLBACK tg aux m = PB_REPEATED_CALLBACK tg m"
| "PB_RULES_ALLOC OPTEXT CALLBACK tg aux m = PB_OPTEXT_CALLBACK tg m"

definition PB_FIELD ::
  "u32 \<Rightarrow> proto_type \<Rightarrow> pb_rules \<Rightarrow> pb_alloc \<Rightarrow> pb_place \<Rightarrow> member \<Rightarrow> member \<Rightarrow> member \<Rightarrow> pb_ptr
   \<Rightarrow> pb_field_t" where
  "PB_FIELD tg ty rules alloc place aux field prevfield p =
     PB_RULES_ALLOC rules alloc tg aux field (PB_DATAOFFSET place field prevfield)
       (PB_LTYPE_MAP ty) p"

definition PB_REPEATED_FIXED_COUNT ::
  "u32 \<Rightarrow> proto_type \<Rightarrow> pb_place \<Rightarrow> member \<Rightarrow> member \<Rightarrow> pb_ptr \<Rightarrow> pb_field_t" where
  "PB_REPEATED_FIXED_COUNT tg ty place field prevfield p =
     \<lparr>tag = tg, type = PB_ATYPE_STATIC OR PB_HTYPE_REPEATED OR PB_LTYPE_MAP ty,
      data_offset = PB_DATAOFFSET place field prevfield, size_offset = 0,
      data_size = of_nat (m_elem field), array_size = pb_arraysize field, ptr = p\<rparr>"

definition PB_ONEOF_STATIC ::
  "member \<Rightarrow> u32 \<Rightarrow> member \<Rightarrow> pb_size_t \<Rightarrow> byte \<Rightarrow> pb_ptr \<Rightarrow> pb_field_t" where
  "PB_ONEOF_STATIC which tg m fd ltype p =
     \<lparr>tag = tg, type = PB_ATYPE_STATIC OR PB_HTYPE_ONEOF OR ltype, data_offset = fd,
      size_offset = pb_delta which m, data_size = pb_membersize m, array_size = 0, ptr = p\<rparr>"

definition PB_ONEOF_POINTER ::
  "member \<Rightarrow> u32 \<Rightarrow> member \<Rightarrow> pb_size_t \<Rightarrow> byte \<Rightarrow> pb_ptr \<Rightarrow> pb_field_t" where
  "PB_ONEOF_POINTER which tg m fd ltype p =
     \<lparr>tag = tg, type = PB_ATYPE_POINTER OR PB_HTYPE_ONEOF OR ltype, data_offset = fd,
      size_offset = pb_delta which m, data_size = of_nat (m_elem m), array_size = 0, ptr = p\<rparr>"

text \<open>There is no \<open>PB_ONEOF_CALLBACK\<close>: such a declaration does not compile.\<close>

fun PB_ONEOF_FIELD ::
  "member \<Rightarrow> u32 \<Rightarrow> proto_type \<Rightarrow> pb_alloc \<Rightarrow> pb_place \<Rightarrow> member \<Rightarrow> member \<Rightarrow> pb_ptr
   \<Rightarrow> pb_field_t option" where
  "PB_ONEOF_FIELD which tg ty STATIC place field prevfield p =
     Some (PB_ONEOF_STATIC which tg field (PB_DATAOFFSET place field prevfield)
             (PB_LTYPE_MAP ty) p)"
| "PB_ONEOF_FIELD which tg ty POINTER place field prevfield p =
     Some (PB_ONEOF_POINTER which tg field (PB_DATAOFFSET place field prevfield)
             (PB_LTYPE_MAP ty) p)"
| "PB_ONEOF_FIELD which tg ty CALLBACK place field prevfield p = None"

definition PB_ANONYMOUS_ONEOF_STATIC ::
  "member \<Rightarrow> u32 \<Rightarrow> member \<Rightarrow> pb_size_t \<Rightarrow> byte \<Rightarrow> pb_ptr \<Rightarrow> pb_field_t" where
  "PB_ANONYMOUS_ONEOF_STATIC which tg m fd ltype p =
     \<lparr>tag = tg, type = PB_ATYPE_STATIC OR PB_HTYPE_ONEOF OR ltype, data_offset = fd,
      size_offset = pb_delta which m, data_size = pb_membersize m, array_size = 0, ptr = p\<rparr>"

definition PB_ANONYMOUS_ONEOF_POINTER ::
  "member \<Rightarrow> u32 \<Rightarrow> member \<Rightarrow> pb_size_t \<Rightarrow> byte \<Rightarrow> pb_ptr \<Rightarrow> pb_field_t" where
  "PB_ANONYMOUS_ONEOF_POINTER which tg m fd ltype p =
     \<lparr>tag = tg, type = PB_ATYPE_POINTER OR PB_HTYPE_ONEOF OR ltype, data_offset = fd,
      size_offset = pb_delta which m, data_size = of_nat (m_elem m), array_size = 0, ptr = p\<rparr>"

fun PB_ANONYMOUS_ONEOF_FIELD ::
  "member \<Rightarrow> u32 \<Rightarrow> proto_type \<Rightarrow> pb_alloc \<Rightarrow> pb_place \<Rightarrow> member \<Rightarrow> member \<Rightarrow> pb_ptr
   \<Rightarrow> pb_field_t option" where
  "PB_ANONYMOUS_ONEOF_FIELD which tg ty STATIC place field prevfield p =
     Some (PB_ANONYMOUS_ONEOF_STATIC which tg field (PB_DATAOFFSET place field prevfield)
             (PB_LTYPE_MAP ty) p)"
| "PB_ANONYMOUS_ONEOF_FIELD which tg ty POINTER place field prevfield p =
     Some (PB_ANONYMOUS_ONEOF_POINTER which tg field (PB_DATAOFFSET place field prevfield)
             (PB_LTYPE_MAP ty) p)"
| "PB_ANONYMOUS_ONEOF_FIELD which tg ty CALLBACK place field prevfield p = None"

section \<open>Streams\<close>

text \<open>
  An output stream. The state of a buffer stream is the buffer with the write position; a user
  stream may keep anything there. \<open>OC_null\<close> is the null callback of a sizing stream.
\<close>

record ostate =
  obuf :: "byte list"
  opos :: nat

datatype ocallback = OC_null | OC_buf_write | OC_user "ostate \<Rightarrow> byte list \<Rightarrow> bool \<times> ostate"

record pb_ostream_t =
  o_callback :: ocallback
  o_state :: ostate
  max_size :: size_t
  bytes_written :: size_t
  o_errmsg :: "string option"

text \<open>
  An input stream. The state of a buffer stream is the pointer into the constant input,
  represented by the bytes from there to the end of the buffer. A user callback gets the state,
  \<open>bytes_left\<close> and the count, and gives its verdict, the bytes it put into the buffer, and the
  new state and \<open>bytes_left\<close> (it may set that to 0 to signal the end of the input).
\<close>

datatype icallback =
  IC_buf_read
| IC_user "byte list \<Rightarrow> size_t \<Rightarrow> nat \<Rightarrow> bool \<times> byte list \<times> byte list \<times> size_t"

record pb_istream_t =
  i_callback :: icallback
  i_state :: "byte list"
  bytes_left :: size_t
  i_errmsg :: "string option"

section \<open>Error messages\<close>

definition PB_SET_ERROR :: "string option \<Rightarrow> string \<Rightarrow> string option" where
  "PB_SET_ERROR e msg = (case e of None \<Rightarrow> Some msg | Some m \<Rightarrow> Some m)"

definition PB_GET_ERROR :: "string option \<Rightarrow> string" where
  "PB_GET_ERROR e = (case e of None \<Rightarrow> ''(none)'' | Some m \<Rightarrow> m)"

definition o_error :: "pb_ostream_t \<Rightarrow> string \<Rightarrow> bool \<times> pb_ostream_t" where
  "o_error s msg = (False, s\<lparr>o_errmsg := PB_SET_ERROR (o_errmsg s) msg\<rparr>)"

definition i_error :: "pb_istream_t \<Rightarrow> string \<Rightarrow> pb_istream_t" where
  "i_error s msg = s\<lparr>i_errmsg := PB_SET_ERROR (i_errmsg s) msg\<rparr>"

section \<open>The environment\<close>

text \<open>
  Extension types are constants; \<open>et_decode\<close> and \<open>et_encode\<close> are function pointers (0 for
  null) and \<open>et_arg\<close> the descriptor of the extension field. An extension itself is a
  \<open>pb_extension_t\<close> in memory: its type at offset 0, \<open>dest\<close> at 8, \<open>next\<close> at 16 and \<open>found\<close>
  at 24. A \<open>pb_callback_t\<close> in memory has its function pointer at 0 and \<open>arg\<close> at 8.
\<close>

record pb_extension_type_t =
  et_decode :: addr
  et_encode :: addr
  et_arg :: addr

abbreviation (input) EXT_TYPE :: nat where "EXT_TYPE \<equiv> 0"
abbreviation (input) EXT_DEST :: nat where "EXT_DEST \<equiv> 8"
abbreviation (input) EXT_NEXT :: nat where "EXT_NEXT \<equiv> 16"
abbreviation (input) EXT_FOUND :: nat where "EXT_FOUND \<equiv> 24"
abbreviation (input) CB_FUNCS :: nat where "CB_FUNCS \<equiv> 0"
abbreviation (input) CB_ARG :: nat where "CB_ARG \<equiv> 8"

record pb_env =
  msg_fields :: "addr \<Rightarrow> pb_field_t list"
  ext_types :: "addr \<Rightarrow> pb_extension_type_t option"
  cb_encode :: "addr \<Rightarrow> mem \<Rightarrow> pb_ostream_t \<Rightarrow> pb_field_t \<Rightarrow> addr \<Rightarrow> (bool \<times> pb_ostream_t) option"
  cb_ext_encode :: "addr \<Rightarrow> mem \<Rightarrow> pb_ostream_t \<Rightarrow> addr \<Rightarrow> (bool \<times> pb_ostream_t) option"
  cb_decode :: "addr \<Rightarrow> mem \<Rightarrow> pb_istream_t \<Rightarrow> pb_field_t \<Rightarrow> addr
                \<Rightarrow> (bool \<times> pb_istream_t \<times> mem) option"
  cb_ext_decode :: "addr \<Rightarrow> mem \<Rightarrow> pb_istream_t \<Rightarrow> addr \<Rightarrow> u32 \<Rightarrow> pb_wire_type_t
                    \<Rightarrow> (bool \<times> pb_istream_t \<times> mem) option"

definition field_at :: "pb_env \<Rightarrow> addr \<Rightarrow> nat \<Rightarrow> pb_field_t" where
  "field_at \<Gamma> fs i =
     (if i < length (msg_fields \<Gamma> fs) then msg_fields \<Gamma> fs ! i else PB_LAST_FIELD)"

section \<open>Facts\<close>

lemma PB_SET_ERROR_simps [simp]:
  "PB_SET_ERROR None msg = Some msg"
  "PB_SET_ERROR (Some m) msg = Some m"
  by (simp_all add: PB_SET_ERROR_def)

lemma PB_SET_ERROR_not_None [simp]: "PB_SET_ERROR e msg \<noteq> None"
  by (cases e) simp_all

lemma o_error_simps [simp]:
  "fst (o_error s msg) = False"
  "o_callback (snd (o_error s msg)) = o_callback s"
  "o_state (snd (o_error s msg)) = o_state s"
  "max_size (snd (o_error s msg)) = max_size s"
  "bytes_written (snd (o_error s msg)) = bytes_written s"
  "o_error s msg = (b, s') \<longleftrightarrow> b = False \<and> s' = snd (o_error s msg)"
  by (auto simp: o_error_def)

lemma i_error_simps [simp]:
  "i_callback (i_error s msg) = i_callback s"
  "i_state (i_error s msg) = i_state s"
  "bytes_left (i_error s msg) = bytes_left s"
  "i_errmsg (i_error s msg) \<noteq> None"
  by (simp_all add: i_error_def)

text \<open>The three parts of a type byte are independent.\<close>

lemma type_parts:
  assumes "a \<in> {PB_ATYPE_STATIC, PB_ATYPE_POINTER, PB_ATYPE_CALLBACK}"
    and "h \<in> {PB_HTYPE_REQUIRED, PB_HTYPE_OPTIONAL, PB_HTYPE_REPEATED, PB_HTYPE_ONEOF}"
    and "l < PB_LTYPES_COUNT"
  shows "PB_ATYPE (a OR h OR l) = a" and "PB_HTYPE (a OR h OR l) = h"
    and "PB_LTYPE (a OR h OR l) = l"
proof -
  have "unat l < 10" using assms(3) by (simp add: word_less_nat_alt)
  then have "unat l \<in> {0, 1, 2, 3, 4, 5, 6, 7, 8, 9}" by auto
  then have l: "l \<in> {0, 1, 2, 3, 4, 5, 6, 7, 8, 9}" by (simp add: word_unat_eq_iff)
  show "PB_ATYPE (a OR h OR l) = a" and "PB_HTYPE (a OR h OR l) = h"
    and "PB_LTYPE (a OR h OR l) = l"
    using assms(1,2) l
    by (elim insertE emptyE; simp add: PB_ATYPE_def PB_HTYPE_def PB_LTYPE_def)+
qed

end
