(* ===== verification/PB_Common.thy ===== *)
theory PB_Common
  imports PB_Types
begin

text \<open>
  The field iterator of \<open>pb_common.c\<close>: it walks a descriptor array and keeps the addresses of
  the current field's data and of its count or has-flag. The second half shows that the pointers
  it computes incrementally are the ones a direct sum over the preceding descriptors gives, and
  what \<open>pb_field_iter_find\<close> finds.
\<close>

section \<open>Iterator state\<close>

text \<open>
  \<open>pSize\<close> points into the message structure or, while \<open>pb_decode_noinit\<close> handles a repeated
  field of fixed count, at that function's local variable \<open>fixed_count_size\<close>, which is kept
  here beside the iterator. \<open>pos\<close> is an index into the array at \<open>start\<close>.
\<close>

datatype psize = At addr | At_fixed_count

record pb_field_iter_t =
  start :: addr
  pos :: nat
  required_field_index :: nat
  dest_struct :: addr
  pData :: addr
  pSize :: psize
  fixed_count_size :: u32

definition cur_field :: "pb_env \<Rightarrow> pb_field_iter_t \<Rightarrow> pb_field_t" where
  "cur_field \<Gamma> it = field_at \<Gamma> (start it) (pos it)"

definition empty_iter :: pb_field_iter_t where
  "empty_iter = \<lparr>start = 0, pos = 0, required_field_index = 0, dest_struct = 0, pData = 0,
                 pSize = At 0, fixed_count_size = 0\<rparr>"

definition pb_field_iter_begin ::
  "pb_env \<Rightarrow> pb_field_iter_t \<Rightarrow> addr \<Rightarrow> addr \<Rightarrow> bool \<times> pb_field_iter_t" where
  "pb_field_iter_begin \<Gamma> it fs dest =
     (let f = field_at \<Gamma> fs 0; d = dest + unat (data_offset f) in
      (tag f \<noteq> 0,
       it\<lparr>start := fs, pos := 0, required_field_index := 0, dest_struct := dest,
          pData := d, pSize := At (ptr_add d (sint (size_offset f)))\<rparr>))"

definition prev_size :: "pb_field_t \<Rightarrow> nat" where
  "prev_size prev_field =
     (if PB_ATYPE (type prev_field) = PB_ATYPE_STATIC \<and>
         PB_HTYPE (type prev_field) = PB_HTYPE_REPEATED
      then unat (data_size prev_field) * unat (array_size prev_field)
      else if PB_ATYPE (type prev_field) = PB_ATYPE_POINTER then PTR_SIZE
      else unat (data_size prev_field))"

definition pb_field_iter_next :: "pb_env \<Rightarrow> pb_field_iter_t \<Rightarrow> bool \<times> pb_field_iter_t" where
  "pb_field_iter_next \<Gamma> it =
     (let prev_field = cur_field \<Gamma> it in
      if tag prev_field = 0 then (False, it)
      else
        let it = it\<lparr>pos := Suc (pos it)\<rparr>; f = cur_field \<Gamma> it in
        if tag f = 0 then (False, snd (pb_field_iter_begin \<Gamma> it (start it) (dest_struct it)))
        else if PB_HTYPE (type prev_field) = PB_HTYPE_ONEOF \<and> PB_HTYPE (type f) = PB_HTYPE_ONEOF
                \<and> data_offset f = PB_SIZE_MAX
        then (True, it)
        else
          let r = (if PB_HTYPE (type prev_field) = PB_HTYPE_REQUIRED
                   then Suc (required_field_index it) else required_field_index it);
              d = pData it + prev_size prev_field + unat (data_offset f)
          in (True, it\<lparr>required_field_index := r, pData := d,
                       pSize := At (ptr_add d (sint (size_offset f)))\<rparr>))"

text \<open>The \<open>do ... while (iter->pos != start)\<close> loop; the bound on its rounds is the array's length.\<close>

fun iter_find_loop ::
  "nat \<Rightarrow> pb_env \<Rightarrow> nat \<Rightarrow> u32 \<Rightarrow> pb_field_iter_t \<Rightarrow> (bool \<times> pb_field_iter_t) option" where
  "iter_find_loop 0 \<Gamma> start_pos tg it = None"
| "iter_find_loop (Suc n) \<Gamma> start_pos tg it =
     (if tag (cur_field \<Gamma> it) = tg \<and> PB_LTYPE (type (cur_field \<Gamma> it)) \<noteq> PB_LTYPE_EXTENSION
      then Some (True, it)
      else let it' = snd (pb_field_iter_next \<Gamma> it) in
           if pos it' = start_pos then Some (False, it')
           else iter_find_loop n \<Gamma> start_pos tg it')"

definition pb_field_iter_find ::
  "pb_env \<Rightarrow> pb_field_iter_t \<Rightarrow> u32 \<Rightarrow> (bool \<times> pb_field_iter_t) option" where
  "pb_field_iter_find \<Gamma> it tg =
     iter_find_loop (Suc (length (msg_fields \<Gamma> (start it)))) \<Gamma> (pos it) tg it"

text \<open>
  The callers of the iterator all run \<open>do body while (pb_field_iter_next(&iter))\<close>; the body
  returns false to leave the loop early. The bound on the rounds is again the array's length.
\<close>

fun fields_loop ::
  "nat \<Rightarrow> pb_env \<Rightarrow> (pb_field_iter_t \<Rightarrow> 's \<Rightarrow> (bool \<times> 's) option) \<Rightarrow> pb_field_iter_t \<Rightarrow> 's
   \<Rightarrow> (bool \<times> 's) option" where
  "fields_loop 0 \<Gamma> body it s = None"
| "fields_loop (Suc n) \<Gamma> body it s =
     do {
       (ok, s) \<leftarrow> body it s;
       if \<not> ok then Some (False, s)
       else let (more_fields, it') = pb_field_iter_next \<Gamma> it in
            if more_fields then fields_loop n \<Gamma> body it' s else Some (True, s)
     }"

definition for_all_fields ::
  "pb_env \<Rightarrow> addr \<Rightarrow> addr \<Rightarrow> (pb_field_iter_t \<Rightarrow> 's \<Rightarrow> (bool \<times> 's) option) \<Rightarrow> 's
   \<Rightarrow> (bool \<times> 's) option" where
  "for_all_fields \<Gamma> fs dest body s =
     (let (nonempty, it) = pb_field_iter_begin \<Gamma> empty_iter fs dest in
      if \<not> nonempty then Some (True, s)
      else fields_loop (length (msg_fields \<Gamma> fs)) \<Gamma> body it s)"

section \<open>What the pointers are\<close>

text \<open>
  The reference: offset of the \<open>k\<close>-th field, of its count or has-flag, and the number of
  required fields before it, as functions of the descriptor list alone.
\<close>

definition in_union :: "pb_field_t list \<Rightarrow> nat \<Rightarrow> bool" where
  "in_union fs k \<longleftrightarrow> 0 < k \<and> PB_HTYPE (type (fs ! (k - 1))) = PB_HTYPE_ONEOF \<and>
     PB_HTYPE (type (fs ! k)) = PB_HTYPE_ONEOF \<and> data_offset (fs ! k) = PB_SIZE_MAX"

fun data_off :: "pb_field_t list \<Rightarrow> nat \<Rightarrow> nat" where
  "data_off fs 0 = unat (data_offset (fs ! 0))"
| "data_off fs (Suc k) =
     (if in_union fs (Suc k) then data_off fs k
      else data_off fs k + prev_size (fs ! k) + unat (data_offset (fs ! Suc k)))"

fun union_head :: "pb_field_t list \<Rightarrow> nat \<Rightarrow> nat" where
  "union_head fs 0 = 0"
| "union_head fs (Suc k) = (if in_union fs (Suc k) then union_head fs k else Suc k)"

definition size_addr :: "pb_field_t list \<Rightarrow> addr \<Rightarrow> nat \<Rightarrow> addr" where
  "size_addr fs dest k = ptr_add (dest + data_off fs k) (sint (size_offset (fs ! union_head fs k)))"

definition is_required :: "pb_field_t \<Rightarrow> bool" where
  "is_required f \<longleftrightarrow> PB_HTYPE (type f) = PB_HTYPE_REQUIRED"

definition req_index :: "pb_field_t list \<Rightarrow> nat \<Rightarrow> nat" where
  "req_index fs k = length (filter is_required (take k fs))"

text \<open>A descriptor array as the macros build it: no entry but the terminator has tag 0.\<close>

definition wf_fields :: "pb_field_t list \<Rightarrow> bool" where
  "wf_fields fs \<longleftrightarrow> (\<forall>f \<in> set fs. tag f \<noteq> 0)"

definition iter_at :: "pb_env \<Rightarrow> addr \<Rightarrow> addr \<Rightarrow> u32 \<Rightarrow> nat \<Rightarrow> pb_field_iter_t" where
  "iter_at \<Gamma> fs dest fc k =
     \<lparr>start = fs, pos = k, required_field_index = req_index (msg_fields \<Gamma> fs) k,
      dest_struct = dest, pData = dest + data_off (msg_fields \<Gamma> fs) k,
      pSize = At (size_addr (msg_fields \<Gamma> fs) dest k), fixed_count_size = fc\<rparr>"

section \<open>Correctness of the iterator\<close>

lemma iter_at_sel [simp]:
  "start (iter_at \<Gamma> fs dest fc k) = fs"
  "pos (iter_at \<Gamma> fs dest fc k) = k"
  "required_field_index (iter_at \<Gamma> fs dest fc k) = req_index (msg_fields \<Gamma> fs) k"
  "dest_struct (iter_at \<Gamma> fs dest fc k) = dest"
  "pData (iter_at \<Gamma> fs dest fc k) = dest + data_off (msg_fields \<Gamma> fs) k"
  "pSize (iter_at \<Gamma> fs dest fc k) = At (size_addr (msg_fields \<Gamma> fs) dest k)"
  "fixed_count_size (iter_at \<Gamma> fs dest fc k) = fc"
  by (simp_all add: iter_at_def)

lemma cur_field_iter_at [simp]:
  "k < length (msg_fields \<Gamma> fs) \<Longrightarrow> cur_field \<Gamma> (iter_at \<Gamma> fs dest fc k) = msg_fields \<Gamma> fs ! k"
  by (simp add: cur_field_def field_at_def)

lemma field_at_out [simp]: "length (msg_fields \<Gamma> fs) \<le> k \<Longrightarrow> tag (field_at \<Gamma> fs k) = 0"
  by (simp add: field_at_def PB_LAST_FIELD_def)

lemma wf_fields_tag: "wf_fields fs \<Longrightarrow> k < length fs \<Longrightarrow> tag (fs ! k) \<noteq> 0"
  by (simp add: wf_fields_def)

lemma iter_begin_at:
  assumes "msg_fields \<Gamma> fs \<noteq> []"
  shows "snd (pb_field_iter_begin \<Gamma> it fs dest) = iter_at \<Gamma> fs dest (fixed_count_size it) 0"
  using assms
  by (simp add: pb_field_iter_begin_def iter_at_def field_at_def Let_def size_addr_def
      req_index_def)

lemma iter_begin_empty:
  "msg_fields \<Gamma> fs = [] \<Longrightarrow> \<not> fst (pb_field_iter_begin \<Gamma> it fs dest)"
  by (simp add: pb_field_iter_begin_def Let_def)

lemma iter_begin_nonempty:
  assumes "wf_fields (msg_fields \<Gamma> fs)" and "msg_fields \<Gamma> fs \<noteq> []"
  shows "pb_field_iter_begin \<Gamma> it fs dest = (True, iter_at \<Gamma> fs dest (fixed_count_size it) 0)"
proof -
  have "fst (pb_field_iter_begin \<Gamma> it fs dest)"
    using assms wf_fields_tag [OF assms(1), of 0]
    by (simp add: pb_field_iter_begin_def Let_def field_at_def)
  with iter_begin_at [OF assms(2), of it dest] show ?thesis
    by (metis prod.collapse)
qed

lemma req_index_Suc:
  "k < length fs \<Longrightarrow> req_index fs (Suc k) = req_index fs k + (if is_required (fs ! k) then 1 else 0)"
  by (simp add: req_index_def take_Suc_conv_app_nth)

lemma iter_next_inner:
  assumes wf: "wf_fields (msg_fields \<Gamma> fs)" and k: "Suc k < length (msg_fields \<Gamma> fs)"
  shows "pb_field_iter_next \<Gamma> (iter_at \<Gamma> fs dest fc k) = (True, iter_at \<Gamma> fs dest fc (Suc k))"
proof -
  let ?fs = "msg_fields \<Gamma> fs"
  have nz: "tag (?fs ! k) \<noteq> 0" "tag (?fs ! Suc k) \<noteq> 0"
    using wf_fields_tag [OF wf] k by simp_all
  have fat: "field_at \<Gamma> fs k = ?fs ! k" "field_at \<Gamma> fs (Suc k) = ?fs ! Suc k"
    using k by (simp_all add: field_at_def)
  show ?thesis
  proof (cases "in_union ?fs (Suc k)")
    case True
    then show ?thesis using nz fat k
      by (simp add: pb_field_iter_next_def cur_field_def Let_def in_union_def iter_at_def
          size_addr_def req_index_Suc is_required_def)
  next
    case False
    then have u: "\<not> (PB_HTYPE (type (?fs ! k)) = PB_HTYPE_ONEOF \<and>
        PB_HTYPE (type (?fs ! Suc k)) = PB_HTYPE_ONEOF \<and> data_offset (?fs ! Suc k) = PB_SIZE_MAX)"
      by (simp add: in_union_def)
    have off: "data_off ?fs (Suc k) =
        data_off ?fs k + prev_size (?fs ! k) + unat (data_offset (?fs ! Suc k))"
      "union_head ?fs (Suc k) = Suc k"
      using False by simp_all
    show ?thesis
      unfolding pb_field_iter_next_def cur_field_def Let_def iter_at_sel fat
      using nz u k
      by (auto simp: fat iter_at_def size_addr_def off req_index_Suc is_required_def add.assoc
          simp del: data_off.simps union_head.simps)
  qed
qed

lemma iter_next_wrap:
  assumes "wf_fields (msg_fields \<Gamma> fs)" and "Suc k = length (msg_fields \<Gamma> fs)"
  shows "pb_field_iter_next \<Gamma> (iter_at \<Gamma> fs dest fc k) = (False, iter_at \<Gamma> fs dest fc 0)"
proof -
  have ne: "msg_fields \<Gamma> fs \<noteq> []" using assms(2) by auto
  have "tag (msg_fields \<Gamma> fs ! k) \<noteq> 0" using wf_fields_tag [OF assms(1)] assms(2) by simp
  then have tk: "tag (field_at \<Gamma> fs k) \<noteq> 0" using assms(2) by (simp add: field_at_def)
  have "tag (field_at \<Gamma> fs (Suc k)) = 0" using assms(2) by (intro field_at_out) simp
  with tk show ?thesis
    by (simp add: pb_field_iter_next_def cur_field_def Let_def iter_begin_at [OF ne])
qed

lemma iter_next_at:
  assumes "wf_fields (msg_fields \<Gamma> fs)" and "k < length (msg_fields \<Gamma> fs)"
  shows "pb_field_iter_next \<Gamma> (iter_at \<Gamma> fs dest fc k) =
     (Suc k < length (msg_fields \<Gamma> fs),
      iter_at \<Gamma> fs dest fc (Suc k mod length (msg_fields \<Gamma> fs)))"
proof (cases "Suc k < length (msg_fields \<Gamma> fs)")
  case True
  then show ?thesis using iter_next_inner [OF assms(1) True] by simp
next
  case False
  then have "Suc k = length (msg_fields \<Gamma> fs)" using assms(2) by simp
  then show ?thesis using iter_next_wrap [OF assms(1)] by simp
qed

section \<open>Visiting all fields\<close>

fun run_fields :: "(nat \<Rightarrow> 's \<Rightarrow> (bool \<times> 's) option) \<Rightarrow> nat list \<Rightarrow> 's \<Rightarrow> (bool \<times> 's) option" where
  "run_fields body [] s = Some (True, s)"
| "run_fields body (k # ks) s =
     do { (ok, s) \<leftarrow> body k s; if \<not> ok then Some (False, s) else run_fields body ks s }"

lemma run_fields_cong:
  "(\<And>k s. k \<in> set ks \<Longrightarrow> f k s = g k s) \<Longrightarrow> run_fields f ks s = run_fields g ks s"
  by (induction ks arbitrary: s) (auto split: Option.bind_splits)

lemma fields_loop_run:
  assumes wf: "wf_fields (msg_fields \<Gamma> fs)" and k: "k < length (msg_fields \<Gamma> fs)"
    and n: "length (msg_fields \<Gamma> fs) - k \<le> n"
  shows "fields_loop n \<Gamma> body (iter_at \<Gamma> fs dest fc k) s =
         run_fields (\<lambda>j. body (iter_at \<Gamma> fs dest fc j)) [k..<length (msg_fields \<Gamma> fs)] s"
  using k n
proof (induction n arbitrary: k s)
  case 0
  then show ?case by simp
next
  case (Suc n)
  let ?n = "length (msg_fields \<Gamma> fs)"
  have nx: "pb_field_iter_next \<Gamma> (iter_at \<Gamma> fs dest fc k) =
      (Suc k < ?n, iter_at \<Gamma> fs dest fc (Suc k mod ?n))"
    using wf Suc.prems(1) by (rule iter_next_at)
  have up: "[k..<?n] = k # [Suc k..<?n]" using Suc.prems(1) by (simp add: upt_conv_Cons)
  show ?case
  proof (cases "Suc k < ?n")
    case True
    then show ?thesis using Suc.IH [of "Suc k"] Suc.prems nx up
      by (auto simp: split_def split: Option.bind_splits)
  next
    case False
    then show ?thesis using Suc.prems nx up
      by (auto simp: split_def split: Option.bind_splits)
  qed
qed

lemma for_all_fields_run:
  assumes "wf_fields (msg_fields \<Gamma> fs)"
  shows "for_all_fields \<Gamma> fs dest body s =
         run_fields (\<lambda>j. body (iter_at \<Gamma> fs dest 0 j)) [0..<length (msg_fields \<Gamma> fs)] s"
proof (cases "msg_fields \<Gamma> fs = []")
  case True
  then show ?thesis using iter_begin_empty [OF True, of empty_iter dest]
    by (simp add: for_all_fields_def split_def)
next
  case False
  then show ?thesis
    using iter_begin_nonempty [OF assms False, of empty_iter dest]
      fields_loop_run [OF assms, of 0 "length (msg_fields \<Gamma> fs)" body dest 0 s]
    by (simp add: for_all_fields_def empty_iter_def)
qed

section \<open>Finding a field\<close>

definition matches :: "u32 \<Rightarrow> pb_field_t \<Rightarrow> bool" where
  "matches tg f \<longleftrightarrow> tag f = tg \<and> PB_LTYPE (type f) \<noteq> PB_LTYPE_EXTENSION"

text \<open>
  The positions from \<open>k\<close> once around the array. The loop examines them in this order.
\<close>

definition around :: "nat \<Rightarrow> nat \<Rightarrow> nat list" where
  "around n k = [k..<n] @ [0..<k]"

lemma set_around: "k < n \<Longrightarrow> set (around n k) = {0..<n}"
  by (auto simp: around_def)

lemma around_nth: "k < n \<Longrightarrow> i < n \<Longrightarrow> around n k ! i = (k + i) mod n"
  by (auto simp: around_def nth_append mod_if)

lemma length_around [simp]: "k < n \<Longrightarrow> length (around n k) = n"
  by (simp add: around_def)

lemma iter_find_loop_at:
  assumes wf: "wf_fields (msg_fields \<Gamma> fs)" and n: "n = length (msg_fields \<Gamma> fs)"
    and s: "s < n" and i: "i < n" and none: "\<forall>j < i. \<not> matches tg (msg_fields \<Gamma> fs ! ((s + j) mod n))"
    and fuel: "n - i < fuel"
  shows "iter_find_loop fuel \<Gamma> s tg (iter_at \<Gamma> fs dest fc ((s + i) mod n)) =
    (case List.find (\<lambda>k. matches tg (msg_fields \<Gamma> fs ! k)) (around n s) of
       None \<Rightarrow> Some (False, iter_at \<Gamma> fs dest fc s)
     | Some k \<Rightarrow> Some (True, iter_at \<Gamma> fs dest fc k))"
  using i none fuel
proof (induction "n - i" arbitrary: i fuel)
  case 0
  then show ?case by simp
next
  case (Suc x)
  obtain fuel' where fuel': "fuel = Suc fuel'" using Suc.prems(3) by (cases fuel) auto
  let ?k = "(s + i) mod n"
  let ?P = "\<lambda>k. matches tg (msg_fields \<Gamma> fs ! k)"
  have kn: "?k < n" using s by simp
  have prefix: "\<forall>j < i. \<not> ?P (around n s ! j)"
    using Suc.prems s by (simp add: around_nth)
  show ?case
  proof (cases "?P ?k")
    case True
    have "List.find ?P (around n s) = Some ?k"
    proof -
      have "around n s ! i = ?k" using Suc.prems s by (simp add: around_nth)
      then show ?thesis using True prefix Suc.prems(1) s
        by (auto simp: find_Some_iff intro!: exI [of _ i])
    qed
    with True fuel' kn n show ?thesis by (simp add: matches_def)
  next
    case False
    then have nm: "\<not> (tag (msg_fields \<Gamma> fs ! ?k) = tg \<and>
        PB_LTYPE (type (msg_fields \<Gamma> fs ! ?k)) \<noteq> PB_LTYPE_EXTENSION)"
      by (simp add: matches_def)
    have nxt: "snd (pb_field_iter_next \<Gamma> (iter_at \<Gamma> fs dest fc ?k)) =
        iter_at \<Gamma> fs dest fc ((s + Suc i) mod n)"
      using iter_next_at [OF wf, of ?k dest fc] kn n by (simp add: mod_Suc_eq)
    have unf: "iter_find_loop fuel \<Gamma> s tg (iter_at \<Gamma> fs dest fc ?k) =
        (if (s + Suc i) mod n = s then Some (False, iter_at \<Gamma> fs dest fc ((s + Suc i) mod n))
         else iter_find_loop fuel' \<Gamma> s tg (iter_at \<Gamma> fs dest fc ((s + Suc i) mod n)))"
      using nm nxt fuel' kn n by (auto simp: Let_def)
    show ?thesis
    proof (cases "Suc i < n")
      case True
      have ne: "(s + Suc i) mod n \<noteq> s"
        using True s by (cases "s + Suc i < n") (auto simp: mod_if)
      have none': "\<forall>j < Suc i. \<not> ?P ((s + j) mod n)"
        using Suc.prems(2) False by (auto simp: less_Suc_eq)
      have "iter_find_loop fuel' \<Gamma> s tg (iter_at \<Gamma> fs dest fc ((s + Suc i) mod n)) =
        (case List.find ?P (around n s) of
           None \<Rightarrow> Some (False, iter_at \<Gamma> fs dest fc s)
         | Some k \<Rightarrow> Some (True, iter_at \<Gamma> fs dest fc k))"
        by (rule Suc.hyps(1)) (use Suc True none' fuel' in auto)
      then show ?thesis using unf ne by simp
    next
      case False2: False
      then have in': "Suc i = n" using Suc.prems by simp
      then have "(s + Suc i) mod n = s" using s by simp
      moreover have "List.find ?P (around n s) = None"
      proof -
        have "\<not> ?P k" if k: "k \<in> set (around n s)" for k
        proof -
          from k obtain j where j: "j < n" "around n s ! j = k"
            using s by (metis in_set_conv_nth length_around)
          show ?thesis
          proof (cases "j < i")
            case True
            then show ?thesis using prefix j by auto
          next
            case False
            then have "j = i" using j in' by simp
            then show ?thesis using j \<open>\<not> ?P ?k\<close> s by (simp add: around_nth)
          qed
        qed
        then show ?thesis by (auto simp: find_None_iff)
      qed
      ultimately show ?thesis using unf by simp
    qed
  qed
qed

lemma pb_field_iter_find_at:
  assumes "wf_fields (msg_fields \<Gamma> fs)" and "s < length (msg_fields \<Gamma> fs)"
  shows "pb_field_iter_find \<Gamma> (iter_at \<Gamma> fs dest fc s) tg =
    (case List.find (\<lambda>k. matches tg (msg_fields \<Gamma> fs ! k)) (around (length (msg_fields \<Gamma> fs)) s) of
       None \<Rightarrow> Some (False, iter_at \<Gamma> fs dest fc s)
     | Some k \<Rightarrow> Some (True, iter_at \<Gamma> fs dest fc k))"
proof -
  let ?n = "length (msg_fields \<Gamma> fs)"
  have "(s + 0) mod ?n = s" and "0 < ?n" using assms(2) by auto
  then show ?thesis
    using iter_find_loop_at [OF assms(1) refl assms(2), of 0 tg "Suc ?n" dest fc]
    by (simp add: pb_field_iter_find_def del: iter_find_loop.simps)
qed

end
