(* ===== verification/PB_Ostream.thy ===== *)
theory PB_Ostream
  imports PB_Common
begin

text \<open>
  Output streams and the encoding helpers of \<open>pb_encode.c\<close>: \<open>pb_write\<close>, varints, zigzag, fixed
  width values, tags and strings. A function returns \<open>None\<close> for undefined behaviour and else its
  C result together with the stream it leaves. A source buffer is given by the bytes it holds,
  \<open>None\<close> standing for a null (or unreadable) pointer, which a sizing stream never reads.
\<close>

section \<open>Writing\<close>

definition buf_write ::
  "pb_ostream_t \<Rightarrow> byte list option \<Rightarrow> size_t \<Rightarrow> (bool \<times> pb_ostream_t) option" where
  "buf_write s buf count =
     (let dest = o_state s; n = unat count in
      if n = 0 then Some (True, s)
      else case buf of
        None \<Rightarrow> None
      | Some bs \<Rightarrow>
          if length bs < n \<or> length (obuf dest) < opos dest + n then None
          else Some (True, s\<lparr>o_state :=
                 \<lparr>obuf = take (opos dest) (obuf dest) @ take n bs @ drop (opos dest + n) (obuf dest),
                  opos = opos dest + n\<rparr>\<rparr>))"

definition user_write ::
  "(ostate \<Rightarrow> byte list \<Rightarrow> bool \<times> ostate) \<Rightarrow> pb_ostream_t \<Rightarrow> byte list option \<Rightarrow> size_t
   \<Rightarrow> (bool \<times> pb_ostream_t) option" where
  "user_write f s buf count =
     (let n = unat count in
      case (if n = 0 then Some [] else buf) of
        None \<Rightarrow> None
      | Some bs \<Rightarrow>
          if length bs < n then None
          else let (ok, st) = f (o_state s) (take n bs) in Some (ok, s\<lparr>o_state := st\<rparr>))"

definition pb_ostream_from_buffer :: "byte list \<Rightarrow> size_t \<Rightarrow> pb_ostream_t" where
  "pb_ostream_from_buffer buf bufsize =
     \<lparr>o_callback = OC_buf_write, o_state = \<lparr>obuf = buf, opos = 0\<rparr>, max_size = bufsize,
      bytes_written = 0, o_errmsg = None\<rparr>"

definition PB_OSTREAM_SIZING :: pb_ostream_t where
  "PB_OSTREAM_SIZING =
     \<lparr>o_callback = OC_null, o_state = \<lparr>obuf = [], opos = 0\<rparr>, max_size = 0, bytes_written = 0,
      o_errmsg = None\<rparr>"

definition stream_callback ::
  "pb_ostream_t \<Rightarrow> byte list option \<Rightarrow> size_t \<Rightarrow> (bool \<times> pb_ostream_t) option" where
  "stream_callback s buf count =
     (case o_callback s of
        OC_null \<Rightarrow> None
      | OC_buf_write \<Rightarrow> buf_write s buf count
      | OC_user f \<Rightarrow> user_write f s buf count)"

definition is_null_cb :: "pb_ostream_t \<Rightarrow> bool" where
  "is_null_cb s = (case o_callback s of OC_null \<Rightarrow> True | _ \<Rightarrow> False)"

definition pb_write ::
  "pb_ostream_t \<Rightarrow> byte list option \<Rightarrow> size_t \<Rightarrow> (bool \<times> pb_ostream_t) option" where
  "pb_write s buf count =
     (if \<not> is_null_cb s then
        if bytes_written s + count > max_size s then Some (o_error s ''stream full'')
        else do {
          (ok, s) \<leftarrow> stream_callback s buf count;
          if \<not> ok then Some (o_error s ''io error'')
          else Some (True, s\<lparr>bytes_written := bytes_written s + count\<rparr>)
        }
      else Some (True, s\<lparr>bytes_written := bytes_written s + count\<rparr>))"

section \<open>Varints\<close>

text \<open>The loop that fills \<open>buffer\<close>, seven bits at a time, every byte with its top bit set.\<close>

function varint_loop :: "u64 \<Rightarrow> byte list" where
  "varint_loop v =
     (if v = 0 then []
      else (ucast (v AND 0x7F) OR 0x80) # varint_loop (drop_bit 7 v))"
  by pat_completeness auto
termination
proof (relation "measure unat")
  fix v :: u64
  assume "v \<noteq> 0"
  then show "(drop_bit 7 v, v) \<in> measure unat"
    by (simp add: unat_drop_bit_less)
qed simp

declare varint_loop.simps [simp del]

definition pb_encode_varint :: "pb_ostream_t \<Rightarrow> u64 \<Rightarrow> (bool \<times> pb_ostream_t) option" where
  "pb_encode_varint s v =
     (if v \<le> 0x7F then pb_write s (Some [ucast v]) 1
      else let buffer = varint_loop v; i = length buffer;
               buffer = buffer[i - 1 := buffer ! (i - 1) AND 0x7F]
           in pb_write s (Some buffer) (of_nat i))"

definition pb_encode_svarint :: "pb_ostream_t \<Rightarrow> u64 \<Rightarrow> (bool \<times> pb_ostream_t) option" where
  "pb_encode_svarint s v =
     (let zigzagged = (if sint v < 0 then NOT (push_bit 1 v) else push_bit 1 v)
      in pb_encode_varint s zigzagged)"

section \<open>Fixed-width values, tags and strings\<close>

definition fixed32_bytes :: "u32 \<Rightarrow> byte list" where
  "fixed32_bytes val =
     [ucast (val AND 0xFF), ucast (drop_bit 8 val AND 0xFF),
      ucast (drop_bit 16 val AND 0xFF), ucast (drop_bit 24 val AND 0xFF)]"

definition pb_encode_fixed32 ::
  "mem \<Rightarrow> pb_ostream_t \<Rightarrow> addr \<Rightarrow> (bool \<times> pb_ostream_t) option" where
  "pb_encode_fixed32 m s p =
     do { val \<leftarrow> load_u32 m p; pb_write s (Some (fixed32_bytes val)) 4 }"

definition fixed64_bytes :: "u64 \<Rightarrow> byte list" where
  "fixed64_bytes val =
     [ucast (val AND 0xFF), ucast (drop_bit 8 val AND 0xFF),
      ucast (drop_bit 16 val AND 0xFF), ucast (drop_bit 24 val AND 0xFF),
      ucast (drop_bit 32 val AND 0xFF), ucast (drop_bit 40 val AND 0xFF),
      ucast (drop_bit 48 val AND 0xFF), ucast (drop_bit 56 val AND 0xFF)]"

definition pb_encode_fixed64 ::
  "mem \<Rightarrow> pb_ostream_t \<Rightarrow> addr \<Rightarrow> (bool \<times> pb_ostream_t) option" where
  "pb_encode_fixed64 m s p =
     do { val \<leftarrow> load_u64 m p; pb_write s (Some (fixed64_bytes val)) 8 }"

definition tag_value :: "pb_wire_type_t \<Rightarrow> u32 \<Rightarrow> u64" where
  "tag_value wiretype field_number = push_bit 3 (ucast field_number) OR ucast wiretype"

definition pb_encode_tag ::
  "pb_ostream_t \<Rightarrow> pb_wire_type_t \<Rightarrow> u32 \<Rightarrow> (bool \<times> pb_ostream_t) option" where
  "pb_encode_tag s wiretype field_number =
     pb_encode_varint s (tag_value wiretype field_number)"

definition wire_type_of :: "byte \<Rightarrow> pb_wire_type_t option" where
  "wire_type_of ltype =
     (if ltype = PB_LTYPE_VARINT \<or> ltype = PB_LTYPE_UVARINT \<or> ltype = PB_LTYPE_SVARINT
      then Some PB_WT_VARINT
      else if ltype = PB_LTYPE_FIXED32 then Some PB_WT_32BIT
      else if ltype = PB_LTYPE_FIXED64 then Some PB_WT_64BIT
      else if ltype = PB_LTYPE_BYTES \<or> ltype = PB_LTYPE_STRING \<or> ltype = PB_LTYPE_SUBMESSAGE
              \<or> ltype = PB_LTYPE_FIXED_LENGTH_BYTES
      then Some PB_WT_STRING
      else None)"

definition pb_encode_tag_for_field ::
  "pb_ostream_t \<Rightarrow> pb_field_t \<Rightarrow> (bool \<times> pb_ostream_t) option" where
  "pb_encode_tag_for_field s f =
     (case wire_type_of (PB_LTYPE (type f)) of
        None \<Rightarrow> Some (o_error s ''invalid field type'')
      | Some wiretype \<Rightarrow> pb_encode_tag s wiretype (tag f))"

definition pb_encode_string ::
  "pb_ostream_t \<Rightarrow> byte list option \<Rightarrow> size_t \<Rightarrow> (bool \<times> pb_ostream_t) option" where
  "pb_encode_string s buffer sz =
     do {
       (ok, s) \<leftarrow> pb_encode_varint s sz;
       if \<not> ok then Some (False, s) else pb_write s buffer sz
     }"

section \<open>The bytes of a varint\<close>

text \<open>
  The reference: little-endian groups of seven bits, the top bit set on every byte but the last.
\<close>

function varint :: "u64 \<Rightarrow> byte list" where
  "varint v =
     (if v \<le> 0x7F then [ucast v]
      else (ucast (v AND 0x7F) OR 0x80) # varint (drop_bit 7 v))"
  by pat_completeness auto
termination
proof (relation "measure unat")
  fix v :: u64
  assume "\<not> v \<le> 0x7F"
  then have "v \<noteq> 0" by auto
  then show "(drop_bit 7 v, v) \<in> measure unat"
    by (simp add: unat_drop_bit_less)
qed simp

declare varint.simps [simp del]

lemma varint_not_Nil [simp]: "varint v \<noteq> []"
  by (subst varint.simps) simp

text \<open>Facts about the 7-bit groups.\<close>

lemma le_7F_iff: "(v::u64) \<le> 0x7F \<longleftrightarrow> drop_bit 7 v = 0"
proof -
  have "drop_bit 7 v = 0 \<longleftrightarrow> unat v div 128 = 0"
    by (simp add: word_unat_eq_iff unat_drop_bit_div)
  also have "\<dots> \<longleftrightarrow> unat v \<le> 127" by auto
  finally show ?thesis by (simp add: word_le_nat_alt)
qed

lemma small_and_7F: "(v::u64) \<le> 0x7F \<Longrightarrow> v AND 0x7F = v"
proof -
  assume "v \<le> 0x7F"
  then have "unat v < 2 ^ 7" by (simp add: word_le_nat_alt)
  then have "take_bit 7 v = v" by (simp add: word_unat_eq_iff unat_take_bit_mod)
  moreover have "v AND 0x7F = take_bit 7 v"
    by (simp add: take_bit_eq_mask mask_eq_exp_minus_1)
  ultimately show ?thesis by simp
qed

lemma group_top_bit:
  "((ucast (v AND 0x7F) :: byte) OR 0x80) AND 0x80 = 0x80"
  "((ucast (v AND 0x7F) :: byte) OR 0x80) AND 0x7F = ucast ((v::u64) AND 0x7F)"
  "(ucast (v AND 0x7F) :: byte) AND 0x80 = 0"
proof -
  have m: "(0x80 :: byte) = push_bit 7 1" "(0x7F :: byte) = mask 7" "(0x7F :: u64) = mask 7"
    by (simp_all add: mask_eq_exp_minus_1)
  show "((ucast (v AND 0x7F) :: byte) OR 0x80) AND 0x80 = 0x80"
    "((ucast (v AND 0x7F) :: byte) OR 0x80) AND 0x7F = ucast (v AND 0x7F)"
    "(ucast (v AND 0x7F) :: byte) AND 0x80 = 0"
    unfolding m by (rule bit_word_eqI; auto simp: bit_simps simp del: push_bit_of_1)+
qed

lemma varint_loop_varint:
  "v \<noteq> 0 \<Longrightarrow> (let b = varint_loop v; i = length b in b[i - 1 := b ! (i - 1) AND 0x7F]) = varint v"
proof (induction v rule: varint_loop.induct)
  case (1 v)
  let ?g = "(ucast (v AND 0x7F) :: byte) OR 0x80"
  show ?case
  proof (cases "v \<le> 0x7F")
    case True
    then have "drop_bit 7 v = 0" by (simp add: le_7F_iff)
    then have "varint_loop v = [?g]"
      using "1.prems" by (simp add: varint_loop.simps [of v] varint_loop.simps [of 0])
    then show ?thesis using True
      using group_top_bit(2) [of v] by (simp add: Let_def varint.simps [of v] small_and_7F)
  next
    case False
    then have nz: "drop_bit 7 v \<noteq> 0" by (simp add: le_7F_iff)
    let ?r = "varint_loop (drop_bit 7 v)"
    have ne: "?r \<noteq> []" using nz by (subst varint_loop.simps) simp
    have loop: "varint_loop v = ?g # ?r"
      using "1.prems" by (simp add: varint_loop.simps [of v])
    from "1.IH" [OF "1.prems" nz]
    have "?r[length ?r - 1 := ?r ! (length ?r - 1) AND 0x7F] = varint (drop_bit 7 v)"
      by (simp add: Let_def)
    then show ?thesis using ne False
      by (cases ?r) (simp_all add: Let_def loop varint.simps [of v])
  qed
qed

lemma pb_encode_varint_alt:
  "pb_encode_varint s v = pb_write s (Some (varint v)) (of_nat (length (varint v)))"
proof (cases "v \<le> 0x7F")
  case True
  then show ?thesis by (simp add: pb_encode_varint_def varint.simps [of v])
next
  case False
  then have nz: "v \<noteq> 0" by auto
  from varint_loop_varint [OF nz]
  have "(varint_loop v)[length (varint_loop v) - 1 :=
      varint_loop v ! (length (varint_loop v) - 1) AND 0x7F] = varint v"
    by (simp add: Let_def)
  then show ?thesis using False
    by (simp add: pb_encode_varint_def Let_def) (metis length_list_update)
qed

text \<open>A 64-bit value needs at most the ten bytes of \<open>buffer\<close>.\<close>

lemma length_varint_bits: "unat v < 2 ^ (7 * Suc n) \<Longrightarrow> length (varint v) \<le> Suc n"
proof (induction n arbitrary: v)
  case 0
  then have "v \<le> 0x7F" by (simp add: word_le_nat_alt)
  then show ?case by (simp add: varint.simps [of v])
next
  case (Suc n)
  have "unat v < 2 ^ (7 * Suc n) * 2 ^ 7" using Suc.prems by (simp add: power_add)
  then have "unat (drop_bit 7 v) < 2 ^ (7 * Suc n)"
    unfolding unat_drop_bit_div by (rule less_mult_imp_div_less)
  from Suc.IH [OF this] show ?case by (subst varint.simps) simp
qed

lemma length_varint: "length (varint v) \<le> 10"
proof -
  have "unat v < 2 ^ 64" by (rule unat_lt_64)
  also have "(2::nat) ^ 64 < 2 ^ (7 * Suc 9)" by simp
  finally have "length (varint v) \<le> Suc 9" by (rule length_varint_bits)
  then show ?thesis by simp
qed

lemma length_varint_pos: "0 < length (varint v)"
  by simp

lemma varint_loop_length: "v \<noteq> 0 \<Longrightarrow> length (varint_loop v) = length (varint v)"
  by (metis (no_types, lifting) varint_loop_varint length_list_update)

lemma varint_continuation:
  "\<forall>i < length (varint v). (varint v ! i AND 0x80 = 0) \<longleftrightarrow> i = length (varint v) - 1"
proof (induction v rule: varint.induct)
  case (1 v)
  show ?case
  proof (cases "v \<le> 0x7F")
    case True
    then have "(ucast v :: byte) AND 0x80 = 0"
      using group_top_bit(3) [of v] by (simp add: small_and_7F)
    then show ?thesis using True by (simp add: varint.simps [of v])
  next
    case False
    show ?thesis
    proof (intro allI impI)
      fix i assume i: "i < length (varint v)"
      show "(varint v ! i AND 0x80 = 0) \<longleftrightarrow> i = length (varint v) - 1"
      proof (cases i)
        case 0
        then show ?thesis using False
          by (simp add: varint.simps [of v] group_top_bit)
      next
        case (Suc j)
        with i False have j: "j < length (varint (drop_bit 7 v))"
          by (simp add: varint.simps [of v])
        then have "j = length (varint (drop_bit 7 v)) - 1 \<longleftrightarrow> Suc j = length (varint (drop_bit 7 v))"
          by auto
        then show ?thesis using "1.IH" [OF False] j Suc False
          by (simp add: varint.simps [of v])
      qed
    qed
  qed
qed

lemma fixed32_le_bytes: "fixed32_bytes val = le_bytes 4 val"
  by (simp add: fixed32_bytes_def ucast_and_FF le_bytes_numeral drop_bit_drop_bit)

lemma fixed64_le_bytes: "fixed64_bytes val = le_bytes 8 val"
  by (simp add: fixed64_bytes_def ucast_and_FF le_bytes_numeral drop_bit_drop_bit)

end
