(* ===== verification/PB_Sink.thy ===== *)
theory PB_Sink
  imports PB_Ostream
begin

text \<open>
  What the encoder relies on in its output stream, as an interface: the locale \<open>sink\<close>. A sink
  takes bytes while they fit and then refuses with an error, without touching anything outside
  the space it was given. The two streams the library itself offers, a memory buffer and the
  sizing stream, are interpretations. An encoding function \<^emph>\<open>behaves\<close> like a byte string if on
  both kinds of stream it delivers exactly that byte string, or refuses when it does not fit.
\<close>

section \<open>The two built-in streams\<close>

definition room :: "pb_ostream_t \<Rightarrow> nat" where
  "room s = unat (max_size s) - unat (bytes_written s)"

definition buf_ok :: "pb_ostream_t \<Rightarrow> bool" where
  "buf_ok s \<longleftrightarrow> o_callback s = OC_buf_write \<and> o_errmsg s = None \<and>
     unat (bytes_written s) \<le> unat (max_size s) \<and> unat (max_size s) < 2 ^ 63 \<and>
     opos (o_state s) + room s \<le> length (obuf (o_state s))"

definition buf_fits :: "pb_ostream_t \<Rightarrow> nat \<Rightarrow> bool" where
  "buf_fits s n \<longleftrightarrow> n \<le> room s"

definition buf_put :: "pb_ostream_t \<Rightarrow> byte list \<Rightarrow> pb_ostream_t" where
  "buf_put s bs =
     s\<lparr>o_state := \<lparr>obuf = take (opos (o_state s)) (obuf (o_state s)) @ bs @
                          drop (opos (o_state s) + length bs) (obuf (o_state s)),
                   opos = opos (o_state s) + length bs\<rparr>,
       bytes_written := bytes_written s + of_nat (length bs)\<rparr>"

text \<open>
  \<open>within s s'\<close>: from \<open>s\<close> to \<open>s'\<close> only the part of the buffer from the write position up to
  the limit may have changed, and the count matches the position.
\<close>

definition within :: "pb_ostream_t \<Rightarrow> pb_ostream_t \<Rightarrow> bool" where
  "within s s' \<longleftrightarrow> o_callback s' = OC_buf_write \<and> max_size s' = max_size s \<and>
     unat (bytes_written s) \<le> unat (bytes_written s') \<and>
     unat (bytes_written s') \<le> unat (max_size s) \<and>
     opos (o_state s') + unat (bytes_written s) = opos (o_state s) + unat (bytes_written s') \<and>
     length (obuf (o_state s')) = length (obuf (o_state s)) \<and>
     take (opos (o_state s)) (obuf (o_state s')) = take (opos (o_state s)) (obuf (o_state s)) \<and>
     drop (opos (o_state s) + room s) (obuf (o_state s')) =
       drop (opos (o_state s) + room s) (obuf (o_state s))"

definition size_ok :: "pb_ostream_t \<Rightarrow> bool" where
  "size_ok s \<longleftrightarrow> o_callback s = OC_null"

definition size_fits :: "pb_ostream_t \<Rightarrow> nat \<Rightarrow> bool" where
  "size_fits s n = True"

definition size_put :: "pb_ostream_t \<Rightarrow> byte list \<Rightarrow> pb_ostream_t" where
  "size_put s bs = s\<lparr>bytes_written := bytes_written s + of_nat (length bs)\<rparr>"

definition size_post :: "pb_ostream_t \<Rightarrow> pb_ostream_t \<Rightarrow> bool" where
  "size_post s s' \<longleftrightarrow> o_callback s' = OC_null"

section \<open>The interface\<close>

definition emits_on ::
  "(pb_ostream_t \<Rightarrow> bool) \<Rightarrow> (pb_ostream_t \<Rightarrow> nat \<Rightarrow> bool) \<Rightarrow> (pb_ostream_t \<Rightarrow> byte list \<Rightarrow> pb_ostream_t)
   \<Rightarrow> (pb_ostream_t \<Rightarrow> pb_ostream_t \<Rightarrow> bool) \<Rightarrow> (pb_ostream_t \<Rightarrow> (bool \<times> pb_ostream_t) option)
   \<Rightarrow> byte list option \<Rightarrow> bool" where
  "emits_on ok fits put post f r \<longleftrightarrow>
     (\<forall>s. ok s \<longrightarrow>
        (case r of
           None \<Rightarrow> \<exists>s'. f s = Some (False, s') \<and> post s s'
         | Some bs \<Rightarrow>
             if fits s (length bs) then f s = Some (True, put s bs)
             else \<exists>s'. f s = Some (False, s') \<and> post s s'))"

locale sink =
  fixes ok :: "pb_ostream_t \<Rightarrow> bool"
    and fits :: "pb_ostream_t \<Rightarrow> nat \<Rightarrow> bool"
    and put :: "pb_ostream_t \<Rightarrow> byte list \<Rightarrow> pb_ostream_t"
    and post :: "pb_ostream_t \<Rightarrow> pb_ostream_t \<Rightarrow> bool"
  assumes put_ok: "ok s \<Longrightarrow> fits s (length xs) \<Longrightarrow> ok (put s xs)"
    and put_nil: "ok s \<Longrightarrow> put s [] = s"
    and fits_0: "ok s \<Longrightarrow> fits s 0"
    and put_put: "ok s \<Longrightarrow> fits s (length xs + length ys) \<Longrightarrow> put (put s xs) ys = put s (xs @ ys)"
    and fits_put: "ok s \<Longrightarrow> fits s (length xs) \<Longrightarrow> fits (put s xs) n \<longleftrightarrow> fits s (length xs + n)"
    and fits_mono: "fits s (a + b) \<Longrightarrow> fits s a"
    and post_put: "ok s \<Longrightarrow> fits s (length xs) \<Longrightarrow> post (put s xs) s' \<Longrightarrow> post s s'"
    and post_error: "ok s \<Longrightarrow> post s (snd (o_error s msg))"
    and write_fits: "ok s \<Longrightarrow> length bs < 2 ^ 63 \<Longrightarrow> fits s (length bs) \<Longrightarrow>
      pb_write s (Some bs) (of_nat (length bs)) = Some (True, put s bs)"
    and write_full: "ok s \<Longrightarrow> length bs < 2 ^ 63 \<Longrightarrow> \<not> fits s (length bs) \<Longrightarrow>
      \<exists>s'. pb_write s (Some bs) (of_nat (length bs)) = Some (False, s') \<and> post s s'"
begin

abbreviation emits where "emits \<equiv> emits_on ok fits put post"

lemma emits_Some_fits: "emits f (Some bs) \<Longrightarrow> ok s \<Longrightarrow> fits s (length bs) \<Longrightarrow> f s = Some (True, put s bs)"
  by (simp add: emits_on_def)

lemma emits_Some_full:
  "emits f (Some bs) \<Longrightarrow> ok s \<Longrightarrow> \<not> fits s (length bs) \<Longrightarrow> \<exists>s'. f s = Some (False, s') \<and> post s s'"
  by (simp add: emits_on_def)

lemma emits_None: "emits f None \<Longrightarrow> ok s \<Longrightarrow> \<exists>s'. f s = Some (False, s') \<and> post s s'"
  by (simp add: emits_on_def)

lemma emits_write: "length bs < 2 ^ 63 \<Longrightarrow> emits (\<lambda>s. pb_write s (Some bs) (of_nat (length bs))) (Some bs)"
  by (simp add: emits_on_def write_fits write_full)

lemma emits_error: "emits (\<lambda>s. Some (o_error s msg)) None"
  unfolding emits_on_def using post_error by (auto simp: o_error_def)

lemma emits_nothing: "emits (\<lambda>s. Some (True, s)) (Some [])"
  by (simp add: emits_on_def put_nil fits_0)

lemma emits_seq:
  assumes f: "emits f r" and g: "\<And>xs. r = Some xs \<Longrightarrow> emits g r'"
  shows "emits (\<lambda>s. Option.bind (f s) (\<lambda>(b, s). if \<not> b then Some (False, s) else g s))
           (case r of None \<Rightarrow> None | Some xs \<Rightarrow> map_option (\<lambda>ys. xs @ ys) r')"
proof (cases r)
  case None
  show ?thesis unfolding emits_on_def
  proof (intro allI impI)
    fix s assume "ok s"
    with f None obtain s' where "f s = Some (False, s')" "post s s'" by (blast dest: emits_None)
    then show "case (case r of None \<Rightarrow> None | Some xs \<Rightarrow> map_option (\<lambda>ys. xs @ ys) r') of
        None \<Rightarrow> \<exists>s'. Option.bind (f s) (\<lambda>(b, s). if \<not> b then Some (False, s) else g s) =
                  Some (False, s') \<and> post s s'
      | Some bs \<Rightarrow> if fits s (length bs) then
          Option.bind (f s) (\<lambda>(b, s). if \<not> b then Some (False, s) else g s) = Some (True, put s bs)
          else \<exists>s'. Option.bind (f s) (\<lambda>(b, s). if \<not> b then Some (False, s) else g s) =
                  Some (False, s') \<and> post s s'"
      using None by simp
  qed
next
  case (Some xs)
  note g = g [OF Some]
  have key: "case r' of
      None \<Rightarrow> \<exists>s'. Option.bind (f s) (\<lambda>(b, s). if \<not> b then Some (False, s) else g s) =
                Some (False, s') \<and> post s s'
    | Some ys \<Rightarrow> if fits s (length (xs @ ys)) then
        Option.bind (f s) (\<lambda>(b, s). if \<not> b then Some (False, s) else g s) =
          Some (True, put s (xs @ ys))
        else \<exists>s'. Option.bind (f s) (\<lambda>(b, s). if \<not> b then Some (False, s) else g s) =
                Some (False, s') \<and> post s s'" if s: "ok s" for s
  proof (cases "fits s (length xs)")
    case False
    then obtain s' where *: "f s = Some (False, s')" "post s s'"
      using f Some s by (blast dest: emits_Some_full)
    have "\<not> fits s (length (xs @ ys))" for ys
      using False fits_mono by auto
    with * show ?thesis by (simp split: option.split)
  next
    case True
    then have fs: "f s = Some (True, put s xs)" using f Some s by (blast dest: emits_Some_fits)
    have ok': "ok (put s xs)" using s True by (rule put_ok)
    show ?thesis
    proof (cases r')
      case None
      with g ok' obtain s' where "g (put s xs) = Some (False, s')" "post (put s xs) s'"
        by (blast dest: emits_None)
      with fs s True None show ?thesis by (auto intro: post_put)
    next
      case (Some ys)
      show ?thesis
      proof (cases "fits s (length xs + length ys)")
        case fit: True
        then have "fits (put s xs) (length ys)" using s True by (simp add: fits_put)
        then have "g (put s xs) = Some (True, put (put s xs) ys)"
          using g Some ok' by (blast dest: emits_Some_fits)
        then show ?thesis using fs Some fit s by (simp add: put_put)
      next
        case full: False
        then have "\<not> fits (put s xs) (length ys)" using s True by (simp add: fits_put)
        then obtain s' where "g (put s xs) = Some (False, s')" "post (put s xs) s'"
          using g Some ok' by (blast dest: emits_Some_full)
        then show ?thesis using fs Some full s True by (auto intro: post_put)
      qed
    qed
  qed
  show ?thesis unfolding emits_on_def using key Some by (cases r') auto
qed

lemma emits_varint: "emits (\<lambda>s. pb_encode_varint s v) (Some (varint v))"
proof -
  have "length (varint v) < 2 ^ 63" using length_varint [of v] by simp
  then show ?thesis unfolding pb_encode_varint_alt by (rule emits_write)
qed

end

section \<open>The built-in streams are sinks\<close>

lemma buf_word_room:
  assumes "buf_ok s" and "n < 2 ^ 63"
  shows "bytes_written s + of_nat n > max_size s \<longleftrightarrow> \<not> buf_fits s n"
proof -
  have "unat (of_nat n :: u64) = n" using assms(2) by (simp add: unat_of_nat_64)
  moreover have "unat (bytes_written s) + n < 2 ^ 64" using assms by (auto simp: buf_ok_def)
  ultimately have "unat (bytes_written s + of_nat n) = unat (bytes_written s) + n"
    by (simp add: unat_word_ariths)
  then show ?thesis using assms(1)
    by (auto simp: word_less_nat_alt buf_fits_def room_def buf_ok_def)
qed

lemma buf_put_written:
  assumes "buf_ok s" and "buf_fits s (length xs)"
  shows "unat (bytes_written (buf_put s xs)) = unat (bytes_written s) + length xs"
proof -
  have "unat (bytes_written s) + length xs < 2 ^ 63"
    using assms by (auto simp: buf_ok_def buf_fits_def room_def)
  then show ?thesis by (simp add: buf_put_def unat_word_ariths unat_of_nat)
qed

lemma buf_room_put:
  assumes "buf_ok s" and "buf_fits s (length xs)"
  shows "room (buf_put s xs) = room s - length xs"
  using buf_put_written [OF assms] by (simp add: room_def) (simp add: buf_put_def)

lemma buf_put_sel [simp]:
  "o_callback (buf_put s xs) = o_callback s"
  "max_size (buf_put s xs) = max_size s"
  "o_errmsg (buf_put s xs) = o_errmsg s"
  "opos (o_state (buf_put s xs)) = opos (o_state s) + length xs"
  "obuf (o_state (buf_put s xs)) = take (opos (o_state s)) (obuf (o_state s)) @ xs @
     drop (opos (o_state s) + length xs) (obuf (o_state s))"
  by (simp_all add: buf_put_def)

lemma buf_put_length:
  assumes "buf_ok s" and "buf_fits s (length xs)"
  shows "length (obuf (o_state (buf_put s xs))) = length (obuf (o_state s))"
  using assms by (simp add: buf_ok_def buf_fits_def)

lemma buf_put_ok:
  assumes "buf_ok s" and "buf_fits s (length xs)"
  shows "buf_ok (buf_put s xs)"
  using assms buf_put_written [OF assms] buf_room_put [OF assms] buf_put_length [OF assms]
  by (simp add: buf_ok_def buf_fits_def room_def del: buf_put_sel(5)) linarith

lemma buf_put_put:
  assumes "buf_ok s" and "buf_fits s (length xs + length ys)"
  shows "buf_put (buf_put s xs) ys = buf_put s (xs @ ys)"
  using assms by (simp add: buf_put_def buf_ok_def buf_fits_def ac_simps)

lemma within_buf_put:
  assumes ok: "buf_ok s" and fit: "buf_fits s (length xs)" and w: "within (buf_put s xs) s'"
  shows "within s s'"
proof -
  let ?p = "opos (o_state s)" and ?b = "obuf (o_state s)" and ?b' = "obuf (o_state s')"
  let ?n = "length xs"
  have pl: "?p + ?n \<le> length ?b" using ok fit by (simp add: buf_ok_def buf_fits_def)
  have tk: "take (?p + ?n) ?b' = take ?p ?b @ xs"
    using w pl unfolding within_def by simp
  have "take ?p ?b' = take ?p (take (?p + ?n) ?b')" by simp
  also have "\<dots> = take ?p ?b" unfolding tk using pl by simp
  finally have 1: "take ?p ?b' = take ?p ?b" .
  have r: "?p + ?n + (room s - ?n) = ?p + room s" using fit by (simp add: buf_fits_def)
  have "drop (?p + room s) ?b' = drop (?p + room s) (obuf (o_state (buf_put s xs)))"
    using w unfolding within_def buf_room_put [OF ok fit] buf_put_sel(4) r by blast
  also have "\<dots> = drop (?p + room s) ?b"
    using fit pl by (simp add: buf_fits_def add.commute)
  finally have 2: "drop (?p + room s) ?b' = drop (?p + room s) ?b" .
  show ?thesis
    using w 1 2 buf_put_written [OF ok fit] buf_put_length [OF ok fit]
    unfolding within_def by (simp del: buf_put_sel(5))
qed

interpretation buffer: sink buf_ok buf_fits buf_put within
proof
  fix s xs ys n a b bs and s' :: pb_ostream_t and msg
  show "buf_ok (buf_put s xs)" if "buf_ok s" "buf_fits s (length xs)"
    using that by (rule buf_put_ok)
  show "buf_put s [] = s" if "buf_ok s"
    using that by (simp add: buf_put_def)
  show "buf_fits s 0" if "buf_ok s"
    by (simp add: buf_fits_def)
  show "buf_put (buf_put s xs) ys = buf_put s (xs @ ys)"
    if "buf_ok s" "buf_fits s (length xs + length ys)"
    using that by (rule buf_put_put)
  show "buf_fits (buf_put s xs) n \<longleftrightarrow> buf_fits s (length xs + n)"
    if "buf_ok s" "buf_fits s (length xs)"
    using that buf_room_put [OF that] by (auto simp: buf_fits_def)
  show "buf_fits s a" if "buf_fits s (a + b)"
    using that by (simp add: buf_fits_def)
  show "within s s'" if "buf_ok s" "buf_fits s (length xs)" "within (buf_put s xs) s'"
    using that by (rule within_buf_put)
  show "within s (snd (o_error s msg))" if "buf_ok s"
    using that by (simp add: within_def buf_ok_def)
  show "pb_write s (Some bs) (of_nat (length bs)) = Some (True, buf_put s bs)"
    if "buf_ok s" "length bs < 2 ^ 63" "buf_fits s (length bs)"
  proof -
    have cb: "o_callback s = OC_buf_write" using that by (simp add: buf_ok_def)
    have n: "unat (of_nat (length bs) :: u64) = length bs" using that by (simp add: unat_of_nat_64)
    have "opos (o_state s) + length bs \<le> length (obuf (o_state s))"
      using that by (simp add: buf_ok_def buf_fits_def)
    then show ?thesis using that cb n buf_word_room [OF that(1,2)]
      by (simp add: pb_write_def is_null_cb_def stream_callback_def buf_write_def Let_def buf_put_def)
  qed
  show "\<exists>s'. pb_write s (Some bs) (of_nat (length bs)) = Some (False, s') \<and> within s s'"
    if "buf_ok s" "length bs < 2 ^ 63" "\<not> buf_fits s (length bs)"
  proof -
    have cb: "o_callback s = OC_buf_write" using that by (simp add: buf_ok_def)
    have "pb_write s (Some bs) (of_nat (length bs)) = Some (o_error s ''stream full'')"
      using that cb buf_word_room [OF that(1,2)] by (simp add: pb_write_def is_null_cb_def)
    moreover have "within s (snd (o_error s ''stream full''))"
      using that by (simp add: within_def buf_ok_def)
    ultimately show ?thesis by (auto simp: o_error_def)
  qed
qed

interpretation sizing: sink size_ok size_fits size_put size_post
  by unfold_locales
    (auto simp: size_ok_def size_fits_def size_put_def size_post_def pb_write_def is_null_cb_def
      add.assoc)

section \<open>Behaving like a byte string\<close>

text \<open>\<open>behaves f (Some bs)\<close>: \<open>f\<close> emits \<open>bs\<close>; \<open>behaves f None\<close>: \<open>f\<close> reports an error.\<close>

definition behaves :: "(pb_ostream_t \<Rightarrow> (bool \<times> pb_ostream_t) option) \<Rightarrow> byte list option \<Rightarrow> bool" where
  "behaves f r \<longleftrightarrow> emits_on size_ok size_fits size_put size_post f r \<and>
                 emits_on buf_ok buf_fits buf_put within f r"

definition wseq :: "byte list option \<Rightarrow> byte list option \<Rightarrow> byte list option" where
  "wseq r r' = (case r of None \<Rightarrow> None | Some xs \<Rightarrow> map_option (\<lambda>ys. xs @ ys) r')"

lemma wseq_simps [simp]:
  "wseq None r = None" "wseq (Some xs) None = None" "wseq (Some xs) (Some ys) = Some (xs @ ys)"
  by (simp_all add: wseq_def)

lemma wseq_Some_iff: "wseq r r' = Some bs \<longleftrightarrow> (\<exists>xs ys. r = Some xs \<and> r' = Some ys \<and> bs = xs @ ys)"
  by (cases r; cases r') auto

lemma behaves_seq:
  assumes "behaves f r" and "r \<noteq> None \<Longrightarrow> behaves g r'"
  shows "behaves (\<lambda>s. Option.bind (f s) (\<lambda>(b, s). if \<not> b then Some (False, s) else g s)) (wseq r r')"
  using assms sizing.emits_seq [of f r g r'] buffer.emits_seq [of f r g r']
  unfolding behaves_def wseq_def by auto

lemma behaves_write: "length bs < 2 ^ 63 \<Longrightarrow> behaves (\<lambda>s. pb_write s (Some bs) (of_nat (length bs))) (Some bs)"
  by (simp add: behaves_def sizing.emits_write buffer.emits_write)

lemma behaves_error: "behaves (\<lambda>s. Some (o_error s msg)) None"
  by (simp add: behaves_def sizing.emits_error buffer.emits_error)

lemma behaves_nothing: "behaves (\<lambda>s. Some (True, s)) (Some [])"
  by (simp add: behaves_def sizing.emits_nothing buffer.emits_nothing)

lemma behaves_varint: "behaves (\<lambda>s. pb_encode_varint s v) (Some (varint v))"
  by (simp add: behaves_def sizing.emits_varint buffer.emits_varint)

lemma behaves_sizing:
  assumes "behaves f r" and "o_callback s = OC_null"
  shows "case r of None \<Rightarrow> \<exists>s'. f s = Some (False, s') \<and> o_callback s' = OC_null
         | Some bs \<Rightarrow> f s = Some (True, s\<lparr>bytes_written := bytes_written s + of_nat (length bs)\<rparr>)"
  using assms
  by (cases r) (auto simp: behaves_def emits_on_def size_ok_def size_fits_def size_put_def size_post_def)

lemma behaves_buffer:
  assumes "behaves f r" and "buf_ok s"
  shows "case r of None \<Rightarrow> \<exists>s'. f s = Some (False, s') \<and> within s s'
         | Some bs \<Rightarrow> if length bs \<le> room s then f s = Some (True, buf_put s bs)
                      else \<exists>s'. f s = Some (False, s') \<and> within s s'"
  using assms by (cases r) (auto simp: behaves_def emits_on_def buf_fits_def)

lemma buf_ok_from_buffer:
  "length buf < 2 ^ 63 \<Longrightarrow> unat n \<le> length buf \<Longrightarrow> buf_ok (pb_ostream_from_buffer buf n)"
  by (simp add: buf_ok_def pb_ostream_from_buffer_def room_def)

end
