(* ===== verification/PB_Encode.thy ===== *)
theory PB_Encode
  imports PB_Sink
begin

text \<open>
  The encoder of \<open>pb_encode.c\<close>. The message structure is read from memory through the field
  iterator. The functions that can call back into \<open>pb_encode\<close> for a submessage take that call as
  a parameter \<open>enc\<close>; \<open>pb_encode\<close> itself ties the knot with a fuel that bounds the nesting of
  submessages and the length of an extension list, since memory may hold cyclic structures.
\<close>

type_synonym ores = "(bool \<times> pb_ostream_t) option"
type_synonym submsg_encoder = "pb_ostream_t \<Rightarrow> addr \<Rightarrow> addr \<Rightarrow> ores"
type_synonym pb_encoder_t = "pb_ostream_t \<Rightarrow> pb_field_t \<Rightarrow> addr \<Rightarrow> ores"

section \<open>Submessages\<close>

definition pb_encode_submessage ::
  "submsg_encoder \<Rightarrow> pb_ostream_t \<Rightarrow> addr \<Rightarrow> addr \<Rightarrow> ores" where
  "pb_encode_submessage enc s fs src =
     do {
       (ok, substream) \<leftarrow> enc PB_OSTREAM_SIZING fs src;
       if \<not> ok then Some (False, s\<lparr>o_errmsg := o_errmsg substream\<rparr>)
       else let sz = bytes_written substream in
       do {
         (ok, s) \<leftarrow> pb_encode_varint s sz;
         if \<not> ok then Some (False, s)
         else if is_null_cb s then pb_write s None sz
         else if bytes_written s + sz > max_size s then Some (o_error s ''stream full'')
         else do {
           (status, substream) \<leftarrow>
             enc \<lparr>o_callback = o_callback s, o_state = o_state s, max_size = sz,
                  bytes_written = 0, o_errmsg = None\<rparr> fs src;
           let s = s\<lparr>bytes_written := bytes_written s + bytes_written substream,
                     o_state := o_state substream, o_errmsg := o_errmsg substream\<rparr>;
           if bytes_written substream \<noteq> sz then Some (o_error s ''submsg size changed'')
           else Some (status, s)
         }
       }
     }"

section \<open>Field encoders\<close>

text \<open>The value of an integer member of the given size, sign- or zero-extended to 64 bits.\<close>

definition load_signed :: "mem \<Rightarrow> pb_size_t \<Rightarrow> addr \<Rightarrow> u64 option option" where
  "load_signed m sz src =
     (if sz = 1 then map_option (\<lambda>w. Some (scast w)) (load_u8 m src)
      else if sz = 2 then map_option (\<lambda>w. Some (scast w)) (load_u16 m src)
      else if sz = 4 then map_option (\<lambda>w. Some (scast w)) (load_u32 m src)
      else if sz = 8 then map_option Some (load_u64 m src)
      else Some None)"

definition load_unsigned :: "mem \<Rightarrow> pb_size_t \<Rightarrow> addr \<Rightarrow> u64 option option" where
  "load_unsigned m sz src =
     (if sz = 1 then map_option (\<lambda>w. Some (ucast w)) (load_u8 m src)
      else if sz = 2 then map_option (\<lambda>w. Some (ucast w)) (load_u16 m src)
      else if sz = 4 then map_option (\<lambda>w. Some (ucast w)) (load_u32 m src)
      else if sz = 8 then map_option Some (load_u64 m src)
      else Some None)"

definition pb_enc_varint :: "mem \<Rightarrow> pb_encoder_t" where
  "pb_enc_varint m s field src =
     do {
       v \<leftarrow> load_signed m (data_size field) src;
       case v of None \<Rightarrow> Some (o_error s ''invalid data_size'')
       | Some val \<Rightarrow> pb_encode_varint s val
     }"

definition pb_enc_uvarint :: "mem \<Rightarrow> pb_encoder_t" where
  "pb_enc_uvarint m s field src =
     do {
       v \<leftarrow> load_unsigned m (data_size field) src;
       case v of None \<Rightarrow> Some (o_error s ''invalid data_size'')
       | Some val \<Rightarrow> pb_encode_varint s val
     }"

definition pb_enc_svarint :: "mem \<Rightarrow> pb_encoder_t" where
  "pb_enc_svarint m s field src =
     do {
       v \<leftarrow> load_signed m (data_size field) src;
       case v of None \<Rightarrow> Some (o_error s ''invalid data_size'')
       | Some val \<Rightarrow> pb_encode_svarint s val
     }"

definition pb_enc_fixed64 :: "mem \<Rightarrow> pb_encoder_t" where
  "pb_enc_fixed64 m s field src = pb_encode_fixed64 m s src"

definition pb_enc_fixed32 :: "mem \<Rightarrow> pb_encoder_t" where
  "pb_enc_fixed32 m s field src = pb_encode_fixed32 m s src"

definition pb_enc_bytes :: "mem \<Rightarrow> pb_encoder_t" where
  "pb_enc_bytes m s field src =
     (if src = NULL then pb_encode_string s None 0
      else do {
        sz \<leftarrow> load_u32 m src;
        if PB_ATYPE (type field) = PB_ATYPE_STATIC \<and>
           PB_BYTES_ARRAY_T_ALLOCSIZE sz > ucast (data_size field)
        then Some (o_error s ''bytes size exceeded'')
        else pb_encode_string s (load_bytes m (src + BYTES_OFFSET) (unat sz)) (ucast sz)
      })"

text \<open>The loop that finds the end of a string, at most \<open>max_size\<close> characters long.\<close>

function strnlen_loop :: "mem \<Rightarrow> addr \<Rightarrow> nat \<Rightarrow> nat \<Rightarrow> nat option" where
  "strnlen_loop m p sz maxsz =
     (if sz < maxsz then
        do { c \<leftarrow> load_u8 m p;
             if c \<noteq> 0 then strnlen_loop m (Suc p) (Suc sz) maxsz else Some sz }
      else Some sz)"
  by pat_completeness auto
termination by (relation "measure (\<lambda>(m, p, sz, maxsz). maxsz - sz)") auto

declare strnlen_loop.simps [simp del]

definition pb_enc_string :: "mem \<Rightarrow> pb_encoder_t" where
  "pb_enc_string m s field src =
     (let maxsz = (if PB_ATYPE (type field) = PB_ATYPE_POINTER then 2 ^ 64 - 1
                   else unat (data_size field)) in
      if src = NULL then pb_encode_string s None 0
      else do {
        sz \<leftarrow> strnlen_loop m src 0 maxsz;
        pb_encode_string s (load_bytes m src sz) (of_nat sz)
      })"

definition pb_enc_submessage :: "submsg_encoder \<Rightarrow> pb_encoder_t" where
  "pb_enc_submessage enc s field src =
     (case ptr field of
        Ptr_null \<Rightarrow> Some (o_error s ''invalid field descriptor'')
      | Ptr_fields fs \<Rightarrow> pb_encode_submessage enc s fs src
      | Ptr_default _ \<Rightarrow> None)"

definition pb_enc_fixed_length_bytes :: "mem \<Rightarrow> pb_encoder_t" where
  "pb_enc_fixed_length_bytes m s field src =
     pb_encode_string s (load_bytes m src (unat (data_size field))) (ucast (data_size field))"

text \<open>The table of encoders; the entry for extensions is null, and calling it is undefined.\<close>

definition PB_ENCODERS :: "submsg_encoder \<Rightarrow> mem \<Rightarrow> byte \<Rightarrow> pb_encoder_t" where
  "PB_ENCODERS enc m ltype =
     (if ltype = PB_LTYPE_VARINT then pb_enc_varint m
      else if ltype = PB_LTYPE_UVARINT then pb_enc_uvarint m
      else if ltype = PB_LTYPE_SVARINT then pb_enc_svarint m
      else if ltype = PB_LTYPE_FIXED32 then pb_enc_fixed32 m
      else if ltype = PB_LTYPE_FIXED64 then pb_enc_fixed64 m
      else if ltype = PB_LTYPE_BYTES then pb_enc_bytes m
      else if ltype = PB_LTYPE_STRING then pb_enc_string m
      else if ltype = PB_LTYPE_SUBMESSAGE then pb_enc_submessage enc
      else if ltype = PB_LTYPE_FIXED_LENGTH_BYTES then pb_enc_fixed_length_bytes m
      else (\<lambda>s field src. None))"

section \<open>Arrays\<close>

fun packed_loop :: "pb_encoder_t \<Rightarrow> pb_field_t \<Rightarrow> nat \<Rightarrow> addr \<Rightarrow> pb_ostream_t \<Rightarrow> ores" where
  "packed_loop func field 0 p s = Some (True, s)"
| "packed_loop func field (Suc n) p s =
     do {
       (ok, s) \<leftarrow> func s field p;
       if \<not> ok then Some (False, s)
       else packed_loop func field n (p + unat (data_size field)) s
     }"

fun unpacked_loop ::
  "mem \<Rightarrow> pb_encoder_t \<Rightarrow> pb_field_t \<Rightarrow> nat \<Rightarrow> addr \<Rightarrow> pb_ostream_t \<Rightarrow> ores" where
  "unpacked_loop m func field 0 p s = Some (True, s)"
| "unpacked_loop m func field (Suc n) p s =
     do {
       (ok, s) \<leftarrow> pb_encode_tag_for_field s field;
       if \<not> ok then Some (False, s)
       else do {
         (ok, s) \<leftarrow>
           (if PB_ATYPE (type field) = PB_ATYPE_POINTER \<and>
               (PB_LTYPE (type field) = PB_LTYPE_STRING \<or> PB_LTYPE (type field) = PB_LTYPE_BYTES)
            then do { q \<leftarrow> load_ptr m p; func s field q }
            else func s field p);
         if \<not> ok then Some (False, s)
         else unpacked_loop m func field n (p + unat (data_size field)) s
       }
     }"

definition encode_array ::
  "mem \<Rightarrow> pb_ostream_t \<Rightarrow> pb_field_t \<Rightarrow> addr \<Rightarrow> nat \<Rightarrow> pb_encoder_t \<Rightarrow> ores" where
  "encode_array m s field pd count func =
     (if count = 0 then Some (True, s)
      else if PB_ATYPE (type field) \<noteq> PB_ATYPE_POINTER \<and> count > unat (array_size field)
      then Some (o_error s ''array max size exceeded'')
      else if PB_LTYPE (type field) \<le> PB_LTYPE_LAST_PACKABLE then
        do {
          (ok, s) \<leftarrow> pb_encode_tag s PB_WT_STRING (tag field);
          if \<not> ok then Some (False, s)
          else do {
            (ok, sz) \<leftarrow>
              (if PB_LTYPE (type field) = PB_LTYPE_FIXED32 then Some (True, of_nat (4 * count))
               else if PB_LTYPE (type field) = PB_LTYPE_FIXED64 then Some (True, of_nat (8 * count))
               else do {
                 (ok, sizestream) \<leftarrow> packed_loop func field count pd PB_OSTREAM_SIZING;
                 Some (ok, bytes_written sizestream)
               });
            if \<not> ok then Some (False, s)
            else do {
              (ok, s) \<leftarrow> pb_encode_varint s sz;
              if \<not> ok then Some (False, s)
              else if is_null_cb s then pb_write s None sz
              else packed_loop func field count pd s
            }
          }
        }
      else unpacked_loop m func field count pd s)"

section \<open>Presence of proto3 fields\<close>

text \<open>
  The byte loop stops at the first byte that is not zero, so it only reads that far.
\<close>

fun zero_loop :: "mem \<Rightarrow> addr \<Rightarrow> nat \<Rightarrow> bool option" where
  "zero_loop m p 0 = Some True"
| "zero_loop m p (Suc n) =
     do { b \<leftarrow> load_u8 m p; if b \<noteq> 0 then Some False else zero_loop m (Suc p) n }"

fun pb_check_proto3_default_value ::
  "nat \<Rightarrow> pb_env \<Rightarrow> mem \<Rightarrow> pb_field_t \<Rightarrow> addr \<Rightarrow> bool option" where
  "pb_check_proto3_default_value 0 \<Gamma> m field pd = None"
| "pb_check_proto3_default_value (Suc n) \<Gamma> m field pd =
     (let ty = type field; ps = ptr_add pd (sint (size_offset field)) in
      if PB_HTYPE ty = PB_HTYPE_REQUIRED then Some False
      else if PB_HTYPE ty = PB_HTYPE_REPEATED then map_option (\<lambda>c. c = 0) (load_u32 m ps)
      else if PB_HTYPE ty = PB_HTYPE_ONEOF then map_option (\<lambda>c. c = 0) (load_u32 m ps)
      else if PB_HTYPE ty = PB_HTYPE_OPTIONAL \<and> size_offset field \<noteq> 0
      then map_option (\<lambda>b. \<not> b) (load_bool m ps)
      else if PB_ATYPE ty = PB_ATYPE_STATIC \<and> PB_LTYPE ty = PB_LTYPE_BYTES
      then map_option (\<lambda>c. c = 0) (load_u32 m pd)
      else if PB_ATYPE ty = PB_ATYPE_STATIC \<and> PB_LTYPE ty = PB_LTYPE_STRING
      then map_option (\<lambda>c. c = 0) (load_u8 m pd)
      else if PB_ATYPE ty = PB_ATYPE_STATIC \<and> PB_LTYPE ty = PB_LTYPE_FIXED_LENGTH_BYTES
      then Some (data_size field = 0)
      else if PB_ATYPE ty = PB_ATYPE_STATIC \<and> PB_LTYPE ty = PB_LTYPE_SUBMESSAGE
      then (case ptr field of
              Ptr_fields fs \<Rightarrow>
                map_option fst
                  (for_all_fields \<Gamma> fs pd
                     (\<lambda>it u. do { z \<leftarrow> pb_check_proto3_default_value n \<Gamma> m (cur_field \<Gamma> it) (pData it);
                                  Some (z, u) }) ())
            | _ \<Rightarrow> None)
      else zero_loop m pd (unat (data_size field)))"

section \<open>Single fields\<close>

definition encode_basic_field ::
  "submsg_encoder \<Rightarrow> (pb_field_t \<Rightarrow> addr \<Rightarrow> bool option) \<Rightarrow> mem \<Rightarrow> pb_ostream_t \<Rightarrow> pb_field_t \<Rightarrow> addr
   \<Rightarrow> ores" where
  "encode_basic_field enc is_default m s field pd =
     (let func = PB_ENCODERS enc m (PB_LTYPE (type field));
          htype = PB_HTYPE (type field);
          has_size = size_offset field \<noteq> 0;
          ps = ptr_add pd (sint (size_offset field))
      in do {
        implicit_has \<leftarrow>
          (if has_size then Some True
           else if htype = PB_HTYPE_OPTIONAL then map_option Not (is_default field pd)
           else Some True);
        (pd, implicit_has) \<leftarrow>
          (if PB_ATYPE (type field) = PB_ATYPE_POINTER
           then do { q \<leftarrow> load_ptr m pd; Some (q, q \<noteq> NULL) }
           else Some (pd, implicit_has));
        if htype = PB_HTYPE_REQUIRED then
          if pd = NULL then Some (o_error s ''missing required field'')
          else do {
            (ok, s) \<leftarrow> pb_encode_tag_for_field s field;
            if \<not> ok then Some (False, s) else func s field pd
          }
        else if htype = PB_HTYPE_OPTIONAL then
          do {
            has \<leftarrow> (if has_size then load_bool m ps else Some implicit_has);
            if has then do {
              (ok, s) \<leftarrow> pb_encode_tag_for_field s field;
              if \<not> ok then Some (False, s) else func s field pd
            }
            else Some (True, s)
          }
        else if htype = PB_HTYPE_REPEATED then
          do {
            count \<leftarrow> (if has_size then load_u32 m ps else Some (array_size field));
            encode_array m s field pd (unat count) func
          }
        else if htype = PB_HTYPE_ONEOF then
          do {
            which \<leftarrow> (if has_size then load_u32 m ps else None);
            if which = tag field then do {
              (ok, s) \<leftarrow> pb_encode_tag_for_field s field;
              if \<not> ok then Some (False, s) else func s field pd
            }
            else Some (True, s)
          }
        else Some (o_error s ''invalid field type'')
      })"

definition encode_callback_field ::
  "pb_env \<Rightarrow> mem \<Rightarrow> pb_ostream_t \<Rightarrow> pb_field_t \<Rightarrow> addr \<Rightarrow> ores" where
  "encode_callback_field \<Gamma> m s field pd =
     do {
       fn \<leftarrow> load_ptr m (pd + CB_FUNCS);
       if fn \<noteq> NULL then
         do {
           (ok, s) \<leftarrow> cb_encode \<Gamma> fn m s field (pd + CB_ARG);
           if \<not> ok then Some (o_error s ''callback error'') else Some (True, s)
         }
       else Some (True, s)
     }"

definition encode_field ::
  "submsg_encoder \<Rightarrow> (pb_field_t \<Rightarrow> addr \<Rightarrow> bool option) \<Rightarrow> pb_env \<Rightarrow> mem \<Rightarrow> pb_ostream_t
   \<Rightarrow> pb_field_t \<Rightarrow> addr \<Rightarrow> ores" where
  "encode_field enc is_default \<Gamma> m s field pd =
     (if PB_ATYPE (type field) = PB_ATYPE_STATIC \<or> PB_ATYPE (type field) = PB_ATYPE_POINTER
      then encode_basic_field enc is_default m s field pd
      else if PB_ATYPE (type field) = PB_ATYPE_CALLBACK
      then encode_callback_field \<Gamma> m s field pd
      else Some (o_error s ''invalid field type''))"

section \<open>Extensions\<close>

definition default_extension_encoder ::
  "submsg_encoder \<Rightarrow> (pb_field_t \<Rightarrow> addr \<Rightarrow> bool option) \<Rightarrow> pb_env \<Rightarrow> mem \<Rightarrow> pb_ostream_t \<Rightarrow> addr
   \<Rightarrow> ores" where
  "default_extension_encoder enc is_default \<Gamma> m s extension =
     do {
       ty \<leftarrow> load_ptr m (extension + EXT_TYPE);
       et \<leftarrow> ext_types \<Gamma> ty;
       let field = field_at \<Gamma> (et_arg et) 0;
       if PB_ATYPE (type field) = PB_ATYPE_POINTER
       then encode_field enc is_default \<Gamma> m s field (extension + EXT_DEST)
       else do {
         dest \<leftarrow> load_ptr m (extension + EXT_DEST);
         encode_field enc is_default \<Gamma> m s field dest
       }
     }"

fun extensions_loop ::
  "nat \<Rightarrow> submsg_encoder \<Rightarrow> (pb_field_t \<Rightarrow> addr \<Rightarrow> bool option) \<Rightarrow> pb_env \<Rightarrow> mem \<Rightarrow> addr
   \<Rightarrow> pb_ostream_t \<Rightarrow> ores" where
  "extensions_loop 0 enc is_default \<Gamma> m extension s =
     (if extension = NULL then Some (True, s) else None)"
| "extensions_loop (Suc n) enc is_default \<Gamma> m extension s =
     (if extension = NULL then Some (True, s)
      else do {
        ty \<leftarrow> load_ptr m (extension + EXT_TYPE);
        et \<leftarrow> ext_types \<Gamma> ty;
        (status, s) \<leftarrow>
          (if et_encode et \<noteq> NULL then cb_ext_encode \<Gamma> (et_encode et) m s extension
           else default_extension_encoder enc is_default \<Gamma> m s extension);
        if \<not> status then Some (False, s)
        else do {
          nxt \<leftarrow> load_ptr m (extension + EXT_NEXT);
          extensions_loop n enc is_default \<Gamma> m nxt s
        }
      })"

definition encode_extension_field ::
  "nat \<Rightarrow> submsg_encoder \<Rightarrow> (pb_field_t \<Rightarrow> addr \<Rightarrow> bool option) \<Rightarrow> pb_env \<Rightarrow> mem \<Rightarrow> pb_ostream_t
   \<Rightarrow> pb_field_t \<Rightarrow> addr \<Rightarrow> ores" where
  "encode_extension_field n enc is_default \<Gamma> m s field pd =
     do {
       extension \<leftarrow> load_ptr m pd;
       extensions_loop n enc is_default \<Gamma> m extension s
     }"

section \<open>Messages\<close>

definition pb_const_cast :: "addr \<Rightarrow> addr" where
  "pb_const_cast p = p"

fun pb_encode :: "nat \<Rightarrow> pb_env \<Rightarrow> mem \<Rightarrow> pb_ostream_t \<Rightarrow> addr \<Rightarrow> addr \<Rightarrow> ores" where
  "pb_encode 0 \<Gamma> m s fs src = None"
| "pb_encode (Suc n) \<Gamma> m s fs src =
     for_all_fields \<Gamma> fs (pb_const_cast src)
       (\<lambda>it s.
          if PB_LTYPE (type (cur_field \<Gamma> it)) = PB_LTYPE_EXTENSION
          then encode_extension_field n (pb_encode n \<Gamma> m) (pb_check_proto3_default_value n \<Gamma> m)
                 \<Gamma> m s (cur_field \<Gamma> it) (pData it)
          else encode_field (pb_encode n \<Gamma> m) (pb_check_proto3_default_value n \<Gamma> m) \<Gamma> m s
                 (cur_field \<Gamma> it) (pData it)) s"

definition pb_encode_delimited ::
  "nat \<Rightarrow> pb_env \<Rightarrow> mem \<Rightarrow> pb_ostream_t \<Rightarrow> addr \<Rightarrow> addr \<Rightarrow> ores" where
  "pb_encode_delimited n \<Gamma> m s fs src = pb_encode_submessage (pb_encode n \<Gamma> m) s fs src"

definition pb_encode_nullterminated ::
  "nat \<Rightarrow> pb_env \<Rightarrow> mem \<Rightarrow> pb_ostream_t \<Rightarrow> addr \<Rightarrow> addr \<Rightarrow> ores" where
  "pb_encode_nullterminated n \<Gamma> m s fs src =
     do {
       (ok, s) \<leftarrow> pb_encode n \<Gamma> m s fs src;
       if \<not> ok then Some (False, s) else pb_write s (Some [0]) 1
     }"

definition pb_get_encoded_size ::
  "nat \<Rightarrow> pb_env \<Rightarrow> mem \<Rightarrow> addr \<Rightarrow> addr \<Rightarrow> size_t option option" where
  "pb_get_encoded_size n \<Gamma> m fs src =
     do {
       (ok, stream) \<leftarrow> pb_encode n \<Gamma> m PB_OSTREAM_SIZING fs src;
       if \<not> ok then Some None else Some (Some (bytes_written stream))
     }"

end
