(* ===== verification/PB_Wire.thy ===== *)
theory PB_Wire
  imports PB_Encode
begin

text \<open>
  The wire format as a function of the message in memory, without streams: the abstract
  specification of the encoder. \<open>None\<close> means that the message cannot be read (undefined
  behaviour, or the nesting bound is reached), \<open>Some None\<close> that it has no encoding (the encoder
  reports an error), and \<open>Some (Some bs)\<close> that its encoding is \<open>bs\<close>. The refinement theorem says
  that \<open>pb_encode\<close> delivers exactly these bytes on the library's own streams, in the two passes
  it makes over every submessage and packed array.
\<close>

type_synonym wire = "byte list option option"

definition wthen :: "wire \<Rightarrow> wire \<Rightarrow> wire" where
  "wthen a b =
     do { x \<leftarrow> a;
          case x of None \<Rightarrow> Some None
          | Some xs \<Rightarrow> do { y \<leftarrow> b; Some (map_option (\<lambda>ys. xs @ ys) y) } }"

text \<open>No object of a C program has \<open>2^63\<close> bytes; the specification does not speak of longer strings.\<close>

definition sized :: "byte list \<Rightarrow> wire" where
  "sized bs = (if length bs < 2 ^ 63 then Some (Some bs) else None)"

section \<open>Values\<close>

definition zigzag :: "u64 \<Rightarrow> u64" where
  "zigzag v = (if sint v < 0 then NOT (push_bit 1 v) else push_bit 1 v)"

definition wire_string :: "byte list \<Rightarrow> wire" where
  "wire_string bs = sized (varint (of_nat (length bs)) @ bs)"

definition wire_submessage :: "wire \<Rightarrow> wire" where
  "wire_submessage body =
     do { r \<leftarrow> body; case r of None \<Rightarrow> Some None | Some bs \<Rightarrow> wire_string bs }"

definition wire_bytes :: "mem \<Rightarrow> pb_field_t \<Rightarrow> addr \<Rightarrow> wire" where
  "wire_bytes m field src =
     (if src = NULL then wire_string []
      else do {
        sz \<leftarrow> load_u32 m src;
        if PB_ATYPE (type field) = PB_ATYPE_STATIC \<and>
           PB_BYTES_ARRAY_T_ALLOCSIZE sz > ucast (data_size field)
        then Some None
        else do { bs \<leftarrow> load_bytes m (src + BYTES_OFFSET) (unat sz); wire_string bs }
      })"

definition wire_cstring :: "mem \<Rightarrow> pb_field_t \<Rightarrow> addr \<Rightarrow> wire" where
  "wire_cstring m field src =
     (if src = NULL then wire_string []
      else do {
        sz \<leftarrow> strnlen_loop m src 0
               (if PB_ATYPE (type field) = PB_ATYPE_POINTER then 2 ^ 64 - 1
                else unat (data_size field));
        bs \<leftarrow> load_bytes m src sz;
        wire_string bs
      })"

definition wire_value :: "(addr \<Rightarrow> addr \<Rightarrow> wire) \<Rightarrow> mem \<Rightarrow> pb_field_t \<Rightarrow> addr \<Rightarrow> wire" where
  "wire_value sub m field src =
     (let ltype = PB_LTYPE (type field) in
      if ltype = PB_LTYPE_VARINT
      then map_option (map_option varint) (load_signed m (data_size field) src)
      else if ltype = PB_LTYPE_UVARINT
      then map_option (map_option varint) (load_unsigned m (data_size field) src)
      else if ltype = PB_LTYPE_SVARINT
      then map_option (map_option (varint \<circ> zigzag)) (load_signed m (data_size field) src)
      else if ltype = PB_LTYPE_FIXED32 then map_option (Some \<circ> le_bytes 4) (load_u32 m src)
      else if ltype = PB_LTYPE_FIXED64 then map_option (Some \<circ> le_bytes 8) (load_u64 m src)
      else if ltype = PB_LTYPE_BYTES then wire_bytes m field src
      else if ltype = PB_LTYPE_STRING then wire_cstring m field src
      else if ltype = PB_LTYPE_SUBMESSAGE
      then (case ptr field of
              Ptr_null \<Rightarrow> Some None
            | Ptr_fields fs \<Rightarrow> wire_submessage (sub fs src)
            | Ptr_default _ \<Rightarrow> None)
      else if ltype = PB_LTYPE_FIXED_LENGTH_BYTES
      then do { bs \<leftarrow> load_bytes m src (unat (data_size field)); wire_string bs }
      else None)"

definition wire_tag :: "pb_field_t \<Rightarrow> wire" where
  "wire_tag field =
     Some (map_option (\<lambda>wt. varint (tag_value wt (tag field)))
             (wire_type_of (PB_LTYPE (type field))))"

section \<open>Arrays\<close>

fun wire_packed :: "(pb_field_t \<Rightarrow> addr \<Rightarrow> wire) \<Rightarrow> pb_field_t \<Rightarrow> nat \<Rightarrow> addr \<Rightarrow> wire" where
  "wire_packed val field 0 p = Some (Some [])"
| "wire_packed val field (Suc n) p =
     wthen (val field p) (wire_packed val field n (p + unat (data_size field)))"

definition wire_item :: "mem \<Rightarrow> (pb_field_t \<Rightarrow> addr \<Rightarrow> wire) \<Rightarrow> pb_field_t \<Rightarrow> addr \<Rightarrow> wire" where
  "wire_item m val field p =
     (if PB_ATYPE (type field) = PB_ATYPE_POINTER \<and>
         (PB_LTYPE (type field) = PB_LTYPE_STRING \<or> PB_LTYPE (type field) = PB_LTYPE_BYTES)
      then do { q \<leftarrow> load_ptr m p; val field q }
      else val field p)"

fun wire_unpacked :: "mem \<Rightarrow> (pb_field_t \<Rightarrow> addr \<Rightarrow> wire) \<Rightarrow> pb_field_t \<Rightarrow> nat \<Rightarrow> addr \<Rightarrow> wire" where
  "wire_unpacked m val field 0 p = Some (Some [])"
| "wire_unpacked m val field (Suc n) p =
     wthen (wire_tag field)
       (wthen (wire_item m val field p)
          (wire_unpacked m val field n (p + unat (data_size field))))"

definition wire_array :: "mem \<Rightarrow> (pb_field_t \<Rightarrow> addr \<Rightarrow> wire) \<Rightarrow> pb_field_t \<Rightarrow> addr \<Rightarrow> nat \<Rightarrow> wire" where
  "wire_array m val field pd count =
     (if count = 0 then Some (Some [])
      else if PB_ATYPE (type field) \<noteq> PB_ATYPE_POINTER \<and> count > unat (array_size field)
      then Some None
      else if PB_LTYPE (type field) \<le> PB_LTYPE_LAST_PACKABLE
      then wthen (Some (Some (varint (tag_value PB_WT_STRING (tag field)))))
             (wire_submessage (wire_packed val field count pd))
      else wire_unpacked m val field count pd)"

section \<open>Fields and messages\<close>

definition wire_present :: "wire \<Rightarrow> pb_field_t \<Rightarrow> wire" where
  "wire_present v field = wthen (wire_tag field) v"

definition wire_basic_field ::
  "(addr \<Rightarrow> addr \<Rightarrow> wire) \<Rightarrow> (pb_field_t \<Rightarrow> addr \<Rightarrow> bool option) \<Rightarrow> mem \<Rightarrow> pb_field_t \<Rightarrow> addr \<Rightarrow> wire" where
  "wire_basic_field sub is_default m field pd =
     (let htype = PB_HTYPE (type field);
          has_size = size_offset field \<noteq> 0;
          ps = ptr_add pd (sint (size_offset field))
      in do {
        implicit_has \<leftarrow>
          (if has_size then Some True
           else if htype = PB_HTYPE_OPTIONAL then map_option Not (is_default field pd)
           else Some True);
        (pd, implicit_has) \<leftarrow>
          (if PB_ATYPE (type field) = PB_ATYPE_POINTER
           then do { q \<leftarrow> load_ptr m pd; Some (q, q \<noteq> NULL) }
           else Some (pd, implicit_has));
        if htype = PB_HTYPE_REQUIRED then
          (if pd = NULL then Some None else wire_present (wire_value sub m field pd) field)
        else if htype = PB_HTYPE_OPTIONAL then
          do {
            has \<leftarrow> (if has_size then load_bool m ps else Some implicit_has);
            if has then wire_present (wire_value sub m field pd) field else Some (Some [])
          }
        else if htype = PB_HTYPE_REPEATED then
          do {
            count \<leftarrow> (if has_size then load_u32 m ps else Some (array_size field));
            wire_array m (wire_value sub m) field pd (unat count)
          }
        else if htype = PB_HTYPE_ONEOF then
          do {
            which \<leftarrow> (if has_size then load_u32 m ps else None);
            if which = tag field then wire_present (wire_value sub m field pd) field
            else Some (Some [])
          }
        else Some None
      })"

text \<open>
  What the user's callbacks write is a parameter: \<open>cbw\<close> for callback fields, \<open>extw\<close> for
  extension types with an encoder of their own.
\<close>

type_synonym cb_wire = "addr \<Rightarrow> pb_field_t \<Rightarrow> addr \<Rightarrow> wire"
type_synonym ext_wire = "addr \<Rightarrow> addr \<Rightarrow> wire"

definition wire_field ::
  "(addr \<Rightarrow> addr \<Rightarrow> wire) \<Rightarrow> (pb_field_t \<Rightarrow> addr \<Rightarrow> bool option) \<Rightarrow> cb_wire \<Rightarrow> mem \<Rightarrow> pb_field_t
   \<Rightarrow> addr \<Rightarrow> wire" where
  "wire_field sub is_default cbw m field pd =
     (if PB_ATYPE (type field) = PB_ATYPE_STATIC \<or> PB_ATYPE (type field) = PB_ATYPE_POINTER
      then wire_basic_field sub is_default m field pd
      else if PB_ATYPE (type field) = PB_ATYPE_CALLBACK
      then do {
        fn \<leftarrow> load_ptr m (pd + CB_FUNCS);
        if fn \<noteq> NULL then cbw fn field (pd + CB_ARG) else Some (Some [])
      }
      else Some None)"

definition wire_default_extension ::
  "(pb_field_t \<Rightarrow> addr \<Rightarrow> wire) \<Rightarrow> pb_env \<Rightarrow> mem \<Rightarrow> addr \<Rightarrow> wire" where
  "wire_default_extension wfield \<Gamma> m extension =
     do {
       ty \<leftarrow> load_ptr m (extension + EXT_TYPE);
       et \<leftarrow> ext_types \<Gamma> ty;
       let field = field_at \<Gamma> (et_arg et) 0;
       if PB_ATYPE (type field) = PB_ATYPE_POINTER then wfield field (extension + EXT_DEST)
       else do { dest \<leftarrow> load_ptr m (extension + EXT_DEST); wfield field dest }
     }"

fun wire_extensions ::
  "nat \<Rightarrow> (pb_field_t \<Rightarrow> addr \<Rightarrow> wire) \<Rightarrow> ext_wire \<Rightarrow> pb_env \<Rightarrow> mem \<Rightarrow> addr \<Rightarrow> wire" where
  "wire_extensions 0 wfield extw \<Gamma> m extension = (if extension = NULL then Some (Some []) else None)"
| "wire_extensions (Suc n) wfield extw \<Gamma> m extension =
     (if extension = NULL then Some (Some [])
      else do {
        ty \<leftarrow> load_ptr m (extension + EXT_TYPE);
        et \<leftarrow> ext_types \<Gamma> ty;
        wthen (if et_encode et \<noteq> NULL then extw (et_encode et) extension
               else wire_default_extension wfield \<Gamma> m extension)
          (do { nxt \<leftarrow> load_ptr m (extension + EXT_NEXT);
                wire_extensions n wfield extw \<Gamma> m nxt })
      })"

fun wire_fields :: "(nat \<Rightarrow> wire) \<Rightarrow> nat list \<Rightarrow> wire" where
  "wire_fields w [] = Some (Some [])"
| "wire_fields w (k # ks) = wthen (w k) (wire_fields w ks)"

fun wire_msg :: "nat \<Rightarrow> cb_wire \<Rightarrow> ext_wire \<Rightarrow> pb_env \<Rightarrow> mem \<Rightarrow> addr \<Rightarrow> addr \<Rightarrow> wire" where
  "wire_msg 0 cbw extw \<Gamma> m fs src = None"
| "wire_msg (Suc n) cbw extw \<Gamma> m fs src =
     (let wfield = wire_field (wire_msg n cbw extw \<Gamma> m) (pb_check_proto3_default_value n \<Gamma> m) cbw m in
      wire_fields
        (\<lambda>k. let field = msg_fields \<Gamma> fs ! k; pd = src + data_off (msg_fields \<Gamma> fs) k in
             if PB_LTYPE (type field) = PB_LTYPE_EXTENSION
             then do { extension \<leftarrow> load_ptr m pd; wire_extensions n wfield extw \<Gamma> m extension }
             else wfield field pd)
        [0..<length (msg_fields \<Gamma> fs)])"

section \<open>Implementing the wire format\<close>

definition implements :: "(pb_ostream_t \<Rightarrow> ores) \<Rightarrow> wire \<Rightarrow> bool" where
  "implements f w \<longleftrightarrow> (\<forall>r. w = Some r \<longrightarrow> behaves f r)"

text \<open>
  What is asked of the user's encoders: they too behave like the byte string their parameter
  says (in particular they write the same bytes in the sizing pass and in the writing pass).
\<close>

definition user_encoders_ok :: "cb_wire \<Rightarrow> ext_wire \<Rightarrow> pb_env \<Rightarrow> mem \<Rightarrow> bool" where
  "user_encoders_ok cbw extw \<Gamma> m \<longleftrightarrow>
     (\<forall>fn field a. implements (\<lambda>s. cb_encode \<Gamma> fn m s field a) (cbw fn field a)) \<and>
     (\<forall>fn e. implements (\<lambda>s. cb_ext_encode \<Gamma> fn m s e) (extw fn e))"

definition wf_env :: "pb_env \<Rightarrow> bool" where
  "wf_env \<Gamma> \<longleftrightarrow> (\<forall>fs. wf_fields (msg_fields \<Gamma> fs))"

lemma implementsI: "(\<And>r. w = Some r \<Longrightarrow> behaves f r) \<Longrightarrow> implements f w"
  by (simp add: implements_def)

lemma implementsD: "implements f w \<Longrightarrow> w = Some r \<Longrightarrow> behaves f r"
  by (simp add: implements_def)

lemma implements_None [simp]: "implements f None"
  by (simp add: implements_def)

lemma implements_bind:
  "(\<And>x. a = Some x \<Longrightarrow> implements (f x) (w x)) \<Longrightarrow>
   implements (\<lambda>s. Option.bind a (\<lambda>x. f x s)) (Option.bind a w)"
  by (cases a) auto

lemma implements_if:
  "(c \<Longrightarrow> implements f a) \<Longrightarrow> (\<not> c \<Longrightarrow> implements g b) \<Longrightarrow>
   implements (\<lambda>s. if c then f s else g s) (if c then a else b)"
  by simp

lemma implements_error [simp]: "implements (\<lambda>s. Some (o_error s msg)) (Some None)"
  using behaves_error by (simp add: implements_def)

lemma implements_nothing [simp]: "implements (\<lambda>s. Some (True, s)) (Some (Some []))"
  using behaves_nothing by (simp add: implements_def)

lemma implements_seq:
  assumes f: "implements f a" and g: "\<And>xs. a = Some (Some xs) \<Longrightarrow> implements g b"
  shows "implements (\<lambda>s. Option.bind (f s) (\<lambda>(ok, s). if \<not> ok then Some (False, s) else g s)) (wthen a b)"
proof (rule implementsI)
  fix r assume w: "wthen a b = Some r"
  show "behaves (\<lambda>s. Option.bind (f s) (\<lambda>(ok, s). if \<not> ok then Some (False, s) else g s)) r"
  proof (cases a)
    case None
    then show ?thesis using w by (simp add: wthen_def)
  next
    case (Some ra)
    have bf: "behaves f ra" using f Some by (rule implementsD)
    show ?thesis
    proof (cases ra)
      case None
      then show ?thesis using w Some behaves_seq [OF bf, of g None] by (simp add: wthen_def)
    next
      case (Some xs)
      with w \<open>a = Some ra\<close> obtain rb where rb: "b = Some rb" "r = map_option (\<lambda>ys. xs @ ys) rb"
        by (auto simp: wthen_def bind_Some_iff)
      have "behaves g rb" using g [of xs] \<open>a = Some ra\<close> Some rb(1) by (simp add: implements_def)
      then have "behaves (\<lambda>s. Option.bind (f s) (\<lambda>(ok, s). if \<not> ok then Some (False, s) else g s)) (wseq ra rb)"
        using bf by (intro behaves_seq)
      moreover have "wseq ra rb = r" using rb(2) Some by (cases rb) simp_all
      ultimately show ?thesis by simp
    qed
  qed
qed

lemma implements_varint: "implements (\<lambda>s. pb_encode_varint s v) (Some (Some (varint v)))"
  using behaves_varint by (simp add: implements_def)

lemma implements_tag:
  "implements (\<lambda>s. pb_encode_tag s wt tg) (Some (Some (varint (tag_value wt tg))))"
  unfolding pb_encode_tag_def by (rule implements_varint)

lemma implements_tag_for_field: "implements (\<lambda>s. pb_encode_tag_for_field s field) (wire_tag field)"
  by (cases "wire_type_of (PB_LTYPE (type field))")
    (simp_all add: pb_encode_tag_for_field_def wire_tag_def implements_tag)

lemma implements_write:
  "length bs < 2 ^ 63 \<Longrightarrow> n = of_nat (length bs) \<Longrightarrow>
   implements (\<lambda>s. pb_write s (Some bs) n) (Some (Some bs))"
  using behaves_write by (simp add: implements_def)

lemma implements_string:
  assumes "n = of_nat (length bs)"
  shows "implements (\<lambda>s. pb_encode_string s (Some bs) n) (wire_string bs)"
proof (cases "length (varint (of_nat (length bs)) @ bs) < 2 ^ 63")
  case True
  then have "wire_string bs = wthen (Some (Some (varint n))) (Some (Some bs))"
    using assms by (simp add: wire_string_def sized_def wthen_def)
  moreover have "implements (\<lambda>s. pb_encode_string s (Some bs) n) \<dots>"
    unfolding pb_encode_string_def
    by (rule implements_seq [OF implements_varint]) (rule implements_write, use True assms in auto)
  ultimately show ?thesis by simp
next
  case False
  then show ?thesis by (simp add: wire_string_def sized_def)
qed

lemma pb_write_None_0: "pb_write s None 0 = pb_write s (Some []) 0"
  by (simp add: pb_write_def stream_callback_def buf_write_def user_write_def split: ocallback.split)

lemma implements_empty_string: "implements (\<lambda>s. pb_encode_string s None 0) (wire_string [])"
  using implements_string [of 0 "[]"] unfolding pb_encode_string_def pb_write_None_0 by simp


section \<open>Two-pass encoding\<close>

text \<open>
  A submessage or a packed array is first run on a sizing stream; a sizing stream then only
  adds the size, another one gets the content. Both give the same bytes.
\<close>

lemma behaves_if_null:
  assumes "emits_on size_ok size_fits size_put size_post g r"
    and "emits_on buf_ok buf_fits buf_put within h r"
  shows "behaves (\<lambda>s. if is_null_cb s then g s else h s) r"
proof -
  have "is_null_cb s" if "size_ok s" for s using that by (simp add: size_ok_def is_null_cb_def)
  moreover have "\<not> is_null_cb s" if "buf_ok s" for s using that by (simp add: buf_ok_def is_null_cb_def)
  ultimately show ?thesis using assms by (auto simp: behaves_def emits_on_def)
qed

lemma sizing_write_null:
  "emits_on size_ok size_fits size_put size_post (\<lambda>s. pb_write s None (of_nat (length bs))) (Some bs)"
  by (simp add: emits_on_def size_ok_def size_fits_def size_put_def pb_write_def is_null_cb_def)

lemma behaves_on_sizing_stream:
  "behaves f (Some bs) \<Longrightarrow> f PB_OSTREAM_SIZING =
     Some (True, PB_OSTREAM_SIZING\<lparr>bytes_written := of_nat (length bs)\<rparr>)"
  "behaves f None \<Longrightarrow> \<exists>s'. f PB_OSTREAM_SIZING = Some (False, s')"
  using behaves_sizing [of f "Some bs" PB_OSTREAM_SIZING] behaves_sizing [of f None PB_OSTREAM_SIZING]
  by (auto simp: PB_OSTREAM_SIZING_def)

text \<open>The writing pass of a submessage: a substream limited to the size found before.\<close>

lemma submessage_writing_pass:
  assumes enc: "behaves (\<lambda>s. enc s fs src) (Some bs)" and len: "length bs < 2 ^ 63"
    and n: "n = of_nat (length bs)"
  shows "emits_on buf_ok buf_fits buf_put within
    (\<lambda>s. if bytes_written s + n > max_size s then Some (o_error s ''stream full'')
         else do {
           (status, substream) \<leftarrow>
             enc \<lparr>o_callback = o_callback s, o_state = o_state s, max_size = n,
                  bytes_written = 0, o_errmsg = None\<rparr> fs src;
           let s = s\<lparr>bytes_written := bytes_written s + bytes_written substream,
                     o_state := o_state substream, o_errmsg := o_errmsg substream\<rparr>;
           if bytes_written substream \<noteq> n then Some (o_error s ''submsg size changed'')
           else Some (status, s)
         }) (Some bs)"
  unfolding emits_on_def option.case
proof (intro allI impI)
  fix s assume ok: "buf_ok s"
  let ?sub = "\<lparr>o_callback = o_callback s, o_state = o_state s, max_size = n,
      bytes_written = 0, o_errmsg = None\<rparr>"
  let ?f = "\<lambda>s. if bytes_written s + n > max_size s then Some (o_error s ''stream full'')
         else do {
           (status, substream) \<leftarrow>
             enc \<lparr>o_callback = o_callback s, o_state = o_state s, max_size = n,
                  bytes_written = 0, o_errmsg = None\<rparr> fs src;
           let s = s\<lparr>bytes_written := bytes_written s + bytes_written substream,
                     o_state := o_state substream, o_errmsg := o_errmsg substream\<rparr>;
           if bytes_written substream \<noteq> n then Some (o_error s ''submsg size changed'')
           else Some (status, s)
         }"
  have nn: "unat n = length bs" using len n by (simp add: unat_of_nat_64)
  have lim: "bytes_written s + n > max_size s \<longleftrightarrow> \<not> buf_fits s (length bs)"
    using buf_word_room [OF ok len] n by simp
  show "if buf_fits s (length bs) then ?f s = Some (True, buf_put s bs)
        else \<exists>s'. ?f s = Some (False, s') \<and> within s s'"
  proof (cases "buf_fits s (length bs)")
    case True
    have sub: "buf_ok ?sub" and r: "length bs \<le> room ?sub"
      using ok True nn len by (auto simp: buf_ok_def buf_fits_def room_def)
    have "enc ?sub fs src = Some (True, buf_put ?sub bs)"
      using behaves_buffer [OF enc sub] r by simp
    moreover have "o_errmsg s = None" using ok by (simp add: buf_ok_def)
    ultimately show ?thesis using True lim n by (simp add: buf_put_def)
  next
    case False
    then show ?thesis using lim buffer.post_error [OF ok] by (auto simp: o_error_def)
  qed
qed

lemma implements_submessage:
  assumes "implements (\<lambda>s. enc s fs src) w"
  shows "implements (\<lambda>s. pb_encode_submessage enc s fs src) (wire_submessage w)"
proof (rule implementsI)
  fix r assume r: "wire_submessage w = Some r"
  then obtain rw where rw: "w = Some rw" by (auto simp: wire_submessage_def bind_Some_iff)
  with assms have enc: "behaves (\<lambda>s. enc s fs src) rw" by (rule implementsD)
  show "behaves (\<lambda>s. pb_encode_submessage enc s fs src) r"
  proof (cases rw)
    case None
    then obtain sub where "enc PB_OSTREAM_SIZING fs src = Some (False, sub)"
      using enc behaves_on_sizing_stream(2) by blast
    moreover have "within s (s\<lparr>o_errmsg := e\<rparr>)" if "buf_ok s" for s e
      using that by (simp add: within_def buf_ok_def)
    moreover have "r = None" using r rw None by (simp add: wire_submessage_def)
    ultimately show ?thesis
      by (simp add: behaves_def emits_on_def pb_encode_submessage_def size_post_def size_ok_def)
  next
    case (Some bs)
    then have sz: "enc PB_OSTREAM_SIZING fs src =
        Some (True, PB_OSTREAM_SIZING\<lparr>bytes_written := of_nat (length bs)\<rparr>)"
      using enc behaves_on_sizing_stream(1) by blast
    let ?n = "of_nat (length bs) :: u64"
    from r rw Some have rr: "r = Some (varint ?n @ bs)" and len: "length bs < 2 ^ 63"
      by (auto simp: wire_submessage_def wire_string_def sized_def split: if_splits)
    let ?g = "\<lambda>s. if bytes_written s + ?n > max_size s then Some (o_error s ''stream full'')
         else do {
           (status, substream) \<leftarrow>
             enc \<lparr>o_callback = o_callback s, o_state = o_state s, max_size = ?n,
                  bytes_written = 0, o_errmsg = None\<rparr> fs src;
           let s = s\<lparr>bytes_written := bytes_written s + bytes_written substream,
                     o_state := o_state substream, o_errmsg := o_errmsg substream\<rparr>;
           if bytes_written substream \<noteq> ?n then Some (o_error s ''submsg size changed'')
           else Some (status, s)
         }"
    have "behaves (\<lambda>s. if is_null_cb s then pb_write s None ?n else ?g s) (Some bs)"
      by (rule behaves_if_null [OF sizing_write_null])
        (rule submessage_writing_pass [where fs = fs and src = src and enc = enc], use enc Some len in auto)
    then have "behaves (\<lambda>s. Option.bind (pb_encode_varint s ?n)
        (\<lambda>(ok, s). if \<not> ok then Some (False, s)
                   else if is_null_cb s then pb_write s None ?n else ?g s))
        (wseq (Some (varint ?n)) (Some bs))"
      by (intro behaves_seq behaves_varint)
    then show ?thesis using sz rr by (simp add: pb_encode_submessage_def Let_def cong: if_cong)
  qed
qed

lemma implements_value:
  assumes sub: "\<And>fs p. implements (\<lambda>s. enc s fs p) (sub fs p)"
  shows "implements (\<lambda>s. PB_ENCODERS enc m (PB_LTYPE (type field)) s field src)
           (wire_value sub m field src)"
proof -
  have varint_case: "implements (\<lambda>s. Option.bind v (\<lambda>v. case v of
      None \<Rightarrow> Some (o_error s msg) | Some val \<Rightarrow> pb_encode_varint s val))
      (map_option (map_option varint) v)" for v msg
    by (cases v; cases "the v") (auto intro: implements_varint)
  have svarint_case: "implements (\<lambda>s. Option.bind v (\<lambda>v. case v of
      None \<Rightarrow> Some (o_error s msg) | Some val \<Rightarrow> pb_encode_svarint s val))
      (map_option (map_option (varint \<circ> zigzag)) v)" for v msg
    by (cases v; cases "the v")
      (auto simp: pb_encode_svarint_def zigzag_def intro: implements_varint)
  have fixed32: "implements (\<lambda>s. pb_encode_fixed32 m s src) (map_option (Some \<circ> le_bytes 4) (load_u32 m src))"
    by (cases "load_u32 m src") (auto simp: pb_encode_fixed32_def fixed32_le_bytes intro!: implements_write)
  have fixed64: "implements (\<lambda>s. pb_encode_fixed64 m s src) (map_option (Some \<circ> le_bytes 8) (load_u64 m src))"
    by (cases "load_u64 m src") (auto simp: pb_encode_fixed64_def fixed64_le_bytes intro!: implements_write)
  have str: "implements (\<lambda>s. pb_encode_string s b n) (Option.bind b wire_string)"
    if "\<And>bs. b = Some bs \<Longrightarrow> n = of_nat (length bs)" for b n
    using that by (cases b) (auto intro: implements_string)
  have bytes: "implements (\<lambda>s. pb_enc_bytes m s field src) (wire_bytes m field src)"
    unfolding pb_enc_bytes_def wire_bytes_def
    by (auto intro!: implements_empty_string implements_bind str
        dest!: load_bytes_length)
  have cstr: "implements (\<lambda>s. pb_enc_string m s field src) (wire_cstring m field src)"
    unfolding pb_enc_string_def wire_cstring_def Let_def
    by (auto intro!: implements_empty_string implements_bind str dest!: load_bytes_length)
  have flb: "implements (\<lambda>s. pb_enc_fixed_length_bytes m s field src)
      (Option.bind (load_bytes m src (unat (data_size field))) wire_string)"
    unfolding pb_enc_fixed_length_bytes_def by (rule str) (simp add: load_bytes_length)
  have subm: "implements (\<lambda>s. pb_enc_submessage enc s field src)
      (case ptr field of Ptr_null \<Rightarrow> Some None | Ptr_fields fs \<Rightarrow> wire_submessage (sub fs src)
       | Ptr_default _ \<Rightarrow> None)"
    by (cases "ptr field") (simp_all add: pb_enc_submessage_def implements_submessage sub)
  show ?thesis
    unfolding wire_value_def PB_ENCODERS_def Let_def
    using varint_case svarint_case fixed32 fixed64 bytes cstr flb subm
    by (simp add: pb_enc_varint_def pb_enc_uvarint_def pb_enc_svarint_def pb_enc_fixed32_def
        pb_enc_fixed64_def)
qed

section \<open>Arrays on the wire\<close>

lemma implements_packed_loop:
  assumes "\<And>p. implements (\<lambda>s. func s field p) (val field p)"
  shows "implements (\<lambda>s. packed_loop func field n p s) (wire_packed val field n p)"
proof (induction n arbitrary: p)
  case 0
  then show ?case by simp
next
  case (Suc n)
  show ?case unfolding packed_loop.simps wire_packed.simps
    by (rule implements_seq [OF assms Suc.IH])
qed

lemma implements_unpacked_loop:
  assumes val: "\<And>p. implements (\<lambda>s. func s field p) (val field p)"
  shows "implements (\<lambda>s. unpacked_loop m func field n p s) (wire_unpacked m val field n p)"
proof (induction n arbitrary: p)
  case 0
  then show ?case by simp
next
  case (Suc n)
  have item: "implements (\<lambda>s.
      if PB_ATYPE (type field) = PB_ATYPE_POINTER \<and>
         (PB_LTYPE (type field) = PB_LTYPE_STRING \<or> PB_LTYPE (type field) = PB_LTYPE_BYTES)
      then do { q \<leftarrow> load_ptr m p; func s field q }
      else func s field p) (wire_item m val field p)" for p
    unfolding wire_item_def by (intro implements_if implements_bind val)
  show ?case unfolding unpacked_loop.simps wire_unpacked.simps
    by (intro implements_seq implements_tag_for_field item Suc.IH)
qed

lemma wire_packed_fixed:
  assumes "\<And>p r. val field p = Some r \<Longrightarrow> \<exists>xs. r = Some xs \<and> length xs = k"
    and "wire_packed val field n p = Some r"
  shows "\<exists>xs. r = Some xs \<and> length xs = k * n"
  using assms(2)
proof (induction n arbitrary: p r)
  case 0
  then show ?case by simp
next
  case (Suc n)
  then obtain r1 where r1: "val field p = Some r1" by (auto simp: wthen_def bind_Some_iff)
  with assms(1) obtain xs where xs: "r1 = Some xs" "length xs = k" by blast
  with Suc.prems r1 obtain r2
    where "wire_packed val field n (p + unat (data_size field)) = Some r2"
      and r: "r = map_option (\<lambda>ys. xs @ ys) r2"
    by (auto simp: wthen_def bind_Some_iff)
  then obtain ys where "r2 = Some ys" "length ys = k * n" using Suc.IH by blast
  with r xs show ?case by simp
qed

lemma behaves_fail: "behaves (\<lambda>s. Some (False, s)) None"
  by (simp add: behaves_def emits_on_def size_post_def size_ok_def within_def buf_ok_def)

lemma implements_encode_array:
  assumes val: "\<And>p. implements (\<lambda>s. func s field p) (val field p)"
    and f32: "\<And>p r. PB_LTYPE (type field) = PB_LTYPE_FIXED32 \<Longrightarrow> val field p = Some r \<Longrightarrow>
      \<exists>xs. r = Some xs \<and> length xs = 4"
    and f64: "\<And>p r. PB_LTYPE (type field) = PB_LTYPE_FIXED64 \<Longrightarrow> val field p = Some r \<Longrightarrow>
      \<exists>xs. r = Some xs \<and> length xs = 8"
  shows "implements (\<lambda>s. encode_array m s field pd count func) (wire_array m val field pd count)"
proof -
  let ?w = "wire_packed val field count pd"
  let ?SZ = "if PB_LTYPE (type field) = PB_LTYPE_FIXED32 then Some (True, of_nat (4 * count))
     else if PB_LTYPE (type field) = PB_LTYPE_FIXED64 then Some (True, of_nat (8 * count))
     else do { (ok, sizestream) \<leftarrow> packed_loop func field count pd PB_OSTREAM_SIZING;
               Some (ok, bytes_written sizestream) }"
  let ?rest = "\<lambda>s. do {
      (ok, sz) \<leftarrow> ?SZ;
      if \<not> ok then Some (False, s)
      else do {
        (ok, s) \<leftarrow> pb_encode_varint s sz;
        if \<not> ok then Some (False, s)
        else if is_null_cb s then pb_write s None sz
        else packed_loop func field count pd s
      } }"
  have loop: "implements (\<lambda>s. packed_loop func field count pd s) ?w"
    using val by (rule implements_packed_loop)
  have "implements ?rest (wire_submessage ?w)"
  proof (rule implementsI)
    fix r assume r: "wire_submessage ?w = Some r"
    then obtain rw where rw: "?w = Some rw" by (auto simp: wire_submessage_def bind_Some_iff)
    have beh: "behaves (\<lambda>s. packed_loop func field count pd s) rw"
      using loop rw by (rule implementsD)
    show "behaves ?rest r"
    proof (cases rw)
      case None
      then have nf: "PB_LTYPE (type field) \<noteq> PB_LTYPE_FIXED32" "PB_LTYPE (type field) \<noteq> PB_LTYPE_FIXED64"
        using wire_packed_fixed [of val field 4 count pd rw] f32
          wire_packed_fixed [of val field 8 count pd rw] f64 rw by auto
      obtain s' where "packed_loop func field count pd PB_OSTREAM_SIZING = Some (False, s')"
        using behaves_on_sizing_stream(2) beh None by blast
      moreover have "r = None" using r rw None by (simp add: wire_submessage_def)
      ultimately show ?thesis using nf behaves_fail by simp
    next
      case (Some bs)
      let ?n = "of_nat (length bs) :: u64"
      have sz: "?SZ = Some (True, ?n)"
        using wire_packed_fixed [of val field 4 count pd rw] f32 rw
          wire_packed_fixed [of val field 8 count pd rw] f64 Some
          behaves_on_sizing_stream(1) [OF beh [unfolded Some]] by auto
      from r rw Some have rr: "r = Some (varint ?n @ bs)"
        by (auto simp: wire_submessage_def wire_string_def sized_def split: if_splits)
      have "behaves (\<lambda>s. if is_null_cb s then pb_write s None ?n
          else packed_loop func field count pd s) (Some bs)"
        using behaves_if_null [OF sizing_write_null] beh Some by (simp add: behaves_def)
      then have "behaves (\<lambda>s. Option.bind (pb_encode_varint s ?n)
          (\<lambda>(ok, s). if \<not> ok then Some (False, s)
             else if is_null_cb s then pb_write s None ?n else packed_loop func field count pd s))
          (wseq (Some (varint ?n)) (Some bs))"
        by (intro behaves_seq behaves_varint)
      then show ?thesis using rr unfolding sz by simp
    qed
  qed
  then have packed: "implements (\<lambda>s. Option.bind (pb_encode_tag s PB_WT_STRING (tag field))
      (\<lambda>(ok, s). if \<not> ok then Some (False, s) else ?rest s))
      (wthen (Some (Some (varint (tag_value PB_WT_STRING (tag field))))) (wire_submessage ?w))"
    by (intro implements_seq implements_tag)
  show ?thesis
  proof (cases "count = 0 \<or> (PB_ATYPE (type field) \<noteq> PB_ATYPE_POINTER \<and> count > unat (array_size field))")
    case True
    then show ?thesis by (auto simp: encode_array_def wire_array_def)
  next
    case False
    then show ?thesis using packed implements_unpacked_loop [where func = func and val = val and field = field and m = m and n = count and p = pd, OF val]
      by (auto simp: encode_array_def wire_array_def cong: if_cong)
  qed
qed

section \<open>Fields and messages\<close>

lemma implements_present:
  assumes "implements (\<lambda>s. func s field p) v"
  shows "implements (\<lambda>s. Option.bind (pb_encode_tag_for_field s field)
     (\<lambda>(ok, s). if \<not> ok then Some (False, s) else func s field p)) (wire_present v field)"
  unfolding wire_present_def by (intro implements_seq implements_tag_for_field assms)

lemma implements_bind_split:
  "(\<And>x y. a = Some (x, y) \<Longrightarrow> implements (f x y) (w x y)) \<Longrightarrow>
   implements (\<lambda>s. Option.bind a (\<lambda>(x, y). f x y s)) (Option.bind a (\<lambda>(x, y). w x y))"
  by (cases a) auto

lemma implements_basic_field:
  assumes sub: "\<And>fs p. implements (\<lambda>s. enc s fs p) (sub fs p)"
  shows "implements (\<lambda>s. encode_basic_field enc is_default m s field pd)
           (wire_basic_field sub is_default m field pd)"
proof -
  let ?func = "PB_ENCODERS enc m (PB_LTYPE (type field))"
  have val: "implements (\<lambda>s. ?func s field p) (wire_value sub m field p)" for p
    using sub by (rule implements_value)
  have arr: "implements (\<lambda>s. encode_array m s field p n ?func)
      (wire_array m (wire_value sub m) field p n)" for p n
    by (rule implements_encode_array, rule val) (auto simp: wire_value_def)
  show ?thesis
    unfolding encode_basic_field_def wire_basic_field_def Let_def
    by (intro implements_bind implements_bind_split implements_if implements_present
        implements_error implements_nothing val arr)
qed

lemma implements_callback:
  assumes "implements (\<lambda>s. cb s) w"
  shows "implements (\<lambda>s. Option.bind (cb s) (\<lambda>(ok, s).
     if \<not> ok then Some (o_error s msg) else Some (True, s))) w"
proof (rule implementsI)
  fix r assume "w = Some r"
  with assms have b: "behaves cb r" by (simp add: implements_def)
  have "within s (snd (o_error s' msg))" if "within s s'" for s s'
    using that by (simp add: within_def)
  then show "behaves (\<lambda>s. Option.bind (cb s) (\<lambda>(ok, s).
     if \<not> ok then Some (o_error s msg) else Some (True, s))) r"
    using b by (cases r) (fastforce simp: behaves_def emits_on_def size_post_def o_error_def)+
qed

lemma implements_field:
  assumes sub: "\<And>fs p. implements (\<lambda>s. enc s fs p) (sub fs p)"
    and usr: "user_encoders_ok cbw extw \<Gamma> m"
  shows "implements (\<lambda>s. encode_field enc is_default \<Gamma> m s field pd)
           (wire_field sub is_default cbw m field pd)"
  unfolding encode_field_def wire_field_def encode_callback_field_def
  by (intro implements_if implements_bind implements_error implements_nothing implements_callback
      implements_basic_field sub) (use usr in \<open>simp add: user_encoders_ok_def\<close>)

lemma implements_default_extension:
  assumes "\<And>field p. implements (\<lambda>s. encode_field enc is_default \<Gamma> m s field p) (wfield field p)"
  shows "implements (\<lambda>s. default_extension_encoder enc is_default \<Gamma> m s e)
           (wire_default_extension wfield \<Gamma> m e)"
  unfolding default_extension_encoder_def wire_default_extension_def Let_def
  by (intro implements_bind implements_if assms)

lemma implements_extensions:
  assumes fld: "\<And>field p. implements (\<lambda>s. encode_field enc is_default \<Gamma> m s field p) (wfield field p)"
    and usr: "user_encoders_ok cbw extw \<Gamma> m"
  shows "implements (\<lambda>s. extensions_loop n enc is_default \<Gamma> m e s)
           (wire_extensions n wfield extw \<Gamma> m e)"
proof (induction n arbitrary: e)
  case 0
  then show ?case by simp
next
  case (Suc n)
  have ext: "implements (\<lambda>s. cb_ext_encode \<Gamma> fn m s e) (extw fn e)" for fn e
    using usr by (simp add: user_encoders_ok_def)
  show ?case unfolding extensions_loop.simps wire_extensions.simps
    by (intro implements_if implements_nothing implements_bind implements_seq ext
        implements_default_extension fld Suc.IH)
qed

lemma implements_run_fields:
  assumes "\<And>k. k \<in> set ks \<Longrightarrow> implements (body k) (w k)"
  shows "implements (\<lambda>s. run_fields body ks s) (wire_fields w ks)"
  using assms
proof (induction ks)
  case Nil
  then show ?case by simp
next
  case (Cons k ks)
  have "implements (\<lambda>s. run_fields body ks s) (wire_fields w ks)" using Cons by simp
  moreover have "implements (\<lambda>s. body k s) (w k)" using Cons.prems by simp
  ultimately show ?case unfolding run_fields.simps wire_fields.simps by (intro implements_seq)
qed

theorem pb_encode_implements:
  assumes env: "wf_env \<Gamma>" and usr: "user_encoders_ok cbw extw \<Gamma> m"
  shows "implements (\<lambda>s. pb_encode n \<Gamma> m s fs src) (wire_msg n cbw extw \<Gamma> m fs src)"
proof (induction n arbitrary: fs src)
  case 0
  then show ?case by simp
next
  case (Suc n)
  let ?isd = "pb_check_proto3_default_value n \<Gamma> m"
  let ?wf = "wire_field (wire_msg n cbw extw \<Gamma> m) ?isd cbw m"
  have wf: "wf_fields (msg_fields \<Gamma> fs)" using env by (simp add: wf_env_def)
  have fld: "implements (\<lambda>s. encode_field (pb_encode n \<Gamma> m) ?isd \<Gamma> m s field p) (?wf field p)" for field p
    using Suc.IH usr by (rule implements_field)
  have "implements (\<lambda>s. run_fields (\<lambda>k s.
      if PB_LTYPE (type (msg_fields \<Gamma> fs ! k)) = PB_LTYPE_EXTENSION
      then encode_extension_field n (pb_encode n \<Gamma> m) ?isd \<Gamma> m s (msg_fields \<Gamma> fs ! k)
             (src + data_off (msg_fields \<Gamma> fs) k)
      else encode_field (pb_encode n \<Gamma> m) ?isd \<Gamma> m s (msg_fields \<Gamma> fs ! k)
             (src + data_off (msg_fields \<Gamma> fs) k)) [0..<length (msg_fields \<Gamma> fs)] s)
     (wire_msg (Suc n) cbw extw \<Gamma> m fs src)"
    unfolding wire_msg.simps Let_def encode_extension_field_def
    by (intro implements_run_fields implements_if implements_bind implements_extensions [where cbw = cbw] fld usr)
  moreover have "pb_encode (Suc n) \<Gamma> m s fs src = run_fields (\<lambda>k s.
      if PB_LTYPE (type (msg_fields \<Gamma> fs ! k)) = PB_LTYPE_EXTENSION
      then encode_extension_field n (pb_encode n \<Gamma> m) ?isd \<Gamma> m s (msg_fields \<Gamma> fs ! k)
             (src + data_off (msg_fields \<Gamma> fs) k)
      else encode_field (pb_encode n \<Gamma> m) ?isd \<Gamma> m s (msg_fields \<Gamma> fs ! k)
             (src + data_off (msg_fields \<Gamma> fs) k)) [0..<length (msg_fields \<Gamma> fs)] s" for s
    unfolding pb_encode.simps for_all_fields_run [OF wf] pb_const_cast_def
    by (rule run_fields_cong) simp
  ultimately show ?case by simp
qed

end
