(* ===== verification/PB_Example.thy ===== *)
theory PB_Example
  imports PB_Wire
begin

text \<open>
  Concrete messages on which the theorems are applied: descriptor arrays built with the macros of
  \<open>pb.h\<close>, the memory image of a structure, and an environment. They are test data of the
  development, not code of the library.
\<close>

definition image :: "addr \<Rightarrow> byte list \<Rightarrow> mem" where
  "image p bs =
     \<lparr>cells = (\<lambda>a. if p \<le> a \<and> a < p + length bs then Some (bs ! (a - p)) else None),
      blocks = (\<lambda>_. None), brk = 2000, heap_end = 3000, junk = (\<lambda>_. 0xAA)\<rparr>"

text \<open>\<open>struct inner { int32_t x; }\<close>\<close>

abbreviation (input) INNER_FIELDS :: addr where "INNER_FIELDS \<equiv> 16"

definition inner_x :: member where
  "inner_x = \<lparr>m_offset = 0, m_size = 4, m_elem = 4\<rparr>"

definition inner_fields :: "pb_field_t list" where
  "inner_fields = [PB_FIELD 1 INT32 REQUIRED STATIC FIRST inner_x inner_x inner_x Ptr_null]"

text \<open>
  \<open>struct outer { uint32_t id; bool has_name; char name[8]; pb_size_t vals_count;
  int32_t vals[3]; inner sub; }\<close>
\<close>

abbreviation (input) OUTER_FIELDS :: addr where "OUTER_FIELDS \<equiv> 32"

definition outer_id :: member where
  "outer_id = \<lparr>m_offset = 0, m_size = 4, m_elem = 4\<rparr>"
definition outer_has_name :: member where
  "outer_has_name = \<lparr>m_offset = 4, m_size = 1, m_elem = 1\<rparr>"
definition outer_name :: member where
  "outer_name = \<lparr>m_offset = 5, m_size = 8, m_elem = 1\<rparr>"
definition outer_vals_count :: member where
  "outer_vals_count = \<lparr>m_offset = 16, m_size = 4, m_elem = 4\<rparr>"
definition outer_vals :: member where
  "outer_vals = \<lparr>m_offset = 20, m_size = 12, m_elem = 4\<rparr>"
definition outer_sub :: member where
  "outer_sub = \<lparr>m_offset = 32, m_size = 4, m_elem = 4\<rparr>"

definition outer_fields :: "pb_field_t list" where
  "outer_fields =
    [PB_FIELD 1 UINT32 REQUIRED STATIC FIRST outer_id outer_id outer_id Ptr_null,
     PB_FIELD 2 STRING OPTIONAL STATIC OTHER outer_has_name outer_name outer_id Ptr_null,
     PB_FIELD 3 INT32 REPEATED STATIC OTHER outer_vals_count outer_vals outer_name Ptr_null,
     PB_FIELD 4 MESSAGE REQUIRED STATIC OTHER outer_sub outer_sub outer_vals (Ptr_fields INNER_FIELDS)]"

definition example_env :: pb_env where
  "example_env =
     \<lparr>msg_fields = (\<lambda>a. if a = INNER_FIELDS then inner_fields
                        else if a = OUTER_FIELDS then outer_fields else []),
      ext_types = (\<lambda>_. None),
      cb_encode = (\<lambda>_ _ _ _ _. None), cb_ext_encode = (\<lambda>_ _ _ _. None),
      cb_decode = (\<lambda>_ _ _ _ _. None), cb_ext_decode = (\<lambda>_ _ _ _ _ _. None)\<rparr>"

abbreviation (input) OUTER :: addr where "OUTER \<equiv> 1000"

text \<open>\<open>{ id = 300, name = ``ab'', vals = { 1, 150 }, sub = { x = 5 } }\<close>\<close>

definition outer_mem :: mem where
  "outer_mem = image OUTER
     [0x2C, 1, 0, 0,  1,  0x61, 0x62, 0, 0, 0, 0, 0, 0,  0, 0, 0,
      2, 0, 0, 0,  1, 0, 0, 0,  0x96, 0, 0, 0,  0, 0, 0, 0,  5, 0, 0, 0]"

definition outer_bytes :: "byte list" where
  "outer_bytes =
     [0x08, 0xAC, 0x02,  0x12, 2, 0x61, 0x62,
      0x1A, 3, 1, 0x96, 0x01,
      0x22, 2, 0x08, 5]"

definition no_cb :: cb_wire where "no_cb = (\<lambda>_ _ _. None)"
definition no_ext :: ext_wire where "no_ext = (\<lambda>_ _. None)"

text \<open>Unfolding rules at numerals, so that the simplifier evaluates the model.\<close>

lemma load_bytes_numeral:
  "load_bytes m p (numeral k) =
     do { b \<leftarrow> cells m p; bs \<leftarrow> load_bytes m (Suc p) (pred_numeral k); Some (b # bs) }"
  by (simp add: numeral_eq_Suc)

lemma data_off_numeral:
  "data_off fs (numeral k) =
     (if in_union fs (numeral k) then data_off fs (pred_numeral k)
      else data_off fs (pred_numeral k) + prev_size (fs ! pred_numeral k) +
           unat (data_offset (fs ! numeral k)))"
  by (simp add: numeral_eq_Suc)

lemma union_head_numeral:
  "union_head fs (numeral k) =
     (if in_union fs (numeral k) then union_head fs (pred_numeral k) else numeral k)"
  by (simp add: numeral_eq_Suc)

lemma wire_packed_numeral:
  "wire_packed val field (numeral k) p =
     wthen (val field p) (wire_packed val field (pred_numeral k) (p + unat (data_size field)))"
  by (simp add: numeral_eq_Suc)

lemmas example_data =
  example_env_def inner_fields_def outer_fields_def outer_mem_def image_def inner_x_def outer_id_def
  outer_has_name_def outer_name_def outer_vals_count_def outer_vals_def outer_sub_def no_cb_def no_ext_def

lemmas descriptor_eval =
  PB_FIELD_def PB_REQUIRED_STATIC_def PB_OPTIONAL_STATIC_def PB_REPEATED_STATIC_def
  PB_DATAOFFSET_FIRST_def PB_DATAOFFSET_OTHER_def pb_membersize_def pb_arraysize_def pb_delta_def
  PB_ATYPE_def PB_HTYPE_def PB_LTYPE_def PB_SIZE_MAX_def

lemmas memory_eval =
  load_u8_def load_u16_def load_u32_def load_u64_def load_bool_def load_ptr_def ptr_add_def NULL_def PTR_SIZE_def
  load_bytes_numeral

lemmas wire_eval =
  wire_field_def wire_basic_field_def wire_present_def wire_tag_def wire_value_def wire_array_def
  wire_item_def wire_submessage_def wire_string_def wire_cstring_def wire_bytes_def sized_def wthen_def
  zigzag_def tag_value_def wire_type_of_def load_signed_def load_unsigned_def varint.simps
  data_off_numeral wire_packed_numeral in_union_def prev_size_def

lemmas example_eval = example_data descriptor_eval memory_eval wire_eval outer_bytes_def

lemma wf_example_env: "wf_env example_env"
  by (auto simp: wf_env_def wf_fields_def example_env_def inner_fields_def outer_fields_def
      PB_FIELD_def PB_REQUIRED_STATIC_def PB_OPTIONAL_STATIC_def PB_REPEATED_STATIC_def)

lemma user_encoders_example: "user_encoders_ok no_cb no_ext example_env m"
  by (simp add: user_encoders_ok_def no_cb_def no_ext_def)

lemma inner_fields_val:
  "inner_fields =
    [\<lparr>tag = 1, type = 0, data_offset = 0, size_offset = 0, data_size = 4, array_size = 0, ptr = Ptr_null\<rparr>]"
  by (simp add: example_data descriptor_eval)

lemma outer_fields_val:
  "outer_fields =
    [\<lparr>tag = 1, type = 1, data_offset = 0, size_offset = 0, data_size = 4, array_size = 0, ptr = Ptr_null\<rparr>,
     \<lparr>tag = 2, type = 22, data_offset = 1, size_offset = - 1, data_size = 8, array_size = 0, ptr = Ptr_null\<rparr>,
     \<lparr>tag = 3, type = 32, data_offset = 7, size_offset = - 4, data_size = 4, array_size = 3, ptr = Ptr_null\<rparr>,
     \<lparr>tag = 4, type = 7, data_offset = 0, size_offset = 0, data_size = 4, array_size = 0,
      ptr = Ptr_fields INNER_FIELDS\<rparr>]"
  by (simp add: example_data descriptor_eval)

lemma example_env_fields:
  "msg_fields example_env INNER_FIELDS = inner_fields"
  "msg_fields example_env OUTER_FIELDS = outer_fields"
  by (simp_all add: example_env_def)

lemma outer_mem_cells:
  "load_u32 outer_mem 1000 = Some 300" "load_bool outer_mem 1004 = Some True"
  "strnlen_loop outer_mem 1005 0 8 = Some 2" "load_bytes outer_mem 1005 2 = Some [0x61, 0x62]"
  "load_u32 outer_mem 1016 = Some 2" "load_u32 outer_mem 1020 = Some 1"
  "load_u32 outer_mem 1024 = Some 150" "load_u32 outer_mem 1032 = Some 5"
  by (simp_all add: strnlen_loop.simps memory_eval outer_mem_def image_def)

lemma inner_wire: "wire_msg (Suc n) no_cb no_ext example_env outer_mem INNER_FIELDS 1032 = Some (Some [0x08, 5])"
  by (simp add: example_env_fields inner_fields_val descriptor_eval wire_eval NULL_def outer_mem_cells)

lemma outer_wire: "wire_msg (Suc (Suc n)) no_cb no_ext example_env outer_mem OUTER_FIELDS OUTER = Some (Some outer_bytes)"
  unfolding wire_msg.simps(2) [of "Suc n"]
  by (simp add: example_env_fields outer_fields_val descriptor_eval wire_eval NULL_def outer_mem_cells
      ptr_add_def inner_wire outer_bytes_def del: wire_msg.simps)

text \<open>The same structure with \<open>vals_count = 4\<close>, more than the array holds.\<close>

definition bad_mem :: mem where
  "bad_mem = outer_mem\<lparr>cells := (cells outer_mem)(1016 \<mapsto> 4)\<rparr>"

lemma bad_mem_cells:
  "load_u32 bad_mem 1000 = Some 300" "load_bool bad_mem 1004 = Some True"
  "strnlen_loop bad_mem 1005 0 8 = Some 2" "load_bytes bad_mem 1005 2 = Some [0x61, 0x62]"
  "load_u32 bad_mem 1016 = Some 4"
  by (simp_all add: strnlen_loop.simps memory_eval bad_mem_def outer_mem_def image_def)

lemma bad_wire: "wire_msg (Suc (Suc n)) no_cb no_ext example_env bad_mem OUTER_FIELDS OUTER = Some None"
  unfolding wire_msg.simps(2) [of "Suc n"]
  by (simp add: example_env_fields outer_fields_val descriptor_eval wire_eval NULL_def bad_mem_cells
      ptr_add_def del: wire_msg.simps)

end
