(* ===== verification/PB_Encode_Correct.thy ===== *)
theory PB_Encode_Correct
  imports PB_Example
begin

text \<open>
  What the encoder guarantees to its callers, in terms of the wire format of \<open>PB_Wire\<close>: the
  bytes it leaves in a buffer, the size it announces, and that a buffer that is too small is
  never overrun.
\<close>

section \<open>Encoding into a buffer\<close>

lemma implements_buffer:
  assumes imp: "implements f (Some r)" and buf: "length buf < 2 ^ 63" "unat cap \<le> length buf"
  shows "case r of
      None \<Rightarrow> \<exists>s'. f (pb_ostream_from_buffer buf cap) = Some (False, s') \<and>
               within (pb_ostream_from_buffer buf cap) s'
    | Some bs \<Rightarrow>
        if length bs \<le> unat cap
        then f (pb_ostream_from_buffer buf cap) =
               Some (True, \<lparr>o_callback = OC_buf_write,
                 o_state = \<lparr>obuf = bs @ drop (length bs) buf, opos = length bs\<rparr>,
                 max_size = cap, bytes_written = of_nat (length bs), o_errmsg = None\<rparr>)
        else \<exists>s'. f (pb_ostream_from_buffer buf cap) = Some (False, s') \<and>
               within (pb_ostream_from_buffer buf cap) s'"
proof -
  have beh: "behaves f r" using imp by (simp add: implements_def)
  have ok: "buf_ok (pb_ostream_from_buffer buf cap)" using buf by (rule buf_ok_from_buffer)
  have put: "buf_put (pb_ostream_from_buffer buf cap) bs =
      \<lparr>o_callback = OC_buf_write, o_state = \<lparr>obuf = bs @ drop (length bs) buf, opos = length bs\<rparr>,
       max_size = cap, bytes_written = of_nat (length bs), o_errmsg = None\<rparr>" for bs
    by (simp add: buf_put_def pb_ostream_from_buffer_def)
  have room: "room (pb_ostream_from_buffer buf cap) = unat cap"
    by (simp add: room_def pb_ostream_from_buffer_def)
  show ?thesis using behaves_buffer [OF beh ok] by (simp add: put room split: option.splits)
qed

lemma implements_buffer_bytes:
  assumes "implements f (Some (Some w))" and "length buf < 2 ^ 63" and "unat cap \<le> length buf"
    and "length w \<le> unat cap"
  shows "\<exists>s'. f (pb_ostream_from_buffer buf cap) = Some (True, s') \<and>
     take (unat (bytes_written s')) (obuf (o_state s')) = w"
proof -
  have "unat (of_nat (length w) :: size_t) = length w"
    using assms(2-4) by (simp add: unat_of_nat_64)
  then show ?thesis using implements_buffer [OF assms(1-3)] assms(4) by simp
qed

lemma implements_size:
  assumes "implements f (Some (Some bs))"
  shows "f PB_OSTREAM_SIZING = Some (True, PB_OSTREAM_SIZING\<lparr>bytes_written := of_nat (length bs)\<rparr>)"
proof -
  have "behaves f (Some bs)" using assms by (simp add: implements_def)
  from behaves_sizing [OF this, of PB_OSTREAM_SIZING] show ?thesis
    by (simp add: PB_OSTREAM_SIZING_def)
qed

lemma implements_delimited:
  assumes "wf_env \<Gamma>" and "user_encoders_ok cbw extw \<Gamma> m"
  shows "implements (\<lambda>s. pb_encode_delimited n \<Gamma> m s fs src)
           (wire_submessage (wire_msg n cbw extw \<Gamma> m fs src))"
  unfolding pb_encode_delimited_def
  by (intro implements_submessage pb_encode_implements assms)

lemma implements_nullterminated:
  assumes "wf_env \<Gamma>" and "user_encoders_ok cbw extw \<Gamma> m"
  shows "implements (\<lambda>s. pb_encode_nullterminated n \<Gamma> m s fs src)
           (wthen (wire_msg n cbw extw \<Gamma> m fs src) (Some (Some [0])))"
proof -
  have "implements (\<lambda>s. pb_write s (Some [0]) 1) (Some (Some [0]))"
    using behaves_write [of "[0]"] by (simp add: implements_def)
  then show ?thesis unfolding pb_encode_nullterminated_def
    by (intro implements_seq pb_encode_implements assms)
qed

lemmas encoder_refinements = pb_encode_implements implements_delimited implements_nullterminated

section \<open>Properties\<close>

text \<open>
  C1. The encoder refines the wire format: for every message that has an encoding, \<open>pb_encode\<close>
  into a buffer that is large enough returns true, the buffer starts with exactly the bytes of
  the wire format, the rest of the buffer is untouched and \<open>bytes_written\<close> is their number; a
  buffer that is too small makes it return false, and nothing outside the buffer or behind the
  write position is changed.
\<close>

theorem pb_encode_correct:
  assumes "wf_env \<Gamma>" and "user_encoders_ok cbw extw \<Gamma> m"
    and "wire_msg n cbw extw \<Gamma> m fs src = Some (Some bs)"
    and "length buf < 2 ^ 63" and "unat cap \<le> length buf"
  shows "if length bs \<le> unat cap
         then pb_encode n \<Gamma> m (pb_ostream_from_buffer buf cap) fs src =
                Some (True, \<lparr>o_callback = OC_buf_write,
                  o_state = \<lparr>obuf = bs @ drop (length bs) buf, opos = length bs\<rparr>,
                  max_size = cap, bytes_written = of_nat (length bs), o_errmsg = None\<rparr>)
         else \<exists>s'. pb_encode n \<Gamma> m (pb_ostream_from_buffer buf cap) fs src = Some (False, s') \<and>
                within (pb_ostream_from_buffer buf cap) s'"
  using implements_buffer [where f = "\<lambda>s. pb_encode n \<Gamma> m s fs src" and r = "Some bs", OF _ assms(4,5)]
    pb_encode_implements [OF assms(1,2), of n fs src] assms(3) by simp

theorem pb_encode_correct_witness:
  "pb_encode (Suc (Suc 0)) example_env outer_mem (pb_ostream_from_buffer (replicate 20 0xEE) 20) OUTER_FIELDS OUTER =
     Some (True, \<lparr>o_callback = OC_buf_write,
       o_state = \<lparr>obuf = outer_bytes @ replicate 4 0xEE, opos = 16\<rparr>,
       max_size = 20, bytes_written = 16, o_errmsg = None\<rparr>)"
  using pb_encode_correct [OF wf_example_env user_encoders_example outer_wire [of 0],
      of "replicate 20 0xEE" 20]
  by (simp add: outer_bytes_def del: pb_encode.simps)

text \<open>
  C2. A message without encoding (a missing required pointer, a count larger than its array, a
  bytes field larger than its storage, an invalid integer width, a failing callback) makes the
  encoder return false, with everything it wrote inside the buffer.
\<close>

theorem pb_encode_rejects:
  assumes "wf_env \<Gamma>" and "user_encoders_ok cbw extw \<Gamma> m"
    and "wire_msg n cbw extw \<Gamma> m fs src = Some None"
    and "length buf < 2 ^ 63" and "unat cap \<le> length buf"
  shows "\<exists>s'. pb_encode n \<Gamma> m (pb_ostream_from_buffer buf cap) fs src = Some (False, s') \<and>
           within (pb_ostream_from_buffer buf cap) s'"
  using implements_buffer [where f = "\<lambda>s. pb_encode n \<Gamma> m s fs src" and r = None, OF _ assms(4,5)]
    pb_encode_implements [OF assms(1,2), of n fs src] assms(3) by simp

theorem pb_encode_rejects_witness:
  "\<exists>s'. pb_encode (Suc (Suc 0)) example_env bad_mem (pb_ostream_from_buffer (replicate 20 0xEE) 20) OUTER_FIELDS OUTER
          = Some (False, s') \<and> within (pb_ostream_from_buffer (replicate 20 0xEE) 20) s'"
  using pb_encode_rejects [OF wf_example_env user_encoders_example bad_wire [of 0],
      of "replicate 20 0xEE" 20]
  by (simp del: pb_encode.simps)

text \<open>
  C3. \<open>pb_get_encoded_size\<close> announces exactly the number of bytes \<open>pb_encode\<close> needs: a buffer
  of that size is filled completely, and every smaller capacity makes the encoding fail.
\<close>

theorem pb_get_encoded_size_exact:
  assumes "wf_env \<Gamma>" and "user_encoders_ok cbw extw \<Gamma> m"
    and "wire_msg n cbw extw \<Gamma> m fs src = Some (Some bs)" and "length bs < 2 ^ 63"
    and "length buf = length bs"
  shows "\<exists>sz. pb_get_encoded_size n \<Gamma> m fs src = Some (Some sz) \<and> unat sz = length bs \<and>
     (\<exists>s'. pb_encode n \<Gamma> m (pb_ostream_from_buffer buf sz) fs src = Some (True, s') \<and>
           obuf (o_state s') = bs) \<and>
     (\<forall>cap < sz. \<exists>s'. pb_encode n \<Gamma> m (pb_ostream_from_buffer buf cap) fs src = Some (False, s'))"
proof -
  have imp: "implements (\<lambda>s. pb_encode n \<Gamma> m s fs src) (Some (Some bs))"
    using pb_encode_implements [OF assms(1,2), of n fs src] assms(3) by simp
  let ?sz = "of_nat (length bs) :: size_t"
  have sz: "unat ?sz = length bs" using assms(4) by (simp add: unat_of_nat_64)
  have size: "pb_get_encoded_size n \<Gamma> m fs src = Some (Some ?sz)"
    using implements_size [OF imp] by (simp add: pb_get_encoded_size_def)
  have len: "length buf < 2 ^ 63" using assms(4,5) by simp
  have "\<exists>s'. pb_encode n \<Gamma> m (pb_ostream_from_buffer buf ?sz) fs src = Some (True, s') \<and>
      obuf (o_state s') = bs"
    using implements_buffer [OF imp len, of ?sz] sz assms(5) by simp
  moreover have "\<exists>s'. pb_encode n \<Gamma> m (pb_ostream_from_buffer buf cap) fs src = Some (False, s')"
    if "cap < ?sz" for cap
  proof -
    have "unat cap < length bs" using that sz by (metis word_less_nat_alt)
    then show ?thesis using implements_buffer [OF imp len, of cap] assms(5) by auto
  qed
  ultimately show ?thesis using size sz by blast
qed

theorem pb_get_encoded_size_exact_witness:
  "\<exists>sz. pb_get_encoded_size (Suc (Suc 0)) example_env outer_mem OUTER_FIELDS OUTER = Some (Some sz) \<and> unat sz = 16"
  using pb_get_encoded_size_exact [OF wf_example_env user_encoders_example outer_wire [of 0],
      of "replicate 16 0"]
  by (auto simp: outer_bytes_def simp del: pb_encode.simps)

text \<open>
  C4. \<open>pb_encode_delimited\<close> puts the length of the encoding before it, as a varint, and leaves
  exactly these bytes in a buffer with enough room.
\<close>

theorem pb_encode_delimited_correct:
  assumes "wf_env \<Gamma>" and "user_encoders_ok cbw extw \<Gamma> m"
    and "wire_msg n cbw extw \<Gamma> m fs src = Some (Some bs)"
    and "length buf < 2 ^ 63" and "unat cap \<le> length buf"
    and "length (varint (of_nat (length bs)) @ bs) \<le> unat cap"
  shows "\<exists>s'. pb_encode_delimited n \<Gamma> m (pb_ostream_from_buffer buf cap) fs src = Some (True, s') \<and>
     take (unat (bytes_written s')) (obuf (o_state s')) = varint (of_nat (length bs)) @ bs"
proof -
  let ?w = "varint (of_nat (length bs)) @ bs"
  have len: "length ?w < 2 ^ 63" using assms(4-6) by linarith
  then have "implements (\<lambda>s. pb_encode_delimited n \<Gamma> m s fs src) (Some (Some ?w))"
    using implements_delimited [OF assms(1,2), of n fs src] assms(3)
    by (simp add: wire_submessage_def wire_string_def sized_def)
  from implements_buffer_bytes [OF this assms(4-6)] show ?thesis .
qed

theorem pb_encode_delimited_correct_witness:
  "\<exists>s'. pb_encode_delimited (Suc (Suc 0)) example_env outer_mem (pb_ostream_from_buffer (replicate 20 0xEE) 20)
          OUTER_FIELDS OUTER = Some (True, s') \<and>
     take (unat (bytes_written s')) (obuf (o_state s')) = 16 # outer_bytes"
  using pb_encode_delimited_correct [OF wf_example_env user_encoders_example outer_wire [of 0],
      of "replicate 20 0xEE" 20]
  by (simp add: outer_bytes_def varint.simps del: pb_encode.simps)

text \<open>
  \<open>pb_encode_nullterminated\<close> leaves the encoding followed by one zero byte.
\<close>

lemma pb_encode_nullterminated_correct:
  assumes "wf_env \<Gamma>" and "user_encoders_ok cbw extw \<Gamma> m"
    and "wire_msg n cbw extw \<Gamma> m fs src = Some (Some bs)"
    and "length buf < 2 ^ 63" and "unat cap \<le> length buf" and "Suc (length bs) \<le> unat cap"
  shows "\<exists>s'. pb_encode_nullterminated n \<Gamma> m (pb_ostream_from_buffer buf cap) fs src = Some (True, s') \<and>
     take (unat (bytes_written s')) (obuf (o_state s')) = bs @ [0]"
proof -
  have cap: "length (bs @ [0 :: byte]) \<le> unat cap" using assms(6) by simp
  have "implements (\<lambda>s. pb_encode_nullterminated n \<Gamma> m s fs src) (Some (Some (bs @ [0])))"
    using implements_nullterminated [OF assms(1,2), of n fs src] assms(3) by (simp add: wthen_def)
  from implements_buffer_bytes [OF this assms(4,5) cap] show ?thesis .
qed

end
