(* ===== verification/PB_Istream.thy ===== *)
theory PB_Istream
  imports PB_Ostream
begin

text \<open>
  Input streams and the decoding helpers of \<open>pb_decode.c\<close>: \<open>pb_read\<close>, varints, tags, skipping,
  substreams and fixed-width values. \<open>None\<close> is undefined behaviour, or a loop that does not end
  (a user callback can keep a loop alive for ever). Otherwise the result holds the value the
  function delivers, \<open>None\<close> if it returned false, and the stream it leaves.
\<close>

type_synonym 'a ires = "('a option \<times> pb_istream_t) option"

section \<open>Reading\<close>

text \<open>
  The flag says whether the destination is a buffer or the null pointer. The result holds the
  bytes that were put into the buffer.
\<close>

definition buf_read ::
  "pb_istream_t \<Rightarrow> bool \<Rightarrow> size_t \<Rightarrow> (bool \<times> byte list \<times> pb_istream_t) option" where
  "buf_read s buf count =
     (let n = unat count; source = i_state s in
      if length source < n then None
      else Some (True, if buf then take n source else [], s\<lparr>i_state := drop n source\<rparr>))"

definition istream_callback ::
  "pb_istream_t \<Rightarrow> bool \<Rightarrow> size_t \<Rightarrow> (bool \<times> byte list \<times> pb_istream_t) option" where
  "istream_callback s buf count =
     (case i_callback s of
        IC_buf_read \<Rightarrow> buf_read s buf count
      | IC_user f \<Rightarrow>
          let (ok, data, st, left) = f (i_state s) (bytes_left s) (unat count) in
          if \<not> buf \<or> unat count < length data then None
          else Some (ok, data, s\<lparr>i_state := st, bytes_left := left\<rparr>))"

definition is_buf_read :: "pb_istream_t \<Rightarrow> bool" where
  "is_buf_read s = (case i_callback s of IC_buf_read \<Rightarrow> True | IC_user _ \<Rightarrow> False)"

definition pb_read_chunk ::
  "pb_istream_t \<Rightarrow> bool \<Rightarrow> size_t \<Rightarrow> (bool \<times> byte list \<times> pb_istream_t) option" where
  "pb_read_chunk s buf count =
     (if bytes_left s < count then Some (False, [], i_error s ''end-of-stream'')
      else do {
        (ok, data, s) \<leftarrow> istream_callback s buf count;
        if \<not> ok then Some (False, data, i_error s ''io error'')
        else Some (True, data, s\<lparr>bytes_left := bytes_left s - count\<rparr>)
      })"

function skip_loop :: "pb_istream_t \<Rightarrow> size_t \<Rightarrow> (bool \<times> byte list \<times> pb_istream_t) option" where
  "skip_loop s count =
     (if count > 16 then
        do {
          (ok, _, s) \<leftarrow> pb_read_chunk s True 16;
          if \<not> ok then Some (False, [], s) else skip_loop s (count - 16)
        }
      else do {
        (ok, _, s) \<leftarrow> pb_read_chunk s True count;
        Some (ok, [], s)
      })"
  by pat_completeness auto
termination
proof (relation "measure (\<lambda>(s, count). unat count)")
  fix s :: pb_istream_t and count :: size_t and r ok p d s'
  assume "16 < count"
  then show "((s', count - 16), s, count) \<in> measure (\<lambda>(s, count). unat count)"
    by (simp add: unat_sub word_less_nat_alt word_le_nat_alt)
qed simp

declare skip_loop.simps [simp del]

definition pb_read ::
  "pb_istream_t \<Rightarrow> bool \<Rightarrow> size_t \<Rightarrow> (bool \<times> byte list \<times> pb_istream_t) option" where
  "pb_read s buf count =
     (if \<not> buf \<and> \<not> is_buf_read s then skip_loop s count else pb_read_chunk s buf count)"

text \<open>A callback that reports success without delivering the byte leaves it uninitialised.\<close>

definition pb_readbyte :: "pb_istream_t \<Rightarrow> byte ires" where
  "pb_readbyte s =
     (if bytes_left s = 0 then Some (None, i_error s ''end-of-stream'')
      else do {
        (ok, data, s) \<leftarrow> istream_callback s True 1;
        if \<not> ok then Some (None, i_error s ''io error'')
        else case data of
          [] \<Rightarrow> None
        | b # _ \<Rightarrow> Some (Some b, s\<lparr>bytes_left := bytes_left s - 1\<rparr>)
      })"

definition pb_istream_from_buffer :: "byte list \<Rightarrow> size_t \<Rightarrow> pb_istream_t" where
  "pb_istream_from_buffer buf bufsize =
     \<lparr>i_callback = IC_buf_read, i_state = buf, bytes_left = bufsize, i_errmsg = None\<rparr>"

section \<open>Varints\<close>

text \<open>\<open>uint_fast8_t\<close> has eight bits on the target, so \<open>bitpos\<close> wraps around.\<close>

partial_function (option) varint32_loop :: "byte \<Rightarrow> u32 \<Rightarrow> pb_istream_t \<Rightarrow> u32 ires" where
  [code]: "varint32_loop bitpos result s =
     do {
       (r, s) \<leftarrow> pb_readbyte s;
       case r of
         None \<Rightarrow> Some (None, s)
       | Some b \<Rightarrow>
           if bitpos \<ge> 32 \<and> b AND 0x7F \<noteq> 0 \<and>
              (drop_bit 31 result = 0 \<or> b \<noteq> (if bitpos < 63 then 0xFF else 0x01))
           then Some (None, i_error s ''varint overflow'')
           else
             let result = (if bitpos \<ge> 32 then result
                           else result OR push_bit (unat bitpos) (ucast (b AND 0x7F)));
                 bitpos = bitpos + 7
             in if b AND 0x80 \<noteq> 0 then varint32_loop bitpos result s
                else if bitpos = 35 \<and> b AND 0x70 \<noteq> 0
                then Some (None, i_error s ''varint overflow'')
                else Some (Some result, s)
     }"

text \<open>The middle component says whether \<open>*eof\<close> was set to true.\<close>

definition pb_decode_varint32_eof :: "pb_istream_t \<Rightarrow> (u32 option \<times> bool \<times> pb_istream_t) option" where
  "pb_decode_varint32_eof s =
     do {
       (r, s) \<leftarrow> pb_readbyte s;
       case r of
         None \<Rightarrow> Some (None, bytes_left s = 0, s)
       | Some b \<Rightarrow>
           if b AND 0x80 = 0 then Some (Some (ucast b), False, s)
           else do {
             (r, s) \<leftarrow> varint32_loop 7 (ucast (b AND 0x7F)) s;
             Some (r, False, s)
           }
     }"

definition pb_decode_varint32 :: "pb_istream_t \<Rightarrow> u32 ires" where
  "pb_decode_varint32 s = do { (r, eof, s) \<leftarrow> pb_decode_varint32_eof s; Some (r, s) }"

partial_function (option) varint_dec_loop :: "byte \<Rightarrow> u64 \<Rightarrow> pb_istream_t \<Rightarrow> u64 ires" where
  [code]: "varint_dec_loop bitpos result s =
     (if bitpos \<ge> 64 then Some (None, i_error s ''varint overflow'')
      else do {
        (r, s) \<leftarrow> pb_readbyte s;
        case r of
          None \<Rightarrow> Some (None, s)
        | Some b \<Rightarrow>
            let result = result OR push_bit (unat bitpos) (ucast (b AND 0x7F));
                bitpos = bitpos + 7
            in if b AND 0x80 \<noteq> 0 then varint_dec_loop bitpos result s
               else Some (Some result, s)
      })"

definition pb_decode_varint :: "pb_istream_t \<Rightarrow> u64 ires" where
  "pb_decode_varint s = varint_dec_loop 0 0 s"

definition pb_decode_svarint :: "pb_istream_t \<Rightarrow> u64 ires" where
  "pb_decode_svarint s =
     do {
       (r, s) \<leftarrow> pb_decode_varint s;
       case r of
         None \<Rightarrow> Some (None, s)
       | Some v \<Rightarrow> Some (Some (if v AND 1 \<noteq> 0 then NOT (drop_bit 1 v) else drop_bit 1 v), s)
     }"

section \<open>Skipping\<close>

partial_function (option) pb_skip_varint :: "pb_istream_t \<Rightarrow> (bool \<times> pb_istream_t) option" where
  [code]: "pb_skip_varint s =
     do {
       (ok, data, s) \<leftarrow> pb_read s True 1;
       if \<not> ok then Some (False, s)
       else case data of
         [] \<Rightarrow> None
       | b # _ \<Rightarrow> if b AND 0x80 \<noteq> 0 then pb_skip_varint s else Some (True, s)
     }"

definition pb_skip_bytes :: "pb_istream_t \<Rightarrow> size_t \<Rightarrow> (bool \<times> pb_istream_t) option" where
  "pb_skip_bytes s count = do { (ok, _, s) \<leftarrow> pb_read s False count; Some (ok, s) }"

definition pb_skip_string :: "pb_istream_t \<Rightarrow> (bool \<times> pb_istream_t) option" where
  "pb_skip_string s =
     do {
       (r, s) \<leftarrow> pb_decode_varint32 s;
       case r of None \<Rightarrow> Some (False, s) | Some len \<Rightarrow> pb_skip_bytes s (ucast len)
     }"

record tag_result =
  t_ok :: bool
  t_wire_type :: pb_wire_type_t
  t_tag :: u32
  t_eof :: bool

definition pb_decode_tag :: "pb_istream_t \<Rightarrow> (tag_result \<times> pb_istream_t) option" where
  "pb_decode_tag s =
     do {
       (r, eof, s) \<leftarrow> pb_decode_varint32_eof s;
       case r of
         None \<Rightarrow> Some (\<lparr>t_ok = False, t_wire_type = 0, t_tag = 0, t_eof = eof\<rparr>, s)
       | Some temp \<Rightarrow>
           if temp = 0 then Some (\<lparr>t_ok = False, t_wire_type = 0, t_tag = 0, t_eof = True\<rparr>, s)
           else Some (\<lparr>t_ok = True, t_wire_type = temp AND 7, t_tag = drop_bit 3 temp, t_eof = eof\<rparr>, s)
     }"

definition pb_skip_field :: "pb_istream_t \<Rightarrow> pb_wire_type_t \<Rightarrow> (bool \<times> pb_istream_t) option" where
  "pb_skip_field s wire_type =
     (if wire_type = PB_WT_VARINT then pb_skip_varint s
      else if wire_type = PB_WT_64BIT then pb_skip_bytes s 8
      else if wire_type = PB_WT_STRING then pb_skip_string s
      else if wire_type = PB_WT_32BIT then pb_skip_bytes s 4
      else Some (False, i_error s ''invalid wire_type''))"

text \<open>A read into a local array all of whose bytes are used afterwards.\<close>

definition read_exactly :: "pb_istream_t \<Rightarrow> nat \<Rightarrow> byte list ires" where
  "read_exactly s n =
     do { (ok, data, s) \<leftarrow> pb_read s True (of_nat n);
          if \<not> ok then Some (None, s)
          else if length data < n then None else Some (Some data, s) }"

text \<open>The bytes of one scalar value, for a callback: at most \<open>max_size\<close> of them.\<close>

fun raw_varint_loop :: "nat \<Rightarrow> pb_istream_t \<Rightarrow> byte list ires" where
  "raw_varint_loop 0 s = Some (None, s)"
| "raw_varint_loop (Suc n) s =
     do {
       (ok, data, s) \<leftarrow> pb_read s True 1;
       if \<not> ok then Some (None, s)
       else case data of
         [] \<Rightarrow> None
       | b # _ \<Rightarrow>
           if b AND 0x80 \<noteq> 0
           then do { (r, s) \<leftarrow> raw_varint_loop n s; Some (map_option (Cons b) r, s) }
           else Some (Some [b], s)
     }"

definition read_raw_value :: "pb_istream_t \<Rightarrow> pb_wire_type_t \<Rightarrow> nat \<Rightarrow> byte list ires" where
  "read_raw_value s wire_type max_sz =
     (if wire_type = PB_WT_VARINT then raw_varint_loop max_sz s
      else if wire_type = PB_WT_64BIT then
        read_exactly s 8
      else if wire_type = PB_WT_32BIT then
        read_exactly s 4
      else Some (None, i_error s ''invalid wire_type''))"

section \<open>Substreams\<close>

definition pb_make_string_substream :: "pb_istream_t \<Rightarrow> pb_istream_t ires" where
  "pb_make_string_substream s =
     do {
       (r, s) \<leftarrow> pb_decode_varint32 s;
       case r of
         None \<Rightarrow> Some (None, s)
       | Some sz \<Rightarrow>
           if bytes_left s < ucast sz then Some (None, i_error s ''parent stream too short'')
           else Some (Some (s\<lparr>bytes_left := ucast sz\<rparr>), s\<lparr>bytes_left := bytes_left s - ucast sz\<rparr>)
     }"

definition pb_close_string_substream ::
  "pb_istream_t \<Rightarrow> pb_istream_t \<Rightarrow> (bool \<times> pb_istream_t) option" where
  "pb_close_string_substream s substream =
     do {
       (ok, substream) \<leftarrow>
         (if bytes_left substream \<noteq> 0 then pb_skip_bytes substream (bytes_left substream)
          else Some (True, substream));
       if \<not> ok then Some (False, s)
       else Some (True, s\<lparr>i_state := i_state substream, i_errmsg := i_errmsg substream\<rparr>)
     }"

section \<open>Fixed-width values\<close>

definition fixed32_value :: "byte list \<Rightarrow> u32" where
  "fixed32_value bs =
     push_bit 0 (ucast (bs ! 0)) OR push_bit 8 (ucast (bs ! 1)) OR
     push_bit 16 (ucast (bs ! 2)) OR push_bit 24 (ucast (bs ! 3))"

definition fixed64_value :: "byte list \<Rightarrow> u64" where
  "fixed64_value bs =
     push_bit 0 (ucast (bs ! 0)) OR push_bit 8 (ucast (bs ! 1)) OR
     push_bit 16 (ucast (bs ! 2)) OR push_bit 24 (ucast (bs ! 3)) OR
     push_bit 32 (ucast (bs ! 4)) OR push_bit 40 (ucast (bs ! 5)) OR
     push_bit 48 (ucast (bs ! 6)) OR push_bit 56 (ucast (bs ! 7))"

definition pb_decode_fixed32 :: "mem \<Rightarrow> pb_istream_t \<Rightarrow> addr \<Rightarrow> (bool \<times> pb_istream_t \<times> mem) option" where
  "pb_decode_fixed32 m s dest =
     do {
       (r, s) \<leftarrow> read_exactly s 4;
       case r of
         None \<Rightarrow> Some (False, s, m)
       | Some bs \<Rightarrow> do { m \<leftarrow> store_u32 m dest (fixed32_value bs); Some (True, s, m) }
     }"

definition pb_decode_fixed64 :: "mem \<Rightarrow> pb_istream_t \<Rightarrow> addr \<Rightarrow> (bool \<times> pb_istream_t \<times> mem) option" where
  "pb_decode_fixed64 m s dest =
     do {
       (r, s) \<leftarrow> read_exactly s 8;
       case r of
         None \<Rightarrow> Some (False, s, m)
       | Some bs \<Rightarrow> do { m \<leftarrow> store_u64 m dest (fixed64_value bs); Some (True, s, m) }
     }"

end
