(* ===== verification/PB_Source.thy ===== *)
theory PB_Source
  imports PB_Istream
begin

text \<open>
  The contract of a byte source, as a locale, with its two providers: a memory buffer, and a
  user callback that behaves as \<open>pb_decode.h\<close> asks of it. The decoding helpers are
  characterised once, inside the locale, as functions of the bytes that are still to be read.
\<close>

section \<open>Bytes still to be read\<close>

definition pending :: "pb_istream_t \<Rightarrow> byte list" where
  "pending s = take (unat (bytes_left s)) (i_state s)"

definition adv :: "pb_istream_t \<Rightarrow> nat \<Rightarrow> pb_istream_t" where
  "adv s n = s\<lparr>i_state := drop n (i_state s), bytes_left := bytes_left s - of_nat n\<rparr>"

definition enough :: "pb_istream_t \<Rightarrow> bool" where
  "enough s \<longleftrightarrow> unat (bytes_left s) \<le> length (i_state s)"

definition buf_in :: "pb_istream_t \<Rightarrow> bool" where
  "buf_in s \<longleftrightarrow> i_callback s = IC_buf_read \<and> enough s"

definition reader_ok :: "(byte list \<Rightarrow> size_t \<Rightarrow> nat \<Rightarrow> bool \<times> byte list \<times> byte list \<times> size_t) \<Rightarrow> bool" where
  "reader_ok f \<longleftrightarrow> (\<forall>st left n. n \<le> length st \<longrightarrow> f st left n = (True, take n st, drop n st, left))"

definition user_in :: "pb_istream_t \<Rightarrow> bool" where
  "user_in s \<longleftrightarrow> (\<exists>f. i_callback s = IC_user f \<and> reader_ok f) \<and> enough s"

lemma length_pending: "enough s \<Longrightarrow> length (pending s) = unat (bytes_left s)"
  by (simp add: enough_def pending_def)

lemma unat_bytes_left_adv:
  assumes "n \<le> unat (bytes_left s)"
  shows "unat (bytes_left (adv s n)) = unat (bytes_left s) - n"
proof -
  have n: "unat (of_nat n :: size_t) = n"
    using assms unat_lt_64 [of "bytes_left s"] by (simp add: unat_of_nat_64)
  then have "(of_nat n :: size_t) \<le> bytes_left s" using assms by (simp add: word_le_nat_alt)
  then show ?thesis using n by (simp add: adv_def unat_sub)
qed

lemma enough_adv: "enough s \<Longrightarrow> n \<le> length (pending s) \<Longrightarrow> enough (adv s n)"
  using unat_bytes_left_adv [of n s] length_pending [of s]
  by (simp add: enough_def) (simp add: adv_def)

lemma pending_adv:
  assumes "enough s" and "n \<le> length (pending s)"
  shows "pending (adv s n) = drop n (pending s)"
proof -
  have "unat (bytes_left (adv s n)) = unat (bytes_left s) - n"
    using assms length_pending [of s] by (intro unat_bytes_left_adv) simp
  then show ?thesis by (simp add: pending_def drop_take) (simp add: adv_def)
qed

lemma adv_0 [simp]: "adv s 0 = s"
  by (simp add: adv_def)

lemma adv_adv [simp]: "adv (adv s n) k = adv s (n + k)"
  by (simp add: adv_def add.commute)

lemma adv_sel [simp]:
  "i_callback (adv s n) = i_callback s" "i_errmsg (adv s n) = i_errmsg s"
  "i_state (adv s n) = drop n (i_state s)"
  by (simp_all add: adv_def)

lemma pending_Nil_iff: "enough s \<Longrightarrow> pending s = [] \<longleftrightarrow> bytes_left s = 0"
  by (metis length_0_conv length_pending unat_eq_zero)

lemma pending_error [simp]: "pending (i_error s msg) = pending s"
  by (simp add: pending_def)

lemma enough_error [simp]: "enough (i_error s msg) = enough s"
  by (simp add: enough_def)

lemma pending_take_state: "n \<le> length (pending s) \<Longrightarrow> take n (i_state s) = take n (pending s)"
  by (simp add: pending_def min_absorb1)

section \<open>The contract\<close>

locale source =
  fixes ok :: "pb_istream_t \<Rightarrow> bool"
  assumes ok_enough: "ok s \<Longrightarrow> enough s"
    and ok_adv: "ok s \<Longrightarrow> n \<le> length (pending s) \<Longrightarrow> ok (adv s n)"
    and ok_limit: "ok s \<Longrightarrow> k \<le> bytes_left s \<Longrightarrow> ok (s\<lparr>bytes_left := k\<rparr>)"
    and ok_error: "ok (i_error s msg) = ok s"
    and readbyte_some: "ok s \<Longrightarrow> pending s = b # bs \<Longrightarrow> pb_readbyte s = Some (Some b, adv s 1)"
    and readbyte_end: "ok s \<Longrightarrow> pending s = [] \<Longrightarrow> pb_readbyte s = Some (None, i_error s ''end-of-stream'')"
    and read_some: "ok s \<Longrightarrow> n \<le> length (pending s) \<Longrightarrow>
      pb_read s buf (of_nat n) = Some (True, if buf then take n (pending s) else [], adv s n)"
    and read_short: "ok s \<Longrightarrow> length (pending s) < n \<Longrightarrow> n < 2 ^ 64 \<Longrightarrow>
      \<exists>d k. pb_read s buf (of_nat n) = Some (False, d, i_error (adv s k) ''end-of-stream'') \<and>
            k \<le> length (pending s)"

section \<open>Buffers\<close>

lemma istream_callback_user:
  assumes "i_callback s = IC_user f" and "reader_ok f" and "unat count \<le> length (i_state s)"
  shows "istream_callback s True count =
    Some (True, take (unat count) (i_state s), s\<lparr>i_state := drop (unat count) (i_state s)\<rparr>)"
  using assms by (simp add: istream_callback_def reader_ok_def)

lemma chunk_some:
  assumes en: "enough s" and n: "n \<le> length (pending s)"
    and cb: "istream_callback s buf (of_nat n) =
      Some (True, d, s\<lparr>i_state := drop n (i_state s)\<rparr>)"
  shows "pb_read_chunk s buf (of_nat n) = Some (True, d, adv s n)"
proof -
  have "n \<le> unat (bytes_left s)" using en n by (simp add: length_pending)
  then have "\<not> bytes_left s < of_nat n"
    using unat_lt_64 [of "bytes_left s"] by (simp add: word_less_nat_alt unat_of_nat_64)
  then show ?thesis using cb by (simp add: pb_read_chunk_def adv_def)
qed

lemma chunk_short:
  assumes "enough s" and "length (pending s) < n" and "n < 2 ^ 64"
  shows "pb_read_chunk s buf (of_nat n) = Some (False, [], i_error s ''end-of-stream'')"
  using assms by (simp add: pb_read_chunk_def length_pending word_less_nat_alt unat_of_nat_64)

lemma state_long: "enough s \<Longrightarrow> n \<le> length (pending s) \<Longrightarrow> n \<le> length (i_state s)"
  by (simp add: enough_def pending_def)

lemma unat_pending:
  "enough s \<Longrightarrow> n \<le> length (pending s) \<Longrightarrow> unat (of_nat n :: size_t) = n"
  using unat_lt_64 [of "bytes_left s"] by (simp add: length_pending unat_of_nat_64)

interpretation buffer_source: source buf_in
proof
  fix s n k msg b bs buf
  show "enough s" if "buf_in s" using that by (simp add: buf_in_def)
  show "buf_in (adv s n)" if "buf_in s" "n \<le> length (pending s)"
    using that by (simp add: buf_in_def enough_adv)
  show "buf_in (s\<lparr>bytes_left := k\<rparr>)" if "buf_in s" "k \<le> bytes_left s"
    using that by (auto simp: buf_in_def enough_def word_le_nat_alt)
  show "buf_in (i_error s msg) = buf_in s" by (simp add: buf_in_def)
  show "pb_readbyte s = Some (Some b, adv s 1)" if u: "buf_in s" and p: "pending s = b # bs"
  proof -
    have "bytes_left s \<noteq> 0" using u p pending_Nil_iff [of s] by (auto simp: buf_in_def)
    moreover obtain st where "i_state s = b # st"
      using u p by (cases "i_state s"; cases "unat (bytes_left s)") (auto simp: pending_def)
    ultimately show ?thesis using u p
      by (simp add: pb_readbyte_def istream_callback_def buf_read_def buf_in_def adv_def)
  qed
  show "pb_readbyte s = Some (None, i_error s ''end-of-stream'')" if "buf_in s" "pending s = []"
    using that pending_Nil_iff [of s] by (simp add: buf_in_def pb_readbyte_def)
  show "pb_read s buf (of_nat n) = Some (True, if buf then take n (pending s) else [], adv s n)"
    if "buf_in s" "n \<le> length (pending s)"
  proof -
    have en: "enough s" using that by (simp add: buf_in_def)
    have "istream_callback s buf (of_nat n) =
        Some (True, if buf then take n (pending s) else [], s\<lparr>i_state := drop n (i_state s)\<rparr>)"
      using that state_long [OF en that(2)] unat_pending [OF en that(2)] pending_take_state [OF that(2)]
      by (simp add: istream_callback_def buf_in_def buf_read_def)
    from chunk_some [OF en that(2) this] show ?thesis
      using that by (simp add: pb_read_def is_buf_read_def buf_in_def)
  qed
  show "\<exists>d k. pb_read s buf (of_nat n) = Some (False, d, i_error (adv s k) ''end-of-stream'') \<and>
      k \<le> length (pending s)"
    if "buf_in s" "length (pending s) < n" "n < 2 ^ 64"
    using that chunk_short [of s n buf]
    by (intro exI [of _ "[]"] exI [of _ 0]) (simp add: pb_read_def is_buf_read_def buf_in_def)
qed

section \<open>User callbacks\<close>

lemma user_chunk:
  assumes "user_in s" and n: "n \<le> length (pending s)"
  shows "pb_read_chunk s True (of_nat n) = Some (True, take n (pending s), adv s n)"
proof -
  obtain f where f: "i_callback s = IC_user f" "reader_ok f" and en: "enough s"
    using assms by (auto simp: user_in_def)
  have "istream_callback s True (of_nat n) =
      Some (True, take n (pending s), s\<lparr>i_state := drop n (i_state s)\<rparr>)"
    using istream_callback_user [OF f, of "of_nat n"] state_long [OF en n] unat_pending [OF en n]
      pending_take_state [OF n] by simp
  from chunk_some [OF en n this] show ?thesis .
qed

lemma user_in_adv: "user_in s \<Longrightarrow> n \<le> length (pending s) \<Longrightarrow> user_in (adv s n)"
  by (simp add: user_in_def enough_adv)

lemma skip_loop_user:
  assumes "user_in s" and "unat count \<le> length (pending s)"
  shows "skip_loop s count = Some (True, [], adv s (unat count))"
  using assms
proof (induction "unat count" arbitrary: s count rule: less_induct)
  case less
  show ?case
  proof (cases "16 < count")
    case True
    then have c: "16 < unat count" by (simp add: word_less_nat_alt)
    have sub: "unat (count - 16) = unat count - 16" using True by (simp add: unat_sub word_less_nat_alt word_le_nat_alt)
    have en: "enough s" using less.prems by (simp add: user_in_def)
    have "skip_loop (adv s 16) (count - 16) = Some (True, [], adv (adv s 16) (unat (count - 16)))"
      by (rule less.hyps) (use c sub less.prems en user_in_adv in \<open>auto simp: pending_adv\<close>)
    then show ?thesis
      using user_chunk [OF less.prems(1), of 16] less.prems(2) c sub True
      by (subst skip_loop.simps) simp
  next
    case False
    then show ?thesis using user_chunk [OF less.prems(1,2)] by (subst skip_loop.simps) simp
  qed
qed

lemma skip_loop_user_short:
  assumes "user_in s" and "length (pending s) < unat count"
  shows "\<exists>k. skip_loop s count = Some (False, [], i_error (adv s k) ''end-of-stream'') \<and>
             k \<le> length (pending s)"
  using assms
proof (induction "unat count" arbitrary: s count rule: less_induct)
  case less
  have en: "enough s" using less.prems by (simp add: user_in_def)
  have short: "pb_read_chunk s True c = Some (False, [], i_error s ''end-of-stream'')"
    if "length (pending s) < unat c" for c
    using chunk_short [OF en that, of True] unat_lt_64 [of c] by simp
  show ?case
  proof (cases "16 < count")
    case True
    then have c: "16 < unat count" by (simp add: word_less_nat_alt)
    have sub: "unat (count - 16) = unat count - 16" using True by (simp add: unat_sub word_less_nat_alt word_le_nat_alt)
    show ?thesis
    proof (cases "16 \<le> length (pending s)")
      case long: True
      have "\<exists>k. skip_loop (adv s 16) (count - 16) =
          Some (False, [], i_error (adv (adv s 16) k) ''end-of-stream'') \<and> k \<le> length (pending (adv s 16))"
        by (rule less.hyps)
          (use c sub less.prems long en user_in_adv in \<open>auto simp: pending_adv\<close>)
      then obtain k where "skip_loop (adv s 16) (count - 16) =
          Some (False, [], i_error (adv s (16 + k)) ''end-of-stream'')" "16 + k \<le> length (pending s)"
        using long en by (auto simp: pending_adv)
      then show ?thesis using user_chunk [OF less.prems(1), of 16] long True
        by (subst skip_loop.simps) auto
    next
      case False
      then show ?thesis using short [of 16] True
        by (subst skip_loop.simps) (auto intro: exI [of _ 0])
    qed
  next
    case False
    then show ?thesis using short [OF less.prems(2)]
      by (subst skip_loop.simps) (auto intro: exI [of _ 0])
  qed
qed

interpretation user_source: source user_in
proof
  fix s n k msg b bs buf
  show "enough s" if "user_in s" using that by (simp add: user_in_def)
  show "user_in (adv s n)" if "user_in s" "n \<le> length (pending s)"
    using that by (rule user_in_adv)
  show "user_in (s\<lparr>bytes_left := k\<rparr>)" if "user_in s" "k \<le> bytes_left s"
    using that by (auto simp: user_in_def enough_def word_le_nat_alt)
  show "user_in (i_error s msg) = user_in s" by (simp add: user_in_def)
  show "pb_readbyte s = Some (Some b, adv s 1)" if u: "user_in s" and p: "pending s = b # bs"
  proof -
    obtain f where f: "i_callback s = IC_user f" "reader_ok f" and en: "enough s"
      using u p by (auto simp: user_in_def)
    have nz: "bytes_left s \<noteq> 0" using u p pending_Nil_iff [OF en] by auto
    obtain st where st: "i_state s = b # st"
      using u p by (cases "i_state s"; cases "unat (bytes_left s)") (auto simp: pending_def)
    show ?thesis using istream_callback_user [OF f, of 1] nz st
      by (simp add: pb_readbyte_def adv_def)
  qed
  show "pb_readbyte s = Some (None, i_error s ''end-of-stream'')" if "user_in s" "pending s = []"
    using that pending_Nil_iff [of s] by (simp add: user_in_def pb_readbyte_def)
  show "pb_read s buf (of_nat n) = Some (True, if buf then take n (pending s) else [], adv s n)"
    if "user_in s" "n \<le> length (pending s)"
  proof -
    have nb: "\<not> is_buf_read s" using that by (auto simp: user_in_def is_buf_read_def)
    have "unat (of_nat n :: size_t) = n"
      using that unat_pending [of s n] by (simp add: user_in_def)
    then show ?thesis using nb user_chunk [OF that] skip_loop_user [OF that(1), of "of_nat n"] that(2)
      by (simp add: pb_read_def)
  qed
  show "\<exists>d k. pb_read s buf (of_nat n) = Some (False, d, i_error (adv s k) ''end-of-stream'') \<and>
      k \<le> length (pending s)"
    if "user_in s" "length (pending s) < n" "n < 2 ^ 64"
  proof -
    have nb: "\<not> is_buf_read s" using that by (auto simp: user_in_def is_buf_read_def)
    have en: "enough s" using that by (simp add: user_in_def)
    have n: "unat (of_nat n :: size_t) = n" using that(3) by (simp add: unat_of_nat_64)
    show ?thesis
    proof (cases buf)
      case True
      then show ?thesis using chunk_short [OF en that(2,3), of True]
        by (intro exI [of _ "[]"] exI [of _ 0]) (simp add: pb_read_def)
    next
      case False
      then show ?thesis using nb skip_loop_user_short [OF that(1), of "of_nat n"] n that(2)
        by (auto simp: pb_read_def)
    qed
  qed
qed

end
