(* ===== verification/PB_Varint.thy ===== *)
theory PB_Varint
  imports PB_Source PB_Wire
begin

text \<open>
  What the decoding helpers do on any byte source: the exact result of the varint decoder on
  every input, the round trips with the encoder's varints, zigzag, tags and fixed-width values,
  and what skipping and substreams consume.
\<close>

section \<open>The varint at the head of a byte string\<close>

fun vlen :: "byte list \<Rightarrow> nat option" where
  "vlen [] = None"
| "vlen (b # bs) = (if b AND 0x80 = 0 then Some 1 else map_option Suc (vlen bs))"

fun vval :: "byte list \<Rightarrow> u64" where
  "vval [] = 0"
| "vval (b # bs) = ucast (b AND 0x7F) OR push_bit 7 (vval bs)"

lemma vlen_le: "vlen bs = Some k \<Longrightarrow> 0 < k \<and> k \<le> length bs"
  by (induction bs arbitrary: k) (auto split: if_splits)

lemma byte_group:
  "(ucast ((ucast (v AND 0x7F) :: byte) AND 0x7F) :: u64) = (v :: u64) AND 0x7F"
  "(ucast (ucast (v AND 0x7F) :: byte) :: u64) = v AND 0x7F"
  "(v AND 0x7F) OR push_bit 7 (drop_bit 7 v) = v"
proof -
  have m: "(0x7F :: byte) = mask 7" "(0x7F :: u64) = mask 7"
    by (simp_all add: mask_eq_exp_minus_1)
  show "(ucast ((ucast (v AND 0x7F) :: byte) AND 0x7F) :: u64) = v AND 0x7F"
    "(ucast (ucast (v AND 0x7F) :: byte) :: u64) = v AND 0x7F"
    "(v AND 0x7F) OR push_bit 7 (drop_bit 7 v) = v"
    unfolding m
    by (rule bit_word_eqI; auto simp: bit_simps le_add_diff_inverse intro: ccontr)+
qed

lemma vlen_varint: "vlen (varint v @ rest) = Some (length (varint v))"
proof (induction v rule: varint.induct)
  case (1 v)
  show ?case
  proof (cases "v \<le> 0x7F")
    case True
    then have "(ucast v :: byte) AND 0x80 = 0"
      using group_top_bit(3) [of v] by (simp add: small_and_7F)
    then show ?thesis using True by (simp add: varint.simps [of v])
  next
    case False
    then show ?thesis using 1 by (simp add: varint.simps [of v] group_top_bit)
  qed
qed

lemma vval_varint: "vval (varint v) = v"
proof (induction v rule: varint.induct)
  case (1 v)
  show ?case
  proof (cases "v \<le> 0x7F")
    case True
    then show ?thesis using byte_group(1) [of v] by (simp add: varint.simps [of v] small_and_7F)
  next
    case False
    then show ?thesis using 1 byte_group [of v] by (simp add: varint.simps [of v] group_top_bit)
  qed
qed

lemma zigzag_inverse:
  "(if zigzag v AND 1 \<noteq> 0 then NOT (drop_bit 1 (zigzag v)) else drop_bit 1 (zigzag v)) = v"
proof -
  have neg: "sint v < 0 \<longleftrightarrow> bit v 63"
    by (simp add: bit_last_iff [symmetric, of v])
  have "zigzag v AND 1 \<noteq> 0 \<longleftrightarrow> bit v 63"
    by (auto simp: zigzag_def neg and_one_eq odd_iff_mod_2_eq_one [symmetric] bit_0 bit_simps
        simp del: bit_0)
  moreover have "NOT (drop_bit 1 (NOT (push_bit 1 v))) = v" if "bit v 63"
    by (rule bit_word_eqI, case_tac "n = 63") (use that in \<open>auto simp: bit_simps less_Suc_eq simp del: push_bit_Suc drop_bit_Suc\<close>)
  moreover have "drop_bit 1 (push_bit 1 v) = v" if "\<not> bit v 63"
    by (rule bit_word_eqI, case_tac "n = 63") (use that in \<open>auto simp: bit_simps less_Suc_eq simp del: push_bit_Suc drop_bit_Suc\<close>)
  ultimately show ?thesis by (simp add: zigzag_def neg)
qed

section \<open>Decoding varints\<close>

definition bitpos_at :: "nat \<Rightarrow> byte" where
  "bitpos_at i = of_nat (7 * i)"

lemma unat_bitpos: "i \<le> 10 \<Longrightarrow> unat (bitpos_at i) = 7 * i"
  by (simp add: bitpos_at_def unat_of_nat del: of_nat_mult)

lemma bitpos_64: "i \<le> 10 \<Longrightarrow> (64 :: byte) \<le> bitpos_at i \<longleftrightarrow> i = 10"
  using unat_bitpos [of i] by (simp add: word_le_nat_alt) linarith

lemma bitpos_Suc: "bitpos_at i + 7 = bitpos_at (Suc i)"
  by (simp add: bitpos_at_def)

lemma bitpos_0: "bitpos_at 0 = 0" "bitpos_at 1 = 7"
  by (simp_all add: bitpos_at_def)

lemma collect_bits:
  "(ucast (take_bit n v) :: u32) OR push_bit n (ucast (ucast (drop_bit n v AND 0x7F) :: byte)) =
   ucast (take_bit (7 + n) (v :: u64))"
proof -
  have m: "(0x7F :: u64) = mask 7" by (simp add: mask_eq_exp_minus_1)
  show ?thesis unfolding m by (rule bit_word_eqI) (auto simp: bit_simps)
qed

lemma bitpos_35: "i \<le> 10 \<Longrightarrow> bitpos_at i = 35 \<longleftrightarrow> i = 5"
  using unat_bitpos [of i] by (auto simp: word_unat_eq_iff )

lemma bitpos_32: "i \<le> 10 \<Longrightarrow> (32 :: byte) \<le> bitpos_at i \<longleftrightarrow> 5 \<le> i"
  using unat_bitpos [of i] by (simp add: word_le_nat_alt) linarith

lemma bitpos_63: "i \<le> 10 \<Longrightarrow> bitpos_at i < 63 \<longleftrightarrow> i < 9"
  using unat_bitpos [of i] by (simp add: word_less_nat_alt)

lemma byte_constants: "((0x80 :: byte) = 0) = False" "((0xFF :: byte) AND 0x80 = 0) = False"
  "(0xFF :: byte) AND 0x7F = 0x7F" "((0x7F :: byte) = 0) = False"
  by simp_all

lemmas bitpos = unat_bitpos bitpos_64 bitpos_35 bitpos_32 bitpos_63

text \<open>The groups of a sign-extended negative number.\<close>

lemma mask_group:
  assumes "7 < n" and "n \<le> 64"
  shows "\<not> (mask n :: u64) \<le> 0x7F" and "(mask n :: u64) AND 0x7F = 0x7F"
    and "drop_bit 7 (mask n :: u64) = mask (n - 7)"
proof -
  have m: "(0x7F :: u64) = mask 7" by (simp add: mask_eq_exp_minus_1)
  show d: "drop_bit 7 (mask n :: u64) = mask (n - 7)"
    by (rule bit_word_eqI) (use assms in \<open>auto simp: bit_simps\<close>)
  have "bit (mask (n - 7) :: u64) 0" using assms by (simp add: bit_simps)
  then show "\<not> (mask n :: u64) \<le> 0x7F" by (auto simp: le_7F_iff d)
  show "(mask n :: u64) AND 0x7F = 0x7F" unfolding m
    by (rule bit_word_eqI) (use assms in \<open>auto simp: bit_simps\<close>)
qed

lemma small_high_nibble: "(w :: u64) < 16 \<Longrightarrow> (ucast w :: byte) AND 0x70 = 0"
proof -
  assume "w < 16"
  then have "unat w < 2 ^ 4" by (simp add: word_less_nat_alt)
  then have t: "take_bit 4 w = w" by (simp add: word_unat_eq_iff unat_take_bit_mod)
  have m: "(0x70 :: byte) = push_bit 4 (mask 3)" by (simp add: mask_eq_exp_minus_1)
  have "(ucast (take_bit 4 w) :: byte) AND 0x70 = 0" unfolding m
    by (rule bit_word_eqI) (auto simp: bit_simps)
  then show ?thesis using t by simp
qed

lemma byte_low_group: "(b :: byte) AND 0x80 = 0 \<Longrightarrow> b AND 0x7F = b"
proof -
  assume b: "b AND 0x80 = 0"
  have m: "(0x80 :: byte) = push_bit 7 1" "(0x7F :: byte) = mask 7" by (simp_all add: mask_eq_exp_minus_1)
  have "\<not> bit b 7" using arg_cong [OF b, where f = "\<lambda>x. bit x 7"] unfolding m
    by (simp add: bit_simps del: push_bit_of_1)
  then show ?thesis unfolding m
    by (intro bit_word_eqI) (auto simp: bit_simps less_Suc_eq numeral_eq_Suc)
qed

lemma negative_bits:
  assumes "drop_bit 31 (v :: u64) = mask 33"
  shows "drop_bit 35 v = mask 29" and "(ucast (take_bit 35 v) :: u32) = ucast v"
    and "drop_bit 31 (ucast v :: u32) \<noteq> 0" and "i < 5 \<Longrightarrow> \<not> drop_bit (7 * i) v \<le> 0x7F"
proof -
  have b: "bit v (31 + k)" if "k < 33" for k
    using arg_cong [OF assms, where f = "\<lambda>x. bit x k"] that by (simp add: bit_simps)
  show "drop_bit 35 v = mask 29"
    by (rule bit_word_eqI) (use b [of "4 + k" for k] in \<open>auto simp: bit_simps dest: bit_imp_le_length\<close>)
  show "(ucast (take_bit 35 v) :: u32) = ucast v"
    by (rule bit_word_eqI) (auto simp: bit_simps)
  have "bit (drop_bit 31 (ucast v :: u32)) 0" using b [of 0] by (simp add: bit_simps)
  then show "drop_bit 31 (ucast v :: u32) \<noteq> 0" by auto
  assume "i < 5"
  then have "bit (drop_bit 7 (drop_bit (7 * i) v)) (56 - 7 * i)"
    using b [of 32] by (simp add: bit_simps)
  then show "\<not> drop_bit (7 * i) v \<le> 0x7F" by (auto simp: le_7F_iff)
qed

lemma byte_group32:
  "(ucast (ucast (v AND 0x7F) :: byte) :: u32) = ucast ((v :: u64) AND 0x7F)"
  "(ucast (take_bit 7 v) :: u32) = ucast (v AND 0x7F)"
proof -
  have m: "(0x7F :: u64) = mask 7" by (simp add: mask_eq_exp_minus_1)
  show "(ucast (ucast (v AND 0x7F) :: byte) :: u32) = ucast (v AND 0x7F)"
    "(ucast (take_bit 7 v) :: u32) = ucast (v AND 0x7F)"
    unfolding m by (rule bit_word_eqI; auto simp: bit_simps)+
qed

lemma tag_value_parts:
  assumes "wt < 8" and "tg < 2 ^ 29"
  shows "tag_value wt tg < 2 ^ 32" and "(ucast (tag_value wt tg) :: u32) AND 7 = wt"
    and "drop_bit 3 (ucast (tag_value wt tg) :: u32) = tg"
proof -
  have "unat wt < 2 ^ 3" and "unat tg < 2 ^ 29" using assms by (simp_all add: word_less_nat_alt)
  then have t: "take_bit 3 wt = wt" "take_bit 29 tg = tg"
    by (simp_all add: word_unat_eq_iff unat_take_bit_mod)
  have m: "(7 :: u32) = mask 3" by (simp add: mask_eq_exp_minus_1)
  let ?v = "push_bit 3 (ucast (take_bit 29 tg)) OR ucast (take_bit 3 wt) :: u64"
  have "take_bit 32 ?v = ?v" by (rule bit_word_eqI) (auto simp: bit_simps)
  then have "take_bit 32 (tag_value wt tg) = tag_value wt tg" by (simp add: tag_value_def t)
  then have "unat (tag_value wt tg) < 2 ^ 32"
    by (metis unat_take_bit_mod mod_less_divisor zero_less_numeral zero_less_power)
  then show "tag_value wt tg < 2 ^ 32" by (simp add: word_less_nat_alt)
  have "(ucast ?v :: u32) AND 7 = take_bit 3 wt" "drop_bit 3 (ucast ?v :: u32) = take_bit 29 tg"
    unfolding m by (rule bit_word_eqI; auto simp: bit_simps)+
  then show "(ucast (tag_value wt tg) :: u32) AND 7 = wt"
    "drop_bit 3 (ucast (tag_value wt tg) :: u32) = tg"
    by (simp_all add: tag_value_def t)
qed

text \<open>What the 64-bit decoder makes of the bytes that are left.\<close>

definition varint_result :: "nat \<Rightarrow> (byte list \<Rightarrow> 'a) \<Rightarrow> pb_istream_t \<Rightarrow> 'a ires" where
  "varint_result n f s =
     (case vlen (take n (pending s)) of
        Some k \<Rightarrow> Some (Some (f (take k (pending s))), adv s k)
      | None \<Rightarrow>
          if n \<le> length (pending s) then Some (None, i_error (adv s n) ''varint overflow'')
          else Some (None, i_error (adv s (length (pending s))) ''end-of-stream''))"

context source
begin

lemma varint_dec_loop_result:
  assumes "ok s" and "i \<le> 10"
  shows "varint_dec_loop (bitpos_at i) r s =
     varint_result (10 - i) (\<lambda>bs. r OR push_bit (7 * i) (vval bs)) s"
  using assms
proof (induction "10 - i" arbitrary: i r s)
  case 0
  then have "i = 10" by simp
  then show ?case using bitpos_64 [of i]
    by (subst varint_dec_loop.simps) (simp add: varint_result_def)
next
  case (Suc n)
  then have i: "i < 10" "n = 10 - Suc i" "10 - i = Suc n" by simp_all
  have pos: "\<not> (64 :: byte) \<le> bitpos_at i" using bitpos_64 [of i] i by simp
  show ?case
  proof (cases "pending s")
    case Nil
    then show ?thesis using pos i readbyte_end [OF Suc.prems(1)]
      by (subst varint_dec_loop.simps) (simp add: varint_result_def)
  next
    case (Cons b bs)
    let ?s = "adv s 1"
    let ?r = "r OR push_bit (7 * i) (ucast (b AND 0x7F))"
    have en: "enough s" and ok1: "ok ?s" using Suc.prems ok_enough ok_adv Cons by auto
    have p1: "pending ?s = bs" using pending_adv [OF en, of 1] Cons by simp
    have rd: "pb_readbyte s = Some (Some b, ?s)" using readbyte_some [OF Suc.prems(1) Cons] .
    have unf: "varint_dec_loop (bitpos_at i) r s =
        (if b AND 0x80 \<noteq> 0 then varint_dec_loop (bitpos_at (Suc i)) ?r ?s else Some (Some ?r, ?s))"
      using pos rd unat_bitpos [of i] i bitpos_Suc [of i]
      by (subst varint_dec_loop.simps) (simp)
    show ?thesis
    proof (cases "b AND 0x80 = 0")
      case True
      then show ?thesis using unf Cons i by (simp add: varint_result_def)
    next
      case False
      have ih: "varint_dec_loop (bitpos_at (Suc i)) ?r ?s =
          varint_result (10 - Suc i) (\<lambda>bs. ?r OR push_bit (7 * Suc i) (vval bs)) ?s"
        by (rule Suc.hyps) (use i ok1 in auto)
      have fuse: "?r OR push_bit (7 * Suc i) w = r OR push_bit (7 * i) (ucast (b AND 0x7F) OR push_bit 7 w)"
        for w :: u64 by (simp add: push_bit_or push_bit_push_bit or.assoc add.commute)
      show ?thesis
        unfolding unf ih varint_result_def fuse p1 Cons i(2) [symmetric] i(3)
        using False by (simp split: option.splits)
    qed
  qed
qed

lemma decode_varint_result: "ok s \<Longrightarrow> pb_decode_varint s = varint_result 10 vval s"
  using varint_dec_loop_result [of s 0 0] by (simp add: pb_decode_varint_def bitpos_0)

lemma decode_varint_varint:
  assumes "ok s" and "pending s = varint v @ rest"
  shows "pb_decode_varint s = Some (Some v, adv s (length (varint v)))"
proof -
  have "vlen (take 10 (pending s)) = Some (length (varint v))"
    using vlen_varint [of v "take (10 - length (varint v)) rest"] length_varint [of v] assms(2)
    by simp
  then show ?thesis using decode_varint_result [OF assms(1)] assms(2)
    by (simp add: varint_result_def vval_varint)
qed

lemma decode_svarint_varint:
  assumes "ok s" and "pending s = varint (zigzag v) @ rest"
  shows "pb_decode_svarint s = Some (Some v, adv s (length (varint (zigzag v))))"
  using decode_varint_varint [OF assms] zigzag_inverse [of v] by (simp add: pb_decode_svarint_def)

text \<open>
  The 32-bit decoder, on the encoding of \<open>v\<close>: it is at bit position \<open>7 i\<close>, has collected
  the bits below it and is about to read the rest.
\<close>

lemma varint32_step:
  assumes ok: "ok s" and i: "i < 5" and pend: "pending s = varint (drop_bit (7 * i) v) @ rest"
    and more: "\<not> drop_bit (7 * i) v \<le> 0x7F"
  shows "varint32_loop (bitpos_at i) (ucast (take_bit (7 * i) v)) s =
         varint32_loop (bitpos_at (Suc i)) (ucast (take_bit (7 * Suc i) v)) (adv s 1)"
    and "ok (adv s 1)" and "pending (adv s 1) = varint (drop_bit (7 * Suc i) v) @ rest"
proof -
  let ?w = "drop_bit (7 * i) v"
  let ?b = "(ucast (?w AND 0x7F) :: byte) OR 0x80"
  have en: "enough s" using ok by (rule ok_enough)
  have p: "pending s = ?b # varint (drop_bit 7 ?w) @ rest"
    using pend more by (simp add: varint.simps [of ?w])
  show "ok (adv s 1)" using ok_adv [OF ok, of 1] p by simp
  show "pending (adv s 1) = varint (drop_bit (7 * Suc i) v) @ rest"
    using pending_adv [OF en, of 1] p by (simp add: drop_bit_drop_bit add.commute)
  have "\<not> (32 :: byte) \<le> bitpos_at i"
    using unat_bitpos [of i] i by (simp add: word_le_nat_alt)
  moreover have "(ucast (take_bit (7 * i) v) :: u32) OR push_bit (7 * i) (ucast (ucast (?w AND 0x7F) :: byte)) =
      ucast (take_bit (7 * Suc i) v)"
    using collect_bits [of "7 * i" v] by simp
  ultimately show "varint32_loop (bitpos_at i) (ucast (take_bit (7 * i) v)) s =
         varint32_loop (bitpos_at (Suc i)) (ucast (take_bit (7 * Suc i) v)) (adv s 1)"
    using readbyte_some [OF ok p] unat_bitpos [of i] i bitpos_Suc [of i] group_top_bit [of ?w]
    by (subst varint32_loop.simps) (simp add: byte_constants Let_def)
qed

lemma varint32_last:
  assumes ok: "ok s" and i: "i < 5" and pend: "pending s = varint (drop_bit (7 * i) v) @ rest"
    and last: "drop_bit (7 * i) v \<le> 0x7F" and v: "v < 2 ^ 32"
  shows "varint32_loop (bitpos_at i) (ucast (take_bit (7 * i) v)) s = Some (Some (ucast v), adv s 1)"
proof -
  let ?w = "drop_bit (7 * i) v"
  have p: "pending s = ucast ?w # rest" using pend last by (simp add: varint.simps [of ?w])
  have and7: "?w AND 0x7F = ?w" using last by (rule small_and_7F)
  have b: "(ucast ?w :: byte) AND 0x80 = 0" using group_top_bit(3) [of ?w] and7 by simp
  have b7: "(ucast ((ucast ?w :: byte) AND 0x7F) :: u32) = ucast (ucast ?w :: byte)"
    using byte_low_group [OF b] by simp
  have "drop_bit 7 ?w = 0" using last by (simp add: le_7F_iff)
  then have "take_bit (7 + 7 * i) v = v"
    using bits_ident [of "7 + 7 * i" v] by (simp add: drop_bit_drop_bit add.commute)
  then have acc: "(ucast (take_bit (7 * i) v) :: u32) OR push_bit (7 * i) (ucast (ucast ?w :: byte)) = ucast v"
    using collect_bits [of "7 * i" v] and7 by simp
  have nib: "(ucast ?w :: byte) AND 0x70 = 0" if "i = 4"
  proof (rule small_high_nibble)
    have "unat v < 2 ^ 32" using v by (simp add: word_less_nat_alt)
    then show "?w < 16" using that by (simp add: word_less_nat_alt unat_drop_bit_div)
  qed
  show ?thesis
    using readbyte_some [OF ok p] i b b7 acc nib bitpos [of i] bitpos [of "Suc i"] bitpos_Suc [of i]
    by (subst varint32_loop.simps) auto
qed

lemma varint32_small:
  assumes "ok s" and "i < 5" and "pending s = varint (drop_bit (7 * i) v) @ rest" and "v < 2 ^ 32"
  shows "varint32_loop (bitpos_at i) (ucast (take_bit (7 * i) v)) s =
         Some (Some (ucast v), adv s (length (varint (drop_bit (7 * i) v))))"
  using assms
proof (induction "5 - i" arbitrary: i s)
  case 0
  then show ?case by simp
next
  case (Suc n)
  let ?w = "drop_bit (7 * i) v"
  show ?case
  proof (cases "?w \<le> 0x7F")
    case True
    then show ?thesis using varint32_last [OF Suc.prems(1-3) True Suc.prems(4)]
      by (simp add: varint.simps [of ?w])
  next
    case False
    have "unat v < 2 ^ 32" using Suc.prems(4) by (simp add: word_less_nat_alt)
    then have "i \<noteq> 4" using False by (auto simp: word_le_nat_alt unat_drop_bit_div)
    then have i: "Suc i < 5" using Suc.prems(2) by simp
    note step = varint32_step [OF Suc.prems(1-3) False]
    have len: "length (varint ?w) = Suc (length (varint (drop_bit (7 * Suc i) v)))"
      using False by (simp add: varint.simps [of ?w] drop_bit_drop_bit add.commute)
    have "varint32_loop (bitpos_at (Suc i)) (ucast (take_bit (7 * Suc i) v)) (adv s 1) =
        Some (Some (ucast v), adv (adv s 1) (length (varint (drop_bit (7 * Suc i) v))))"
      by (rule Suc.hyps) (use Suc i step in auto)
    then show ?thesis using step(1) len by (simp)
  qed
qed

lemma varint32_ones:
  assumes "ok s" and "5 \<le> i" and "i < 10" and "pending s = varint (mask (64 - 7 * i)) @ rest"
    and "drop_bit 31 r \<noteq> 0"
  shows "varint32_loop (bitpos_at i) r s =
         Some (Some r, adv s (length (varint (mask (64 - 7 * i)))))"
  using assms
proof (induction "9 - i" arbitrary: i s)
  case 0
  then have i: "i = 9" by simp
  then have p: "pending s = 1 # rest" using "0.prems"(4) by (simp add: varint.simps [of 1])
  show ?case
    using readbyte_some [OF "0.prems"(1) p] "0.prems"(5) i
    by (subst varint32_loop.simps) (simp add: varint.simps [of 1] bitpos)
next
  case (Suc n)
  let ?w = "mask (64 - 7 * i) :: u64"
  have i: "i < 9" using Suc by simp
  then have n: "7 < 64 - 7 * i" "64 - 7 * i - 7 = 64 - 7 * Suc i" by simp_all
  have w: "varint ?w = 0xFF # varint (mask (64 - 7 * Suc i))"
    using mask_group [OF n(1)] n(2) by (simp add: varint.simps [of ?w])
  then have p: "pending s = 0xFF # varint (mask (64 - 7 * Suc i)) @ rest"
    using Suc.prems(4) by simp
  have en: "enough s" using Suc.prems(1) by (rule ok_enough)
  have ok1: "ok (adv s 1)" using ok_adv [OF Suc.prems(1), of 1] p by simp
  have p1: "pending (adv s 1) = varint (mask (64 - 7 * Suc i)) @ rest"
    using pending_adv [OF en, of 1] p by simp
  have "varint32_loop (bitpos_at i) r s = varint32_loop (bitpos_at (Suc i)) r (adv s 1)"
    using readbyte_some [OF Suc.prems(1) p] i Suc.prems(2,5) bitpos [of i] bitpos_Suc [of i]
    by (subst varint32_loop.simps) (simp add: byte_constants)
  also have "\<dots> = Some (Some r, adv (adv s 1) (length (varint (mask (64 - 7 * Suc i)))))"
    by (rule Suc.hyps) (use Suc i ok1 p1 in auto)
  finally show ?case using w by simp
qed

lemma varint32_negative:
  assumes "ok s" and "i \<le> 5" and "pending s = varint (drop_bit (7 * i) v) @ rest"
    and "drop_bit 31 v = mask 33"
  shows "varint32_loop (bitpos_at i) (ucast (take_bit (7 * i) v)) s =
         Some (Some (ucast v), adv s (length (varint (drop_bit (7 * i) v))))"
  using assms
proof (induction "5 - i" arbitrary: i s)
  case 0
  then have i: "i = 5" by simp
  have d: "drop_bit 35 v = mask 29" and t: "(ucast (take_bit 35 v) :: u32) = ucast v"
    and b: "drop_bit 31 (ucast v :: u32) \<noteq> 0"
    using negative_bits [OF "0.prems"(4)] by auto
  show ?case using varint32_ones [OF "0.prems"(1), of 5 rest "ucast v"] "0.prems"(3) i d t b by simp
next
  case (Suc n)
  let ?w = "drop_bit (7 * i) v"
  have i: "i < 5" using Suc by simp
  have False: "\<not> ?w \<le> 0x7F" using negative_bits(4) [OF Suc.prems(4), of i] i by simp
  note step = varint32_step [OF Suc.prems(1) i Suc.prems(3) False]
  have len: "length (varint ?w) = Suc (length (varint (drop_bit (7 * Suc i) v)))"
    using False by (simp add: varint.simps [of ?w] drop_bit_drop_bit add.commute)
  have "varint32_loop (bitpos_at (Suc i)) (ucast (take_bit (7 * Suc i) v)) (adv s 1) =
      Some (Some (ucast v), adv (adv s 1) (length (varint (drop_bit (7 * Suc i) v))))"
    by (rule Suc.hyps) (use Suc i step in auto)
  then show ?case using step(1) len by (simp)
qed

lemma decode_varint32_eof_varint:
  assumes ok: "ok s" and pend: "pending s = varint v @ rest"
    and v: "v < 2 ^ 32 \<or> drop_bit 31 v = mask 33"
  shows "pb_decode_varint32_eof s = Some (Some (ucast v), False, adv s (length (varint v)))"
proof (cases "v \<le> 0x7F")
  case True
  have p: "pending s = ucast v # rest" using pend True by (simp add: varint.simps [of v])
  have a: "v AND 0x7F = v" using True by (rule small_and_7F)
  have b: "(ucast v :: byte) AND 0x80 = 0" using group_top_bit(3) [of v] a by simp
  have "(ucast (ucast v :: byte) :: u32) = ucast v"
    using byte_group32 [of v] a by simp
  then show ?thesis using readbyte_some [OF ok p] b True
    by (simp add: pb_decode_varint32_eof_def varint.simps [of v])
next
  case False
  let ?b = "(ucast (v AND 0x7F) :: byte) OR 0x80"
  have p: "pending s = ?b # varint (drop_bit 7 v) @ rest" using pend False by (simp add: varint.simps [of v])
  have ok1: "ok (adv s 1)" using ok_adv [OF ok, of 1] p by simp
  have p1: "pending (adv s 1) = varint (drop_bit (7 * 1) v) @ rest"
    using pending_adv [OF ok_enough [OF ok], of 1] p by simp
  have "varint32_loop (bitpos_at 1) (ucast (take_bit (7 * 1) v)) (adv s 1) =
      Some (Some (ucast v), adv (adv s 1) (length (varint (drop_bit (7 * 1) v))))"
    using v varint32_small [OF ok1 _ p1] varint32_negative [OF ok1 _ p1] by auto
  then show ?thesis using readbyte_some [OF ok p] False byte_group32 [of v] group_top_bit [of v] bitpos_0
    by (simp add: pb_decode_varint32_eof_def varint.simps [of v])
qed

lemma decode_varint32_varint:
  assumes "ok s" and "pending s = varint v @ rest" and "v < 2 ^ 32 \<or> drop_bit 31 v = mask 33"
  shows "pb_decode_varint32 s = Some (Some (ucast v), adv s (length (varint v)))"
  using decode_varint32_eof_varint [OF assms] by (simp add: pb_decode_varint32_def)

lemma decode_length:
  fixes n :: nat
  assumes "ok s" and "pending s = varint (of_nat n) @ rest" and "n < 2 ^ 32"
  shows "pb_decode_varint32 s = Some (Some (of_nat n), adv s (length (varint (of_nat n))))"
proof -
  have "(of_nat n :: u64) < 2 ^ 32" using assms(3) by (simp add: word_less_nat_alt unat_of_nat_64)
  moreover have "(ucast (of_nat n :: u64) :: u32) = of_nat n"
    using assms(3) by (simp add: unsigned_of_nat take_bit_nat_eq_self)
  ultimately show ?thesis using decode_varint32_varint [OF assms(1,2)] by simp
qed

section \<open>Tags\<close>

lemma decode_tag_varint:
  assumes "ok s" and "pending s = varint (tag_value wt tg) @ rest"
    and "wt < 8" and "0 < tg" and "tg < 2 ^ 29"
  shows "pb_decode_tag s =
     Some (\<lparr>t_ok = True, t_wire_type = wt, t_tag = tg, t_eof = False\<rparr>, adv s (length (varint (tag_value wt tg))))"
proof -
  note tv = tag_value_parts [OF assms(3,5)]
  have "ucast (tag_value wt tg) \<noteq> (0 :: u32)" using tv(3) assms(4) by auto
  then show ?thesis
    using decode_varint32_eof_varint [OF assms(1,2)] tv by (simp add: pb_decode_tag_def)
qed

section \<open>Skipping\<close>

lemma read_one:
  assumes "ok s" and "pending s = b # bs"
  shows "pb_read s True 1 = Some (True, [b], adv s 1)"
  using read_some [OF assms(1), of 1 True] assms(2) by simp

lemma skip_varint:
  assumes "ok s" and "vlen (pending s) = Some k"
  shows "pb_skip_varint s = Some (True, adv s k)"
  using assms
proof (induction "pending s" arbitrary: s k)
  case Nil
  then show ?case by (metis option.distinct(1) vlen.simps(1))
next
  case (Cons b bs)
  have p: "pending s = b # bs" using Cons.hyps(2) by simp
  have ok1: "ok (adv s 1)" using ok_adv [OF Cons.prems(1), of 1] p by simp
  have p1: "pending (adv s 1) = bs" using pending_adv [OF ok_enough [OF Cons.prems(1)], of 1] p by simp
  show ?case
  proof (cases "b AND 0x80 = 0")
    case True
    then show ?thesis using read_one [OF Cons.prems(1) p] Cons.prems(2) p
      by (subst pb_skip_varint.simps) simp
  next
    case False
    then obtain j where j: "vlen bs = Some j" "k = Suc j" using Cons.prems(2) p by auto
    have "pb_skip_varint (adv s 1) = Some (True, adv (adv s 1) j)"
      by (rule Cons.hyps(1)) (use p1 ok1 j in auto)
    then show ?thesis using read_one [OF Cons.prems(1) p] False j
      by (subst pb_skip_varint.simps) simp
  qed
qed

lemma skip_varint_short:
  assumes "ok s" and "vlen (pending s) = None"
  shows "\<exists>s'. pb_skip_varint s = Some (False, s')"
  using assms
proof (induction "pending s" arbitrary: s)
  case Nil
  then obtain d k where "pb_read s True 1 = Some (False, d, i_error (adv s k) ''end-of-stream'')"
    using read_short [OF Nil.prems(1), of 1 True] Nil.hyps by (metis length_0_conv less_numeral_extra(1) one_less_numeral_iff one_less_power of_nat_1 semiring_norm(76) zero_less_numeral)
  then show ?case by (subst pb_skip_varint.simps) simp
next
  case (Cons b bs)
  have p: "pending s = b # bs" using Cons.hyps(2) by simp
  have ok1: "ok (adv s 1)" using ok_adv [OF Cons.prems(1), of 1] p by simp
  have p1: "pending (adv s 1) = bs" using pending_adv [OF ok_enough [OF Cons.prems(1)], of 1] p by simp
  have "b AND 0x80 \<noteq> 0" and "vlen bs = None" using Cons.prems(2) p by (auto split: if_splits)
  moreover have "\<exists>s'. pb_skip_varint (adv s 1) = Some (False, s')"
    by (rule Cons.hyps(1)) (use p1 ok1 calculation in auto)
  ultimately show ?case using read_one [OF Cons.prems(1) p] by (subst pb_skip_varint.simps) auto
qed

lemma skip_bytes:
  assumes "ok s" and "n \<le> length (pending s)"
  shows "pb_skip_bytes s (of_nat n) = Some (True, adv s n)"
  using read_some [OF assms, of False] by (simp add: pb_skip_bytes_def)

lemma skip_string:
  assumes ok: "ok s" and pend: "pending s = varint (of_nat (length body)) @ body @ rest"
    and len: "length body < 2 ^ 32"
  shows "pb_skip_string s = Some (True, adv s (length (varint (of_nat (length body))) + length body))"
proof -
  let ?k = "length (varint (of_nat (length body)))"
  have ok1: "ok (adv s ?k)" using ok_adv [OF ok, of ?k] pend by simp
  have p1: "pending (adv s ?k) = body @ rest" using pending_adv [OF ok_enough [OF ok], of ?k] pend by simp
  have "(ucast (of_nat (length body) :: u32) :: u64) = of_nat (length body)"
    using len by (simp add: unsigned_of_nat take_bit_nat_eq_self)
  then show ?thesis
    using decode_length [OF ok pend len] skip_bytes [OF ok1, of "length body"] p1
    by (simp add: pb_skip_string_def)
qed

section \<open>Substreams\<close>

lemma make_substream:
  assumes ok: "ok s" and pend: "pending s = varint (of_nat n) @ body @ rest"
    and n: "n < 2 ^ 32" and body: "length body = n"
  shows "\<exists>sub s'. pb_make_string_substream s = Some (Some sub, s') \<and> ok sub \<and> pending sub = body \<and>
     i_errmsg sub = i_errmsg s \<and> i_errmsg s' = i_errmsg s \<and>
     i_state sub = drop (length (varint (of_nat n))) (i_state s) \<and>
     s'\<lparr>i_state := drop n (i_state sub)\<rparr> = adv s (length (varint (of_nat n)) + n)"
proof -
  let ?k = "length (varint (of_nat n))"
  let ?s = "adv s ?k"
  have en: "enough s" using ok by (rule ok_enough)
  have ok1: "ok ?s" using ok_adv [OF ok, of ?k] pend by simp
  have p1: "pending ?s = body @ rest" using pending_adv [OF en, of ?k] pend by simp
  have w: "(ucast (of_nat n :: u32) :: u64) = of_nat n"
    using n by (simp add: unsigned_of_nat take_bit_nat_eq_self)
  have u: "unat (ucast (of_nat n :: u32) :: u64) = n" using n by (simp add: w unat_of_nat_64)
  have left: "n \<le> unat (bytes_left ?s)"
    using length_pending [OF ok_enough [OF ok1]] p1 body by simp
  then have le: "ucast (of_nat n :: u32) \<le> bytes_left ?s" using u by (simp add: word_le_nat_alt)
  let ?sub = "?s\<lparr>bytes_left := ucast (of_nat n :: u32)\<rparr>"
  have mk: "pb_make_string_substream s =
      Some (Some ?sub, ?s\<lparr>bytes_left := bytes_left ?s - ucast (of_nat n :: u32)\<rparr>)"
    using decode_length [OF ok pend n] le by (simp add: pb_make_string_substream_def not_less)
  have "pending ?sub = take n (i_state ?s)" by (simp add: pending_def u)
  also have "\<dots> = take n (pending ?s)" by (rule pending_take_state) (simp add: p1 body)
  finally have "pending ?sub = body" using p1 body by simp
  then show ?thesis using mk ok_limit [OF ok1 le] w
    by (simp add: adv_def add.commute diff_diff_eq)
qed

end

end
