(* ===== verification/PB_Release.thy ===== *)
theory PB_Release
  imports PB_Istream
begin

text \<open>
  The parts of \<open>pb_decode.c\<close> that only work on the message structure: extension iterators,
  default values, and the release of dynamically allocated fields. The recursion over submessages
  has a fuel that bounds the nesting; \<open>None\<close> is undefined behaviour, an extension list that
  does not end, or nesting deeper than the fuel.
\<close>

section \<open>Counts and has-flags\<close>

text \<open>\<open>*(pb_size_t*)iter->pSize\<close> and \<open>*(bool*)iter->pSize\<close>\<close>

definition load_size :: "mem \<Rightarrow> pb_field_iter_t \<Rightarrow> pb_size_t option" where
  "load_size m it =
     (case pSize it of At a \<Rightarrow> load_u32 m a | At_fixed_count \<Rightarrow> Some (fixed_count_size it))"

definition store_size :: "mem \<Rightarrow> pb_field_iter_t \<Rightarrow> pb_size_t \<Rightarrow> (pb_field_iter_t \<times> mem) option" where
  "store_size m it v =
     (case pSize it of
        At a \<Rightarrow> do { m \<leftarrow> store_u32 m a v; Some (it, m) }
      | At_fixed_count \<Rightarrow> Some (it\<lparr>fixed_count_size := v\<rparr>, m))"

definition store_has :: "mem \<Rightarrow> pb_field_iter_t \<Rightarrow> bool \<Rightarrow> mem option" where
  "store_has m it b =
     (case pSize it of At a \<Rightarrow> store_bool m a b | At_fixed_count \<Rightarrow> None)"

definition size_is_data :: "pb_field_iter_t \<Rightarrow> bool" where
  "size_is_data it \<longleftrightarrow> pSize it = At (pData it)"

section \<open>Extensions\<close>

definition iter_from_extension :: "pb_env \<Rightarrow> mem \<Rightarrow> addr \<Rightarrow> pb_field_iter_t option" where
  "iter_from_extension \<Gamma> m extension =
     do {
       ty \<leftarrow> load_ptr m (extension + EXT_TYPE);
       et \<leftarrow> ext_types \<Gamma> ty;
       dest \<leftarrow> load_ptr m (extension + EXT_DEST);
       let it = snd (pb_field_iter_begin \<Gamma> empty_iter (et_arg et) dest);
       let it = it\<lparr>pData := dest, pSize := At (extension + EXT_FOUND)\<rparr>;
       Some (if PB_ATYPE (type (field_at \<Gamma> (et_arg et) 0)) = PB_ATYPE_POINTER
             then it\<lparr>pData := extension + EXT_DEST\<rparr> else it)
     }"

text \<open>\<open>while (ext != NULL) { ...; ext = ext->next; }\<close>\<close>

partial_function (option) each_extension ::
  "(addr \<Rightarrow> mem \<Rightarrow> mem option) \<Rightarrow> addr \<Rightarrow> mem \<Rightarrow> mem option" where
  [code]: "each_extension body ext m =
     (if ext = NULL then Some m
      else do {
        m \<leftarrow> body ext m;
        nxt \<leftarrow> load_ptr m (ext + EXT_NEXT);
        each_extension body nxt m
      })"

section \<open>Default values\<close>

definition for_fields_mem ::
  "pb_env \<Rightarrow> addr \<Rightarrow> addr \<Rightarrow> (pb_field_iter_t \<Rightarrow> mem \<Rightarrow> mem option) \<Rightarrow> mem \<Rightarrow> mem option" where
  "for_fields_mem \<Gamma> fs dest body m =
     map_option snd (for_all_fields \<Gamma> fs dest (\<lambda>it m. map_option (Pair True) (body it m)) m)"

fun pb_field_set_to_default :: "nat \<Rightarrow> pb_env \<Rightarrow> pb_field_iter_t \<Rightarrow> mem \<Rightarrow> mem option" where
  "pb_field_set_to_default 0 \<Gamma> it m = None"
| "pb_field_set_to_default (Suc n) \<Gamma> it m =
     (let field = cur_field \<Gamma> it; ty = type field in
      if PB_LTYPE ty = PB_LTYPE_EXTENSION then
        do {
          ext \<leftarrow> load_ptr m (pData it);
          each_extension
            (\<lambda>ext m. do {
               m \<leftarrow> store_bool m (ext + EXT_FOUND) False;
               ext_iter \<leftarrow> iter_from_extension \<Gamma> m ext;
               pb_field_set_to_default n \<Gamma> ext_iter m
             }) ext m
        }
      else if PB_ATYPE ty = PB_ATYPE_STATIC then
        if PB_HTYPE ty = PB_HTYPE_REPEATED \<or> PB_HTYPE ty = PB_HTYPE_ONEOF
        then map_option snd (store_size m it 0)
        else do {
          m \<leftarrow> (if PB_HTYPE ty = PB_HTYPE_OPTIONAL \<and> \<not> size_is_data it
                then store_has m it False else Some m);
          if PB_LTYPE ty = PB_LTYPE_SUBMESSAGE then
            (case ptr field of
               Ptr_fields fs \<Rightarrow> for_fields_mem \<Gamma> fs (pData it) (pb_field_set_to_default n \<Gamma>) m
             | _ \<Rightarrow> None)
          else (case ptr field of
                  Ptr_null \<Rightarrow> mem_set m (pData it) 0 (unat (data_size field))
                | Ptr_default bs \<Rightarrow>
                    if length bs < unat (data_size field) then None
                    else store_bytes m (pData it) (take (unat (data_size field)) bs)
                | Ptr_fields fs \<Rightarrow> None)
        }
      else if PB_ATYPE ty = PB_ATYPE_POINTER then
        do {
          m \<leftarrow> store_ptr m (pData it) NULL;
          if PB_HTYPE ty = PB_HTYPE_REPEATED \<or> PB_HTYPE ty = PB_HTYPE_ONEOF
          then map_option snd (store_size m it 0) else Some m
        }
      else Some m)"

definition pb_message_set_to_defaults :: "nat \<Rightarrow> pb_env \<Rightarrow> addr \<Rightarrow> addr \<Rightarrow> mem \<Rightarrow> mem option" where
  "pb_message_set_to_defaults n \<Gamma> fs dest m =
     for_fields_mem \<Gamma> fs dest (pb_field_set_to_default n \<Gamma>) m"

section \<open>Releasing\<close>

fun release_items :: "(addr \<Rightarrow> mem \<Rightarrow> mem option) \<Rightarrow> nat \<Rightarrow> addr \<Rightarrow> nat \<Rightarrow> mem \<Rightarrow> mem option" where
  "release_items rel 0 pItem sz m = Some m"
| "release_items rel (Suc count) pItem sz m =
     do { m \<leftarrow> rel pItem m; release_items rel count (pItem + sz) sz m }"

fun free_items :: "nat \<Rightarrow> addr \<Rightarrow> mem \<Rightarrow> mem option" where
  "free_items 0 pItem m = Some m"
| "free_items (Suc count) pItem m =
     do {
       p \<leftarrow> load_ptr m pItem;
       m \<leftarrow> c_free m p;
       m \<leftarrow> store_ptr m pItem NULL;
       free_items count (pItem + PTR_SIZE) m
     }"

definition release_message ::
  "(pb_field_iter_t \<Rightarrow> mem \<Rightarrow> mem option) \<Rightarrow> pb_env \<Rightarrow> addr \<Rightarrow> addr \<Rightarrow> mem \<Rightarrow> mem option" where
  "release_message rel \<Gamma> fs dest m =
     (if dest = NULL then Some m else for_fields_mem \<Gamma> fs dest rel m)"

text \<open>The submessages held by a submessage field, and the number of them.\<close>

definition submsg_items :: "mem \<Rightarrow> pb_field_t \<Rightarrow> pb_field_iter_t \<Rightarrow> (addr \<times> pb_size_t) option" where
  "submsg_items m field it =
     (let ty = type field in
      do {
        pItem \<leftarrow> (if PB_ATYPE ty = PB_ATYPE_POINTER then load_ptr m (pData it) else Some (pData it));
        count \<leftarrow>
          (if PB_HTYPE ty = PB_HTYPE_REPEATED then
             do {
               count \<leftarrow> (if PB_ATYPE ty = PB_ATYPE_STATIC \<and> size_is_data it
                        then Some (array_size field) else load_size m it);
               Some (if PB_ATYPE ty = PB_ATYPE_STATIC \<and> count > array_size field
                     then array_size field else count)
             }
           else Some 1);
        Some (pItem, count)
      })"

fun pb_release_single_field :: "nat \<Rightarrow> pb_env \<Rightarrow> pb_field_iter_t \<Rightarrow> mem \<Rightarrow> mem option" where
  "pb_release_single_field 0 \<Gamma> it m = None"
| "pb_release_single_field (Suc n) \<Gamma> it m =
     (let field = cur_field \<Gamma> it; ty = type field in
      do {
        current \<leftarrow>
          (if PB_HTYPE ty = PB_HTYPE_ONEOF
           then map_option (\<lambda>which. which = tag field) (load_size m it) else Some True);
        if \<not> current then Some m
        else do {
          m \<leftarrow>
            (if PB_LTYPE ty = PB_LTYPE_EXTENSION then
               do {
                 ext \<leftarrow> load_ptr m (pData it);
                 each_extension
                   (\<lambda>ext m. do {
                      ext_iter \<leftarrow> iter_from_extension \<Gamma> m ext;
                      pb_release_single_field n \<Gamma> ext_iter m
                    }) ext m
               }
             else if PB_LTYPE ty = PB_LTYPE_SUBMESSAGE then
               do {
                 (pItem, count) \<leftarrow> submsg_items m field it;
                 if pItem = NULL \<or> count = 0 then Some m
                 else (case ptr field of
                         Ptr_fields fs \<Rightarrow>
                           release_items (release_message (pb_release_single_field n \<Gamma>) \<Gamma> fs)
                             (unat count) pItem (unat (data_size field)) m
                       | _ \<Rightarrow> None)
               }
             else Some m);
          if PB_ATYPE ty = PB_ATYPE_POINTER then
            do {
              m \<leftarrow>
                (if PB_HTYPE ty = PB_HTYPE_REPEATED \<and>
                    (PB_LTYPE ty = PB_LTYPE_STRING \<or> PB_LTYPE ty = PB_LTYPE_BYTES) then
                   do {
                     pItem \<leftarrow> load_ptr m (pData it);
                     count \<leftarrow> load_size m it;
                     free_items (unat count) pItem m
                   }
                 else Some m);
              m \<leftarrow> (if PB_HTYPE ty = PB_HTYPE_REPEATED
                    then map_option snd (store_size m it 0) else Some m);
              p \<leftarrow> load_ptr m (pData it);
              m \<leftarrow> c_free m p;
              store_ptr m (pData it) NULL
            }
          else Some m
        }
      })"

definition pb_release :: "nat \<Rightarrow> pb_env \<Rightarrow> addr \<Rightarrow> addr \<Rightarrow> mem \<Rightarrow> mem option" where
  "pb_release n \<Gamma> fs dest m = release_message (pb_release_single_field n \<Gamma>) \<Gamma> fs dest m"

text \<open>The iterator is left at the field it came with.\<close>

definition pb_release_union_field ::
  "(pb_field_iter_t \<Rightarrow> mem \<Rightarrow> mem option) \<Rightarrow> pb_env \<Rightarrow> mem \<Rightarrow> pb_istream_t \<Rightarrow> pb_field_iter_t
   \<Rightarrow> (bool \<times> pb_istream_t \<times> pb_field_iter_t \<times> mem) option" where
  "pb_release_union_field rel \<Gamma> m s it =
     do {
       old_tag \<leftarrow> load_size m it;
       let new_tag = tag (cur_field \<Gamma> it);
       if old_tag = 0 then Some (True, s, it, m)
       else if old_tag = new_tag then Some (True, s, it, m)
       else do {
         (found, it) \<leftarrow> pb_field_iter_find \<Gamma> it old_tag;
         if \<not> found then Some (False, i_error s ''invalid union tag'', it, m)
         else do {
           m \<leftarrow> rel it m;
           (found, it) \<leftarrow> pb_field_iter_find \<Gamma> it new_tag;
           if \<not> found then Some (False, i_error s ''iterator error'', it, m)
           else Some (True, s, it, m)
         }
       }
     }"

end
