(* ===== verification/PB_Decode.thy ===== *)
theory PB_Decode
  imports PB_Release
begin

text \<open>
  The decoder of \<open>pb_decode.c\<close>. The functions that call back into \<open>pb_decode_noinit\<close>,
  \<open>pb_message_set_to_defaults\<close>, \<open>pb_release\<close> or \<open>pb_release_single_field\<close> take these calls
  as a record of functions; \<open>pb_decode_noinit\<close> ties the knot with a fuel that bounds the nesting
  of submessages. \<open>None\<close> is undefined behaviour, a loop that does not end (which only a user's
  callback can cause) or nesting deeper than the fuel.
\<close>

type_synonym dres = "(bool \<times> pb_istream_t \<times> mem) option"
type_synonym ires_iter = "(bool \<times> pb_istream_t \<times> pb_field_iter_t \<times> mem) option"
type_synonym pb_decoder_t = "mem \<Rightarrow> pb_istream_t \<Rightarrow> pb_field_t \<Rightarrow> addr \<Rightarrow> dres"

record calls =
  c_noinit :: "mem \<Rightarrow> pb_istream_t \<Rightarrow> addr \<Rightarrow> addr \<Rightarrow> dres"
  c_defaults :: "addr \<Rightarrow> addr \<Rightarrow> mem \<Rightarrow> mem option"
  c_release_message :: "addr \<Rightarrow> addr \<Rightarrow> mem \<Rightarrow> mem option"
  c_release_field :: "pb_field_iter_t \<Rightarrow> mem \<Rightarrow> mem option"

definition d_error :: "mem \<Rightarrow> pb_istream_t \<Rightarrow> string \<Rightarrow> dres" where
  "d_error m s msg = Some (False, i_error s msg, m)"

section \<open>Allocation\<close>

definition allocate_field :: "mem \<Rightarrow> pb_istream_t \<Rightarrow> addr \<Rightarrow> size_t \<Rightarrow> size_t \<Rightarrow> dres" where
  "allocate_field m s pd dsize asize =
     do {
       p \<leftarrow> load_ptr m pd;
       let check_limit = (push_bit 32 1 :: size_t);
       if dsize = 0 \<or> asize = 0 then d_error m s ''invalid size''
       else if (dsize \<ge> check_limit \<or> asize \<ge> check_limit) \<and> (- 1) div asize < dsize
       then d_error m s ''size too large''
       else do {
         (q, m) \<leftarrow> c_realloc m p (unat (asize * dsize));
         if q = NULL then d_error m s ''realloc failed''
         else do { m \<leftarrow> store_ptr m pd q; Some (True, s, m) }
       }
     }"

definition initialize_pointer_field :: "calls \<Rightarrow> mem \<Rightarrow> pb_field_t \<Rightarrow> addr \<Rightarrow> mem option" where
  "initialize_pointer_field r m field pItem =
     (if PB_LTYPE (type field) = PB_LTYPE_STRING \<or> PB_LTYPE (type field) = PB_LTYPE_BYTES
      then store_ptr m pItem NULL
      else if PB_LTYPE (type field) = PB_LTYPE_SUBMESSAGE then
        do {
          m \<leftarrow> mem_set m pItem 0 (unat (data_size field));
          case ptr field of Ptr_fields fs \<Rightarrow> c_defaults r fs pItem m | _ \<Rightarrow> None
        }
      else Some m)"

section \<open>Field decoders\<close>

text \<open>
  A value stored into an integer member of the given size, and what is read back from it,
  extended to 64 bits. The inner \<open>None\<close> is an invalid size.
\<close>

definition store_signed :: "mem \<Rightarrow> pb_size_t \<Rightarrow> addr \<Rightarrow> u64 \<Rightarrow> (u64 \<times> mem) option option" where
  "store_signed m sz dest v =
     (if sz = 8 then map_option (\<lambda>m. Some (v, m)) (store_u64 m dest v)
      else if sz = 4 then map_option (\<lambda>m. Some (scast (ucast v :: u32), m)) (store_u32 m dest (ucast v))
      else if sz = 2 then map_option (\<lambda>m. Some (scast (ucast v :: 16 word), m)) (store_u16 m dest (ucast v))
      else if sz = 1 then map_option (\<lambda>m. Some (scast (ucast v :: byte), m)) (store_u8 m dest (ucast v))
      else Some None)"

definition store_unsigned :: "mem \<Rightarrow> pb_size_t \<Rightarrow> addr \<Rightarrow> u64 \<Rightarrow> (u64 \<times> mem) option option" where
  "store_unsigned m sz dest v =
     (if sz = 8 then map_option (\<lambda>m. Some (v, m)) (store_u64 m dest v)
      else if sz = 4 then map_option (\<lambda>m. Some (ucast (ucast v :: u32), m)) (store_u32 m dest (ucast v))
      else if sz = 2 then map_option (\<lambda>m. Some (ucast (ucast v :: 16 word), m)) (store_u16 m dest (ucast v))
      else if sz = 1 then map_option (\<lambda>m. Some (ucast (ucast v :: byte), m)) (store_u8 m dest (ucast v))
      else Some None)"

definition store_checked :: "mem \<Rightarrow> pb_istream_t \<Rightarrow> u64 \<Rightarrow> (u64 \<times> mem) option option \<Rightarrow> dres" where
  "store_checked m s v stored =
     do {
       r \<leftarrow> stored;
       case r of
         None \<Rightarrow> d_error m s ''invalid data_size''
       | Some (clamped, m) \<Rightarrow>
           if clamped \<noteq> v then d_error m s ''integer too large'' else Some (True, s, m)
     }"

definition pb_dec_varint :: pb_decoder_t where
  "pb_dec_varint m s field dest =
     do {
       (r, s) \<leftarrow> pb_decode_varint s;
       case r of
         None \<Rightarrow> Some (False, s, m)
       | Some value \<Rightarrow>
           let svalue = (if data_size field = 8 then value else scast (ucast value :: u32))
           in store_checked m s svalue (store_signed m (data_size field) dest svalue)
     }"

definition pb_dec_uvarint :: pb_decoder_t where
  "pb_dec_uvarint m s field dest =
     do {
       (r, s) \<leftarrow> pb_decode_varint s;
       case r of
         None \<Rightarrow> Some (False, s, m)
       | Some value \<Rightarrow> store_checked m s value (store_unsigned m (data_size field) dest value)
     }"

definition pb_dec_svarint :: pb_decoder_t where
  "pb_dec_svarint m s field dest =
     do {
       (r, s) \<leftarrow> pb_decode_svarint s;
       case r of
         None \<Rightarrow> Some (False, s, m)
       | Some value \<Rightarrow> store_checked m s value (store_signed m (data_size field) dest value)
     }"

definition pb_dec_fixed32 :: pb_decoder_t where
  "pb_dec_fixed32 m s field dest = pb_decode_fixed32 m s dest"

definition pb_dec_fixed64 :: pb_decoder_t where
  "pb_dec_fixed64 m s field dest = pb_decode_fixed64 m s dest"

text \<open>\<open>pb_read\<close> into an object in memory.\<close>

definition pb_read_mem :: "mem \<Rightarrow> pb_istream_t \<Rightarrow> addr \<Rightarrow> size_t \<Rightarrow> dres" where
  "pb_read_mem m s dest count =
     do {
       (ok, data, s) \<leftarrow> pb_read s True count;
       m \<leftarrow> store_bytes m dest data;
       Some (ok, s, m)
     }"

definition pb_dec_bytes :: pb_decoder_t where
  "pb_dec_bytes m s field dest =
     do {
       (r, s) \<leftarrow> pb_decode_varint32 s;
       case r of
         None \<Rightarrow> Some (False, s, m)
       | Some sz \<Rightarrow>
           let alloc_size = PB_BYTES_ARRAY_T_ALLOCSIZE sz in
           if sz > PB_SIZE_MAX then d_error m s ''bytes overflow''
           else if ucast sz > alloc_size then d_error m s ''size too large''
           else if PB_ATYPE (type field) = PB_ATYPE_POINTER then
             do {
               (ok, s, m) \<leftarrow> allocate_field m s dest alloc_size 1;
               if \<not> ok then Some (False, s, m)
               else do {
                 bdest \<leftarrow> load_ptr m dest;
                 m \<leftarrow> store_u32 m bdest sz;
                 pb_read_mem m s (bdest + BYTES_OFFSET) (ucast sz)
               }
             }
           else if alloc_size > ucast (data_size field) then d_error m s ''bytes overflow''
           else do {
             m \<leftarrow> store_u32 m dest sz;
             pb_read_mem m s (dest + BYTES_OFFSET) (ucast sz)
           }
     }"

text \<open>\<open>size + 1\<close> is computed in 32 bits, and wraps to 0 for the largest size.\<close>

definition pb_dec_string :: pb_decoder_t where
  "pb_dec_string m s field dest =
     do {
       (r, s) \<leftarrow> pb_decode_varint32 s;
       case r of
         None \<Rightarrow> Some (False, s, m)
       | Some sz \<Rightarrow>
           let alloc_size = (ucast (sz + 1) :: size_t) in
           if alloc_size < ucast sz then d_error m s ''size too large''
           else do {
             (ok, s, m, dest) \<leftarrow>
               (if PB_ATYPE (type field) = PB_ATYPE_POINTER then
                  do {
                    (ok, s, m) \<leftarrow> allocate_field m s dest alloc_size 1;
                    if \<not> ok then Some (False, s, m, dest)
                    else do { q \<leftarrow> load_ptr m dest; Some (True, s, m, q) }
                  }
                else if alloc_size > ucast (data_size field)
                then Some (False, i_error s ''string overflow'', m, dest)
                else Some (True, s, m, dest));
             if \<not> ok then Some (False, s, m)
             else do {
               (status, s, m) \<leftarrow> pb_read_mem m s dest (ucast sz);
               m \<leftarrow> store_u8 m (dest + unat sz) 0;
               Some (status, s, m)
             }
           }
     }"

definition decode_init :: "calls \<Rightarrow> mem \<Rightarrow> pb_istream_t \<Rightarrow> addr \<Rightarrow> addr \<Rightarrow> dres" where
  "decode_init r m s fs dest =
     do {
       m \<leftarrow> c_defaults r fs dest m;
       (status, s, m) \<leftarrow> c_noinit r m s fs dest;
       if \<not> status then do { m \<leftarrow> c_release_message r fs dest m; Some (False, s, m) }
       else Some (True, s, m)
     }"

definition pb_dec_submessage :: "calls \<Rightarrow> pb_decoder_t" where
  "pb_dec_submessage r m s field dest =
     do {
       (sub, s) \<leftarrow> pb_make_string_substream s;
       case sub of
         None \<Rightarrow> Some (False, s, m)
       | Some substream \<Rightarrow>
           (case ptr field of
              Ptr_null \<Rightarrow> d_error m s ''invalid field descriptor''
            | Ptr_default _ \<Rightarrow> None
            | Ptr_fields fs \<Rightarrow>
                do {
                  (status, substream, m) \<leftarrow>
                    (if PB_HTYPE (type field) = PB_HTYPE_REPEATED
                     then decode_init r m substream fs dest
                     else c_noinit r m substream fs dest);
                  (ok, s) \<leftarrow> pb_close_string_substream s substream;
                  if \<not> ok then Some (False, s, m) else Some (status, s, m)
                })
     }"

definition pb_dec_fixed_length_bytes :: pb_decoder_t where
  "pb_dec_fixed_length_bytes m s field dest =
     do {
       (r, s) \<leftarrow> pb_decode_varint32 s;
       case r of
         None \<Rightarrow> Some (False, s, m)
       | Some sz \<Rightarrow>
           if sz > PB_SIZE_MAX then d_error m s ''bytes overflow''
           else if sz = 0 then
             do { m \<leftarrow> mem_set m dest 0 (unat (data_size field)); Some (True, s, m) }
           else if sz \<noteq> data_size field then d_error m s ''incorrect fixed length bytes size''
           else pb_read_mem m s dest (ucast (data_size field))
     }"

definition PB_DECODERS :: "calls \<Rightarrow> byte \<Rightarrow> pb_decoder_t" where
  "PB_DECODERS r ltype =
     (if ltype = PB_LTYPE_VARINT then pb_dec_varint
      else if ltype = PB_LTYPE_UVARINT then pb_dec_uvarint
      else if ltype = PB_LTYPE_SVARINT then pb_dec_svarint
      else if ltype = PB_LTYPE_FIXED32 then pb_dec_fixed32
      else if ltype = PB_LTYPE_FIXED64 then pb_dec_fixed64
      else if ltype = PB_LTYPE_BYTES then pb_dec_bytes
      else if ltype = PB_LTYPE_STRING then pb_dec_string
      else if ltype = PB_LTYPE_SUBMESSAGE then pb_dec_submessage r
      else if ltype = PB_LTYPE_FIXED_LENGTH_BYTES then pb_dec_fixed_length_bytes
      else (\<lambda>m s field dest. None))"

section \<open>Static fields\<close>

definition with_iter :: "pb_field_iter_t \<Rightarrow> dres \<Rightarrow> ires_iter" where
  "with_iter it d = do { (ok, s, m) \<leftarrow> d; Some (ok, s, it, m) }"

partial_function (option) packed_dec_loop ::
  "pb_decoder_t \<Rightarrow> pb_field_t \<Rightarrow> pb_istream_t \<Rightarrow> pb_field_iter_t \<Rightarrow> mem \<Rightarrow> ires_iter" where
  [code]: "packed_dec_loop func field substream it m =
     (if bytes_left substream = 0 then Some (True, substream, it, m)
      else do {
        sz \<leftarrow> load_size m it;
        if \<not> sz < array_size field then Some (True, substream, it, m)
        else do {
          (ok, substream, m) \<leftarrow> func m substream field (pData it + unat (data_size field * sz));
          if \<not> ok then Some (False, substream, it, m)
          else do {
            sz \<leftarrow> load_size m it;
            (it, m) \<leftarrow> store_size m it (sz + 1);
            packed_dec_loop func field substream it m
          }
        }
      })"

definition decode_static_field ::
  "calls \<Rightarrow> pb_env \<Rightarrow> mem \<Rightarrow> pb_istream_t \<Rightarrow> pb_wire_type_t \<Rightarrow> pb_field_iter_t \<Rightarrow> ires_iter" where
  "decode_static_field r \<Gamma> m s wire_type it =
     (let field = cur_field \<Gamma> it; ty = type field; func = PB_DECODERS r (PB_LTYPE ty) in
      if PB_HTYPE ty = PB_HTYPE_REQUIRED then with_iter it (func m s field (pData it))
      else if PB_HTYPE ty = PB_HTYPE_OPTIONAL then
        do {
          m \<leftarrow> (if \<not> size_is_data it then store_has m it True else Some m);
          with_iter it (func m s field (pData it))
        }
      else if PB_HTYPE ty = PB_HTYPE_REPEATED then
        if wire_type = PB_WT_STRING \<and> PB_LTYPE ty \<le> PB_LTYPE_LAST_PACKABLE then
          do {
            (sub, s) \<leftarrow> pb_make_string_substream s;
            case sub of
              None \<Rightarrow> Some (False, s, it, m)
            | Some substream \<Rightarrow>
                do {
                  (status, substream, it, m) \<leftarrow> packed_dec_loop func field substream it m;
                  if bytes_left substream \<noteq> 0 then Some (False, i_error s ''array overflow'', it, m)
                  else do {
                    (ok, s) \<leftarrow> pb_close_string_substream s substream;
                    if \<not> ok then Some (False, s, it, m) else Some (status, s, it, m)
                  }
                }
          }
        else
          do {
            sz \<leftarrow> load_size m it;
            let pItem = pData it + unat (data_size field * sz);
            (it, m) \<leftarrow> store_size m it (sz + 1);
            if sz \<ge> array_size field then Some (False, i_error s ''array overflow'', it, m)
            else with_iter it (func m s field pItem)
          }
      else
        do {
          (it, m) \<leftarrow> store_size m it (tag field);
          m \<leftarrow> (if PB_LTYPE ty = PB_LTYPE_SUBMESSAGE then
                  do {
                    m \<leftarrow> mem_set m (pData it) 0 (unat (data_size field));
                    case ptr field of Ptr_fields fs \<Rightarrow> c_defaults r fs (pData it) m | _ \<Rightarrow> None
                  }
                else Some m);
          with_iter it (func m s field (pData it))
        })"

section \<open>Pointer fields\<close>

partial_function (option) pointer_packed_loop ::
  "calls \<Rightarrow> pb_decoder_t \<Rightarrow> pb_field_t \<Rightarrow> size_t \<Rightarrow> pb_istream_t \<Rightarrow> pb_istream_t \<Rightarrow> pb_field_iter_t \<Rightarrow> mem
   \<Rightarrow> (bool \<times> pb_istream_t \<times> pb_istream_t \<times> pb_field_iter_t \<times> mem) option" where
  [code]: "pointer_packed_loop r func field allocated_size s substream it m =
     (if bytes_left substream = 0 then Some (True, s, substream, it, m)
      else do {
        sz \<leftarrow> load_size m it;
        (ok, allocated_size, substream, m) \<leftarrow>
          (if ucast sz + 1 > allocated_size then
             if data_size field = 0 then None
             else
               let allocated_size =
                     allocated_size + ((bytes_left substream - 1) div ucast (data_size field) + 1)
               in do {
                 (ok, substream, m) \<leftarrow>
                   allocate_field m substream (pData it) (ucast (data_size field)) allocated_size;
                 Some (ok, allocated_size, substream, m)
               }
           else Some (True, allocated_size, substream, m));
        if \<not> ok then Some (False, s, substream, it, m)
        else do {
          base \<leftarrow> load_ptr m (pData it);
          sz \<leftarrow> load_size m it;
          let pItem = base + unat (data_size field * sz);
          m \<leftarrow> initialize_pointer_field r m field pItem;
          (ok, substream, m) \<leftarrow> func m substream field pItem;
          if \<not> ok then Some (False, s, substream, it, m)
          else do {
            sz \<leftarrow> load_size m it;
            if sz = PB_SIZE_MAX
            then Some (False, s\<lparr>i_errmsg := Some ''too many array entries''\<rparr>, substream, it, m)
            else do {
              (it, m) \<leftarrow> store_size m it (sz + 1);
              pointer_packed_loop r func field allocated_size s substream it m
            }
          }
        }
      })"

definition decode_pointer_field ::
  "calls \<Rightarrow> pb_env \<Rightarrow> mem \<Rightarrow> pb_istream_t \<Rightarrow> pb_wire_type_t \<Rightarrow> pb_field_iter_t \<Rightarrow> ires_iter" where
  "decode_pointer_field r \<Gamma> m s wire_type it =
     (let field = cur_field \<Gamma> it; ty = type field; func = PB_DECODERS r (PB_LTYPE ty) in
      if PB_HTYPE ty \<noteq> PB_HTYPE_REPEATED then
        do {
          m \<leftarrow> (if PB_LTYPE ty = PB_LTYPE_SUBMESSAGE then
                  do {
                    p \<leftarrow> load_ptr m (pData it);
                    if p \<noteq> NULL then c_release_field r it m else Some m
                  }
                else Some m);
          (it, m) \<leftarrow> (if PB_HTYPE ty = PB_HTYPE_ONEOF then store_size m it (tag field)
                     else Some (it, m));
          if PB_LTYPE ty = PB_LTYPE_STRING \<or> PB_LTYPE ty = PB_LTYPE_BYTES
          then with_iter it (func m s field (pData it))
          else do {
            (ok, s, m) \<leftarrow> allocate_field m s (pData it) (ucast (data_size field)) 1;
            if \<not> ok then Some (False, s, it, m)
            else do {
              p \<leftarrow> load_ptr m (pData it);
              m \<leftarrow> initialize_pointer_field r m field p;
              p \<leftarrow> load_ptr m (pData it);
              with_iter it (func m s field p)
            }
          }
        }
      else if wire_type = PB_WT_STRING \<and> PB_LTYPE ty \<le> PB_LTYPE_LAST_PACKABLE then
        do {
          sz \<leftarrow> load_size m it;
          (sub, s) \<leftarrow> pb_make_string_substream s;
          case sub of
            None \<Rightarrow> Some (False, s, it, m)
          | Some substream \<Rightarrow>
              do {
                (status, s, substream, it, m) \<leftarrow>
                  pointer_packed_loop r func field (ucast sz) s substream it m;
                (ok, s) \<leftarrow> pb_close_string_substream s substream;
                if \<not> ok then Some (False, s, it, m) else Some (status, s, it, m)
              }
        }
      else
        do {
          sz \<leftarrow> load_size m it;
          if sz = PB_SIZE_MAX then Some (False, i_error s ''too many array entries'', it, m)
          else do {
            (it, m) \<leftarrow> store_size m it (sz + 1);
            (ok, s, m) \<leftarrow> allocate_field m s (pData it) (ucast (data_size field)) (ucast (sz + 1));
            if \<not> ok then Some (False, s, it, m)
            else do {
              base \<leftarrow> load_ptr m (pData it);
              sz \<leftarrow> load_size m it;
              let pItem = base + unat (data_size field * (sz - 1));
              m \<leftarrow> initialize_pointer_field r m field pItem;
              with_iter it (func m s field pItem)
            }
          }
        })"

section \<open>Callback fields\<close>

text \<open>The function pointer is read from the structure again in each round.\<close>

partial_function (option) callback_loop ::
  "pb_env \<Rightarrow> pb_field_t \<Rightarrow> addr \<Rightarrow> mem \<Rightarrow> pb_istream_t \<Rightarrow> dres" where
  [code]: "callback_loop \<Gamma> field pCallback m substream =
     do {
       fn \<leftarrow> load_ptr m (pCallback + CB_FUNCS);
       (ok, substream, m) \<leftarrow> cb_decode \<Gamma> fn m substream field (pCallback + CB_ARG);
       if \<not> ok then Some (False, substream, m)
       else if bytes_left substream \<noteq> 0 then callback_loop \<Gamma> field pCallback m substream
       else Some (True, substream, m)
     }"

definition decode_callback_field ::
  "pb_env \<Rightarrow> mem \<Rightarrow> pb_istream_t \<Rightarrow> pb_wire_type_t \<Rightarrow> pb_field_iter_t \<Rightarrow> ires_iter" where
  "decode_callback_field \<Gamma> m s wire_type it =
     (let field = cur_field \<Gamma> it; pCallback = pData it in
      do {
        fn \<leftarrow> (if pCallback = NULL then Some NULL else load_ptr m (pCallback + CB_FUNCS));
        if fn = NULL then do { (ok, s) \<leftarrow> pb_skip_field s wire_type; Some (ok, s, it, m) }
        else if wire_type = PB_WT_STRING then
          do {
            (sub, s) \<leftarrow> pb_make_string_substream s;
            case sub of
              None \<Rightarrow> Some (False, s, it, m)
            | Some substream \<Rightarrow>
                do {
                  (ok, substream, m) \<leftarrow> callback_loop \<Gamma> field pCallback m substream;
                  if \<not> ok then Some (False, i_error s ''callback failed'', it, m)
                  else do {
                    (ok, s) \<leftarrow> pb_close_string_substream s substream;
                    Some (ok, s, it, m)
                  }
                }
          }
        else
          do {
            (raw, s) \<leftarrow> read_raw_value s wire_type 10;
            case raw of
              None \<Rightarrow> Some (False, s, it, m)
            | Some buffer \<Rightarrow>
                do {
                  (ok, _, m) \<leftarrow>
                    cb_decode \<Gamma> fn m (pb_istream_from_buffer buffer (of_nat (length buffer))) field
                      (pCallback + CB_ARG);
                  Some (ok, s, it, m)
                }
          }
      })"

section \<open>One field\<close>

definition decode_field ::
  "calls \<Rightarrow> pb_env \<Rightarrow> mem \<Rightarrow> pb_istream_t \<Rightarrow> pb_wire_type_t \<Rightarrow> pb_field_iter_t \<Rightarrow> ires_iter" where
  "decode_field r \<Gamma> m s wire_type it =
     do {
       (ok, s, it, m) \<leftarrow>
         (if PB_HTYPE (type (cur_field \<Gamma> it)) = PB_HTYPE_ONEOF
          then pb_release_union_field (c_release_field r) \<Gamma> m s it
          else Some (True, s, it, m));
       if \<not> ok then Some (False, s, it, m)
       else let atype = PB_ATYPE (type (cur_field \<Gamma> it)) in
         if atype = PB_ATYPE_STATIC then decode_static_field r \<Gamma> m s wire_type it
         else if atype = PB_ATYPE_POINTER then decode_pointer_field r \<Gamma> m s wire_type it
         else if atype = PB_ATYPE_CALLBACK then decode_callback_field \<Gamma> m s wire_type it
         else Some (False, i_error s ''invalid field type'', it, m)
     }"

section \<open>Extensions\<close>

definition default_extension_decoder ::
  "calls \<Rightarrow> pb_env \<Rightarrow> mem \<Rightarrow> pb_istream_t \<Rightarrow> addr \<Rightarrow> u32 \<Rightarrow> pb_wire_type_t \<Rightarrow> dres" where
  "default_extension_decoder r \<Gamma> m s extension tg wire_type =
     do {
       ty \<leftarrow> load_ptr m (extension + EXT_TYPE);
       et \<leftarrow> ext_types \<Gamma> ty;
       if tag (field_at \<Gamma> (et_arg et) 0) \<noteq> tg then Some (True, s, m)
       else do {
         it \<leftarrow> iter_from_extension \<Gamma> m extension;
         m \<leftarrow> store_bool m (extension + EXT_FOUND) True;
         (ok, s, it, m) \<leftarrow> decode_field r \<Gamma> m s wire_type it;
         Some (ok, s, m)
       }
     }"

partial_function (option) decode_extension_loop ::
  "calls \<Rightarrow> pb_env \<Rightarrow> u32 \<Rightarrow> pb_wire_type_t \<Rightarrow> size_t \<Rightarrow> addr \<Rightarrow> mem \<Rightarrow> pb_istream_t \<Rightarrow> dres" where
  [code]: "decode_extension_loop r \<Gamma> tg wire_type left extension m s =
     (if extension \<noteq> NULL \<and> left = bytes_left s then
        do {
          ty \<leftarrow> load_ptr m (extension + EXT_TYPE);
          et \<leftarrow> ext_types \<Gamma> ty;
          (status, s, m) \<leftarrow>
            (if et_decode et \<noteq> NULL then cb_ext_decode \<Gamma> (et_decode et) m s extension tg wire_type
             else default_extension_decoder r \<Gamma> m s extension tg wire_type);
          if \<not> status then Some (False, s, m)
          else do {
            nxt \<leftarrow> load_ptr m (extension + EXT_NEXT);
            decode_extension_loop r \<Gamma> tg wire_type left nxt m s
          }
        }
      else Some (True, s, m))"

definition decode_extension ::
  "calls \<Rightarrow> pb_env \<Rightarrow> mem \<Rightarrow> pb_istream_t \<Rightarrow> u32 \<Rightarrow> pb_wire_type_t \<Rightarrow> pb_field_iter_t \<Rightarrow> dres" where
  "decode_extension r \<Gamma> m s tg wire_type it =
     do {
       extension \<leftarrow> load_ptr m (pData it);
       decode_extension_loop r \<Gamma> tg wire_type (bytes_left s) extension m s
     }"

fun find_extension_loop ::
  "nat \<Rightarrow> pb_env \<Rightarrow> nat \<Rightarrow> pb_field_iter_t \<Rightarrow> (bool \<times> pb_field_iter_t) option" where
  "find_extension_loop 0 \<Gamma> start_pos it = None"
| "find_extension_loop (Suc n) \<Gamma> start_pos it =
     (if PB_LTYPE (type (cur_field \<Gamma> it)) = PB_LTYPE_EXTENSION then Some (True, it)
      else let it' = snd (pb_field_iter_next \<Gamma> it) in
           if pos it' = start_pos then Some (False, it') else find_extension_loop n \<Gamma> start_pos it')"

definition find_extension_field :: "pb_env \<Rightarrow> pb_field_iter_t \<Rightarrow> (bool \<times> pb_field_iter_t) option" where
  "find_extension_field \<Gamma> it =
     find_extension_loop (Suc (length (msg_fields \<Gamma> (start it)))) \<Gamma> (pos it) it"

section \<open>Messages\<close>

text \<open>The local variables of \<open>pb_decode_noinit\<close>; \<open>fixed_count_size\<close> is kept in the iterator.\<close>

record decode_state =
  ds_stream :: pb_istream_t
  ds_iter :: pb_field_iter_t
  ds_mem :: mem
  fields_seen :: "u32 list"
  extension_range_start :: u32
  fixed_count_field :: "nat option"

datatype decode_flow = Continue | Break | Return_false

definition fixed_count_complete :: "pb_env \<Rightarrow> decode_state \<Rightarrow> bool" where
  "fixed_count_complete \<Gamma> st =
     (case fixed_count_field st of
        None \<Rightarrow> True
      | Some k \<Rightarrow> fixed_count_size (ds_iter st) = array_size (field_at \<Gamma> (start (ds_iter st)) k))"

definition ds_fail :: "decode_state \<Rightarrow> string \<Rightarrow> (decode_flow \<times> decode_state) option" where
  "ds_fail st msg = Some (Return_false, st\<lparr>ds_stream := i_error (ds_stream st) msg\<rparr>)"

text \<open>A field whose tag is in the descriptor array.\<close>

definition mark_required :: "pb_env \<Rightarrow> decode_state \<Rightarrow> decode_state" where
  "mark_required \<Gamma> st =
     (let it = ds_iter st; i = required_field_index it in
      if PB_HTYPE (type (cur_field \<Gamma> it)) = PB_HTYPE_REQUIRED \<and> i < PB_MAX_REQUIRED_FIELDS
      then st\<lparr>fields_seen := (fields_seen st)
                [i div 32 := fields_seen st ! (i div 32) OR push_bit (i mod 32) 1]\<rparr>
      else st)"

definition known_field ::
  "calls \<Rightarrow> pb_env \<Rightarrow> pb_wire_type_t \<Rightarrow> decode_state \<Rightarrow> (decode_flow \<times> decode_state) option" where
  "known_field r \<Gamma> wire_type st =
     (let it = ds_iter st;
          fixed = PB_HTYPE (type (cur_field \<Gamma> it)) = PB_HTYPE_REPEATED \<and> size_is_data it
      in
      if fixed \<and> fixed_count_field st \<noteq> Some (pos it) \<and> \<not> fixed_count_complete \<Gamma> st
      then ds_fail st ''wrong size for fixed count field''
      else
        let st = (if fixed then
                    (if fixed_count_field st \<noteq> Some (pos it)
                     then st\<lparr>fixed_count_field := Some (pos it),
                             ds_iter := it\<lparr>fixed_count_size := 0, pSize := At_fixed_count\<rparr>\<rparr>
                     else st\<lparr>ds_iter := it\<lparr>pSize := At_fixed_count\<rparr>\<rparr>)
                  else st);
            st = mark_required \<Gamma> st
        in do {
          (ok, s, it, m) \<leftarrow> decode_field r \<Gamma> (ds_mem st) (ds_stream st) wire_type (ds_iter st);
          let st = st\<lparr>ds_stream := s, ds_iter := it, ds_mem := m\<rparr>;
          Some (if ok then Continue else Return_false, st)
        })"

text \<open>A field whose tag is not in the descriptor array: an extension, or skipped.\<close>

definition unknown_field ::
  "calls \<Rightarrow> pb_env \<Rightarrow> u32 \<Rightarrow> pb_wire_type_t \<Rightarrow> decode_state \<Rightarrow> (decode_flow \<times> decode_state) option" where
  "unknown_field r \<Gamma> tg wire_type st =
     do {
       (handled, ok, st) \<leftarrow>
         (if tg \<ge> extension_range_start st then
            do {
              (found, it) \<leftarrow> find_extension_field \<Gamma> (ds_iter st);
              let st = st\<lparr>ds_iter := it,
                          extension_range_start := (if \<not> found then - 1 else tag (cur_field \<Gamma> it))\<rparr>;
              if tg \<ge> extension_range_start st then
                do {
                  (ok, s, m) \<leftarrow> decode_extension r \<Gamma> (ds_mem st) (ds_stream st) tg wire_type it;
                  Some (bytes_left s \<noteq> bytes_left (ds_stream st), ok,
                        st\<lparr>ds_stream := s, ds_mem := m\<rparr>)
                }
              else Some (False, True, st)
            }
          else Some (False, True, st));
       if \<not> ok then Some (Return_false, st)
       else if handled then Some (Continue, st)
       else do {
         (ok, s) \<leftarrow> pb_skip_field (ds_stream st) wire_type;
         Some (if ok then Continue else Return_false, st\<lparr>ds_stream := s\<rparr>)
       }
     }"

definition decode_step ::
  "calls \<Rightarrow> pb_env \<Rightarrow> decode_state \<Rightarrow> (decode_flow \<times> decode_state) option" where
  "decode_step r \<Gamma> st =
     do {
       (t, s) \<leftarrow> pb_decode_tag (ds_stream st);
       let st = st\<lparr>ds_stream := s\<rparr>;
       if \<not> t_ok t then Some (if t_eof t then Break else Return_false, st)
       else do {
         (found, it) \<leftarrow> pb_field_iter_find \<Gamma> (ds_iter st) (t_tag t);
         let st = st\<lparr>ds_iter := it\<rparr>;
         if \<not> found then unknown_field r \<Gamma> (t_tag t) (t_wire_type t) st
         else known_field r \<Gamma> (t_wire_type t) st
       }
     }"

text \<open>The \<open>while (stream->bytes_left)\<close> loop; false if it was left by \<open>return false\<close>.\<close>

partial_function (option) decode_loop ::
  "calls \<Rightarrow> pb_env \<Rightarrow> decode_state \<Rightarrow> (bool \<times> decode_state) option" where
  [code]: "decode_loop r \<Gamma> st =
     (if bytes_left (ds_stream st) = 0 then Some (True, st)
      else do {
        (flow, st) \<leftarrow> decode_step r \<Gamma> st;
        case flow of
          Continue \<Rightarrow> decode_loop r \<Gamma> st
        | Break \<Rightarrow> Some (True, st)
        | Return_false \<Rightarrow> Some (False, st)
      })"

text \<open>The check that all required fields were present.\<close>

fun seek_end :: "nat \<Rightarrow> pb_env \<Rightarrow> pb_field_iter_t \<Rightarrow> (nat \<times> pb_type_t \<times> pb_field_iter_t) option" where
  "seek_end 0 \<Gamma> it = None"
| "seek_end (Suc n) \<Gamma> it =
     (let req_field_count = required_field_index it; last_type = type (cur_field \<Gamma> it);
          (more_fields, it') = pb_field_iter_next \<Gamma> it
      in if more_fields then seek_end n \<Gamma> it' else Some (req_field_count, last_type, it'))"

definition required_count :: "pb_env \<Rightarrow> pb_field_iter_t \<Rightarrow> nat option" where
  "required_count \<Gamma> it =
     do {
       (n, last_type, it) \<leftarrow> seek_end (Suc (length (msg_fields \<Gamma> (start it)))) \<Gamma> it;
       let n = (if PB_HTYPE last_type = PB_HTYPE_REQUIRED \<and> tag (cur_field \<Gamma> it) \<noteq> 0
                then Suc n else n);
       Some (if n > PB_MAX_REQUIRED_FIELDS then PB_MAX_REQUIRED_FIELDS else n)
     }"

definition all_seen :: "u32 list \<Rightarrow> nat \<Rightarrow> bool" where
  "all_seen seen n \<longleftrightarrow>
     list_all (\<lambda>i. seen ! i = - 1) [0..<n div 32] \<and>
     (n mod 32 \<noteq> 0 \<longrightarrow> seen ! (n div 32) = drop_bit (32 - n mod 32) (- 1))"

definition decode_finish :: "pb_env \<Rightarrow> decode_state \<Rightarrow> dres" where
  "decode_finish \<Gamma> st =
     (if \<not> fixed_count_complete \<Gamma> st
      then d_error (ds_mem st) (ds_stream st) ''wrong size for fixed count field''
      else do {
        req_field_count \<leftarrow> required_count \<Gamma> (ds_iter st);
        if \<not> all_seen (fields_seen st) req_field_count
        then d_error (ds_mem st) (ds_stream st) ''missing required field''
        else Some (True, ds_stream st, ds_mem st)
      })"

definition decode_message :: "calls \<Rightarrow> pb_env \<Rightarrow> mem \<Rightarrow> pb_istream_t \<Rightarrow> addr \<Rightarrow> addr \<Rightarrow> dres" where
  "decode_message r \<Gamma> m s fs dest =
     do {
       (ok, st) \<leftarrow>
         decode_loop r \<Gamma>
           \<lparr>ds_stream = s, ds_iter = snd (pb_field_iter_begin \<Gamma> empty_iter fs dest), ds_mem = m,
            fields_seen = [0, 0], extension_range_start = 0, fixed_count_field = None\<rparr>;
       if \<not> ok then Some (False, ds_stream st, ds_mem st) else decode_finish \<Gamma> st
     }"

fun pb_decode_noinit :: "nat \<Rightarrow> pb_env \<Rightarrow> mem \<Rightarrow> pb_istream_t \<Rightarrow> addr \<Rightarrow> addr \<Rightarrow> dres" where
  "pb_decode_noinit 0 \<Gamma> m s fs dest = None"
| "pb_decode_noinit (Suc n) \<Gamma> m s fs dest =
     decode_message
       \<lparr>c_noinit = pb_decode_noinit n \<Gamma>, c_defaults = pb_message_set_to_defaults n \<Gamma>,
        c_release_message = pb_release n \<Gamma>, c_release_field = pb_release_single_field n \<Gamma>\<rparr>
       \<Gamma> m s fs dest"

definition all_calls :: "nat \<Rightarrow> pb_env \<Rightarrow> calls" where
  "all_calls n \<Gamma> =
     \<lparr>c_noinit = pb_decode_noinit n \<Gamma>, c_defaults = pb_message_set_to_defaults n \<Gamma>,
      c_release_message = pb_release n \<Gamma>, c_release_field = pb_release_single_field n \<Gamma>\<rparr>"

definition pb_decode :: "nat \<Rightarrow> pb_env \<Rightarrow> mem \<Rightarrow> pb_istream_t \<Rightarrow> addr \<Rightarrow> addr \<Rightarrow> dres" where
  "pb_decode n \<Gamma> m s fs dest = decode_init (all_calls n \<Gamma>) m s fs dest"

definition delimited ::
  "(mem \<Rightarrow> pb_istream_t \<Rightarrow> addr \<Rightarrow> addr \<Rightarrow> dres) \<Rightarrow> mem \<Rightarrow> pb_istream_t \<Rightarrow> addr \<Rightarrow> addr \<Rightarrow> dres" where
  "delimited dec m s fs dest =
     do {
       (sub, s) \<leftarrow> pb_make_string_substream s;
       case sub of
         None \<Rightarrow> Some (False, s, m)
       | Some substream \<Rightarrow>
           do {
             (status, substream, m) \<leftarrow> dec m substream fs dest;
             (ok, s) \<leftarrow> pb_close_string_substream s substream;
             if \<not> ok then Some (False, s, m) else Some (status, s, m)
           }
     }"

definition pb_decode_delimited_noinit ::
  "nat \<Rightarrow> pb_env \<Rightarrow> mem \<Rightarrow> pb_istream_t \<Rightarrow> addr \<Rightarrow> addr \<Rightarrow> dres" where
  "pb_decode_delimited_noinit n \<Gamma> = delimited (pb_decode_noinit n \<Gamma>)"

definition pb_decode_delimited ::
  "nat \<Rightarrow> pb_env \<Rightarrow> mem \<Rightarrow> pb_istream_t \<Rightarrow> addr \<Rightarrow> addr \<Rightarrow> dres" where
  "pb_decode_delimited n \<Gamma> = delimited (pb_decode n \<Gamma>)"

definition pb_decode_nullterminated ::
  "nat \<Rightarrow> pb_env \<Rightarrow> mem \<Rightarrow> pb_istream_t \<Rightarrow> addr \<Rightarrow> addr \<Rightarrow> dres" where
  "pb_decode_nullterminated n \<Gamma> = pb_decode n \<Gamma>"

end
