(* ===== verification/PB_Progress.thy ===== *)
theory PB_Progress
  imports PB_Varint PB_Decode
begin

text \<open>
  On a memory buffer every decoding helper returns, whatever the bytes are: it never reads past
  \<open>bytes_left\<close>, only moves forward, and consumes at least one byte when it delivers a value.
\<close>

section \<open>Moving forward in a buffer\<close>

text \<open>
  \<open>s'\<close> is a later state of the buffer stream \<open>s\<close>: the read pointer has moved by \<open>j\<close> bytes
  and \<open>bytes_left\<close> has dropped by at least as much. (It drops by more when an error return
  leaves a substream unread.)
\<close>

definition prog :: "pb_istream_t \<Rightarrow> pb_istream_t \<Rightarrow> bool" where
  "prog s s' \<longleftrightarrow> i_callback s' = i_callback s \<and>
     (\<exists>j. i_state s' = drop j (i_state s) \<and> j + unat (bytes_left s') \<le> unat (bytes_left s))"

lemma prog_refl [simp, intro]: "prog s s"
  unfolding prog_def by (intro conjI exI [of _ 0]) simp_all

lemma prog_trans [trans]: "prog s s' \<Longrightarrow> prog s' s'' \<Longrightarrow> prog s s''"
proof -
  assume "prog s s'" and "prog s' s''"
  then obtain j k where "i_state s' = drop j (i_state s)" "j + unat (bytes_left s') \<le> unat (bytes_left s)"
    and "i_state s'' = drop k (i_state s')" "k + unat (bytes_left s'') \<le> unat (bytes_left s')"
    and "i_callback s'' = i_callback s"
    by (auto simp: prog_def)
  then show ?thesis unfolding prog_def by (intro conjI exI [of _ "k + j"]) simp_all
qed

lemma prog_error [simp]: "prog s (i_error s' msg) = prog s s'"
  by (simp add: prog_def)

lemma prog_left: "prog s s' \<Longrightarrow> unat (bytes_left s') \<le> unat (bytes_left s)"
  by (auto simp: prog_def)

lemma prog_buf_in: "buf_in s \<Longrightarrow> prog s s' \<Longrightarrow> buf_in s'"
  by (auto simp: buf_in_def enough_def prog_def)

lemma prog_adv: "buf_in s \<Longrightarrow> k \<le> length (pending s) \<Longrightarrow> prog s (adv s k)"
  using unat_bytes_left_adv [of k s] length_pending [of s]
  by (auto simp: prog_def buf_in_def)

lemma adv_less:
  "buf_in s \<Longrightarrow> 0 < k \<Longrightarrow> k \<le> length (pending s) \<Longrightarrow> unat (bytes_left (adv s k)) < unat (bytes_left s)"
  using unat_bytes_left_adv [of k s] length_pending [of s] by (simp add: buf_in_def)

section \<open>Helpers that deliver a value\<close>

text \<open>The call returns, moves forward, and has consumed something if it delivered a value.\<close>

definition delivers :: "pb_istream_t \<Rightarrow> 'a ires \<Rightarrow> bool" where
  "delivers s d \<longleftrightarrow>
     (\<exists>r s'. d = Some (r, s') \<and> prog s s' \<and>
             (r \<noteq> None \<longrightarrow> unat (bytes_left s') < unat (bytes_left s)))"

lemma deliversE:
  assumes "delivers s d"
  obtains r s' where "d = Some (r, s')" "prog s s'"
    "r \<noteq> None \<Longrightarrow> unat (bytes_left s') < unat (bytes_left s)"
  using assms by (auto simp: delivers_def)

lemma delivers_varint: "buf_in s \<Longrightarrow> delivers s (pb_decode_varint s)"
proof -
  assume ok: "buf_in s"
  show ?thesis
    unfolding buffer_source.decode_varint_result [OF ok] varint_result_def delivers_def
    using prog_adv [OF ok] adv_less [OF ok] vlen_le [of "take 10 (pending s)"]
    by (auto split: option.splits)
qed

lemma delivers_svarint: "buf_in s \<Longrightarrow> delivers s (pb_decode_svarint s)"
  using delivers_varint [of s]
  by (auto simp: pb_decode_svarint_def delivers_def split: option.splits)

lemma delivers_readbyte: "buf_in s \<Longrightarrow> delivers s (pb_readbyte s)"
proof (cases "pending s")
  case Nil
  assume "buf_in s"
  then show ?thesis using buffer_source.readbyte_end [of s] Nil by (simp add: delivers_def)
next
  case (Cons b bs)
  assume "buf_in s"
  then show ?thesis
    using buffer_source.readbyte_some [OF _ Cons] prog_adv [of s 1] adv_less [of s 1] Cons
    by (simp add: delivers_def)
qed

lemma varint32_loop_returns:
  assumes "buf_in s"
  shows "\<exists>r s'. varint32_loop bitpos result s = Some (r, s') \<and> prog s s'"
  using assms
proof (induction "unat (bytes_left s)" arbitrary: s bitpos result rule: less_induct)
  case less
  obtain r1 s1 where r1: "pb_readbyte s = Some (r1, s1)" and p1: "prog s s1"
    and l1: "r1 \<noteq> None \<Longrightarrow> unat (bytes_left s1) < unat (bytes_left s)"
    using delivers_readbyte [OF less.prems] by (rule deliversE) blast
  show ?case
  proof (cases r1)
    case None
    then show ?thesis using r1 p1 by (subst varint32_loop.simps) simp
  next
    case (Some b)
    have "\<exists>r s'. varint32_loop bp res s1 = Some (r, s') \<and> prog s1 s'" for bp res
      by (rule less.hyps) (use l1 Some prog_buf_in [OF less.prems p1] in auto)
    then have "\<exists>r s'. varint32_loop bp res s1 = Some (r, s') \<and> prog s s'" for bp res
      using prog_trans [OF p1] by blast
    then show ?thesis using r1 p1 Some
      by (subst varint32_loop.simps) (simp add: Let_def)
  qed
qed

lemma varint32_eof_returns:
  assumes "buf_in s"
  obtains r eof s' where "pb_decode_varint32_eof s = Some (r, eof, s')" "prog s s'"
    "r \<noteq> None \<Longrightarrow> unat (bytes_left s') < unat (bytes_left s)"
proof -
  obtain r1 s1 where r1: "pb_readbyte s = Some (r1, s1)" and p1: "prog s s1"
    and l1: "r1 \<noteq> None \<Longrightarrow> unat (bytes_left s1) < unat (bytes_left s)"
    using delivers_readbyte [OF assms] by (rule deliversE) blast
  show ?thesis
  proof (cases r1)
    case None
    then show ?thesis using that [of None] r1 p1 by (simp add: pb_decode_varint32_eof_def)
  next
    case (Some b)
    obtain r2 s2 where r2: "varint32_loop 7 (ucast (b AND 0x7F)) s1 = Some (r2, s2)" and p2: "prog s1 s2"
      using varint32_loop_returns [OF prog_buf_in [OF assms p1]] by blast
    have "prog s s2" using p1 p2 by (rule prog_trans)
    moreover have "unat (bytes_left s2) < unat (bytes_left s)" "unat (bytes_left s1) < unat (bytes_left s)"
      using l1 Some prog_left [OF p2] by simp_all
    ultimately show ?thesis
      using that [of "Some (ucast b)" False s1] that [of r2 False s2] r1 p1 r2 Some
      by (cases "b AND 0x80 = 0") (simp_all add: pb_decode_varint32_eof_def)
  qed
qed

lemma delivers_varint32: "buf_in s \<Longrightarrow> delivers s (pb_decode_varint32 s)"
  by (erule varint32_eof_returns) (auto simp: pb_decode_varint32_def delivers_def)

lemma tag_returns:
  assumes "buf_in s"
  obtains t s' where "pb_decode_tag s = Some (t, s')" "prog s s'"
    "t_ok t \<Longrightarrow> unat (bytes_left s') < unat (bytes_left s)"
proof -
  obtain r eof s' where r: "pb_decode_varint32_eof s = Some (r, eof, s')" "prog s s'"
    "r \<noteq> None \<Longrightarrow> unat (bytes_left s') < unat (bytes_left s)"
    using varint32_eof_returns [OF assms] by blast
  show ?thesis
  proof (cases r)
    case None
    then show ?thesis using r that by (simp add: pb_decode_tag_def)
  next
    case (Some temp)
    then show ?thesis using r that
      by (cases "temp = 0") (simp_all add: pb_decode_tag_def)
  qed
qed

section \<open>Reading and skipping\<close>

lemma read_returns:
  assumes "buf_in s"
  obtains ok data s' where "pb_read s buf count = Some (ok, data, s')" "prog s s'"
    "length data \<le> unat count" "ok \<Longrightarrow> buf \<Longrightarrow> length data = unat count"
    "ok \<Longrightarrow> unat (bytes_left s') + unat count = unat (bytes_left s)"
proof (cases "unat count \<le> length (pending s)")
  case True
  have "pb_read s buf count =
      Some (True, if buf then take (unat count) (pending s) else [], adv s (unat count))"
    using buffer_source.read_some [OF assms True, of buf] by simp
  moreover have "unat (bytes_left (adv s (unat count))) + unat count = unat (bytes_left s)"
    using unat_bytes_left_adv [of "unat count" s] length_pending [of s] True assms
    by (simp add: buf_in_def)
  ultimately show ?thesis using that prog_adv [OF assms True] True by auto
next
  case False
  then have "pb_read s buf count = Some (False, [], i_error s ''end-of-stream'')"
    using chunk_short [of s "unat count" buf] assms unat_lt_64 [of count]
    by (simp add: pb_read_def is_buf_read_def buf_in_def)
  then show ?thesis using that by auto
qed

lemma skip_bytes_returns:
  assumes "buf_in s"
  shows "\<exists>ok s'. pb_skip_bytes s count = Some (ok, s') \<and> prog s s'"
  using assms by (rule read_returns [of s False count]) (auto simp: pb_skip_bytes_def)

lemma skip_varint_returns:
  assumes "buf_in s"
  shows "\<exists>ok s'. pb_skip_varint s = Some (ok, s') \<and> prog s s'"
  using assms
proof (induction "unat (bytes_left s)" arbitrary: s rule: less_induct)
  case less
  obtain ok data s1 where rd: "pb_read s True 1 = Some (ok, data, s1)" and p1: "prog s s1"
    and len: "ok \<Longrightarrow> True \<Longrightarrow> length data = unat (1 :: size_t)"
    and left: "ok \<Longrightarrow> unat (bytes_left s1) + unat (1 :: size_t) = unat (bytes_left s)"
    by (rule read_returns [OF less.prems, of True 1]) blast
  show ?case
  proof (cases ok)
    case False
    then show ?thesis using rd p1 by (subst pb_skip_varint.simps) auto
  next
    case True
    then obtain b where b: "data = [b]" using len by (auto simp: length_Suc_conv)
    have "\<exists>ok s'. pb_skip_varint s1 = Some (ok, s') \<and> prog s1 s'"
      by (rule less.hyps) (use left True prog_buf_in [OF less.prems p1] in auto)
    then show ?thesis using rd p1 b True prog_trans [OF p1]
      by (subst pb_skip_varint.simps) auto
  qed
qed

lemma skip_field_returns:
  assumes "buf_in s"
  shows "\<exists>ok s'. pb_skip_field s wire_type = Some (ok, s') \<and> prog s s'"
proof -
  obtain r s1 where r: "pb_decode_varint32 s = Some (r, s1)" and p1: "prog s s1"
    using delivers_varint32 [OF assms] by (rule deliversE) blast
  have "\<exists>ok s'. pb_skip_bytes s1 n = Some (ok, s') \<and> prog s s'" for n
    using skip_bytes_returns [OF prog_buf_in [OF assms p1], of n] prog_trans [OF p1] by blast
  then have "\<exists>ok s'. pb_skip_string s = Some (ok, s') \<and> prog s s'"
    using r p1 by (cases r) (auto simp: pb_skip_string_def)
  then show ?thesis
    using skip_varint_returns [OF assms] skip_bytes_returns [OF assms]
    by (auto simp: pb_skip_field_def)
qed

section \<open>Substreams\<close>

lemma make_substream_returns:
  assumes "buf_in s"
  obtains (fail) s' where "pb_make_string_substream s = Some (None, s')" "prog s s'"
  | (sub) s1 sz where "pb_make_string_substream s =
        Some (Some (s1\<lparr>bytes_left := sz\<rparr>), s1\<lparr>bytes_left := bytes_left s1 - sz\<rparr>)"
      "prog s s1" "sz \<le> bytes_left s1" "unat (bytes_left s1) < unat (bytes_left s)" "buf_in s1"
      "buf_in (s1\<lparr>bytes_left := sz\<rparr>)"
proof -
  obtain r s1 where r: "pb_decode_varint32 s = Some (r, s1)" and p1: "prog s s1"
    and l1: "r \<noteq> None \<Longrightarrow> unat (bytes_left s1) < unat (bytes_left s)"
    using delivers_varint32 [OF assms] by (rule deliversE) blast
  have b1: "buf_in s1" using assms p1 by (rule prog_buf_in)
  show ?thesis
  proof (cases r)
    case None
    then show ?thesis using fail [of s1] r p1 by (simp add: pb_make_string_substream_def)
  next
    case (Some sz)
    show ?thesis
    proof (cases "bytes_left s1 < ucast sz")
      case True
      then show ?thesis using fail [of "i_error s1 ''parent stream too short''"] r p1 Some
        by (simp add: pb_make_string_substream_def)
    next
      case False
      then have "ucast sz \<le> bytes_left s1" by simp
      then show ?thesis
        using sub [where ?s1.0 = s1 and sz = "ucast sz"] r p1 l1 Some b1 buffer_source.ok_limit [OF b1]
        by (simp add: pb_make_string_substream_def)
    qed
  qed
qed

lemma close_substream_returns:
  assumes b: "buf_in s1" and sz: "sz \<le> bytes_left s1" and p: "prog (s1\<lparr>bytes_left := sz\<rparr>) sub"
  shows "\<exists>s'. pb_close_string_substream (s1\<lparr>bytes_left := bytes_left s1 - sz\<rparr>) sub = Some (True, s') \<and>
     prog s1 s'"
proof -
  have "buf_in (s1\<lparr>bytes_left := sz\<rparr>)" using b sz by (rule buffer_source.ok_limit)
  then have bs: "buf_in sub" using p by (rule prog_buf_in)
  then have len: "length (pending sub) = unat (bytes_left sub)" by (simp add: buf_in_def length_pending)
  obtain j where j: "i_state sub = drop j (i_state s1)" "j + unat (bytes_left sub) \<le> unat sz"
    using p by (auto simp: prog_def)
  have skip: "pb_skip_bytes sub (bytes_left sub) = Some (True, adv sub (unat (bytes_left sub)))"
    using buffer_source.skip_bytes [OF bs, of "unat (bytes_left sub)"] len by simp
  have left: "unat (bytes_left s1 - sz) = unat (bytes_left s1) - unat sz"
    using sz by (rule unat_sub)
  have "prog s1 (s1\<lparr>bytes_left := bytes_left s1 - sz,
      i_state := drop (j + unat (bytes_left sub)) (i_state s1), i_errmsg := e\<rparr>)" for e
    unfolding prog_def using j(2) left sz
    by (intro conjI exI [of _ "j + unat (bytes_left sub)"]) (simp_all add: word_le_nat_alt)
  then show ?thesis using skip j(1)
    by (auto simp: pb_close_string_substream_def add.commute)
qed

end
