(* ===== verification/PB_Layout.thy ===== *)
theory PB_Layout
  imports PB_Progress
begin

text \<open>
  Well-formed descriptors of statically allocated messages, as a predicate on the descriptor
  array and the size of the structure, and what the library does on such a structure: the
  iterator's pointers stay inside, default values are written inside, and releasing changes
  nothing.
\<close>

section \<open>Layouts\<close>

definition extent :: "pb_field_t \<Rightarrow> nat" where
  "extent f = (if PB_HTYPE (type f) = PB_HTYPE_REPEATED
               then unat (data_size f) * unat (array_size f) else unat (data_size f))"

text \<open>Offset of the count, has-flag or union tag of the \<open>k\<close>-th field.\<close>

definition size_off :: "pb_field_t list \<Rightarrow> nat \<Rightarrow> int" where
  "size_off fs k = int (data_off fs k) + sint (size_offset (fs ! union_head fs k))"

definition size_inside :: "pb_field_t list \<Rightarrow> nat \<Rightarrow> nat \<Rightarrow> nat \<Rightarrow> bool" where
  "size_inside fs sz w k \<longleftrightarrow> 0 \<le> size_off fs k \<and> size_off fs k + int w \<le> int sz"

definition value_ok :: "(addr \<Rightarrow> nat \<Rightarrow> bool) \<Rightarrow> pb_field_t \<Rightarrow> bool" where
  "value_ok sub f \<longleftrightarrow>
     (PB_LTYPE (type f) = PB_LTYPE_FIXED32 \<longrightarrow> 4 \<le> unat (data_size f)) \<and>
     (PB_LTYPE (type f) = PB_LTYPE_FIXED64 \<longrightarrow> 8 \<le> unat (data_size f)) \<and>
     (case ptr f of
        Ptr_null \<Rightarrow> PB_LTYPE (type f) \<noteq> PB_LTYPE_SUBMESSAGE
      | Ptr_fields fs \<Rightarrow> PB_LTYPE (type f) = PB_LTYPE_SUBMESSAGE \<and> sub fs (unat (data_size f))
      | Ptr_default bs \<Rightarrow> PB_LTYPE (type f) \<noteq> PB_LTYPE_SUBMESSAGE \<and> unat (data_size f) \<le> length bs)"

text \<open>
  A repeated field of fixed count has no count of its own (its \<open>pSize\<close> is its \<open>pData\<close>), but
  \<open>pb_field_set_to_default\<close> zeroes four bytes there all the same, so its array must be that long.
\<close>

definition static_field :: "(addr \<Rightarrow> nat \<Rightarrow> bool) \<Rightarrow> pb_field_t list \<Rightarrow> nat \<Rightarrow> nat \<Rightarrow> bool" where
  "static_field sub fs sz k \<longleftrightarrow>
     (let f = fs ! k in
      PB_ATYPE (type f) = PB_ATYPE_STATIC \<and>
      PB_LTYPE (type f) < PB_LTYPES_COUNT \<and> PB_LTYPE (type f) \<noteq> PB_LTYPE_EXTENSION \<and>
      data_off fs k + extent f \<le> sz \<and> extent f < 2 ^ 32 \<and>
      (PB_HTYPE (type f) = PB_HTYPE_OPTIONAL \<longrightarrow>
         size_offset (fs ! union_head fs k) = 0 \<or> size_inside fs sz 1 k) \<and>
      (PB_HTYPE (type f) = PB_HTYPE_REPEATED \<longrightarrow>
         (if size_offset (fs ! union_head fs k) = 0 then 4 \<le> extent f else size_inside fs sz 4 k)) \<and>
      (PB_HTYPE (type f) = PB_HTYPE_ONEOF \<longrightarrow> size_inside fs sz 4 k) \<and>
      value_ok sub f)"

fun static_msg :: "nat \<Rightarrow> pb_env \<Rightarrow> addr \<Rightarrow> nat \<Rightarrow> bool" where
  "static_msg 0 \<Gamma> fs sz = False"
| "static_msg (Suc n) \<Gamma> fs sz \<longleftrightarrow>
     msg_fields \<Gamma> fs \<noteq> [] \<and> wf_fields (msg_fields \<Gamma> fs) \<and>
     (\<forall>k < length (msg_fields \<Gamma> fs). static_field (static_msg n \<Gamma>) (msg_fields \<Gamma> fs) sz k)"

section \<open>Stores inside a region\<close>

text \<open>The bytes of the structure at \<open>dest\<close>.\<close>

definition region :: "addr \<Rightarrow> nat \<Rightarrow> addr set" where
  "region dest sz = {dest..<dest + sz}"

lemma region_sub: "dest \<le> p \<Longrightarrow> p + n \<le> dest + sz \<Longrightarrow> region p n \<subseteq> region dest sz"
  by (auto simp: region_def)

lemma valid_region: "valid m p n \<longleftrightarrow> region p n \<subseteq> dom (cells m)"
  by (simp add: valid_dom region_def)

lemma same_except_dom: "same_except A m m' \<Longrightarrow> dom (cells m') = dom (cells m)"
  by (simp add: same_except_def)

lemma store_inside:
  assumes "region p (length bs) \<subseteq> A" and "A \<subseteq> dom (cells m)"
  shows "\<exists>m'. store_bytes m p bs = Some m' \<and> same_except A m m'"
proof -
  have "valid m p (length bs)" using assms by (auto simp: valid_region)
  then obtain m' where m': "store_bytes m p bs = Some m'" using store_bytes_valid by blast
  have "same_except A m m'"
    using store_bytes_same_except [OF m'] assms(1) by (auto simp: region_def intro: same_except_mono)
  with m' show ?thesis by blast
qed

lemma store_word_inside:
  assumes "A \<subseteq> dom (cells m)"
  shows "region p 1 \<subseteq> A \<Longrightarrow> \<exists>m'. store_u8 m p w8 = Some m' \<and> same_except A m m'"
    and "region p 2 \<subseteq> A \<Longrightarrow> \<exists>m'. store_u16 m p w16 = Some m' \<and> same_except A m m'"
    and "region p 4 \<subseteq> A \<Longrightarrow> \<exists>m'. store_u32 m p w32 = Some m' \<and> same_except A m m'"
    and "region p 8 \<subseteq> A \<Longrightarrow> \<exists>m'. store_u64 m p w64 = Some m' \<and> same_except A m m'"
    and "region p 1 \<subseteq> A \<Longrightarrow> \<exists>m'. store_bool m p b = Some m' \<and> same_except A m m'"
    and "region p k \<subseteq> A \<Longrightarrow> \<exists>m'. mem_set m p c k = Some m' \<and> same_except A m m'"
  unfolding store_bool_def store_u8_def store_u16_def store_u32_def store_u64_def mem_set_def
  by (rule store_inside, simp, rule assms)+

lemma load_u32_inside:
  assumes "region p 4 \<subseteq> A" and "A \<subseteq> dom (cells m)"
  obtains w where "load_u32 m p = Some w"
proof -
  have "valid m p 4" using assms by (auto simp: valid_region)
  then show ?thesis using that load_bytes_valid [of m p 4] by (auto simp: load_u32_def)
qed

section \<open>Decoders that stay inside a region\<close>

text \<open>
  The call returns, changes memory only inside \<open>A\<close>, only moves forward in the stream, and has
  consumed something if it succeeded.
\<close>

definition inside :: "addr set \<Rightarrow> mem \<Rightarrow> pb_istream_t \<Rightarrow> dres \<Rightarrow> bool" where
  "inside A m s d \<longleftrightarrow>
     (\<exists>ok s' m'. d = Some (ok, s', m') \<and> same_except A m m' \<and> prog s s')"

definition inside_gain :: "addr set \<Rightarrow> mem \<Rightarrow> pb_istream_t \<Rightarrow> dres \<Rightarrow> bool" where
  "inside_gain A m s d \<longleftrightarrow>
     (\<exists>ok s' m'. d = Some (ok, s', m') \<and> same_except A m m' \<and> prog s s' \<and>
                (ok \<longrightarrow> unat (bytes_left s') < unat (bytes_left s)))"

lemma inside_gain_inside: "inside_gain A m s d \<Longrightarrow> inside A m s d"
  by (auto simp: inside_def inside_gain_def)

lemma insideE:
  assumes "inside A m s d"
  obtains ok s' m' where "d = Some (ok, s', m')" "same_except A m m'" "prog s s'"
  using assms by (auto simp: inside_def)

lemma inside_gainE:
  assumes "inside_gain A m s d"
  obtains ok s' m' where "d = Some (ok, s', m')" "same_except A m m'" "prog s s'"
    "ok \<Longrightarrow> unat (bytes_left s') < unat (bytes_left s)"
  using assms by (auto simp: inside_gain_def)

lemma inside_ret [simp]: "inside A m s (Some (ok, s', m')) \<longleftrightarrow> same_except A m m' \<and> prog s s'"
  by (simp add: inside_def)

lemma inside_error [simp]: "inside A m s (d_error m' s' msg) \<longleftrightarrow> same_except A m m' \<and> prog s s'"
  by (auto simp: inside_def d_error_def)

lemma inside_mono: "inside A m s d \<Longrightarrow> A \<subseteq> B \<Longrightarrow> inside B m s d"
  by (elim insideE) (simp add: same_except_mono)

lemma inside_gain_mono: "inside_gain A m s d \<Longrightarrow> A \<subseteq> B \<Longrightarrow> inside_gain B m s d"
  by (elim inside_gainE) (simp add: inside_gain_def same_except_mono)

lemma inside_after:
  "prog s s1 \<Longrightarrow> same_except A m m1 \<Longrightarrow> inside A m1 s1 d \<Longrightarrow> inside A m s d"
  by (elim insideE) (simp, metis same_except_trans prog_trans)

lemma inside_gain_value:
  assumes d: "delivers s h" and b: "buf_in s"
    and f: "\<And>v s1. buf_in s1 \<Longrightarrow> inside A m s1 (f v s1)"
  shows "inside_gain A m s
     (do { (r, s) \<leftarrow> h; case r of None \<Rightarrow> Some (False, s, m) | Some v \<Rightarrow> f v s })"
proof -
  obtain r s1 where h: "h = Some (r, s1)" and p: "prog s s1"
    and l: "r \<noteq> None \<Longrightarrow> unat (bytes_left s1) < unat (bytes_left s)"
    using d by (rule deliversE) blast
  show ?thesis
  proof (cases r)
    case None
    then show ?thesis using h p by (auto simp: inside_gain_def)
  next
    case (Some v)
    have "inside A m s1 (f v s1)" using prog_buf_in [OF b p] by (rule f)
    then obtain ok s' m' where "f v s1 = Some (ok, s', m')" "same_except A m m'" "prog s1 s'"
      by (rule insideE)
    then show ?thesis using h Some l prog_trans [OF p] prog_left [of s1 s']
      by (auto simp: inside_gain_def)
  qed
qed

lemma inside_store_checked:
  assumes "(\<exists>c m'. stored = Some (Some (c, m')) \<and> same_except A m m') \<or> stored = Some None"
  shows "inside A m s (store_checked m s v stored)"
  using assms by (auto simp: store_checked_def)

lemma store_int_inside:
  assumes A: "A \<subseteq> dom (cells m)" and r: "region dest (unat sz) \<subseteq> A"
  shows "(\<exists>c m'. store_signed m sz dest v = Some (Some (c, m')) \<and> same_except A m m') \<or>
         store_signed m sz dest v = Some None"
    and "(\<exists>c m'. store_unsigned m sz dest v = Some (Some (c, m')) \<and> same_except A m m') \<or>
         store_unsigned m sz dest v = Some None"
  using r store_word_inside(1) [OF A, of dest "ucast v"] store_word_inside(2) [OF A, of dest "ucast v"]
    store_word_inside(3) [OF A, of dest "ucast v"] store_word_inside(4) [OF A, of dest v]
  by (auto simp: store_signed_def store_unsigned_def)

lemma inside_dec_varint:
  assumes "buf_in s" and "A \<subseteq> dom (cells m)" and "region dest (unat (data_size field)) \<subseteq> A"
  shows "inside_gain A m s (pb_dec_varint m s field dest)"
    and "inside_gain A m s (pb_dec_uvarint m s field dest)"
    and "inside_gain A m s (pb_dec_svarint m s field dest)"
  unfolding pb_dec_varint_def pb_dec_uvarint_def pb_dec_svarint_def Let_def
  by (intro inside_gain_value delivers_varint delivers_svarint inside_store_checked
      store_int_inside assms)+

lemma delivers_read_exactly:
  assumes "buf_in s" and "0 < n" and "n < 2 ^ 64"
  shows "delivers s (read_exactly s n)"
    and "read_exactly s n = Some (Some bs, s') \<Longrightarrow> length bs = n"
proof -
  have n: "unat (of_nat n :: size_t) = n" using assms(3) by (simp add: unat_of_nat_64)
  obtain ok data s1 where "pb_read s True (of_nat n) = Some (ok, data, s1)" "prog s s1"
    "ok \<Longrightarrow> True \<Longrightarrow> length data = unat (of_nat n :: size_t)"
    "ok \<Longrightarrow> unat (bytes_left s1) + unat (of_nat n :: size_t) = unat (bytes_left s)"
    by (rule read_returns [OF assms(1), of True "of_nat n"]) blast
  then show "delivers s (read_exactly s n)"
    "read_exactly s n = Some (Some bs, s') \<Longrightarrow> length bs = n"
    using n assms(2) by (cases ok; auto simp: read_exactly_def delivers_def)+
qed

lemma inside_dec_fixed:
  assumes "buf_in s" and A: "A \<subseteq> dom (cells m)"
  shows "region dest 4 \<subseteq> A \<Longrightarrow> inside_gain A m s (pb_dec_fixed32 m s field dest)"
    and "region dest 8 \<subseteq> A \<Longrightarrow> inside_gain A m s (pb_dec_fixed64 m s field dest)"
proof -
  show "inside_gain A m s (pb_dec_fixed32 m s field dest)" if r: "region dest 4 \<subseteq> A"
    unfolding pb_dec_fixed32_def pb_decode_fixed32_def
  proof (rule inside_gain_value)
    show "inside A m s1 (do { m \<leftarrow> store_u32 m dest (fixed32_value bs); Some (True, s1, m) })" for bs s1
      using store_word_inside(3) [OF A r, of "fixed32_value bs"] by auto
  qed (use assms(1) delivers_read_exactly(1) [of s 4] in auto)
  show "inside_gain A m s (pb_dec_fixed64 m s field dest)" if r: "region dest 8 \<subseteq> A"
    unfolding pb_dec_fixed64_def pb_decode_fixed64_def
  proof (rule inside_gain_value)
    show "inside A m s1 (do { m \<leftarrow> store_u64 m dest (fixed64_value bs); Some (True, s1, m) })" for bs s1
      using store_word_inside(4) [OF A r, of "fixed64_value bs"] by auto
  qed (use assms(1) delivers_read_exactly(1) [of s 8] in auto)
qed

lemma inside_read_mem:
  assumes b: "buf_in s" and A: "A \<subseteq> dom (cells m)" and r: "region dest (unat count) \<subseteq> A"
  shows "inside A m s (pb_read_mem m s dest count)"
proof -
  obtain ok data s1 where rd: "pb_read s True count = Some (ok, data, s1)" and p: "prog s s1"
    and len: "length data \<le> unat count"
    by (rule read_returns [OF b, of True count]) blast
  have "region dest (length data) \<subseteq> A" using r len by (auto simp: region_def)
  then obtain m' where "store_bytes m dest data = Some m'" "same_except A m m'"
    using store_inside [OF _ A] by blast
  then show ?thesis using rd p by (simp add: pb_read_mem_def)
qed

lemma unat_ucast_32: "unat (ucast (w :: u32) :: u64) = unat w"
  using unat_lt_32 [of w] by (simp add: unsigned_ucast_eq take_bit_nat_eq_self)

lemma alloc_size_fits:
  assumes "\<not> ucast (d :: u32) < PB_BYTES_ARRAY_T_ALLOCSIZE sz"
  shows "unat sz + 4 \<le> unat d"
proof -
  have "unat (ucast sz + 4 :: u64) = unat sz + 4"
    using unat_lt_32 [of sz] by (simp add: unat_word_ariths unat_ucast_32)
  then show ?thesis using assms
    by (simp add: PB_BYTES_ARRAY_T_ALLOCSIZE_def word_less_nat_alt unat_ucast_32)
qed

lemma string_size_fits:
  assumes "\<not> ucast (d :: u32) < (ucast (sz + 1 :: u32) :: size_t)" and "\<not> (ucast (sz + 1) :: size_t) < ucast sz"
  shows "unat sz + 1 \<le> unat d"
proof -
  have "unat sz \<le> unat (sz + 1)" and d: "unat (sz + 1) \<le> unat d"
    using assms by (simp_all add: word_less_nat_alt unat_ucast_32)
  moreover have "sz + 1 \<noteq> sz" by simp
  ultimately have "unat sz < unat (sz + 1)" by (metis le_neq_implies_less word_unat_eq_iff)
  then show ?thesis using d by simp
qed

lemma delivers_inside_bytes:
  assumes b: "buf_in s" and A: "A \<subseteq> dom (cells m)" and r: "region dest (unat (data_size field)) \<subseteq> A"
    and st: "PB_ATYPE (type field) = PB_ATYPE_STATIC"
  shows "inside_gain A m s (pb_dec_bytes m s field dest)"
    and "inside_gain A m s (pb_dec_string m s field dest)"
    and "inside_gain A m s (pb_dec_fixed_length_bytes m s field dest)"
proof -
  have na: "PB_ATYPE (type field) \<noteq> PB_ATYPE_POINTER" using st by simp
  show "inside_gain A m s (pb_dec_bytes m s field dest)"
    unfolding pb_dec_bytes_def Let_def
  proof (rule inside_gain_value [OF delivers_varint32 [OF b] b], goal_cases)
    case (1 sz s1)
    let ?d = "do { m \<leftarrow> store_u32 m dest sz; pb_read_mem m s1 (dest + BYTES_OFFSET) (ucast sz) }"
    have "inside A m s1 ?d" if fits: "\<not> ucast (data_size field) < PB_BYTES_ARRAY_T_ALLOCSIZE sz"
    proof -
      have "unat sz + 4 \<le> unat (data_size field)" using fits by (rule alloc_size_fits)
      then have r4: "region dest 4 \<subseteq> A" and rd: "region (dest + 4) (unat sz) \<subseteq> A"
        using r by (auto simp: region_def)
      obtain m1 where m1: "store_u32 m dest sz = Some m1" "same_except A m m1"
        using store_word_inside(3) [OF A r4] by blast
      have "inside A m1 s1 (pb_read_mem m1 s1 (dest + 4) (ucast sz))"
        by (rule inside_read_mem) (use 1 A same_except_dom [OF m1(2)] rd in \<open>simp_all add: unat_ucast_32\<close>)
      then show ?thesis using m1 inside_after [of s1 s1] by simp
    qed
    then show ?case using na by auto
  qed
  show "inside_gain A m s (pb_dec_string m s field dest)"
    unfolding pb_dec_string_def Let_def
  proof (rule inside_gain_value [OF delivers_varint32 [OF b] b], goal_cases)
    case (1 sz s1)
    let ?d = "do { (status, s, m) \<leftarrow> pb_read_mem m s1 dest (ucast sz);
                   m \<leftarrow> store_u8 m (dest + unat sz) 0; Some (status, s, m) }"
    have "inside A m s1 ?d"
      if fits: "\<not> ucast (data_size field) < (ucast (sz + 1) :: size_t)"
        and wrap: "\<not> (ucast (sz + 1) :: size_t) < ucast sz"
    proof -
      have "unat sz + 1 \<le> unat (data_size field)" using fits wrap by (rule string_size_fits)
      then have r1: "region (dest + unat sz) 1 \<subseteq> A" and rd: "region dest (unat sz) \<subseteq> A"
        using r by (auto simp: region_def)
      have "inside A m s1 (pb_read_mem m s1 dest (ucast sz))"
        by (rule inside_read_mem) (use 1 A rd in \<open>simp_all add: unat_ucast_32\<close>)
      then obtain ok s2 m2 where rm: "pb_read_mem m s1 dest (ucast sz) = Some (ok, s2, m2)"
        "same_except A m m2" "prog s1 s2" by (rule insideE)
      have A2: "A \<subseteq> dom (cells m2)" using A same_except_dom [OF rm(2)] by simp
      then obtain m3 where "store_u8 m2 (dest + unat sz) 0 = Some m3" "same_except A m2 m3"
        using store_word_inside(1) [OF A2 r1] by blast
      then show ?thesis using rm same_except_trans by auto
    qed
    then show ?case using na by auto
  qed
  show "inside_gain A m s (pb_dec_fixed_length_bytes m s field dest)"
    unfolding pb_dec_fixed_length_bytes_def
  proof (rule inside_gain_value [OF delivers_varint32 [OF b] b], goal_cases)
    case (1 sz s1)
    have "inside A m s1 (pb_read_mem m s1 dest (ucast (data_size field)))"
      by (rule inside_read_mem) (use 1 A r in \<open>simp_all add: unat_ucast_32\<close>)
    then show ?case using store_word_inside(6) [OF A r, of 0] by auto
  qed
qed

end
