(* ===== verification/PB_Static.thy ===== *)
theory PB_Static
  imports PB_Layout
begin

text \<open>
  Default values and releasing on statically allocated messages: defaults are written inside the
  structure, and releasing finds nothing to free and changes nothing.
\<close>

section \<open>Where the pointers point\<close>

lemma static_field_region:
  assumes "static_field sub fs sz k"
  shows "region (dest + data_off fs k) (extent (fs ! k)) \<subseteq> region dest sz"
  using assms by (auto simp: static_field_def Let_def region_def)

lemma size_inside_region:
  assumes "size_inside fs sz w k"
  shows "region (size_addr fs dest k) w \<subseteq> region dest sz"
proof -
  have "size_addr fs dest k = nat (int dest + size_off fs k)"
    by (simp add: size_addr_def ptr_add_def size_off_def add.assoc)
  also have "\<dots> = dest + nat (size_off fs k)"
    using assms by (simp add: size_inside_def nat_add_distrib)
  finally have "size_addr fs dest k = dest + nat (size_off fs k)" .
  then show ?thesis using assms by (auto simp: size_inside_def region_def)
qed

lemma size_addr_data:
  "size_offset (fs ! union_head fs k) = 0 \<Longrightarrow> size_addr fs dest k = dest + data_off fs k"
  by (simp add: size_addr_def ptr_add_def)

lemma extent_single:
  "PB_HTYPE (type f) \<noteq> PB_HTYPE_REPEATED \<Longrightarrow> extent f = unat (data_size f)"
  by (simp add: extent_def)

lemma item_region:
  assumes st: "static_field sub fs sz k" and rep: "PB_HTYPE (type (fs ! k)) = PB_HTYPE_REPEATED"
    and i: "i < unat (array_size (fs ! k))"
  shows "region (dest + data_off fs k + unat (data_size (fs ! k)) * i) (unat (data_size (fs ! k))) \<subseteq> region dest sz"
proof -
  let ?d = "unat (data_size (fs ! k))"
  have "?d * i + ?d \<le> ?d * unat (array_size (fs ! k))"
    using i by (metis Suc_leI mult.commute mult_Suc mult_le_mono1 add.commute)
  then have "region (dest + data_off fs k + ?d * i) ?d \<subseteq> region (dest + data_off fs k) (extent (fs ! k))"
    using rep by (auto simp: region_def extent_def)
  then show ?thesis using static_field_region [OF st, of dest] by blast
qed

lemma static_msg_field:
  "static_msg (Suc n) \<Gamma> fs sz \<Longrightarrow> k < length (msg_fields \<Gamma> fs) \<Longrightarrow>
   static_field (static_msg n \<Gamma>) (msg_fields \<Gamma> fs) sz k"
  by simp

lemma static_msg_wf: "static_msg n \<Gamma> fs sz \<Longrightarrow> wf_fields (msg_fields \<Gamma> fs) \<and> msg_fields \<Gamma> fs \<noteq> []"
  by (cases n) auto

lemma static_field_submsg:
  assumes "static_field sub fs sz k" and "PB_LTYPE (type (fs ! k)) = PB_LTYPE_SUBMESSAGE"
  obtains a where "ptr (fs ! k) = Ptr_fields a" "sub a (unat (data_size (fs ! k)))"
  using assms by (auto simp: static_field_def Let_def value_ok_def split: pb_ptr.splits)

section \<open>Visiting the fields\<close>

lemma run_fields_inside:
  assumes "\<And>k m. k \<in> set ks \<Longrightarrow> A \<subseteq> dom (cells m) \<Longrightarrow> \<exists>m'. body k m = Some m' \<and> same_except A m m'"
    and "A \<subseteq> dom (cells m)"
  shows "\<exists>m'. run_fields (\<lambda>k m. map_option (Pair True) (body k m)) ks m = Some (True, m') \<and> same_except A m m'"
  using assms
proof (induction ks arbitrary: m)
  case Nil
  then show ?case by simp
next
  case (Cons k ks)
  obtain m1 where m1: "body k m = Some m1" "same_except A m m1"
    using Cons.prems(1) [of k m] Cons.prems(2) by auto
  have "\<exists>m'. run_fields (\<lambda>k m. map_option (Pair True) (body k m)) ks m1 = Some (True, m') \<and> same_except A m1 m'"
    by (rule Cons.IH) (use Cons.prems same_except_dom [OF m1(2)] in auto)
  then show ?case using m1 same_except_trans by auto
qed

lemma for_fields_inside:
  assumes "wf_fields (msg_fields \<Gamma> fs)" and "A \<subseteq> dom (cells m)"
    and "\<And>k m. k < length (msg_fields \<Gamma> fs) \<Longrightarrow> A \<subseteq> dom (cells m) \<Longrightarrow>
      \<exists>m'. body (iter_at \<Gamma> fs dest 0 k) m = Some m' \<and> same_except A m m'"
  shows "\<exists>m'. for_fields_mem \<Gamma> fs dest body m = Some m' \<and> same_except A m m'"
proof -
  have "\<exists>m'. run_fields (\<lambda>k m. map_option (Pair True) (body (iter_at \<Gamma> fs dest 0 k) m))
      [0..<length (msg_fields \<Gamma> fs)] m = Some (True, m') \<and> same_except A m m'"
    by (rule run_fields_inside) (use assms(2,3) in auto)
  then show ?thesis by (auto simp: for_fields_mem_def for_all_fields_run [OF assms(1)])
qed

lemma for_fields_same:
  assumes "wf_fields (msg_fields \<Gamma> fs)"
    and "\<And>k. k < length (msg_fields \<Gamma> fs) \<Longrightarrow> body (iter_at \<Gamma> fs dest 0 k) m = Some m"
  shows "for_fields_mem \<Gamma> fs dest body m = Some m"
proof -
  have "run_fields (\<lambda>k m. map_option (Pair True) (body (iter_at \<Gamma> fs dest 0 k) m)) ks m = Some (True, m)"
    if "set ks \<subseteq> {..<length (msg_fields \<Gamma> fs)}" for ks
    using that assms(2) by (induction ks) auto
  from this [of "[0..<length (msg_fields \<Gamma> fs)]"] show ?thesis
    by (auto simp: for_fields_mem_def for_all_fields_run [OF assms(1)] atLeast0LessThan)
qed

section \<open>Releasing\<close>

lemma release_items_same:
  "(\<And>i. i < count \<Longrightarrow> rel (p + sz * i) m = Some m) \<Longrightarrow> release_items rel count p sz m = Some m"
proof (induction count arbitrary: p)
  case 0
  then show ?case by simp
next
  case (Suc count)
  have "rel p m = Some m" using Suc.prems [of 0] by simp
  moreover have "release_items rel count (p + sz) sz m = Some m"
  proof (rule Suc.IH)
    fix i assume "i < count"
    then show "rel (p + sz + sz * i) m = Some m" using Suc.prems [of "Suc i"] by (simp add: add.assoc)
  qed
  ultimately show ?case by simp
qed

lemma load_size_inside:
  assumes "static_field sub (msg_fields \<Gamma> fs) sz k" and "region dest sz \<subseteq> dom (cells m)"
    and "PB_HTYPE (type (msg_fields \<Gamma> fs ! k)) = PB_HTYPE_ONEOF \<or>
         PB_HTYPE (type (msg_fields \<Gamma> fs ! k)) = PB_HTYPE_REPEATED \<and>
         \<not> size_is_data (iter_at \<Gamma> fs dest fc k)"
  shows "region (size_addr (msg_fields \<Gamma> fs) dest k) 4 \<subseteq> region dest sz"
    and "\<exists>w. load_size m (iter_at \<Gamma> fs dest fc k) = Some w"
proof -
  have "size_inside (msg_fields \<Gamma> fs) sz 4 k"
    using assms(1,3) size_addr_data [of "msg_fields \<Gamma> fs" k dest]
    by (auto simp: static_field_def Let_def size_is_data_def split: if_splits)
  then show r: "region (size_addr (msg_fields \<Gamma> fs) dest k) 4 \<subseteq> region dest sz"
    by (rule size_inside_region)
  show "\<exists>w. load_size m (iter_at \<Gamma> fs dest fc k) = Some w"
    using load_u32_inside [OF r assms(2)] by (auto simp: load_size_def)
qed

lemma fixed_count_room:
  assumes st: "static_field sub (msg_fields \<Gamma> fs) sz k"
    and "PB_HTYPE (type (msg_fields \<Gamma> fs ! k)) = PB_HTYPE_REPEATED"
    and "size_is_data (iter_at \<Gamma> fs dest fc k)"
  shows "region (size_addr (msg_fields \<Gamma> fs) dest k) 4 \<subseteq> region dest sz"
proof (cases "size_offset (msg_fields \<Gamma> fs ! union_head (msg_fields \<Gamma> fs) k) = 0")
  case True
  then have "4 \<le> extent (msg_fields \<Gamma> fs ! k)"
    using assms by (auto simp: static_field_def Let_def)
  then show ?thesis using static_field_region [OF st, of dest] size_addr_data [OF True, of dest]
    by (auto simp: region_def)
next
  case False
  then show ?thesis using assms by (intro size_inside_region) (auto simp: static_field_def Let_def)
qed

lemma has_inside:
  assumes "static_field sub (msg_fields \<Gamma> fs) sz k" and "region dest sz \<subseteq> dom (cells m)"
    and "PB_HTYPE (type (msg_fields \<Gamma> fs ! k)) = PB_HTYPE_OPTIONAL"
    and "\<not> size_is_data (iter_at \<Gamma> fs dest fc k)"
  shows "\<exists>m'. store_has m (iter_at \<Gamma> fs dest fc k) b = Some m' \<and> same_except (region dest sz) m m'"
proof -
  have "size_inside (msg_fields \<Gamma> fs) sz 1 k"
    using assms(1,3,4) size_addr_data by (auto simp: static_field_def Let_def size_is_data_def)
  then have "region (size_addr (msg_fields \<Gamma> fs) dest k) 1 \<subseteq> region dest sz"
    by (rule size_inside_region)
  then show ?thesis using store_word_inside(5) [OF assms(2)] by (simp add: store_has_def)
qed

lemma release_static_step:
  assumes st: "static_field sub (msg_fields \<Gamma> fs) sz k" and k: "k < length (msg_fields \<Gamma> fs)"
    and dom: "region dest sz \<subseteq> dom (cells m)"
    and rel: "\<And>a p n. sub a n \<Longrightarrow> region p n \<subseteq> region dest sz \<Longrightarrow>
      release_message (pb_release_single_field f \<Gamma>) \<Gamma> a p m = Some m"
  shows "pb_release_single_field (Suc f) \<Gamma> (iter_at \<Gamma> fs dest fc k) m = Some m"
proof -
  let ?f = "msg_fields \<Gamma> fs ! k" and ?it = "iter_at \<Gamma> fs dest fc k"
  have cur: "cur_field \<Gamma> ?it = ?f" using k by simp
  have at: "PB_ATYPE (type ?f) = PB_ATYPE_STATIC" and le: "PB_LTYPE (type ?f) \<noteq> PB_LTYPE_EXTENSION"
    using st by (auto simp: static_field_def Let_def)
  have items: "do { (pItem, count) \<leftarrow> submsg_items m ?f ?it;
      if pItem = NULL \<or> count = 0 then Some m
      else (case ptr ?f of
              Ptr_fields fs \<Rightarrow> release_items (release_message (pb_release_single_field f \<Gamma>) \<Gamma> fs)
                                 (unat count) pItem (unat (data_size ?f)) m
            | _ \<Rightarrow> None) } = Some m" if lt: "PB_LTYPE (type ?f) = PB_LTYPE_SUBMESSAGE"
  proof -
    obtain a where a: "ptr ?f = Ptr_fields a" "sub a (unat (data_size ?f))"
      using static_field_submsg [OF st lt] by blast
    have ex: "\<exists>count. submsg_items m ?f ?it = Some (dest + data_off (msg_fields \<Gamma> fs) k, count) \<and>
        (if PB_HTYPE (type ?f) = PB_HTYPE_REPEATED then count \<le> array_size ?f else count = 1)"
      using load_size_inside(2) [OF st dom, of fc] at
      by (cases "size_is_data ?it") (auto simp: submsg_items_def Let_def not_less)
    then obtain count where c: "submsg_items m ?f ?it = Some (dest + data_off (msg_fields \<Gamma> fs) k, count)"
      "if PB_HTYPE (type ?f) = PB_HTYPE_REPEATED then count \<le> array_size ?f else count = 1" by blast
    have "region (dest + data_off (msg_fields \<Gamma> fs) k + unat (data_size ?f) * i) (unat (data_size ?f)) \<subseteq> region dest sz"
      if i: "i < unat count" for i
    proof (cases "PB_HTYPE (type ?f) = PB_HTYPE_REPEATED")
      case True
      then show ?thesis using item_region [OF st True, of i dest] c(2) i by (simp add: word_le_nat_alt)
    next
      case False
      then have "i = 0" using c(2) i by simp
      then show ?thesis using static_field_region [OF st, of dest] False by (simp add: extent_single)
    qed
    then have "release_items (release_message (pb_release_single_field f \<Gamma>) \<Gamma> a) (unat count)
        (dest + data_off (msg_fields \<Gamma> fs) k) (unat (data_size ?f)) m = Some m"
      using rel [OF a(2)] by (intro release_items_same) simp
    then show ?thesis using c(1) a(1) by simp
  qed
  have "\<exists>w. load_size m ?it = Some w" if "PB_HTYPE (type ?f) = PB_HTYPE_ONEOF"
    using load_size_inside(2) [OF st dom, of fc] that by simp
  then show ?thesis using cur at le items
    by (cases "PB_LTYPE (type ?f) = PB_LTYPE_SUBMESSAGE"; cases "PB_HTYPE (type ?f) = PB_HTYPE_ONEOF")
      (auto simp: Let_def)
qed

lemma release_static_field:
  assumes "static_msg (Suc d) \<Gamma> fs sz" and "k < length (msg_fields \<Gamma> fs)"
    and "region dest sz \<subseteq> dom (cells m)" and "d < f"
  shows "pb_release_single_field f \<Gamma> (iter_at \<Gamma> fs dest fc k) m = Some m"
  using assms
proof (induction d arbitrary: f fs sz dest fc k)
  case (0 f)
  then obtain f' where f': "f = Suc f'" by (cases f) auto
  show ?case unfolding f'
    by (rule release_static_step [OF static_msg_field [OF 0(1,2)] 0(2,3)]) simp
next
  case (Suc d f)
  then obtain f' where f': "f = Suc f'" "d < f'" by (cases f) auto
  have "release_message (pb_release_single_field f' \<Gamma>) \<Gamma> a p m = Some m"
    if a: "static_msg (Suc d) \<Gamma> a n" and r: "region p n \<subseteq> region dest sz" for a p n
    unfolding release_message_def
    using for_fields_same [of \<Gamma> a "pb_release_single_field f' \<Gamma>" p m] static_msg_wf [OF a]
      Suc.IH [OF a _ _ f'(2)] r Suc.prems(3) by auto
  then show ?case unfolding f'(1)
    by (rule release_static_step [OF static_msg_field [OF Suc.prems(1,2)] Suc.prems(2,3)])
qed

lemma release_static:
  assumes "static_msg d \<Gamma> fs sz" and "region dest sz \<subseteq> dom (cells m)" and "d \<le> f"
  shows "pb_release f \<Gamma> fs dest m = Some m"
proof -
  obtain d' where d: "d = Suc d'" using assms(1) by (cases d) auto
  show ?thesis unfolding pb_release_def release_message_def
    using for_fields_same [of \<Gamma> fs "pb_release_single_field f \<Gamma>" dest m] static_msg_wf [OF assms(1)]
      release_static_field [of d' \<Gamma> fs sz _ dest m f 0] assms d by auto
qed

section \<open>Default values\<close>

lemma default_static_step:
  assumes st: "static_field sub (msg_fields \<Gamma> fs) sz k" and k: "k < length (msg_fields \<Gamma> fs)"
    and dom: "region dest sz \<subseteq> dom (cells m)"
    and dflt: "\<And>a p n m. sub a n \<Longrightarrow> region p n \<subseteq> region dest sz \<Longrightarrow> region dest sz \<subseteq> dom (cells m) \<Longrightarrow>
      \<exists>m'. for_fields_mem \<Gamma> a p (pb_field_set_to_default f \<Gamma>) m = Some m' \<and> same_except (region dest sz) m m'"
  shows "\<exists>m'. pb_field_set_to_default (Suc f) \<Gamma> (iter_at \<Gamma> fs dest fc k) m = Some m' \<and>
     same_except (region dest sz) m m'"
proof -
  let ?f = "msg_fields \<Gamma> fs ! k" and ?it = "iter_at \<Gamma> fs dest fc k" and ?A = "region dest sz"
  let ?pd = "dest + data_off (msg_fields \<Gamma> fs) k"
  have cur: "cur_field \<Gamma> ?it = ?f" using k by simp
  have at: "PB_ATYPE (type ?f) = PB_ATYPE_STATIC" and le: "PB_LTYPE (type ?f) \<noteq> PB_LTYPE_EXTENSION"
    using st by (auto simp: static_field_def Let_def)
  show ?thesis
  proof (cases "PB_HTYPE (type ?f) = PB_HTYPE_REPEATED \<or> PB_HTYPE (type ?f) = PB_HTYPE_ONEOF")
    case True
    have "region (size_addr (msg_fields \<Gamma> fs) dest k) 4 \<subseteq> ?A"
      using load_size_inside(1) [OF st dom, of fc] True fixed_count_room [OF st, of dest fc] by (cases "size_is_data ?it") auto
    then obtain m' where "store_u32 m (size_addr (msg_fields \<Gamma> fs) dest k) 0 = Some m'" "same_except ?A m m'"
      using store_word_inside(3) [OF dom] by blast
    then show ?thesis using True cur at le by (auto simp: Let_def store_size_def)
  next
    case False
    have rd: "region ?pd (unat (data_size ?f)) \<subseteq> ?A"
      using static_field_region [OF st, of dest] False by (simp add: extent_single)
    have "\<exists>m1. (if PB_HTYPE (type ?f) = PB_HTYPE_OPTIONAL \<and> \<not> size_is_data ?it
        then store_has m ?it False else Some m) = Some m1 \<and> same_except ?A m m1"
      using has_inside [OF st dom] by auto
    then obtain m1 where m1: "(if PB_HTYPE (type ?f) = PB_HTYPE_OPTIONAL \<and> \<not> size_is_data ?it
        then store_has m ?it False else Some m) = Some m1" "same_except ?A m m1" by blast
    have dom1: "?A \<subseteq> dom (cells m1)" using dom same_except_dom [OF m1(2)] by simp
    have "\<exists>m'. (if PB_LTYPE (type ?f) = PB_LTYPE_SUBMESSAGE then
            (case ptr ?f of
               Ptr_fields fs \<Rightarrow> for_fields_mem \<Gamma> fs ?pd (pb_field_set_to_default f \<Gamma>) m1
             | _ \<Rightarrow> None)
          else (case ptr ?f of
                  Ptr_null \<Rightarrow> mem_set m1 ?pd 0 (unat (data_size ?f))
                | Ptr_default bs \<Rightarrow>
                    if length bs < unat (data_size ?f) then None
                    else store_bytes m1 ?pd (take (unat (data_size ?f)) bs)
                | Ptr_fields fs \<Rightarrow> None)) = Some m' \<and> same_except ?A m1 m'"
      using st dflt [OF _ rd dom1] store_word_inside(6) [OF dom1 rd, of 0]
        store_inside [of ?pd "take (unat (data_size ?f)) bs" ?A m1 for bs] rd dom1
      by (auto simp: static_field_def Let_def value_ok_def min_absorb2 split: pb_ptr.splits)
    then show ?thesis unfolding pb_field_set_to_default.simps Let_def cur iter_at_sel
      using m1 at le False same_except_trans [OF m1(2)] by auto
  qed
qed

lemma default_static_field:
  assumes "static_msg (Suc d) \<Gamma> fs sz" and "k < length (msg_fields \<Gamma> fs)"
    and "region dest sz \<subseteq> dom (cells m)" and "d < f"
  shows "\<exists>m'. pb_field_set_to_default f \<Gamma> (iter_at \<Gamma> fs dest fc k) m = Some m' \<and>
     same_except (region dest sz) m m'"
  using assms
proof (induction d arbitrary: f fs sz dest fc k m)
  case (0 f)
  then obtain f' where f': "f = Suc f'" by (cases f) auto
  show ?case unfolding f'
    by (rule default_static_step [OF static_msg_field [OF 0(1,2)] 0(2,3)]) simp
next
  case (Suc d f)
  then obtain f' where f': "f = Suc f'" "d < f'" by (cases f) auto
  have "\<exists>m'. for_fields_mem \<Gamma> a p (pb_field_set_to_default f' \<Gamma>) m = Some m' \<and>
      same_except (region dest sz) m m'"
    if a: "static_msg (Suc d) \<Gamma> a n" and r: "region p n \<subseteq> region dest sz"
      and dm: "region dest sz \<subseteq> dom (cells m)" for a p n m
  proof -
    have "\<exists>m'. for_fields_mem \<Gamma> a p (pb_field_set_to_default f' \<Gamma>) m = Some m' \<and>
        same_except (region p n) m m'"
      using static_msg_wf [OF a] r dm Suc.IH [OF a _ _ f'(2)]
      by (intro for_fields_inside) auto
    then show ?thesis using r same_except_mono by blast
  qed
  then show ?case unfolding f'(1)
    by (rule default_static_step [OF static_msg_field [OF Suc.prems(1,2)] Suc.prems(2,3)])
qed

lemma defaults_static:
  assumes "static_msg d \<Gamma> fs sz" and "region dest sz \<subseteq> dom (cells m)" and "d \<le> f"
  shows "\<exists>m'. pb_message_set_to_defaults f \<Gamma> fs dest m = Some m' \<and> same_except (region dest sz) m m'"
proof -
  obtain d' where d: "d = Suc d'" using assms(1) by (cases d) auto
  show ?thesis unfolding pb_message_set_to_defaults_def
    using static_msg_wf [OF assms(1)] assms d default_static_field [of d' \<Gamma> fs sz _ dest _ f 0]
    by (intro for_fields_inside) auto
qed

end
