(* ===== verification/PB_Decode_Safe.thy ===== *)
theory PB_Decode_Safe
  imports PB_Static
begin

text \<open>
  The decoder on a statically allocated message and a memory buffer, whatever the bytes in the
  buffer are: it returns, it changes nothing outside the structure, and it never reads past
  the buffer.
\<close>

section \<open>What the recursive calls guarantee\<close>

definition calls_inside :: "nat \<Rightarrow> pb_env \<Rightarrow> calls \<Rightarrow> bool" where
  "calls_inside d \<Gamma> r \<longleftrightarrow>
     (\<forall>fs sz dest m. static_msg d \<Gamma> fs sz \<longrightarrow> region dest sz \<subseteq> dom (cells m) \<longrightarrow>
        (\<forall>s. buf_in s \<longrightarrow> inside (region dest sz) m s (c_noinit r m s fs dest)) \<and>
        (\<exists>m'. c_defaults r fs dest m = Some m' \<and> same_except (region dest sz) m m') \<and>
        c_release_message r fs dest m = Some m) \<and>
     (\<forall>fs sz dest fc k m. static_msg (Suc d) \<Gamma> fs sz \<longrightarrow> k < length (msg_fields \<Gamma> fs) \<longrightarrow>
        region dest sz \<subseteq> dom (cells m) \<longrightarrow>
        c_release_field r (iter_at \<Gamma> fs dest fc k) m = Some m)"

lemma calls_noinit:
  "calls_inside d \<Gamma> r \<Longrightarrow> static_msg d \<Gamma> fs sz \<Longrightarrow> region dest sz \<subseteq> dom (cells m) \<Longrightarrow> buf_in s \<Longrightarrow>
   inside (region dest sz) m s (c_noinit r m s fs dest)"
  by (simp add: calls_inside_def)

lemma calls_defaults:
  "calls_inside d \<Gamma> r \<Longrightarrow> static_msg d \<Gamma> fs sz \<Longrightarrow> region dest sz \<subseteq> dom (cells m) \<Longrightarrow>
   \<exists>m'. c_defaults r fs dest m = Some m' \<and> same_except (region dest sz) m m'"
  by (simp add: calls_inside_def)

lemma calls_release:
  "calls_inside d \<Gamma> r \<Longrightarrow> static_msg d \<Gamma> fs sz \<Longrightarrow> region dest sz \<subseteq> dom (cells m) \<Longrightarrow>
   c_release_message r fs dest m = Some m"
  by (simp add: calls_inside_def)

lemma calls_release_field:
  "calls_inside d \<Gamma> r \<Longrightarrow> static_msg (Suc d) \<Gamma> fs sz \<Longrightarrow> k < length (msg_fields \<Gamma> fs) \<Longrightarrow>
   region dest sz \<subseteq> dom (cells m) \<Longrightarrow> c_release_field r (iter_at \<Gamma> fs dest fc k) m = Some m"
  unfolding calls_inside_def by blast

lemma inside_decode_init:
  assumes c: "calls_inside d \<Gamma> r" and st: "static_msg d \<Gamma> fs sz"
    and dom: "region dest sz \<subseteq> dom (cells m)" and b: "buf_in s"
  shows "inside (region dest sz) m s (decode_init r m s fs dest)"
proof -
  obtain m1 where m1: "c_defaults r fs dest m = Some m1" "same_except (region dest sz) m m1"
    using calls_defaults [OF c st dom] by blast
  have dom1: "region dest sz \<subseteq> dom (cells m1)" using dom same_except_dom [OF m1(2)] by simp
  obtain ok s2 m2 where m2: "c_noinit r m1 s fs dest = Some (ok, s2, m2)"
    "same_except (region dest sz) m1 m2" "prog s s2"
    using calls_noinit [OF c st dom1 b] by (rule insideE)
  have "c_release_message r fs dest m2 = Some m2"
    using calls_release [OF c st] dom1 same_except_dom [OF m2(2)] by simp
  moreover have "same_except (region dest sz) m m2" using m1(2) m2(2) by (rule same_except_trans)
  ultimately show ?thesis using m1 m2 by (simp add: decode_init_def)
qed

section \<open>Values\<close>

lemma inside_dec_submessage:
  assumes c: "calls_inside d \<Gamma> r" and p: "ptr field = Ptr_fields fs"
    and st: "static_msg d \<Gamma> fs (unat (data_size field))"
    and r: "region dest (unat (data_size field)) \<subseteq> A" and dom: "A \<subseteq> dom (cells m)" and b: "buf_in s"
  shows "inside_gain A m s (pb_dec_submessage r m s field dest)"
  using b
proof (cases rule: make_substream_returns)
  case (fail s')
  then show ?thesis by (auto simp: pb_dec_submessage_def inside_gain_def)
next
  case (sub s1 sz)
  let ?sub = "s1\<lparr>bytes_left := sz\<rparr>" and ?R = "region dest (unat (data_size field))"
  let ?d = "if PB_HTYPE (type field) = PB_HTYPE_REPEATED
      then decode_init r m ?sub fs dest else c_noinit r m ?sub fs dest"
  have dom': "?R \<subseteq> dom (cells m)" using r dom by blast
  have "inside ?R m ?sub ?d"
    using inside_decode_init [OF c st dom' sub(6)] calls_noinit [OF c st dom' sub(6)] by simp
  then obtain ok s2 m2 where d: "?d = Some (ok, s2, m2)" "same_except ?R m m2" "prog ?sub s2"
    by (rule insideE)
  obtain s3 where s3: "pb_close_string_substream (s1\<lparr>bytes_left := bytes_left s1 - sz\<rparr>) s2 = Some (True, s3)"
    "prog s1 s3"
    using close_substream_returns [OF sub(5,3) d(3)] by blast
  have "same_except A m m2" using d(2) r by (rule same_except_mono)
  moreover have "prog s s3" using sub(2) s3(2) by (rule prog_trans)
  moreover have "unat (bytes_left s3) < unat (bytes_left s)" using prog_left [OF s3(2)] sub(4) by simp
  ultimately show ?thesis using sub(1) p d(1) s3(1)
    by (auto simp: pb_dec_submessage_def inside_gain_def)
qed

lemma inside_decoder:
  assumes c: "calls_inside d \<Gamma> r" and st: "static_field (static_msg d \<Gamma>) fs sz k"
    and rg: "region dest (unat (data_size (fs ! k))) \<subseteq> A" and dom: "A \<subseteq> dom (cells m)" and b: "buf_in s"
  shows "inside_gain A m s (PB_DECODERS r (PB_LTYPE (type (fs ! k))) m s (fs ! k) dest)"
proof -
  let ?f = "fs ! k" and ?l = "PB_LTYPE (type (fs ! k))"
  have at: "PB_ATYPE (type ?f) = PB_ATYPE_STATIC" and lt: "?l < PB_LTYPES_COUNT" "?l \<noteq> PB_LTYPE_EXTENSION"
    and v: "value_ok (static_msg d \<Gamma>) ?f"
    using st by (auto simp: static_field_def Let_def)
  have f4: "region dest 4 \<subseteq> A" if "?l = PB_LTYPE_FIXED32"
    using v that rg by (auto simp: value_ok_def region_def)
  have f8: "region dest 8 \<subseteq> A" if "?l = PB_LTYPE_FIXED64"
    using v that rg by (auto simp: value_ok_def region_def)
  have "unat ?l < 10" using lt(1) by (simp add: word_less_nat_alt)
  then have "unat ?l \<in> {0, 1, 2, 3, 4, 5, 6, 7, 8, 9}" by auto
  then consider "?l = 0" | "?l = 1" | "?l = 2" | "?l = 3" | "?l = 4" | "?l = 5" | "?l = 6" | "?l = 7" | "?l = 9"
    using lt(2) by (auto simp: word_unat_eq_iff)
  then show ?thesis
  proof cases
    case 8
    obtain a where "ptr ?f = Ptr_fields a" "static_msg d \<Gamma> a (unat (data_size ?f))"
      using static_field_submsg [OF st 8] by blast
    then show ?thesis using inside_dec_submessage [OF c _ _ rg dom b] 8 by (simp add: PB_DECODERS_def)
  qed (use inside_dec_varint [OF b dom rg] inside_dec_fixed [OF b dom] f4 f8
      delivers_inside_bytes [OF b dom rg at] in \<open>simp_all add: PB_DECODERS_def\<close>)
qed

section \<open>The iterator\<close>

text \<open>
  The iterator stands at field \<open>k\<close>; for a repeated field of fixed count its \<open>pSize\<close> may point
  at the local counter.
\<close>

definition iter_on :: "pb_env \<Rightarrow> addr \<Rightarrow> addr \<Rightarrow> nat \<Rightarrow> pb_field_iter_t \<Rightarrow> bool" where
  "iter_on \<Gamma> fs dest k it \<longleftrightarrow> k < length (msg_fields \<Gamma> fs) \<and>
     (\<exists>fc. it = iter_at \<Gamma> fs dest fc k \<or>
           PB_HTYPE (type (msg_fields \<Gamma> fs ! k)) = PB_HTYPE_REPEATED \<and>
           it = (iter_at \<Gamma> fs dest fc k)\<lparr>pSize := At_fixed_count\<rparr>)"

lemma iter_on_sel:
  assumes "iter_on \<Gamma> fs dest k it"
  shows "k < length (msg_fields \<Gamma> fs)" "start it = fs" "pos it = k"
    "pData it = dest + data_off (msg_fields \<Gamma> fs) k" "cur_field \<Gamma> it = msg_fields \<Gamma> fs ! k"
    "required_field_index it = req_index (msg_fields \<Gamma> fs) k"
  using assms by (auto simp: iter_on_def cur_field_def field_at_def)

lemma iter_next_psize:
  assumes "PB_HTYPE (type (cur_field \<Gamma> it)) \<noteq> PB_HTYPE_ONEOF" and "tag (cur_field \<Gamma> it) \<noteq> 0"
  shows "pb_field_iter_next \<Gamma> (it\<lparr>pSize := p\<rparr>) = pb_field_iter_next \<Gamma> it"
  using assms by (auto simp: pb_field_iter_next_def cur_field_def pb_field_iter_begin_def Let_def)

lemma iter_on_at: "k < length (msg_fields \<Gamma> fs) \<Longrightarrow> iter_on \<Gamma> fs dest k (iter_at \<Gamma> fs dest fc k)"
  by (auto simp: iter_on_def)

text \<open>What \<open>pb_field_iter_find\<close> returns: the field with this tag, or that there is none.\<close>

definition found_on :: "pb_field_t list \<Rightarrow> u32 \<Rightarrow> bool \<Rightarrow> nat \<Rightarrow> bool" where
  "found_on fl tg found k \<longleftrightarrow> (if found then matches tg (fl ! k) else (\<forall>j < length fl. \<not> matches tg (fl ! j)))"

lemma iter_find_on:
  assumes wf: "wf_fields (msg_fields \<Gamma> fs)" and it: "iter_on \<Gamma> fs dest k it"
  shows "\<exists>found k' it'. pb_field_iter_find \<Gamma> it tg = Some (found, it') \<and> iter_on \<Gamma> fs dest k' it' \<and>
     found_on (msg_fields \<Gamma> fs) tg found k'"
proof -
  let ?fl = "msg_fields \<Gamma> fs"
  have k: "k < length ?fl" using it by (rule iter_on_sel)
  have at: "\<exists>found k' it'. pb_field_iter_find \<Gamma> (iter_at \<Gamma> fs dest fc k) tg = Some (found, it') \<and>
      iter_on \<Gamma> fs dest k' it' \<and> found_on ?fl tg found k'" for fc
  proof (cases "List.find (\<lambda>k. matches tg (?fl ! k)) (around (length ?fl) k)")
    case None
    then have "found_on ?fl tg False k" using set_around [OF k] by (auto simp: found_on_def find_None_iff)
    then show ?thesis using None pb_field_iter_find_at [OF wf k, of dest fc tg] iter_on_at [OF k] by fastforce
  next
    case (Some k')
    then have "k' \<in> set (around (length ?fl) k)" "matches tg (?fl ! k')"
      by (auto simp: find_Some_iff)
    then have "k' < length ?fl" "found_on ?fl tg True k'" using set_around [OF k] by (auto simp: found_on_def)
    then show ?thesis using Some pb_field_iter_find_at [OF wf k, of dest fc tg] iter_on_at by fastforce
  qed
  from it obtain fc where "it = iter_at \<Gamma> fs dest fc k \<or>
      PB_HTYPE (type (?fl ! k)) = PB_HTYPE_REPEATED \<and>
      it = (iter_at \<Gamma> fs dest fc k)\<lparr>pSize := At_fixed_count\<rparr>" by (auto simp: iter_on_def)
  then show ?thesis
  proof
    assume "it = iter_at \<Gamma> fs dest fc k"
    then show ?thesis using at by blast
  next
    assume m: "PB_HTYPE (type (?fl ! k)) = PB_HTYPE_REPEATED \<and>
      it = (iter_at \<Gamma> fs dest fc k)\<lparr>pSize := At_fixed_count\<rparr>"
    let ?it = "iter_at \<Gamma> fs dest fc k"
    have cur: "cur_field \<Gamma> it = ?fl ! k" using m k by (simp add: cur_field_def field_at_def)
    have "pb_field_iter_next \<Gamma> it = pb_field_iter_next \<Gamma> ?it"
      using m k wf_fields_tag [OF wf k] by (simp add: iter_next_psize)
    then have "pb_field_iter_find \<Gamma> it tg =
        (if matches tg (?fl ! k) then Some (True, it) else pb_field_iter_find \<Gamma> ?it tg)"
      using m cur k by (simp add: pb_field_iter_find_def matches_def)
    then show ?thesis using at [of fc] it by (cases "matches tg (?fl ! k)") (auto simp: found_on_def)
  qed
qed

section \<open>One field\<close>

text \<open>As \<open>inside\<close>, with the iterator left at a field of the same message.\<close>

definition inside_iter ::
  "pb_env \<Rightarrow> addr \<Rightarrow> addr \<Rightarrow> nat \<Rightarrow> addr set \<Rightarrow> mem \<Rightarrow> pb_istream_t \<Rightarrow> ires_iter \<Rightarrow> bool" where
  "inside_iter \<Gamma> fs dest k A m s d \<longleftrightarrow>
     (\<exists>ok s' it' m'. d = Some (ok, s', it', m') \<and> same_except A m m' \<and> prog s s' \<and>
        iter_on \<Gamma> fs dest k it')"

lemma inside_iter_ret [simp]:
  "inside_iter \<Gamma> fs dest k A m s (Some (ok, s', it', m')) \<longleftrightarrow>
     same_except A m m' \<and> prog s s' \<and> iter_on \<Gamma> fs dest k it'"
  by (simp add: inside_iter_def)

lemma inside_with_iter:
  "inside_gain A m s d \<Longrightarrow> iter_on \<Gamma> fs dest k it \<Longrightarrow> inside_iter \<Gamma> fs dest k A m s (with_iter it d)"
  by (elim inside_gainE) (simp add: with_iter_def)

lemma inside_iter_after:
  "same_except A m m1 \<Longrightarrow> prog s s1 \<Longrightarrow> inside_iter \<Gamma> fs dest k A m1 s1 d \<Longrightarrow> inside_iter \<Gamma> fs dest k A m s d"
  unfolding inside_iter_def by (elim exE conjE) (auto intro: same_except_trans prog_trans)

lemma size_access:
  assumes st: "static_field sub (msg_fields \<Gamma> fs) sz k" and dom: "region dest sz \<subseteq> dom (cells m)"
    and it: "iter_on \<Gamma> fs dest k it"
    and h: "PB_HTYPE (type (msg_fields \<Gamma> fs ! k)) = PB_HTYPE_ONEOF \<or>
            PB_HTYPE (type (msg_fields \<Gamma> fs ! k)) = PB_HTYPE_REPEATED"
  shows "\<exists>w. load_size m it = Some w"
    and "\<exists>it' m'. store_size m it v = Some (it', m') \<and> iter_on \<Gamma> fs dest k it' \<and>
           same_except (region dest sz) m m'"
proof -
  obtain fc where fc: "it = iter_at \<Gamma> fs dest fc k \<or>
      PB_HTYPE (type (msg_fields \<Gamma> fs ! k)) = PB_HTYPE_REPEATED \<and>
      it = (iter_at \<Gamma> fs dest fc k)\<lparr>pSize := At_fixed_count\<rparr>" and k: "k < length (msg_fields \<Gamma> fs)"
    using it by (auto simp: iter_on_def)
  have r: "region (size_addr (msg_fields \<Gamma> fs) dest k) 4 \<subseteq> region dest sz"
    using load_size_inside(1) [OF st dom, of fc] fixed_count_room [OF st, of dest fc] h by blast
  obtain w where w: "load_u32 m (size_addr (msg_fields \<Gamma> fs) dest k) = Some w"
    using load_u32_inside [OF r dom] by blast
  obtain m' where m': "store_u32 m (size_addr (msg_fields \<Gamma> fs) dest k) v = Some m'"
    "same_except (region dest sz) m m'"
    using store_word_inside(3) [OF dom r] by blast
  show "\<exists>w. load_size m it = Some w" using fc w by (auto simp: load_size_def)
  show "\<exists>it' m'. store_size m it v = Some (it', m') \<and> iter_on \<Gamma> fs dest k it' \<and>
      same_except (region dest sz) m m'"
    using fc
  proof
    assume "it = iter_at \<Gamma> fs dest fc k"
    then show ?thesis using m' it by (auto simp: store_size_def)
  next
    assume h: "PB_HTYPE (type (msg_fields \<Gamma> fs ! k)) = PB_HTYPE_REPEATED \<and>
      it = (iter_at \<Gamma> fs dest fc k)\<lparr>pSize := At_fixed_count\<rparr>"
    then have e: "it\<lparr>fixed_count_size := v\<rparr> = (iter_at \<Gamma> fs dest v k)\<lparr>pSize := At_fixed_count\<rparr>"
      by (simp add: iter_at_def)
    have "iter_on \<Gamma> fs dest k (it\<lparr>fixed_count_size := v\<rparr>)"
      unfolding e iter_on_def using k h by blast
    then show ?thesis using h by (auto simp: store_size_def)
  qed
qed

lemma item_address:
  assumes st: "static_field sub fs sz k" and rep: "PB_HTYPE (type (fs ! k)) = PB_HTYPE_REPEATED"
    and i: "w < array_size (fs ! k)"
  shows "region (dest + data_off fs k + unat (data_size (fs ! k) * w)) (unat (data_size (fs ! k))) \<subseteq> region dest sz"
proof -
  have iw: "unat w < unat (array_size (fs ! k))" using i by (simp add: word_less_nat_alt)
  have "unat (data_size (fs ! k)) * unat (array_size (fs ! k)) < 2 ^ 32"
    using st rep by (auto simp: static_field_def Let_def extent_def)
  then have "unat (data_size (fs ! k)) * unat w < 2 ^ 32"
    using iw by (meson le_less_trans less_imp_le mult_le_mono2)
  then have "unat (data_size (fs ! k) * w) = unat (data_size (fs ! k)) * unat w"
    by (simp add: unat_word_ariths)
  then show ?thesis using item_region [OF st rep iw, of dest] by simp
qed

lemma packed_loop_inside:
  assumes c: "calls_inside d \<Gamma> r" and st: "static_field (static_msg d \<Gamma>) (msg_fields \<Gamma> fs) sz k"
    and rep: "PB_HTYPE (type (msg_fields \<Gamma> fs ! k)) = PB_HTYPE_REPEATED"
    and dom: "region dest sz \<subseteq> dom (cells m)" and b: "buf_in s" and it: "iter_on \<Gamma> fs dest k it"
  shows "inside_iter \<Gamma> fs dest k (region dest sz) m s
     (packed_dec_loop (PB_DECODERS r (PB_LTYPE (type (msg_fields \<Gamma> fs ! k)))) (msg_fields \<Gamma> fs ! k) s it m)"
  using dom b it
proof (induction "unat (bytes_left s)" arbitrary: s it m rule: less_induct)
  case less
  let ?f = "msg_fields \<Gamma> fs ! k" and ?A = "region dest sz"
  let ?func = "PB_DECODERS r (PB_LTYPE (type ?f))"
  obtain w where w: "load_size m it = Some w"
    using size_access(1) [OF st less.prems(1,3)] rep by blast
  show ?case
  proof (cases "bytes_left s = 0 \<or> \<not> w < array_size ?f")
    case True
    then show ?thesis using w less.prems(3) by (subst packed_dec_loop.simps) auto
  next
    case False
    let ?p = "pData it + unat (data_size ?f * w)"
    have "region ?p (unat (data_size ?f)) \<subseteq> ?A"
      using item_address [OF st rep, of w dest] False iter_on_sel(4) [OF less.prems(3)] by simp
    then have "inside_gain ?A m s (?func m s ?f ?p)"
      using inside_decoder [OF c st _ less.prems(1,2)] by simp
    then obtain ok s1 m1 where f: "?func m s ?f ?p = Some (ok, s1, m1)" "same_except ?A m m1" "prog s s1"
      "ok \<Longrightarrow> unat (bytes_left s1) < unat (bytes_left s)" by (rule inside_gainE) blast
    have dom1: "?A \<subseteq> dom (cells m1)" using less.prems(1) same_except_dom [OF f(2)] by simp
    obtain w1 where w1: "load_size m1 it = Some w1"
      using size_access(1) [OF st dom1 less.prems(3)] rep by blast
    obtain it2 m2 where s2: "store_size m1 it (w1 + 1) = Some (it2, m2)" "iter_on \<Gamma> fs dest k it2"
      "same_except ?A m1 m2"
      using size_access(2) [OF st dom1 less.prems(3)] rep by blast
    have m2: "same_except ?A m m2" using f(2) s2(3) by (rule same_except_trans)
    have "inside_iter \<Gamma> fs dest k ?A m2 s1 (packed_dec_loop ?func ?f s1 it2 m2)" if ok
      by (rule less.hyps)
        (use f(3,4) that dom1 same_except_dom [OF s2(3)] prog_buf_in [OF less.prems(2)] s2(2) in auto)
    then have "inside_iter \<Gamma> fs dest k ?A m s (packed_dec_loop ?func ?f s1 it2 m2)" if ok
      using inside_iter_after [OF m2 f(3)] that by blast
    then show ?thesis using False w w1 f(1-3) s2(1) less.prems(3)
      by (subst packed_dec_loop.simps) auto
  qed
qed

lemma htype_cases:
  "PB_HTYPE ty = PB_HTYPE_REQUIRED \<or> PB_HTYPE ty = PB_HTYPE_OPTIONAL \<or>
   PB_HTYPE ty = PB_HTYPE_REPEATED \<or> PB_HTYPE ty = PB_HTYPE_ONEOF"
proof -
  have m: "(0x30 :: byte) = push_bit 4 (mask 2)" by (simp add: mask_eq_exp_minus_1)
  have "PB_HTYPE ty = push_bit 4 (take_bit 2 (drop_bit 4 ty))"
    unfolding PB_HTYPE_def m by (rule bit_word_eqI) (auto simp: bit_simps)
  moreover have "unat (take_bit 2 (drop_bit 4 ty)) < 4"
    by (simp add: unat_take_bit_mod)
  then have "unat (take_bit 2 (drop_bit 4 ty)) \<in> {0, 1, 2, 3}" by auto
  then have "take_bit 2 (drop_bit 4 ty) \<in> {0, 1, 2, 3}" by (simp add: word_unat_eq_iff)
  ultimately show ?thesis by auto
qed

lemma oneof_init_inside:
  assumes c: "calls_inside d \<Gamma> r" and st: "static_field (static_msg d \<Gamma>) fs sz k"
    and rd: "region p (unat (data_size (fs ! k))) \<subseteq> A" and dom: "A \<subseteq> dom (cells m)"
  shows "\<exists>m'. (if PB_LTYPE (type (fs ! k)) = PB_LTYPE_SUBMESSAGE then
        do { m \<leftarrow> mem_set m p 0 (unat (data_size (fs ! k)));
             case ptr (fs ! k) of Ptr_fields fs \<Rightarrow> c_defaults r fs p m | _ \<Rightarrow> None }
        else Some m) = Some m' \<and> same_except A m m'"
proof (cases "PB_LTYPE (type (fs ! k)) = PB_LTYPE_SUBMESSAGE")
  case False
  then show ?thesis by simp
next
  case True
  obtain a where a: "ptr (fs ! k) = Ptr_fields a" "static_msg d \<Gamma> a (unat (data_size (fs ! k)))"
    using static_field_submsg [OF st True] by blast
  obtain m1 where m1: "mem_set m p 0 (unat (data_size (fs ! k))) = Some m1" "same_except A m m1"
    using store_word_inside(6) [OF dom rd] by blast
  have "region p (unat (data_size (fs ! k))) \<subseteq> dom (cells m1)"
    using rd dom same_except_dom [OF m1(2)] by blast
  then obtain m2 where "c_defaults r a p m1 = Some m2" "same_except A m1 m2"
    using calls_defaults [OF c a(2)] same_except_mono [OF _ rd] by blast
  then show ?thesis using True a(1) m1 same_except_trans by auto
qed

lemma decode_static_inside:
  assumes c: "calls_inside d \<Gamma> r" and st: "static_field (static_msg d \<Gamma>) (msg_fields \<Gamma> fs) sz k"
    and dom: "region dest sz \<subseteq> dom (cells m)" and b: "buf_in s" and it: "iter_on \<Gamma> fs dest k it"
  shows "inside_iter \<Gamma> fs dest k (region dest sz) m s (decode_static_field r \<Gamma> m s wt it)"
proof -
  let ?f = "msg_fields \<Gamma> fs ! k" and ?A = "region dest sz"
  let ?h = "PB_HTYPE (type ?f)" and ?func = "PB_DECODERS r (PB_LTYPE (type ?f))"
  note sel = iter_on_sel [OF it]
  have val: "inside_gain ?A m1 s (?func m1 s ?f (pData it))"
    if "?h \<noteq> PB_HTYPE_REPEATED" and "?A \<subseteq> dom (cells m1)" for m1
    using inside_decoder [OF c st _ that(2) b] static_field_region [OF st, of dest] that(1) sel(4)
    by (simp add: extent_single)
  consider (req) "?h = PB_HTYPE_REQUIRED" | (opt) "?h = PB_HTYPE_OPTIONAL"
    | (rep) "?h = PB_HTYPE_REPEATED" | (one) "?h = PB_HTYPE_ONEOF"
    using htype_cases [of "type ?f"] by blast
  then show ?thesis
  proof cases
    case req
    then show ?thesis using inside_with_iter [OF val it] dom sel(5) by (simp add: decode_static_field_def Let_def)
  next
    case opt
    then obtain fc where fc: "it = iter_at \<Gamma> fs dest fc k" using it by (auto simp: iter_on_def)
    have "\<exists>m1. (if \<not> size_is_data it then store_has m it True else Some m) = Some m1 \<and> same_except ?A m m1"
      using has_inside [OF st dom opt, of fc True] fc by auto
    then obtain m1 where m1: "(if \<not> size_is_data it then store_has m it True else Some m) = Some m1"
      "same_except ?A m m1" by blast
    have "inside_iter \<Gamma> fs dest k ?A m1 s (with_iter it (?func m1 s ?f (pData it)))"
      using inside_with_iter [OF val it] opt dom same_except_dom [OF m1(2)] by simp
    then have "inside_iter \<Gamma> fs dest k ?A m s (with_iter it (?func m1 s ?f (pData it)))"
      using inside_iter_after [OF m1(2) prog_refl] by blast
    then show ?thesis using opt m1(1) sel(5) by (simp add: decode_static_field_def Let_def)
  next
    case rep
    show ?thesis
    proof (cases "wt = PB_WT_STRING \<and> PB_LTYPE (type ?f) \<le> PB_LTYPE_LAST_PACKABLE")
      case True
      show ?thesis using b
      proof (cases rule: make_substream_returns)
        case (fail s')
        then show ?thesis using True rep sel(5) it by (simp add: decode_static_field_def Let_def)
      next
        case (sub s1 n)
        obtain ok s2 it2 m2 where l: "packed_dec_loop ?func ?f (s1\<lparr>bytes_left := n\<rparr>) it m = Some (ok, s2, it2, m2)"
          "same_except ?A m m2" "prog (s1\<lparr>bytes_left := n\<rparr>) s2" "iter_on \<Gamma> fs dest k it2"
          using packed_loop_inside [OF c st rep dom sub(6) it] by (auto simp: inside_iter_def)
        obtain s3 where s3: "pb_close_string_substream (s1\<lparr>bytes_left := bytes_left s1 - n\<rparr>) s2 = Some (True, s3)"
          "prog s1 s3" using close_substream_returns [OF sub(5,3) l(3)] by blast
        have "prog s1 (s1\<lparr>bytes_left := bytes_left s1 - n\<rparr>)"
          using unat_sub [OF sub(3)] by (auto simp: prog_def intro: exI [of _ 0])
        then have "prog s (s1\<lparr>bytes_left := bytes_left s1 - n\<rparr>)" "prog s s3"
          using sub(2) s3(2) prog_trans by blast+
        then show ?thesis using True rep sel(5) sub(1) l s3(1)
          by (auto simp: decode_static_field_def Let_def)
      qed
    next
      case False
      obtain w where w: "load_size m it = Some w" using size_access(1) [OF st dom it] rep by blast
      obtain it1 m1 where s1: "store_size m it (w + 1) = Some (it1, m1)" "iter_on \<Gamma> fs dest k it1"
        "same_except ?A m m1" using size_access(2) [OF st dom it] rep by blast
      let ?p = "pData it + unat (data_size ?f * w)"
      have "inside_iter \<Gamma> fs dest k ?A m s (with_iter it1 (?func m1 s ?f ?p))" if "w < array_size ?f"
      proof -
        have "inside_gain ?A m1 s (?func m1 s ?f ?p)"
          using inside_decoder [OF c st _ _ b, of ?p ?A m1] item_address [OF st rep that, of dest] sel(4)
            dom same_except_dom [OF s1(3)] by simp
        then show ?thesis using inside_with_iter s1(2) inside_iter_after [OF s1(3) prog_refl] by blast
      qed
      then show ?thesis using False rep sel(5) w s1
        by (auto simp: decode_static_field_def Let_def not_le)
    qed
  next
    case one
    obtain it1 m1 where s1: "store_size m it (tag ?f) = Some (it1, m1)" "iter_on \<Gamma> fs dest k it1"
      "same_except ?A m m1" using size_access(2) [OF st dom it] one by blast
    have dom1: "?A \<subseteq> dom (cells m1)" using dom same_except_dom [OF s1(3)] by simp
    have rd: "region (pData it) (unat (data_size ?f)) \<subseteq> ?A"
      using static_field_region [OF st, of dest] one sel(4) by (simp add: extent_single)
    have p1: "pData it1 = pData it" using iter_on_sel(4) [OF s1(2)] sel(4) by simp
    let ?init = "if PB_LTYPE (type ?f) = PB_LTYPE_SUBMESSAGE then
        do { m \<leftarrow> mem_set m1 (pData it1) 0 (unat (data_size ?f));
             case ptr ?f of Ptr_fields fs \<Rightarrow> c_defaults r fs (pData it1) m | _ \<Rightarrow> None }
        else Some m1"
    have "\<exists>m2. ?init = Some m2 \<and> same_except ?A m1 m2"
      using oneof_init_inside [OF c st rd dom1] unfolding p1 by blast
    then obtain m2 where m2: "?init = Some m2" "same_except ?A m1 m2" by blast
    have mm: "same_except ?A m m2" using s1(3) m2(2) by (rule same_except_trans)
    have "inside_iter \<Gamma> fs dest k ?A m2 s (with_iter it1 (?func m2 s ?f (pData it1)))"
      using inside_with_iter [OF val s1(2)] one dom1 same_except_dom [OF m2(2)] p1 by simp
    then have "inside_iter \<Gamma> fs dest k ?A m s (with_iter it1 (?func m2 s ?f (pData it1)))"
      using inside_iter_after [OF mm prog_refl] by blast
    then show ?thesis by (simp add: decode_static_field_def Let_def one s1(1) m2(1) sel(5))
  qed
qed

lemma release_union_inside:
  assumes c: "calls_inside d \<Gamma> r" and sm: "static_msg (Suc d) \<Gamma> fs sz"
    and dom: "region dest sz \<subseteq> dom (cells m)" and k: "k < length (msg_fields \<Gamma> fs)"
    and one: "PB_HTYPE (type (msg_fields \<Gamma> fs ! k)) = PB_HTYPE_ONEOF"
    and it: "iter_on \<Gamma> fs dest k it"
  shows "\<exists>ok s' it' k'. pb_release_union_field (c_release_field r) \<Gamma> m s it = Some (ok, s', it', m) \<and>
     prog s s' \<and> iter_on \<Gamma> fs dest k' it'"
proof -
  note wf = static_msg_wf [OF sm, THEN conjunct1]
  obtain fc where fc: "it = iter_at \<Gamma> fs dest fc k" using it one by (auto simp: iter_on_def)
  obtain w where w: "load_size m it = Some w"
    using size_access(1) [OF static_msg_field [OF sm k] dom it] one by blast
  have find: "\<exists>found j. pb_field_iter_find \<Gamma> (iter_at \<Gamma> fs dest fc j0) tg = Some (found, iter_at \<Gamma> fs dest fc j) \<and>
      j < length (msg_fields \<Gamma> fs)" if j0: "j0 < length (msg_fields \<Gamma> fs)" for tg j0
  proof -
    have "j < length (msg_fields \<Gamma> fs)"
      if "List.find P (around (length (msg_fields \<Gamma> fs)) j0) = Some j" for P j
      using that set_around [OF j0] by (metis atLeastLessThan_iff find_Some_iff nth_mem)
    then show ?thesis using pb_field_iter_find_at [OF wf j0, of dest fc tg] j0
      by (auto split: option.splits)
  qed
  obtain f1 j1 where f1: "pb_field_iter_find \<Gamma> it w = Some (f1, iter_at \<Gamma> fs dest fc j1)"
    and j1: "j1 < length (msg_fields \<Gamma> fs)" using find [OF k, of w] fc by blast
  obtain f2 j2 where f2: "pb_field_iter_find \<Gamma> (iter_at \<Gamma> fs dest fc j1) (tag (cur_field \<Gamma> it)) =
      Some (f2, iter_at \<Gamma> fs dest fc j2)"
    and j2: "j2 < length (msg_fields \<Gamma> fs)" using find [OF j1] by blast
  have rel: "c_release_field r (iter_at \<Gamma> fs dest fc j1) m = Some m"
    using calls_release_field [OF c sm j1 dom] .
  have "\<exists>k'. iter_on \<Gamma> fs dest k' (iter_at \<Gamma> fs dest fc j)" if "j < length (msg_fields \<Gamma> fs)" for j
    using iter_on_at [OF that] by blast
  then show ?thesis using w f1 f2 j1 j2 rel it
    by (auto simp: pb_release_union_field_def Let_def)
qed

lemma decode_field_inside:
  assumes c: "calls_inside d \<Gamma> r" and sm: "static_msg (Suc d) \<Gamma> fs sz"
    and dom: "region dest sz \<subseteq> dom (cells m)" and b: "buf_in s" and it: "iter_on \<Gamma> fs dest k it"
  shows "\<exists>k'. inside_iter \<Gamma> fs dest k' (region dest sz) m s (decode_field r \<Gamma> m s wt it)"
proof -
  let ?A = "region dest sz"
  have k: "k < length (msg_fields \<Gamma> fs)" using it by (rule iter_on_sel)
  let ?pre = "if PB_HTYPE (type (cur_field \<Gamma> it)) = PB_HTYPE_ONEOF
      then pb_release_union_field (c_release_field r) \<Gamma> m s it else Some (True, s, it, m)"
  have "\<exists>ok s' it' k'. ?pre = Some (ok, s', it', m) \<and> prog s s' \<and> iter_on \<Gamma> fs dest k' it'"
    using release_union_inside [OF c sm dom k _ it] it iter_on_sel(5) [OF it] by auto
  then obtain ok s1 it1 k1 where pre: "?pre = Some (ok, s1, it1, m)" "prog s s1" "iter_on \<Gamma> fs dest k1 it1"
    by blast
  note sel = iter_on_sel [OF pre(3)]
  have st: "static_field (static_msg d \<Gamma>) (msg_fields \<Gamma> fs) sz k1" using static_msg_field [OF sm sel(1)] .
  have at: "PB_ATYPE (type (cur_field \<Gamma> it1)) = PB_ATYPE_STATIC"
    using st sel(5) by (simp add: static_field_def Let_def)
  have "inside_iter \<Gamma> fs dest k1 ?A m s1 (decode_static_field r \<Gamma> m s1 wt it1)"
    using decode_static_inside [OF c st dom prog_buf_in [OF b pre(2)] pre(3)] .
  then have "inside_iter \<Gamma> fs dest k1 ?A m s (decode_static_field r \<Gamma> m s1 wt it1)"
    using inside_iter_after [OF same_except_refl pre(2)] by blast
  moreover have "inside_iter \<Gamma> fs dest k1 ?A m s (Some (False, s1, it1, m))" using pre by simp
  ultimately show ?thesis by (auto simp: decode_field_def pre(1) at Let_def)
qed

section \<open>Unknown fields\<close>

lemma iter_next_on:
  assumes wf: "wf_fields (msg_fields \<Gamma> fs)" and it: "iter_on \<Gamma> fs dest k it"
  shows "\<exists>fc. pb_field_iter_next \<Gamma> it =
    (Suc k < length (msg_fields \<Gamma> fs), iter_at \<Gamma> fs dest fc (Suc k mod length (msg_fields \<Gamma> fs)))"
proof -
  have k: "k < length (msg_fields \<Gamma> fs)" using it by (rule iter_on_sel)
  obtain fc where fc: "it = iter_at \<Gamma> fs dest fc k \<or>
      PB_HTYPE (type (msg_fields \<Gamma> fs ! k)) = PB_HTYPE_REPEATED \<and>
      it = (iter_at \<Gamma> fs dest fc k)\<lparr>pSize := At_fixed_count\<rparr>"
    using it by (auto simp: iter_on_def)
  then have "pb_field_iter_next \<Gamma> it = pb_field_iter_next \<Gamma> (iter_at \<Gamma> fs dest fc k)"
    using k wf_fields_tag [OF wf k] iter_next_psize [of \<Gamma> "iter_at \<Gamma> fs dest fc k"] by auto
  then show ?thesis using iter_next_at [OF wf k, of dest fc] by auto
qed

lemma find_extension_none:
  assumes wf: "wf_fields (msg_fields \<Gamma> fs)" and n: "n = length (msg_fields \<Gamma> fs)" and s: "s < n"
    and ne: "\<forall>k < n. PB_LTYPE (type (msg_fields \<Gamma> fs ! k)) \<noteq> PB_LTYPE_EXTENSION"
    and i: "i < n" and fuel: "n - i \<le> fuel" and it: "iter_on \<Gamma> fs dest ((s + i) mod n) it"
  shows "\<exists>fc. find_extension_loop fuel \<Gamma> s it = Some (False, iter_at \<Gamma> fs dest fc s)"
  using i fuel it
proof (induction "n - i" arbitrary: i fuel it)
  case 0
  then show ?case by simp
next
  case (Suc x)
  let ?k = "(s + i) mod n"
  obtain fuel' where fuel': "fuel = Suc fuel'" using Suc.prems by (cases fuel) auto
  obtain fc where nx: "pb_field_iter_next \<Gamma> it = (Suc ?k < n, iter_at \<Gamma> fs dest fc (Suc ?k mod n))"
    using iter_next_on [OF wf Suc.prems(3)] n by blast
  have km: "Suc ?k mod n = (s + Suc i) mod n" by (simp add: mod_Suc_eq)
  have kn: "?k < n" using s by (intro mod_less_divisor) simp
  then have ext: "PB_LTYPE (type (cur_field \<Gamma> it)) \<noteq> PB_LTYPE_EXTENSION"
    using ne iter_on_sel(5) [OF Suc.prems(3)] by simp
  have unf: "find_extension_loop fuel \<Gamma> s it =
      (if (s + Suc i) mod n = s then Some (False, iter_at \<Gamma> fs dest fc ((s + Suc i) mod n))
       else find_extension_loop fuel' \<Gamma> s (iter_at \<Gamma> fs dest fc ((s + Suc i) mod n)))"
    using ext nx fuel' km by (simp add: Let_def)
  show ?case
  proof (cases "Suc i < n")
    case True
    have "(s + Suc i) mod n \<noteq> s" using True s by (cases "s + Suc i < n") (auto simp: mod_if)
    moreover have "\<exists>fc. find_extension_loop fuel' \<Gamma> s (iter_at \<Gamma> fs dest fc' ((s + Suc i) mod n)) =
        Some (False, iter_at \<Gamma> fs dest fc s)" for fc'
    proof (rule Suc.hyps(1))
      have "(s + Suc i) mod n < length (msg_fields \<Gamma> fs)" using s n by (metis mod_less_divisor not_less_zero neq0_conv)
      then show "iter_on \<Gamma> fs dest ((s + Suc i) mod n) (iter_at \<Gamma> fs dest fc' ((s + Suc i) mod n))"
        by (rule iter_on_at)
    qed (use Suc.hyps(2) Suc.prems True fuel' in auto)
    ultimately show ?thesis using unf by simp
  next
    case False
    then have "Suc i = n" using Suc.prems by simp
    then have "(s + Suc i) mod n = s" using s by simp
    then show ?thesis using unf by auto
  qed
qed

lemma static_no_extension:
  "static_msg d \<Gamma> fs sz \<Longrightarrow>
   \<forall>k < length (msg_fields \<Gamma> fs). PB_LTYPE (type (msg_fields \<Gamma> fs ! k)) \<noteq> PB_LTYPE_EXTENSION"
  by (cases d) (auto simp: static_field_def Let_def)

lemma find_extension_static:
  assumes sm: "static_msg d \<Gamma> fs sz" and it: "iter_on \<Gamma> fs dest k it"
  shows "\<exists>fc. find_extension_field \<Gamma> it = Some (False, iter_at \<Gamma> fs dest fc k)"
proof -
  have k: "k < length (msg_fields \<Gamma> fs)" using it by (rule iter_on_sel)
  have "0 < length (msg_fields \<Gamma> fs)" using k by (rule le_less_trans [OF le0])
  from find_extension_none [OF static_msg_wf [OF sm, THEN conjunct1] refl k static_no_extension [OF sm] this,
      of "Suc (length (msg_fields \<Gamma> fs))" dest it] k it
  show ?thesis unfolding find_extension_field_def iter_on_sel(2,3) [OF it]
    by (simp del: find_extension_loop.simps)
qed

section \<open>The loop over the fields\<close>

definition state_on :: "pb_env \<Rightarrow> addr \<Rightarrow> addr \<Rightarrow> nat \<Rightarrow> decode_state \<Rightarrow> bool" where
  "state_on \<Gamma> fs dest sz st \<longleftrightarrow> buf_in (ds_stream st) \<and> region dest sz \<subseteq> dom (cells (ds_mem st)) \<and>
     (\<exists>k. iter_on \<Gamma> fs dest k (ds_iter st))"

text \<open>\<open>st'\<close> is a later state of the loop.\<close>

definition later :: "pb_env \<Rightarrow> addr \<Rightarrow> addr \<Rightarrow> nat \<Rightarrow> decode_state \<Rightarrow> decode_state \<Rightarrow> bool" where
  "later \<Gamma> fs dest sz st st' \<longleftrightarrow> same_except (region dest sz) (ds_mem st) (ds_mem st') \<and>
     prog (ds_stream st) (ds_stream st') \<and> (\<exists>k. iter_on \<Gamma> fs dest k (ds_iter st'))"

lemma later_trans: "later \<Gamma> fs dest sz st st' \<Longrightarrow> later \<Gamma> fs dest sz st' st'' \<Longrightarrow> later \<Gamma> fs dest sz st st''"
  unfolding later_def using same_except_trans prog_trans by (elim conjE) (intro conjI; assumption?; blast)

lemma later_state_on: "state_on \<Gamma> fs dest sz st \<Longrightarrow> later \<Gamma> fs dest sz st st' \<Longrightarrow> state_on \<Gamma> fs dest sz st'"
  using same_except_dom [of "region dest sz" "ds_mem st" "ds_mem st'"] prog_buf_in
  unfolding state_on_def later_def by blast

lemma mark_required_sel [simp]:
  "ds_stream (mark_required \<Gamma> st) = ds_stream st" "ds_iter (mark_required \<Gamma> st) = ds_iter st"
  "ds_mem (mark_required \<Gamma> st) = ds_mem st"
  by (simp_all add: mark_required_def Let_def)

lemma fixed_iter_on:
  assumes k: "iter_on \<Gamma> fs dest k it"
    and f: "PB_HTYPE (type (cur_field \<Gamma> it)) = PB_HTYPE_REPEATED" "size_is_data it"
  shows "iter_on \<Gamma> fs dest k (it\<lparr>pSize := At_fixed_count\<rparr>)"
    and "iter_on \<Gamma> fs dest k (it\<lparr>fixed_count_size := 0, pSize := At_fixed_count\<rparr>)"
proof -
  obtain fc where fc: "it = iter_at \<Gamma> fs dest fc k"
    using k f(2) by (auto simp: iter_on_def size_is_data_def)
  have e: "it\<lparr>fixed_count_size := 0, pSize := At_fixed_count\<rparr> = (iter_at \<Gamma> fs dest 0 k)\<lparr>pSize := At_fixed_count\<rparr>"
    using fc by (simp add: iter_at_def)
  show "iter_on \<Gamma> fs dest k (it\<lparr>pSize := At_fixed_count\<rparr>)"
    using fc f(1) iter_on_sel(1,5) [OF k] unfolding iter_on_def by auto
  show "iter_on \<Gamma> fs dest k (it\<lparr>fixed_count_size := 0, pSize := At_fixed_count\<rparr>)"
    unfolding e iter_on_def using f(1) iter_on_sel(1,5) [OF k] by auto
qed

lemma known_field_later:
  assumes c: "calls_inside d \<Gamma> r" and sm: "static_msg (Suc d) \<Gamma> fs sz" and st: "state_on \<Gamma> fs dest sz st"
  shows "\<exists>flow st'. known_field r \<Gamma> wt st = Some (flow, st') \<and> later \<Gamma> fs dest sz st st'"
proof -
  let ?it = "ds_iter st"
  obtain k where k: "iter_on \<Gamma> fs dest k ?it" using st by (auto simp: state_on_def)
  let ?fixed = "PB_HTYPE (type (cur_field \<Gamma> ?it)) = PB_HTYPE_REPEATED \<and> size_is_data ?it"
  let ?st = "if ?fixed then
      (if fixed_count_field st \<noteq> Some (pos ?it)
       then st\<lparr>fixed_count_field := Some (pos ?it), ds_iter := ?it\<lparr>fixed_count_size := 0, pSize := At_fixed_count\<rparr>\<rparr>
       else st\<lparr>ds_iter := ?it\<lparr>pSize := At_fixed_count\<rparr>\<rparr>)
      else st"
  have it: "iter_on \<Gamma> fs dest k (ds_iter ?st)" using fixed_iter_on [OF k] k by auto
  have dom: "region dest sz \<subseteq> dom (cells (ds_mem st))" and b: "buf_in (ds_stream st)"
    using st by (auto simp: state_on_def)
  obtain k' where "inside_iter \<Gamma> fs dest k' (region dest sz) (ds_mem st) (ds_stream st)
      (decode_field r \<Gamma> (ds_mem st) (ds_stream st) wt (ds_iter ?st))"
    using decode_field_inside [OF c sm dom b it] by blast
  then obtain ok s' it' m' where
    "decode_field r \<Gamma> (ds_mem st) (ds_stream st) wt (ds_iter ?st) = Some (ok, s', it', m')"
    "same_except (region dest sz) (ds_mem st) m'" "prog (ds_stream st) s'" "iter_on \<Gamma> fs dest k' it'"
    by (auto simp: inside_iter_def)
  moreover have "ds_mem ?st = ds_mem st" "ds_stream ?st = ds_stream st" by simp_all
  ultimately show ?thesis using k unfolding known_field_def Let_def
    by (auto simp: ds_fail_def later_def)
qed

lemma decoded_tag_bound: "pb_decode_tag s = Some (t, s') \<Longrightarrow> t_tag t \<noteq> - 1"
proof -
  have "drop_bit 3 w \<noteq> (- 1 :: u32)" for w
  proof
    assume "drop_bit 3 w = (- 1 :: u32)"
    then have "bit (drop_bit 3 w) 31" by simp
    then show False by (auto simp: bit_simps dest: bit_imp_le_length)
  qed
  then show "pb_decode_tag s = Some (t, s') \<Longrightarrow> t_tag t \<noteq> - 1"
    by (auto simp: pb_decode_tag_def bind_Some_iff split: option.splits if_splits)
qed

lemma unknown_field_later:
  assumes sm: "static_msg (Suc d) \<Gamma> fs sz" and st: "state_on \<Gamma> fs dest sz st" and tg: "tg \<noteq> - 1"
  shows "\<exists>flow st'. unknown_field r \<Gamma> tg wt st = Some (flow, st') \<and> later \<Gamma> fs dest sz st st'"
proof -
  obtain k where k: "iter_on \<Gamma> fs dest k (ds_iter st)" using st by (auto simp: state_on_def)
  obtain fc where fc: "find_extension_field \<Gamma> (ds_iter st) = Some (False, iter_at \<Gamma> fs dest fc k)"
    using find_extension_static [OF sm k] by blast
  have it: "iter_on \<Gamma> fs dest k (iter_at \<Gamma> fs dest fc k)" using iter_on_at iter_on_sel(1) [OF k] by blast
  have "buf_in (ds_stream st)" using st by (simp add: state_on_def)
  then obtain ok s' where sk: "pb_skip_field (ds_stream st) wt = Some (ok, s')" "prog (ds_stream st) s'"
    using skip_field_returns by blast
  have "\<not> (- 1 :: u32) \<le> tg" using tg by (metis word_order.extremum_uniqueI)
  then show ?thesis using fc k it sk
    by (auto simp: unknown_field_def Let_def later_def)
qed

lemma decode_step_later:
  assumes c: "calls_inside d \<Gamma> r" and sm: "static_msg (Suc d) \<Gamma> fs sz" and st: "state_on \<Gamma> fs dest sz st"
  shows "\<exists>flow st'. decode_step r \<Gamma> st = Some (flow, st') \<and> later \<Gamma> fs dest sz st st' \<and>
     (flow = Continue \<longrightarrow> unat (bytes_left (ds_stream st')) < unat (bytes_left (ds_stream st)))"
proof -
  have b: "buf_in (ds_stream st)" using st by (simp add: state_on_def)
  obtain t s1 where t: "pb_decode_tag (ds_stream st) = Some (t, s1)" "prog (ds_stream st) s1"
    "t_ok t \<Longrightarrow> unat (bytes_left s1) < unat (bytes_left (ds_stream st))"
    using tag_returns [OF b] by blast
  obtain k where k: "iter_on \<Gamma> fs dest k (ds_iter st)" using st by (auto simp: state_on_def)
  obtain found k2 it2 where f: "pb_field_iter_find \<Gamma> (ds_iter st) (t_tag t) = Some (found, it2)"
    "iter_on \<Gamma> fs dest k2 it2"
    using iter_find_on [OF static_msg_wf [OF sm, THEN conjunct1] k] by blast
  let ?st = "st\<lparr>ds_stream := s1, ds_iter := it2\<rparr>"
  have l: "later \<Gamma> fs dest sz st ?st" using t(2) f(2) by (auto simp: later_def)
  have so: "state_on \<Gamma> fs dest sz ?st" using later_state_on [OF st l] .
  have tg: "t_tag t \<noteq> - 1" using decoded_tag_bound [OF t(1)] .
  have "\<exists>flow st'. (if \<not> found then unknown_field r \<Gamma> (t_tag t) (t_wire_type t) ?st
      else known_field r \<Gamma> (t_wire_type t) ?st) = Some (flow, st') \<and> later \<Gamma> fs dest sz ?st st'"
    using unknown_field_later [OF sm so tg] known_field_later [OF c sm so] by simp
  then obtain flow st' where r: "(if \<not> found then unknown_field r \<Gamma> (t_tag t) (t_wire_type t) ?st
      else known_field r \<Gamma> (t_wire_type t) ?st) = Some (flow, st')" "later \<Gamma> fs dest sz ?st st'" by blast
  have l': "later \<Gamma> fs dest sz st st'" using l r(2) by (rule later_trans)
  have "unat (bytes_left (ds_stream st')) \<le> unat (bytes_left s1)"
    using r(2) prog_left by (auto simp: later_def)
  moreover have "later \<Gamma> fs dest sz st (st\<lparr>ds_stream := s1\<rparr>)" using t(2) k by (auto simp: later_def)
  ultimately show ?thesis using t(1,3) f(1) r(1) l'
    by (cases "t_ok t") (auto simp: decode_step_def Let_def)
qed

lemma decode_loop_later:
  assumes c: "calls_inside d \<Gamma> r" and sm: "static_msg (Suc d) \<Gamma> fs sz" and st: "state_on \<Gamma> fs dest sz st"
  shows "\<exists>ok st'. decode_loop r \<Gamma> st = Some (ok, st') \<and> later \<Gamma> fs dest sz st st'"
  using st
proof (induction "unat (bytes_left (ds_stream st))" arbitrary: st rule: less_induct)
  case less
  have refl: "later \<Gamma> fs dest sz st st" using less.prems by (auto simp: state_on_def later_def)
  obtain flow st1 where s: "decode_step r \<Gamma> st = Some (flow, st1)" "later \<Gamma> fs dest sz st st1"
    "flow = Continue \<Longrightarrow> unat (bytes_left (ds_stream st1)) < unat (bytes_left (ds_stream st))"
    using decode_step_later [OF c sm less.prems] by blast
  have "\<exists>ok st'. decode_loop r \<Gamma> st1 = Some (ok, st') \<and> later \<Gamma> fs dest sz st1 st'" if "flow = Continue"
    using less.hyps [OF s(3) [OF that]] later_state_on [OF less.prems s(2)] by blast
  then have "\<exists>ok st'. decode_loop r \<Gamma> st1 = Some (ok, st') \<and> later \<Gamma> fs dest sz st st'" if "flow = Continue"
    using that later_trans [OF s(2)] by blast
  then show ?case using s(1,2) refl
    by (subst decode_loop.simps, cases flow) auto
qed

section \<open>The required fields\<close>

lemma seek_end_on:
  assumes wf: "wf_fields (msg_fields \<Gamma> fs)" and it: "iter_on \<Gamma> fs dest k it"
    and fuel: "length (msg_fields \<Gamma> fs) - k \<le> fuel"
  shows "\<exists>fc. seek_end fuel \<Gamma> it =
    Some (req_index (msg_fields \<Gamma> fs) (length (msg_fields \<Gamma> fs) - 1), type (last (msg_fields \<Gamma> fs)),
          iter_at \<Gamma> fs dest fc 0)"
  using it fuel
proof (induction fuel arbitrary: k it)
  case 0
  then show ?case using iter_on_sel(1) [OF "0.prems"(1)] by simp
next
  case (Suc fuel)
  let ?n = "length (msg_fields \<Gamma> fs)"
  note sel = iter_on_sel [OF Suc.prems(1)]
  obtain fc where nx: "pb_field_iter_next \<Gamma> it = (Suc k < ?n, iter_at \<Gamma> fs dest fc (Suc k mod ?n))"
    using iter_next_on [OF wf Suc.prems(1)] by blast
  show ?case
  proof (cases "Suc k < ?n")
    case True
    then show ?thesis using nx Suc.IH [OF iter_on_at [OF True]] Suc.prems(2) by simp
  next
    case False
    then have "Suc k = ?n" using sel(1) by simp
    moreover from this have "msg_fields \<Gamma> fs \<noteq> []" and "k = ?n - 1" by auto
    ultimately show ?thesis using nx sel(5,6) by (auto simp: last_conv_nth)
  qed
qed

lemma required_count_on:
  assumes wf: "wf_fields (msg_fields \<Gamma> fs)" and it: "iter_on \<Gamma> fs dest k it"
  shows "required_count \<Gamma> it = Some (min PB_MAX_REQUIRED_FIELDS (length (filter is_required (msg_fields \<Gamma> fs))))"
proof -
  let ?fs = "msg_fields \<Gamma> fs"
  have ne: "0 < length ?fs" using iter_on_sel(1) [OF it] by (rule le_less_trans [OF le0])
  obtain fc where se: "seek_end (Suc (length ?fs)) \<Gamma> it =
      Some (req_index ?fs (length ?fs - 1), type (last ?fs), iter_at \<Gamma> fs dest fc 0)"
    using seek_end_on [OF wf it, of "Suc (length ?fs)"] by (meson diff_le_self le_SucI)
  have "tag (cur_field \<Gamma> (iter_at \<Gamma> fs dest fc 0)) \<noteq> 0" using ne wf_fields_tag [OF wf ne] by simp
  moreover have "length (filter is_required ?fs) =
      req_index ?fs (length ?fs - 1) + (if is_required (last ?fs) then 1 else 0)"
    using req_index_Suc [of "length ?fs - 1" ?fs] ne by (simp add: req_index_def last_conv_nth)
  ultimately show ?thesis using se iter_on_sel(2) [OF it]
    by (auto simp: required_count_def is_required_def min_def Let_def simp del: seek_end.simps)
qed

section \<open>Messages\<close>

lemma decode_message_inside:
  assumes c: "calls_inside d \<Gamma> r" and sm: "static_msg (Suc d) \<Gamma> fs sz"
    and dom: "region dest sz \<subseteq> dom (cells m)" and b: "buf_in s"
  shows "inside (region dest sz) m s (decode_message r \<Gamma> m s fs dest)"
proof -
  note wf = static_msg_wf [OF sm]
  let ?st = "\<lparr>ds_stream = s, ds_iter = snd (pb_field_iter_begin \<Gamma> empty_iter fs dest), ds_mem = m,
      fields_seen = [0, 0], extension_range_start = 0, fixed_count_field = None\<rparr>"
  have "iter_on \<Gamma> fs dest 0 (snd (pb_field_iter_begin \<Gamma> empty_iter fs dest))"
    using iter_begin_at [of \<Gamma> fs empty_iter dest] wf iter_on_at [of 0 \<Gamma> fs] by simp
  then have so: "state_on \<Gamma> fs dest sz ?st" using dom b by (auto simp: state_on_def)
  obtain ok st' where l: "decode_loop r \<Gamma> ?st = Some (ok, st')" "later \<Gamma> fs dest sz ?st st'"
    using decode_loop_later [OF c sm so] by blast
  obtain k where k: "iter_on \<Gamma> fs dest k (ds_iter st')" using l(2) by (auto simp: later_def)
  show ?thesis using l required_count_on [OF _ k] wf
    by (auto simp: decode_message_def later_def decode_finish_def)
qed

lemma all_calls_inside:
  assumes "\<And>fs sz dest m s. static_msg d \<Gamma> fs sz \<Longrightarrow> region dest sz \<subseteq> dom (cells m) \<Longrightarrow> buf_in s \<Longrightarrow>
      inside (region dest sz) m s (pb_decode_noinit n \<Gamma> m s fs dest)"
    and "d < n"
  shows "calls_inside d \<Gamma> (all_calls n \<Gamma>)"
  using assms defaults_static [of d \<Gamma> _ _ _ _ n] release_static [of d \<Gamma> _ _ _ _ n]
    release_static_field [of d \<Gamma> _ _ _ _ _ n]
  unfolding calls_inside_def all_calls_def
  by (auto simp del: static_msg.simps)

lemma pb_decode_noinit_Suc:
  "pb_decode_noinit (Suc n) \<Gamma> m s fs dest = decode_message (all_calls n \<Gamma>) \<Gamma> m s fs dest"
  by (simp add: all_calls_def)

lemma pb_decode_noinit_inside:
  assumes "static_msg d \<Gamma> fs sz" and "region dest sz \<subseteq> dom (cells m)" and "buf_in s" and "d < n"
  shows "inside (region dest sz) m s (pb_decode_noinit n \<Gamma> m s fs dest)"
  using assms
proof (induction d arbitrary: n fs sz dest m s)
  case 0
  then show ?case by simp
next
  case (Suc d)
  then obtain n' where n: "n = Suc n'" "d < n'" by (cases n) auto
  have "calls_inside d \<Gamma> (all_calls n' \<Gamma>)" using Suc.IH n(2) by (intro all_calls_inside)
  then show ?case unfolding n(1) pb_decode_noinit_Suc
    using Suc.prems by (intro decode_message_inside)
qed

lemma pb_decode_inside:
  assumes "static_msg d \<Gamma> fs sz" and "region dest sz \<subseteq> dom (cells m)" and "buf_in s" and "d < n"
  shows "inside (region dest sz) m s (pb_decode n \<Gamma> m s fs dest)"
proof -
  have "calls_inside d \<Gamma> (all_calls n \<Gamma>)"
    using pb_decode_noinit_inside assms(4) by (intro all_calls_inside)
  then show ?thesis unfolding pb_decode_def using assms(1-3) by (rule inside_decode_init)
qed

lemma delimited_inside:
  assumes b: "buf_in s"
    and dec: "\<And>s. buf_in s \<Longrightarrow> inside A m s (dec m s fs dest)"
  shows "inside A m s (delimited dec m s fs dest)"
  using b
proof (cases rule: make_substream_returns)
  case (fail s')
  then show ?thesis by (simp add: delimited_def)
next
  case (sub s1 sz)
  obtain ok s2 m2 where d: "dec m (s1\<lparr>bytes_left := sz\<rparr>) fs dest = Some (ok, s2, m2)" "same_except A m m2"
    "prog (s1\<lparr>bytes_left := sz\<rparr>) s2"
    using dec [OF sub(6)] by (rule insideE)
  obtain s3 where "pb_close_string_substream (s1\<lparr>bytes_left := bytes_left s1 - sz\<rparr>) s2 = Some (True, s3)"
    "prog s1 s3" using close_substream_returns [OF sub(5,3) d(3)] by blast
  then show ?thesis using sub(1,2) d(1,2) prog_trans by (auto simp: delimited_def)
qed

end
