(* ===== verification/PB_Required.thy ===== *)
theory PB_Required
  imports PB_Decode_Safe
begin

text \<open>
  The field loop of \<open>pb_decode_noinit\<close> as a step relation, the bitmap \<open>fields_seen\<close>, and the check
  that all required fields were present.
\<close>

section \<open>Runs of the field loop\<close>

text \<open>
  A run of the \<open>while\<close> loop from one state to another, with the tags of the fields it has decoded.
\<close>

inductive decode_run :: "calls \<Rightarrow> pb_env \<Rightarrow> decode_state \<Rightarrow> u32 list \<Rightarrow> bool \<Rightarrow> decode_state \<Rightarrow> bool"
  for r :: calls and \<Gamma> :: pb_env where
  run_end: "bytes_left (ds_stream st) = 0 \<Longrightarrow> decode_run r \<Gamma> st [] True st"
| run_break: "bytes_left (ds_stream st) \<noteq> 0 \<Longrightarrow> decode_step r \<Gamma> st = Some (Break, st') \<Longrightarrow>
    decode_run r \<Gamma> st [] True st'"
| run_false: "bytes_left (ds_stream st) \<noteq> 0 \<Longrightarrow> decode_step r \<Gamma> st = Some (Return_false, st') \<Longrightarrow>
    decode_run r \<Gamma> st [] False st'"
| run_next: "bytes_left (ds_stream st) \<noteq> 0 \<Longrightarrow> decode_step r \<Gamma> st = Some (Continue, st1) \<Longrightarrow>
    pb_decode_tag (ds_stream st) = Some (t, s1) \<Longrightarrow> decode_run r \<Gamma> st1 ts ok st' \<Longrightarrow>
    decode_run r \<Gamma> st (t_tag t # ts) ok st'"

inductive_cases decode_runE: "decode_run r \<Gamma> st ts ok st'"

lemma decode_run_loop: "decode_run r \<Gamma> st ts ok st' \<Longrightarrow> decode_loop r \<Gamma> st = Some (ok, st')"
  by (induction rule: decode_run.induct) (subst decode_loop.simps; simp)+

lemma decode_step_Continue:
  "decode_step r \<Gamma> st = Some (Continue, st') \<Longrightarrow> \<exists>t s1. pb_decode_tag (ds_stream st) = Some (t, s1)"
  by (auto simp: decode_step_def bind_Some_iff)

lemma decode_loop_run:
  assumes "decode_loop r \<Gamma> st = Some y"
  shows "\<exists>ts. decode_run r \<Gamma> st ts (fst y) (snd y)"
proof (rule decode_loop.raw_induct
    [where P = "\<lambda>r \<Gamma> st y. \<exists>ts. decode_run r \<Gamma> st ts (fst y) (snd y)", OF _ assms])
  fix loop r \<Gamma> st y
  assume IH: "\<And>r \<Gamma> st y. loop r \<Gamma> st = Some y \<Longrightarrow> \<exists>ts. decode_run r \<Gamma> st ts (fst y) (snd y)"
    and body: "(if bytes_left (ds_stream st) = 0 then Some (True, st)
      else do { (flow, st) \<leftarrow> decode_step r \<Gamma> st;
        case flow of Continue \<Rightarrow> loop r \<Gamma> st | Break \<Rightarrow> Some (True, st) | Return_false \<Rightarrow> Some (False, st) }) = Some y"
  show "\<exists>ts. decode_run r \<Gamma> st ts (fst y) (snd y)"
  proof (cases "bytes_left (ds_stream st) = 0")
    case True
    then show ?thesis using body run_end by fastforce
  next
    case False
    with body obtain flow st1 where s: "decode_step r \<Gamma> st = Some (flow, st1)" by (auto simp: bind_Some_iff)
    show ?thesis
    proof (cases flow)
      case Continue
      then obtain ts where "decode_run r \<Gamma> st1 ts (fst y) (snd y)" using IH body s False by fastforce
      then show ?thesis using s False Continue decode_step_Continue [of r \<Gamma> st st1] run_next by blast
    next
      case Break
      then show ?thesis using body s False run_break by fastforce
    next
      case Return_false
      then show ?thesis using body s False run_false by fastforce
    qed
  qed
qed

lemma decode_run_iff: "decode_loop r \<Gamma> st = Some (ok, st') \<longleftrightarrow> (\<exists>ts. decode_run r \<Gamma> st ts ok st')"
  using decode_run_loop decode_loop_run by fastforce

section \<open>The bitmap\<close>

definition seen_bit :: "u32 list \<Rightarrow> nat \<Rightarrow> bool" where
  "seen_bit seen i \<longleftrightarrow> bit (seen ! (i div 32)) (i mod 32)"

lemma seen_bit_mark:
  assumes "length seen = 2" and "i < 64" and "j < 64"
  shows "seen_bit (seen[j div 32 := seen ! (j div 32) OR push_bit (j mod 32) 1]) i \<longleftrightarrow>
     seen_bit seen i \<or> i = j"
proof (cases "i div 32 = j div 32")
  case True
  then have "i = j \<longleftrightarrow> i mod 32 = j mod 32" by (metis div_mult_mod_eq)
  moreover have "j div 32 < 2" using assms(3) by auto
  ultimately show ?thesis using True assms(1)
    by (auto simp: seen_bit_def bit_simps)
next
  case False
  then have "i \<noteq> j" by auto
  then show ?thesis using False by (simp add: seen_bit_def)
qed

lemma all_bits_iff: "w = (- 1 :: u32) \<longleftrightarrow> (\<forall>i < 32. bit w i)"
  by (auto simp: bit_eq_iff bit_simps dest: bit_imp_le_length)

lemma low_bits_iff:
  assumes "0 < n" and "n < 32" and "\<forall>i < 32. bit w i \<longrightarrow> i < n"
  shows "w = drop_bit (32 - n) (- 1 :: u32) \<longleftrightarrow> (\<forall>i < n. bit w i)"
proof -
  have "w = drop_bit (32 - n) (- 1 :: u32) \<longleftrightarrow> (\<forall>i < 32. bit w i \<longleftrightarrow> i < n)"
    using assms(1,2) by (auto simp: bit_eq_iff bit_simps)
  then show ?thesis using assms by auto
qed

lemma all_seen_iff:
  assumes "length seen = 2" and "n \<le> 64" and "\<And>i. i < 64 \<Longrightarrow> seen_bit seen i \<Longrightarrow> i < n"
  shows "all_seen seen n \<longleftrightarrow> (\<forall>i < n. seen_bit seen i)"
proof -
  let ?q = "n div 32" and ?r = "n mod 32"
  have n: "n = 32 * ?q + ?r" by simp
  have whole: "list_all (\<lambda>i. seen ! i = - 1) [0..<?q] \<longleftrightarrow> (\<forall>i < 32 * ?q. seen_bit seen i)"
  proof -
    have "(\<forall>i < 32 * ?q. seen_bit seen i) \<longleftrightarrow> (\<forall>a < ?q. \<forall>b < 32. bit (seen ! a) b)"
    proof (intro iffI allI impI)
      fix a b :: nat assume s: "\<forall>i < 32 * ?q. seen_bit seen i" and ab: "a < ?q" "b < 32"
      have "32 * a + b < 32 * ?q" using ab by linarith
      with s have "seen_bit seen (32 * a + b)" by blast
      then show "bit (seen ! a) b" using ab by (simp add: seen_bit_def)
    next
      fix i assume s: "\<forall>a < ?q. \<forall>b < 32. bit (seen ! a) b" and i: "i < 32 * ?q"
      have "i div 32 < ?q" using i by (simp add: less_mult_imp_div_less mult.commute)
      then show "seen_bit seen i" using s by (simp add: seen_bit_def)
    qed
    then show ?thesis by (auto simp: list_all_iff all_bits_iff)
  qed
  have part: "seen ! ?q = drop_bit (32 - ?r) (- 1) \<longleftrightarrow> (\<forall>b < ?r. bit (seen ! ?q) b)" if "?r \<noteq> 0"
  proof (rule low_bits_iff)
    show "0 < ?r" "?r < 32" using that by auto
    show "\<forall>b < 32. bit (seen ! ?q) b \<longrightarrow> b < ?r"
    proof (intro allI impI)
      fix b :: nat assume b: "b < 32" "bit (seen ! ?q) b"
      have "0 < ?r" using that by auto
      then have "?q < 2" using assms(2) n by linarith
      then have "32 * ?q + b < 64" using b by linarith
      moreover have "seen_bit seen (32 * ?q + b)" using b by (simp add: seen_bit_def)
      ultimately have "32 * ?q + b < n" by (rule assms(3))
      then show "b < ?r" using n by linarith
    qed
  qed
  have rest: "(\<forall>b < ?r. bit (seen ! ?q) b) \<longleftrightarrow> (\<forall>b < ?r. seen_bit seen (32 * ?q + b))"
    by (simp add: seen_bit_def)
  have lt: "i < 32 * ?q \<Longrightarrow> i < n" "b < ?r \<Longrightarrow> 32 * ?q + b < n" for i b
    using n by linarith+
  have "(\<forall>i < n. seen_bit seen i) \<longleftrightarrow> (\<forall>i < 32 * ?q. seen_bit seen i) \<and> (\<forall>b < ?r. seen_bit seen (32 * ?q + b))"
  proof (intro iffI conjI allI impI; (elim conjE)?)
    fix i assume "\<forall>i < 32 * ?q. seen_bit seen i" "\<forall>b < ?r. seen_bit seen (32 * ?q + b)" "i < n"
    moreover have "i < 32 * ?q \<or> i = 32 * ?q + (i - 32 * ?q) \<and> i - 32 * ?q < ?r" using \<open>i < n\<close> n by linarith
    ultimately show "seen_bit seen i" by metis
  qed (use lt in auto)
  then show ?thesis using whole part rest by (auto simp: all_seen_def)
qed

section \<open>What a step marks\<close>

lemma known_field_seen:
  assumes "known_field r \<Gamma> wt st = Some (Continue, st')"
  shows "fields_seen st' = fields_seen (mark_required \<Gamma> st)"
  using assms by (auto simp: known_field_def ds_fail_def Let_def bind_Some_iff mark_required_def
      cur_field_def split: if_splits)

lemma known_field_flow: "known_field r \<Gamma> wt st = Some (flow, st') \<Longrightarrow> flow \<noteq> Break"
  by (auto simp: known_field_def ds_fail_def Let_def bind_Some_iff split: if_splits)

lemma unknown_field_seen:
  assumes "unknown_field r \<Gamma> tg wt st = Some (flow, st')"
  shows "flow \<noteq> Break" and "fields_seen st' = fields_seen st"
proof -
  let ?e = "if tg \<ge> extension_range_start st then
      do {
        (found, it) \<leftarrow> find_extension_field \<Gamma> (ds_iter st);
        let st = st\<lparr>ds_iter := it,
                    extension_range_start := (if \<not> found then - 1 else tag (cur_field \<Gamma> it))\<rparr>;
        if tg \<ge> extension_range_start st then
          do {
            (ok, s, m) \<leftarrow> decode_extension r \<Gamma> (ds_mem st) (ds_stream st) tg wt it;
            Some (bytes_left s \<noteq> bytes_left (ds_stream st), ok, st\<lparr>ds_stream := s, ds_mem := m\<rparr>)
          }
        else Some (False, True, st)
      }
    else Some (False, True, st)"
  have e: "fields_seen st1 = fields_seen st" if "?e = Some (h, ok, st1)" for h ok st1
    using that by (auto simp: Let_def bind_Some_iff simp del: word_order.extremum_unique split: if_splits)
  obtain h ok st1 where st1: "?e = Some (h, ok, st1)"
    using assms unfolding unknown_field_def by (cases ?e) auto
  then have "flow \<noteq> Break \<and> fields_seen st' = fields_seen st1"
    using assms unfolding unknown_field_def st1 by (auto simp: bind_Some_iff split: if_splits)
  then show "flow \<noteq> Break" and "fields_seen st' = fields_seen st" using e [OF st1] by auto
qed

lemma decode_step_break:
  "decode_step r \<Gamma> st = Some (Break, st') \<Longrightarrow> fields_seen st' = fields_seen st"
  by (auto simp: decode_step_def Let_def bind_Some_iff split: if_splits
      dest: known_field_flow unknown_field_seen(1))

text \<open>The fields whose bit a tag sets.\<close>

definition required_with_tag :: "pb_field_t list \<Rightarrow> u32 \<Rightarrow> nat \<Rightarrow> bool" where
  "required_with_tag fl tg i \<longleftrightarrow>
     (\<exists>k < length fl. is_required (fl ! k) \<and> req_index fl k = i \<and> tag (fl ! k) = tg)"

lemma mark_required_seen:
  assumes it: "iter_on \<Gamma> fs dest k (ds_iter st)" and tg: "matches tg (msg_fields \<Gamma> fs ! k)"
    and di: "distinct (map tag (msg_fields \<Gamma> fs))" and len: "length (fields_seen st) = 2"
  shows "length (fields_seen (mark_required \<Gamma> st)) = 2"
    and "i < 64 \<Longrightarrow> seen_bit (fields_seen (mark_required \<Gamma> st)) i \<longleftrightarrow>
           seen_bit (fields_seen st) i \<or> required_with_tag (msg_fields \<Gamma> fs) tg i"
proof -
  let ?fl = "msg_fields \<Gamma> fs"
  note sel = iter_on_sel [OF it]
  have "required_with_tag ?fl tg i \<longleftrightarrow> is_required (?fl ! k) \<and> req_index ?fl k = i"
    using di tg sel(1) by (auto simp: required_with_tag_def matches_def distinct_conv_nth)
  then show "i < 64 \<Longrightarrow> seen_bit (fields_seen (mark_required \<Gamma> st)) i \<longleftrightarrow>
      seen_bit (fields_seen st) i \<or> required_with_tag ?fl tg i"
    using seen_bit_mark [OF len] sel
    by (auto simp: mark_required_def Let_def is_required_def)
  show "length (fields_seen (mark_required \<Gamma> st)) = 2"
    using len by (simp add: mark_required_def Let_def)
qed

lemma decode_step_seen:
  assumes sm: "static_msg (Suc d) \<Gamma> fs sz" and st: "state_on \<Gamma> fs dest sz st"
    and di: "distinct (map tag (msg_fields \<Gamma> fs))" and len: "length (fields_seen st) = 2"
    and step: "decode_step r \<Gamma> st = Some (Continue, st')" "pb_decode_tag (ds_stream st) = Some (t, s1)"
  shows "length (fields_seen st') = 2 \<and> (\<forall>i < 64. seen_bit (fields_seen st') i \<longleftrightarrow>
           seen_bit (fields_seen st) i \<or> required_with_tag (msg_fields \<Gamma> fs) (t_tag t) i)"
proof -
  obtain k where k: "iter_on \<Gamma> fs dest k (ds_iter st)" using st by (auto simp: state_on_def)
  obtain found k2 it2 where f: "pb_field_iter_find \<Gamma> (ds_iter st) (t_tag t) = Some (found, it2)"
    "iter_on \<Gamma> fs dest k2 it2" "found_on (msg_fields \<Gamma> fs) (t_tag t) found k2"
    using iter_find_on [OF static_msg_wf [OF sm, THEN conjunct1] k] by blast
  let ?st = "st\<lparr>ds_stream := s1, ds_iter := it2\<rparr>"
  have body: "(if \<not> found then unknown_field r \<Gamma> (t_tag t) (t_wire_type t) ?st
      else known_field r \<Gamma> (t_wire_type t) ?st) = Some (Continue, st')"
    using step f(1) by (auto simp: decode_step_def Let_def split: if_splits)
  show ?thesis
  proof (cases found)
    case True
    have "fields_seen st' = fields_seen (mark_required \<Gamma> ?st)"
      using known_field_seen body True by simp
    then show ?thesis using True f(3) mark_required_seen [of \<Gamma> fs dest k2 ?st "t_tag t"] f(2) di len
      by (simp add: found_on_def)
  next
    case False
    then have "fields_seen st' = fields_seen st" using unknown_field_seen body by fastforce
    moreover have "\<not> required_with_tag (msg_fields \<Gamma> fs) (t_tag t) i" for i
      using False f(3) static_no_extension [OF sm] by (auto simp: found_on_def matches_def required_with_tag_def)
    ultimately show ?thesis using len by simp
  qed
qed

lemma decode_run_seen:
  assumes c: "calls_inside d \<Gamma> r" and sm: "static_msg (Suc d) \<Gamma> fs sz"
    and di: "distinct (map tag (msg_fields \<Gamma> fs))"
    and run: "decode_run r \<Gamma> st ts ok st'" and "ok" and "state_on \<Gamma> fs dest sz st" and "length (fields_seen st) = 2"
  shows "length (fields_seen st') = 2 \<and> (\<forall>i < 64. seen_bit (fields_seen st') i \<longleftrightarrow>
           seen_bit (fields_seen st) i \<or> (\<exists>tg \<in> set ts. required_with_tag (msg_fields \<Gamma> fs) tg i))"
  using assms(4-)
proof (induction rule: decode_run.induct)
  case (run_next st st1 t s1 ts ok st')
  have "state_on \<Gamma> fs dest sz st1"
    using decode_step_later [OF c sm run_next.prems(2)] later_state_on [OF run_next.prems(2)] run_next.hyps(2) by fastforce
  then show ?case using run_next.IH run_next.prems
      decode_step_seen [OF sm run_next.prems(2) di run_next.prems(3) run_next.hyps(2,3)] by auto
qed (auto dest: decode_step_break)

section \<open>The check\<close>

lemma required_nth:
  "i < length (filter is_required fl) \<Longrightarrow> \<exists>k < length fl. is_required (fl ! k) \<and> req_index fl k = i"
proof (induction fl rule: rev_induct)
  case Nil
  then show ?case by simp
next
  case (snoc f fl)
  show ?case
  proof (cases "i < length (filter is_required fl)")
    case True
    then obtain k where "k < length fl" "is_required (fl ! k)" "req_index fl k = i" using snoc.IH by blast
    then show ?thesis by (intro exI [of _ k]) (simp add: nth_append req_index_def)
  next
    case False
    then show ?thesis using snoc.prems
      by (intro exI [of _ "length fl"]) (auto simp: nth_append req_index_def split: if_splits)
  qed
qed

lemma req_index_less:
  assumes "k < length fl" and "is_required (fl ! k)"
  shows "req_index fl k < length (filter is_required fl)"
proof -
  have "filter is_required fl = filter is_required (take k fl) @ fl ! k # filter is_required (drop (Suc k) fl)"
    using id_take_nth_drop [OF assms(1)] assms(2) by (metis filter.simps(2) filter_append)
  then show ?thesis by (simp add: req_index_def)
qed

lemma req_index_inj:
  assumes "k < length fl" "j < length fl" "is_required (fl ! k)" "is_required (fl ! j)" "req_index fl k = req_index fl j"
  shows "k = j"
proof -
  have "req_index fl a < req_index fl b" if "a < b" "b < length fl" "is_required (fl ! a)" for a b
    using req_index_less [of a "take b fl"] that by (simp add: req_index_def min_def)
  then show ?thesis using assms by (metis less_irrefl nat_neq_iff)
qed

text \<open>Every required field among the first \<open>PB_MAX_REQUIRED_FIELDS\<close> has its tag in the list.\<close>

definition required_present :: "pb_field_t list \<Rightarrow> u32 list \<Rightarrow> bool" where
  "required_present fl ts \<longleftrightarrow>
     (\<forall>k < length fl. is_required (fl ! k) \<and> req_index fl k < PB_MAX_REQUIRED_FIELDS \<longrightarrow> tag (fl ! k) \<in> set ts)"

lemma all_seen_present:
  assumes len: "length seen = 2"
    and bits: "\<And>i. i < 64 \<Longrightarrow> seen_bit seen i \<longleftrightarrow> (\<exists>tg \<in> set ts. required_with_tag fl tg i)"
  shows "all_seen seen (min PB_MAX_REQUIRED_FIELDS (length (filter is_required fl))) \<longleftrightarrow> required_present fl ts"
proof -
  let ?n = "min PB_MAX_REQUIRED_FIELDS (length (filter is_required fl))"
  have "all_seen seen ?n \<longleftrightarrow> (\<forall>i < ?n. seen_bit seen i)"
  proof (rule all_seen_iff [OF len])
    show "?n \<le> 64" by simp
    show "i < ?n" if "i < 64" "seen_bit seen i" for i
      using that bits req_index_less by (auto simp: required_with_tag_def)
  qed
  also have "\<dots> \<longleftrightarrow> (\<forall>i < ?n. \<exists>k < length fl. is_required (fl ! k) \<and> req_index fl k = i \<and> tag (fl ! k) \<in> set ts)"
  proof -
    have "(\<exists>tg \<in> set ts. required_with_tag fl tg i) \<longleftrightarrow>
        (\<exists>k < length fl. is_required (fl ! k) \<and> req_index fl k = i \<and> tag (fl ! k) \<in> set ts)" for i
      unfolding required_with_tag_def by blast
    then show ?thesis using bits by simp
  qed
  also have "\<dots> \<longleftrightarrow> required_present fl ts"
    using required_nth req_index_less req_index_inj unfolding required_present_def
    by (smt (verit, best) min_less_iff_conj)
  finally show ?thesis .
qed

text \<open>The state in which \<open>pb_decode_noinit\<close> enters its loop.\<close>

definition start_state :: "pb_env \<Rightarrow> mem \<Rightarrow> pb_istream_t \<Rightarrow> addr \<Rightarrow> addr \<Rightarrow> decode_state" where
  "start_state \<Gamma> m s fs dest =
     \<lparr>ds_stream = s, ds_iter = snd (pb_field_iter_begin \<Gamma> empty_iter fs dest), ds_mem = m,
      fields_seen = [0, 0], extension_range_start = 0, fixed_count_field = None\<rparr>"

lemma start_state_on:
  assumes sm: "static_msg d \<Gamma> fs sz" and dom: "region dest sz \<subseteq> dom (cells m)" and b: "buf_in s"
  shows "state_on \<Gamma> fs dest sz (start_state \<Gamma> m s fs dest)"
proof -
  have "iter_on \<Gamma> fs dest 0 (snd (pb_field_iter_begin \<Gamma> empty_iter fs dest))"
    using iter_begin_at [of \<Gamma> fs empty_iter dest] static_msg_wf [OF sm] iter_on_at [of 0 \<Gamma> fs] by simp
  then show ?thesis using dom b by (auto simp: state_on_def start_state_def)
qed

lemma decode_message_required:
  assumes c: "calls_inside d \<Gamma> r" and sm: "static_msg (Suc d) \<Gamma> fs sz"
    and dom: "region dest sz \<subseteq> dom (cells m)" and b: "buf_in s" and di: "distinct (map tag (msg_fields \<Gamma> fs))"
    and run: "decode_run r \<Gamma> (start_state \<Gamma> m s fs dest) ts True st"
  shows "decode_message r \<Gamma> m s fs dest =
    (if \<not> fixed_count_complete \<Gamma> st then d_error (ds_mem st) (ds_stream st) ''wrong size for fixed count field''
     else if \<not> required_present (msg_fields \<Gamma> fs) ts then d_error (ds_mem st) (ds_stream st) ''missing required field''
     else Some (True, ds_stream st, ds_mem st))"
proof -
  let ?st = "start_state \<Gamma> m s fs dest"
  have so: "state_on \<Gamma> fs dest sz ?st" using sm dom b by (rule start_state_on)
  have l: "decode_loop r \<Gamma> ?st = Some (True, st)" using run by (rule decode_run_loop)
  obtain k where k: "iter_on \<Gamma> fs dest k (ds_iter st)"
    using decode_loop_later [OF c sm so] l by (auto simp: later_def)
  have "length (fields_seen ?st) = 2" "\<not> seen_bit (fields_seen ?st) i" if "i < 64" for i
    using that by (auto simp: start_state_def seen_bit_def nth_Cons' less_mult_imp_div_less)
  then have "length (fields_seen st) = 2 \<and> (\<forall>i < 64. seen_bit (fields_seen st) i \<longleftrightarrow>
      (\<exists>tg \<in> set ts. required_with_tag (msg_fields \<Gamma> fs) tg i))"
    using decode_run_seen [OF c sm di run _ so] by (simp add: start_state_def)
  then have "all_seen (fields_seen st) (min PB_MAX_REQUIRED_FIELDS (length (filter is_required (msg_fields \<Gamma> fs))))
      \<longleftrightarrow> required_present (msg_fields \<Gamma> fs) ts"
    by (intro all_seen_present) auto
  then show ?thesis using l required_count_on [OF _ k] static_msg_wf [OF sm]
    by (simp add: decode_message_def decode_finish_def start_state_def)
qed

end
