(* ===== verification/PB_Decode_Correct.thy ===== *)
theory PB_Decode_Correct
  imports PB_Required PB_Encode_Correct
begin

text \<open>
  What the decoding helpers and the decoder guarantee to their callers: round trips with the
  encoder, what is consumed, and memory safety on arbitrary input.
\<close>

section \<open>From an output buffer to an input stream\<close>

lemma buf_in_from_buffer: "unat n \<le> length buf \<Longrightarrow> buf_in (pb_istream_from_buffer buf n)"
  by (simp add: buf_in_def enough_def pb_istream_from_buffer_def)

lemma pending_from_buffer: "pending (pb_istream_from_buffer buf n) = take (unat n) buf"
  by (simp add: pending_def pb_istream_from_buffer_def)

text \<open>The stream a reader opens on the bytes a writer has left in its buffer.\<close>

definition reopen :: "pb_ostream_t \<Rightarrow> pb_istream_t" where
  "reopen s = pb_istream_from_buffer (obuf (o_state s)) (bytes_written s)"

lemma written_reopen:
  assumes imp: "implements f (Some (Some w))" and buf: "length buf < 2 ^ 63" "unat cap \<le> length buf"
    and fits: "length w \<le> unat cap"
  obtains s' where "f (pb_ostream_from_buffer buf cap) = Some (True, s')"
    "buf_in (reopen s')" "pending (reopen s') = w" "unat (bytes_left (reopen s')) = length w"
proof -
  let ?s = "\<lparr>o_callback = OC_buf_write, o_state = \<lparr>obuf = w @ drop (length w) buf, opos = length w\<rparr>,
      max_size = cap, bytes_written = of_nat (length w), o_errmsg = None\<rparr>"
  have n: "unat (of_nat (length w) :: size_t) = length w" using buf fits by (simp add: unat_of_nat_64)
  have "f (pb_ostream_from_buffer buf cap) = Some (True, ?s)"
    using implements_buffer [OF imp buf] fits by simp
  moreover have "buf_in (reopen ?s)" "pending (reopen ?s) = w" "unat (bytes_left (reopen ?s)) = length w"
    using n by (simp_all add: reopen_def buf_in_from_buffer pending_from_buffer)
      (simp add: pb_istream_from_buffer_def)
  ultimately show ?thesis using that by blast
qed

lemma all_read:
  assumes "unat (bytes_left s) = n"
  shows "bytes_left (adv s n) = 0"
  using assms unat_bytes_left_adv [of n s] by (simp add: unat_eq_0)

lemma extended32:
  fixes w :: u32
  assumes "v = ucast w \<or> v = scast w"
  shows "((v :: u64) < 2 ^ 32 \<or> drop_bit 31 v = mask 33) \<and> ucast v = w"
proof (cases "v = ucast w")
  case True
  then have "unat v < 2 ^ 32" using unat_lt_32 [of w] by (simp add: unat_ucast_32)
  then have "v < 2 ^ 32" by (simp add: word_less_nat_alt)
  moreover have "ucast v = w" unfolding True by (rule bit_word_eqI) (auto simp: bit_simps)
  ultimately show ?thesis by simp
next
  case False
  then have v: "v = scast w" using assms by simp
  have "bit w 31"
  proof (rule ccontr)
    assume "\<not> bit w 31"
    moreover have "n = 31" if "bit w n" "31 \<le> n" for n
      using bit_imp_le_length [OF that(1)] that(2) by simp
    ultimately have "v = ucast w" unfolding v
      by (intro bit_word_eqI) (auto simp: bit_simps min_def not_less)
    then show False using False by simp
  qed
  then have "drop_bit 31 v = mask 33" unfolding v
    by (intro bit_word_eqI) (auto simp: bit_simps min_def)
  moreover have "ucast v = w" unfolding v
    by (rule bit_word_eqI, case_tac "n = 31") (auto simp: bit_simps min_def)
  ultimately show ?thesis by simp
qed

lemma vlen_append: "vlen xs = Some k \<Longrightarrow> vlen (xs @ ys) = Some k"
  by (induction xs arbitrary: k) (auto split: if_splits)

section \<open>Properties of the helpers\<close>

text \<open>
  Every 64-bit value survives \<open>pb_encode_varint\<close> followed by \<open>pb_decode_varint\<close>, which
  consumes exactly the bytes that were written.
\<close>

lemma varint_roundtrip:
  assumes "length buf < 2 ^ 63" and "unat cap \<le> length buf" and "10 \<le> unat cap"
  shows "\<exists>s' t. pb_encode_varint (pb_ostream_from_buffer buf cap) v = Some (True, s') \<and>
     pb_decode_varint (reopen s') = Some (Some v, t) \<and> bytes_left t = 0"
proof -
  have "length (varint v) \<le> unat cap" using length_varint [of v] assms(3) by simp
  then obtain s' where s': "pb_encode_varint (pb_ostream_from_buffer buf cap) v = Some (True, s')"
    "buf_in (reopen s')" "pending (reopen s') = varint v" "unat (bytes_left (reopen s')) = length (varint v)"
    using written_reopen [OF implements_varint assms(1,2)] by blast
  then show ?thesis using buffer_source.decode_varint_varint [OF s'(2), of v "[]"] all_read [OF s'(4)] by auto
qed

text \<open>
  Every signed 64-bit value survives the zigzag encoding of \<open>pb_encode_svarint\<close> followed by
  \<open>pb_decode_svarint\<close>.
\<close>

lemma svarint_roundtrip:
  assumes "length buf < 2 ^ 63" and "unat cap \<le> length buf" and "10 \<le> unat cap"
  shows "\<exists>s' t. pb_encode_svarint (pb_ostream_from_buffer buf cap) v = Some (True, s') \<and>
     pb_decode_svarint (reopen s') = Some (Some v, t) \<and> bytes_left t = 0"
proof -
  have "length (varint (zigzag v)) \<le> unat cap" using length_varint [of "zigzag v"] assms(3) by simp
  moreover have "implements (\<lambda>s. pb_encode_svarint s v) (Some (Some (varint (zigzag v))))"
    using implements_varint [of "zigzag v"] by (simp add: pb_encode_svarint_def zigzag_def)
  ultimately obtain s' where s': "pb_encode_svarint (pb_ostream_from_buffer buf cap) v = Some (True, s')"
    "buf_in (reopen s')" "pending (reopen s') = varint (zigzag v)"
    "unat (bytes_left (reopen s')) = length (varint (zigzag v))"
    using written_reopen [where f = "\<lambda>s. pb_encode_svarint s v", OF _ assms(1,2)] by blast
  then show ?thesis
    using buffer_source.decode_svarint_varint [OF s'(2), of v "[]"] all_read [OF s'(4)] by auto
qed

text \<open>
  A tag written by \<open>pb_encode_tag\<close> is read back by \<open>pb_decode_tag\<close>: every field number from
  1 to \<open>2^29 - 1\<close> with every wire type.
\<close>

lemma tag_roundtrip:
  assumes "length buf < 2 ^ 63" and "unat cap \<le> length buf" and "10 \<le> unat cap"
    and "wt < 8" and "0 < tg" and "tg < 2 ^ 29"
  shows "\<exists>s' t. pb_encode_tag (pb_ostream_from_buffer buf cap) wt tg = Some (True, s') \<and>
     pb_decode_tag (reopen s') =
       Some (\<lparr>t_ok = True, t_wire_type = wt, t_tag = tg, t_eof = False\<rparr>, t) \<and> bytes_left t = 0"
proof -
  let ?w = "varint (tag_value wt tg)"
  have "length ?w \<le> unat cap" using length_varint [of "tag_value wt tg"] assms(3) by simp
  then obtain s' where s': "pb_encode_tag (pb_ostream_from_buffer buf cap) wt tg = Some (True, s')"
    "buf_in (reopen s')" "pending (reopen s') = ?w" "unat (bytes_left (reopen s')) = length ?w"
    using written_reopen [OF implements_tag assms(1,2)] by blast
  then show ?thesis
    using buffer_source.decode_tag_varint [OF s'(2) _ assms(4-6), of "[]"] all_read [OF s'(4)] by auto
qed

text \<open>
  C8. What \<open>pb_decode_varint\<close> returns on every buffer: with at most ten bytes up to and including
  the first one without continuation bit, the seven-bit groups of those bytes, assembled modulo
  \<open>2^64\<close>; after ten bytes with continuation bit, an overflow error; at the end of the data, an
  end-of-stream error. It always returns.
\<close>

theorem pb_decode_varint_exact:
  assumes "unat n \<le> length buf"
  shows "pb_decode_varint (pb_istream_from_buffer buf n) =
     (case vlen (take 10 (take (unat n) buf)) of
        Some k \<Rightarrow> Some (Some (vval (take k buf)), adv (pb_istream_from_buffer buf n) k)
      | None \<Rightarrow>
          if 10 \<le> unat n
          then Some (None, i_error (adv (pb_istream_from_buffer buf n) 10) ''varint overflow'')
          else Some (None, i_error (adv (pb_istream_from_buffer buf n) (unat n)) ''end-of-stream''))"
proof -
  have len: "length (take (unat n) buf) = unat n" using assms by simp
  have "take k (take (unat n) buf) = take k buf" if "vlen (take 10 (take (unat n) buf)) = Some k" for k
    using vlen_le [OF that] len by (simp add: min_absorb1)
  then show ?thesis
    unfolding buffer_source.decode_varint_result [OF buf_in_from_buffer [OF assms]] varint_result_def
      pending_from_buffer len
    by (cases "vlen (take 10 (take (unat n) buf))") simp_all
qed

theorem pb_decode_varint_exact_witness:
  "pb_decode_varint (pb_istream_from_buffer [0xAC, 0x02, 0x55] 3) =
     Some (Some 300, adv (pb_istream_from_buffer [0xAC, 0x02, 0x55] 3) (Suc (Suc 0)))"
  using pb_decode_varint_exact [of 3 "[0xAC, 0x02, 0x55]"] by simp

text \<open>
  The 32-bit decoder inverts the encoder on every value a 32-bit field can hold: on the
  encoding of an unsigned 32-bit value, and on the ten-byte encoding of a sign-extended negative
  one, it delivers the low 32 bits.
\<close>

lemma varint32_roundtrip:
  assumes "length buf < 2 ^ 63" and "unat cap \<le> length buf" and "10 \<le> unat cap"
    and "v = ucast w \<or> v = scast w"
  shows "\<exists>s' t. pb_encode_varint (pb_ostream_from_buffer buf cap) v = Some (True, s') \<and>
     pb_decode_varint32 (reopen s') = Some (Some w, t) \<and> bytes_left t = 0"
proof -
  have "length (varint v) \<le> unat cap" using length_varint [of v] assms(3) by simp
  then obtain s' where s': "pb_encode_varint (pb_ostream_from_buffer buf cap) v = Some (True, s')"
    "buf_in (reopen s')" "pending (reopen s') = varint v" "unat (bytes_left (reopen s')) = length (varint v)"
    using written_reopen [OF implements_varint assms(1,2)] by blast
  have "(v < 2 ^ 32 \<or> drop_bit 31 v = mask 33) \<and> ucast v = w" using extended32 [OF assms(4)] .
  then show ?thesis
    using s'(1) buffer_source.decode_varint32_varint [OF s'(2), of v "[]"] s'(3) all_read [OF s'(4)] by auto
qed

text \<open>
  C7. Numbers survive encoding and decoding, and the decoder reads exactly the bytes that were written:
  every varint; every signed value with the zigzag encoding of \<open>pb_encode_svarint\<close>; every tag with a field
  number from 1 to \<open>2^29 - 1\<close> and any wire type; and every 32-bit value that the encoder extended to 64 bits,
  with or without sign.
\<close>

theorem numbers_roundtrip:
  assumes "length buf < 2 ^ 63" and "unat cap \<le> length buf" and "10 \<le> unat cap"
    and "wt < 8" and "0 < tg" and "tg < 2 ^ 29" and "x = ucast w \<or> x = scast w"
  defines "out \<equiv> pb_ostream_from_buffer buf cap"
  shows "(\<exists>s' t. pb_encode_varint out v = Some (True, s') \<and>
       pb_decode_varint (reopen s') = Some (Some v, t) \<and> bytes_left t = 0) \<and>
     (\<exists>s' t. pb_encode_svarint out i = Some (True, s') \<and>
       pb_decode_svarint (reopen s') = Some (Some i, t) \<and> bytes_left t = 0) \<and>
     (\<exists>s' t. pb_encode_tag out wt tg = Some (True, s') \<and>
       pb_decode_tag (reopen s') = Some (\<lparr>t_ok = True, t_wire_type = wt, t_tag = tg, t_eof = False\<rparr>, t) \<and> bytes_left t = 0) \<and>
     (\<exists>s' t. pb_encode_varint out x = Some (True, s') \<and>
       pb_decode_varint32 (reopen s') = Some (Some w, t) \<and> bytes_left t = 0)"
  unfolding out_def
  by (intro conjI varint_roundtrip svarint_roundtrip tag_roundtrip varint32_roundtrip assms)

theorem numbers_roundtrip_witness:
  "(\<exists>s' t. pb_encode_varint (pb_ostream_from_buffer (replicate 10 0) 10) 300 = Some (True, s') \<and>
       pb_decode_varint (reopen s') = Some (Some 300, t) \<and> bytes_left t = 0) \<and>
     (\<exists>s' t. pb_encode_svarint (pb_ostream_from_buffer (replicate 10 0) 10) (- 5) = Some (True, s') \<and>
       pb_decode_svarint (reopen s') = Some (Some (- 5), t) \<and> bytes_left t = 0) \<and>
     (\<exists>s' t. pb_encode_tag (pb_ostream_from_buffer (replicate 10 0) 10) PB_WT_STRING 1000 = Some (True, s') \<and>
       pb_decode_tag (reopen s') =
         Some (\<lparr>t_ok = True, t_wire_type = PB_WT_STRING, t_tag = 1000, t_eof = False\<rparr>, t) \<and> bytes_left t = 0) \<and>
     (\<exists>s' t. pb_encode_varint (pb_ostream_from_buffer (replicate 10 0) 10) (- 5) = Some (True, s') \<and>
       pb_decode_varint32 (reopen s') = Some (Some (- 5), t) \<and> bytes_left t = 0)"
  by (rule numbers_roundtrip) (simp_all add: word_less_nat_alt)

text \<open>
  \<open>pb_skip_field\<close> consumes exactly one value of the given wire type, whatever follows it:
  a varint, eight bytes, four bytes, or a length with that many bytes.
\<close>

lemma pb_skip_field_exact:
  assumes "buf_in s" and "pending s = enc @ rest"
    and "(wt = PB_WT_VARINT \<and> vlen enc = Some (length enc)) \<or>
         (wt = PB_WT_64BIT \<and> length enc = 8) \<or> (wt = PB_WT_32BIT \<and> length enc = 4) \<or>
         (wt = PB_WT_STRING \<and> (\<exists>body. enc = varint (of_nat (length body)) @ body \<and> length body < 2 ^ 32))"
  shows "pb_skip_field s wt = Some (True, adv s (length enc)) \<and> pending (adv s (length enc)) = rest"
proof -
  have "pending (adv s (length enc)) = rest"
    using pending_adv [of s "length enc"] assms(1,2) by (simp add: buf_in_def)
  moreover have "pb_skip_field s wt = Some (True, adv s (length enc))"
    using assms(3)
  proof (elim disjE conjE exE)
    assume v: "wt = PB_WT_VARINT" "vlen enc = Some (length enc)"
    then have "vlen (pending s) = Some (length enc)" using assms(2) vlen_append [of enc] by simp
    then show ?thesis using v buffer_source.skip_varint [OF assms(1)] by (simp add: pb_skip_field_def)
  next
    assume "wt = PB_WT_64BIT" "length enc = 8"
    then show ?thesis using buffer_source.skip_bytes [OF assms(1), of 8] assms(2) by (simp add: pb_skip_field_def)
  next
    assume "wt = PB_WT_32BIT" "length enc = 4"
    then show ?thesis using buffer_source.skip_bytes [OF assms(1), of 4] assms(2) by (simp add: pb_skip_field_def)
  next
    fix body assume v: "wt = PB_WT_STRING" "enc = varint (of_nat (length body)) @ body" "length body < 2 ^ 32"
    then show ?thesis using buffer_source.skip_string [OF assms(1), of body rest] assms(2)
      by (simp add: pb_skip_field_def)
  qed
  ultimately show ?thesis by simp
qed

section \<open>Safety of the decoder\<close>

lemma from_buffer_prog:
  "prog (pb_istream_from_buffer buf n) s' \<longleftrightarrow> i_callback s' = IC_buf_read \<and>
     (\<exists>j. i_state s' = drop j buf \<and> j + unat (bytes_left s') \<le> unat n)"
  by (simp add: prog_def pb_istream_from_buffer_def)

lemma all_below:
  "(\<forall>k < Suc 0. P k) \<longleftrightarrow> P 0"
  "(\<forall>k < Suc (Suc (Suc (Suc 0))). P k) \<longleftrightarrow> P 0 \<and> P 1 \<and> P 2 \<and> P 3"
  by (auto simp: All_less_Suc numeral_2_eq_2 numeral_3_eq_3)

lemmas layout_eval =
  static_field_def value_ok_def extent_def size_inside_def size_off_def data_off_numeral in_union_def
  prev_size_def union_head_numeral PB_ATYPE_def PB_HTYPE_def PB_LTYPE_def

lemma inner_static: "static_msg (Suc n) example_env INNER_FIELDS 4"
  by (simp add: example_env_fields inner_fields_val wf_fields_def all_below layout_eval)

lemma outer_static_fields:
  "static_field (static_msg (Suc n) example_env) outer_fields 36 0"
  "static_field (static_msg (Suc n) example_env) outer_fields 36 1"
  "static_field (static_msg (Suc n) example_env) outer_fields 36 2"
  "static_field (static_msg (Suc n) example_env) outer_fields 36 3"
  by (simp_all add: outer_fields_val layout_eval inner_static del: static_msg.simps)

lemma example_static: "static_msg (Suc (Suc n)) example_env OUTER_FIELDS 36"
proof -
  have "wf_fields outer_fields" "length outer_fields = Suc (Suc (Suc (Suc 0)))" "outer_fields \<noteq> []"
    by (simp_all add: outer_fields_val wf_fields_def)
  then show ?thesis
    unfolding static_msg.simps(2) [of "Suc n"] example_env_fields using outer_static_fields [of n]
    by (simp add: all_below)
qed

text \<open>
  C5. Memory safety of the decoder: for a well-formed descriptor of a statically allocated
  message, a structure of that size and any bytes in the input buffer, \<open>pb_decode\<close> returns; no byte
  outside the structure changes, nothing is allocated or freed, and the read position stays
  within the buffer.
\<close>

theorem pb_decode_safe:
  assumes "static_msg d \<Gamma> fs sz" and "valid m dest sz" and "unat len \<le> length buf" and "d < n"
  shows "\<exists>ok s' m'. pb_decode n \<Gamma> m (pb_istream_from_buffer buf len) fs dest = Some (ok, s', m') \<and>
     same_except {dest..<dest + sz} m m' \<and>
     (\<exists>j. i_state s' = drop j buf \<and> j + unat (bytes_left s') \<le> unat len)"
proof -
  have "region dest sz \<subseteq> dom (cells m)" using assms(2) by (simp add: valid_region)
  then have "inside (region dest sz) m (pb_istream_from_buffer buf len)
      (pb_decode n \<Gamma> m (pb_istream_from_buffer buf len) fs dest)"
    using assms buf_in_from_buffer by (intro pb_decode_inside)
  then show ?thesis by (auto simp: inside_def from_buffer_prog region_def)
qed

theorem pb_decode_safe_witness:
  "\<exists>ok s' m'. pb_decode 3 example_env outer_mem (pb_istream_from_buffer [0xFF, 0x07, 0x1A] 3) OUTER_FIELDS OUTER
       = Some (ok, s', m') \<and> same_except {1000..<1036} outer_mem m'"
proof -
  have "valid outer_mem OUTER 36" by (simp add: valid_def outer_mem_def image_def)
  then show ?thesis
    using pb_decode_safe [OF example_static [of 0], of outer_mem OUTER 3 "[0xFF, 0x07, 0x1A]" 3] by auto
qed

text \<open>
  The same for \<open>pb_decode_delimited\<close>: the length prefix in the input is never trusted beyond
  the data that is there.
\<close>

lemma pb_decode_delimited_safe:
  assumes "static_msg d \<Gamma> fs sz" and "valid m dest sz" and "unat len \<le> length buf" and "d < n"
  shows "\<exists>ok s' m'. pb_decode_delimited n \<Gamma> m (pb_istream_from_buffer buf len) fs dest = Some (ok, s', m') \<and>
     same_except {dest..<dest + sz} m m' \<and>
     (\<exists>j. i_state s' = drop j buf \<and> j + unat (bytes_left s') \<le> unat len)"
proof -
  have "region dest sz \<subseteq> dom (cells m)" using assms(2) by (simp add: valid_region)
  then have "inside (region dest sz) m (pb_istream_from_buffer buf len)
      (delimited (pb_decode n \<Gamma>) m (pb_istream_from_buffer buf len) fs dest)"
    using assms buf_in_from_buffer pb_decode_inside by (intro delimited_inside) auto
  then show ?thesis by (auto simp: inside_def from_buffer_prog region_def pb_decode_delimited_def)
qed

section \<open>Required fields\<close>

text \<open>
  C6. The check for missing required fields is exact: for a message whose tags are distinct,
  \<open>pb_decode_noinit\<close> runs its loop to an end, and if no field failed to decode and the last
  fixed-count array is complete, it succeeds if and only if the tag of every required field
  (of the first 64) is among the tags it has read.
\<close>

theorem pb_decode_noinit_required:
  assumes "static_msg (Suc d) \<Gamma> fs sz" and "valid m dest sz" and "unat len \<le> length buf" and "d < n"
    and "distinct (map tag (msg_fields \<Gamma> fs))"
  shows "\<exists>ts ok st. decode_run (all_calls n \<Gamma>) \<Gamma> (start_state \<Gamma> m (pb_istream_from_buffer buf len) fs dest) ts ok st \<and>
    pb_decode_noinit (Suc n) \<Gamma> m (pb_istream_from_buffer buf len) fs dest =
     (if \<not> ok then Some (False, ds_stream st, ds_mem st)
      else if \<not> fixed_count_complete \<Gamma> st
      then d_error (ds_mem st) (ds_stream st) ''wrong size for fixed count field''
      else if \<not> required_present (msg_fields \<Gamma> fs) ts
      then d_error (ds_mem st) (ds_stream st) ''missing required field''
      else Some (True, ds_stream st, ds_mem st))"
proof -
  let ?s = "pb_istream_from_buffer buf len"
  have dom: "region dest sz \<subseteq> dom (cells m)" using assms(2) by (simp add: valid_region)
  have b: "buf_in ?s" using assms(3) by (rule buf_in_from_buffer)
  have c: "calls_inside d \<Gamma> (all_calls n \<Gamma>)"
    using pb_decode_noinit_inside assms(4) by (intro all_calls_inside)
  have so: "state_on \<Gamma> fs dest sz (start_state \<Gamma> m ?s fs dest)" using assms(1) dom b by (rule start_state_on)
  obtain ok st where l: "decode_loop (all_calls n \<Gamma>) \<Gamma> (start_state \<Gamma> m ?s fs dest) = Some (ok, st)"
    using decode_loop_later [OF c assms(1) so] by blast
  then obtain ts where run: "decode_run (all_calls n \<Gamma>) \<Gamma> (start_state \<Gamma> m ?s fs dest) ts ok st"
    by (auto simp: decode_run_iff)
  have "pb_decode_noinit (Suc n) \<Gamma> m ?s fs dest = Some (False, ds_stream st, ds_mem st)" if "\<not> ok"
    using l that unfolding pb_decode_noinit_Suc by (simp add: decode_message_def start_state_def)
  then show ?thesis using run decode_message_required [OF c assms(1) dom b assms(5), of ts st]
    unfolding pb_decode_noinit_Suc by (cases ok) auto
qed

text \<open>An empty input lacks the required \<open>id\<close>.\<close>

theorem pb_decode_noinit_required_witness:
  "\<exists>s' m'. pb_decode_noinit (Suc (Suc (Suc 0))) example_env outer_mem (pb_istream_from_buffer [] 0) OUTER_FIELDS OUTER =
     d_error m' s' ''missing required field''"
proof -
  have "valid outer_mem OUTER 36" by (simp add: valid_def outer_mem_def image_def)
  moreover have "distinct (map tag (msg_fields example_env OUTER_FIELDS))"
    by (simp add: example_env_fields outer_fields_val)
  ultimately have "\<exists>ts ok st. decode_run (all_calls (Suc (Suc 0)) example_env) example_env
      (start_state example_env outer_mem (pb_istream_from_buffer [] 0) OUTER_FIELDS OUTER) ts ok st \<and>
    pb_decode_noinit (Suc (Suc (Suc 0))) example_env outer_mem (pb_istream_from_buffer [] 0) OUTER_FIELDS OUTER =
     (if \<not> ok then Some (False, ds_stream st, ds_mem st)
      else if \<not> fixed_count_complete example_env st
      then d_error (ds_mem st) (ds_stream st) ''wrong size for fixed count field''
      else if \<not> required_present (msg_fields example_env OUTER_FIELDS) ts
      then d_error (ds_mem st) (ds_stream st) ''missing required field''
      else Some (True, ds_stream st, ds_mem st))"
    by (intro pb_decode_noinit_required [OF example_static [of 0]]) simp_all
  then show ?thesis
  proof (elim exE conjE)
    fix ts ok st
    assume run: "decode_run (all_calls (Suc (Suc 0)) example_env) example_env
        (start_state example_env outer_mem (pb_istream_from_buffer [] 0) OUTER_FIELDS OUTER) ts ok st"
      and res: "pb_decode_noinit (Suc (Suc (Suc 0))) example_env outer_mem (pb_istream_from_buffer [] 0) OUTER_FIELDS OUTER =
        (if \<not> ok then Some (False, ds_stream st, ds_mem st)
         else if \<not> fixed_count_complete example_env st
         then d_error (ds_mem st) (ds_stream st) ''wrong size for fixed count field''
         else if \<not> required_present (msg_fields example_env OUTER_FIELDS) ts
         then d_error (ds_mem st) (ds_stream st) ''missing required field''
         else Some (True, ds_stream st, ds_mem st))"
    have "bytes_left (ds_stream (start_state example_env outer_mem (pb_istream_from_buffer [] 0) OUTER_FIELDS OUTER)) = 0"
      by (simp add: start_state_def pb_istream_from_buffer_def)
    with run have st: "ts = []" "ok" "st = start_state example_env outer_mem (pb_istream_from_buffer [] 0) OUTER_FIELDS OUTER"
      by (auto elim: decode_runE)
    have "fixed_count_complete example_env st" by (simp add: st(3) fixed_count_complete_def start_state_def)
    moreover have "\<not> required_present (msg_fields example_env OUTER_FIELDS) ts"
      unfolding example_env_fields st(1)
      by (auto simp: required_present_def outer_fields_val is_required_def req_index_def PB_HTYPE_def intro!: exI [of _ 0])
    ultimately show ?thesis using res st(2) by auto
  qed
qed

section \<open>Allocation\<close>

text \<open>
  The overflow test multiplies only when one factor is at least \<open>2 ^ 32\<close>; otherwise the product
  of two numbers below \<open>2 ^ 32\<close> fits.
\<close>

lemma allocation_fits:
  fixes d a :: size_t
  assumes "\<not> ((d \<ge> push_bit 32 1 \<or> a \<ge> push_bit 32 1) \<and> (- 1) div a < d)" and "a \<noteq> 0"
  shows "unat d * unat a < 2 ^ 64" and "unat (a * d) = unat d * unat a"
proof -
  show lt: "unat d * unat a < 2 ^ 64"
  proof (cases "d \<ge> push_bit 32 1 \<or> a \<ge> push_bit 32 1")
    case True
    with assms have "unat d \<le> unat ((- 1) div a)" by (auto simp: word_le_nat_alt not_less)
    also have "\<dots> = (2 ^ 64 - 1) div unat a" by (simp add: unat_div unsigned_minus_1_eq_mask mask_eq_exp_minus_1)
    finally have "unat d * unat a \<le> 2 ^ 64 - 1"
      by (meson div_times_less_eq_dividend dual_order.trans mult_le_mono1)
    then show ?thesis by simp
  next
    case False
    then have "unat d < 2 ^ 32" "unat a < 2 ^ 32"
      by (simp_all add: word_le_nat_alt not_le push_bit_eq_mult)
    then have "unat d * unat a < 2 ^ 32 * 2 ^ 32" by (intro mult_strict_mono) auto
    then show ?thesis by simp
  qed
  then show "unat (a * d) = unat d * unat a" using unat_mult_lem [of a d] by (simp add: mult.commute)
qed

lemma allocate_field_success:
  assumes "allocate_field m s pd dsize asize = Some (True, s', m')" and "wf_heap m"
  obtains p q m1 where "load_ptr m pd = Some p" "unat dsize * unat asize < 2 ^ 64" "s' = s"
    "c_realloc m p (unat dsize * unat asize) = Some (q, m1)" "q \<noteq> NULL" "store_ptr m1 pd q = Some m'"
proof -
  from assms(1) obtain p where p: "load_ptr m pd = Some p"
    by (auto simp: allocate_field_def bind_Some_iff)
  with assms(1) have "asize \<noteq> 0"
    and g: "\<not> ((dsize \<ge> push_bit 32 1 \<or> asize \<ge> push_bit 32 1) \<and> (- 1) div asize < dsize)"
    by (auto simp: allocate_field_def d_error_def Let_def split: if_splits)
  note fit = allocation_fits [OF g this(1)]
  from assms(1) p fit(2) obtain q m1 where "c_realloc m p (unat dsize * unat asize) = Some (q, m1)" "q \<noteq> NULL"
    "store_ptr m1 pd q = Some m'" "s' = s"
    by (auto simp: allocate_field_def d_error_def Let_def bind_Some_iff split: if_splits)
  with p fit(1) show thesis using that by blast
qed

text \<open>
  C9. \<open>allocate_field\<close> never allocates less than \<open>data_size * array_size\<close> bytes: when it succeeds,
  the product has not wrapped around, and the pointer it stores is a live heap block of exactly
  that many bytes, which begins with the contents of the block it replaces.
\<close>

theorem allocate_field_exact:
  assumes "allocate_field m s pd dsize asize = Some (True, s', m')" and "wf_heap m"
  shows "unat dsize * unat asize < 2 ^ 64 \<and> s' = s \<and>
     (\<exists>q. load_ptr m' pd = Some q \<and> q \<noteq> NULL \<and>
          blocks m' q = Some (unat dsize * unat asize) \<and> valid m' q (unat dsize * unat asize) \<and>
          (\<forall>p k. load_ptr m pd = Some p \<and> p \<noteq> NULL \<and> blocks m p = Some k \<longrightarrow>
             load_bytes m' q (min k (unat dsize * unat asize)) = load_bytes m p (min k (unat dsize * unat asize))))"
proof -
  obtain p q m1 where p: "load_ptr m pd = Some p" and fit: "unat dsize * unat asize < 2 ^ 64" "s' = s"
    and r: "c_realloc m p (unat dsize * unat asize) = Some (q, m1)" "q \<noteq> NULL" and st: "store_ptr m1 pd q = Some m'"
    using assms by (rule allocate_field_success)
  note b = c_realloc_block [OF r assms(2)]
  have "q < 2 ^ 64" using b(1,2) fit(1) assms(2) by (simp add: wf_heap_def)
  with st have "load_ptr m' pd = Some q" by (rule load_store_ptr)
  moreover from st have same: "same_except {pd..<pd + 8} m1 m'"
    by (auto simp: store_ptr_def store_u64_def dest: store_bytes_same_except)
  moreover have "{pd..<pd + 8} \<inter> {q..<q + unat dsize * unat asize} = {}"
  proof -
    have "valid m pd 8" using p by (auto simp: load_ptr_def load_u64_def load_bytes_Some_iff [symmetric])
    then have "\<And>a. a \<in> {pd..<pd + 8} \<Longrightarrow> cells m a \<noteq> None" by (simp add: valid_def)
    moreover have "\<And>a. a \<in> {q..<q + unat dsize * unat asize} \<Longrightarrow> cells m a = None"
      using b(1,2) assms(2) by (simp add: wf_heap_def)
    ultimately show ?thesis by blast
  qed
  then have "load_bytes m' q (min k (unat dsize * unat asize)) = load_bytes m1 q (min k (unat dsize * unat asize))" for k
    by (intro load_bytes_same_except [OF same]) fastforce
  ultimately show ?thesis using fit r(2) b(3,4,5) p same_except_valid [OF same]
    by (auto simp: same_except_def)
qed

text \<open>A null pointer at address 1000 and an empty heap: six items of four bytes.\<close>

theorem allocate_field_exact_witness:
  "\<exists>s' m' q. allocate_field (image 1000 (replicate (Suc (Suc (Suc (Suc (Suc (Suc (Suc (Suc 0)))))))) 0))
       (pb_istream_from_buffer [] 0) 1000 4 6 = Some (True, s', m') \<and>
     load_ptr m' 1000 = Some q \<and> blocks m' q = Some 24"
proof -
  let ?m = "image 1000 (replicate (Suc (Suc (Suc (Suc (Suc (Suc (Suc (Suc 0)))))))) 0)"
  have wf: "wf_heap ?m" by (auto simp: wf_heap_def image_def)
  have p: "load_ptr ?m 1000 = Some NULL"
    by (simp add: load_ptr_def load_u64_def image_def load_bytes_numeral le_word_def NULL_def)
  obtain q m1 where r: "c_malloc ?m [] 24 = (q, m1)" "q \<noteq> NULL" "valid m1 1000 8"
    by (auto simp: c_malloc_def image_def NULL_def valid_def map_range_def)
  from r(3) obtain m' where "store_ptr m1 1000 q = Some m'"
    using store_bytes_valid [of m1 1000 "le_bytes 8 (word_of_nat q :: u64)"]
    by (auto simp: store_ptr_def store_u64_def)
  with p r have "allocate_field ?m (pb_istream_from_buffer [] 0) 1000 4 6 =
      Some (True, pb_istream_from_buffer [] 0, m')"
    by (simp add: allocate_field_def c_realloc_def NULL_def)
  with allocate_field_exact [OF this wf] show ?thesis by fastforce
qed

end
