(* ===== verification/F_Base64.thy ===== *)
theory F_Base64
  imports C_Memory
begin

text \<open>
  The base64 coder of \<open>fbase64.c\<close> (\<open>f_b64_ntop\<close>, \<open>f_b64_pton\<close>) on the C memory, and the caller that
  sizes the buffer for it in \<open>NSData+SRB64Additions.m\<close>. \<open>None\<close> is undefined behaviour: an access
  to an address that holds no object, or a negative argument of \<open>isspace\<close>.
\<close>

section \<open>Tables and character classes\<close>

definition Base64 :: "byte list" where
  "Base64 = map of_char
     ''ABCDEFGHIJKLMNOPQRSTUVWXYZabcdefghijklmnopqrstuvwxyz0123456789+/''"

definition Pad64 :: byte where
  "Pad64 = of_char CHR ''=''"

text \<open>
  \<open>isspace\<close> of the C locale. Its argument is a (signed) \<open>char\<close>: for the values below 0 other than
  \<open>EOF\<close> (-1) the C standard defines no result.
\<close>

definition isspace :: "byte \<Rightarrow> bool option" where
  "isspace ch =
     (if ch < 0x80 then Some (ch = 0x20 \<or> (0x09 \<le> ch \<and> ch \<le> 0x0D))
      else if ch = 0xFF then Some False else None)"

text \<open>\<open>strchr(Base64, ch) - Base64\<close>, for a character that is not 0\<close>

fun index_of :: "byte list \<Rightarrow> byte \<Rightarrow> nat option" where
  "index_of [] ch = None"
| "index_of (x # xs) ch = (if x = ch then Some 0 else map_option Suc (index_of xs ch))"

definition strchr_Base64 :: "byte \<Rightarrow> byte option" where
  "strchr_Base64 ch = map_option of_nat (index_of Base64 ch)"

section \<open>Encoding\<close>

text \<open>\<open>output[0..3]\<close> from \<open>input[0..2]\<close>\<close>

definition sextets :: "byte \<Rightarrow> byte \<Rightarrow> byte \<Rightarrow> byte list" where
  "sextets i0 i1 i2 =
     [drop_bit 2 i0,
      push_bit 4 (i0 AND 0x03) + drop_bit 4 i1,
      push_bit 2 (i1 AND 0x0F) + drop_bit 6 i2,
      i2 AND 0x3F]"

definition digit :: "byte \<Rightarrow> byte" where
  "digit w = Base64 ! unat w"

text \<open>
  The loop over whole groups of three bytes. The flag is false if it returned -1; otherwise the
  variables \<open>src\<close>, \<open>srclength\<close> and \<open>datalength\<close> after the loop.
\<close>

function ntop_loop ::
  "mem \<Rightarrow> addr \<Rightarrow> size_t \<Rightarrow> addr \<Rightarrow> size_t \<Rightarrow> size_t \<Rightarrow> (bool \<times> mem \<times> addr \<times> size_t \<times> size_t) option" where
  "ntop_loop m src srclength target targsize datalength =
     (if 2 < srclength then
        do {
          i0 \<leftarrow> load_u8 m src;
          i1 \<leftarrow> load_u8 m (src + 1);
          i2 \<leftarrow> load_u8 m (src + 2);
          if datalength + 4 > targsize then Some (False, m, src + 3, srclength - 3, datalength)
          else do {
            m \<leftarrow> store_bytes m (target + unat datalength) (map digit (sextets i0 i1 i2));
            ntop_loop m (src + 3) (srclength - 3) target targsize (datalength + 4)
          }
        }
      else Some (True, m, src, srclength, datalength))"
  by pat_completeness auto

lemma minus_3_less: "2 < (n :: size_t) \<Longrightarrow> unat (n - 3) + 3 = unat n"
proof -
  assume "2 < n"
  then have "3 \<le> n" by (simp add: word_less_nat_alt word_le_nat_alt)
  then show ?thesis by (simp add: unat_sub word_le_nat_alt)
qed

termination ntop_loop
  by (relation "measure (\<lambda>(m, src, n, _). unat n)") (auto dest!: minus_3_less)

declare ntop_loop.simps [simp del]

text \<open>One or two remaining bytes.\<close>

definition ntop_pad ::
  "mem \<Rightarrow> addr \<Rightarrow> size_t \<Rightarrow> addr \<Rightarrow> size_t \<Rightarrow> size_t \<Rightarrow> (bool \<times> mem \<times> size_t) option" where
  "ntop_pad m src srclength target targsize datalength =
     do {
       input \<leftarrow> load_bytes m src (unat srclength);
       let out = sextets (input ! 0) (if srclength = 1 then 0 else input ! 1) 0;
       if datalength + 4 > targsize then Some (False, m, datalength)
       else do {
         m \<leftarrow> store_bytes m (target + unat datalength)
           [digit (out ! 0), digit (out ! 1), if srclength = 1 then Pad64 else digit (out ! 2), Pad64];
         Some (True, m, datalength + 4)
       }
     }"

definition f_b64_ntop :: "mem \<Rightarrow> addr \<Rightarrow> size_t \<Rightarrow> addr \<Rightarrow> size_t \<Rightarrow> (int \<times> mem) option" where
  "f_b64_ntop m src srclength target targsize =
     do {
       (ok, m, src, srclength, datalength) \<leftarrow> ntop_loop m src srclength target targsize 0;
       if \<not> ok then Some (- 1, m)
       else do {
         (ok, m, datalength) \<leftarrow>
           (if 0 \<noteq> srclength then ntop_pad m src srclength target targsize datalength
            else Some (True, m, datalength));
         if \<not> ok then Some (- 1, m)
         else if datalength \<ge> targsize then Some (- 1, m)
         else do {
           m \<leftarrow> store_u8 m (target + unat datalength) 0;
           Some (sint (ucast datalength :: 32 word), m)
         }
       }
     }"

section \<open>Decoding\<close>

text \<open>
  The \<open>switch (state)\<close> for one character of the alphabet, with its index \<open>v\<close>: the new \<open>tarindex\<close>
  and \<open>state\<close>; the flag is false if it returned -1. \<open>tarindex\<close> is an \<open>unsigned int\<close>, which is
  compared with the \<open>size_t\<close> \<open>targsize\<close>.
\<close>

definition or_u8 :: "mem \<Rightarrow> addr \<Rightarrow> byte \<Rightarrow> mem option" where
  "or_u8 m p v = do { b \<leftarrow> load_u8 m p; store_u8 m p (b OR v) }"

definition pton_char ::
  "mem \<Rightarrow> addr \<Rightarrow> size_t \<Rightarrow> u32 \<Rightarrow> nat \<Rightarrow> byte \<Rightarrow> (bool \<times> mem \<times> u32 \<times> nat) option" where
  "pton_char m target targsize tarindex state v =
     (let at = target + unat tarindex; at1 = target + unat (tarindex + 1) in
      if state = 0 then
        (if target \<noteq> NULL then
           if ucast tarindex \<ge> targsize then Some (False, m, tarindex, state)
           else do { m \<leftarrow> store_u8 m at (push_bit 2 v); Some (True, m, tarindex, 1) }
         else Some (True, m, tarindex, 1))
      else if state = 1 then
        (if target \<noteq> NULL then
           if ucast (tarindex + 1) \<ge> targsize then Some (False, m, tarindex, state)
           else do {
             m \<leftarrow> or_u8 m at (drop_bit 4 v);
             m \<leftarrow> store_u8 m at1 (push_bit 4 (v AND 0x0F));
             Some (True, m, tarindex + 1, 2)
           }
         else Some (True, m, tarindex + 1, 2))
      else if state = 2 then
        (if target \<noteq> NULL then
           if ucast (tarindex + 1) \<ge> targsize then Some (False, m, tarindex, state)
           else do {
             m \<leftarrow> or_u8 m at (drop_bit 2 v);
             m \<leftarrow> store_u8 m at1 (push_bit 6 (v AND 0x03));
             Some (True, m, tarindex + 1, 3)
           }
         else Some (True, m, tarindex + 1, 3))
      else
        (if target \<noteq> NULL then
           if ucast tarindex \<ge> targsize then Some (False, m, tarindex, state)
           else do { m \<leftarrow> or_u8 m at v; Some (True, m, tarindex + 1, 0) }
         else Some (True, m, tarindex + 1, 0)))"

text \<open>
  The loop over the characters: the variables \<open>ch\<close>, \<open>src\<close>, \<open>tarindex\<close> and \<open>state\<close> after it.
\<close>

partial_function (option) pton_loop ::
  "mem \<Rightarrow> addr \<Rightarrow> addr \<Rightarrow> size_t \<Rightarrow> u32 \<Rightarrow> nat \<Rightarrow> (bool \<times> mem \<times> byte \<times> addr \<times> u32 \<times> nat) option" where
  [code]: "pton_loop m src target targsize tarindex state =
     do {
       ch \<leftarrow> load_u8 m src;
       if ch = 0 then Some (True, m, ch, src + 1, tarindex, state)
       else do {
         sp \<leftarrow> isspace ch;
         if sp then pton_loop m (src + 1) target targsize tarindex state
         else if ch = Pad64 then Some (True, m, ch, src + 1, tarindex, state)
         else case strchr_Base64 ch of
           None \<Rightarrow> Some (False, m, ch, src + 1, tarindex, state)
         | Some v \<Rightarrow>
             do {
               (ok, m, tarindex, state) \<leftarrow> pton_char m target targsize tarindex state v;
               if \<not> ok then Some (False, m, ch, src + 1, tarindex, state)
               else pton_loop m (src + 1) target targsize tarindex state
             }
       }
     }"

text \<open>\<open>for (; ch != '\0'; ch = *src++) if (!isspace(ch)) break;\<close>\<close>

partial_function (option) skip_spaces :: "mem \<Rightarrow> byte \<Rightarrow> addr \<Rightarrow> (byte \<times> addr) option" where
  [code]: "skip_spaces m ch src =
     (if ch = 0 then Some (ch, src)
      else do {
        sp \<leftarrow> isspace ch;
        if \<not> sp then Some (ch, src)
        else do { ch \<leftarrow> load_u8 m src; skip_spaces m ch (src + 1) }
      })"

text \<open>After the pad character: \<open>case 3\<close>, and \<open>case 2\<close>, which falls through to it.\<close>

definition pton_case_3 :: "mem \<Rightarrow> byte \<Rightarrow> addr \<Rightarrow> addr \<Rightarrow> u32 \<Rightarrow> int option" where
  "pton_case_3 m ch src target tarindex =
     do {
       (ch, src) \<leftarrow> skip_spaces m ch src;
       if ch \<noteq> 0 then Some (- 1)
       else if target \<noteq> NULL then
         do { b \<leftarrow> load_u8 m (target + unat tarindex); Some (if b \<noteq> 0 then - 1 else sint tarindex) }
       else Some (sint tarindex)
     }"

definition pton_case_2 :: "mem \<Rightarrow> byte \<Rightarrow> addr \<Rightarrow> addr \<Rightarrow> u32 \<Rightarrow> int option" where
  "pton_case_2 m ch src target tarindex =
     do {
       (ch, src) \<leftarrow> skip_spaces m ch src;
       if ch \<noteq> Pad64 then Some (- 1)
       else do { ch \<leftarrow> load_u8 m src; pton_case_3 m ch (src + 1) target tarindex }
     }"

definition f_b64_pton :: "mem \<Rightarrow> addr \<Rightarrow> addr \<Rightarrow> size_t \<Rightarrow> (int \<times> mem) option" where
  "f_b64_pton m src target targsize =
     do {
       (ok, m, ch, src, tarindex, state) \<leftarrow> pton_loop m src target targsize 0 0;
       if \<not> ok then Some (- 1, m)
       else if ch = Pad64 then
         do {
           ch \<leftarrow> load_u8 m src;
           r \<leftarrow> (if state = 0 \<or> state = 1 then Some (- 1)
                else if state = 2 then pton_case_2 m ch (src + 1) target tarindex
                else pton_case_3 m ch (src + 1) target tarindex);
           Some (r, m)
         }
       else if state \<noteq> 0 then Some (- 1, m)
       else Some (sint tarindex, m)
     }"

section \<open>A caller\<close>

text \<open>
  \<open>base64EncodedStringFromData:\<close> of \<open>NSData+SRB64Additions.m\<close>, on the bytes of the data; the inner
  \<open>None\<close> is \<open>nil\<close>. The string takes over the buffer.
\<close>

definition base64EncodedStringFromData :: "mem \<Rightarrow> addr \<Rightarrow> size_t \<Rightarrow> (byte list option \<times> mem) option" where
  "base64EncodedStringFromData m bytes len =
     (let buffer_size = (len * 3 + 2) div 2;
          (buffer, m) = c_malloc m [] (unat buffer_size)
      in do {
        (r, m) \<leftarrow> f_b64_ntop m bytes len buffer buffer_size;
        if r = - 1 then do { m \<leftarrow> c_free m buffer; Some (None, m) }
        else do { s \<leftarrow> load_bytes m buffer (nat r); Some (Some s, m) }
      })"

end
