(* ===== verification/F_Base64_Encode.thy ===== *)
theory F_Base64_Encode
  imports F_Base64
begin

text \<open>
  \<open>f_b64_ntop\<close> against the base64 encoding of RFC 4648: what it writes, when it returns -1, and
  which bytes it touches.
\<close>

section \<open>The encoding\<close>

fun b64_encode :: "byte list \<Rightarrow> byte list" where
  "b64_encode [] = []"
| "b64_encode [a] = map digit (take 2 (sextets a 0 0)) @ [Pad64, Pad64]"
| "b64_encode [a, b] = map digit (take 3 (sextets a b 0)) @ [Pad64]"
| "b64_encode (a # b # c # xs) = map digit (sextets a b c) @ b64_encode xs"

lemma length_sextets [simp]: "length (sextets a b c) = 4"
  by (simp add: sextets_def)

lemma length_b64_encode: "length (b64_encode xs) = 4 * ((length xs + 2) div 3)"
proof (induction xs rule: b64_encode.induct)
  case (4 a b c xs)
  have "(length (a # b # c # xs) + 2) div 3 = Suc ((length xs + 2) div 3)" by simp
  then show ?case using 4 by (simp add: sextets_def)
qed (simp_all add: sextets_def)

section \<open>Stores into the target\<close>

lemma store_at:
  assumes "valid m target n" and "d + length bs \<le> n"
  shows "\<exists>m'. store_bytes m (target + d) bs = Some m' \<and>
     same_except {target + d..<target + d + length bs} m m' \<and> load_bytes m' (target + d) (length bs) = Some bs"
proof -
  have "valid m (target + d) (length bs)" using assms by (auto intro: valid_sub)
  then obtain m' where "store_bytes m (target + d) bs = Some m'" using store_bytes_valid by blast
  then show ?thesis using store_bytes_same_except load_store_bytes by blast
qed

lemma load_bytes_split:
  "load_bytes m p (length xs + length ys) = Some (xs @ ys) \<longleftrightarrow>
     load_bytes m p (length xs) = Some xs \<and> load_bytes m (p + length xs) (length ys) = Some ys"
  using load_bytes_length [of m p "length xs"]
  by (auto simp: load_bytes_append bind_Some_iff)

section \<open>The loop and what follows it\<close>

definition ntop_from :: "mem \<Rightarrow> addr \<Rightarrow> size_t \<Rightarrow> addr \<Rightarrow> size_t \<Rightarrow> size_t \<Rightarrow> (int \<times> mem) option" where
  "ntop_from m src srclength target targsize datalength =
     do {
       (ok, m, src, srclength, datalength) \<leftarrow> ntop_loop m src srclength target targsize datalength;
       if \<not> ok then Some (- 1, m)
       else do {
         (ok, m, datalength) \<leftarrow>
           (if 0 \<noteq> srclength then ntop_pad m src srclength target targsize datalength
            else Some (True, m, datalength));
         if \<not> ok then Some (- 1, m)
         else if datalength \<ge> targsize then Some (- 1, m)
         else do {
           m \<leftarrow> store_u8 m (target + unat datalength) 0;
           Some (sint (ucast datalength :: 32 word), m)
         }
       }
     }"

lemma ntop_from_0: "f_b64_ntop m src n target targsize = ntop_from m src n target targsize 0"
  by (simp add: f_b64_ntop_def ntop_from_def)

lemma ntop_from_group:
  assumes "2 < n"
  shows "ntop_from m src n target targsize dl =
    do {
      i0 \<leftarrow> load_u8 m src; i1 \<leftarrow> load_u8 m (src + 1); i2 \<leftarrow> load_u8 m (src + 2);
      if dl + 4 > targsize then Some (- 1, m)
      else do {
        m \<leftarrow> store_bytes m (target + unat dl) (map digit (sextets i0 i1 i2));
        ntop_from m (src + 3) (n - 3) target targsize (dl + 4)
      }
    }"
  using assms unfolding ntop_from_def
  by (subst ntop_loop.simps) (simp split: Option.bind_splits)

lemma ntop_from_rest:
  assumes "n \<le> 2"
  shows "ntop_from m src n target targsize dl =
    do {
      (ok, m, dl) \<leftarrow> (if 0 \<noteq> n then ntop_pad m src n target targsize dl else Some (True, m, dl));
      if \<not> ok then Some (- 1, m)
      else if dl \<ge> targsize then Some (- 1, m)
      else do { m \<leftarrow> store_u8 m (target + unat dl) 0; Some (sint (ucast dl :: 32 word), m) }
    }"
proof -
  have "\<not> 2 < n" using assms by simp
  then show ?thesis unfolding ntop_from_def by (subst ntop_loop.simps) simp
qed

text \<open>What a call with \<open>d\<close> characters written already returns for the rest \<open>out\<close> of the output.\<close>

definition ntop_post :: "mem \<Rightarrow> addr \<Rightarrow> nat \<Rightarrow> nat \<Rightarrow> byte list \<Rightarrow> (int \<times> mem) option \<Rightarrow> bool" where
  "ntop_post m target targsize d out res \<longleftrightarrow>
     (if d + length out < targsize
      then \<exists>m'. res = Some (sint (of_nat (d + length out) :: 32 word), m') \<and>
             same_except {target + d..<target + d + length out + 1} m m' \<and>
             load_bytes m' (target + d) (length out + 1) = Some (out @ [0])
      else \<exists>m'. res = Some (- 1, m') \<and> same_except {target..<target + targsize} m m')"

lemma ntop_post_after:
  assumes st: "store_bytes m (target + d) bs = Some m1" and fit: "d + length bs \<le> targsize"
    and post: "ntop_post m1 target targsize (d + length bs) out res"
  shows "ntop_post m target targsize d (bs @ out) res"
proof -
  have s1: "same_except {target + d..<target + d + length bs} m m1" using st by (rule store_bytes_same_except)
  show ?thesis
  proof (cases "d + length bs + length out < targsize")
    case True
    with post obtain m' where m': "res = Some (sint (of_nat (d + length bs + length out) :: 32 word), m')"
      "same_except {target + (d + length bs)..<target + (d + length bs) + length out + 1} m1 m'"
      "load_bytes m' (target + (d + length bs)) (length out + 1) = Some (out @ [0])"
      by (auto simp: ntop_post_def add.assoc)
    have "same_except {target + d..<target + d + (length bs + length out) + 1} m m'"
      by (rule same_except_trans [OF same_except_mono [OF s1] same_except_mono [OF m'(2)]]) auto
    moreover have "load_bytes m' (target + d) (length bs) = Some bs"
      using load_store_bytes [OF st] load_bytes_same_except [OF m'(2), of "target + d" "length bs"] by auto
    ultimately show ?thesis using True m'(1,3) load_bytes_append [of m' "target + d" "length bs" "length out + 1"]
      by (auto simp: ntop_post_def add.assoc)
  next
    case False
    with post obtain m' where m': "res = Some (- 1, m')" "same_except {target..<target + targsize} m1 m'"
      by (auto simp: ntop_post_def add.assoc)
    have "same_except {target..<target + targsize} m m'"
      by (rule same_except_trans [OF same_except_mono [OF s1] m'(2)]) (use fit in auto)
    then show ?thesis using False m'(1) by (auto simp: ntop_post_def add.assoc)
  qed
qed

lemma sint_small: "n < 2 ^ 31 \<Longrightarrow> sint (of_nat n :: 32 word) = int n"
  by (simp add: signed_of_nat signed_take_bit_int_eq_self)

lemma int_of_size: "ucast (of_nat d :: size_t) = (of_nat d :: 32 word)"
  by (rule bit_word_eqI) (simp add: bit_simps unsigned_of_nat)

lemma ntop_post_end:
  fixes targsize :: size_t
  assumes "valid m target (unat targsize)" and "d \<le> unat targsize"
  shows "ntop_post m target (unat targsize) d []
    (if of_nat d \<ge> targsize then Some (- 1, m)
     else do { m \<leftarrow> store_u8 m (target + unat (of_nat d :: size_t)) 0; Some (sint (ucast (of_nat d :: size_t) :: 32 word), m) })"
proof -
  have d: "unat (of_nat d :: size_t) = d"
    using le_less_trans [OF assms(2) unsigned_less [of targsize]] by (simp add: unat_of_nat)
  show ?thesis
  proof (cases "d < unat targsize")
    case True
    then show ?thesis using store_at [of m target "unat targsize" d "[0]"] assms(1) d
      by (auto simp: ntop_post_def word_le_nat_alt store_u8_def int_of_size simp del: store_bytes.simps)
  next
    case False
    then show ?thesis using d by (simp add: ntop_post_def word_le_nat_alt)
  qed
qed

section \<open>Correctness of the encoder\<close>

lemma unat_of_nat_size: "n < 2 ^ 64 \<Longrightarrow> unat (of_nat n :: size_t) = n"
  by (simp add: unat_of_nat)

lemma room_iff:
  assumes "d \<le> unat targsize" and "unat targsize < 2 ^ 63"
  shows "(of_nat d + 4 > (targsize :: size_t)) \<longleftrightarrow> unat targsize < d + 4"
proof -
  have "(of_nat d + 4 :: size_t) = of_nat (d + 4)" by simp
  moreover have "unat (of_nat (d + 4) :: size_t) = d + 4" using assms by (intro unat_of_nat_size) simp
  ultimately show ?thesis by (simp only: word_less_nat_alt)
qed

text \<open>No room for the next four characters.\<close>

lemma ntop_post_full:
  "unat targsize < d + 4 \<Longrightarrow> 4 \<le> length out \<Longrightarrow> ntop_post m target (unat targsize) d out (Some (- 1, m))"
  by (simp add: ntop_post_def)

lemma ntop_pad_post:
  assumes pad: "n = 1 \<and> xs = [a] \<or> n = 2 \<and> xs = [a, b]" and src: "load_bytes m src (length xs) = Some xs"
    and v: "valid m target (unat targsize)" and d: "d \<le> unat targsize" and sz: "unat targsize < 2 ^ 63"
  shows "ntop_post m target (unat targsize) d (b64_encode xs) (ntop_from m src n target targsize (of_nat d))"
proof -
  let ?out = "b64_encode xs"
  have un: "unat n = length xs" and n: "n \<le> 2" "n \<noteq> 0" using pad by auto
  have ud: "unat (of_nat d :: size_t) = d" using d sz by (intro unat_of_nat_size) simp
  have len: "length ?out = 4" using pad by (auto simp: length_b64_encode)
  show ?thesis
  proof (cases "unat targsize < d + 4")
    case True
    have "ntop_from m src n target targsize (of_nat d) = Some (- 1, m)"
      using True n src un unfolding ntop_from_rest [OF n(1)] ntop_pad_def
      by (simp add: Let_def room_iff [OF d sz])
    then show ?thesis using True len by (simp add: ntop_post_full)
  next
    case False
    obtain m1 where m1: "store_bytes m (target + d) ?out = Some m1" "same_except {target + d..<target + d + length ?out} m m1"
      using store_at [OF v, of d ?out] False len by auto
    have "ntop_pad m src n target targsize (of_nat d) = Some (True, m1, of_nat d + 4)"
      using pad
    proof
      assume "n = 1 \<and> xs = [a]"
      then show ?thesis using False src un m1(1) unfolding ntop_pad_def
        by (simp add: Let_def room_iff [OF d sz] ud sextets_def numeral_2_eq_2 del: store_bytes.simps)
    next
      assume "n = 2 \<and> xs = [a, b]"
      then show ?thesis using False src un m1(1) unfolding ntop_pad_def
        by (simp add: Let_def room_iff [OF d sz] ud sextets_def numeral_2_eq_2 numeral_3_eq_3 del: store_bytes.simps)
    qed
    then have "ntop_from m src n target targsize (of_nat d) =
        (if of_nat (d + 4) \<ge> targsize then Some (- 1, m1)
         else do { m \<leftarrow> store_u8 m1 (target + unat (of_nat (d + 4) :: size_t)) 0;
                   Some (sint (ucast (of_nat (d + 4) :: size_t) :: 32 word), m) })"
      using n(2) unfolding ntop_from_rest [OF n(1)] by (simp add: add.commute)
    moreover have "valid m1 target (unat targsize)" using v same_except_valid [OF m1(2)] by simp
    ultimately have "ntop_post m1 target (unat targsize) (d + length ?out) [] (ntop_from m src n target targsize (of_nat d))"
      using ntop_post_end [of m1 target targsize "d + 4"] False len by simp
    from ntop_post_after [OF m1(1) _ this] show ?thesis using False len by simp
  qed
qed

lemma ntop_from_post:
  assumes "load_bytes m src (length xs) = Some xs" and "length xs < 2 ^ 64"
    and "valid m target (unat targsize)" and "d \<le> unat targsize" and "unat targsize < 2 ^ 63"
    and "{src..<src + length xs} \<inter> {target..<target + unat targsize} = {}"
  shows "ntop_post m target (unat targsize) d (b64_encode xs)
    (ntop_from m src (of_nat (length xs)) target targsize (of_nat d))"
  using assms
proof (induction xs arbitrary: m src d rule: b64_encode.induct)
  case 1
  then show ?case using ntop_post_end [of m target targsize d] by (simp add: ntop_from_rest)
next
  case (2 a)
  then show ?case using ntop_pad_post [of 1 "[a]" a a m src target targsize d] by simp
next
  case (3 a b)
  then show ?case using ntop_pad_post [of 2 "[a, b]" a b m src target targsize d] by simp
next
  case (4 a b c xs)
  let ?bs = "map digit (sextets a b c)" and ?n = "of_nat (length (a # b # c # xs)) :: size_t"
  have len: "length ?bs = 4" by simp
  have "unat ?n = length xs + 3" using "4.prems"(2) by (subst unat_of_nat_size) auto
  then have n: "2 < ?n" by (simp only: word_less_nat_alt) simp
  have n3: "?n - 3 = of_nat (length xs)" by simp
  have ud: "unat (of_nat d :: size_t) = d" using "4.prems"(4,5) by (intro unat_of_nat_size) simp
  have src: "load_u8 m src = Some a" "load_u8 m (src + 1) = Some b" "load_u8 m (src + 2) = Some c"
    "load_bytes m (src + 3) (length xs) = Some xs"
    using "4.prems"(1) by (auto simp: load_u8_def bind_Some_iff numeral_3_eq_3)
  note unf = ntop_from_group [OF n] n3
  show ?case
  proof (cases "unat targsize < d + 4")
    case True
    then show ?thesis using src unfolding unf
      by (simp add: room_iff [OF "4.prems"(4,5)] ntop_post_full sextets_def)
  next
    case False
    obtain m1 where m1: "store_bytes m (target + d) ?bs = Some m1"
      "same_except {target + d..<target + d + length ?bs} m m1"
      using store_at [OF "4.prems"(3), of d ?bs] False len by auto
    have same: "same_except {target..<target + unat targsize} m m1"
      using m1(2) by (rule same_except_mono) (use False len in auto)
    have "load_bytes m1 (src + 3) (length xs) = Some xs"
      using load_bytes_same_except [OF same, of "src + 3" "length xs"] src(4) "4.prems"(6) by fastforce
    then have "ntop_post m1 target (unat targsize) (d + 4) (b64_encode xs)
        (ntop_from m1 (src + 3) (of_nat (length xs)) target targsize (of_nat (d + 4)))"
      using "4.prems" False same_except_valid [OF same] by (intro "4.IH") auto
    then have "ntop_post m1 target (unat targsize) (d + length ?bs) (b64_encode xs)
        (ntop_from m src ?n target targsize (of_nat d))"
      using src m1(1) False unfolding unf
      by (simp add: room_iff [OF "4.prems"(4,5)] ud len add.commute)
    from ntop_post_after [OF m1(1) _ this] show ?thesis using False len by simp
  qed
qed

end
