(* ===== verification/F_Base64_Decode.thy ===== *)
theory F_Base64_Decode
  imports F_Base64_Encode
begin

text \<open>
  \<open>f_b64_pton\<close> against a reference decoder on character lists, and the reference decoder as the
  inverse of the encoding.
\<close>

section \<open>The reference decoder\<close>

definition space :: "byte \<Rightarrow> bool" where
  "space ch \<longleftrightarrow> ch = 0x20 \<or> 0x09 \<le> ch \<and> ch \<le> 0x0D"

text \<open>The bytes of a list of six-bit values, and the bits beyond the last whole byte.\<close>

fun unpack :: "byte list \<Rightarrow> byte list" where
  "unpack (a # b # c # d # ss) =
     (push_bit 2 a OR drop_bit 4 b) # (push_bit 4 (b AND 0x0F) OR drop_bit 2 c) #
     (push_bit 6 (c AND 0x03) OR d) # unpack ss"
| "unpack [a, b, c] = [push_bit 2 a OR drop_bit 4 b, push_bit 4 (b AND 0x0F) OR drop_bit 2 c]"
| "unpack [a, b] = [push_bit 2 a OR drop_bit 4 b]"
| "unpack [a] = []"
| "unpack [] = []"

fun leftover :: "byte list \<Rightarrow> byte" where
  "leftover (a # b # c # d # ss) = leftover ss"
| "leftover [a, b, c] = push_bit 6 (c AND 0x03)"
| "leftover [a, b] = push_bit 4 (b AND 0x0F)"
| "leftover [a] = push_bit 2 a"
| "leftover [] = 0"

text \<open>
  The values up to the pad character, and the characters after it; \<open>None\<close> if another character
  is met.
\<close>

fun scan :: "byte list \<Rightarrow> byte list \<Rightarrow> (byte list \<times> byte list option) option" where
  "scan [] ss = Some (ss, None)"
| "scan (c # cs) ss =
     (if space c then scan cs ss
      else if c = Pad64 then Some (ss, Some cs)
      else case strchr_Base64 c of None \<Rightarrow> None | Some v \<Rightarrow> scan cs (ss @ [v]))"

definition padding_ok :: "nat \<Rightarrow> byte list option \<Rightarrow> bool" where
  "padding_ok k rest =
     (case rest of
        None \<Rightarrow> k mod 4 = 0
      | Some cs \<Rightarrow> k mod 4 = 2 \<and> filter (\<lambda>c. \<not> space c) cs = [Pad64] \<or>
                  k mod 4 = 3 \<and> filter (\<lambda>c. \<not> space c) cs = [])"

definition b64_decode :: "byte list \<Rightarrow> byte list option" where
  "b64_decode cs =
     (case scan cs [] of
        None \<Rightarrow> None
      | Some (ss, rest) \<Rightarrow>
          if padding_ok (length ss) rest \<and> leftover ss = 0 then Some (unpack ss) else None)"

section \<open>Six-bit values one at a time\<close>

lemma unpack_snoc:
  "unpack (ss @ [v]) = unpack ss @
     (if length ss mod 4 = 0 then []
      else [leftover ss OR (if length ss mod 4 = 1 then drop_bit 4 v
                            else if length ss mod 4 = 2 then drop_bit 2 v else v)])"
proof (induction ss rule: unpack.induct)
  case (1 a b c d ss)
  have "length (a # b # c # d # ss) mod 4 = length ss mod 4" by simp
  with 1 show ?case by (simp only: append_Cons unpack.simps leftover.simps)
next
  case (2 a b c)
  have "length [a, b, c] mod 4 = 3" by simp
  then show ?case by (simp only: append.simps unpack.simps leftover.simps) simp
qed simp_all

lemma leftover_snoc:
  "leftover (ss @ [v]) =
     (if length ss mod 4 = 0 then push_bit 2 v
      else if length ss mod 4 = 1 then push_bit 4 (v AND 0x0F)
      else if length ss mod 4 = 2 then push_bit 6 (v AND 0x03) else 0)"
  by (induction ss rule: leftover.induct) simp_all

lemma length_unpack: "length (unpack ss) = 3 * length ss div 4"
  by (induction ss rule: unpack.induct) simp_all

lemma leftover_full: "length ss mod 4 = 0 \<Longrightarrow> leftover ss = 0"
  by (induction ss rule: leftover.induct) simp_all

text \<open>The bytes \<open>f_b64_pton\<close> has written after these values.\<close>

definition written :: "byte list \<Rightarrow> byte list" where
  "written ss = unpack ss @ (if length ss mod 4 = 0 then [] else [leftover ss])"

lemma length_written: "length (written ss) = (3 * length ss + 3) div 4"
proof (induction ss rule: unpack.induct)
  case (1 a b c d ss)
  have "length (written (a # b # c # d # ss)) = length (written ss) + 3" by (simp add: written_def)
  moreover have "(3 * length (a # b # c # d # ss) + 3) div 4 = (3 * length ss + 3) div 4 + 3" by simp
  ultimately show ?case using 1 by simp
qed (simp_all add: written_def)

lemma written_snoc:
  "written (ss @ [v]) = unpack (ss @ [v]) @ (if length ss mod 4 = 3 then [] else [leftover (ss @ [v])])"
proof -
  have "Suc (length ss) mod 4 = 0 \<longleftrightarrow> length ss mod 4 = 3" by presburger
  then show ?thesis by (simp add: written_def)
qed

section \<open>The steps of the decoder\<close>

text \<open>
  The memory after the values \<open>ss\<close>, from the memory \<open>m0\<close> at the call: the bytes at \<open>target\<close>, unless
  the caller passed no target.
\<close>

definition holds :: "mem \<Rightarrow> addr \<Rightarrow> nat \<Rightarrow> byte list \<Rightarrow> mem \<Rightarrow> bool" where
  "holds m0 target sz ss m \<longleftrightarrow>
     (if target = NULL then m = m0
      else same_except {target..<target + sz} m0 m \<and>
           load_bytes m target (length (written ss)) = Some (written ss))"

definition fits :: "addr \<Rightarrow> nat \<Rightarrow> nat \<Rightarrow> bool" where
  "fits target sz k \<longleftrightarrow> target = NULL \<or> (3 * k + 3) div 4 \<le> sz"

lemma fits_mono: "fits target sz k \<Longrightarrow> j \<le> k \<Longrightarrow> fits target sz j"
  unfolding fits_def by (meson add_le_mono1 div_le_mono le_trans mult_le_mono2)

lemma store_last:
  assumes m: "load_bytes m target (length xs + length ys) = Some (xs @ ys)" "same_except {target..<target + sz} m0 m"
    and zs: "length xs + length zs \<le> sz" and v: "valid m0 target sz"
  shows "\<exists>m'. store_bytes m (target + length xs) zs = Some m' \<and> same_except {target..<target + sz} m0 m' \<and>
    load_bytes m' target (length xs + length zs) = Some (xs @ zs)"
proof -
  have "valid m target sz" using v same_except_valid [OF m(2)] by simp
  then obtain m' where m': "store_bytes m (target + length xs) zs = Some m'"
    "same_except {target + length xs..<target + length xs + length zs} m m'"
    "load_bytes m' (target + length xs) (length zs) = Some zs"
    using store_at [of m target sz "length xs" zs] zs by blast
  have "load_bytes m target (length xs) = Some xs"
    using m(1) by (simp add: load_bytes_split)
  then have "load_bytes m' target (length xs) = Some xs"
    using load_bytes_same_except [OF m'(2), of target "length xs"] by auto
  then have "load_bytes m' target (length xs + length zs) = Some (xs @ zs)"
    using m'(3) by (simp add: load_bytes_append)
  moreover have "same_except {target..<target + sz} m0 m'"
    using m(2) same_except_mono [OF m'(2), of "{target..<target + sz}"] zs by (auto intro: same_except_trans)
  ultimately show ?thesis using m'(1) by blast
qed

lemma or_then_store:
  assumes "load_u8 m p = Some b"
  shows "or_u8 m p x = store_bytes m p [b OR x]"
    and "do { m \<leftarrow> or_u8 m p x; m \<leftarrow> store_u8 m (Suc p) y; f m } = Option.bind (store_bytes m p [b OR x, y]) f"
  using assms by (auto simp: or_u8_def load_u8_def store_u8_def split: option.splits)

text \<open>Where the next value goes, by the number of values so far.\<close>

lemma value_positions:
  fixes k :: nat
  defines "q \<equiv> 3 * k div 4"
  shows "k mod 4 = 0 \<Longrightarrow> 3 * Suc k div 4 = q \<and> Suc k mod 4 = 1 \<and> (3 * Suc k + 3) div 4 = q + 1"
    and "k mod 4 = 1 \<Longrightarrow> 3 * Suc k div 4 = q + 1 \<and> Suc k mod 4 = 2 \<and> (3 * Suc k + 3) div 4 = q + 2"
    and "k mod 4 = 2 \<Longrightarrow> 3 * Suc k div 4 = q + 1 \<and> Suc k mod 4 = 3 \<and> (3 * Suc k + 3) div 4 = q + 2"
    and "k mod 4 = 3 \<Longrightarrow> 3 * Suc k div 4 = q + 1 \<and> Suc k mod 4 = 0 \<and> (3 * Suc k + 3) div 4 = q + 1"
proof -
  define j where "j = k div 4"
  have e: "3 * (4 * j + r) div 4 = 3 * j + 3 * r div 4" for r :: nat
    using div_mult_self2 [of 4 "3 * r" "3 * j"] by (simp add: algebra_simps)
  have at: "3 * k div 4 = 3 * j + 3 * r div 4 \<and> 3 * Suc k div 4 = 3 * j + 3 * Suc r div 4 \<and>
      (3 * Suc k + 3) div 4 = 3 * j + 3 * Suc (Suc r) div 4 \<and> Suc k mod 4 = Suc r mod 4" if "k mod 4 = r" for r
  proof -
    have k: "k = 4 * j + r" using that mult_div_mod_eq [of 4 k] by (simp add: j_def)
    then have "Suc k = 4 * j + Suc r" "3 * Suc k + 3 = 3 * (4 * j + Suc (Suc r))" by simp_all
    then show ?thesis using k e by (metis mod_Suc_eq that)
  qed
  show "k mod 4 = 0 \<Longrightarrow> 3 * Suc k div 4 = q \<and> Suc k mod 4 = 1 \<and> (3 * Suc k + 3) div 4 = q + 1"
    using at [of 0] unfolding q_def by simp
  show "k mod 4 = 1 \<Longrightarrow> 3 * Suc k div 4 = q + 1 \<and> Suc k mod 4 = 2 \<and> (3 * Suc k + 3) div 4 = q + 2"
    using at [of 1] unfolding q_def by simp
  show "k mod 4 = 2 \<Longrightarrow> 3 * Suc k div 4 = q + 1 \<and> Suc k mod 4 = 3 \<and> (3 * Suc k + 3) div 4 = q + 2"
    using at [of 2] unfolding q_def by simp
  show "k mod 4 = 3 \<Longrightarrow> 3 * Suc k div 4 = q + 1 \<and> Suc k mod 4 = 0 \<and> (3 * Suc k + 3) div 4 = q + 1"
    using at [of 3] unfolding q_def by simp
qed

text \<open>The new tail of the output, and the condition under which there is room for it.\<close>

definition new_tail :: "byte list \<Rightarrow> byte \<Rightarrow> byte list" where
  "new_tail ss v =
     (if length ss mod 4 = 0 then [push_bit 2 v]
      else if length ss mod 4 = 1 then [leftover ss OR drop_bit 4 v, push_bit 4 (v AND 0x0F)]
      else if length ss mod 4 = 2 then [leftover ss OR drop_bit 2 v, push_bit 6 (v AND 0x03)]
      else [leftover ss OR v])"

lemma written_new_tail: "written (ss @ [v]) = unpack ss @ new_tail ss v"
proof -
  have "length ss mod 4 = 0 \<or> length ss mod 4 = 1 \<or> length ss mod 4 = 2 \<or> length ss mod 4 = 3" by presburger
  then show ?thesis by (auto simp: written_snoc unpack_snoc leftover_snoc new_tail_def)
qed

lemma pton_char_eq:
  fixes ss :: "byte list" and targsize :: size_t
  defines "k \<equiv> length ss"
  assumes m: "target \<noteq> NULL \<Longrightarrow> load_bytes m target (length (written ss)) = Some (written ss)"
    and k: "3 * k div 4 + 1 < 2 ^ 32"
  shows "pton_char m target targsize (of_nat (3 * k div 4)) (k mod 4) v =
    (if \<not> fits target (unat targsize) (Suc k) then Some (False, m, of_nat (3 * k div 4), k mod 4)
     else do {
       m \<leftarrow> (if target = NULL then Some m else store_bytes m (target + length (unpack ss)) (new_tail ss v));
       Some (True, m, of_nat (3 * Suc k div 4), Suc k mod 4)
     })"
proof -
  define p where "p = 3 * k div 4"
  define i :: u32 where "i = of_nat p"
  have i: "unat i = p" "unat (i + 1) = Suc p" "of_nat (Suc p) = i + 1"
  proof -
    show "unat i = p" using k unfolding p_def i_def by (subst unat_of_nat) simp
    have "unat (of_nat (Suc p) :: u32) = Suc p" using k unfolding p_def by (subst unat_of_nat) simp
    then show "unat (i + 1) = Suc p" by (simp add: i_def add.commute)
    show "of_nat (Suc p) = i + 1" by (simp add: i_def)
  qed
  have le: "(ucast i \<ge> targsize) \<longleftrightarrow> unat targsize \<le> p"
    "(ucast (i + 1) \<ge> targsize) \<longleftrightarrow> unat targsize \<le> Suc p"
    using i k unfolding p_def by (simp_all add: word_le_nat_alt unsigned_ucast_eq take_bit_nat_eq_self)
  have len: "length (unpack ss) = p" by (simp add: length_unpack k_def p_def)
  have last: "load_u8 m (target + p) = Some (leftover ss)" if "target \<noteq> NULL" "k mod 4 \<noteq> 0"
    using m [OF that(1)] that(2) len load_bytes_split [of m target "unpack ss" "[leftover ss]"]
    unfolding written_def k_def [symmetric] load_u8_def by (simp add: bind_Some_iff)
  note eval = pton_char_def fits_def new_tail_def k_def [symmetric] i le not_le p_def [symmetric] i_def [symmetric]
  have "k mod 4 = 0 \<or> k mod 4 = 1 \<or> k mod 4 = 2 \<or> k mod 4 = 3" by presburger
  then show ?thesis
  proof (elim disjE)
    assume r: "k mod 4 = 0"
    note value_positions(1) [OF r, folded p_def]
    with r show ?thesis by (simp add: eval len store_u8_def del: store_bytes.simps of_nat_Suc)
  next
    assume r: "k mod 4 = 1"
    note value_positions(2) [OF r, folded p_def]
    with r last show ?thesis
      by (cases "target = NULL") (simp_all add: eval len or_then_store(2) del: store_bytes.simps of_nat_Suc)
  next
    assume r: "k mod 4 = 2"
    note value_positions(3) [OF r, folded p_def]
    with r last show ?thesis
      by (cases "target = NULL") (simp_all add: eval len or_then_store(2) del: store_bytes.simps of_nat_Suc)
  next
    assume r: "k mod 4 = 3"
    note value_positions(4) [OF r, folded p_def]
    with r last show ?thesis
      by (cases "target = NULL") (simp_all add: eval len or_then_store(1) del: store_bytes.simps of_nat_Suc)
  qed
qed

lemma holds_snoc:
  assumes h: "holds m0 target sz ss m" and v: "target \<noteq> NULL \<Longrightarrow> valid m0 target sz"
    and f: "fits target sz (Suc (length ss))"
  shows "\<exists>m'. (if target = NULL then Some m else store_bytes m (target + length (unpack ss)) (new_tail ss v)) = Some m' \<and>
    holds m0 target sz (ss @ [v]) m'"
proof (cases "target = NULL")
  case True
  then show ?thesis using h by (simp add: holds_def)
next
  case False
  have "length (written (ss @ [v])) \<le> sz" using f False by (simp add: fits_def length_written)
  then have "length (unpack ss) + length (new_tail ss v) \<le> sz" by (simp add: written_new_tail)
  moreover have "load_bytes m target (length (unpack ss) + length (if length ss mod 4 = 0 then [] else [leftover ss])) =
      Some (unpack ss @ (if length ss mod 4 = 0 then [] else [leftover ss]))" "same_except {target..<target + sz} m0 m"
    using h False by (simp_all add: holds_def written_def)
  ultimately obtain m' where m': "store_bytes m (target + length (unpack ss)) (new_tail ss v) = Some m'"
    "same_except {target..<target + sz} m0 m'"
    "load_bytes m' target (length (unpack ss) + length (new_tail ss v)) = Some (unpack ss @ new_tail ss v)"
    using store_last v [OF False] by blast
  have "holds m0 target sz (ss @ [v]) m'" using m'(2,3) False unfolding holds_def written_new_tail by simp
  then show ?thesis using m'(1) False by auto
qed

lemma holds_same: "holds m0 target sz ss m \<Longrightarrow> same_except (if target = NULL then {} else {target..<target + sz}) m0 m"
  by (auto simp: holds_def)

section \<open>The loop\<close>

text \<open>A string whose characters \<open>isspace\<close> is defined for.\<close>

definition text_ok :: "byte list \<Rightarrow> bool" where
  "text_ok cs \<longleftrightarrow> (\<forall>c \<in> set cs. c \<noteq> 0 \<and> (c < 0x80 \<or> c = 0xFF))"

lemma text_ok_Cons: "text_ok (c # cs) \<longleftrightarrow> c \<noteq> 0 \<and> isspace c = Some (space c) \<and> text_ok cs"
  by (auto simp: text_ok_def isspace_def space_def)

lemma scan_length: "scan cs ss = Some (ss', r) \<Longrightarrow> length ss \<le> length ss'"
  by (induction cs ss rule: scan.induct) (auto split: if_splits option.splits)

lemma scan_bound: "scan cs ss = Some (ss', r) \<Longrightarrow> length ss' \<le> length ss + length cs"
  by (induction cs ss rule: scan.induct) (auto split: if_splits option.splits)

text \<open>The characters \<open>cs\<close> and the terminating 0 at \<open>src\<close>.\<close>

definition string_at :: "mem \<Rightarrow> addr \<Rightarrow> byte list \<Rightarrow> addr set \<Rightarrow> bool" where
  "string_at m src cs A \<longleftrightarrow>
     load_bytes m src (length cs + 1) = Some (cs @ [0]) \<and> {src..<src + length cs + 1} \<inter> A = {}"

lemma string_at_step:
  assumes "string_at m0 src (c # cs) A" and "same_except A m0 m"
  shows "load_u8 m src = Some c" and "string_at m0 (src + 1) cs A"
proof -
  have "load_bytes m src (length (c # cs) + 1) = load_bytes m0 src (length (c # cs) + 1)"
    using assms by (intro load_bytes_same_except) (auto simp: string_at_def add.assoc)
  then show "load_u8 m src = Some c" using assms(1) by (auto simp: string_at_def load_u8_def bind_Some_iff)
  have "{src + 1..<src + 1 + length cs + 1} \<subseteq> {src..<src + length (c # cs) + 1}" by auto
  then have "{src + 1..<src + 1 + length cs + 1} \<inter> A = {}" using assms(1) unfolding string_at_def by blast
  then show "string_at m0 (src + 1) cs A" using assms(1) by (auto simp: string_at_def bind_Some_iff)
qed

lemma string_at_end:
  assumes "string_at m0 src [] A" and "same_except A m0 m"
  shows "load_u8 m src = Some 0"
proof -
  have "load_bytes m src 1 = load_bytes m0 src 1"
    using assms by (intro load_bytes_same_except) (auto simp: string_at_def)
  then show ?thesis using assms(1) by (auto simp: string_at_def load_u8_def bind_Some_iff)
qed

definition pton_loop_post ::
  "mem \<Rightarrow> addr \<Rightarrow> nat \<Rightarrow> (byte list \<times> byte list option) option \<Rightarrow>
   (bool \<times> mem \<times> byte \<times> addr \<times> u32 \<times> nat) option \<Rightarrow> bool" where
  "pton_loop_post m0 target sz sc res \<longleftrightarrow>
     (let A = (if target = NULL then {} else {target..<target + sz}) in
      case sc of
        Some (ss, rest) \<Rightarrow>
          (if fits target sz (length ss)
           then \<exists>m ch src. res = Some (True, m, ch, src, of_nat (3 * length ss div 4), length ss mod 4) \<and>
                  holds m0 target sz ss m \<and>
                  (case rest of None \<Rightarrow> ch = 0
                   | Some cs \<Rightarrow> ch = Pad64 \<and> string_at m0 src cs A \<and> text_ok cs)
           else \<exists>m x. res = Some (False, m, x) \<and> same_except A m0 m)
      | None \<Rightarrow> \<exists>m x. res = Some (False, m, x) \<and> same_except A m0 m)"

lemma pton_loop_scan:
  fixes targsize :: size_t
  defines "A target \<equiv> (if target = NULL then {} else {target..<target + unat targsize})"
  assumes "string_at m0 src cs (A target)" and "text_ok cs" and "holds m0 target (unat targsize) ss m"
    and v: "target \<noteq> NULL \<Longrightarrow> valid m0 target (unat targsize)"
    and "fits target (unat targsize) (length ss)" and "length ss + length cs < 2 ^ 32"
  shows "pton_loop_post m0 target (unat targsize) (scan cs ss)
    (pton_loop m src target targsize (of_nat (3 * length ss div 4)) (length ss mod 4))"
  using assms(2-4,6-)
proof (induction cs arbitrary: src ss m)
  case Nil
  have "load_u8 m src = Some 0" using string_at_end [OF Nil.prems(1)] holds_same [OF Nil.prems(3)] by (simp add: A_def)
  then show ?case using Nil.prems by (subst pton_loop.simps) (simp add: pton_loop_post_def)
next
  case (Cons c cs)
  note same = holds_same [OF Cons.prems(3), folded A_def]
  note c = string_at_step [OF Cons.prems(1) same]
  have t: "c \<noteq> 0" "isspace c = Some (space c)" "text_ok cs" using Cons.prems(2) by (simp_all add: text_ok_Cons)
  let ?lp = "pton_loop m src target targsize (of_nat (3 * length ss div 4)) (length ss mod 4)"
  consider "space c" | "\<not> space c" "c = Pad64" | "\<not> space c" "c \<noteq> Pad64" "strchr_Base64 c = None" |
    v where "\<not> space c" "c \<noteq> Pad64" "strchr_Base64 c = Some v" by blast
  then show ?case
  proof cases
    case 1
    then have "?lp = pton_loop m (src + 1) target targsize (of_nat (3 * length ss div 4)) (length ss mod 4)"
      using c(1) t by (subst pton_loop.simps) simp
    then show ?thesis using 1 Cons.IH [OF c(2) t(3) Cons.prems(3,4)] Cons.prems(5) by simp
  next
    case 2
    then have "?lp = Some (True, m, c, src + 1, of_nat (3 * length ss div 4), length ss mod 4)"
      using c(1) t by (subst pton_loop.simps) simp
    then show ?thesis using 2 c(2) t Cons.prems(3,4) by (simp add: pton_loop_post_def A_def Let_def)
  next
    case 3
    then have "?lp = Some (False, m, c, src + 1, of_nat (3 * length ss div 4), length ss mod 4)"
      using c(1) t by (subst pton_loop.simps) simp
    then show ?thesis using 3 same by (simp add: pton_loop_post_def A_def Let_def)
  next
    case (4 v)
    have step: "?lp = do {
        (ok, m, tarindex, state) \<leftarrow> pton_char m target targsize (of_nat (3 * length ss div 4)) (length ss mod 4) v;
        if \<not> ok then Some (False, m, c, src + 1, tarindex, state)
        else pton_loop m (src + 1) target targsize tarindex state }"
      using c(1) t 4 by (subst pton_loop.simps) simp
    have "3 * length ss div 4 + 1 < 2 ^ 32" using Cons.prems(5) by simp
    note ch = pton_char_eq [OF _ this, where target = target and m = m and targsize = targsize and v = v]
    have ld: "target \<noteq> NULL \<Longrightarrow> load_bytes m target (length (written ss)) = Some (written ss)"
      using Cons.prems(3) by (simp add: holds_def)
    show ?thesis
    proof (cases "fits target (unat targsize) (Suc (length ss))")
      case True
      then obtain m' where m': "(if target = NULL then Some m
          else store_bytes m (target + length (unpack ss)) (new_tail ss v)) = Some m'"
        "holds m0 target (unat targsize) (ss @ [v]) m'"
        using holds_snoc [OF Cons.prems(3) v] by blast
      have "?lp = pton_loop m' (src + 1) target targsize (of_nat (3 * length (ss @ [v]) div 4)) (length (ss @ [v]) mod 4)"
      proof -
        have "pton_char m target targsize (of_nat (3 * length ss div 4)) (length ss mod 4) v =
            Some (True, m', of_nat (3 * Suc (length ss) div 4), Suc (length ss) mod 4)"
          using ch [OF ld] True unfolding m'(1) by simp
        then show ?thesis unfolding step by simp
      qed
      then show ?thesis using 4 Cons.IH [OF c(2) t(3) m'(2)] True Cons.prems(5) by simp
    next
      case False
      then have lp: "?lp = Some (False, m, c, src + 1, of_nat (3 * length ss div 4), length ss mod 4)"
        using ch [OF ld] unfolding step by simp
      have "\<not> fits target (unat targsize) (length ss')" if "scan cs (ss @ [v]) = Some (ss', r)" for ss' r
        using False scan_length [OF that] fits_mono by fastforce
      then show ?thesis using 4 lp same
        by (auto simp: pton_loop_post_def A_def Let_def split: option.splits)
    qed
  qed
qed

section \<open>After the pad character\<close>

lemma skip_spaces_text:
  assumes "string_at m0 src cs A" and "text_ok (c # cs)" and "same_except A m0 m"
  shows "\<exists>src'. skip_spaces m c src = Some (case dropWhile space (c # cs) of [] \<Rightarrow> 0 | d # _ \<Rightarrow> d, src') \<and>
    (case dropWhile space (c # cs) of [] \<Rightarrow> True | d # ds \<Rightarrow> string_at m0 src' ds A \<and> text_ok (d # ds))"
  using assms
proof (induction cs arbitrary: c src)
  case Nil
  have "load_u8 m src = Some 0" using string_at_end Nil.prems by blast
  then show ?case using Nil.prems
    by (subst skip_spaces.simps) (auto simp: text_ok_Cons skip_spaces.simps [of m 0])
next
  case (Cons b cs)
  note b = string_at_step [OF Cons.prems(1,3)]
  have t: "c \<noteq> 0" "isspace c = Some (space c)" "text_ok (b # cs)" using Cons.prems(2) by (simp_all add: text_ok_Cons)
  show ?case
  proof (cases "space c")
    case True
    then have "skip_spaces m c src = skip_spaces m b (src + 1)" using t b(1) by (subst skip_spaces.simps) simp
    then show ?thesis using Cons.IH [OF b(2) t(3) Cons.prems(3)] True by simp
  next
    case False
    then show ?thesis using t Cons.prems(1,2) by (subst skip_spaces.simps) auto
  qed
qed

text \<open>The first character after the pad, and the rest of the string.\<close>

lemma skip_spaces_rest:
  assumes "string_at m0 src cs A" and "text_ok cs" and "same_except A m0 m"
  obtains c src' where "load_u8 m src = Some c"
    "skip_spaces m c (src + 1) = Some (case dropWhile space cs of [] \<Rightarrow> 0 | d # _ \<Rightarrow> d, src')"
    "case dropWhile space cs of [] \<Rightarrow> True | d # ds \<Rightarrow> string_at m0 src' ds A \<and> text_ok (d # ds)"
proof (cases cs)
  case Nil
  then show thesis using string_at_end [of m0 src A m] assms that [of 0]
    by (simp add: skip_spaces.simps [of m 0])
next
  case (Cons b bs)
  have b: "load_u8 m src = Some b" "string_at m0 (src + 1) bs A"
    using string_at_step [of m0 src b bs A m] assms Cons by auto
  obtain src' where "skip_spaces m b (src + 1) = Some (case dropWhile space (b # bs) of [] \<Rightarrow> 0 | d # _ \<Rightarrow> d, src') \<and>
    (case dropWhile space (b # bs) of [] \<Rightarrow> True | d # ds \<Rightarrow> string_at m0 src' ds A \<and> text_ok (d # ds))"
    using skip_spaces_text [OF b(2) _ assms(3), of b] assms(2) Cons by blast
  then show thesis using that [of b src'] b(1) Cons by simp
qed

lemma filter_dropWhile: "filter (\<lambda>c. \<not> space c) (dropWhile space cs) = filter (\<lambda>c. \<not> space c) cs"
  by (induction cs) auto

lemma no_text_iff: "filter (\<lambda>c. \<not> space c) cs = [] \<longleftrightarrow> dropWhile space cs = []"
  by (induction cs) auto

lemma one_char_iff:
  "filter (\<lambda>c. \<not> space c) cs = [p] \<longleftrightarrow>
     (\<exists>ds. dropWhile space cs = p # ds \<and> dropWhile space ds = [])" if "\<not> space p"
  using that by (induction cs) (auto simp: no_text_iff)

definition extra_ok :: "addr \<Rightarrow> byte list \<Rightarrow> bool" where
  "extra_ok target ss \<longleftrightarrow> target = NULL \<or> leftover ss = 0"

lemma pton_case_3_text:
  assumes s: "string_at m0 src cs A" "text_ok cs" "same_except A m0 m"
    and left: "target \<noteq> NULL \<Longrightarrow> load_u8 m (target + unat i) = Some (leftover ss)"
  shows "do { ch \<leftarrow> load_u8 m src; pton_case_3 m ch (src + 1) target i } =
    Some (if filter (\<lambda>c. \<not> space c) cs = [] \<and> extra_ok target ss then sint i else - 1)"
proof -
  obtain c src' where c: "load_u8 m src = Some c"
    and sk: "skip_spaces m c (src + 1) = Some (case dropWhile space cs of [] \<Rightarrow> 0 | d # _ \<Rightarrow> d, src')"
      "case dropWhile space cs of [] \<Rightarrow> True | d # ds \<Rightarrow> string_at m0 src' ds A \<and> text_ok (d # ds)"
    using s by (rule skip_spaces_rest)
  show ?thesis
  proof (cases "dropWhile space cs")
    case Nil
    then have "filter (\<lambda>c. \<not> space c) cs = []" by (simp only: no_text_iff)
    moreover have "skip_spaces m c (src + 1) = Some (0, src')" using sk(1) unfolding Nil by simp
    ultimately show ?thesis using c left by (auto simp: pton_case_3_def extra_ok_def)
  next
    case (Cons d ds)
    then show ?thesis using c sk by (auto simp: pton_case_3_def no_text_iff text_ok_Cons)
  qed
qed

lemma pton_case_2_text:
  assumes s: "string_at m0 src cs A" "text_ok cs" "same_except A m0 m"
    and left: "target \<noteq> NULL \<Longrightarrow> load_u8 m (target + unat i) = Some (leftover ss)"
  shows "do { ch \<leftarrow> load_u8 m src; pton_case_2 m ch (src + 1) target i } =
    Some (if filter (\<lambda>c. \<not> space c) cs = [Pad64] \<and> extra_ok target ss then sint i else - 1)"
proof -
  have pad: "\<not> space Pad64" "Pad64 \<noteq> 0" by (simp_all add: space_def Pad64_def)
  obtain c src' where c: "load_u8 m src = Some c"
    and sk: "skip_spaces m c (src + 1) = Some (case dropWhile space cs of [] \<Rightarrow> 0 | d # _ \<Rightarrow> d, src')"
      "case dropWhile space cs of [] \<Rightarrow> True | d # ds \<Rightarrow> string_at m0 src' ds A \<and> text_ok (d # ds)"
    using s by (rule skip_spaces_rest)
  show ?thesis
  proof (cases "dropWhile space cs")
    case Nil
    then have "filter (\<lambda>c. \<not> space c) cs = []" by (simp only: no_text_iff)
    moreover have "skip_spaces m c (src + 1) = Some (0, src')" using sk(1) unfolding Nil by simp
    ultimately show ?thesis using c pad by (auto simp: pton_case_2_def)
  next
    case (Cons d ds)
    have "string_at m0 src' ds A" "text_ok ds" using sk(2) Cons by (auto simp: text_ok_Cons)
    from pton_case_3_text [OF this s(3) left] Cons c sk show ?thesis
      by (auto simp: pton_case_2_def one_char_iff [OF pad(1)] no_text_iff)
  qed
qed

section \<open>Correctness of the decoder\<close>

definition b64_result :: "addr \<Rightarrow> nat \<Rightarrow> byte list \<Rightarrow> byte list option" where
  "b64_result target sz cs =
     (case scan cs [] of
        None \<Rightarrow> None
      | Some (ss, rest) \<Rightarrow>
          if fits target sz (length ss) \<and> padding_ok (length ss) rest \<and> extra_ok target ss
          then Some (unpack ss) else None)"

lemma pton_correct:
  fixes targsize :: size_t
  assumes str: "string_at m src cs (if target = NULL then {} else {target..<target + unat targsize})" "text_ok cs"
    and v: "target \<noteq> NULL \<Longrightarrow> valid m target (unat targsize)" and len: "length cs < 2 ^ 31"
  shows "\<exists>r m'. f_b64_pton m src target targsize = Some (r, m') \<and>
    same_except (if target = NULL then {} else {target..<target + unat targsize}) m m' \<and>
    (case b64_result target (unat targsize) cs of
       None \<Rightarrow> r = - 1
     | Some bs \<Rightarrow> r = int (length bs) \<and> (target \<noteq> NULL \<longrightarrow> load_bytes m' target (length bs) = Some bs))"
proof -
  let ?A = "if target = NULL then {} else {target..<target + unat targsize}"
  have "holds m target (unat targsize) [] m" "fits target (unat targsize) (length ([] :: byte list))"
    by (auto simp: holds_def fits_def written_def)
  from pton_loop_scan [OF str this(1) v this(2)] len
  have post: "pton_loop_post m target (unat targsize) (scan cs []) (pton_loop m src target targsize 0 0)" by simp
  show ?thesis
  proof (cases "scan cs []")
    case None
    then show ?thesis using post by (auto simp: pton_loop_post_def f_b64_pton_def b64_result_def Let_def)
  next
    case (Some a)
    obtain ss rest where sc: "scan cs [] = Some (ss, rest)" using Some by (cases a) auto
    show ?thesis
    proof (cases "fits target (unat targsize) (length ss)")
      case False
      then show ?thesis using post sc by (auto simp: pton_loop_post_def f_b64_pton_def b64_result_def Let_def)
    next
      case True
      let ?i = "of_nat (3 * length ss div 4) :: u32" and ?k = "length ss"
      obtain m' ch src' where lp: "pton_loop m src target targsize 0 0 = Some (True, m', ch, src', ?i, ?k mod 4)"
        and h: "holds m target (unat targsize) ss m'"
        and ch: "case rest of None \<Rightarrow> ch = 0 | Some cs' \<Rightarrow> ch = Pad64 \<and> string_at m src' cs' ?A \<and> text_ok cs'"
        using post sc True by (auto simp: pton_loop_post_def Let_def)
      note same = holds_same [OF h]
      have "length ss \<le> length cs" using scan_bound [OF sc] by simp
      then have lt: "3 * length ss div 4 < 2 ^ 31" using len by simp
      have i: "sint ?i = int (length (unpack ss))" "unat ?i = length (unpack ss)"
        using lt by (simp_all add: length_unpack sint_small unat_of_nat)
      have bytes: "target \<noteq> NULL \<Longrightarrow> load_bytes m' target (length (unpack ss)) = Some (unpack ss)"
        and left: "target \<noteq> NULL \<Longrightarrow> ?k mod 4 \<noteq> 0 \<Longrightarrow> load_u8 m' (target + unat ?i) = Some (leftover ss)"
        using h load_bytes_split [of m' target "unpack ss" "[leftover ss]"] i(2)
        by (auto simp: holds_def written_def load_u8_def bind_Some_iff split: if_splits)
      have "f_b64_pton m src target targsize =
          Some (if padding_ok ?k rest \<and> extra_ok target ss then sint ?i else - 1, m')"
      proof (cases rest)
        case None
        then show ?thesis using lp ch leftover_full [of ss]
          by (auto simp: f_b64_pton_def padding_ok_def extra_ok_def Pad64_def)
      next
        case (Some cs')
        have s: "string_at m src' cs' ?A" "text_ok cs'" "ch = Pad64" using ch Some by auto
        obtain c where c: "load_u8 m' src' = Some c" using s(1,2) same by (rule skip_spaces_rest)
        have "?k mod 4 = 0 \<or> ?k mod 4 = 1 \<or> ?k mod 4 = 2 \<or> ?k mod 4 = 3" by presburger
        then show ?thesis
        proof (elim disjE)
          assume "?k mod 4 = 2"
          then show ?thesis using lp s pton_case_2_text [OF s(1,2) same left] Some
            by (auto simp: f_b64_pton_def padding_ok_def bind_Some_iff)
        next
          assume "?k mod 4 = 3"
          then show ?thesis using lp s pton_case_3_text [OF s(1,2) same left] Some
            by (auto simp: f_b64_pton_def padding_ok_def bind_Some_iff)
        qed (use lp s Some c in \<open>simp_all add: f_b64_pton_def padding_ok_def\<close>)
      qed
      then show ?thesis using same sc True i(1) bytes by (auto simp: b64_result_def)
    qed
  qed
qed

end
