(* ===== verification/F_Base64_Correct.thy ===== *)
theory F_Base64_Correct
  imports F_Base64_Decode PB_Example
begin

text \<open>
  What \<open>f_b64_ntop\<close> and \<open>f_b64_pton\<close> guarantee: the encoder is correct and stays inside its target,
  the decoder accepts exactly the texts of the reference decoder, and decoding an encoded
  text gives back the bytes.
\<close>

section \<open>The alphabet\<close>

lemma index_of_nth: "distinct xs \<Longrightarrow> i < length xs \<Longrightarrow> index_of xs (xs ! i) = Some i"
proof (induction xs arbitrary: i)
  case Nil
  then show ?case by simp
next
  case (Cons x xs)
  then show ?case by (cases i) auto
qed

lemma Base64_letters:
  "length Base64 = 64" "distinct Base64"
  "list_all (\<lambda>c. \<not> space c \<and> c \<noteq> Pad64 \<and> c \<noteq> 0 \<and> c < 0x80) Base64"
  by (simp_all add: Base64_def space_def Pad64_def)

lemma digit_letter:
  assumes "w < 64"
  shows "strchr_Base64 (digit w) = Some w" "\<not> space (digit w)" "digit w \<noteq> Pad64" "digit w \<noteq> 0" "digit w < 0x80"
proof -
  have i: "unat w < length Base64" using assms by (simp add: Base64_letters word_less_nat_alt)
  then show "strchr_Base64 (digit w) = Some w"
    by (simp add: strchr_Base64_def digit_def index_of_nth Base64_letters)
  have "Base64 ! unat w \<in> set Base64" using i by simp
  then show "\<not> space (digit w)" "digit w \<noteq> Pad64" "digit w \<noteq> 0" "digit w < 0x80"
    using Base64_letters(3) by (auto simp: list_all_iff digit_def)
qed

section \<open>Six-bit groups\<close>

lemma six_bits_iff: "(w :: byte) < 64 \<longleftrightarrow> \<not> bit w 6 \<and> \<not> bit w 7"
proof -
  have "w < 64 \<longleftrightarrow> take_bit 6 w = w"
    by (simp add: word_less_nat_alt word_unat_eq_iff unat_take_bit_mod mod_eq_self_iff_div_eq_0 div_eq_0_iff)
  also have "\<dots> \<longleftrightarrow> (\<forall>n < 8. bit w n \<longrightarrow> n < 6)"
    by (auto simp: bit_eq_iff bit_take_bit_iff)
  also have "\<dots> \<longleftrightarrow> \<not> bit w 6 \<and> \<not> bit w 7"
    by (auto simp: numeral_eq_Suc less_Suc_eq)
  finally show ?thesis .
qed

lemma sextets_or:
  "sextets a b c = [drop_bit 2 a, push_bit 4 (a AND 3) OR drop_bit 4 b, push_bit 2 (b AND 15) OR drop_bit 6 c, c AND 63]"
proof -
  have "push_bit 4 (a AND 3) + drop_bit 4 b = push_bit 4 (a AND 3) OR drop_bit 4 b" for a b :: byte
    by (rule disjunctive_add_eq_or) (rule bit_word_eqI, auto simp: bit_simps dest: bit_imp_le_length)
  moreover have "push_bit 2 (b AND 15) + drop_bit 6 c = push_bit 2 (b AND 15) OR drop_bit 6 c" for b c :: byte
    by (rule disjunctive_add_eq_or) (rule bit_word_eqI, auto simp: bit_simps dest: bit_imp_le_length)
  ultimately show ?thesis by (simp only: sextets_def)
qed


lemma byte_high: "8 \<le> n \<Longrightarrow> \<not> bit (w :: byte) n"
  by (auto dest: bit_imp_le_length)

lemma sextets_small: "s \<in> set (sextets a b c) \<Longrightarrow> s < 64"
  unfolding sextets_or six_bits_iff by (auto simp: bit_simps byte_high)

lemma byte_bit_cases: "n < 8 \<longleftrightarrow> n = 0 \<or> n = 1 \<or> n = 2 \<or> n = 3 \<or> n = 4 \<or> n = 5 \<or> n = 6 \<or> n = (7 :: nat)"
  by auto

lemma unpack_sextets:
  "unpack (sextets a b c @ ss) = a # b # c # unpack ss"
  "unpack (take 3 (sextets a b 0)) = [a, b]" "unpack (take 2 (sextets a 0 0)) = [a]"
  "leftover (sextets a b c @ ss) = leftover ss"
  "leftover (take 3 (sextets a b 0)) = 0" "leftover (take 2 (sextets a 0 0)) = 0"
proof -
  have 1: "push_bit 2 (drop_bit 2 a) OR drop_bit 4 (push_bit 4 (a AND 3) OR drop_bit 4 b) = a" for a b :: byte
    by (rule bit_word_eqI) (auto simp: bit_simps byte_bit_cases byte_high numeral_2_eq_2 [symmetric] numeral_3_eq_3 [symmetric])
  have 2: "push_bit 4 ((push_bit 4 (a AND 3) OR drop_bit 4 b) AND 15) OR
      drop_bit 2 (push_bit 2 (b AND 15) OR drop_bit 6 c) = b" for a b c :: byte
    by (rule bit_word_eqI) (auto simp: bit_simps byte_bit_cases byte_high numeral_2_eq_2 [symmetric] numeral_3_eq_3 [symmetric])
  have 3: "push_bit 6 ((push_bit 2 (b AND 15) OR drop_bit 6 c) AND 3) OR (c AND 63) = c" for b c :: byte
    by (rule bit_word_eqI) (auto simp: bit_simps byte_bit_cases byte_high numeral_2_eq_2 [symmetric] numeral_3_eq_3 [symmetric])
  have 4: "push_bit 4 (push_bit 4 (a AND 3) AND 15) = 0" "push_bit 6 (push_bit 2 (a AND 15) AND 3) = 0" for a :: byte
    by (rule bit_word_eqI, auto simp: bit_simps byte_bit_cases)+
  show "unpack (sextets a b c @ ss) = a # b # c # unpack ss" "leftover (sextets a b c @ ss) = leftover ss"
    by (simp_all only: sextets_or append_Cons append_Nil unpack.simps leftover.simps 1 2 3)
  show "unpack (take 3 (sextets a b 0)) = [a, b]" "leftover (take 3 (sextets a b 0)) = 0"
    using 1 2 [of a b 0] 4 by (simp_all add: sextets_or numeral_3_eq_3)
  show "unpack (take 2 (sextets a 0 0)) = [a]" "leftover (take 2 (sextets a 0 0)) = 0"
    using 1 [of a 0] 4 by (simp_all add: sextets_or numeral_2_eq_2)
qed

lemma scan_digits:
  "(\<And>s. s \<in> set ss \<Longrightarrow> s < 64) \<Longrightarrow> scan (map digit ss @ cs) acc = scan cs (acc @ ss)"
  by (induction ss arbitrary: acc) (simp_all add: digit_letter)

text \<open>The six-bit values of an encoded text, and what follows them.\<close>

lemma scan_encode:
  "\<exists>ss rest. scan (b64_encode xs) acc = Some (acc @ ss, rest) \<and> unpack ss = xs \<and> leftover ss = 0 \<and>
     padding_ok (length ss) rest \<and> 3 * length ss + 3 \<le> 4 * (length xs + (if length xs mod 3 = 0 then 0 else 1)) + 3"
proof (induction xs arbitrary: acc rule: b64_encode.induct)
  case 1
  then show ?case by (simp add: padding_ok_def)
next
  case (2 a)
  let ?ss = "take 2 (sextets a 0 0)"
  have sm: "\<And>s. s \<in> set ?ss \<Longrightarrow> s < 64" using sextets_small by (meson in_set_takeD)
  have "scan (b64_encode [a]) acc = Some (acc @ ?ss, Some [Pad64])"
    using scan_digits [of ?ss "[Pad64, Pad64]" acc] sm by (simp add: space_def Pad64_def)
  then show ?case using unpack_sextets(3,6) [of a]
    by (intro exI [of _ ?ss] exI [of _ "Some [Pad64]"]) (simp add: padding_ok_def space_def Pad64_def)
next
  case (3 a b)
  let ?ss = "take 3 (sextets a b 0)"
  have sm: "\<And>s. s \<in> set ?ss \<Longrightarrow> s < 64" using sextets_small by (meson in_set_takeD)
  have "scan (b64_encode [a, b]) acc = Some (acc @ ?ss, Some [])"
    using scan_digits [of ?ss "[Pad64]" acc] sm by (simp add: space_def Pad64_def)
  then show ?case using unpack_sextets(2,5) [of a b]
    by (intro exI [of _ ?ss] exI [of _ "Some []"]) (simp add: padding_ok_def)
next
  case (4 a b c xs)
  obtain ss rest where s: "scan (b64_encode xs) (acc @ sextets a b c) = Some ((acc @ sextets a b c) @ ss, rest)"
    "unpack ss = xs" "leftover ss = 0" "padding_ok (length ss) rest"
    "3 * length ss + 3 \<le> 4 * (length xs + (if length xs mod 3 = 0 then 0 else 1)) + 3"
    using "4.IH" [of "acc @ sextets a b c"] by blast
  have "padding_ok (length (sextets a b c @ ss)) rest" using s(4) by (simp add: padding_ok_def split: option.splits)
  moreover have "scan (b64_encode (a # b # c # xs)) acc = Some (acc @ (sextets a b c @ ss), rest)"
    using scan_digits [of "sextets a b c" "b64_encode xs" acc] sextets_small s(1) by simp
  moreover have "length (a # b # c # xs) mod 3 = length xs mod 3" by simp
  ultimately show ?case using s(2,3,5)
    by (intro exI [of _ "sextets a b c @ ss"] exI [of _ rest]) (simp add: unpack_sextets(1,4))
qed

lemma encoded_text: "text_ok (b64_encode xs)"
proof -
  have d: "s < 64 \<Longrightarrow> digit s \<noteq> 0 \<and> (digit s < 0x80 \<or> digit s = 0xFF)" for s using digit_letter by blast
  show ?thesis
  proof (induction xs rule: b64_encode.induct)
    case (2 a)
    then show ?case using d sextets_small [of _ a 0 0] by (auto simp: text_ok_def Pad64_def dest: in_set_takeD)
  next
    case (3 a b)
    then show ?case using d sextets_small [of _ a b 0] by (auto simp: text_ok_def Pad64_def dest: in_set_takeD)
  next
    case (4 a b c xs)
    then show ?case using d sextets_small [of _ a b c] by (auto simp: text_ok_def)
  qed (simp add: text_ok_def)
qed

lemma b64_decode_encode: "b64_decode (b64_encode xs) = Some xs"
  using scan_encode [of xs "[]"] by (auto simp: b64_decode_def)

lemma b64_result_encode:
  assumes "target \<noteq> NULL" and "length xs + (if length xs mod 3 = 0 then 0 else 1) \<le> sz"
  shows "b64_result target sz (b64_encode xs) = Some xs"
proof -
  obtain ss rest where s: "scan (b64_encode xs) [] = Some (ss, rest)" "unpack ss = xs" "leftover ss = 0"
    "padding_ok (length ss) rest" "3 * length ss + 3 \<le> 4 * (length xs + (if length xs mod 3 = 0 then 0 else 1)) + 3"
    using scan_encode [of xs "[]"] by auto
  have "(3 * length ss + 3) div 4 \<le> length xs + (if length xs mod 3 = 0 then 0 else 1)"
    using div_le_mono [OF s(5), of 4] by simp
  then have "fits target sz (length ss)" using assms by (simp add: fits_def)
  then show ?thesis using s by (simp add: b64_result_def extra_ok_def)
qed

text \<open>The buffer size of \<open>base64EncodedStringFromData:\<close>.\<close>

lemma buffer_size_enough: "4 * ((n + 2) div 3) < (3 * n + 2) div 2 \<longleftrightarrow> n \<notin> {1, 2, 4, 5, 7, 10, 13}" for n :: nat
proof (cases "n < 14")
  case True
  moreover have "\<forall>n \<in> set [0..<14]. (4 * ((n + 2) div 3) < (3 * n + 2) div 2) = (n \<notin> {1, 2, 4, 5, 7, 10, 13 :: nat})"
    by code_simp
  ultimately show ?thesis by simp
next
  case False
  have "3 * ((n + 2) div 3) \<le> n + 2" "3 * n + 1 \<le> 2 * ((3 * n + 2) div 2)" by simp_all
  then show ?thesis using False by auto
qed

lemma load_bytes_prefix:
  "load_bytes m p (Suc (length xs)) = Some (xs @ [x]) \<Longrightarrow> load_bytes m p (length xs) = Some xs"
  using load_bytes_split [of m p xs "[x]"] by simp

section \<open>The properties\<close>

text \<open>
  C10. \<open>f_b64_ntop\<close> encodes: with a target of more than \<open>4 * ceil(n / 3)\<close> bytes it writes the base64
  text of the source and a terminating 0, returns the length of the text and touches no
  other byte; with a smaller target it returns -1 and touches only the target.
\<close>

theorem f_b64_ntop_correct:
  assumes "load_bytes m src (length xs) = Some xs" and "4 * ((length xs + 2) div 3) < 2 ^ 31"
    and "valid m target (unat targsize)" and "unat targsize < 2 ^ 63"
    and "{src..<src + length xs} \<inter> {target..<target + unat targsize} = {}"
  shows "\<exists>m'. if 4 * ((length xs + 2) div 3) < unat targsize
     then f_b64_ntop m src (of_nat (length xs)) target targsize = Some (int (length (b64_encode xs)), m') \<and>
          load_bytes m' target (length (b64_encode xs) + 1) = Some (b64_encode xs @ [0]) \<and>
          same_except {target..<target + length (b64_encode xs) + 1} m m'
     else f_b64_ntop m src (of_nat (length xs)) target targsize = Some (- 1, m') \<and>
          same_except {target..<target + unat targsize} m m'"
proof -
  have "length xs < 2 ^ 64" using assms(2) by simp
  from ntop_from_post [OF assms(1) this assms(3) _ assms(4,5), of 0]
  have "ntop_post m target (unat targsize) 0 (b64_encode xs) (f_b64_ntop m src (of_nat (length xs)) target targsize)"
    by (simp add: ntop_from_0)
  then show ?thesis using assms(2) unfolding length_b64_encode [symmetric]
    by (auto simp: ntop_post_def sint_small split: if_splits)
qed

text \<open>The bytes ``Man'' at 1000 and a target of eight bytes at 1100.\<close>

definition b64_mem :: mem where
  "b64_mem = \<lparr>cells = (\<lambda>a. if a = 1000 then Some 0x4D else if a = 1001 then Some 0x61 else if a = 1002 then Some 0x6E
                           else if 1100 \<le> a \<and> a < 1116 then Some 0xAA else None),
             blocks = (\<lambda>_. None), brk = 2000, heap_end = 3000, junk = (\<lambda>_. 0xAA)\<rparr>"

theorem f_b64_ntop_correct_witness:
  "\<exists>m'. f_b64_ntop b64_mem 1000 3 1100 8 = Some (4, m') \<and>
     load_bytes m' 1100 5 = Some [0x54, 0x57, 0x46, 0x75, 0]"
proof -
  have "load_bytes b64_mem 1000 (length [0x4D, 0x61, 0x6E :: byte]) = Some [0x4D, 0x61, 0x6E]"
    by (simp add: b64_mem_def)
  moreover have "valid b64_mem 1100 (unat (8 :: size_t))" by (simp add: valid_def b64_mem_def)
  moreover have e: "b64_encode [0x4D, 0x61, 0x6E] = [0x54, 0x57, 0x46, 0x75]"
    by (simp add: sextets_def digit_def Base64_def)
  ultimately show ?thesis
    using f_b64_ntop_correct [of b64_mem 1000 "[0x4D, 0x61, 0x6E]" 1100 8] by (auto simp: load_bytes_numeral)
qed

text \<open>
  C11. \<open>f_b64_pton\<close> decodes: for a text of characters \<open>isspace\<close> is defined for and a target with
  room for it, it returns the number of bytes and has written them when the text is base64
  (white space anywhere, padded with \<open>=\<close> to a multiple of four, unused bits zero), and
  returns -1 for any other text; only the target is touched.
\<close>

theorem f_b64_pton_correct:
  assumes "load_bytes m src (length cs + 1) = Some (cs @ [0])" and "text_ok cs" and "length cs < 2 ^ 31"
    and "target \<noteq> NULL" and "valid m target (unat targsize)" and "(3 * length cs + 3) div 4 \<le> unat targsize"
    and "{src..<src + length cs + 1} \<inter> {target..<target + unat targsize} = {}"
  shows "\<exists>r m'. f_b64_pton m src target targsize = Some (r, m') \<and>
     same_except {target..<target + unat targsize} m m' \<and>
     (case b64_decode cs of
        None \<Rightarrow> r = - 1
      | Some bs \<Rightarrow> r = int (length bs) \<and> load_bytes m' target (length bs) = Some bs)"
proof -
  have "fits target (unat targsize) (length ss)" if "scan cs [] = Some (ss, rest)" for ss rest
    using scan_bound [OF that] assms(4,6) fits_mono [of target "unat targsize" "length cs" "length ss"]
    by (simp add: fits_def)
  then have "b64_result target (unat targsize) cs = b64_decode cs"
    using assms(4) by (auto simp: b64_result_def b64_decode_def extra_ok_def split: option.splits)
  then show ?thesis using pton_correct [of m src cs target targsize] assms
    by (cases "b64_decode cs") (auto simp: string_at_def)
qed

text \<open>The text ``TWFu'' at 1000.\<close>

definition text_mem :: mem where
  "text_mem = \<lparr>cells = (\<lambda>a. if a = 1000 then Some 0x54 else if a = 1001 then Some 0x57 else if a = 1002 then Some 0x46
                           else if a = 1003 then Some 0x75 else if a = 1004 then Some 0
                           else if 1100 \<le> a \<and> a < 1108 then Some 0xAA else None),
             blocks = (\<lambda>_. None), brk = 2000, heap_end = 3000, junk = (\<lambda>_. 0xAA)\<rparr>"

lemma text_mem_string:
  "load_bytes text_mem 1000 (length [0x54, 0x57, 0x46, 0x75 :: byte] + 1) = Some ([0x54, 0x57, 0x46, 0x75] @ [0])"
  "text_ok [0x54, 0x57, 0x46, 0x75]" "b64_encode [0x4D, 0x61, 0x6E] = [0x54, 0x57, 0x46, 0x75]"
  by (simp_all add: text_mem_def text_ok_def sextets_def digit_def Base64_def)

theorem f_b64_pton_correct_witness:
  "\<exists>m'. f_b64_pton text_mem 1000 1100 8 = Some (3, m') \<and> load_bytes m' 1100 3 = Some [0x4D, 0x61, 0x6E]"
proof -
  have "valid text_mem 1100 (unat (8 :: size_t))" by (simp add: valid_def text_mem_def)
  moreover have "b64_decode [0x54, 0x57, 0x46, 0x75] = Some [0x4D, 0x61, 0x6E]"
    using b64_decode_encode [of "[0x4D, 0x61, 0x6E]"] text_mem_string(3) by simp
  moreover have "{1000..<1005 :: nat} \<inter> {1100..<1108} = {}" by auto
  ultimately show ?thesis
    using f_b64_pton_correct [OF text_mem_string(1,2), of 1100 8] by (auto simp: NULL_def load_bytes_numeral)
qed

text \<open>
  \<open>f_b64_pton\<close> never writes outside its target: for any text and any target size it returns,
  and changes no byte but those of the target.
\<close>

lemma f_b64_pton_safe:
  assumes "load_bytes m src (length cs + 1) = Some (cs @ [0])" and "text_ok cs" and "length cs < 2 ^ 31"
    and "target \<noteq> NULL" and "valid m target (unat targsize)"
    and "{src..<src + length cs + 1} \<inter> {target..<target + unat targsize} = {}"
  shows "\<exists>r m'. f_b64_pton m src target targsize = Some (r, m') \<and>
     same_except {target..<target + unat targsize} m m' \<and> - 1 \<le> r \<and> r \<le> int (unat targsize)"
proof -
  have "int (length bs) \<le> int (unat targsize)" if "b64_result target (unat targsize) cs = Some bs" for bs
  proof -
    obtain ss where ss: "fits target (unat targsize) (length ss)" "bs = unpack ss"
      using \<open>b64_result target (unat targsize) cs = Some bs\<close>
      by (auto simp: b64_result_def split: option.splits if_splits)
    have "3 * length ss div 4 \<le> (3 * length ss + 3) div 4" by (rule div_le_mono) simp
    then have "length bs \<le> unat targsize" using ss assms(4) by (simp add: fits_def length_unpack)
    then show ?thesis by (simp only: of_nat_le_iff)
  qed
  moreover obtain r m' where "f_b64_pton m src target targsize = Some (r, m')"
    "same_except {target..<target + unat targsize} m m'"
    "case b64_result target (unat targsize) cs of None \<Rightarrow> r = - 1 | Some bs \<Rightarrow> r = int (length bs) \<and>
       (target \<noteq> NULL \<longrightarrow> load_bytes m' target (length bs) = Some bs)"
    using pton_correct [of m src cs target targsize] assms by (auto simp: string_at_def)
  moreover have "- 1 \<le> uint targsize" by (rule order_trans [of _ 0]) simp_all
  ultimately show ?thesis by (cases "b64_result target (unat targsize) cs") auto
qed

text \<open>
  C12. Round trip: \<open>f_b64_pton\<close> applied to what \<open>f_b64_ntop\<close> has written gives back the source
  bytes and their number, for a second target of one byte more than them (or as many, when
  their number is a multiple of three).
\<close>

theorem f_b64_roundtrip:
  assumes "load_bytes m src (length xs) = Some xs" and "4 * ((length xs + 2) div 3) < 2 ^ 31"
    and "valid m text (unat textsize)" and "unat textsize < 2 ^ 63" and "4 * ((length xs + 2) div 3) < unat textsize"
    and "valid m target (unat targsize)" and "target \<noteq> NULL"
    and "length xs + (if length xs mod 3 = 0 then 0 else 1) \<le> unat targsize"
    and "{src..<src + length xs} \<inter> {text..<text + unat textsize} = {}"
    and "{text..<text + unat textsize} \<inter> {target..<target + unat targsize} = {}"
  shows "\<exists>m1 m2. f_b64_ntop m src (of_nat (length xs)) text textsize = Some (int (length (b64_encode xs)), m1) \<and>
     f_b64_pton m1 text target targsize = Some (int (length xs), m2) \<and>
     load_bytes m2 target (length xs) = Some xs"
proof -
  let ?cs = "b64_encode xs"
  have len: "length ?cs = 4 * ((length xs + 2) div 3)" by (rule length_b64_encode)
  have "length xs < 2 ^ 64" using assms(2) by simp
  from ntop_from_post [OF assms(1) this assms(3) _ assms(4,9), of 0]
  have "ntop_post m text (unat textsize) 0 ?cs (f_b64_ntop m src (of_nat (length xs)) text textsize)"
    by (simp add: ntop_from_0)
  then obtain m1 where m1: "f_b64_ntop m src (of_nat (length xs)) text textsize = Some (int (length ?cs), m1)"
    "same_except {text..<text + length ?cs + 1} m m1" "load_bytes m1 text (length ?cs + 1) = Some (?cs @ [0])"
    using assms(2,5) unfolding len [symmetric] by (auto simp: ntop_post_def sint_small)
  have "{text..<text + length ?cs + 1} \<subseteq> {text..<text + unat textsize}" using assms(5) len by auto
  then have str: "string_at m1 text ?cs (if target = NULL then {} else {target..<target + unat targsize})"
    unfolding string_at_def using m1(3) assms(7,10) by auto
  have v: "valid m1 target (unat targsize)" using assms(6) same_except_valid [OF m1(2)] by simp
  have res: "b64_result target (unat targsize) ?cs = Some xs" using assms(7,8) by (rule b64_result_encode)
  have "length ?cs < 2 ^ 31" using assms(2) len by simp
  from pton_correct [OF str encoded_text v this] res m1(1) assms(7) show ?thesis by auto
qed

theorem f_b64_roundtrip_witness:
  "\<exists>m1 m2. f_b64_ntop b64_mem 1000 3 1100 8 = Some (4, m1) \<and> f_b64_pton m1 1100 1108 3 = Some (3, m2) \<and>
     load_bytes m2 1108 3 = Some [0x4D, 0x61, 0x6E]"
proof -
  have ld: "load_bytes b64_mem 1000 (length [0x4D, 0x61, 0x6E :: byte]) = Some [0x4D, 0x61, 0x6E]"
    by (simp add: b64_mem_def)
  have v: "valid b64_mem 1100 (unat (8 :: size_t))" "valid b64_mem 1108 (unat (3 :: size_t))"
    by (simp_all add: valid_def b64_mem_def)
  have "{1000..<1003 :: nat} \<inter> {1100..<1108} = {}" "{1100..<1108 :: nat} \<inter> {1108..<1111} = {}" by auto
  then show ?thesis using f_b64_roundtrip [OF ld _ v(1) _ _ v(2)] text_mem_string(3)
    by (auto simp: NULL_def load_bytes_numeral)
qed

text \<open>
  C13. \<open>base64EncodedStringFromData:\<close> allocates \<open>(3 n + 2) / 2\<close> bytes for \<open>n\<close> bytes of data. It
  returns the base64 text exactly when that is more than \<open>4 * ceil(n / 3)\<close>, and nil
  otherwise: for data of 1, 2, 4, 5, 7, 10 or 13 bytes there is no result.
\<close>

theorem base64EncodedStringFromData_result:
  assumes "load_bytes m bytes (length xs) = Some xs" and "length xs < 2 ^ 29" and "wf_heap m" and "brk m \<noteq> 0"
    and "brk m + (3 * length xs + 2) div 2 \<le> heap_end m"
  shows "\<exists>m'. base64EncodedStringFromData m bytes (of_nat (length xs)) =
    Some (if length xs \<in> {1, 2, 4, 5, 7, 10, 13} then None else Some (b64_encode xs), m')"
proof -
  let ?n = "length xs" and ?s = "(3 * length xs + 2) div 2"
  have sz: "unat ((of_nat ?n * 3 + 2) div 2 :: size_t) = ?s"
  proof -
    have "(of_nat ?n * 3 + 2 :: size_t) = of_nat (3 * ?n + 2)" by simp
    then have "unat (of_nat ?n * 3 + 2 :: size_t) = 3 * ?n + 2"
      using assms(2) unat_of_nat_size [of "3 * ?n + 2"] by (simp only:) simp
    then show ?thesis by (simp only: unat_div) simp
  qed
  obtain q m1 where mal: "c_malloc m [] ?s = (q, m1)" by fastforce
  have q: "q \<noteq> NULL" using mal assms(4,5) by (auto simp: c_malloc_def NULL_def)
  note blk = c_malloc_block [OF mal q, simplified]
  have src: "\<And>a. a \<in> {bytes..<bytes + ?n} \<Longrightarrow> cells m a \<noteq> None"
    using assms(1) load_bytes_Some_iff [of m bytes ?n] by (auto simp: valid_def)
  have fresh: "cells m a = None" if "a \<in> {q..<q + ?s}" for a
    using that assms(3,5) blk(1) by (auto simp: wf_heap_def)
  have dj: "{bytes..<bytes + ?n} \<inter> {q..<q + ?s} = {}" using src fresh by blast
  have "load_bytes m1 bytes ?n = Some xs"
  proof -
    have "cells m1 a = cells m a" if "a \<in> {bytes..<bytes + ?n}" for a
      using mal that dj q by (auto simp: c_malloc_def map_range_def NULL_def split: if_splits)
    then show ?thesis using load_bytes_cong [of bytes ?n m1 m] assms(1) by simp
  qed
  note post = ntop_from_post [OF this, of q "(of_nat ?n * 3 + 2) div 2" 0, unfolded sz]
  have "ntop_post m1 q ?s 0 (b64_encode xs) (f_b64_ntop m1 bytes (of_nat ?n) q ((of_nat ?n * 3 + 2) div 2))"
    using post assms(2) blk(4) dj by (simp add: ntop_from_0)
  moreover have "length (b64_encode xs) < ?s \<longleftrightarrow> ?n \<notin> {1, 2, 4, 5, 7, 10, 13}"
    unfolding length_b64_encode by (rule buffer_size_enough)
  moreover have "blocks m1 q = Some ?s" using blk(3) by simp
  moreover have "length (b64_encode xs) < 2 ^ 31" using assms(2) by (simp add: length_b64_encode)
  ultimately show ?thesis using mal q sz
    by (auto simp: base64EncodedStringFromData_def ntop_post_def Let_def sint_small c_free_def same_except_def
        load_bytes_prefix split: if_splits)
qed

theorem base64EncodedStringFromData_result_witness:
  "\<exists>m'. base64EncodedStringFromData b64_mem 1000 2 = Some (None, m')"
proof -
  have "load_bytes b64_mem 1000 (length [0x4D, 0x61 :: byte]) = Some [0x4D, 0x61]" by (simp add: b64_mem_def)
  moreover have "wf_heap b64_mem" by (auto simp: wf_heap_def b64_mem_def)
  ultimately show ?thesis
    using base64EncodedStringFromData_result [of b64_mem 1000 "[0x4D, 0x61]"] by (simp add: b64_mem_def)
qed

end
