(* ===== verification/LDB_Coding.thy ===== *)
theory LDB_Coding
  imports Prelude "HOL-Library.List_Lexorder"
begin

text \<open>
  The byte-level base of the LevelDB library: slices (\<open>slice.h\<close>), the fixed-width and variable-width
  integer encodings (\<open>coding.h\<close>, \<open>coding.cc\<close>) and the bytewise comparator (\<open>comparator.cc\<close>).
  A slice or a \<open>std::string\<close> is the list of its bytes; a range of bytes between two pointers
  is the list of the bytes in it, and a pointer returned past a parsed value is the rest of
  that list.
\<close>

section \<open>Slices\<close>

type_synonym slice = "byte list"

text \<open>The sign of \<open>memcmp\<close> on the first \<open>n\<close> bytes.\<close>

fun memcmp :: "byte list \<Rightarrow> byte list \<Rightarrow> nat \<Rightarrow> int" where
  "memcmp (a # as) (b # bs) (Suc n) = (if a < b then - 1 else if a > b then 1 else memcmp as bs n)"
| "memcmp _ _ _ = 0"

definition remove_prefix :: "slice \<Rightarrow> nat \<Rightarrow> slice option" where
  "remove_prefix s n = (if n \<le> length s then Some (drop n s) else None)"

definition starts_with :: "slice \<Rightarrow> slice \<Rightarrow> bool" where
  "starts_with s x \<longleftrightarrow> length s \<ge> length x \<and> memcmp s x (length x) = 0"

definition slice_eq :: "slice \<Rightarrow> slice \<Rightarrow> bool" where
  "slice_eq x y \<longleftrightarrow> length x = length y \<and> memcmp x y (length x) = 0"

definition slice_compare :: "slice \<Rightarrow> slice \<Rightarrow> int" where
  "slice_compare a b =
     (let min_len = (if length a < length b then length a else length b);
          r = memcmp a b min_len
      in if r = 0 then
           if length a < length b then - 1 else if length a > length b then 1 else r
         else r)"

lemma memcmp_0_iff:
  "n \<le> length a \<Longrightarrow> n \<le> length b \<Longrightarrow> memcmp a b n = 0 \<longleftrightarrow> take n a = take n b"
  by (induction a b n rule: memcmp.induct) (auto split: if_splits)

lemma starts_with_prefix: "starts_with s x \<longleftrightarrow> (\<exists>r. s = x @ r)"
proof -
  have "starts_with s x \<longleftrightarrow> length x \<le> length s \<and> take (length x) s = x"
    by (auto simp: starts_with_def memcmp_0_iff)
  also have "\<dots> \<longleftrightarrow> (\<exists>r. s = x @ r)" by (metis append_eq_conv_conj append_take_drop_id le_add1 length_append)
  finally show ?thesis .
qed

lemma slice_eq_iff: "slice_eq x y \<longleftrightarrow> x = y"
  by (auto simp: slice_eq_def memcmp_0_iff)

lemma slice_compare_Cons:
  "slice_compare (a # as) (b # bs) = (if a < b then - 1 else if a > b then 1 else slice_compare as bs)"
  by (simp add: slice_compare_def Let_def)

lemma slice_compare_Nil:
  "slice_compare [] [] = 0" "slice_compare [] (b # bs) = - 1" "slice_compare (a # as) [] = 1"
  by (simp_all add: slice_compare_def)

text \<open>The comparison is the lexicographic order of unsigned bytes.\<close>

lemma slice_compare_lex: "slice_compare a b = (if a < b then - 1 else if a = b then 0 else 1)"
proof (induction a arbitrary: b)
  case Nil
  then show ?case by (cases b) (simp_all add: slice_compare_Nil)
next
  case (Cons x xs)
  then show ?case by (cases b) (auto simp: slice_compare_Nil slice_compare_Cons)
qed

section \<open>Fixed-width integers\<close>

definition EncodeFixed32 :: "u32 \<Rightarrow> byte list" where
  "EncodeFixed32 v = le_bytes 4 v"

definition EncodeFixed64 :: "u64 \<Rightarrow> byte list" where
  "EncodeFixed64 v = le_bytes 8 v"

text \<open>The branches for a big-endian target write the same bytes.\<close>

definition EncodeFixed32_portable :: "u32 \<Rightarrow> byte list" where
  "EncodeFixed32_portable v =
     [ucast (v AND 0xFF), ucast (drop_bit 8 v AND 0xFF), ucast (drop_bit 16 v AND 0xFF), ucast (drop_bit 24 v AND 0xFF)]"

definition EncodeFixed64_portable :: "u64 \<Rightarrow> byte list" where
  "EncodeFixed64_portable v =
     [ucast (v AND 0xFF), ucast (drop_bit 8 v AND 0xFF), ucast (drop_bit 16 v AND 0xFF), ucast (drop_bit 24 v AND 0xFF),
      ucast (drop_bit 32 v AND 0xFF), ucast (drop_bit 40 v AND 0xFF), ucast (drop_bit 48 v AND 0xFF), ucast (drop_bit 56 v AND 0xFF)]"

definition PutFixed32 :: "byte list \<Rightarrow> u32 \<Rightarrow> byte list" where
  "PutFixed32 dst v = dst @ EncodeFixed32 v"

definition PutFixed64 :: "byte list \<Rightarrow> u64 \<Rightarrow> byte list" where
  "PutFixed64 dst v = dst @ EncodeFixed64 v"

text \<open>\<open>None\<close> is a read beyond the end of the bytes.\<close>

definition DecodeFixed32 :: "byte list \<Rightarrow> u32 option" where
  "DecodeFixed32 p = (if length p < 4 then None else Some (le_word (take 4 p)))"

definition DecodeFixed64 :: "byte list \<Rightarrow> u64 option" where
  "DecodeFixed64 p = (if length p < 8 then None else Some (le_word (take 8 p)))"

section \<open>Variable-width integers\<close>

definition EncodeVarint32 :: "u32 \<Rightarrow> byte list" where
  "EncodeVarint32 v =
     (let B = (128 :: u32) in
      if v < 2 ^ 7 then [ucast v]
      else if v < 2 ^ 14 then [ucast (v OR B), ucast (drop_bit 7 v)]
      else if v < 2 ^ 21 then [ucast (v OR B), ucast (drop_bit 7 v OR B), ucast (drop_bit 14 v)]
      else if v < 2 ^ 28 then
        [ucast (v OR B), ucast (drop_bit 7 v OR B), ucast (drop_bit 14 v OR B), ucast (drop_bit 21 v)]
      else
        [ucast (v OR B), ucast (drop_bit 7 v OR B), ucast (drop_bit 14 v OR B), ucast (drop_bit 21 v OR B),
         ucast (drop_bit 28 v)])"

lemma shift_7_less: "\<not> v < 128 \<Longrightarrow> unat (drop_bit 7 (v :: u64)) < unat v"
  by (rule unat_drop_bit_less) auto

function EncodeVarint64 :: "u64 \<Rightarrow> byte list" where
  "EncodeVarint64 v =
     (if v \<ge> 128 then ucast ((v AND 127) OR 128) # EncodeVarint64 (drop_bit 7 v) else [ucast v])"
  by pat_completeness auto

termination EncodeVarint64
  by (relation "measure unat") (auto intro: shift_7_less simp: not_less)

declare EncodeVarint64.simps [simp del]

definition PutVarint32 :: "byte list \<Rightarrow> u32 \<Rightarrow> byte list" where
  "PutVarint32 dst v = dst @ EncodeVarint32 v"

definition PutVarint64 :: "byte list \<Rightarrow> u64 \<Rightarrow> byte list" where
  "PutVarint64 dst v = dst @ EncodeVarint64 v"

text \<open>The length is passed as a \<open>uint32_t\<close>.\<close>

definition PutLengthPrefixedSlice :: "byte list \<Rightarrow> slice \<Rightarrow> byte list" where
  "PutLengthPrefixedSlice dst value = PutVarint32 dst (of_nat (length value)) @ value"

function VarintLength_loop :: "u64 \<Rightarrow> nat \<Rightarrow> nat" where
  "VarintLength_loop v len = (if v \<ge> 128 then VarintLength_loop (drop_bit 7 v) (len + 1) else len)"
  by pat_completeness auto

termination VarintLength_loop
  by (relation "measure (\<lambda>(v, _). unat v)") (auto intro: shift_7_less simp: not_less)

declare VarintLength_loop.simps [simp del]

definition VarintLength :: "u64 \<Rightarrow> nat" where
  "VarintLength v = VarintLength_loop v 1"

text \<open>
  The loop of \<open>GetVarint32PtrFallback\<close> (with the last shift 28) and of \<open>GetVarint64Ptr\<close> (63): the
  value and the bytes after it, or \<open>None\<close> for a \<open>NULL\<close> pointer.
\<close>

fun get_varint_loop :: "nat \<Rightarrow> nat \<Rightarrow> byte list \<Rightarrow> 'a::len word \<Rightarrow> ('a word \<times> byte list) option" where
  "get_varint_loop lim shift [] result = None"
| "get_varint_loop lim shift (c # p) result =
     (if shift \<le> lim then
        if c AND 128 \<noteq> 0
        then get_varint_loop lim (shift + 7) p (result OR push_bit shift (ucast (c AND 127)))
        else Some (result OR push_bit shift (ucast c), p)
      else None)"

definition GetVarint32PtrFallback :: "byte list \<Rightarrow> (u32 \<times> byte list) option" where
  "GetVarint32PtrFallback p = get_varint_loop 28 0 p 0"

definition GetVarint32Ptr :: "byte list \<Rightarrow> (u32 \<times> byte list) option" where
  "GetVarint32Ptr p =
     (case p of
        c # q \<Rightarrow> if (ucast c :: u32) AND 128 = 0 then Some (ucast c, q) else GetVarint32PtrFallback p
      | [] \<Rightarrow> GetVarint32PtrFallback p)"

definition GetVarint32 :: "slice \<Rightarrow> (u32 \<times> slice) option" where
  "GetVarint32 input = GetVarint32Ptr input"

definition GetVarint64Ptr :: "byte list \<Rightarrow> (u64 \<times> byte list) option" where
  "GetVarint64Ptr p = get_varint_loop 63 0 p 0"

definition GetVarint64 :: "slice \<Rightarrow> (u64 \<times> slice) option" where
  "GetVarint64 input = GetVarint64Ptr input"

definition GetLengthPrefixedSlicePtr :: "byte list \<Rightarrow> (slice \<times> byte list) option" where
  "GetLengthPrefixedSlicePtr p =
     (case GetVarint32Ptr p of
        None \<Rightarrow> None
      | Some (len, p) \<Rightarrow> if unat len > length p then None else Some (take (unat len) p, drop (unat len) p))"

definition GetLengthPrefixedSlice :: "slice \<Rightarrow> (slice \<times> slice) option" where
  "GetLengthPrefixedSlice input =
     (case GetVarint32 input of
        None \<Rightarrow> None
      | Some (len, input) \<Rightarrow>
          if length input \<ge> unat len then Some (take (unat len) input, drop (unat len) input) else None)"

section \<open>Round trips\<close>

lemma EncodeFixed_portable:
  "EncodeFixed32_portable v = EncodeFixed32 v" "EncodeFixed64_portable w = EncodeFixed64 w"
  by (simp_all add: EncodeFixed32_portable_def EncodeFixed32_def EncodeFixed64_portable_def EncodeFixed64_def
      le_bytes_numeral ucast_and_FF)

lemma length_EncodeFixed [simp]: "length (EncodeFixed32 v) = 4" "length (EncodeFixed64 w) = 8"
  by (simp_all add: EncodeFixed32_def EncodeFixed64_def)

lemma DecodeFixed_Encode [simp]:
  "DecodeFixed32 (EncodeFixed32 v @ p) = Some v" "DecodeFixed64 (EncodeFixed64 w @ p) = Some w"
  by (simp_all add: DecodeFixed32_def DecodeFixed64_def EncodeFixed32_def EncodeFixed64_def)

lemma and_127: "(w :: 'a::len word) AND 127 = take_bit 7 w"
  by (simp add: take_bit_eq_mask mask_eq_exp_minus_1)

lemma bit_128: "bit (128 :: int) n \<longleftrightarrow> n = 7"
proof -
  have "(128 :: int) = 2 ^ 7" by simp
  then show ?thesis by (auto simp only: bit_exp_iff possible_bit_def)
qed

lemma unat_exp_32: "k < 32 \<Longrightarrow> unat (2 ^ k :: u32) = 2 ^ k"
proof -
  assume "k < 32"
  then have "(2 :: nat) ^ k < 2 ^ 32" by (rule power_strict_increasing) simp
  then show ?thesis using unat_of_nat_32 [of "2 ^ k"] by simp
qed

lemma and_128_iff: "(c :: byte) AND 128 = 0 \<longleftrightarrow> \<not> bit c 7"
proof -
  have "bit (c AND 128) 7 = bit c 7" by (simp add: bit_and_iff bit_128)
  then have "bit c 7" if "c AND 128 \<noteq> 0"
    using that bit_word_eqI [of "c AND 128" 0] by (auto simp: bit_and_iff bit_128)
  moreover have "\<not> bit c 7" if "c AND 128 = 0" using that \<open>bit (c AND 128) 7 = bit c 7\<close> by simp
  ultimately show ?thesis by blast
qed

lemma small_128_iff: "(v :: u64) < 128 \<longleftrightarrow> drop_bit 7 v = 0"
proof -
  have "drop_bit 7 v = 0 \<longleftrightarrow> unat v div 2 ^ 7 = 0" by (metis unat_drop_bit_div unat_eq_zero)
  then show ?thesis by (simp add: word_less_nat_alt div_eq_0_iff)
qed

text \<open>The two kinds of byte in an encoding.\<close>

lemma more_byte:
  fixes v :: u64
  shows "(ucast ((v AND 127) OR 128) :: byte) AND 128 \<noteq> 0"
    and "ucast ((ucast ((v AND 127) OR 128) :: byte) AND 127) = (ucast (take_bit 7 v) :: 'a::len word)"
proof -
  show "(ucast ((v AND 127) OR 128) :: byte) AND 128 \<noteq> 0"
    unfolding and_128_iff by (simp add: bit_simps bit_128)
  show "ucast ((ucast ((v AND 127) OR 128) :: byte) AND 127) = (ucast (take_bit 7 v) :: 'a::len word)"
    unfolding and_127 by (rule bit_word_eqI) (auto simp: bit_simps bit_128)
qed

lemma last_byte:
  fixes v :: u64
  assumes "v < 128"
  shows "(ucast v :: byte) AND 128 = 0" and "ucast (ucast v :: byte) = (ucast v :: 'a::len word)"
proof -
  have "drop_bit 7 v = 0" using assms by (simp only: small_128_iff)
  moreover have "bit (drop_bit 7 v) n = bit v (7 + n)" for n by (simp add: bit_drop_bit_eq)
  ultimately have z: "\<not> bit v (7 + n)" for n by simp
  show "(ucast v :: byte) AND 128 = 0" unfolding and_128_iff using z [of 0] by (simp add: bit_simps)
  have "\<not> bit v n" if "8 \<le> n" for n using z [of "n - 7"] that by simp
  then show "ucast (ucast v :: byte) = (ucast v :: 'a::len word)"
    by (intro bit_word_eqI) (force simp: bit_simps not_less [symmetric])
qed

lemma get_varint_encode:
  fixes acc :: "'a::len word"
  assumes "unat v < 2 ^ (lim + 7 - s)" and "s \<le> lim" and "7 dvd lim - s"
  shows "get_varint_loop lim s (EncodeVarint64 v @ p) acc = Some (acc OR push_bit s (ucast v), p)"
  using assms
proof (induction v arbitrary: s acc rule: EncodeVarint64.induct)
  case (1 v)
  show ?case
  proof (cases "v \<ge> 128")
    case True
    then have "2 ^ 7 \<le> unat v" by (simp add: word_le_nat_alt)
    then have "2 ^ 7 < (2 :: nat) ^ (lim + 7 - s)" using "1.prems"(1) by (rule le_less_trans)
    then have "7 < lim + 7 - s" by (rule power_less_imp_less_exp [rotated]) simp
    then have "s < lim" by simp
    moreover obtain k where "lim - s = 7 * k" using "1.prems"(3) by (rule dvdE)
    ultimately obtain k' where k': "lim - s = 7 * Suc k'" by (cases k) auto
    then have "lim - (s + 7) = 7 * k'" by simp
    then have s7: "s + 7 \<le> lim" "7 dvd lim - (s + 7)" using k' by auto
    have "unat v < 2 ^ (lim - s) * 2 ^ 7"
      using "1.prems"(1,2) by (simp only: power_add [symmetric] Nat.add_diff_assoc2)
    then have "unat (drop_bit 7 v) < 2 ^ (lim + 7 - (s + 7))"
      unfolding unat_drop_bit_div by (simp add: less_mult_imp_div_less)
    from "1.IH" [OF True this s7]
    have "get_varint_loop lim s (EncodeVarint64 v @ p) acc =
        Some ((acc OR push_bit s (ucast (take_bit 7 v))) OR push_bit (s + 7) (ucast (drop_bit 7 v)), p)"
      using True "1.prems"(2) by (subst EncodeVarint64.simps) (simp add: more_byte)
    moreover have "(acc OR push_bit s (ucast (take_bit 7 v))) OR push_bit (s + 7) (ucast (drop_bit 7 v)) =
        acc OR push_bit s (ucast v)"
    proof (rule bit_word_eqI)
      fix n assume "n < LENGTH('a)"
      then show "bit ((acc OR push_bit s (ucast (take_bit 7 v))) OR push_bit (s + 7) (ucast (drop_bit 7 v))) n =
          bit (acc OR push_bit s (ucast v)) n"
        by (cases "s + 7 \<le> n") (auto simp: bit_simps)
    qed
    ultimately show ?thesis by simp
  next
    case False
    then show ?thesis using "1.prems"(2) by (subst EncodeVarint64.simps) (simp add: last_byte)
  qed
qed

lemma EncodeVarint32_64: "EncodeVarint32 v = EncodeVarint64 (ucast v)"
proof -
  let ?v = "ucast v :: u64"
  have d: "drop_bit n ?v = ucast (drop_bit n v)" for n by (rule bit_word_eqI) (auto simp: bit_simps dest: bit_imp_le_length)
  have u: "unat (ucast w :: u64) = unat (w :: u32)" for w by (simp add: unsigned_ucast_eq take_bit_nat_eq_self unsigned_less less_trans [OF unat_lt_32])
  have ge: "drop_bit n ?v \<ge> 128 \<longleftrightarrow> \<not> v < 2 ^ (n + 7)" if "n + 7 < 32" for n
  proof -
    have "drop_bit n ?v \<ge> 128 \<longleftrightarrow> 2 ^ 7 \<le> unat v div 2 ^ n"
      unfolding word_le_nat_alt d u unat_drop_bit_div by simp
    also have "\<dots> \<longleftrightarrow> 2 ^ 7 * 2 ^ n \<le> unat v" by (simp add: less_eq_div_iff_mult_less_eq)
    also have "\<dots> \<longleftrightarrow> \<not> v < 2 ^ (n + 7)"
      using unat_exp_32 [OF that] by (simp add: word_less_nat_alt not_less power_add mult.commute)
    finally show ?thesis .
  qed
  have last: "\<not> drop_bit 28 ?v \<ge> 128"
  proof -
    have "unat v div 2 ^ 28 < 2 ^ 7" using unat_lt_32 [of v] by (simp add: less_mult_imp_div_less)
    then show ?thesis unfolding word_le_nat_alt d u unat_drop_bit_div by simp
  qed
  have byte: "(ucast ((drop_bit n ?v AND 127) OR 128) :: byte) = ucast (drop_bit n v OR 128)" for n
  proof -
    show ?thesis unfolding d and_127 by (rule bit_word_eqI) (auto simp: bit_simps bit_128)
  qed
  have lastb: "(ucast (drop_bit n ?v) :: byte) = ucast (drop_bit n v)" for n
    unfolding d by (rule bit_word_eqI) (auto simp: bit_simps)
  note step = EncodeVarint64.simps [of "drop_bit n ?v" for n]
  show ?thesis
    using ge [of 0] ge [of 7] ge [of 14] ge [of 21] last byte [of 0] byte [of 7] byte [of 14] byte [of 21]
      lastb [of 0] lastb [of 7] lastb [of 14] lastb [of 21] lastb [of 28]
      step [of 0] step [of 7] step [of 14] step [of 21] step [of 28]
    by (simp add: EncodeVarint32_def)
qed

lemma GetVarint32_fast: "GetVarint32Ptr p = get_varint_loop 28 0 p 0"
proof (cases p)
  case (Cons c q)
  have "(ucast c :: u32) AND 128 = 0 \<longleftrightarrow> c AND 128 = 0"
  proof -
    have "(ucast (c AND 128) :: u32) = ucast c AND 128"
      by (rule bit_word_eqI) (auto simp: bit_simps bit_128)
    moreover have "(ucast x :: u32) = 0 \<longleftrightarrow> x = 0" for x :: byte
    proof -
      have "unat x < 2 ^ 8" using unsigned_less [of x, where 'a = nat] by simp
      then have "unat (ucast x :: u32) = unat x" by (simp add: unsigned_ucast_eq take_bit_nat_eq_self)
      then show ?thesis by (metis unat_eq_zero)
    qed
    ultimately show ?thesis by metis
  qed
  then show ?thesis using Cons by (auto simp: GetVarint32Ptr_def GetVarint32PtrFallback_def)
qed (simp add: GetVarint32Ptr_def GetVarint32PtrFallback_def)

lemma GetVarint_Encode [simp]:
  "GetVarint32 (EncodeVarint32 v @ p) = Some (v, p)"
  "GetVarint64 (EncodeVarint64 w @ p) = Some (w, p)"
proof -
  have "unat (ucast v :: u64) < 2 ^ 35"
    using unat_lt_32 [of v] by (simp add: unsigned_ucast_eq take_bit_nat_eq_self)
  moreover have id: "ucast (ucast v :: u64) = v" by (rule bit_word_eqI) (simp add: bit_simps)
  ultimately show "GetVarint32 (EncodeVarint32 v @ p) = Some (v, p)"
    using get_varint_encode [of "ucast v" 28 0 p "0 :: u32"] id
    by (simp add: GetVarint32_def GetVarint32_fast EncodeVarint32_64)
  have "unat w < 2 ^ 70" using unat_lt_64 [of w] by simp
  then show "GetVarint64 (EncodeVarint64 w @ p) = Some (w, p)"
    using get_varint_encode [of w 63 0 p "0 :: u64"] by (simp add: GetVarint64_def GetVarint64Ptr_def)
qed

lemma GetLengthPrefixedSlice_Put [simp]:
  assumes "length s < 2 ^ 32"
  shows "GetLengthPrefixedSlice (EncodeVarint32 (of_nat (length s)) @ s @ p) = Some (s, p)"
  using assms by (simp add: GetLengthPrefixedSlice_def unat_of_nat_32)

lemma VarintLength_loop_add: "VarintLength_loop v (n + k) = VarintLength_loop v n + k"
proof (induction v n arbitrary: k rule: VarintLength_loop.induct)
  case (1 v n)
  then show ?case
    by (subst (1 2) VarintLength_loop.simps) (auto simp: add.commute add.left_commute)
qed

lemma VarintLength_Encode: "VarintLength v = length (EncodeVarint64 v)"
proof (induction v rule: EncodeVarint64.induct)
  case (1 v)
  have "VarintLength v = (if v \<ge> 128 then Suc (VarintLength (drop_bit 7 v)) else 1)"
    using VarintLength_loop_add [of "drop_bit 7 v" 1 1]
    by (simp add: VarintLength_def VarintLength_loop.simps [of v "Suc 0"])
  then show ?case using 1 by (subst EncodeVarint64.simps) simp
qed

lemma EncodeVarint64_bound: "unat v < 2 ^ (7 * n) \<Longrightarrow> 0 < n \<Longrightarrow> length (EncodeVarint64 v) \<le> n"
proof (induction v arbitrary: n rule: EncodeVarint64.induct)
  case (1 v)
  show ?case
  proof (cases "v \<ge> 128")
    case True
    then have "128 \<le> unat v" by (simp add: word_le_nat_alt)
    then have "n \<noteq> 1" using "1.prems"(1) by auto
    then obtain k where k: "n = Suc k" "0 < k" using "1.prems"(2) by (cases n) auto
    have "unat (drop_bit 7 v) < 2 ^ (7 * k)"
      using "1.prems"(1) unfolding unat_drop_bit_div k(1) by (simp add: less_mult_imp_div_less power_add mult.commute)
    then show ?thesis using "1.IH" [OF True _ k(2)] True k(1) by (subst EncodeVarint64.simps) simp
  next
    case False
    then show ?thesis using "1.prems"(2) by (subst EncodeVarint64.simps) simp
  qed
qed

lemma length_EncodeVarint: "length (EncodeVarint32 v) \<le> 5" "length (EncodeVarint64 w) \<le> 10"
proof -
  have "unat (ucast v :: u64) < 2 ^ (7 * 5)"
    using unat_lt_32 [of v] by (simp add: unsigned_ucast_eq take_bit_nat_eq_self)
  then show "length (EncodeVarint32 v) \<le> 5" unfolding EncodeVarint32_64 by (rule EncodeVarint64_bound) simp
  have "unat w < 2 ^ (7 * 10)" using unat_lt_64 [of w] by simp
  then show "length (EncodeVarint64 w) \<le> 10" by (rule EncodeVarint64_bound) simp
qed

section \<open>What the readers accept\<close>

lemma get_varint_loop_split:
  "get_varint_loop lim s p acc = Some (v, q) \<Longrightarrow> \<exists>pre. p = pre @ q \<and> 1 \<le> length pre \<and> length pre \<le> (lim - s) div 7 + 1"
proof (induction lim s p acc arbitrary: v q rule: get_varint_loop.induct)
  case (2 lim s c p acc)
  show ?case
  proof (cases "c AND 128 \<noteq> 0")
    case True
    with "2.prems" have r: "s \<le> lim" "get_varint_loop lim (s + 7) p (acc OR push_bit s (ucast (c AND 127))) = Some (v, q)"
      by (auto split: if_splits)
    from "2.IH" [OF r(1) True r(2)]
    obtain pre where pre: "p = pre @ q" "1 \<le> length pre" "length pre \<le> (lim - (s + 7)) div 7 + 1" by blast
    have "s + 7 \<le> lim"
    proof (rule ccontr)
      assume "\<not> s + 7 \<le> lim"
      then have "get_varint_loop lim (s + 7) p (acc OR push_bit s (ucast (c AND 127))) = None" by (cases p) simp_all
      then show False using r(2) by simp
    qed
    then have "lim - s = lim - (s + 7) + 7" by simp
    then have "(lim - s) div 7 = (lim - (s + 7)) div 7 + 1" by linarith
    then show ?thesis using pre by (intro exI [of _ "c # pre"]) simp
  next
    case False
    then show ?thesis using "2.prems" by (intro exI [of _ "[c]"]) (auto split: if_splits)
  qed
qed simp

lemma GetVarint32_split:
  "GetVarint32 p = Some (v, q) \<Longrightarrow> \<exists>pre. p = pre @ q \<and> 1 \<le> length pre \<and> length pre \<le> 5"
  using get_varint_loop_split [of 28 0 p 0 v q] by (simp add: GetVarint32_def GetVarint32_fast)

lemma GetLengthPrefixedSlice_split:
  assumes "GetLengthPrefixedSlice input = Some (result, remaining)"
  shows "\<exists>pre. input = pre @ result @ remaining \<and> 1 \<le> length pre \<and> length pre \<le> 5"
proof -
  obtain len q where q: "GetVarint32 input = Some (len, q)" "unat len \<le> length q"
    "result = take (unat len) q" "remaining = drop (unat len) q"
    using assms by (auto simp: GetLengthPrefixedSlice_def split: option.splits if_splits)
  then show ?thesis using GetVarint32_split [OF q(1)] by auto
qed

lemma GetLengthPrefixedSlice_shorter:
  "GetLengthPrefixedSlice input = Some (result, remaining) \<Longrightarrow> length remaining < length input"
  using GetLengthPrefixedSlice_split [of input result remaining] by auto

lemma GetVarint64_split:
  "GetVarint64 p = Some (v, q) \<Longrightarrow> \<exists>pre. p = pre @ q \<and> 1 \<le> length pre \<and> length pre \<le> 10"
  using get_varint_loop_split [of 63 0 p 0 v q] by (simp add: GetVarint64_def GetVarint64Ptr_def)

section \<open>Comparators\<close>

text \<open>A three-way comparison of keys, on the keys it is used on (\<open>ok\<close>).\<close>

locale key_order =
  fixes ok :: "'k \<Rightarrow> bool" and Compare :: "'k \<Rightarrow> 'k \<Rightarrow> int"
  assumes compare_refl: "ok a \<Longrightarrow> Compare a a = 0"
    and compare_flip: "ok a \<Longrightarrow> ok b \<Longrightarrow> Compare a b < 0 \<longleftrightarrow> Compare b a > 0"
    and compare_trans: "ok a \<Longrightarrow> ok b \<Longrightarrow> ok c \<Longrightarrow> Compare a b \<le> 0 \<Longrightarrow> Compare b c \<le> 0 \<Longrightarrow> Compare a c \<le> 0"
begin

lemma compare_eq_flip: "ok a \<Longrightarrow> ok b \<Longrightarrow> Compare a b = 0 \<longleftrightarrow> Compare b a = 0"
  using compare_flip [of a b] compare_flip [of b a] by linarith

lemma compare_le_less_trans:
  assumes "ok a" "ok b" "ok c" "Compare a b \<le> 0" "Compare b c < 0"
  shows "Compare a c < 0"
proof (rule ccontr)
  assume "\<not> Compare a c < 0"
  then have "Compare c a \<le> 0" using assms(1,3) compare_flip [of a c] compare_flip [of c a] by linarith
  then have "Compare c b \<le> 0" using assms compare_trans by blast
  then show False using assms(2,3,5) compare_flip [of b c] by linarith
qed

lemma compare_less_le_trans:
  assumes "ok a" "ok b" "ok c" "Compare a b < 0" "Compare b c \<le> 0"
  shows "Compare a c < 0"
proof (rule ccontr)
  assume "\<not> Compare a c < 0"
  then have "Compare c a \<le> 0" using assms(1,3) compare_flip [of a c] compare_flip [of c a] by linarith
  then have "Compare b a \<le> 0" using assms compare_trans by blast
  then show False using assms(1,2,4) compare_flip [of a b] by linarith
qed

lemma compare_less_trans: "ok a \<Longrightarrow> ok b \<Longrightarrow> ok c \<Longrightarrow> Compare a b < 0 \<Longrightarrow> Compare b c < 0 \<Longrightarrow> Compare a c < 0"
  using compare_less_le_trans [of a b c] by simp

end

text \<open>
  The interface \<open>Comparator\<close>: a comparison of slices, and two functions that may shorten a key.
\<close>

locale comparator = key_order ok Compare for ok :: "slice \<Rightarrow> bool" and Compare :: "slice \<Rightarrow> slice \<Rightarrow> int" +
  fixes FindShortestSeparator :: "slice \<Rightarrow> slice \<Rightarrow> slice" and FindShortSuccessor :: "slice \<Rightarrow> slice"
  assumes separator_ok: "ok a \<Longrightarrow> ok b \<Longrightarrow> Compare a b < 0 \<Longrightarrow> ok (FindShortestSeparator a b)"
    and separator: "ok a \<Longrightarrow> ok b \<Longrightarrow> Compare a b < 0 \<Longrightarrow>
          Compare a (FindShortestSeparator a b) \<le> 0 \<and> Compare (FindShortestSeparator a b) b < 0"
    and separator_same: "ok a \<Longrightarrow> ok b \<Longrightarrow> Compare a b = 0 \<Longrightarrow> FindShortestSeparator a b = a"
    and successor_ok: "ok a \<Longrightarrow> ok (FindShortSuccessor a)"
    and successor: "ok a \<Longrightarrow> Compare a (FindShortSuccessor a) \<le> 0"

text \<open>\<open>BytewiseComparatorImpl\<close>\<close>

fun diff_index :: "byte list \<Rightarrow> byte list \<Rightarrow> nat" where
  "diff_index (a # as) (b # bs) = (if a = b then Suc (diff_index as bs) else 0)"
| "diff_index _ _ = 0"

definition bytewise_FindShortestSeparator :: "slice \<Rightarrow> slice \<Rightarrow> slice" where
  "bytewise_FindShortestSeparator start limit =
     (let min_length = min (length start) (length limit); i = diff_index start limit in
      if i \<ge> min_length then start
      else let diff_byte = start ! i in
        if diff_byte < 0xFF \<and> unat diff_byte + 1 < unat (limit ! i)
        then take (i + 1) (start[i := diff_byte + 1])
        else start)"

fun bytewise_FindShortSuccessor :: "slice \<Rightarrow> slice" where
  "bytewise_FindShortSuccessor [] = []"
| "bytewise_FindShortSuccessor (c # key) = (if c \<noteq> 0xFF then [c + 1] else c # bytewise_FindShortSuccessor key)"

definition bytewise_Compare :: "slice \<Rightarrow> slice \<Rightarrow> int" where
  "bytewise_Compare a b = slice_compare a b"

lemma separator_Cons:
  "bytewise_FindShortestSeparator (a # as) (b # bs) =
     (if a = b then a # bytewise_FindShortestSeparator as bs
      else if a < 0xFF \<and> unat a + 1 < unat b then [a + 1] else a # as)"
  by (auto simp: bytewise_FindShortestSeparator_def Let_def)

lemma separator_Nil: "bytewise_FindShortestSeparator [] b = []" "bytewise_FindShortestSeparator a [] = a"
  by (simp_all add: bytewise_FindShortestSeparator_def Let_def)

lemma separator_self: "bytewise_FindShortestSeparator a a = a"
  by (induction a) (simp_all add: separator_Cons separator_Nil)

lemma byte_succ: "c \<noteq> (0xFF :: byte) \<Longrightarrow> unat (c + 1) = unat c + 1"
proof -
  assume "c \<noteq> 0xFF"
  then have "unat c \<noteq> 255" by (simp add: word_unat_eq_iff)
  moreover have "unat c < 256" using unsigned_less [of c, where 'a = nat] by simp
  ultimately show ?thesis by (simp add: unat_plus_if')
qed


lemma byte_succ_less: "c < (0xFF :: byte) \<Longrightarrow> c < c + 1" "c \<noteq> (0xFF :: byte) \<Longrightarrow> c < c + 1"
  using byte_succ [of c] by (cases "c = 0xFF"; simp add: word_less_nat_alt)+

lemma bytewise_separator:
  "a < b \<Longrightarrow> a \<le> bytewise_FindShortestSeparator a b \<and> bytewise_FindShortestSeparator a b < b"
proof (induction a arbitrary: b)
  case Nil
  then show ?case by (simp add: separator_Nil)
next
  case (Cons x xs)
  then obtain y ys where b: "b = y # ys" by (cases b) auto
  show ?case
  proof (cases "x = y")
    case True
    then show ?thesis using Cons b by (simp add: separator_Cons)
  next
    case False
    then have "x < y" using Cons.prems b by auto
    moreover have "x + 1 < y" if "x < 0xFF" "unat x + 1 < unat y" using that byte_succ [of x] by (cases "x = 0xFF") (simp_all add: word_less_nat_alt)
    ultimately show ?thesis using b False byte_succ_less(1) by (auto simp: separator_Cons)
  qed
qed

lemma bytewise_successor: "a \<le> bytewise_FindShortSuccessor a"
  by (induction a) (simp_all add: byte_succ_less(2))

interpretation bytewise: comparator "\<lambda>_. True" bytewise_Compare bytewise_FindShortestSeparator bytewise_FindShortSuccessor
proof
  fix a b c :: slice
  show "bytewise_Compare a a = 0" by (simp add: bytewise_Compare_def slice_compare_lex)
  show "bytewise_Compare a b < 0 \<longleftrightarrow> bytewise_Compare b a > 0"
    by (auto simp: bytewise_Compare_def slice_compare_lex)
  show "bytewise_Compare a b \<le> 0 \<Longrightarrow> bytewise_Compare b c \<le> 0 \<Longrightarrow> bytewise_Compare a c \<le> 0"
    by (auto simp: bytewise_Compare_def slice_compare_lex split: if_splits)
  show "bytewise_Compare a b < 0 \<Longrightarrow> bytewise_Compare a (bytewise_FindShortestSeparator a b) \<le> 0 \<and>
      bytewise_Compare (bytewise_FindShortestSeparator a b) b < 0"
    using bytewise_separator [of a b] by (auto simp: bytewise_Compare_def slice_compare_lex split: if_splits)
  show "bytewise_Compare a b = 0 \<Longrightarrow> bytewise_FindShortestSeparator a b = a"
    by (auto simp: bytewise_Compare_def slice_compare_lex separator_self split: if_splits)
  show "bytewise_Compare a (bytewise_FindShortSuccessor a) \<le> 0"
    using bytewise_successor [of a] by (auto simp: bytewise_Compare_def slice_compare_lex)
qed simp_all

end
