(* ===== verification/LDB_Bloom.thy ===== *)
theory LDB_Bloom
  imports LDB_Coding
begin

text \<open>
  The hash function (\<open>hash.cc\<close>), the interface of filter policies (\<open>filter_policy.h\<close>) and the Bloom
  filter (\<open>bloom.cc\<close>).
\<close>

section \<open>Hashing\<close>

fun hash_loop :: "u32 \<Rightarrow> byte list \<Rightarrow> u32 \<times> byte list" where
  "hash_loop h (b0 # b1 # b2 # b3 # data) =
     (let w = le_word [b0, b1, b2, b3];
          h = (h + w) * 0xc6a4a793
      in hash_loop (h XOR drop_bit 16 h) data)"
| "hash_loop h data = (h, data)"

definition hash_tail :: "u32 \<Rightarrow> byte list \<Rightarrow> u32" where
  "hash_tail h data =
     (let h = (if length data = 3 then h + push_bit 16 (ucast (data ! 2)) else h);
          h = (if length data = 3 \<or> length data = 2 then h + push_bit 8 (ucast (data ! 1)) else h)
      in if length data = 3 \<or> length data = 2 \<or> length data = 1 then
           let h = (h + ucast (data ! 0)) * 0xc6a4a793 in h XOR drop_bit 24 h
         else h)"

definition Hash :: "byte list \<Rightarrow> u32 \<Rightarrow> u32" where
  "Hash data seed =
     (let (h, rest) = hash_loop (seed XOR (of_nat (length data) * 0xc6a4a793)) data in hash_tail h rest)"

definition BloomHash :: "slice \<Rightarrow> u32" where
  "BloomHash key = Hash key 0xbc9f1d34"

section \<open>The interface of filter policies\<close>

text \<open>
  \<open>create keys\<close> is what \<open>CreateFilter\<close> appends to its destination. A filter built from keys
  must match each of them.
\<close>

locale filter_policy =
  fixes key_ok :: "slice \<Rightarrow> bool" and create :: "slice list \<Rightarrow> byte list" and may_match :: "slice \<Rightarrow> slice \<Rightarrow> bool"
  assumes no_false_negative: "list_all key_ok keys \<Longrightarrow> key \<in> set keys \<Longrightarrow> may_match key (create keys)"

section \<open>The Bloom filter\<close>

record BloomFilterPolicy =
  bits_per_key :: nat
  probes :: nat

text \<open>
  The constructor, for a \<open>bits_per_key\<close> that is not negative. The number of probes is
  \<open>bits_per_key * 0.69\<close>, truncated; the product is a whole number only for multiples of 100,
  beyond the limit of 30, so that rounding of the double does not matter.
\<close>

definition new_BloomFilterPolicy :: "nat \<Rightarrow> BloomFilterPolicy" where
  "new_BloomFilterPolicy n =
     (let k = 69 * n div 100; k = (if k < 1 then 1 else k); k = (if k > 30 then 30 else k)
      in \<lparr>bits_per_key = n, probes = k\<rparr>)"

definition rotate_17 :: "u32 \<Rightarrow> u32" where
  "rotate_17 h = drop_bit 17 h OR push_bit 15 h"

definition set_bitpos :: "byte list \<Rightarrow> nat \<Rightarrow> byte list" where
  "set_bitpos array bitpos =
     array[bitpos div 8 := array ! (bitpos div 8) OR push_bit (bitpos mod 8) 1]"

fun add_loop :: "nat \<Rightarrow> u32 \<Rightarrow> u32 \<Rightarrow> nat \<Rightarrow> byte list \<Rightarrow> byte list" where
  "add_loop 0 h delta bits array = array"
| "add_loop (Suc j) h delta bits array =
     (let bitpos = unat h mod bits in add_loop j (h + delta) delta bits (set_bitpos array bitpos))"

definition add_key :: "nat \<Rightarrow> nat \<Rightarrow> byte list \<Rightarrow> slice \<Rightarrow> byte list" where
  "add_key k bits array key = (let h = BloomHash key in add_loop k h (rotate_17 h) bits array)"

text \<open>What is appended to the destination.\<close>

definition CreateFilter :: "BloomFilterPolicy \<Rightarrow> slice list \<Rightarrow> byte list" where
  "CreateFilter p keys =
     (let bits = length keys * bits_per_key p;
          bits = (if bits < 64 then 64 else bits);
          bytes = (bits + 7) div 8;
          bits = bytes * 8;
          array = foldl (add_key (probes p) bits) (replicate bytes 0) keys
      in array @ [of_nat (probes p)])"

fun match_loop :: "nat \<Rightarrow> u32 \<Rightarrow> u32 \<Rightarrow> nat \<Rightarrow> byte list \<Rightarrow> bool" where
  "match_loop 0 h delta bits array = True"
| "match_loop (Suc j) h delta bits array =
     (let bitpos = unat h mod bits in
      if array ! (bitpos div 8) AND push_bit (bitpos mod 8) 1 = 0 then False
      else match_loop j (h + delta) delta bits array)"

text \<open>The number of probes is read as a signed \<open>char\<close> and converted to \<open>size_t\<close>.\<close>

definition KeyMayMatch :: "slice \<Rightarrow> slice \<Rightarrow> bool" where
  "KeyMayMatch key bloom_filter =
     (let len = length bloom_filter in
      if len < 2 then False
      else
        let bits = (len - 1) * 8;
            k = (scast (bloom_filter ! (len - 1)) :: size_t)
        in if k > 30 then True
           else let h = BloomHash key in match_loop (unat k) h (rotate_17 h) bits bloom_filter)"

section \<open>No false negatives\<close>

definition bit_at :: "byte list \<Rightarrow> nat \<Rightarrow> bool" where
  "bit_at array bitpos \<longleftrightarrow> bit (array ! (bitpos div 8)) (bitpos mod 8)"

lemma probe_bit: "(array ! (p div 8) AND 2 ^ (p mod 8) = 0) \<longleftrightarrow> \<not> bit_at array p" for p :: nat
proof -
  have "p mod 8 < 8" by simp
  then have "bit (2 ^ (p mod 8) :: byte) n \<longleftrightarrow> n = p mod 8" for n by (auto simp: bit_exp_iff)
  then have "bit (array ! (p div 8) AND 2 ^ (p mod 8)) n \<longleftrightarrow> n = p mod 8 \<and> bit_at array p" for n
    by (auto simp: bit_and_iff bit_at_def)
  then show ?thesis by (metis bit_0_eq bit_eq_iff bot_apply bot_bool_def)
qed

lemma length_set_bitpos [simp]: "length (set_bitpos array p) = length array"
  by (simp add: set_bitpos_def)

lemma set_bitpos_bit:
  assumes "p < 8 * length array"
  shows "bit_at (set_bitpos array p) q \<longleftrightarrow> q = p \<or> bit_at array q"
proof -
  have p: "p div 8 < length array" using assms by (simp add: less_mult_imp_div_less mult.commute)
  have "p mod 8 < 8" by simp
  show ?thesis
  proof (cases "q div 8 = p div 8")
    case True
    then have "q = p \<longleftrightarrow> q mod 8 = p mod 8" by (metis div_mult_mod_eq)
    then show ?thesis using True p \<open>p mod 8 < 8\<close> by (auto simp: bit_at_def set_bitpos_def bit_simps)
  next
    case False
    then show ?thesis by (auto simp: bit_at_def set_bitpos_def)
  qed
qed

text \<open>The bits a key probes.\<close>

fun positions :: "nat \<Rightarrow> u32 \<Rightarrow> u32 \<Rightarrow> nat \<Rightarrow> nat list" where
  "positions 0 h delta bits = []"
| "positions (Suc j) h delta bits = unat h mod bits # positions j (h + delta) delta bits"

lemma add_loop_bits:
  assumes "bits = 8 * length array" and "0 < bits"
  shows "length (add_loop j h delta bits array) = length array \<and>
    (\<forall>q. bit_at (add_loop j h delta bits array) q \<longleftrightarrow> bit_at array q \<or> q \<in> set (positions j h delta bits))"
  using assms
proof (induction j arbitrary: h array)
  case 0
  then show ?case by simp
next
  case (Suc j)
  have "unat h mod bits < 8 * length array" using Suc.prems by simp
  note set_bitpos_bit [OF this]
  then show ?case using Suc.IH [of "set_bitpos array (unat h mod bits)" "h + delta"] Suc.prems by (auto simp: Let_def)
qed

lemma match_loop_iff: "match_loop j h delta bits array \<longleftrightarrow> (\<forall>q \<in> set (positions j h delta bits). bit_at array q)"
  by (induction j arbitrary: h) (simp_all add: Let_def probe_bit)

lemma add_keys_bits:
  assumes "bits = 8 * length array" and "0 < bits"
  shows "length (foldl (add_key k bits) array keys) = length array \<and>
    (\<forall>q. bit_at (foldl (add_key k bits) array keys) q \<longleftrightarrow> bit_at array q \<or>
       (\<exists>key \<in> set keys. q \<in> set (positions k (BloomHash key) (rotate_17 (BloomHash key)) bits)))"
  using assms(1)
proof (induction keys arbitrary: array)
  case Nil
  then show ?case by simp
next
  case (Cons key keys)
  have s: "length (add_key k bits array key) = length array \<and> (\<forall>q. bit_at (add_key k bits array key) q \<longleftrightarrow>
      bit_at array q \<or> q \<in> set (positions k (BloomHash key) (rotate_17 (BloomHash key)) bits))"
    using add_loop_bits [OF Cons.prems assms(2)] by (simp add: add_key_def Let_def)
  then show ?case using Cons.IH [of "add_key k bits array key"] Cons.prems by auto
qed

lemma positions_bound: "0 < bits \<Longrightarrow> q \<in> set (positions j h delta bits) \<Longrightarrow> q < bits"
  by (induction j arbitrary: h) auto

lemma probes_range: "1 \<le> probes (new_BloomFilterPolicy n) \<and> probes (new_BloomFilterPolicy n) \<le> 30"
  by (auto simp: new_BloomFilterPolicy_def Let_def)

lemma bloom_no_false_negative:
  assumes "probes p \<le> 30" and "key \<in> set keys"
  shows "KeyMayMatch key (CreateFilter p keys)"
proof -
  define bits where "bits = length keys * bits_per_key p"
  define bytes where "bytes = ((if bits < 64 then 64 else bits) + 7) div 8"
  define array where "array = foldl (add_key (probes p) (8 * bytes)) (replicate bytes 0) keys"
  have pos: "0 < bytes" by (auto simp: bytes_def)
  have f: "CreateFilter p keys = array @ [of_nat (probes p)]"
    by (simp add: CreateFilter_def Let_def bits_def bytes_def array_def mult.commute)
  have bits: "length array = bytes \<and> (\<forall>q \<in> set (positions (probes p) (BloomHash key) (rotate_17 (BloomHash key)) (8 * bytes)). bit_at array q)"
    using add_keys_bits [of "8 * bytes" "replicate bytes 0" "probes p" keys] pos assms(2) by (auto simp: array_def)
  have k: "(scast (of_nat (probes p) :: byte) :: size_t) = of_nat (probes p)" "unat (of_nat (probes p) :: size_t) = probes p"
    using assms(1) by (simp_all add: signed_of_nat signed_take_bit_int_eq_self unat_of_nat)
  have "bit_at (array @ [of_nat (probes p)]) q" if "q \<in> set (positions (probes p) (BloomHash key) (rotate_17 (BloomHash key)) (8 * bytes))" for q
  proof -
    have "q div 8 < bytes" using positions_bound [OF _ that] pos by (simp add: less_mult_imp_div_less mult.commute)
    then show ?thesis using bits that by (auto simp: bit_at_def nth_append)
  qed
  moreover have "(array @ [of_nat (probes p)]) ! bytes = of_nat (probes p)" using bits by (simp add: nth_append)
  ultimately show ?thesis using f bits k pos
    by (simp add: KeyMayMatch_def Let_def match_loop_iff mult.commute)
qed

interpretation bloom: filter_policy "\<lambda>_. True" "CreateFilter (new_BloomFilterPolicy n)" KeyMayMatch for n
  by unfold_locales (simp add: bloom_no_false_negative probes_range)

end
