(* ===== verification/LDB_Dbformat.thy ===== *)
theory LDB_Dbformat
  imports LDB_Bloom
begin

text \<open>
  Internal keys (\<open>dbformat.h\<close>, \<open>dbformat.cc\<close>): a user key followed by a sequence number and a value
  type packed in eight bytes, their comparator, their filter policy, and lookup keys.
\<close>

section \<open>Internal keys\<close>

datatype ValueType = kTypeDeletion | kTypeValue

fun type_code :: "ValueType \<Rightarrow> u64" where
  "type_code kTypeDeletion = 0"
| "type_code kTypeValue = 1"

abbreviation kValueTypeForSeek :: ValueType where
  "kValueTypeForSeek \<equiv> kTypeValue"

definition kMaxSequenceNumber :: u64 where
  "kMaxSequenceNumber = push_bit 56 1 - 1"

record ParsedInternalKey =
  user_key :: slice
  sequence :: u64
  vtype :: ValueType

definition InternalKeyEncodingLength :: "ParsedInternalKey \<Rightarrow> nat" where
  "InternalKeyEncodingLength key = length (user_key key) + 8"

definition PackSequenceAndType :: "u64 \<Rightarrow> ValueType \<Rightarrow> u64" where
  "PackSequenceAndType seq t = push_bit 8 seq OR type_code t"

definition AppendInternalKey :: "byte list \<Rightarrow> ParsedInternalKey \<Rightarrow> byte list" where
  "AppendInternalKey result key = PutFixed64 (result @ user_key key) (PackSequenceAndType (sequence key) (vtype key))"

text \<open>The eight bytes at the end of a key of at least that length.\<close>

definition key_tag :: "slice \<Rightarrow> u64" where
  "key_tag key = le_word (drop (length key - 8) key)"

definition ParseInternalKey :: "slice \<Rightarrow> ParsedInternalKey option" where
  "ParseInternalKey internal_key =
     (let n = length internal_key in
      if n < 8 then None
      else
        let num = key_tag internal_key; c = (ucast (num AND 0xFF) :: byte) in
        if c = 0 then Some \<lparr>user_key = take (n - 8) internal_key, sequence = drop_bit 8 num, vtype = kTypeDeletion\<rparr>
        else if c = 1 then Some \<lparr>user_key = take (n - 8) internal_key, sequence = drop_bit 8 num, vtype = kTypeValue\<rparr>
        else None)"

definition ExtractUserKey :: "slice \<Rightarrow> slice" where
  "ExtractUserKey internal_key = take (length internal_key - 8) internal_key"

text \<open>\<open>None\<close> is a number outside the enumeration.\<close>

definition ExtractValueType :: "slice \<Rightarrow> ValueType option" where
  "ExtractValueType internal_key =
     (let c = (ucast (key_tag internal_key AND 0xFF) :: byte) in
      if c = 0 then Some kTypeDeletion else if c = 1 then Some kTypeValue else None)"

definition new_InternalKey :: "slice \<Rightarrow> u64 \<Rightarrow> ValueType \<Rightarrow> slice" where
  "new_InternalKey ukey s t = AppendInternalKey [] \<lparr>user_key = ukey, sequence = s, vtype = t\<rparr>"

section \<open>The comparator of internal keys\<close>

text \<open>The functions of the user comparator are parameters.\<close>

definition internal_Compare :: "(slice \<Rightarrow> slice \<Rightarrow> int) \<Rightarrow> slice \<Rightarrow> slice \<Rightarrow> int" where
  "internal_Compare ucmp akey bkey =
     (let r = ucmp (ExtractUserKey akey) (ExtractUserKey bkey) in
      if r = 0 then
        let anum = key_tag akey; bnum = key_tag bkey in
        if anum > bnum then - 1 else if anum < bnum then 1 else r
      else r)"

definition internal_FindShortestSeparator ::
  "(slice \<Rightarrow> slice \<Rightarrow> int) \<Rightarrow> (slice \<Rightarrow> slice \<Rightarrow> slice) \<Rightarrow> slice \<Rightarrow> slice \<Rightarrow> slice" where
  "internal_FindShortestSeparator ucmp usep start limit =
     (let user_start = ExtractUserKey start; user_limit = ExtractUserKey limit;
          tmp = usep user_start user_limit
      in if length tmp < length user_start \<and> ucmp user_start tmp < 0
         then PutFixed64 tmp (PackSequenceAndType kMaxSequenceNumber kValueTypeForSeek)
         else start)"

definition internal_FindShortSuccessor ::
  "(slice \<Rightarrow> slice \<Rightarrow> int) \<Rightarrow> (slice \<Rightarrow> slice) \<Rightarrow> slice \<Rightarrow> slice" where
  "internal_FindShortSuccessor ucmp usucc key =
     (let ukey = ExtractUserKey key; tmp = usucc ukey in
      if length tmp < length ukey \<and> ucmp ukey tmp < 0
      then PutFixed64 tmp (PackSequenceAndType kMaxSequenceNumber kValueTypeForSeek)
      else key)"

section \<open>The filter policy for internal keys\<close>

definition internal_CreateFilter :: "(slice list \<Rightarrow> byte list) \<Rightarrow> slice list \<Rightarrow> byte list" where
  "internal_CreateFilter create keys = create (map ExtractUserKey keys)"

definition internal_KeyMayMatch :: "(slice \<Rightarrow> slice \<Rightarrow> bool) \<Rightarrow> slice \<Rightarrow> slice \<Rightarrow> bool" where
  "internal_KeyMayMatch may_match key f = may_match (ExtractUserKey key) f"

section \<open>Lookup keys\<close>

text \<open>The character array of a \<open>LookupKey\<close> (\<open>start_\<close> to \<open>end_\<close>) and the length of its prefix.\<close>

record LookupKey =
  lk_chars :: "byte list"
  lk_kstart :: nat

definition new_LookupKey :: "slice \<Rightarrow> u64 \<Rightarrow> LookupKey" where
  "new_LookupKey ukey s =
     (let prefix = EncodeVarint32 (of_nat (length ukey + 8)) in
      \<lparr>lk_chars = prefix @ ukey @ EncodeFixed64 (PackSequenceAndType s kValueTypeForSeek),
       lk_kstart = length prefix\<rparr>)"

definition memtable_key :: "LookupKey \<Rightarrow> slice" where
  "memtable_key k = lk_chars k"

definition internal_key :: "LookupKey \<Rightarrow> slice" where
  "internal_key k = drop (lk_kstart k) (lk_chars k)"

definition lookup_user_key :: "LookupKey \<Rightarrow> slice" where
  "lookup_user_key k = take (length (lk_chars k) - lk_kstart k - 8) (drop (lk_kstart k) (lk_chars k))"

section \<open>Round trip of internal keys\<close>

lemma key_parts [simp]:
  "ExtractUserKey (ukey @ EncodeFixed64 w) = ukey" "key_tag (ukey @ EncodeFixed64 w) = w"
  by (simp_all add: ExtractUserKey_def key_tag_def EncodeFixed64_def)

lemma pack_parts:
  assumes "seq \<le> kMaxSequenceNumber"
  shows "drop_bit 8 (PackSequenceAndType seq t) = seq"
    and "(ucast (PackSequenceAndType seq t AND 0xFF) :: byte) = (if t = kTypeValue then 1 else 0)"
    and "unat (PackSequenceAndType seq t) = 256 * unat seq + (if t = kTypeValue then 1 else 0)"
proof -
  have lt: "unat seq < 2 ^ 56" using assms by (simp add: kMaxSequenceNumber_def word_le_nat_alt)
  have z: "\<not> bit seq n" if "56 \<le> n" for n
  proof -
    have "take_bit 56 seq = seq" using lt by (simp add: word_unat_eq_iff unat_take_bit_mod)
    then show ?thesis using that by (metis bit_take_bit_iff not_le)
  qed
  have t: "\<not> bit (type_code t) (Suc n)" "bit (type_code t) 0 \<longleftrightarrow> t = kTypeValue" for n
    by (cases t; simp add: bit_1_iff)+
  have t': "bit (type_code t) n \<longleftrightarrow> n = 0 \<and> t = kTypeValue" for n
    using t by (cases n) auto
  have *: "PackSequenceAndType seq t = push_bit 8 seq + type_code t"
    unfolding PackSequenceAndType_def
    by (rule disjunctive_add_eq_or [symmetric]) (auto intro!: bit_word_eqI simp: bit_simps t')
  show d: "drop_bit 8 (PackSequenceAndType seq t) = seq"
  proof (rule bit_word_eqI)
    fix n assume "n < LENGTH(64)"
    then show "bit (drop_bit 8 (PackSequenceAndType seq t)) n = bit seq n"
      using z [of n] by (cases "56 \<le> n") (auto simp: PackSequenceAndType_def bit_simps t')
  qed
  have low: "take_bit 8 (PackSequenceAndType seq t) = type_code t"
    by (rule bit_word_eqI) (auto simp: PackSequenceAndType_def bit_simps t')
  have "PackSequenceAndType seq t AND 0xFF = type_code t"
    using low by (simp add: take_bit_eq_mask mask_eq_exp_minus_1)
  then show "(ucast (PackSequenceAndType seq t AND 0xFF) :: byte) = (if t = kTypeValue then 1 else 0)"
    by (cases t) simp_all
  have "unat (PackSequenceAndType seq t) = 256 * (unat (PackSequenceAndType seq t) div 256) + unat (PackSequenceAndType seq t) mod 256"
    by simp
  also have "unat (PackSequenceAndType seq t) div 256 = unat seq"
    using arg_cong [OF d, of unat] by (simp add: unat_drop_bit_div)
  also have "unat (PackSequenceAndType seq t) mod 256 = (if t = kTypeValue then 1 else 0)"
    using low by (cases t) (simp_all add: word_unat_eq_iff unat_take_bit_mod)
  finally show "unat (PackSequenceAndType seq t) = 256 * unat seq + (if t = kTypeValue then 1 else 0)" .
qed

lemma AppendInternalKey_eq:
  "AppendInternalKey r k = r @ user_key k @ EncodeFixed64 (PackSequenceAndType (sequence k) (vtype k))"
  by (simp add: AppendInternalKey_def PutFixed64_def)

lemma new_InternalKey_eq: "new_InternalKey u s t = u @ EncodeFixed64 (PackSequenceAndType s t)"
  by (simp add: new_InternalKey_def AppendInternalKey_eq)

lemma Parse_AppendInternalKey:
  assumes "sequence k \<le> kMaxSequenceNumber"
  shows "ParseInternalKey (AppendInternalKey [] k) = Some k"
  using pack_parts [OF assms, of "vtype k"] key_parts [of "user_key k"]
  by (cases "vtype k") (simp_all add: ParseInternalKey_def Let_def AppendInternalKey_eq)

lemma ExtractValueType_new:
  "s \<le> kMaxSequenceNumber \<Longrightarrow> ExtractValueType (new_InternalKey u s t) = Some t"
  using pack_parts [of s t] by (cases t) (simp_all add: ExtractValueType_def Let_def new_InternalKey_eq)

section \<open>The order of internal keys\<close>

lemma internal_Compare_le:
  "internal_Compare c a b \<le> 0 \<longleftrightarrow>
     c (ExtractUserKey a) (ExtractUserKey b) < 0 \<or>
     c (ExtractUserKey a) (ExtractUserKey b) = 0 \<and> key_tag b \<le> key_tag a"
  by (auto simp: internal_Compare_def Let_def)

lemma internal_Compare_less:
  "internal_Compare c a b < 0 \<longleftrightarrow>
     c (ExtractUserKey a) (ExtractUserKey b) < 0 \<or>
     c (ExtractUserKey a) (ExtractUserKey b) = 0 \<and> key_tag b < key_tag a"
  by (auto simp: internal_Compare_def Let_def)

lemma internal_Compare_greater:
  "internal_Compare c a b > 0 \<longleftrightarrow>
     c (ExtractUserKey a) (ExtractUserKey b) > 0 \<or>
     c (ExtractUserKey a) (ExtractUserKey b) = 0 \<and> key_tag a < key_tag b"
  by (auto simp: internal_Compare_def Let_def)

lemma internal_Compare_eq_0:
  "internal_Compare c a b = 0 \<longleftrightarrow> c (ExtractUserKey a) (ExtractUserKey b) = 0 \<and> key_tag a = key_tag b"
  by (auto simp: internal_Compare_def Let_def)

abbreviation internal_ok :: "(slice \<Rightarrow> bool) \<Rightarrow> slice \<Rightarrow> bool" where
  "internal_ok ok k \<equiv> 8 \<le> length k \<and> ok (ExtractUserKey k)"

text \<open>A user comparator that keeps the contract gives an internal comparator that keeps it.\<close>

lemma internal_trans:
  assumes order: "key_order ok Compare" and ok: "internal_ok ok a" "internal_ok ok b" "internal_ok ok c"
    and ab: "internal_Compare Compare a b \<le> 0" and bc: "internal_Compare Compare b c \<le> 0"
  shows "internal_Compare Compare a c \<le> 0"
proof -
  let ?C = "\<lambda>x y. Compare (ExtractUserKey x) (ExtractUserKey y)"
  have le: "?C a b \<le> 0" "?C b c \<le> 0" using ab bc by (auto simp: internal_Compare_le)
  show ?thesis
  proof (cases "?C a b < 0 \<or> ?C b c < 0")
    case True
    then have "?C a c < 0"
      using ok le key_order.compare_le_less_trans [OF order] key_order.compare_less_le_trans [OF order] by blast
    then show ?thesis by (simp add: internal_Compare_le)
  next
    case False
    then have "key_tag b \<le> key_tag a" "key_tag c \<le> key_tag b" using ab bc by (auto simp: internal_Compare_le)
    moreover have "?C a c \<le> 0" using ok le key_order.compare_trans [OF order] by blast
    ultimately show ?thesis by (auto simp: internal_Compare_le)
  qed
qed

lemma internal_order:
  assumes "key_order ok Compare"
  shows "key_order (internal_ok ok) (internal_Compare Compare)"
proof
  fix a b c assume a: "internal_ok ok a"
  show "internal_Compare Compare a a = 0"
    using a key_order.compare_refl [OF assms] by (simp add: internal_Compare_eq_0)
  assume b: "internal_ok ok b"
  show "internal_Compare Compare a b < 0 \<longleftrightarrow> internal_Compare Compare b a > 0"
    using a b key_order.compare_flip [OF assms] key_order.compare_eq_flip [OF assms]
    by (auto simp: internal_Compare_less internal_Compare_greater)
  assume c: "internal_ok ok c"
  show "internal_Compare Compare a b \<le> 0 \<Longrightarrow> internal_Compare Compare b c \<le> 0 \<Longrightarrow> internal_Compare Compare a c \<le> 0"
    by (rule internal_trans [OF assms a b c])
qed

context comparator begin

abbreviation iok :: "slice \<Rightarrow> bool" where
  "iok k \<equiv> internal_ok ok k"

lemma internal_separator:
  assumes "iok a" "iok b" "internal_Compare Compare a b < 0"
  defines "s \<equiv> internal_FindShortestSeparator Compare FindShortestSeparator a b"
  shows "iok s" and "internal_Compare Compare a s \<le> 0" and "internal_Compare Compare s b < 0"
proof -
  let ?ua = "ExtractUserKey a" and ?ub = "ExtractUserKey b"
  let ?t = "FindShortestSeparator ?ua ?ub"
  show "iok s" "internal_Compare Compare a s \<le> 0" "internal_Compare Compare s b < 0"
  proof (atomize (full), cases "length ?t < length ?ua \<and> Compare ?ua ?t < 0")
    case True
    have "Compare ?ua ?ub \<noteq> 0" using True separator_same [of ?ua ?ub] assms(1,2) by auto
    then have lt: "Compare ?ua ?ub < 0" using assms(3) by (auto simp: internal_Compare_less)
    have s: "s = ?t @ EncodeFixed64 (PackSequenceAndType kMaxSequenceNumber kValueTypeForSeek)"
      using True by (simp add: s_def internal_FindShortestSeparator_def Let_def PutFixed64_def)
    show "iok s \<and> internal_Compare Compare a s \<le> 0 \<and> internal_Compare Compare s b < 0"
      using True lt separator_ok [of ?ua ?ub] separator [of ?ua ?ub] assms(1,2)
      by (simp add: s internal_Compare_le internal_Compare_less)
  next
    case False
    then have "s = a" by (auto simp: s_def internal_FindShortestSeparator_def Let_def)
    then show "iok s \<and> internal_Compare Compare a s \<le> 0 \<and> internal_Compare Compare s b < 0"
      using assms(1,3) compare_refl by (simp add: internal_Compare_le)
  qed
qed

lemma internal_successor:
  assumes "iok a"
  defines "s \<equiv> internal_FindShortSuccessor Compare FindShortSuccessor a"
  shows "iok s" and "internal_Compare Compare a s \<le> 0"
  using assms(1) compare_refl [of "ExtractUserKey a"] successor_ok [of "ExtractUserKey a"]
  by (auto simp: s_def internal_FindShortSuccessor_def Let_def PutFixed64_def internal_Compare_le)

lemma internal_comparator:
  "comparator iok (internal_Compare Compare)
     (internal_FindShortestSeparator Compare FindShortestSeparator) (internal_FindShortSuccessor Compare FindShortSuccessor)"
proof (intro comparator.intro internal_order key_order_axioms comparator_axioms.intro)
  fix a b assume a: "iok a"
  show "iok (internal_FindShortSuccessor Compare FindShortSuccessor a)" by (rule internal_successor [OF a])
  show "internal_Compare Compare a (internal_FindShortSuccessor Compare FindShortSuccessor a) \<le> 0"
    by (rule internal_successor [OF a])
  assume b: "iok b"
  show "iok (internal_FindShortestSeparator Compare FindShortestSeparator a b)" if "internal_Compare Compare a b < 0"
    by (rule internal_separator [OF a b that])
  show "internal_Compare Compare a (internal_FindShortestSeparator Compare FindShortestSeparator a b) \<le> 0 \<and>
      internal_Compare Compare (internal_FindShortestSeparator Compare FindShortestSeparator a b) b < 0"
    if "internal_Compare Compare a b < 0"
    using internal_separator [OF a b that] by blast
  show "internal_FindShortestSeparator Compare FindShortestSeparator a b = a" if "internal_Compare Compare a b = 0"
    using a b that separator_same [of "ExtractUserKey a" "ExtractUserKey b"]
    by (simp add: internal_Compare_eq_0 internal_FindShortestSeparator_def)
qed

end

interpretation internal: comparator "\<lambda>k. 8 \<le> length k \<and> True" "internal_Compare bytewise_Compare"
  "internal_FindShortestSeparator bytewise_Compare bytewise_FindShortestSeparator"
  "internal_FindShortSuccessor bytewise_Compare bytewise_FindShortSuccessor"
  by (rule bytewise.internal_comparator)

context filter_policy begin

lemma internal_filter_policy:
  "filter_policy (\<lambda>k. key_ok (ExtractUserKey k)) (internal_CreateFilter create) (internal_KeyMayMatch may_match)"
  by unfold_locales
    (auto simp: internal_CreateFilter_def internal_KeyMayMatch_def list_all_iff intro!: no_false_negative)

end

interpretation internal_bloom: filter_policy "\<lambda>k. True" "internal_CreateFilter (CreateFilter (new_BloomFilterPolicy n))"
  "internal_KeyMayMatch KeyMayMatch" for n
  by (rule bloom.internal_filter_policy)

text \<open>Increasing user keys, then decreasing sequence numbers, then values before deletions.\<close>

lemma PackSequenceAndType_less:
  assumes "s \<le> kMaxSequenceNumber" "s' \<le> kMaxSequenceNumber"
  shows "PackSequenceAndType s t < PackSequenceAndType s' t' \<longleftrightarrow>
    s < s' \<or> s = s' \<and> t = kTypeDeletion \<and> t' = kTypeValue"
  using pack_parts(3) [OF assms(1), of t] pack_parts(3) [OF assms(2), of t']
  by (cases t; cases t'; auto simp: word_less_nat_alt word_unat_eq_iff)

lemma internal_key_order:
  assumes "s \<le> kMaxSequenceNumber" "s' \<le> kMaxSequenceNumber"
  shows "internal_Compare bytewise_Compare (new_InternalKey u s t) (new_InternalKey u' s' t') < 0 \<longleftrightarrow>
    u < u' \<or> u = u' \<and> (s' < s \<or> s' = s \<and> t = kTypeValue \<and> t' = kTypeDeletion)"
  using PackSequenceAndType_less [OF assms(2,1)]
  by (auto simp: internal_Compare_less new_InternalKey_eq bytewise_Compare_def slice_compare_lex)

section \<open>Lookup keys\<close>

lemma LookupKey_parts:
  "internal_key (new_LookupKey u s) = new_InternalKey u s kValueTypeForSeek"
  "lookup_user_key (new_LookupKey u s) = u"
  by (simp_all add: internal_key_def lookup_user_key_def new_LookupKey_def Let_def new_InternalKey_eq)

lemma memtable_key_bound: "length (memtable_key (new_LookupKey u s)) \<le> length u + 13"
  using length_EncodeVarint(1) [of "of_nat (length u + 8)"]
  by (simp add: memtable_key_def new_LookupKey_def Let_def)

lemma memtable_key_parse:
  assumes "length u + 8 < 2 ^ 32"
  shows "GetLengthPrefixedSlice (memtable_key (new_LookupKey u s) @ p) =
    Some (internal_key (new_LookupKey u s), p)"
  using GetLengthPrefixedSlice_Put [of "u @ EncodeFixed64 (PackSequenceAndType s kValueTypeForSeek)" p] assms
  by (simp add: memtable_key_def internal_key_def new_LookupKey_def Let_def)

lemma lookup_key_seek:
  assumes "s \<le> kMaxSequenceNumber" "s' \<le> kMaxSequenceNumber"
  shows "internal_Compare bytewise_Compare (internal_key (new_LookupKey u s)) (new_InternalKey u s' t) \<le> 0 \<longleftrightarrow> s' \<le> s"
proof -
  have "PackSequenceAndType s' t \<le> PackSequenceAndType s kTypeValue \<longleftrightarrow> s' \<le> s"
    using PackSequenceAndType_less [OF assms, of kTypeValue t] by (auto simp: not_less [symmetric])
  then show ?thesis
    by (simp add: internal_Compare_le LookupKey_parts new_InternalKey_eq bytewise_Compare_def slice_compare_lex)
qed

end
