(* ===== verification/LDB_Correct.thy ===== *)
theory LDB_Correct
  imports LDB_Dbformat LDB_Crc32c
begin

text \<open>
  The properties of the storage library's encodings, checksums, filters and keys.
\<close>

section \<open>The properties of the encodings\<close>

text \<open>
  C14. Reading back what was appended: fixed-width numbers, variable-length numbers and
  length-prefixed slices are read back from what the \<open>Put\<close> functions append, with the rest of the
  input left, and the length of a variable-length number is the one \<open>VarintLength\<close> computes.
\<close>

theorem coding_roundtrip:
  assumes "length s < 2 ^ 32"
  shows "DecodeFixed32 (PutFixed32 [] v @ p) = Some v \<and> DecodeFixed64 (PutFixed64 [] w @ p) = Some w \<and>
    GetVarint32 (PutVarint32 [] v @ p) = Some (v, p) \<and> GetVarint64 (PutVarint64 [] w @ p) = Some (w, p) \<and>
    GetLengthPrefixedSlice (PutLengthPrefixedSlice [] s @ p) = Some (s, p) \<and>
    length (PutVarint64 [] w) = VarintLength w"
  using assms
  by (simp add: PutFixed32_def PutFixed64_def PutVarint32_def PutVarint64_def PutLengthPrefixedSlice_def VarintLength_Encode)

theorem coding_roundtrip_witness:
  "DecodeFixed32 (PutFixed32 [] 7 @ [1]) = Some 7 \<and> DecodeFixed64 (PutFixed64 [] 9 @ [1]) = Some 9 \<and>
    GetVarint32 (PutVarint32 [] 7 @ [1]) = Some (7, [1]) \<and> GetVarint64 (PutVarint64 [] 9 @ [1]) = Some (9, [1]) \<and>
    GetLengthPrefixedSlice (PutLengthPrefixedSlice [] [65, 66] @ [1]) = Some ([65, 66], [1]) \<and>
    length (PutVarint64 [] 9) = VarintLength 9"
  by (rule coding_roundtrip) simp

text \<open>
  Reading a length-prefixed slice from arbitrary bytes stays inside them: what is returned is a
  part of the input, after a prefix of one to five bytes, and the rest is what follows it.
\<close>

lemma GetLengthPrefixedSlice_inside:
  assumes "GetLengthPrefixedSlice input = Some (result, remaining)"
  shows "\<exists>pre. input = pre @ result @ remaining \<and> 1 \<le> length pre \<and> length pre \<le> 5"
  by (rule GetLengthPrefixedSlice_split [OF assms])

text \<open>
  C15. The table-driven checksum, whatever the alignment of its buffer, is the CRC-32C computed bit by
  bit; extending it by a second buffer gives the checksum of both; a masked checksum is unmasked again.
\<close>

theorem crc32c_equivalence:
  "Extend pval crc xs = crc32c crc xs \<and> Extend q (Extend pval crc xs) ys = Extend pval crc (xs @ ys) \<and>
    Unmask (Mask (Extend pval crc xs)) = Extend pval crc xs"
  by (simp add: Unmask_Mask Extend_append) (rule Extend_crc32c)

section \<open>The properties of filters and keys\<close>



text \<open>
  C17. An internal key is parsed back into its user key, sequence number and type; internal keys are ordered
  by increasing user key, then by decreasing sequence number, then with values before deletions.
\<close>

theorem internal_keys:
  assumes "s \<le> kMaxSequenceNumber" "s' \<le> kMaxSequenceNumber"
  shows "ParseInternalKey (new_InternalKey u s t) = Some \<lparr>user_key = u, sequence = s, vtype = t\<rparr> \<and>
    (internal_Compare bytewise_Compare (new_InternalKey u s t) (new_InternalKey u' s' t') < 0 \<longleftrightarrow>
      u < u' \<or> u = u' \<and> (s' < s \<or> s' = s \<and> t = kTypeValue \<and> t' = kTypeDeletion))"
  using internal_key_order [OF assms] Parse_AppendInternalKey [of "\<lparr>user_key = u, sequence = s, vtype = t\<rparr>"] assms(1)
  by (simp add: new_InternalKey_def)

theorem internal_keys_witness:
  "ParseInternalKey (new_InternalKey [65] 9 kTypeDeletion) = Some \<lparr>user_key = [65], sequence = 9, vtype = kTypeDeletion\<rparr> \<and>
    internal_Compare bytewise_Compare (new_InternalKey [65] 9 kTypeDeletion) (new_InternalKey [65] 4 kTypeValue) < 0"
  using internal_keys [of 9 4 "[65]" kTypeDeletion "[65]" kTypeValue] by (simp add: kMaxSequenceNumber_def)

text \<open>
  C18. The shortened separator of two internal keys \<open>a < b\<close> is a key with \<open>a \<le> s < b\<close>, and the
  short successor of \<open>a\<close> is a key not below \<open>a\<close>, as the index of a table needs.
\<close>

theorem internal_separator_between:
  assumes "8 \<le> length a" "8 \<le> length b" "internal_Compare bytewise_Compare a b < 0"
  defines "s \<equiv> internal_FindShortestSeparator bytewise_Compare bytewise_FindShortestSeparator a b"
    and "n \<equiv> internal_FindShortSuccessor bytewise_Compare bytewise_FindShortSuccessor a"
  shows "8 \<le> length s \<and> internal_Compare bytewise_Compare a s \<le> 0 \<and> internal_Compare bytewise_Compare s b < 0 \<and>
    8 \<le> length n \<and> internal_Compare bytewise_Compare a n \<le> 0"
  using assms internal.separator [of a b] internal.separator_ok [of a b] internal.successor [of a] internal.successor_ok [of a]
  by simp

theorem internal_separator_between_witness:
  "let a = new_InternalKey [65, 66] 9 kTypeValue; b = new_InternalKey [70] 4 kTypeValue;
     s = internal_FindShortestSeparator bytewise_Compare bytewise_FindShortestSeparator a b
   in s = new_InternalKey [66] kMaxSequenceNumber kTypeValue \<and>
      internal_Compare bytewise_Compare a s \<le> 0 \<and> internal_Compare bytewise_Compare s b < 0"
proof -
  have "internal_Compare bytewise_Compare (new_InternalKey [65, 66] 9 kTypeValue) (new_InternalKey [70] 4 kTypeValue) < 0"
    by (simp add: internal_key_order kMaxSequenceNumber_def)
  moreover have "internal_FindShortestSeparator bytewise_Compare bytewise_FindShortestSeparator
      (new_InternalKey [65, 66] 9 kTypeValue) (new_InternalKey [70] 4 kTypeValue) = new_InternalKey [66] kMaxSequenceNumber kTypeValue"
    by code_simp
  ultimately show ?thesis
    using internal_separator_between [of "new_InternalKey [65, 66] 9 kTypeValue" "new_InternalKey [70] 4 kTypeValue"]
    by (simp add: new_InternalKey_eq)
qed

text \<open>
  A lookup key fits the \<open>usize + 13\<close> bytes its constructor allocates, its parts are the length-prefixed
  internal key and the user key, and seeking to it skips exactly the entries that are newer than the
  snapshot: an entry of the user key is at or after the lookup key if and only if its sequence number is
  at most the snapshot's.
\<close>

lemma lookup_key_correct:
  assumes "length u + 8 < 2 ^ 32" "s \<le> kMaxSequenceNumber" "s' \<le> kMaxSequenceNumber"
  defines "k \<equiv> new_LookupKey u s"
  shows "length (memtable_key k) \<le> length u + 13 \<and> lookup_user_key k = u \<and>
    GetLengthPrefixedSlice (memtable_key k @ p) = Some (internal_key k, p) \<and>
    (internal_Compare bytewise_Compare (internal_key k) (new_InternalKey u s' t) \<le> 0 \<longleftrightarrow> s' \<le> s)"
  unfolding k_def
  using memtable_key_bound [of u s] LookupKey_parts(2) [of u s] memtable_key_parse [OF assms(1), of s p]
    lookup_key_seek [OF assms(2,3), of u t] by blast

end
