(* ===== verification/LDB_Status.thy ===== *)
theory LDB_Status
  imports LDB_Coding
begin

text \<open>
  Text of numbers and of raw bytes (\<open>logging.cc\<close>) and the status values (\<open>status.h\<close>, \<open>status.cc\<close>).
\<close>

section \<open>Characters\<close>

text \<open>The bytes of a C string literal.\<close>

definition chars :: "string \<Rightarrow> byte list" where
  "chars s = map of_char s"

lemma chars_simps [simp]: "chars [] = []" "chars (c # s) = of_char c # chars s"
  by (simp_all add: chars_def)

lemma length_chars [simp]: "length (chars s) = length s"
  by (simp add: chars_def)

section \<open>Numbers as text\<close>

text \<open>The conversions \<open>%llu\<close>, \<open>%u\<close> of \<open>snprintf\<close>.\<close>

definition digit_char :: "nat \<Rightarrow> byte" where
  "digit_char d = of_nat (48 + d)"

fun decimal :: "nat \<Rightarrow> byte list" where
  "decimal n = (if n < 10 then [digit_char n] else decimal (n div 10) @ [digit_char (n mod 10)])"

declare decimal.simps [simp del]

definition AppendNumberTo :: "byte list \<Rightarrow> u64 \<Rightarrow> byte list" where
  "AppendNumberTo str num = str @ decimal (unat num)"

definition NumberToString :: "u64 \<Rightarrow> byte list" where
  "NumberToString num = AppendNumberTo [] num"

text \<open>The conversion \<open>%02x\<close> of a byte.\<close>

definition hex_digit :: "nat \<Rightarrow> byte" where
  "hex_digit d = (if d < 10 then of_nat (48 + d) else of_nat (87 + d))"

definition escape_char :: "byte \<Rightarrow> byte list" where
  "escape_char c =
     (if 0x20 \<le> c \<and> c \<le> 0x7E then [c]
      else [0x5C, 0x78, hex_digit (unat c div 16), hex_digit (unat c mod 16)])"

definition AppendEscapedStringTo :: "byte list \<Rightarrow> slice \<Rightarrow> byte list" where
  "AppendEscapedStringTo str v = str @ concat (map escape_char v)"

definition EscapeString :: "slice \<Rightarrow> byte list" where
  "EscapeString v = AppendEscapedStringTo [] v"

text \<open>
  The loop of \<open>ConsumeDecimalNumber\<close> from a value and a count of digits: \<open>None\<close> for an overflow,
  otherwise the value, the digits and the rest of the input.
\<close>

definition kMaxUint64 :: u64 where
  "kMaxUint64 = NOT 0"

fun consume_digits :: "u64 \<Rightarrow> nat \<Rightarrow> slice \<Rightarrow> (u64 \<times> nat \<times> slice) option" where
  "consume_digits v digits [] = Some (v, digits, [])"
| "consume_digits v digits (c # inp) =
     (if 48 \<le> c \<and> c \<le> 57 then
        let delta = (ucast (c - 48) :: u64) in
        if v > kMaxUint64 div 10 \<or> v = kMaxUint64 div 10 \<and> delta > kMaxUint64 mod 10 then None
        else consume_digits (v * 10 + delta) (digits + 1) inp
      else Some (v, digits, c # inp))"

definition ConsumeDecimalNumber :: "slice \<Rightarrow> (u64 \<times> slice) option" where
  "ConsumeDecimalNumber inp =
     (case consume_digits 0 0 inp of
        None \<Rightarrow> None
      | Some (v, digits, inp) \<Rightarrow> if digits > 0 then Some (v, inp) else None)"

section \<open>Status values\<close>

text \<open>
  The field \<open>state_\<close>: \<open>None\<close> for the null pointer of a success, otherwise the array with the length
  of the message in four bytes, the code and the message.
\<close>

datatype Code = kOk | kNotFound | kCorruption | kNotSupported | kInvalidArgument | kIOError

type_synonym Status = "byte list option"

fun code_byte :: "Code \<Rightarrow> byte" where
  "code_byte kOk = 0"
| "code_byte kNotFound = 1"
| "code_byte kCorruption = 2"
| "code_byte kNotSupported = 3"
| "code_byte kInvalidArgument = 4"
| "code_byte kIOError = 5"

text \<open>The lengths are 32-bit numbers; the array is the one of messages whose lengths do not wrap around.\<close>

definition new_Status :: "Code \<Rightarrow> slice \<Rightarrow> slice \<Rightarrow> Status" where
  "new_Status code msg msg2 =
     (let len1 = (of_nat (length msg) :: u32); len2 = (of_nat (length msg2) :: u32);
          n = len1 + (if len2 \<noteq> 0 then 2 + len2 else 0)
      in Some (le_bytes 4 n @ [code_byte code] @ take (unat len1) msg @
           (if len2 \<noteq> 0 then [0x3A, 0x20] @ take (unat len2) msg2 else [])))"

definition Status_OK :: Status where
  "Status_OK = None"

abbreviation "Status_Corruption msg msg2 \<equiv> new_Status kCorruption msg msg2"
abbreviation "Status_IOError msg msg2 \<equiv> new_Status kIOError msg msg2"
abbreviation "Status_NotFound msg msg2 \<equiv> new_Status kNotFound msg msg2"
abbreviation "Status_InvalidArgument msg msg2 \<equiv> new_Status kInvalidArgument msg msg2"
abbreviation "Status_NotSupported msg msg2 \<equiv> new_Status kNotSupported msg msg2"

definition status_ok :: "Status \<Rightarrow> bool" where
  "status_ok s = (s = None)"

text \<open>\<open>None\<close> is a code byte outside the enumeration, as no constructor writes.\<close>

definition status_code :: "Status \<Rightarrow> Code option" where
  "status_code s =
     (case s of
        None \<Rightarrow> Some kOk
      | Some st \<Rightarrow> map_of (map (\<lambda>c. (code_byte c, c))
          [kOk, kNotFound, kCorruption, kNotSupported, kInvalidArgument, kIOError]) (st ! 4))"

definition CopyState :: "byte list \<Rightarrow> byte list" where
  "CopyState state = (let n = (le_word (take 4 state) :: u32) in take (unat (n + 5)) state)"

fun code_text :: "Code \<Rightarrow> byte list" where
  "code_text kOk = chars ''OK''"
| "code_text kNotFound = chars ''NotFound: ''"
| "code_text kCorruption = chars ''Corruption: ''"
| "code_text kNotSupported = chars ''Not implemented: ''"
| "code_text kInvalidArgument = chars ''Invalid argument: ''"
| "code_text kIOError = chars ''IO error: ''"

definition Status_ToString :: "Status \<Rightarrow> byte list" where
  "Status_ToString s =
     (case s of
        None \<Rightarrow> chars ''OK''
      | Some st \<Rightarrow>
          (case status_code s of
             Some c \<Rightarrow> code_text c
           | None \<Rightarrow> chars ''Unknown code('' @
               (let c = sint (st ! 4) in (if c < 0 then [0x2D] else []) @ decimal (nat \<bar>c\<bar>)) @ chars ''): '') @
          take (unat (le_word (take 4 st) :: u32)) (drop 5 st))"

lemma status_ok_simps [simp]: "status_ok Status_OK" "\<not> status_ok (new_Status c m n)"
  by (simp_all add: status_ok_def Status_OK_def new_Status_def Let_def)

section \<open>Numbers are read back\<close>

lemma digit_char_range: "d < 10 \<Longrightarrow> 48 \<le> digit_char d \<and> digit_char d \<le> 57 \<and> unat (digit_char d - 48) = d"
proof -
  assume d: "d < 10"
  have "digit_char d - 48 = of_nat d" by (simp add: digit_char_def)
  moreover have "unat (of_nat d :: byte) = d" using d by (simp add: unat_of_nat)
  moreover have "unat (digit_char d) = 48 + d" using d by (simp add: digit_char_def unat_of_nat del: of_nat_add)
  ultimately show ?thesis using d by (simp add: word_le_nat_alt)
qed

lemma consume_digits_append:
  "consume_digits v k xs = Some (w, j, []) \<Longrightarrow> consume_digits v k (xs @ ys) = consume_digits w j ys"
  by (induction v k xs rule: consume_digits.induct) (auto simp: Let_def split: if_splits)

lemma max_div_10: "kMaxUint64 div 10 = 1844674407370955161" "kMaxUint64 mod 10 = 5"
  by (simp_all add: kMaxUint64_def)

lemma consume_digit:
  assumes "d < 10" "10 * unat v + d < 2 ^ 64"
  shows "consume_digits v k (digit_char d # ys) = consume_digits (of_nat (10 * unat v + d)) (Suc k) ys"
proof -
  have r: "48 \<le> digit_char d" "digit_char d \<le> 57" "unat (digit_char d - 48) = d"
    using digit_char_range [OF assms(1)] by auto
  have u: "(ucast (digit_char d - 48) :: u64) = of_nat d"
    using r(3) assms(1) by (simp add: word_unat_eq_iff unsigned_ucast_eq unat_of_nat take_bit_nat_eq_self)
  have "of_nat (10 * unat v + d) = v * 10 + of_nat d" by (simp add: mult.commute)
  moreover have "\<not> (v > kMaxUint64 div 10 \<or> v = kMaxUint64 div 10 \<and> (of_nat d :: u64) > kMaxUint64 mod 10)"
    unfolding max_div_10 using assms by (auto simp: word_less_nat_alt unat_of_nat)
  ultimately show ?thesis using r u by (auto simp: Let_def mult.commute)
qed

lemma consume_decimal:
  "n < 2 ^ 64 \<Longrightarrow> \<exists>k > 0. consume_digits 0 0 (decimal n) = Some (of_nat n, k, [])"
proof (induction n rule: decimal.induct)
  case (1 n)
  show ?case
  proof (cases "n < 10")
    case True
    then show ?thesis using consume_digit [of n 0 0 "[]"] by (simp add: decimal.simps [of n])
  next
    case False
    have "n div 10 < 2 ^ 64" using "1.prems" by simp
    then obtain k where k: "consume_digits 0 0 (decimal (n div 10)) = Some (of_nat (n div 10), k, [])"
      using "1.IH" [OF False] by blast
    have u: "unat (of_nat (n div 10) :: u64) = n div 10" using "1.prems" by (simp add: unat_of_nat)
    have "consume_digits 0 0 (decimal n) = consume_digits (of_nat (n div 10)) k [digit_char (n mod 10)]"
      using consume_digits_append [OF k] False by (simp add: decimal.simps [of n])
    also have "\<dots> = Some (of_nat n, Suc k, [])"
      using consume_digit [of "n mod 10" "of_nat (n div 10)" k "[]"] "1.prems" u by simp
    finally show ?thesis by blast
  qed
qed

definition starts_with_digit :: "slice \<Rightarrow> bool" where
  "starts_with_digit p = (case p of [] \<Rightarrow> False | c # q \<Rightarrow> 48 \<le> c \<and> c \<le> 57)"

lemma ConsumeDecimalNumber_NumberToString:
  assumes "\<not> starts_with_digit p"
  shows "ConsumeDecimalNumber (NumberToString v @ p) = Some (v, p)"
proof -
  obtain k where k: "k > 0" "consume_digits 0 0 (decimal (unat v)) = Some (v, k, [])"
    using consume_decimal [OF unat_lt_64 [of v]] by auto
  have "consume_digits v k p = Some (v, k, p)"
    using assms by (cases p) (auto simp: starts_with_digit_def)
  then show ?thesis
    using consume_digits_append [OF k(2), of p] k(1)
    by (simp add: ConsumeDecimalNumber_def NumberToString_def AppendNumberTo_def)
qed

section \<open>Status values keep their code and message\<close>

lemma new_Status_cases:
  assumes "length msg + length msg2 + 7 < 2 ^ 32"
  obtains body where "new_Status c msg msg2 = Some (le_bytes 4 (of_nat (length body) :: u32) @ [code_byte c] @ body)"
    and "length body + 5 < 2 ^ 32" and "body = msg @ (if msg2 = [] then [] else [0x3A, 0x20] @ msg2)"
proof
  let ?body = "msg @ (if msg2 = [] then [] else [0x3A, 0x20] @ msg2)"
  have u: "unat (of_nat (length msg) :: u32) = length msg" "unat (of_nat (length msg2) :: u32) = length msg2"
    using assms by (simp_all add: unat_of_nat)
  then have z: "(of_nat (length msg2) :: u32) = 0 \<longleftrightarrow> msg2 = []" by (metis length_0_conv unat_eq_zero)
  show "new_Status c msg msg2 = Some (le_bytes 4 (of_nat (length ?body) :: u32) @ [code_byte c] @ ?body)"
    using u z by (simp add: new_Status_def Let_def add.assoc)
  show "length ?body + 5 < 2 ^ 32" using assms by auto
qed simp

lemma status_code_new [simp]:
  assumes "length msg + length msg2 + 7 < 2 ^ 32"
  shows "status_code (new_Status c msg msg2) = Some c"
  by (rule new_Status_cases [OF assms, of c]) (cases c; simp add: status_code_def nth_append)

lemma CopyState_new:
  assumes "length msg + length msg2 + 7 < 2 ^ 32"
  shows "map_option CopyState (new_Status c msg msg2) = new_Status c msg msg2"
proof (rule new_Status_cases [OF assms, of c])
  fix body
  assume s: "new_Status c msg msg2 = Some (le_bytes 4 (of_nat (length body) :: u32) @ [code_byte c] @ body)"
    and l: "length body + 5 < 2 ^ 32"
  have "unat (of_nat (length body) + 5 :: u32) = length body + 5"
    using l by (metis of_nat_add of_nat_numeral unat_of_nat_32)
  then show ?thesis by (simp add: s CopyState_def)
qed

lemma Status_ToString_new:
  assumes "length msg + length msg2 + 7 < 2 ^ 32"
  shows "Status_ToString (new_Status c msg msg2) = code_text c @ msg @ (if msg2 = [] then [] else chars '': '' @ msg2)"
proof (rule new_Status_cases [OF assms, of c])
  fix body
  assume s: "new_Status c msg msg2 = Some (le_bytes 4 (of_nat (length body) :: u32) @ [code_byte c] @ body)"
    and l: "length body + 5 < 2 ^ 32" and b: "body = msg @ (if msg2 = [] then [] else [0x3A, 0x20] @ msg2)"
  have "unat (of_nat (length body) :: u32) = length body" using l by (simp add: unat_of_nat)
  then have "Status_ToString (new_Status c msg msg2) = code_text c @ body"
    using status_code_new [OF assms, of c] unfolding s by (simp add: Status_ToString_def)
  then show ?thesis by (simp add: b)
qed

end
