(* ===== verification/LDB_Env.thy ===== *)
theory LDB_Env
  imports LDB_Status
begin

text \<open>
  Files (\<open>env.h\<close>) as the POSIX environment implements them (\<open>env_posix.cc\<close>) on the streams of the C
  library. The streams are modelled with their documented behaviour: a call that fails transfers
  part of the bytes. Which calls fail is part of the state of the stream.
\<close>

section \<open>Streams of the C library\<close>

text \<open>
  Every call takes the next element of the list of faults: \<open>None\<close> (or the end of the list) for a call
  that succeeds, \<open>Some k\<close> for one that stops with an error after \<open>k\<close> bytes.
\<close>

fun next_fault :: "nat option list \<Rightarrow> nat option \<times> nat option list" where
  "next_fault [] = (None, [])"
| "next_fault (f # fs) = (f, fs)"

record out_stream =
  written :: "byte list"
  out_faults :: "nat option list"

definition fwrite_unlocked :: "byte list \<Rightarrow> out_stream \<Rightarrow> nat \<times> out_stream" where
  "fwrite_unlocked data file =
     (let (fault, fs) = next_fault (out_faults file);
          r = (case fault of None \<Rightarrow> length data | Some k \<Rightarrow> min k (length data))
      in (r, file\<lparr>written := written file @ take r data, out_faults := fs\<rparr>))"

definition fflush_unlocked :: "out_stream \<Rightarrow> bool \<times> out_stream" where
  "fflush_unlocked file =
     (let (fault, fs) = next_fault (out_faults file) in (fault = None, file\<lparr>out_faults := fs\<rparr>))"

record in_stream =
  file_data :: "byte list"
  position :: nat
  in_faults :: "nat option list"

definition unread :: "in_stream \<Rightarrow> byte list" where
  "unread file = drop (position file) (file_data file)"

text \<open>The bytes read, whether the end of the file was met, and the stream.\<close>

definition fread_unlocked :: "nat \<Rightarrow> in_stream \<Rightarrow> byte list \<times> bool \<times> in_stream" where
  "fread_unlocked n file =
     (let (fault, fs) = next_fault (in_faults file); got = take n (unread file);
          (got, eof) = (case fault of
              Some k \<Rightarrow> if k < length got then (take k got, False) else (got, length got < n)
            | None \<Rightarrow> (got, length got < n))
      in (got, eof, file\<lparr>position := position file + length got, in_faults := fs\<rparr>))"

text \<open>A seek beyond the end succeeds.\<close>

definition fseek_cur :: "nat \<Rightarrow> in_stream \<Rightarrow> bool \<times> in_stream" where
  "fseek_cur n file =
     (let (fault, fs) = next_fault (in_faults file)
      in case fault of
           None \<Rightarrow> (True, file\<lparr>position := position file + n, in_faults := fs\<rparr>)
         | Some _ \<Rightarrow> (False, file\<lparr>in_faults := fs\<rparr>))"

section \<open>The files of the POSIX environment\<close>

text \<open>The text that \<open>strerror\<close> gives for \<open>errno\<close> is part of the file's state.\<close>

definition IOError :: "byte list \<Rightarrow> byte list \<Rightarrow> Status" where
  "IOError context strerror = Status_IOError context strerror"

record PosixWritableFile =
  wf_filename :: "byte list"
  wf_file :: out_stream
  wf_strerror :: "byte list"

definition writable_Append :: "PosixWritableFile \<Rightarrow> slice \<Rightarrow> Status \<times> PosixWritableFile" where
  "writable_Append w data =
     (let (r, f) = fwrite_unlocked data (wf_file w); w = w\<lparr>wf_file := f\<rparr>
      in if r \<noteq> length data then (IOError (wf_filename w) (wf_strerror w), w) else (Status_OK, w))"

definition writable_Flush :: "PosixWritableFile \<Rightarrow> Status \<times> PosixWritableFile" where
  "writable_Flush w =
     (let (ok, f) = fflush_unlocked (wf_file w); w = w\<lparr>wf_file := f\<rparr>
      in if \<not> ok then (IOError (wf_filename w) (wf_strerror w), w) else (Status_OK, w))"

record PosixSequentialFile =
  sf_filename :: "byte list"
  sf_file :: in_stream
  sf_strerror :: "byte list"

definition sequential_Read :: "PosixSequentialFile \<Rightarrow> nat \<Rightarrow> Status \<times> slice \<times> PosixSequentialFile" where
  "sequential_Read w n =
     (let (data, feof, f) = fread_unlocked n (sf_file w); w = w\<lparr>sf_file := f\<rparr>
      in if length data < n
         then if feof then (Status_OK, data, w) else (IOError (sf_filename w) (sf_strerror w), data, w)
         else (Status_OK, data, w))"

definition sequential_Skip :: "PosixSequentialFile \<Rightarrow> nat \<Rightarrow> Status \<times> PosixSequentialFile" where
  "sequential_Skip w n =
     (let (ok, f) = fseek_cur n (sf_file w); w = w\<lparr>sf_file := f\<rparr>
      in if \<not> ok then (IOError (sf_filename w) (sf_strerror w), w) else (Status_OK, w))"

section \<open>The interface of writable files\<close>

text \<open>A status is good exactly when everything was appended; a failed call may have appended a part.\<close>

locale writable_file =
  fixes contents :: "'f \<Rightarrow> byte list" and Append :: "'f \<Rightarrow> slice \<Rightarrow> Status \<times> 'f" and Flush :: "'f \<Rightarrow> Status \<times> 'f"
  assumes append_ok: "Append f d = (s, f') \<Longrightarrow> status_ok s \<Longrightarrow> contents f' = contents f @ d"
    and append_part: "Append f d = (s, f') \<Longrightarrow> \<exists>k. contents f' = contents f @ take k d"
    and flush_contents: "Flush f = (s, f') \<Longrightarrow> contents f' = contents f"

lemma fwrite_part:
  "fwrite_unlocked d f = (r, f') \<Longrightarrow> r \<le> length d \<and> written f' = written f @ take r d"
  by (auto simp: fwrite_unlocked_def Let_def split: prod.splits option.splits)

lemma writable_Append_part:
  assumes "writable_Append w d = (s, w')"
  obtains r where "written (wf_file w') = written (wf_file w) @ take r d" "status_ok s \<longleftrightarrow> r = length d"
proof -
  obtain r f where r: "fwrite_unlocked d (wf_file w) = (r, f)" by (cases "fwrite_unlocked d (wf_file w)")
  show ?thesis using assms r fwrite_part [OF r]
    by (intro that [of r]) (auto simp: writable_Append_def IOError_def Let_def split: if_splits)
qed

interpretation posix: writable_file "\<lambda>w. written (wf_file w)" writable_Append writable_Flush
proof
  fix w :: PosixWritableFile and d s w'
  assume a: "writable_Append w d = (s, w')"
  show "\<exists>k. written (wf_file w') = written (wf_file w) @ take k d" by (rule writable_Append_part [OF a]) blast
  show "written (wf_file w') = written (wf_file w) @ d" if "status_ok s"
    by (rule writable_Append_part [OF a]) (use that in simp)
qed (auto simp: writable_Flush_def fflush_unlocked_def Let_def split: prod.splits if_splits)

section \<open>Reading forward\<close>

lemma unread_length: "length (unread f) = length (file_data f) - position f"
  by (simp add: unread_def)

text \<open>What a read returns is the beginning of what was unread.\<close>

lemma sequential_Read_split:
  assumes "sequential_Read w n = (s, data, w')"
  shows "unread (sf_file w) = data @ unread (sf_file w')" and "length data \<le> n"
    and "file_data (sf_file w') = file_data (sf_file w)"
proof -
  obtain got e f where r: "fread_unlocked n (sf_file w) = (got, e, f)" by (cases "fread_unlocked n (sf_file w)") auto
  from assms r have "data = got" "sf_file w' = f" by (auto simp: sequential_Read_def Let_def split: if_splits)
  moreover have "unread (sf_file w) = got @ unread f \<and> length got \<le> n \<and> file_data f = file_data (sf_file w)"
  proof -
    have k: "got = take (length got) (unread (sf_file w))" "length got \<le> n"
      using r by (auto simp: fread_unlocked_def min_def Let_def split: prod.splits option.splits if_splits)
    have p: "position f = position (sf_file w) + length got" "file_data f = file_data (sf_file w)"
      using r by (auto simp: fread_unlocked_def Let_def split: prod.splits)
    have "unread f = drop (length got) (unread (sf_file w))"
      by (simp add: unread_def p add.commute)
    then show ?thesis using k p(2) append_take_drop_id [of "length got" "unread (sf_file w)"] by simp
  qed
  ultimately show "unread (sf_file w) = data @ unread (sf_file w')" "length data \<le> n"
    "file_data (sf_file w') = file_data (sf_file w)" by auto
qed

lemma sequential_Read_no_fault:
  assumes "in_faults (sf_file w) = []" "sequential_Read w n = (s, data, w')"
  shows "status_ok s" and "data = take n (unread (sf_file w))"
    and "unread (sf_file w') = drop n (unread (sf_file w))" and "in_faults (sf_file w') = []"
proof -
  show d: "data = take n (unread (sf_file w))" and "status_ok s" and "in_faults (sf_file w') = []"
    using assms by (auto simp: sequential_Read_def fread_unlocked_def Let_def split: if_splits)
  show "unread (sf_file w') = drop n (unread (sf_file w))"
    using sequential_Read_split(1) [OF assms(2)] unfolding d by (metis append_take_drop_id same_append_eq)
qed

end
