(* ===== verification/LDB_Log.thy ===== *)
theory LDB_Log
  imports LDB_Env LDB_Crc32c
begin

text \<open>
  The log format (\<open>log_format.h\<close>), its writer (\<open>log_writer.cc\<close>) and its reader (\<open>log_reader.cc\<close>).
\<close>

section \<open>The format\<close>

datatype RecordType = kZeroType | kFullType | kFirstType | kMiddleType | kLastType

fun rtype_code :: "RecordType \<Rightarrow> nat" where
  "rtype_code kZeroType = 0"
| "rtype_code kFullType = 1"
| "rtype_code kFirstType = 2"
| "rtype_code kMiddleType = 3"
| "rtype_code kLastType = 4"

definition kMaxRecordType :: nat where "kMaxRecordType = rtype_code kLastType"
definition kBlockSize :: nat where "kBlockSize = 32768"
definition kHeaderSize :: nat where "kHeaderSize = 4 + 2 + 1"

section \<open>The writer\<close>

record 'f Writer =
  dest :: 'f
  block_offset :: nat
  type_crc :: "u32 list"

text \<open>
  The first argument of \<open>Value\<close> and \<open>Extend\<close> is the address of the buffer, whose alignment does not matter
  for the result (\<open>Extend_crc32c\<close>).
\<close>

definition InitTypeCrc :: "u32 list" where
  "InitTypeCrc = map (\<lambda>i. Value 0 [of_nat i]) [0 ..< kMaxRecordType + 1]"

definition new_Writer :: "'f \<Rightarrow> 'f Writer" where
  "new_Writer d = \<lparr>dest = d, block_offset = 0, type_crc = InitTypeCrc\<rparr>"

definition new_Writer_at :: "'f \<Rightarrow> u64 \<Rightarrow> 'f Writer" where
  "new_Writer_at d dest_length =
     \<lparr>dest = d, block_offset = unat (dest_length mod of_nat kBlockSize), type_crc = InitTypeCrc\<rparr>"

text \<open>The functions of the file are parameters.\<close>

definition EmitPhysicalRecord ::
  "('f \<Rightarrow> slice \<Rightarrow> Status \<times> 'f) \<Rightarrow> ('f \<Rightarrow> Status \<times> 'f) \<Rightarrow> 'f Writer \<Rightarrow> RecordType \<Rightarrow> slice \<Rightarrow> Status \<times> 'f Writer" where
  "EmitPhysicalRecord app flush W t data =
     (let n = length data;
          crc = Mask (Extend 0 (type_crc W ! rtype_code t) data);
          buf = EncodeFixed32 crc @ [of_nat n AND 0xFF, of_nat (n div 256), of_nat (rtype_code t)];
          (s, f) = app (dest W) buf;
          (s, f) =
            (if status_ok s then
               let (s, f) = app f data in if status_ok s then flush f else (s, f)
             else (s, f))
      in (s, W\<lparr>dest := f, block_offset := block_offset W + (kHeaderSize + n)\<rparr>))"

text \<open>The start of an iteration: a block whose rest does not hold a header is filled with zeros.\<close>

definition switch_block :: "('f \<Rightarrow> slice \<Rightarrow> Status \<times> 'f) \<Rightarrow> 'f Writer \<Rightarrow> 'f Writer" where
  "switch_block app W =
     (let leftover = kBlockSize - block_offset W in
      if leftover < kHeaderSize then
        let W = (if leftover > 0 then W\<lparr>dest := snd (app (dest W) (replicate leftover 0))\<rparr> else W)
        in W\<lparr>block_offset := 0\<rparr>
      else W)"

definition fragment_type :: "bool \<Rightarrow> bool \<Rightarrow> RecordType" where
  "fragment_type begin_record end_record =
     (if begin_record \<and> end_record then kFullType else if begin_record then kFirstType
      else if end_record then kLastType else kMiddleType)"

lemma switch_block_room: "kHeaderSize \<le> kBlockSize - block_offset (switch_block app W)"
  by (simp add: switch_block_def Let_def kBlockSize_def kHeaderSize_def)

lemma switch_block_id: "block_offset W + kHeaderSize \<le> kBlockSize \<Longrightarrow> switch_block app W = W"
  by (simp add: switch_block_def Let_def kBlockSize_def kHeaderSize_def)

lemma block_offset_Emit:
  "EmitPhysicalRecord app flush W t data = (s, W') \<Longrightarrow> block_offset W' = block_offset W + kHeaderSize + length data"
  by (auto simp: EmitPhysicalRecord_def Let_def split: prod.splits if_splits)

function AddRecord_loop ::
  "('f \<Rightarrow> slice \<Rightarrow> Status \<times> 'f) \<Rightarrow> ('f \<Rightarrow> Status \<times> 'f) \<Rightarrow> bool \<Rightarrow> slice \<Rightarrow> 'f Writer \<Rightarrow> Status \<times> 'f Writer" where
  "AddRecord_loop app flush begin_record data W =
     (let W = switch_block app W;
          avail = kBlockSize - block_offset W - kHeaderSize;
          fragment_length = (if length data < avail then length data else avail);
          end_record = (length data = fragment_length);
          (s, W) = EmitPhysicalRecord app flush W (fragment_type begin_record end_record) (take fragment_length data);
          data = drop fragment_length data
      in if status_ok s \<and> length data > 0 then AddRecord_loop app flush False data W else (s, W))"
  by pat_completeness auto
termination
proof (relation "measure (\<lambda>(app, flush, b, data, W).
    2 * length data + (if block_offset W + kHeaderSize = kBlockSize then 1 else 0))", goal_cases)
  case (2 app flush b data W W1 avail n e p s W2 rest)
  have room: "kHeaderSize \<le> kBlockSize - block_offset W1" unfolding 2(1) by (rule switch_block_room)
  have n: "n = min (length data) avail" using 2(3) by (simp add: min_def)
  have rest: "length rest = length data - n" "0 < length rest" using 2 by auto
  have o: "block_offset W2 = block_offset W1 + kHeaderSize + n"
    using block_offset_Emit [of app flush W1 _ "take n data" s W2] 2(5,6) n by auto
  show ?case
  proof (cases "n = 0")
    case True
    with n rest have "avail = 0" by (auto simp: min_def split: if_splits)
    then have W1: "block_offset W1 + kHeaderSize = kBlockSize" using 2(2) room by (simp add: kHeaderSize_def)
    have "W1 = W"
      using W1 2(1) by (simp add: switch_block_def Let_def kHeaderSize_def kBlockSize_def split: if_splits)
    then show ?thesis using True W1 o rest by (simp add: kHeaderSize_def)
  next
    case False
    then show ?thesis using rest n by auto
  qed
qed simp

declare AddRecord_loop.simps [simp del]

definition AddRecord ::
  "('f \<Rightarrow> slice \<Rightarrow> Status \<times> 'f) \<Rightarrow> ('f \<Rightarrow> Status \<times> 'f) \<Rightarrow> 'f Writer \<Rightarrow> slice \<Rightarrow> Status \<times> 'f Writer" where
  "AddRecord app flush W data = AddRecord_loop app flush True data W"

section \<open>The reader\<close>

definition kEof :: u32 where "kEof = of_nat (kMaxRecordType + 1)"
definition kBadRecord :: u32 where "kBadRecord = of_nat (kMaxRecordType + 2)"

text \<open>The calls of a reporter are listed; \<open>None\<close> is the null pointer.\<close>

record Reader =
  rd_file :: PosixSequentialFile
  reporter :: "(u64 \<times> Status) list option"
  checksum :: bool
  rd_buffer :: slice
  rd_eof :: bool
  last_record_offset :: u64
  end_of_buffer_offset :: u64
  initial_offset :: u64
  resyncing :: bool

definition new_Reader :: "PosixSequentialFile \<Rightarrow> (u64 \<times> Status) list option \<Rightarrow> bool \<Rightarrow> u64 \<Rightarrow> Reader" where
  "new_Reader file rep chk initial =
     \<lparr>rd_file = file, reporter = rep, checksum = chk, rd_buffer = [], rd_eof = False,
      last_record_offset = 0, end_of_buffer_offset = 0, initial_offset = initial, resyncing = initial > 0\<rparr>"

definition ReportDrop :: "Reader \<Rightarrow> u64 \<Rightarrow> Status \<Rightarrow> Reader" where
  "ReportDrop R bytes reason =
     (case reporter R of
        Some calls \<Rightarrow>
          if end_of_buffer_offset R - of_nat (length (rd_buffer R)) - bytes \<ge> initial_offset R
          then R\<lparr>reporter := Some (calls @ [(bytes, reason)])\<rparr> else R
      | None \<Rightarrow> R)"

definition ReportCorruption :: "Reader \<Rightarrow> u64 \<Rightarrow> byte list \<Rightarrow> Reader" where
  "ReportCorruption R bytes reason = ReportDrop R bytes (Status_Corruption reason [])"

definition SkipToInitialBlock :: "Reader \<Rightarrow> bool \<times> Reader" where
  "SkipToInitialBlock R =
     (let offset_in_block = initial_offset R mod of_nat kBlockSize;
          block_start_location = initial_offset R - offset_in_block;
          block_start_location =
            (if offset_in_block > of_nat kBlockSize - 6 then block_start_location + of_nat kBlockSize else block_start_location);
          R = R\<lparr>end_of_buffer_offset := block_start_location\<rparr>
      in if block_start_location > 0 then
           let (s, file) = sequential_Skip (rd_file R) (unat block_start_location); R = R\<lparr>rd_file := file\<rparr>
           in if \<not> status_ok s then (False, ReportDrop R block_start_location s) else (True, R)
         else (True, R))"

text \<open>
  \<open>ReadPhysicalRecord\<close> after its buffer holds a header: the type, the fragment (\<open>None\<close> where the
  function leaves it as it was) and the state.
\<close>

definition parse_physical :: "Reader \<Rightarrow> u32 \<times> slice option \<times> Reader" where
  "parse_physical R =
     (let header = rd_buffer R;
          a = (scast (header ! 4) :: u32) AND 0xFF;
          b = (scast (header ! 5) :: u32) AND 0xFF;
          rtype = (scast (header ! 6) :: u32);
          len = unat (a OR push_bit 8 b)
      in if kHeaderSize + len > length (rd_buffer R) then
           let drop_size = of_nat (length (rd_buffer R)); R = R\<lparr>rd_buffer := []\<rparr>
           in if \<not> rd_eof R then (kBadRecord, None, ReportCorruption R drop_size (chars ''bad record length''))
              else (kEof, None, R)
         else if rtype = of_nat (rtype_code kZeroType) \<and> len = 0 then (kBadRecord, None, R\<lparr>rd_buffer := []\<rparr>)
         else if checksum R \<and>
                 Value 0 (take (1 + len) (drop 6 header)) \<noteq> Unmask (le_word (take 4 header)) then
           let drop_size = of_nat (length (rd_buffer R)); R = R\<lparr>rd_buffer := []\<rparr>
           in (kBadRecord, None, ReportCorruption R drop_size (chars ''checksum mismatch''))
         else
           let R = R\<lparr>rd_buffer := drop (kHeaderSize + len) (rd_buffer R)\<rparr>
           in if end_of_buffer_offset R - of_nat (length (rd_buffer R)) - of_nat kHeaderSize - of_nat len < initial_offset R
              then (kBadRecord, Some [], R)
              else (rtype, Some (take len (drop kHeaderSize header)), R))"

function ReadPhysicalRecord :: "Reader \<Rightarrow> u32 \<times> slice option \<times> Reader" where
  "ReadPhysicalRecord R =
     (if length (rd_buffer R) < kHeaderSize then
        if \<not> rd_eof R then
          let (status, data, file) = sequential_Read (rd_file R) kBlockSize;
              R = R\<lparr>rd_file := file, rd_buffer := data, end_of_buffer_offset := end_of_buffer_offset R + of_nat (length data)\<rparr>
          in if \<not> status_ok status then
               let R = ReportDrop (R\<lparr>rd_buffer := []\<rparr>) (of_nat kBlockSize) status in (kEof, None, R\<lparr>rd_eof := True\<rparr>)
             else if length data < kBlockSize then ReadPhysicalRecord (R\<lparr>rd_eof := True\<rparr>)
             else ReadPhysicalRecord R
        else (kEof, None, R\<lparr>rd_buffer := []\<rparr>)
      else parse_physical R)"
  by pat_completeness auto
termination
  by (relation "measure (\<lambda>R. if length (rd_buffer R) < kHeaderSize then if rd_eof R then 1 else 2 else 0)")
    (auto simp: kHeaderSize_def kBlockSize_def)

declare ReadPhysicalRecord.simps [simp del]

text \<open>The bytes that were not consumed yet.\<close>

definition bytes_left :: "Reader \<Rightarrow> byte list" where
  "bytes_left R = rd_buffer R @ unread (sf_file (rd_file R))"

lemma ReportDrop_fields [simp]:
  "rd_file (ReportDrop R n s) = rd_file R" "rd_buffer (ReportDrop R n s) = rd_buffer R" "rd_eof (ReportDrop R n s) = rd_eof R"
  "checksum (ReportDrop R n s) = checksum R" "resyncing (ReportDrop R n s) = resyncing R"
  "last_record_offset (ReportDrop R n s) = last_record_offset R" "initial_offset (ReportDrop R n s) = initial_offset R"
  "end_of_buffer_offset (ReportDrop R n s) = end_of_buffer_offset R"
  by (simp_all add: ReportDrop_def split: option.split)

lemma ReportCorruption_fields [simp]:
  "rd_file (ReportCorruption R n s) = rd_file R" "rd_buffer (ReportCorruption R n s) = rd_buffer R"
  "rd_eof (ReportCorruption R n s) = rd_eof R"
  "checksum (ReportCorruption R n s) = checksum R" "resyncing (ReportCorruption R n s) = resyncing R"
  "last_record_offset (ReportCorruption R n s) = last_record_offset R"
  "initial_offset (ReportCorruption R n s) = initial_offset R"
  "end_of_buffer_offset (ReportCorruption R n s) = end_of_buffer_offset R"
  by (simp_all add: ReportCorruption_def)

lemma parse_physical_consumes:
  assumes "parse_physical R = (t, fr, R')" "kHeaderSize \<le> length (rd_buffer R)"
  shows "length (bytes_left R') < length (bytes_left R)"
  using assms by (auto simp: parse_physical_def Let_def bytes_left_def kHeaderSize_def split: if_splits)

lemma ReadPhysicalRecord_consumes:
  "ReadPhysicalRecord R = (t, fr, R') \<Longrightarrow> t \<noteq> kEof \<Longrightarrow> length (bytes_left R') < length (bytes_left R)"
proof (induction R rule: ReadPhysicalRecord.induct)
  case (1 R)
  show ?case
  proof (cases "length (rd_buffer R) < kHeaderSize")
    case False
    then show ?thesis using 1(3) parse_physical_consumes [of R t fr R'] by (simp add: ReadPhysicalRecord.simps [of R])
  next
    case True
    have ne: "\<not> rd_eof R" using True 1(3,4) by (auto simp: ReadPhysicalRecord.simps [of R])
    obtain s data fl where r: "sequential_Read (rd_file R) kBlockSize = (s, data, fl)" by (cases "sequential_Read (rd_file R) kBlockSize")
    define R1 where "R1 = R\<lparr>rd_file := fl, rd_buffer := data, end_of_buffer_offset := end_of_buffer_offset R + of_nat (length data)\<rparr>"
    have s: "status_ok s" using True ne 1(3,4) r by (auto simp: ReadPhysicalRecord.simps [of R] Let_def split: if_splits)
    have u: "unread (sf_file (rd_file R)) = data @ unread (sf_file fl)" by (rule sequential_Read_split(1) [OF r])
    show ?thesis
    proof (cases "length data < kBlockSize")
      case short: True
      then have "ReadPhysicalRecord (R1\<lparr>rd_eof := True\<rparr>) = (t, fr, R')"
        using 1(3) True ne s r by (simp add: ReadPhysicalRecord.simps [of R] R1_def)
      from 1(1) [OF True ne r [symmetric] refl refl R1_def _ short this 1(4)]
      show ?thesis using s u by (simp add: R1_def bytes_left_def)
    next
      case full: False
      then have "ReadPhysicalRecord R1 = (t, fr, R')"
        using 1(3) True ne s r by (simp add: ReadPhysicalRecord.simps [of R] R1_def)
      from 1(2) [OF True ne r [symmetric] refl refl R1_def _ full this 1(4)]
      show ?thesis using s u by (simp add: R1_def bytes_left_def)
    qed
  qed
qed

lemma bytes_left_simps [simp]:
  "bytes_left (R\<lparr>resyncing := b\<rparr>) = bytes_left R" "bytes_left (ReportCorruption R n m) = bytes_left R"
  "bytes_left (R\<lparr>last_record_offset := o1\<rparr>) = bytes_left R"
  by (simp_all add: bytes_left_def)

lemma ReadPhysicalRecord_shrinks:
  "(t, fr, R') = ReadPhysicalRecord R \<Longrightarrow> t = kEof \<or> length (bytes_left R') < length (bytes_left R)"
  using ReadPhysicalRecord_consumes [of R t fr R'] by auto

text \<open>The loop of \<open>ReadRecord\<close>: the record, or \<open>None\<close> where the function returns false.\<close>

function ReadRecord_loop :: "Reader \<Rightarrow> bool \<Rightarrow> byte list \<Rightarrow> u64 \<Rightarrow> slice \<Rightarrow> slice option \<times> Reader" where
  "ReadRecord_loop R in_fragmented_record scratch prospective fragment =
     (let (record_type, fr, R) = ReadPhysicalRecord R;
          fragment = (case fr of None \<Rightarrow> fragment | Some f \<Rightarrow> f);
          physical_record_offset =
            end_of_buffer_offset R - of_nat (length (rd_buffer R)) - of_nat kHeaderSize - of_nat (length fragment)
      in if resyncing R \<and> record_type = of_nat (rtype_code kMiddleType) then
           ReadRecord_loop R in_fragmented_record scratch prospective fragment
         else if resyncing R \<and> record_type = of_nat (rtype_code kLastType) then
           ReadRecord_loop (R\<lparr>resyncing := False\<rparr>) in_fragmented_record scratch prospective fragment
         else
           let R = R\<lparr>resyncing := False\<rparr> in
           if record_type = of_nat (rtype_code kFullType) then
             let R = (if in_fragmented_record \<and> scratch \<noteq> []
                      then ReportCorruption R (of_nat (length scratch)) (chars ''partial record without end(1)'') else R)
             in (Some fragment, R\<lparr>last_record_offset := physical_record_offset\<rparr>)
           else if record_type = of_nat (rtype_code kFirstType) then
             let R = (if in_fragmented_record \<and> scratch \<noteq> []
                      then ReportCorruption R (of_nat (length scratch)) (chars ''partial record without end(2)'') else R)
             in ReadRecord_loop R True fragment physical_record_offset fragment
           else if record_type = of_nat (rtype_code kMiddleType) then
             if \<not> in_fragmented_record
             then ReadRecord_loop
                 (ReportCorruption R (of_nat (length fragment)) (chars ''missing start of fragmented record(1)''))
                 in_fragmented_record scratch prospective fragment
             else ReadRecord_loop R in_fragmented_record (scratch @ fragment) prospective fragment
           else if record_type = of_nat (rtype_code kLastType) then
             if \<not> in_fragmented_record
             then ReadRecord_loop
                 (ReportCorruption R (of_nat (length fragment)) (chars ''missing start of fragmented record(2)''))
                 in_fragmented_record scratch prospective fragment
             else (Some (scratch @ fragment), R\<lparr>last_record_offset := prospective\<rparr>)
           else if record_type = kEof then (None, R)
           else if record_type = kBadRecord then
             if in_fragmented_record
             then ReadRecord_loop
                 (ReportCorruption R (of_nat (length scratch)) (chars ''error in middle of record''))
                 False [] prospective fragment
             else ReadRecord_loop R in_fragmented_record scratch prospective fragment
           else
             ReadRecord_loop
               (ReportCorruption R (of_nat (length fragment + (if in_fragmented_record then length scratch else 0)))
                 (chars ''unknown record type '' @ decimal (unat record_type)))
               False [] prospective fragment)"
  by pat_completeness auto
termination
proof (relation "measure (\<lambda>(R, f, scratch, p, fragment). length (bytes_left R))", goal_cases)
  case 1
  show ?case by simp
qed (auto dest!: ReadPhysicalRecord_shrinks simp: kEof_def kMaxRecordType_def kBadRecord_def)

declare ReadRecord_loop.simps [simp del]

definition ReadRecord :: "Reader \<Rightarrow> slice option \<times> Reader" where
  "ReadRecord R =
     (let (skipped, R) = (if last_record_offset R < initial_offset R then SkipToInitialBlock R else (True, R))
      in if \<not> skipped then (None, R) else ReadRecord_loop R False [] 0 [])"

end
