(* ===== verification/LDB_Log_Write.thy ===== *)
theory LDB_Log_Write
  imports LDB_Log
begin

text \<open>
  The layout of a log in blocks, the pieces of a record, and the proof that the writer appends them.
\<close>

section \<open>The layout of a log\<close>

definition phys :: "RecordType \<Rightarrow> slice \<Rightarrow> byte list" where
  "phys t d = EncodeFixed32 (Mask (Value 0 (of_nat (rtype_code t) # d))) @
     [of_nat (length d), of_nat (length d div 256), of_nat (rtype_code t)] @ d"

definition pad :: "nat \<Rightarrow> byte list" where
  "pad off = (if kBlockSize - off < kHeaderSize then replicate (kBlockSize - off) 0 else [])"

definition start_of :: "nat \<Rightarrow> nat" where
  "start_of off = (if kBlockSize - off < kHeaderSize then 0 else off)"

fun layout :: "nat \<Rightarrow> (RecordType \<times> slice) list \<Rightarrow> byte list" where
  "layout off [] = []"
| "layout off ((t, d) # ps) = pad off @ phys t d @ layout (start_of off + kHeaderSize + length d) ps"

fun end_off :: "nat \<Rightarrow> (RecordType \<times> slice) list \<Rightarrow> nat" where
  "end_off off [] = off"
| "end_off off ((t, d) # ps) = end_off (start_of off + kHeaderSize + length d) ps"

fun fits :: "nat \<Rightarrow> (RecordType \<times> slice) list \<Rightarrow> bool" where
  "fits off [] \<longleftrightarrow> off \<le> kBlockSize"
| "fits off ((t, d) # ps) \<longleftrightarrow> off \<le> kBlockSize \<and> t \<noteq> kZeroType \<and>
     start_of off + kHeaderSize + length d \<le> kBlockSize \<and> fits (start_of off + kHeaderSize + length d) ps"

text \<open>The pieces of a record: a full one, or a first, middle ones and a last; from its middle on for \<open>False\<close>.\<close>

inductive fragments :: "bool \<Rightarrow> slice \<Rightarrow> (RecordType \<times> slice) list \<Rightarrow> bool" where
  full: "fragments True d [(kFullType, d)]"
| final: "fragments False d [(kLastType, d)]"
| begin_record: "fragments False d ps \<Longrightarrow> fragments True (x @ d) ((kFirstType, x) # ps)"
| middle: "fragments False d ps \<Longrightarrow> fragments False (x @ d) ((kMiddleType, x) # ps)"

lemma layout_append: "layout off (ps @ qs) = layout off ps @ layout (end_off off ps) qs"
  by (induction off ps rule: layout.induct) simp_all

lemma end_off_append: "end_off off (ps @ qs) = end_off (end_off off ps) qs"
  by (induction off ps rule: layout.induct) simp_all

lemma fits_append: "fits off (ps @ qs) \<longleftrightarrow> fits off ps \<and> fits (end_off off ps) qs"
  by (induction off ps rule: layout.induct) (auto elim: fits.elims)

lemma length_phys [simp]: "length (phys t d) = kHeaderSize + length d"
  by (simp add: phys_def kHeaderSize_def)

lemma Value_Extend: "Extend 0 (Value 0 [c]) d = Value 0 (c # d)"
  by (simp add: Value_def Extend_append)

lemma byte_and_FF: "(w :: byte) AND 0xFF = w"
  using take_bit_word_eq_self [of 8 w] by (simp add: take_bit_eq_mask mask_eq_exp_minus_1)

section \<open>What the writer appends\<close>

text \<open>A file that has no faults keeps on having none.\<close>

locale reliable_file = writable_file contents Append Flush
  for contents :: "'f \<Rightarrow> byte list" and Append :: "'f \<Rightarrow> slice \<Rightarrow> Status \<times> 'f" and Flush :: "'f \<Rightarrow> Status \<times> 'f" +
  fixes good :: "'f \<Rightarrow> bool"
  assumes good_append: "good f \<Longrightarrow> Append f d = (s, f') \<Longrightarrow> status_ok s \<and> good f'"
    and good_flush: "good f \<Longrightarrow> Flush f = (s, f') \<Longrightarrow> status_ok s \<and> good f'"
begin

definition writer_ok :: "'f Writer \<Rightarrow> bool" where
  "writer_ok W \<longleftrightarrow> good (dest W) \<and> block_offset W \<le> kBlockSize \<and> type_crc W = InitTypeCrc"

lemma new_Writer_ok: "good f \<Longrightarrow> writer_ok (new_Writer f)"
  by (simp add: writer_ok_def new_Writer_def)

lemma append_contents: "good f \<Longrightarrow> Append f d = (s, f') \<Longrightarrow> status_ok s \<and> good f' \<and> contents f' = contents f @ d"
  using good_append append_ok by blast

lemma Emit_contents:
  assumes "writer_ok W" "EmitPhysicalRecord Append Flush W t d = (s, W')" "block_offset W + kHeaderSize + length d \<le> kBlockSize"
  shows "status_ok s" "writer_ok W'" "contents (dest W') = contents (dest W) @ phys t d"
proof -
  have crc: "type_crc W ! rtype_code t = Value 0 [of_nat (rtype_code t)]"
    using assms(1) by (cases t) (simp_all add: writer_ok_def InitTypeCrc_def kMaxRecordType_def nth_append)
  obtain s1 f1 where 1: "Append (dest W) (take kHeaderSize (phys t d)) = (s1, f1)" by fastforce
  obtain s2 f2 where 2: "Append f1 d = (s2, f2)" by fastforce
  obtain s3 f3 where 3: "Flush f2 = (s3, f3)" by fastforce
  have buf: "EncodeFixed32 (Mask (Extend 0 (type_crc W ! rtype_code t) d)) @
      [of_nat (length d) AND 0xFF, of_nat (length d div 256), of_nat (rtype_code t)] = take kHeaderSize (phys t d)"
    unfolding crc Value_Extend by (simp add: phys_def kHeaderSize_def byte_and_FF)
  have g: "status_ok s1 \<and> good f1 \<and> contents f1 = contents (dest W) @ take kHeaderSize (phys t d)"
    using append_contents [OF _ 1] assms(1) by (simp add: writer_ok_def)
  then have g2: "status_ok s2 \<and> good f2 \<and> contents f2 = contents (dest W) @ phys t d"
    using append_contents [OF _ 2] by (simp add: phys_def kHeaderSize_def)
  then have g3: "status_ok s3 \<and> good f3 \<and> contents f3 = contents f2"
    using good_flush [OF _ 3] flush_contents [OF 3] by simp
  have r: "s = s3 \<and> W' = W\<lparr>dest := f3, block_offset := block_offset W + (kHeaderSize + length d)\<rparr>"
    using assms(2) 1 2 3 g g2 unfolding EmitPhysicalRecord_def Let_def buf by simp
  show "status_ok s" "contents (dest W') = contents (dest W) @ phys t d" using r g2 g3 by auto
  show "writer_ok W'" using r g3 assms(1,3) by (auto simp: writer_ok_def)
qed

lemma switch_block_contents:
  assumes "writer_ok W"
  shows "writer_ok (switch_block Append W)" "block_offset (switch_block Append W) = start_of (block_offset W)"
    and "contents (dest (switch_block Append W)) = contents (dest W) @ pad (block_offset W)"
proof -
  let ?n = "kBlockSize - block_offset W"
  obtain s f where a: "Append (dest W) (replicate ?n 0) = (s, f)" by fastforce
  have "good f \<and> contents f = contents (dest W) @ replicate ?n 0"
    using append_contents [OF _ a] assms by (simp add: writer_ok_def)
  then show "writer_ok (switch_block Append W)" "block_offset (switch_block Append W) = start_of (block_offset W)"
    "contents (dest (switch_block Append W)) = contents (dest W) @ pad (block_offset W)"
    using assms a by (simp_all add: switch_block_def Let_def writer_ok_def start_of_def pad_def)
qed

lemma AddRecord_loop_layout:
  "AddRecord_loop Append Flush b data W = (s, W') \<Longrightarrow> writer_ok W \<Longrightarrow>
   status_ok s \<and> writer_ok W' \<and>
   (\<exists>ps. fragments b data ps \<and> fits (block_offset W) ps \<and> block_offset W' = end_off (block_offset W) ps \<and>
     contents (dest W') = contents (dest W) @ layout (block_offset W) ps)"
proof (induction app \<equiv> Append flush \<equiv> Flush b data W arbitrary: s W' rule: AddRecord_loop.induct)
  case (1 b data W)
  define W1 where "W1 = switch_block Append W"
  define n where "n = min (length data) (kBlockSize - block_offset W1 - kHeaderSize)"
  define t where "t = fragment_type b (length data = n)"
  obtain s1 W2 where e: "EmitPhysicalRecord Append Flush W1 t (take n data) = (s1, W2)" by fastforce
  note sw = switch_block_contents [OF 1(3), folded W1_def]
  have room: "block_offset W1 + kHeaderSize + n \<le> kBlockSize"
    using switch_block_room [of Append W] by (simp add: n_def W1_def kHeaderSize_def)
  have n: "n \<le> length data" by (simp add: n_def)
  have em: "status_ok s1" "writer_ok W2" "contents (dest W2) = contents (dest W1) @ phys t (take n data)"
    using Emit_contents [OF sw(1) e] room n by simp_all
  have t0: "t \<noteq> kZeroType" by (simp add: t_def fragment_type_def)
  have o2: "block_offset W2 = start_of (block_offset W) + kHeaderSize + n"
    using block_offset_Emit [OF e] sw(2) n by simp
  have fit: "fits (block_offset W) ((t, take n data) # ps)" if "fits (block_offset W2) ps" for ps
    using that 1(3) room t0 n sw(2) o2 by (auto simp: writer_ok_def)
  have lay: "contents (dest W2) @ layout (block_offset W2) ps =
      contents (dest W) @ layout (block_offset W) ((t, take n data) # ps)" for ps
    using em(3) sw(2,3) o2 n by simp
  have eo: "end_off (block_offset W) ((t, take n data) # ps) = end_off (block_offset W2) ps" for ps
    using o2 n by simp
  have fl: "(if length data < kBlockSize - block_offset W1 - kHeaderSize then length data
      else kBlockSize - block_offset W1 - kHeaderSize) = n" by (simp add: n_def)
  have unfold: "AddRecord_loop Append Flush b data W =
      (if length (drop n data) > 0 then AddRecord_loop Append Flush False (drop n data) W2 else (s1, W2))"
    unfolding AddRecord_loop.simps [of Append Flush b data W] Let_def W1_def [symmetric] fl t_def [symmetric] e
    using em(1) by simp
  show ?case
  proof (cases "length (drop n data) > 0")
    case True
    then have r: "AddRecord_loop Append Flush False (drop n data) W2 = (s, W')" using unfold 1(2) by simp
    have "length data \<noteq> n" using True by simp
    then have ty: "t = (if b then kFirstType else kMiddleType)" by (simp add: t_def fragment_type_def)
    have c: "status_ok s1 \<and> 0 < length (drop n data)" using em(1) True by simp
    from 1(1) [OF W1_def refl fl [symmetric] refl e [symmetric, unfolded t_def] refl refl c r em(2)]
    obtain ps where ps: "status_ok s" "writer_ok W'" "fragments False (drop n data) ps" "fits (block_offset W2) ps"
      "block_offset W' = end_off (block_offset W2) ps" "contents (dest W') = contents (dest W2) @ layout (block_offset W2) ps"
      by blast
    have "fragments b (take n data @ drop n data) ((t, take n data) # ps)"
      using fragments.begin_record [OF ps(3), of "take n data"] fragments.middle [OF ps(3), of "take n data"]
      unfolding ty by (cases b) simp_all
    then show ?thesis using ps fit eo lay by (intro conjI exI [of _ "(t, take n data) # ps"]) auto
  next
    case False
    then have d: "n = length data" using n by simp
    then have r: "s = s1" "W' = W2" using unfold 1(2) by auto
    have "fragments b data [(t, take n data)]"
      using d by (cases b) (auto simp: t_def fragment_type_def intro: fragments.intros)
    moreover have "fits (block_offset W2) []" using o2 room sw(2) by simp
    ultimately show ?thesis using r em fit [of "[]"] eo [of "[]"] lay [of "[]"]
      by (intro conjI exI [of _ "[(t, take n data)]"]) auto
  qed
qed

end

text \<open>The POSIX file is such a file.\<close>

interpretation posix_good: reliable_file "\<lambda>w. written (wf_file w)" writable_Append writable_Flush
  "\<lambda>w. out_faults (wf_file w) = []"
  by unfold_locales
    (auto simp: writable_Append_def writable_Flush_def fwrite_unlocked_def fflush_unlocked_def Let_def split: if_splits)

end
