(* ===== verification/LDB_Log_Read.thy ===== *)
theory LDB_Log_Read
  imports LDB_Log_Write
begin

text \<open>
  What the reader makes of the pieces of a log, when the file ends anywhere.
\<close>

section \<open>What the reader makes of a physical record\<close>

text \<open>
  The reader stands at offset \<open>off\<close> of a block: before the end of the file was met, its buffer holds the
  rest of the block.
\<close>

definition stands :: "Reader \<Rightarrow> nat \<Rightarrow> bool" where
  "stands R off \<longleftrightarrow> in_faults (sf_file (rd_file R)) = [] \<and> initial_offset R = 0 \<and> \<not> resyncing R \<and>
     (if rd_eof R then unread (sf_file (rd_file R)) = [] \<and> off + length (rd_buffer R) < kBlockSize
      else off + length (rd_buffer R) = kBlockSize)"

text \<open>What does not change while nothing is reported.\<close>

definition same_config :: "Reader \<Rightarrow> Reader \<Rightarrow> bool" where
  "same_config R R' \<longleftrightarrow> reporter R' = reporter R \<and> checksum R' = checksum R"

lemma same_config_trans: "same_config R R1 \<Longrightarrow> same_config R1 R2 \<Longrightarrow> same_config R R2"
  by (simp add: same_config_def)

lemma split_length: "n < 65536 \<Longrightarrow>
  unat (((scast (of_nat n :: byte) :: u32) AND 0xFF) OR push_bit 8 ((scast (of_nat (n div 256) :: byte) :: u32) AND 0xFF)) = n"
proof -
  assume n: "n < 65536"
  have s: "(scast b :: u32) AND 0xFF = ucast b" for b :: byte
  proof -
    have "(scast b :: u32) AND mask 8 = ucast b"
    proof (rule bit_word_eqI)
      fix n
      show "bit ((scast b :: u32) AND mask 8) n = bit (ucast b :: u32) n" if "n < LENGTH(32)"
        using that bit_imp_le_length [of b n] by (cases "n = 7"; cases "n < 7") (auto simp: bit_simps min_def)
    qed
    then show ?thesis by (simp add: mask_eq_exp_minus_1)
  qed
  have d: "ucast b OR push_bit 8 (ucast c :: u32) = ucast b + push_bit 8 (ucast c)" for b c :: byte
  proof (rule disjunctive_add_eq_or [symmetric], rule bit_word_eqI)
    fix n
    show "bit (ucast b AND push_bit 8 (ucast c :: u32)) n = bit 0 n" if "n < LENGTH(32)"
      using bit_imp_le_length [of b n] by (cases "n < 8") (auto simp: bit_simps)
  qed
  have "unat (of_nat n :: byte) = n mod 256" "unat (of_nat (n div 256) :: byte) = n div 256"
    using n by (simp_all add: unat_of_nat)
  then have u: "unat (ucast (of_nat n :: byte) :: u32) = n mod 256" "unat (ucast (of_nat (n div 256) :: byte) :: u32) = n div 256"
    using n by (simp_all add: unsigned_ucast_eq take_bit_nat_eq_self)
  have "unat (push_bit 8 (ucast (of_nat (n div 256) :: byte)) :: u32) = 256 * (n div 256)"
    using u(2) n by (simp add: push_bit_eq_mult unat_word_ariths)
  then show ?thesis unfolding s d using u(1) n by (simp add: unat_word_ariths)
qed

definition phys_header :: "RecordType \<Rightarrow> slice \<Rightarrow> byte list" where
  "phys_header t d = EncodeFixed32 (Mask (Value 0 (of_nat (rtype_code t) # d))) @
     [of_nat (length d), of_nat (length d div 256), of_nat (rtype_code t)]"

lemma phys_split: "phys t d = phys_header t d @ d"
  by (simp add: phys_def phys_header_def)

lemma length_phys_header [simp]: "length (phys_header t d) = kHeaderSize"
  by (simp add: phys_header_def kHeaderSize_def)

lemma nth_phys_header:
  "(phys_header t d @ z) ! 4 = of_nat (length d)" "(phys_header t d @ z) ! 5 = of_nat (length d div 256)"
  "(phys_header t d @ z) ! 6 = of_nat (rtype_code t)"
  "take 4 (phys_header t d @ z) = EncodeFixed32 (Mask (Value 0 (of_nat (rtype_code t) # d)))"
  "drop 6 (phys_header t d @ z) = of_nat (rtype_code t) # z"
  by (simp_all add: phys_header_def nth_append)

lemma rtype_word: "(scast (of_nat (rtype_code t) :: byte) :: u32) = of_nat (rtype_code t)"
  by (cases t) simp_all

lemma rtype_word_0: "(of_nat (rtype_code t) :: u32) = of_nat (rtype_code u) \<longleftrightarrow> t = u"
  by (cases t; cases u; simp)

lemma parse_phys:
  assumes R: "initial_offset R = 0" and b: "rd_buffer R = phys_header t d @ z" and d: "length d < 65536" and t: "t \<noteq> kZeroType"
  shows "length z < length d \<Longrightarrow> rd_eof R \<Longrightarrow> parse_physical R = (kEof, None, R\<lparr>rd_buffer := []\<rparr>)"
    and "z = d @ y \<Longrightarrow> parse_physical R = (of_nat (rtype_code t), Some d, R\<lparr>rd_buffer := y\<rparr>)"
proof -
  note h = nth_phys_header [of t d z, folded b] split_length [OF d] rtype_word
  show "parse_physical R = (kEof, None, R\<lparr>rd_buffer := []\<rparr>)" if "length z < length d" "rd_eof R"
  proof -
    have "kHeaderSize + length d > length (rd_buffer R)" using that by (simp add: b)
    then show ?thesis using that unfolding parse_physical_def Let_def h by simp
  qed
  show "parse_physical R = (of_nat (rtype_code t), Some d, R\<lparr>rd_buffer := y\<rparr>)" if z: "z = d @ y"
  proof -
    have "(of_nat (rtype_code t) :: u32) \<noteq> of_nat (rtype_code kZeroType)" using t unfolding rtype_word_0 .
    moreover have "le_word (take 4 (rd_buffer R)) = Mask (Value 0 (of_nat (rtype_code t) # d))"
      unfolding h by (simp add: EncodeFixed32_def)
    moreover have "kHeaderSize + length d \<le> length (rd_buffer R)" "drop (kHeaderSize + length d) (rd_buffer R) = y"
      "take (length d) (drop kHeaderSize (rd_buffer R)) = d" "take (1 + length d) (drop 6 (rd_buffer R)) = of_nat (rtype_code t) # d"
      unfolding h(5) using z by (simp_all add: b)
    ultimately show ?thesis
      using R unfolding parse_physical_def Let_def h by (simp add: Unmask_Mask)
  qed
qed

text \<open>
  A piece of which the first \<open>k\<close> bytes are in the file is read whole, or the reader meets the end of the
  file; it reports nothing.
\<close>

definition reads_piece :: "Reader \<Rightarrow> nat \<Rightarrow> nat \<Rightarrow> RecordType \<Rightarrow> slice \<Rightarrow> byte list \<Rightarrow> bool" where
  "reads_piece R off k t d rest \<longleftrightarrow>
     (if kHeaderSize + length d \<le> k
      then \<exists>R'. ReadPhysicalRecord R = (of_nat (rtype_code t), Some d, R') \<and>
             bytes_left R' = take (k - (kHeaderSize + length d)) rest \<and>
             stands R' (off + kHeaderSize + length d) \<and> same_config R R'
      else \<exists>R'. ReadPhysicalRecord R = (kEof, None, R') \<and> same_config R R')"

lemma same_config_buffer: "same_config R (R\<lparr>rd_buffer := b\<rparr>)"
  by (simp add: same_config_def)

lemma settled_whole:
  assumes st: "stands R off" and room: "off + kHeaderSize + length d \<le> kBlockSize" and t: "t \<noteq> kZeroType"
    and buf: "rd_buffer R = phys t d @ y" and left: "bytes_left R = take k (phys t d @ rest)"
    and k: "kHeaderSize + length d \<le> k"
  shows "reads_piece R off k t d rest"
proof -
  let ?R = "R\<lparr>rd_buffer := y\<rparr>"
  have i: "initial_offset R = 0" using st by (simp add: stands_def)
  have d: "length d < 65536" using room by (simp add: kBlockSize_def)
  have "parse_physical R = (of_nat (rtype_code t), Some d, ?R)"
    by (rule parse_phys(2) [OF i _ d t]) (simp_all add: buf phys_split)
  then have "ReadPhysicalRecord R = (of_nat (rtype_code t), Some d, ?R)"
    by (simp add: ReadPhysicalRecord.simps [of R] buf)
  moreover have "bytes_left ?R = take (k - (kHeaderSize + length d)) rest"
    using left k buf by (simp add: bytes_left_def)
  moreover have "stands ?R (off + kHeaderSize + length d)"
    using st buf by (auto simp: stands_def split: if_splits)
  ultimately show ?thesis using k by (auto simp: reads_piece_def same_config_buffer)
qed

lemma settled_piece:
  assumes st: "stands R off" and room: "off + kHeaderSize + length d \<le> kBlockSize" and t: "t \<noteq> kZeroType"
    and left: "bytes_left R = take k (phys t d @ rest)" and big: "kHeaderSize \<le> length (rd_buffer R) \<or> rd_eof R"
  shows "reads_piece R off k t d rest"
proof (cases "rd_eof R")
  case False
  let ?n = "length (rd_buffer R)"
  have n: "off + ?n = kBlockSize" using st False by (simp add: stands_def)
  have "?n \<le> length (bytes_left R)" by (simp add: bytes_left_def)
  then have k: "?n \<le> k" unfolding left by simp
  have "rd_buffer R = take ?n (bytes_left R)" by (simp add: bytes_left_def)
  also have "\<dots> = phys t d @ take (?n - (kHeaderSize + length d)) rest"
    unfolding left using k n room by (simp add: min_def)
  finally show ?thesis using k n room by (intro settled_whole [OF st room t _ left]) simp_all
next
  case True
  then have b: "rd_buffer R = take k (phys t d @ rest)" using st left by (simp add: stands_def bytes_left_def)
  show ?thesis
  proof (cases "kHeaderSize + length d \<le> k")
    case whole: True
    then show ?thesis using b by (intro settled_whole [OF st room t _ left]) simp_all
  next
    case False
    then have "ReadPhysicalRecord R = (kEof, None, R\<lparr>rd_buffer := []\<rparr>)"
    proof (cases "length (rd_buffer R) < kHeaderSize")
      case True
      then show ?thesis using \<open>rd_eof R\<close> by (simp add: ReadPhysicalRecord.simps [of R])
    next
      case ge: False
      have i: "initial_offset R = 0" using st by (simp add: stands_def)
      have d: "length d < 65536" using room by (simp add: kBlockSize_def)
      have "rd_buffer R = phys_header t d @ take (k - kHeaderSize) d" using b ge False by (simp add: phys_split)
      moreover have "length (take (k - kHeaderSize) d) < length d" using False b ge by (simp add: phys_split)
      ultimately have "parse_physical R = (kEof, None, R\<lparr>rd_buffer := []\<rparr>)"
        using parse_phys(1) [OF i _ d t] \<open>rd_eof R\<close> by blast
      then show ?thesis using ge by (simp add: ReadPhysicalRecord.simps [of R])
    qed
    then show ?thesis using False by (auto simp: reads_piece_def same_config_buffer)
  qed
qed

text \<open>At the end of a block the reader takes the next one.\<close>

lemma next_block:
  assumes st: "stands R off" and e: "\<not> rd_eof R" and small: "length (rd_buffer R) < kHeaderSize"
  obtains R1 where "ReadPhysicalRecord R = ReadPhysicalRecord R1" "stands R1 0" "same_config R R1"
    "bytes_left R1 = unread (sf_file (rd_file R))" "kHeaderSize \<le> length (rd_buffer R1) \<or> rd_eof R1"
proof -
  let ?u = "unread (sf_file (rd_file R))"
  obtain s data fl where r: "sequential_Read (rd_file R) kBlockSize = (s, data, fl)"
    by (cases "sequential_Read (rd_file R) kBlockSize")
  have nf: "in_faults (sf_file (rd_file R)) = []" using st by (simp add: stands_def)
  note rd = sequential_Read_no_fault [OF nf r]
  define R1 where "R1 = R\<lparr>rd_file := fl, rd_buffer := data, end_of_buffer_offset := end_of_buffer_offset R + of_nat (length data)\<rparr>"
  define R2 where "R2 = (if length data < kBlockSize then R1\<lparr>rd_eof := True\<rparr> else R1)"
  have "ReadPhysicalRecord R = ReadPhysicalRecord R2"
    using small e r rd(1) by (subst ReadPhysicalRecord.simps) (simp add: R2_def R1_def)
  moreover have "stands R2 0"
    using st rd by (auto simp: R2_def R1_def stands_def e min_def)
  moreover have "same_config R R2" by (simp add: same_config_def R2_def R1_def)
  moreover have "bytes_left R2 = ?u" using rd(2,3) by (simp add: R2_def R1_def bytes_left_def)
  moreover have "kHeaderSize \<le> length (rd_buffer R2) \<or> rd_eof R2"
    by (simp add: R2_def R1_def kHeaderSize_def kBlockSize_def)
  ultimately show ?thesis by (rule that)
qed

lemma read_piece:
  assumes st: "stands R off" and room: "start_of off + kHeaderSize + length d \<le> kBlockSize" and t: "t \<noteq> kZeroType"
    and left: "bytes_left R = take k (pad off @ phys t d @ rest)"
  shows "if length (pad off) + kHeaderSize + length d \<le> k
    then \<exists>R'. ReadPhysicalRecord R = (of_nat (rtype_code t), Some d, R') \<and>
           bytes_left R' = take (k - (length (pad off) + kHeaderSize + length d)) rest \<and>
           stands R' (start_of off + kHeaderSize + length d) \<and> same_config R R'
    else \<exists>R'. ReadPhysicalRecord R = (kEof, None, R') \<and> same_config R R'"
proof (cases "kBlockSize - off < kHeaderSize")
  case False
  then have p: "pad off = []" "start_of off = off" by (simp_all add: pad_def start_of_def)
  have "kHeaderSize \<le> length (rd_buffer R) \<or> rd_eof R" using st False by (auto simp: stands_def)
  then have "reads_piece R off k t d rest" using settled_piece [OF st _ t] room left p by simp
  then show ?thesis by (simp add: reads_piece_def p)
next
  case True
  then have p: "start_of off = 0" "length (pad off) = kBlockSize - off" by (simp_all add: pad_def start_of_def)
  show ?thesis
  proof (cases "rd_eof R")
    case True
    then have b: "length (rd_buffer R) < kHeaderSize" "bytes_left R = rd_buffer R"
      using st \<open>kBlockSize - off < kHeaderSize\<close> by (auto simp: stands_def bytes_left_def)
    then have "k < length (pad off) + kHeaderSize + length d" using arg_cong [OF left, of length]
      by (simp add: min_def split: if_splits)
    then show ?thesis using b True by (auto simp: ReadPhysicalRecord.simps [of R] same_config_buffer)
  next
    case False
    then have "off + length (rd_buffer R) = kBlockSize" using st by (simp add: stands_def)
    then have n: "length (rd_buffer R) = length (pad off)" using p by linarith
    then have small: "length (rd_buffer R) < kHeaderSize" using True p by simp
    have k: "length (pad off) \<le> k"
    proof -
      have "length (rd_buffer R) \<le> length (bytes_left R)" by (simp add: bytes_left_def)
      then show ?thesis using n by (simp add: left)
    qed
    have "rd_buffer R @ unread (sf_file (rd_file R)) = pad off @ take (k - length (pad off)) (phys t d @ rest)"
      using left k by (simp add: bytes_left_def)
    then have u: "unread (sf_file (rd_file R)) = take (k - length (pad off)) (phys t d @ rest)" using n by simp
    obtain R1 where R1: "ReadPhysicalRecord R = ReadPhysicalRecord R1" "stands R1 0" "same_config R R1"
      "bytes_left R1 = unread (sf_file (rd_file R))" "kHeaderSize \<le> length (rd_buffer R1) \<or> rd_eof R1"
      by (rule next_block [OF st False small])
    have "reads_piece R1 0 (k - length (pad off)) t d rest"
      using settled_piece [OF R1(2) _ t R1(4) [unfolded u] R1(5)] room p by simp
    then show ?thesis
      using R1(1,3) k p(1) by (auto simp: reads_piece_def less_diff_conv add.assoc split: if_splits intro: same_config_trans)
  qed
qed

section \<open>Reading records\<close>

lemma stands_simps [simp]:
  "stands (R\<lparr>last_record_offset := n\<rparr>) off = stands R off"
  "same_config R (R'\<lparr>last_record_offset := n\<rparr>) = same_config R R'"
  "same_config R (R'\<lparr>resyncing := f\<rparr>) = same_config R R'"
  by (simp_all add: stands_def same_config_def)

lemma stands_resyncing: "stands R off \<Longrightarrow> R\<lparr>resyncing := False\<rparr> = R" "stands R off \<Longrightarrow> \<not> resyncing R"
  by (simp_all add: stands_def)

lemma loop_eof:
  assumes "ReadPhysicalRecord R = (kEof, fr, R1)"
  shows "ReadRecord_loop R f scratch p fragment = (None, R1\<lparr>resyncing := False\<rparr>)"
  by (subst ReadRecord_loop.simps) (simp add: assms kEof_def kMaxRecordType_def)

lemma loop_piece:
  assumes "ReadPhysicalRecord R = (of_nat (rtype_code t), Some d, R1)" "stands R1 off"
  shows "t = kFullType \<Longrightarrow> \<exists>n. ReadRecord_loop R False [] p fragment = (Some d, R1\<lparr>last_record_offset := n\<rparr>)"
    and "t = kFirstType \<Longrightarrow> \<exists>n. ReadRecord_loop R False [] p fragment = ReadRecord_loop R1 True d n d"
    and "t = kMiddleType \<Longrightarrow> ReadRecord_loop R True scratch p fragment = ReadRecord_loop R1 True (scratch @ d) p d"
    and "t = kLastType \<Longrightarrow> ReadRecord_loop R True scratch p fragment = (Some (scratch @ d), R1\<lparr>last_record_offset := p\<rparr>)"
  by (subst ReadRecord_loop.simps, simp add: assms(1) stands_resyncing [OF assms(2)], (rule exI, rule refl)?)+

lemma layout_head:
  "layout off ((t, d) # ps) @ rest =
   pad off @ phys t d @ layout (start_of off + kHeaderSize + length d) ps @ rest"
  by simp

text \<open>What is read from \<open>R\<close> when the pieces \<open>ps\<close> and \<open>rest\<close> follow and the file ends after \<open>k\<close> bytes.\<close>

definition reads_record ::
  "Reader \<Rightarrow> nat \<Rightarrow> nat \<Rightarrow> (RecordType \<times> slice) list \<Rightarrow> byte list \<Rightarrow> slice \<Rightarrow> slice option \<times> Reader \<Rightarrow> bool" where
  "reads_record R off k ps rest r res \<longleftrightarrow>
     (if length (layout off ps) \<le> k
      then \<exists>R'. res = (Some r, R') \<and> bytes_left R' = take (k - length (layout off ps)) rest \<and>
             stands R' (end_off off ps) \<and> same_config R R'
      else \<exists>R'. res = (None, R') \<and> same_config R R')"

lemma read_last_piece:
  assumes st: "stands R off" and fit: "fits off [(t, d)]" and left: "bytes_left R = take k (layout off [(t, d)] @ rest)"
    and loop: "\<And>R1 off'. ReadPhysicalRecord R = (of_nat (rtype_code t), Some d, R1) \<Longrightarrow> stands R1 off' \<Longrightarrow>
      \<exists>n. ReadRecord_loop R f scratch p fr = (Some r, R1\<lparr>last_record_offset := n\<rparr>)"
  shows "reads_record R off k [(t, d)] rest r (ReadRecord_loop R f scratch p fr)"
proof -
  have room: "start_of off + kHeaderSize + length d \<le> kBlockSize" "t \<noteq> kZeroType" using fit by auto
  note pc = read_piece [OF st room, of k rest, OF left [unfolded layout_head, simplified layout.simps append_Nil]]
  show ?thesis
  proof (cases "length (pad off) + kHeaderSize + length d \<le> k")
    case True
    then obtain R1 where R1: "ReadPhysicalRecord R = (of_nat (rtype_code t), Some d, R1)"
      "bytes_left R1 = take (k - (length (pad off) + kHeaderSize + length d)) rest"
      "stands R1 (start_of off + kHeaderSize + length d)" "same_config R R1"
      using pc by auto
    with loop [OF R1(1,3)] True show ?thesis by (auto simp: reads_record_def add.assoc)
  next
    case False
    then obtain R1 where "ReadPhysicalRecord R = (kEof, None, R1)" "same_config R R1" using pc by auto
    then show ?thesis using False loop_eof [of R None R1] by (auto simp: reads_record_def add.assoc)
  qed
qed

lemma read_more_pieces:
  assumes st: "stands R off" and fit: "fits off ((t, d) # ps)"
    and left: "bytes_left R = take k (layout off ((t, d) # ps) @ rest)"
    and loop: "\<And>R1 off'. ReadPhysicalRecord R = (of_nat (rtype_code t), Some d, R1) \<Longrightarrow> stands R1 off' \<Longrightarrow>
      \<exists>q. ReadRecord_loop R f scratch p fr = ReadRecord_loop R1 True (scratch @ d) q d"
    and IH: "\<And>R1 k q. stands R1 (start_of off + kHeaderSize + length d) \<Longrightarrow>
      bytes_left R1 = take k (layout (start_of off + kHeaderSize + length d) ps @ rest) \<Longrightarrow>
      reads_record R1 (start_of off + kHeaderSize + length d) k ps rest r (ReadRecord_loop R1 True (scratch @ d) q d)"
  shows "reads_record R off k ((t, d) # ps) rest r (ReadRecord_loop R f scratch p fr)"
proof -
  have room: "start_of off + kHeaderSize + length d \<le> kBlockSize" "t \<noteq> kZeroType" using fit by auto
  note pc = read_piece [OF st room left [unfolded layout_head]]
  show ?thesis
  proof (cases "length (pad off) + kHeaderSize + length d \<le> k")
    case True
    let ?off = "start_of off + kHeaderSize + length d" and ?k = "k - (length (pad off) + kHeaderSize + length d)"
    obtain R1 where R1: "ReadPhysicalRecord R = (of_nat (rtype_code t), Some d, R1)"
      "bytes_left R1 = take ?k (layout ?off ps @ rest)" "stands R1 ?off" "same_config R R1"
      using pc True by auto
    obtain q where q: "ReadRecord_loop R f scratch p fr = ReadRecord_loop R1 True (scratch @ d) q d"
      using loop [OF R1(1,3)] by blast
    have "reads_record R1 ?off ?k ps rest r (ReadRecord_loop R1 True (scratch @ d) q d)" by (rule IH [OF R1(3,2)])
    then show ?thesis using True same_config_trans [OF R1(4)]
      unfolding q by (auto simp: reads_record_def add.assoc split: if_splits)
  next
    case False
    then obtain R1 where "ReadPhysicalRecord R = (kEof, None, R1)" "same_config R R1" using pc by auto
    then show ?thesis using False loop_eof [of R None R1] by (auto simp: reads_record_def add.assoc)
  qed
qed

lemma read_fragments:
  "fragments b data ps \<Longrightarrow> stands R off \<Longrightarrow> fits off ps \<Longrightarrow> bytes_left R = take k (layout off ps @ rest) \<Longrightarrow>
   (b \<longrightarrow> scratch = []) \<Longrightarrow> reads_record R off k ps rest (scratch @ data) (ReadRecord_loop R (\<not> b) scratch p fr)"
proof (induction b data ps arbitrary: R off k scratch p fr rule: fragments.induct)
  case (full d)
  have "reads_record R off k [(kFullType, d)] rest d (ReadRecord_loop R False [] p fr)"
    by (rule read_last_piece [OF full(1-3)]) (rule loop_piece(1) [OF _ _ refl])
  then show ?case using full(4) by simp
next
  case (final d)
  have "reads_record R off k [(kLastType, d)] rest (scratch @ d) (ReadRecord_loop R True scratch p fr)"
    by (rule read_last_piece [OF final(1-3)]) (use loop_piece(4) [OF _ _ refl] in blast)
  then show ?case by simp
next
  case (begin_record d ps x)
  have "reads_record R off k ((kFirstType, x) # ps) rest (scratch @ x @ d) (ReadRecord_loop R False scratch p fr)"
  proof (rule read_more_pieces [OF begin_record(3-5)])
    show "\<exists>q. ReadRecord_loop R False scratch p fr = ReadRecord_loop R1 True (scratch @ x) q x"
      if "ReadPhysicalRecord R = (of_nat (rtype_code kFirstType), Some x, R1)" "stands R1 off'" for R1 off'
      using loop_piece(2) [OF that refl] begin_record(6) by simp
    show "reads_record R1 (start_of off + kHeaderSize + length x) k ps rest (scratch @ x @ d) (ReadRecord_loop R1 True (scratch @ x) q x)"
      if "stands R1 (start_of off + kHeaderSize + length x)"
        "bytes_left R1 = take k (layout (start_of off + kHeaderSize + length x) ps @ rest)" for R1 k q
      using begin_record(2) [OF that(1) _ that(2), of "scratch @ x"] begin_record(4) by simp
  qed
  then show ?case by simp
next
  case (middle d ps x)
  have "reads_record R off k ((kMiddleType, x) # ps) rest (scratch @ x @ d) (ReadRecord_loop R True scratch p fr)"
  proof (rule read_more_pieces [OF middle(3-5)])
    show "\<exists>q. ReadRecord_loop R True scratch p fr = ReadRecord_loop R1 True (scratch @ x) q x"
      if "ReadPhysicalRecord R = (of_nat (rtype_code kMiddleType), Some x, R1)" "stands R1 off'" for R1 off'
      using loop_piece(3) [OF that refl] by blast
    show "reads_record R1 (start_of off + kHeaderSize + length x) k ps rest (scratch @ x @ d) (ReadRecord_loop R1 True (scratch @ x) q x)"
      if "stands R1 (start_of off + kHeaderSize + length x)"
        "bytes_left R1 = take k (layout (start_of off + kHeaderSize + length x) ps @ rest)" for R1 k q
      using middle(2) [OF that(1) _ that(2), of "scratch @ x"] middle(4) by simp
  qed
  then show ?case by simp
qed

end
