(* ===== verification/LDB_Log_Correct.thy ===== *)
theory LDB_Log_Correct
  imports LDB_Log_Read
begin

text \<open>
  The properties of the log: recovery of what was written and the position of the writer.
\<close>

section \<open>Whole logs\<close>

text \<open>A client that adds records until one fails, and one that reads until there is none.\<close>

fun AddRecords ::
  "('f \<Rightarrow> slice \<Rightarrow> Status \<times> 'f) \<Rightarrow> ('f \<Rightarrow> Status \<times> 'f) \<Rightarrow> 'f Writer \<Rightarrow> slice list \<Rightarrow> Status \<times> 'f Writer" where
  "AddRecords app flush W [] = (Status_OK, W)"
| "AddRecords app flush W (r # rs) =
     (let (s, W) = AddRecord app flush W r in if status_ok s then AddRecords app flush W rs else (s, W))"

lemma ReadRecord_loop_consumes:
  "ReadRecord_loop R f scratch p fr = (Some r, R') \<Longrightarrow> length (bytes_left R') < length (bytes_left R)"
proof (induction "length (bytes_left R)" arbitrary: R f scratch p fr rule: less_induct)
  case less
  obtain t d R1 where pr: "ReadPhysicalRecord R = (t, d, R1)" by (cases "ReadPhysicalRecord R")
  note loop = less.prems [unfolded ReadRecord_loop.simps [of R] pr, simplified Let_def prod.case]
  have "t \<noteq> kEof"
    using loop by (auto simp: kEof_def kMaxRecordType_def split: if_splits)
  then have less1: "length (bytes_left R1) < length (bytes_left R)" by (rule ReadPhysicalRecord_consumes [OF pr])
  have IH: "length (bytes_left R') < length (bytes_left R)"
    if "ReadRecord_loop R2 f s p fr = (Some r, R')" "bytes_left R2 = bytes_left R1" for R2 f s p fr
    using less.hyps [of R2 f s p fr] that less1 by simp
  show ?case
    using loop less1 by (auto split: if_splits intro: IH)
qed

lemma SkipToInitialBlock_bytes: "SkipToInitialBlock R = (b, R') \<Longrightarrow> length (bytes_left R') \<le> length (bytes_left R)"
  by (auto simp: SkipToInitialBlock_def Let_def bytes_left_def sequential_Skip_def fseek_cur_def unread_def
      split: if_splits prod.splits option.splits)

lemma ReadRecord_consumes:
  assumes "ReadRecord R = (Some r, R')"
  shows "length (bytes_left R') < length (bytes_left R)"
proof -
  obtain b R1 where s: "(if last_record_offset R < initial_offset R then SkipToInitialBlock R else (True, R)) = (b, R1)"
    by fastforce
  then have "length (bytes_left R1) \<le> length (bytes_left R)" using SkipToInitialBlock_bytes [of R] by (auto split: if_splits)
  moreover have "ReadRecord_loop R1 False [] 0 [] = (Some r, R')"
    using assms unfolding ReadRecord_def s by (auto split: if_splits)
  ultimately show ?thesis using ReadRecord_loop_consumes by (meson order.strict_trans2)
qed

function read_records :: "Reader \<Rightarrow> slice list \<times> Reader" where
  "read_records R =
     (case ReadRecord R of
        (None, R) \<Rightarrow> ([], R)
      | (Some r, R) \<Rightarrow> let (rs, R) = read_records R in (r # rs, R))"
  by pat_completeness auto
termination
  by (relation "measure (\<lambda>R. length (bytes_left R))") (auto dest: sym intro: ReadRecord_consumes)

declare read_records.simps [simp del]

context reliable_file begin

lemma AddRecords_layout:
  assumes "writer_ok W"
  shows "\<exists>pss. list_all2 (fragments True) recs pss \<and> fits (block_offset W) (concat pss) \<and>
    status_ok (fst (AddRecords Append Flush W recs)) \<and>
    (\<forall>j \<le> length recs. contents (dest (snd (AddRecords Append Flush W (take j recs)))) =
       contents (dest W) @ layout (block_offset W) (concat (take j pss))) \<and>
    block_offset (snd (AddRecords Append Flush W recs)) = end_off (block_offset W) (concat pss)"
  using assms
proof (induction recs arbitrary: W)
  case Nil
  then show ?case by (auto simp: writer_ok_def)
next
  case (Cons r rs)
  obtain s W1 where w: "AddRecord Append Flush W r = (s, W1)" by fastforce
  then obtain ps where ps: "status_ok s" "writer_ok W1" "fragments True r ps" "fits (block_offset W) ps"
    "block_offset W1 = end_off (block_offset W) ps" "contents (dest W1) = contents (dest W) @ layout (block_offset W) ps"
    using AddRecord_loop_layout [of True r W s W1] Cons.prems unfolding AddRecord_def by blast
  from Cons.IH [OF ps(2)] obtain pss where pss: "list_all2 (fragments True) rs pss" "fits (block_offset W1) (concat pss)"
    "status_ok (fst (AddRecords Append Flush W1 rs))"
    "\<forall>j \<le> length rs. contents (dest (snd (AddRecords Append Flush W1 (take j rs)))) =
       contents (dest W1) @ layout (block_offset W1) (concat (take j pss))"
    "block_offset (snd (AddRecords Append Flush W1 rs)) = end_off (block_offset W1) (concat pss)" by blast
  have "contents (dest (snd (AddRecords Append Flush W (take j (r # rs))))) =
      contents (dest W) @ layout (block_offset W) (concat (take j (ps # pss)))" if "j \<le> length (r # rs)" for j
    using that pss(4) ps by (cases j) (simp_all add: w layout_append)
  then show ?case
    using ps pss w by (intro exI [of _ "ps # pss"]) (simp add: fits_append end_off_append)
qed

end

text \<open>A reader without unread bytes finds no record, and no corruption either.\<close>

lemma read_records_None: "ReadRecord R = (None, R') \<Longrightarrow> read_records R = ([], R')"
  by (subst read_records.simps) simp

lemma read_records_Some:
  "ReadRecord R = (Some r, R1) \<Longrightarrow> read_records R1 = (rs, R') \<Longrightarrow> read_records R = (r # rs, R')"
  by (subst read_records.simps) simp

lemma ReadRecord_stands: "stands R off \<Longrightarrow> ReadRecord R = ReadRecord_loop R False [] 0 []"
  by (simp add: ReadRecord_def stands_def)

lemma read_end:
  assumes "stands R off" "off \<le> kBlockSize" "bytes_left R = []"
  shows "\<exists>R'. read_records R = ([], R') \<and> same_config R R'"
proof -
  have "start_of off + kHeaderSize + length ([] :: slice) \<le> kBlockSize"
    using assms(2) by (auto simp: start_of_def kHeaderSize_def kBlockSize_def)
  from read_piece [OF assms(1) this, of kFullType 0 "[]"] assms(3)
  obtain R1 where "ReadPhysicalRecord R = (kEof, None, R1)" "same_config R R1"
    by (auto simp: kHeaderSize_def)
  then show ?thesis
    using loop_eof [of R None R1] ReadRecord_stands [OF assms(1)]
    by (auto intro!: exI read_records_None)
qed

lemma fits_le: "fits off ps \<Longrightarrow> off \<le> kBlockSize" "fits off ps \<Longrightarrow> end_off off ps \<le> kBlockSize"
  by (induction off ps rule: fits.induct) auto

lemma layout_positive: "fragments b r ps \<Longrightarrow> 0 < length (layout off ps)"
  by (induction rule: fragments.induct) (auto simp: kHeaderSize_def)

lemma read_all:
  assumes "list_all2 (fragments True) recs pss" "stands R off" "fits off (concat pss)"
    and "bytes_left R = take k (layout off (concat pss))"
  shows "\<exists>m R'. read_records R = (take m recs, R') \<and> same_config R R' \<and>
    (\<forall>j \<le> length recs. j \<le> m \<longleftrightarrow> length (layout off (concat (take j pss))) \<le> k)"
  using assms
proof (induction recs pss arbitrary: R off k rule: list_all2_induct)
  case Nil
  then show ?case using read_end [of R off] by auto
next
  case (Cons r rs ps pss)
  let ?n = "length (layout off ps)"
  have fit: "fits off ps" "fits (end_off off ps) (concat pss)" using Cons.prems(2) by (simp_all add: fits_append)
  have "reads_record R off k ps (layout (end_off off ps) (concat pss)) r (ReadRecord R)"
    using read_fragments [OF Cons.hyps(1) Cons.prems(1) fit(1), of k _ "[]"] Cons.prems(3)
    by (simp add: layout_append ReadRecord_stands [OF Cons.prems(1)])
  then consider
      R1 where "?n \<le> k" "ReadRecord R = (Some r, R1)" "bytes_left R1 = take (k - ?n) (layout (end_off off ps) (concat pss))"
        "stands R1 (end_off off ps)" "same_config R R1"
    | R1 where "k < ?n" "ReadRecord R = (None, R1)" "same_config R R1"
    by (auto simp: reads_record_def not_le split: if_splits)
  then show ?case
  proof cases
    case 1
    from Cons.IH [OF 1(4) fit(2) 1(3)] obtain m R' where m: "read_records R1 = (take m rs, R')" "same_config R1 R'"
      "\<forall>j \<le> length rs. j \<le> m \<longleftrightarrow> length (layout (end_off off ps) (concat (take j pss))) \<le> k - ?n" by blast
    have "j \<le> Suc m \<longleftrightarrow> length (layout off (concat (take j (ps # pss)))) \<le> k" if "j \<le> length (r # rs)" for j
      using that m(3) 1(1) by (cases j) (auto simp: layout_append)
    then show ?thesis
      using read_records_Some [OF 1(2) m(1)] same_config_trans [OF 1(5) m(2)]
      by (intro exI [of _ "Suc m"] exI [of _ R']) simp
  next
    case 2
    have "j \<le> 0 \<longleftrightarrow> length (layout off (concat (take j (ps # pss)))) \<le> k" for j
      using 2(1) by (cases j) (auto simp: layout_append)
    then show ?thesis using read_records_None [OF 2(2)] 2(3) by (intro exI [of _ 0] exI [of _ R1]) simp
  qed
qed

lemma layout_block_end: "layout kBlockSize ps = layout 0 ps" "fits kBlockSize ps \<longleftrightarrow> fits 0 ps"
  by (cases ps; auto simp: pad_def start_of_def kBlockSize_def kHeaderSize_def)+

section \<open>The properties of the log\<close>

text \<open>
  C19. Recovery of a log of which only the first \<open>k\<close> bytes reached the file, as after a crash: adding the
  records reports success, and the reader returns exactly the records whose bytes are all among those
  \<open>k\<close>, in order, and reports no corruption, wherever the file was cut: inside a record, a header, a
  fragment or the filling at the end of a block.
\<close>

theorem log_recovery:
  assumes "out_faults (wf_file f) = []" and "written (wf_file f) = []"
    and "AddRecords writable_Append writable_Flush (new_Writer f) recs = (s, W)"
    and "in_faults (sf_file g) = []" and "position (sf_file g) = 0"
    and "file_data (sf_file g) = take k (written (wf_file (dest W)))"
  shows "status_ok s \<and>
    (\<exists>m R. read_records (new_Reader g (Some []) chk 0) = (take m recs, R) \<and> reporter R = Some [] \<and>
      (\<forall>j \<le> length recs. j \<le> m \<longleftrightarrow>
        length (written (wf_file (dest (snd (AddRecords writable_Append writable_Flush (new_Writer f) (take j recs)))))) \<le> k))"
proof -
  obtain pss where pss: "list_all2 (fragments True) recs pss" "fits 0 (concat pss)"
    "status_ok (fst (AddRecords writable_Append writable_Flush (new_Writer f) recs))"
    "\<forall>j \<le> length recs. written (wf_file (dest (snd (AddRecords writable_Append writable_Flush (new_Writer f) (take j recs))))) =
       layout 0 (concat (take j pss))"
    using posix_good.AddRecords_layout [OF posix_good.new_Writer_ok [OF assms(1)], of recs] assms(2)
    by (auto simp: new_Writer_def)
  have len: "length pss = length recs" using pss(1) by (simp add: list_all2_lengthD)
  have w: "written (wf_file (dest W)) = layout 0 (concat pss)"
    using pss(4) assms(3) len by (metis order.refl snd_conv take_all)
  let ?R = "new_Reader g (Some []) chk 0"
  have st: "stands ?R kBlockSize" using assms(4) by (simp add: stands_def new_Reader_def)
  have left: "bytes_left ?R = take k (layout kBlockSize (concat pss))"
    using assms(5,6) w by (simp add: bytes_left_def new_Reader_def unread_def layout_block_end)
  from read_all [OF pss(1) st pss(2) [folded layout_block_end] left]
  obtain m R' where m: "read_records ?R = (take m recs, R')" "same_config ?R R'"
    "\<forall>j \<le> length recs. j \<le> m \<longleftrightarrow> length (layout 0 (concat (take j pss))) \<le> k"
    unfolding layout_block_end by blast
  have "reporter R' = Some []" using m(2) by (simp add: same_config_def new_Reader_def)
  then show ?thesis using m(1,3) pss(3,4) assms(3) by auto
qed

theorem log_recovery_witness:
  "let f = \<lparr>wf_filename = [], wf_file = \<lparr>written = [], out_faults = []\<rparr>, wf_strerror = []\<rparr>;
       W = snd (AddRecords writable_Append writable_Flush (new_Writer f) [[65], [66, 67]]);
       g = \<lparr>sf_filename = [], sf_file = \<lparr>file_data = take 12 (written (wf_file (dest W))), position = 0, in_faults = []\<rparr>,
            sf_strerror = []\<rparr>
   in status_ok (fst (AddRecords writable_Append writable_Flush (new_Writer f) [[65], [66, 67]])) \<and>
    (\<exists>m R. read_records (new_Reader g (Some []) True 0) = (take m [[65], [66, 67]], R) \<and> reporter R = Some [] \<and>
      (\<forall>j \<le> length [[65], [66, 67 :: byte]]. j \<le> m \<longleftrightarrow>
        length (written (wf_file (dest (snd (AddRecords writable_Append writable_Flush (new_Writer f)
          (take j [[65], [66, 67]])))))) \<le> 12))"
  unfolding Let_def
  by (rule log_recovery [where k = 12]) (simp_all only: PosixWritableFile.simps out_stream.simps
      PosixSequentialFile.simps in_stream.simps surjective_pairing [symmetric])

lemma layout_offset:
  "fits off ps \<Longrightarrow> (off + length (layout off ps)) mod kBlockSize = end_off off ps mod kBlockSize"
proof (induction off ps rule: fits.induct)
  case (2 off t d ps)
  have "(off + length (pad off)) mod kBlockSize = start_of off mod kBlockSize"
    using 2(2) by (auto simp: pad_def start_of_def)
  then have "(off + length (pad off) + (kHeaderSize + length d + length (layout (start_of off + kHeaderSize + length d) ps))) mod kBlockSize =
      (start_of off + (kHeaderSize + length d + length (layout (start_of off + kHeaderSize + length d) ps))) mod kBlockSize"
    by (metis mod_add_left_eq)
  then show ?case using 2 by (simp add: add.assoc)
qed simp

lemma new_Writer_at_offset: "n < 2 ^ 64 \<Longrightarrow> block_offset (new_Writer_at f (of_nat n)) = n mod kBlockSize"
  by (simp add: new_Writer_at_def kBlockSize_def unat_mod unat_of_nat)

text \<open>
  C20. Where the writer stands: with records added to a file of \<open>dest_length\<close> bytes, its offset is the
  position in the block that the length of the file gives, and no physical record crosses the end of a
  block.
\<close>


theorem log_writer_offset:
  assumes "out_faults (wf_file f) = []" and "length (written (wf_file f)) < 2 ^ 64"
    and "AddRecords writable_Append writable_Flush (new_Writer_at f (of_nat (length (written (wf_file f))))) recs = (s, W)"
  shows "status_ok s \<and> block_offset W \<le> kBlockSize \<and>
    block_offset W mod kBlockSize = length (written (wf_file (dest W))) mod kBlockSize \<and>
    (\<exists>ps. written (wf_file (dest W)) = written (wf_file f) @ layout (length (written (wf_file f)) mod kBlockSize) ps \<and>
      fits (length (written (wf_file f)) mod kBlockSize) ps)"
proof -
  let ?W = "new_Writer_at f (of_nat (length (written (wf_file f))))"
  let ?o = "length (written (wf_file f)) mod kBlockSize"
  have o: "block_offset ?W = ?o" by (rule new_Writer_at_offset [OF assms(2)])
  have ok: "posix_good.writer_ok ?W"
    using assms(1) by (simp add: posix_good.writer_ok_def o) (simp add: new_Writer_at_def kBlockSize_def)
  obtain pss where pss: "fits ?o (concat pss)" "status_ok s" "length pss = length recs"
    "written (wf_file (dest W)) = written (wf_file f) @ layout ?o (concat pss)" "block_offset W = end_off ?o (concat pss)"
    using posix_good.AddRecords_layout [OF ok, of recs] assms(3) unfolding o
    by (auto simp: new_Writer_at_def list_all2_lengthD dest!: spec [of _ "length recs"])
  have "(?o + length (layout ?o (concat pss))) mod kBlockSize = length (written (wf_file (dest W))) mod kBlockSize"
    unfolding pss(4) length_append by (simp add: mod_add_left_eq)
  then show ?thesis
    using layout_offset [OF pss(1)] fits_le(2) [OF pss(1)] pss by auto
qed

theorem log_writer_offset_witness:
  "let f = \<lparr>wf_filename = [], wf_file = \<lparr>written = replicate 9 0, out_faults = []\<rparr>, wf_strerror = []\<rparr>;
       W = snd (AddRecords writable_Append writable_Flush (new_Writer_at f (of_nat (length (written (wf_file f))))) [[65], [66]])
   in block_offset W mod kBlockSize = length (written (wf_file (dest W))) mod kBlockSize"
  unfolding Let_def
  using log_writer_offset [of "\<lparr>wf_filename = [], wf_file = \<lparr>written = replicate 9 0, out_faults = []\<rparr>, wf_strerror = []\<rparr>",
      OF _ _ surjective_pairing, of "[[65], [66]]"] by simp

end
