(* ===== verification/LDB_WriteBatch.thy ===== *)
theory LDB_WriteBatch
  imports LDB_Dbformat LDB_Status
begin

text \<open>
  Batches of updates (\<open>write_batch.cc\<close>, \<open>write_batch_internal.h\<close>): the representation as a string, its
  construction, and its iteration over a handler.
\<close>

section \<open>Representation\<close>

text \<open>The string \<open>rep_\<close>: a sequence number, a count, and records.\<close>

type_synonym WriteBatch = "byte list"

definition kHeader :: nat where "kHeader = 12"

definition batch_Clear :: WriteBatch where
  "batch_Clear = replicate kHeader 0"

text \<open>\<open>Count\<close> and the counter of \<open>Iterate\<close> have the type \<open>int\<close>, of 32 bits.\<close>

definition Count :: "WriteBatch \<Rightarrow> u32" where
  "Count b = le_word (take 4 (drop 8 b))"

definition SetCount :: "WriteBatch \<Rightarrow> u32 \<Rightarrow> WriteBatch" where
  "SetCount b n = take 8 b @ EncodeFixed32 n @ drop 12 b"

definition Sequence :: "WriteBatch \<Rightarrow> u64" where
  "Sequence b = le_word (take 8 b)"

definition SetSequence :: "WriteBatch \<Rightarrow> u64 \<Rightarrow> WriteBatch" where
  "SetSequence b seq = EncodeFixed64 seq @ drop 8 b"

definition batch_Put :: "WriteBatch \<Rightarrow> slice \<Rightarrow> slice \<Rightarrow> WriteBatch" where
  "batch_Put b key v =
     PutLengthPrefixedSlice (PutLengthPrefixedSlice (SetCount b (Count b + 1) @ [ucast (type_code kTypeValue)]) key) v"

definition batch_Delete :: "WriteBatch \<Rightarrow> slice \<Rightarrow> WriteBatch" where
  "batch_Delete b key = PutLengthPrefixedSlice (SetCount b (Count b + 1) @ [ucast (type_code kTypeDeletion)]) key"

definition SetContents :: "slice \<Rightarrow> WriteBatch" where
  "SetContents contents = contents"

definition ByteSize :: "WriteBatch \<Rightarrow> nat" where
  "ByteSize b = length b"

definition batch_Append :: "WriteBatch \<Rightarrow> WriteBatch \<Rightarrow> WriteBatch" where
  "batch_Append dst src = SetCount dst (Count dst + Count src) @ drop kHeader src"

section \<open>Iteration\<close>

text \<open>The functions of the handler are parameters; the loop stops with the status of a malformed record.\<close>

function Iterate_loop ::
  "(slice \<Rightarrow> slice \<Rightarrow> 'h \<Rightarrow> 'h) \<Rightarrow> (slice \<Rightarrow> 'h \<Rightarrow> 'h) \<Rightarrow> slice \<Rightarrow> u32 \<Rightarrow> 'h \<Rightarrow> Status \<times> u32 \<times> 'h" where
  "Iterate_loop put del [] found h = (Status_OK, found, h)"
| "Iterate_loop put del (tg # inp) found h =
     (let found = found + 1 in
      if tg = ucast (type_code kTypeValue) then
        (case GetLengthPrefixedSlice inp of
           None \<Rightarrow> (Status_Corruption (chars ''bad WriteBatch Put'') [], found, h)
         | Some (key, inp) \<Rightarrow>
             (case GetLengthPrefixedSlice inp of
                None \<Rightarrow> (Status_Corruption (chars ''bad WriteBatch Put'') [], found, h)
              | Some (v, inp) \<Rightarrow> Iterate_loop put del inp found (put key v h)))
      else if tg = ucast (type_code kTypeDeletion) then
        (case GetLengthPrefixedSlice inp of
           None \<Rightarrow> (Status_Corruption (chars ''bad WriteBatch Delete'') [], found, h)
         | Some (key, inp) \<Rightarrow> Iterate_loop put del inp found (del key h))
      else (Status_Corruption (chars ''unknown WriteBatch tag'') [], found, h))"
  by pat_completeness auto
termination
  by (relation "measure (\<lambda>(put, del, inp, found, h). length inp)") (auto dest!: GetLengthPrefixedSlice_shorter)

definition Iterate :: "(slice \<Rightarrow> slice \<Rightarrow> 'h \<Rightarrow> 'h) \<Rightarrow> (slice \<Rightarrow> 'h \<Rightarrow> 'h) \<Rightarrow> WriteBatch \<Rightarrow> 'h \<Rightarrow> Status \<times> 'h" where
  "Iterate put del b h =
     (if length b < kHeader then (Status_Corruption (chars ''malformed WriteBatch (too small)'') [], h)
      else
        let (s, found, h) = Iterate_loop put del (drop kHeader b) 0 h
        in if \<not> status_ok s then (s, h)
           else if found \<noteq> Count b then (Status_Corruption (chars ''WriteBatch has wrong count'') [], h)
           else (Status_OK, h))"

text \<open>
  The handler that inserts into a memtable; the operation of the memtable is a parameter. Its state is
  the next sequence number and the memtable.
\<close>

definition inserter_Put ::
  "(u64 \<Rightarrow> ValueType \<Rightarrow> slice \<Rightarrow> slice \<Rightarrow> 'm \<Rightarrow> 'm) \<Rightarrow> slice \<Rightarrow> slice \<Rightarrow> u64 \<times> 'm \<Rightarrow> u64 \<times> 'm" where
  "inserter_Put add key v h = (let (seq, mem) = h in (seq + 1, add seq kTypeValue key v mem))"

definition inserter_Delete ::
  "(u64 \<Rightarrow> ValueType \<Rightarrow> slice \<Rightarrow> slice \<Rightarrow> 'm \<Rightarrow> 'm) \<Rightarrow> slice \<Rightarrow> u64 \<times> 'm \<Rightarrow> u64 \<times> 'm" where
  "inserter_Delete add key h = (let (seq, mem) = h in (seq + 1, add seq kTypeDeletion key [] mem))"

definition InsertInto ::
  "(u64 \<Rightarrow> ValueType \<Rightarrow> slice \<Rightarrow> slice \<Rightarrow> 'm \<Rightarrow> 'm) \<Rightarrow> WriteBatch \<Rightarrow> 'm \<Rightarrow> Status \<times> 'm" where
  "InsertInto add b mem =
     (let (s, seq, mem) = Iterate (inserter_Put add) (inserter_Delete add) b (Sequence b, mem) in (s, mem))"

section \<open>What a batch holds\<close>

text \<open>An update, its bytes, and its effect on a handler.\<close>

datatype update = Update_Put slice slice | Update_Delete slice

fun update_bytes :: "update \<Rightarrow> byte list" where
  "update_bytes (Update_Put k v) = PutLengthPrefixedSlice (PutLengthPrefixedSlice [1] k) v"
| "update_bytes (Update_Delete k) = PutLengthPrefixedSlice [0] k"

fun update_ok :: "update \<Rightarrow> bool" where
  "update_ok (Update_Put k v) \<longleftrightarrow> length k < 2 ^ 32 \<and> length v < 2 ^ 32"
| "update_ok (Update_Delete k) \<longleftrightarrow> length k < 2 ^ 32"

fun apply_update :: "(slice \<Rightarrow> slice \<Rightarrow> 'h \<Rightarrow> 'h) \<Rightarrow> (slice \<Rightarrow> 'h \<Rightarrow> 'h) \<Rightarrow> update \<Rightarrow> 'h \<Rightarrow> 'h" where
  "apply_update put del (Update_Put k v) h = put k v h"
| "apply_update put del (Update_Delete k) h = del k h"

fun add_update :: "WriteBatch \<Rightarrow> update \<Rightarrow> WriteBatch" where
  "add_update b (Update_Put k v) = batch_Put b k v"
| "add_update b (Update_Delete k) = batch_Delete b k"

text \<open>A batch with a sequence number and a list of updates.\<close>

definition batch_bytes :: "u64 \<Rightarrow> u32 \<Rightarrow> update list \<Rightarrow> WriteBatch" where
  "batch_bytes seq n us = EncodeFixed64 seq @ EncodeFixed32 n @ concat (map update_bytes us)"

lemma batch_fields [simp]:
  "Count (batch_bytes seq n us) = n" "Sequence (batch_bytes seq n us) = seq"
  "drop kHeader (batch_bytes seq n us) = concat (map update_bytes us)"
  "\<not> length (batch_bytes seq n us) < kHeader"
  "SetCount (batch_bytes seq n us) m = batch_bytes seq m us" "SetSequence (batch_bytes seq n us) s = batch_bytes s n us"
  by (simp_all add: batch_bytes_def Count_def Sequence_def SetCount_def SetSequence_def kHeader_def
      EncodeFixed32_def EncodeFixed64_def)

lemma Clear_bytes: "batch_Clear = batch_bytes 0 0 []"
  by (simp add: batch_Clear_def batch_bytes_def kHeader_def EncodeFixed32_def EncodeFixed64_def le_bytes_numeral
      numeral_eq_Suc)

lemma add_update_bytes: "add_update (batch_bytes seq n us) u = batch_bytes seq (n + 1) (us @ [u])"
  by (cases u) (simp_all add: batch_Put_def batch_Delete_def PutLengthPrefixedSlice_def PutVarint32_def,
      simp_all add: batch_bytes_def PutLengthPrefixedSlice_def PutVarint32_def)

lemma fold_add_update:
  "foldl add_update (batch_bytes seq n us) vs = batch_bytes seq (n + of_nat (length vs)) (us @ vs)"
  by (induction vs arbitrary: n us) (simp_all add: add_update_bytes add.assoc)

lemma Append_bytes: "batch_Append (batch_bytes s n us) (batch_bytes s' n' vs) = batch_bytes s (n + n') (us @ vs)"
  by (simp add: batch_Append_def) (simp add: batch_bytes_def)

lemma Iterate_loop_update:
  assumes "update_ok u"
  shows "Iterate_loop put del (update_bytes u @ p) n h = Iterate_loop put del p (n + 1) (apply_update put del u h)"
  using assms by (cases u) (simp_all add: PutLengthPrefixedSlice_def PutVarint32_def)

lemma Iterate_loop_updates:
  "list_all update_ok us \<Longrightarrow> Iterate_loop put del (concat (map update_bytes us)) n h =
     (Status_OK, n + of_nat (length us), fold (apply_update put del) us h)"
  by (induction us arbitrary: n h) (simp_all add: Iterate_loop_update add.assoc)

lemma Iterate_batch:
  assumes "list_all update_ok us"
  shows "Iterate put del (batch_bytes seq n us) h =
    (if n = of_nat (length us) then Status_OK else Status_Corruption (chars ''WriteBatch has wrong count'') [],
     fold (apply_update put del) us h)"
  unfolding Iterate_def by (simp add: Iterate_loop_updates [OF assms])

text \<open>Every result of the loop is the effect of updates that stand in its input.\<close>

lemma GetLengthPrefixedSlice_small: "GetLengthPrefixedSlice p = Some (r, q) \<Longrightarrow> length r < 2 ^ 32"
proof -
  assume "GetLengthPrefixedSlice p = Some (r, q)"
  then obtain n p' where "r = take (unat (n :: u32)) p'" by (auto simp: GetLengthPrefixedSlice_def split: option.splits if_splits)
  then show ?thesis using unat_lt_32 [of n] by simp
qed

lemma Iterate_loop_sound:
  "Iterate_loop put del inp n h = (s, n', h') \<Longrightarrow>
   \<exists>us. h' = fold (apply_update put del) us h \<and> list_all update_ok us \<and> (status_ok s \<longrightarrow> n' = n + of_nat (length us))"
proof (induction put del inp n h arbitrary: s n' h' rule: Iterate_loop.induct)
  case (1 put del n h)
  then show ?case by (intro exI [of _ "[]"]) simp
next
  case (2 put del c inp n h)
  consider
      (put) k p1 v p2 where "c = ucast (type_code kTypeValue)" "GetLengthPrefixedSlice inp = Some (k, p1)"
        "GetLengthPrefixedSlice p1 = Some (v, p2)"
    | (del) k p1 where "c \<noteq> ucast (type_code kTypeValue)" "c = ucast (type_code kTypeDeletion)"
        "GetLengthPrefixedSlice inp = Some (k, p1)"
    | (stop) "h' = h" "\<not> status_ok s"
    using 2(3) by (auto simp: Let_def split: if_splits option.splits)
  then show ?case
  proof cases
    case put
    then have "Iterate_loop put del p2 (n + 1) (put k v h) = (s, n', h')" using 2(3) by simp
    from 2(1) [OF refl put(1,2) refl put(3) refl this]
    obtain us where "h' = fold (apply_update put del) us (put k v h)" "list_all update_ok us"
      "status_ok s \<longrightarrow> n' = n + 1 + of_nat (length us)" by blast
    then show ?thesis using put GetLengthPrefixedSlice_small
      by (intro exI [of _ "Update_Put k v # us"]) (auto simp: add.assoc)
  next
    case del
    then have "Iterate_loop put del p1 (n + 1) (del k h) = (s, n', h')" using 2(3) by simp
    from 2(2) [OF refl del(1,2,3) refl this]
    obtain us where "h' = fold (apply_update put del) us (del k h)" "list_all update_ok us"
      "status_ok s \<longrightarrow> n' = n + 1 + of_nat (length us)" by blast
    then show ?thesis using del GetLengthPrefixedSlice_small
      by (intro exI [of _ "Update_Delete k # us"]) (auto simp: add.assoc)
  next
    case stop
    then show ?thesis by (intro exI [of _ "[]"]) simp
  qed
qed

section \<open>The properties of batches\<close>

text \<open>
  C21. A batch gives back its updates: iterating over a batch that was built by \<open>Put\<close> and \<open>Delete\<close>, with
  another one appended, calls the handler with the updates of both in order and returns a good status.
\<close>

theorem batch_roundtrip:
  assumes "list_all update_ok us" "list_all update_ok vs"
  shows "Iterate put del (batch_Append (foldl add_update batch_Clear us) (foldl add_update batch_Clear vs)) h =
    (Status_OK, fold (apply_update put del) (us @ vs) h)"
proof -
  have "batch_Append (foldl add_update batch_Clear us) (foldl add_update batch_Clear vs) =
      batch_bytes 0 (of_nat (length (us @ vs))) (us @ vs)"
    unfolding Clear_bytes fold_add_update Append_bytes by simp
  then show ?thesis using assms by (simp only: Iterate_batch list_all_append) simp
qed

theorem batch_roundtrip_witness:
  "Iterate (\<lambda>k v h. h @ [(k, Some v)]) (\<lambda>k h. h @ [(k, None)])
     (batch_Append (foldl add_update batch_Clear [Update_Put [65] [1, 2], Update_Delete [66]])
       (foldl add_update batch_Clear [Update_Put [] [3]])) [] =
   (Status_OK, [([65], Some [1, 2]), ([66], None), ([], Some [3])])"
  by (subst batch_roundtrip) simp_all

text \<open>
  C22. Iterating over an arbitrary string calls the handler with some sequence of updates, whatever the
  status; a good status is returned only if their number is the count in the header.
\<close>

theorem batch_iterate_sound:
  assumes "Iterate put del b h = (s, h')"
  shows "\<exists>us. h' = fold (apply_update put del) us h \<and> list_all update_ok us \<and>
    (status_ok s \<longrightarrow> kHeader \<le> length b \<and> of_nat (length us) = Count b)"
proof (cases "length b < kHeader")
  case True
  then show ?thesis using assms by (intro exI [of _ "[]"]) (auto simp: Iterate_def)
next
  case False
  obtain s1 n h1 where l: "Iterate_loop put del (drop kHeader b) 0 h = (s1, n, h1)" by (cases "Iterate_loop put del (drop kHeader b) 0 h")
  from Iterate_loop_sound [OF l] show ?thesis
    using assms False l by (auto simp: Iterate_def split: if_splits)
qed

theorem batch_iterate_sound_witness:
  "\<exists>us. [([65], Some [])] = fold (apply_update (\<lambda>k v h. h @ [(k, Some v)]) (\<lambda>k h. h @ [(k, None)])) us [] \<and>
    list_all update_ok us"
proof -
  have "Iterate (\<lambda>k v h. h @ [(k, Some v)]) (\<lambda>k h. h @ [(k, None)])
      (replicate 12 0 @ [1, 1, 65, 0, 7]) [] = (Status_Corruption (chars ''unknown WriteBatch tag'') [], [([65], Some [])])"
    by code_simp
  from batch_iterate_sound [OF this] show ?thesis by blast
qed

text \<open>The entries that updates give, from a sequence number on.\<close>

fun add_entries ::
  "(u64 \<Rightarrow> ValueType \<Rightarrow> slice \<Rightarrow> slice \<Rightarrow> 'm \<Rightarrow> 'm) \<Rightarrow> u64 \<Rightarrow> update list \<Rightarrow> 'm \<Rightarrow> 'm" where
  "add_entries add seq [] mem = mem"
| "add_entries add seq (Update_Put k v # us) mem = add_entries add (seq + 1) us (add seq kTypeValue k v mem)"
| "add_entries add seq (Update_Delete k # us) mem = add_entries add (seq + 1) us (add seq kTypeDeletion k [] mem)"

lemma fold_inserter:
  "fold (apply_update (inserter_Put add) (inserter_Delete add)) us (seq, mem) =
    (seq + of_nat (length us), add_entries add seq us mem)"
  by (induction add seq us mem rule: add_entries.induct) (simp_all add: inserter_Put_def inserter_Delete_def add.assoc)

text \<open>
  Inserting a batch into a memtable adds one entry for every update, in order, with consecutive sequence
  numbers from the batch's own.
\<close>

lemma InsertInto_updates:
  assumes "list_all update_ok us"
  shows "InsertInto add (SetSequence (foldl add_update batch_Clear us) seq) mem = (Status_OK, add_entries add seq us mem)"
proof -
  have "SetSequence (foldl add_update batch_Clear us) seq = batch_bytes seq (of_nat (length us)) us"
    unfolding Clear_bytes fold_add_update by simp
  then show ?thesis by (simp add: InsertInto_def Iterate_batch [OF assms] fold_inserter)
qed

end
