(* ===== verification/LDB_VersionEdit.thy ===== *)
theory LDB_VersionEdit
  imports LDB_Dbformat LDB_Status "HOL-Library.Product_Lexorder"
begin

text \<open>
  Edits of the version state (\<open>version_edit.h\<close>, \<open>version_edit.cc\<close>) and their serialisation in the manifest.
\<close>

section \<open>The edit and its operations\<close>

record FileMetaData =
  fm_refs :: int
  allowed_seeks :: int
  fm_number :: u64
  file_size :: u64
  smallest :: slice
  largest :: slice

definition new_FileMetaData :: "u64 \<Rightarrow> u64 \<Rightarrow> slice \<Rightarrow> slice \<Rightarrow> FileMetaData" where
  "new_FileMetaData number fsize sm la =
     \<lparr>fm_refs = 0, allowed_seeks = 2 ^ 30, fm_number = number, file_size = fsize, smallest = sm, largest = la\<rparr>"

text \<open>Internal keys are their representations; levels are natural numbers; the set of deleted files is a set.\<close>

record VersionEdit =
  ve_comparator :: "byte list"
  log_number :: u64
  prev_log_number :: u64
  next_file_number :: u64
  last_sequence :: u64
  has_comparator :: bool
  has_log_number :: bool
  has_prev_log_number :: bool
  has_next_file_number :: bool
  has_last_sequence :: bool
  compact_pointers :: "(nat \<times> slice) list"
  deleted_files :: "(nat \<times> u64) set"
  new_files :: "(nat \<times> FileMetaData) list"

definition edit_Clear :: "VersionEdit \<Rightarrow> VersionEdit" where
  "edit_Clear E = E\<lparr>ve_comparator := [], log_number := 0, prev_log_number := 0, last_sequence := 0, next_file_number := 0,
     has_comparator := False, has_log_number := False, has_prev_log_number := False, has_next_file_number := False,
     has_last_sequence := False, deleted_files := {}, new_files := []\<rparr>"

definition new_VersionEdit :: VersionEdit where
  "new_VersionEdit = edit_Clear
     \<lparr>ve_comparator = [], log_number = 0, prev_log_number = 0, next_file_number = 0, last_sequence = 0,
      has_comparator = False, has_log_number = False, has_prev_log_number = False, has_next_file_number = False,
      has_last_sequence = False, compact_pointers = [], deleted_files = {}, new_files = []\<rparr>"

definition SetComparatorName :: "VersionEdit \<Rightarrow> slice \<Rightarrow> VersionEdit" where
  "SetComparatorName E name = E\<lparr>has_comparator := True, ve_comparator := name\<rparr>"

definition SetLogNumber :: "VersionEdit \<Rightarrow> u64 \<Rightarrow> VersionEdit" where
  "SetLogNumber E num = E\<lparr>has_log_number := True, log_number := num\<rparr>"

definition SetPrevLogNumber :: "VersionEdit \<Rightarrow> u64 \<Rightarrow> VersionEdit" where
  "SetPrevLogNumber E num = E\<lparr>has_prev_log_number := True, prev_log_number := num\<rparr>"

definition SetNextFile :: "VersionEdit \<Rightarrow> u64 \<Rightarrow> VersionEdit" where
  "SetNextFile E num = E\<lparr>has_next_file_number := True, next_file_number := num\<rparr>"

definition SetLastSequence :: "VersionEdit \<Rightarrow> u64 \<Rightarrow> VersionEdit" where
  "SetLastSequence E seq = E\<lparr>has_last_sequence := True, last_sequence := seq\<rparr>"

definition SetCompactPointer :: "VersionEdit \<Rightarrow> nat \<Rightarrow> slice \<Rightarrow> VersionEdit" where
  "SetCompactPointer E level key = E\<lparr>compact_pointers := compact_pointers E @ [(level, key)]\<rparr>"

definition AddFile :: "VersionEdit \<Rightarrow> nat \<Rightarrow> u64 \<Rightarrow> u64 \<Rightarrow> slice \<Rightarrow> slice \<Rightarrow> VersionEdit" where
  "AddFile E level num fsize sm la = E\<lparr>new_files := new_files E @ [(level, new_FileMetaData num fsize sm la)]\<rparr>"

definition DeleteFile :: "VersionEdit \<Rightarrow> nat \<Rightarrow> u64 \<Rightarrow> VersionEdit" where
  "DeleteFile E level num = E\<lparr>deleted_files := insert (level, num) (deleted_files E)\<rparr>"

section \<open>Encoding\<close>

datatype Tag = kComparator | kLogNumber | kNextFileNumber | kLastSequence | kCompactPointer | kDeletedFile | kNewFile
  | kPrevLogNumber

fun tag_number :: "Tag \<Rightarrow> u32" where
  "tag_number kComparator = 1"
| "tag_number kLogNumber = 2"
| "tag_number kNextFileNumber = 3"
| "tag_number kLastSequence = 4"
| "tag_number kCompactPointer = 5"
| "tag_number kDeletedFile = 6"
| "tag_number kNewFile = 7"
| "tag_number kPrevLogNumber = 9"

definition put_number :: "Tag \<Rightarrow> bool \<Rightarrow> u64 \<Rightarrow> byte list \<Rightarrow> byte list" where
  "put_number t has n dst = (if has then PutVarint64 (PutVarint32 dst (tag_number t)) n else dst)"

definition put_compact_pointer :: "nat \<times> slice \<Rightarrow> byte list \<Rightarrow> byte list" where
  "put_compact_pointer p dst =
     PutLengthPrefixedSlice (PutVarint32 (PutVarint32 dst (tag_number kCompactPointer)) (of_nat (fst p))) (snd p)"

definition put_deleted_file :: "nat \<times> u64 \<Rightarrow> byte list \<Rightarrow> byte list" where
  "put_deleted_file p dst = PutVarint64 (PutVarint32 (PutVarint32 dst (tag_number kDeletedFile)) (of_nat (fst p))) (snd p)"

definition put_new_file :: "nat \<times> FileMetaData \<Rightarrow> byte list \<Rightarrow> byte list" where
  "put_new_file p dst =
     (let f = snd p; dst = PutVarint32 dst (tag_number kNewFile); dst = PutVarint32 dst (of_nat (fst p));
          dst = PutVarint64 dst (fm_number f); dst = PutVarint64 dst (file_size f);
          dst = PutLengthPrefixedSlice dst (smallest f)
      in PutLengthPrefixedSlice dst (largest f))"

definition edit_EncodeTo :: "VersionEdit \<Rightarrow> byte list \<Rightarrow> byte list" where
  "edit_EncodeTo E dst =
     (let dst = (if has_comparator E then PutLengthPrefixedSlice (PutVarint32 dst (tag_number kComparator)) (ve_comparator E) else dst);
          dst = put_number kLogNumber (has_log_number E) (log_number E) dst;
          dst = put_number kPrevLogNumber (has_prev_log_number E) (prev_log_number E) dst;
          dst = put_number kNextFileNumber (has_next_file_number E) (next_file_number E) dst;
          dst = put_number kLastSequence (has_last_sequence E) (last_sequence E) dst;
          dst = fold put_compact_pointer (compact_pointers E) dst;
          dst = fold put_deleted_file (sorted_list_of_set (deleted_files E)) dst
      in fold put_new_file (new_files E) dst)"

section \<open>Decoding\<close>

definition kNumLevels :: nat where "kNumLevels = 7"

definition GetInternalKey :: "slice \<Rightarrow> (slice \<times> slice) option" where
  "GetInternalKey inp = GetLengthPrefixedSlice inp"

definition GetLevel :: "slice \<Rightarrow> (nat \<times> slice) option" where
  "GetLevel inp =
     (case GetVarint32 inp of
        Some (v, inp) \<Rightarrow> if v < of_nat kNumLevels then Some (unat v, inp) else None
      | None \<Rightarrow> None)"

text \<open>One case of the switch: the edit and the rest of the input, or the message.\<close>

definition decode_number :: "(u64 \<Rightarrow> VersionEdit) \<Rightarrow> string \<Rightarrow> slice \<Rightarrow> string + VersionEdit \<times> slice" where
  "decode_number upd msg inp = (case GetVarint64 inp of Some (n, inp) \<Rightarrow> Inr (upd n, inp) | None \<Rightarrow> Inl msg)"

definition decode_tag_case :: "u32 \<Rightarrow> VersionEdit \<Rightarrow> slice \<Rightarrow> string + VersionEdit \<times> slice" where
  "decode_tag_case tg E inp =
     (if tg = tag_number kComparator then
        (case GetLengthPrefixedSlice inp of
           Some (str, inp) \<Rightarrow> Inr (E\<lparr>ve_comparator := str, has_comparator := True\<rparr>, inp)
         | None \<Rightarrow> Inl ''comparator name'')
      else if tg = tag_number kLogNumber then
        decode_number (\<lambda>n. E\<lparr>log_number := n, has_log_number := True\<rparr>) ''log number'' inp
      else if tg = tag_number kPrevLogNumber then
        decode_number (\<lambda>n. E\<lparr>prev_log_number := n, has_prev_log_number := True\<rparr>) ''previous log number'' inp
      else if tg = tag_number kNextFileNumber then
        decode_number (\<lambda>n. E\<lparr>next_file_number := n, has_next_file_number := True\<rparr>) ''next file number'' inp
      else if tg = tag_number kLastSequence then
        decode_number (\<lambda>n. E\<lparr>last_sequence := n, has_last_sequence := True\<rparr>) ''last sequence number'' inp
      else if tg = tag_number kCompactPointer then
        (case do { (level, inp) \<leftarrow> GetLevel inp; (key, inp) \<leftarrow> GetInternalKey inp; Some (level, key, inp) } of
           Some (level, key, inp) \<Rightarrow> Inr (E\<lparr>compact_pointers := compact_pointers E @ [(level, key)]\<rparr>, inp)
         | None \<Rightarrow> Inl ''compaction pointer'')
      else if tg = tag_number kDeletedFile then
        (case do { (level, inp) \<leftarrow> GetLevel inp; (num, inp) \<leftarrow> GetVarint64 inp; Some (level, num, inp) } of
           Some (level, num, inp) \<Rightarrow> Inr (E\<lparr>deleted_files := insert (level, num) (deleted_files E)\<rparr>, inp)
         | None \<Rightarrow> Inl ''deleted file'')
      else if tg = tag_number kNewFile then
        (case do {
             (level, inp) \<leftarrow> GetLevel inp; (num, inp) \<leftarrow> GetVarint64 inp; (fsize, inp) \<leftarrow> GetVarint64 inp;
             (sm, inp) \<leftarrow> GetInternalKey inp; (la, inp) \<leftarrow> GetInternalKey inp;
             Some (level, new_FileMetaData num fsize sm la, inp) } of
           Some (level, f, inp) \<Rightarrow> Inr (E\<lparr>new_files := new_files E @ [(level, f)]\<rparr>, inp)
         | None \<Rightarrow> Inl ''new-file entry'')
      else Inl ''unknown tag'')"

lemma get_shorter:
  "GetVarint64 inp = Some (n, p) \<Longrightarrow> length p < length inp"
  "GetVarint32 inp = Some (v, p) \<Longrightarrow> length p < length inp"
  "GetLevel inp = Some (l, p) \<Longrightarrow> length p < length inp"
  "GetInternalKey inp = Some (k, p) \<Longrightarrow> length p < length inp"
proof -
  show v: "GetVarint32 inp = Some (v, p) \<Longrightarrow> length p < length inp" for v
    by (auto dest!: GetVarint32_split)
  show "GetVarint64 inp = Some (n, p) \<Longrightarrow> length p < length inp"
    by (auto dest!: GetVarint64_split)
  show "GetLevel inp = Some (l, p) \<Longrightarrow> length p < length inp"
    by (auto simp: GetLevel_def dest: v split: option.splits if_splits)
  show "GetInternalKey inp = Some (k, p) \<Longrightarrow> length p < length inp"
    unfolding GetInternalKey_def by (rule GetLengthPrefixedSlice_shorter)
qed

lemma decode_tag_case_shorter: "decode_tag_case tg E inp = Inr (E', p) \<Longrightarrow> length p < length inp"
  by (auto simp: decode_tag_case_def decode_number_def bind_Some_iff split: if_splits option.splits prod.splits
      dest!: get_shorter GetLengthPrefixedSlice_shorter)

function edit_loop :: "VersionEdit \<Rightarrow> slice \<Rightarrow> string option \<times> VersionEdit \<times> slice" where
  "edit_loop E inp =
     (case GetVarint32 inp of
        None \<Rightarrow> (None, E, inp)
      | Some (tg, inp) \<Rightarrow>
          (case decode_tag_case tg E inp of
             Inl msg \<Rightarrow> (Some msg, E, inp)
           | Inr (E, inp) \<Rightarrow> edit_loop E inp))"
  by pat_completeness auto
termination
  by (relation "measure (\<lambda>(E, inp). length inp)") (auto dest!: get_shorter decode_tag_case_shorter)

declare edit_loop.simps [simp del]

definition edit_DecodeFrom :: "VersionEdit \<Rightarrow> slice \<Rightarrow> Status \<times> VersionEdit" where
  "edit_DecodeFrom E src =
     (let (msg, E, inp) = edit_loop (edit_Clear E) src;
          msg = (if msg = None \<and> inp \<noteq> [] then Some ''invalid tag'' else msg)
      in case msg of None \<Rightarrow> (Status_OK, E) | Some m \<Rightarrow> (Status_Corruption (chars ''VersionEdit'') (chars m), E))"

section \<open>Decoding what was encoded\<close>

lemma loop_step:
  assumes "decode_tag_case (tag_number t) E q = Inr (E', p)"
  shows "edit_loop E (EncodeVarint32 (tag_number t) @ q) = edit_loop E' p"
  by (subst edit_loop.simps) (simp add: assms)

lemma tag_numbers [simp]: "tag_number t = tag_number u \<longleftrightarrow> t = u"
  by (cases t; cases u; simp)

declare tag_number.simps [simp del]

lemma GetLevel_put: "l < kNumLevels \<Longrightarrow> GetLevel (EncodeVarint32 (of_nat l) @ p) = Some (l, p)"
  by (simp add: GetLevel_def kNumLevels_def word_less_nat_alt unat_of_nat)

lemma GetInternalKey_put: "length k < 2 ^ 32 \<Longrightarrow> GetInternalKey (EncodeVarint32 (of_nat (length k)) @ k @ p) = Some (k, p)"
  by (simp add: GetInternalKey_def)

lemmas put_defs = PutVarint32_def PutVarint64_def PutLengthPrefixedSlice_def

lemma put_append:
  "put_number t b n dst = dst @ put_number t b n []"
  "put_compact_pointer c dst = dst @ put_compact_pointer c []"
  "put_deleted_file d dst = dst @ put_deleted_file d []"
  "put_new_file f dst = dst @ put_new_file f []"
  by (simp_all add: put_number_def put_compact_pointer_def put_deleted_file_def put_new_file_def Let_def put_defs)

lemma fold_put:
  assumes "\<And>x dst. put x dst = dst @ put x []"
  shows "fold put xs dst = dst @ concat (map (\<lambda>x. put x []) xs)"
proof (induction xs arbitrary: dst)
  case (Cons x xs)
  then show ?case using assms [of x dst] by simp
qed simp

lemma loop_numbers:
  "edit_loop E (put_number kLogNumber b n [] @ p) =
     edit_loop (E\<lparr>log_number := if b then n else log_number E, has_log_number := b \<or> has_log_number E\<rparr>) p"
  "edit_loop E (put_number kPrevLogNumber b n [] @ p) =
     edit_loop (E\<lparr>prev_log_number := if b then n else prev_log_number E, has_prev_log_number := b \<or> has_prev_log_number E\<rparr>) p"
  "edit_loop E (put_number kNextFileNumber b n [] @ p) =
     edit_loop (E\<lparr>next_file_number := if b then n else next_file_number E, has_next_file_number := b \<or> has_next_file_number E\<rparr>) p"
  "edit_loop E (put_number kLastSequence b n [] @ p) =
     edit_loop (E\<lparr>last_sequence := if b then n else last_sequence E, has_last_sequence := b \<or> has_last_sequence E\<rparr>) p"
  by (cases b; simp add: put_number_def put_defs loop_step decode_tag_case_def decode_number_def)+

lemma loop_comparator:
  assumes "length c < 2 ^ 32"
  shows "edit_loop E ((if b then PutLengthPrefixedSlice (PutVarint32 [] (tag_number kComparator)) c else []) @ p) =
    edit_loop (E\<lparr>ve_comparator := if b then c else ve_comparator E, has_comparator := b \<or> has_comparator E\<rparr>) p"
  using assms by (cases b) (simp_all add: put_defs loop_step decode_tag_case_def)

lemma loop_compact_pointers:
  "list_all (\<lambda>(l, k). l < kNumLevels \<and> length k < 2 ^ 32) cs \<Longrightarrow>
   edit_loop E (concat (map (\<lambda>x. put_compact_pointer x []) cs) @ p) =
   edit_loop (E\<lparr>compact_pointers := compact_pointers E @ cs\<rparr>) p"
proof (induction cs arbitrary: E)
  case (Cons c cs)
  obtain l k where c: "c = (l, k)" by (cases c)
  let ?q = "concat (map (\<lambda>x. put_compact_pointer x []) cs) @ p"
  have "decode_tag_case (tag_number kCompactPointer) E (EncodeVarint32 (of_nat l) @ EncodeVarint32 (of_nat (length k)) @ k @ ?q) =
      Inr (E\<lparr>compact_pointers := compact_pointers E @ [(l, k)]\<rparr>, ?q)"
    using Cons.prems unfolding c
    by (simp only: decode_tag_case_def tag_numbers Tag.distinct if_True if_False) (simp add: GetLevel_put GetInternalKey_put)
  from loop_step [OF this] Cons show ?case by (simp add: c put_compact_pointer_def put_defs)
qed simp

lemma loop_deleted_files:
  "list_all (\<lambda>(l, n). l < kNumLevels) ds \<Longrightarrow>
   edit_loop E (concat (map (\<lambda>x. put_deleted_file x []) ds) @ p) =
   edit_loop (E\<lparr>deleted_files := deleted_files E \<union> set ds\<rparr>) p"
proof (induction ds arbitrary: E)
  case (Cons d ds)
  obtain l n where d: "d = (l, n)" by (cases d)
  let ?q = "concat (map (\<lambda>x. put_deleted_file x []) ds) @ p"
  have "decode_tag_case (tag_number kDeletedFile) E (EncodeVarint32 (of_nat l) @ EncodeVarint64 n @ ?q) =
      Inr (E\<lparr>deleted_files := insert (l, n) (deleted_files E)\<rparr>, ?q)"
    using Cons.prems unfolding d
    by (simp only: decode_tag_case_def tag_numbers Tag.distinct if_True if_False) (simp add: GetLevel_put)
  from loop_step [OF this] Cons show ?case by (simp add: d put_deleted_file_def put_defs)
qed simp

definition new_file_ok :: "nat \<times> FileMetaData \<Rightarrow> bool" where
  "new_file_ok p \<longleftrightarrow> fst p < kNumLevels \<and> length (smallest (snd p)) < 2 ^ 32 \<and> length (largest (snd p)) < 2 ^ 32 \<and>
     fm_refs (snd p) = 0 \<and> allowed_seeks (snd p) = 2 ^ 30"

lemma loop_new_files:
  "list_all new_file_ok fs \<Longrightarrow>
   edit_loop E (concat (map (\<lambda>x. put_new_file x []) fs) @ p) = edit_loop (E\<lparr>new_files := new_files E @ fs\<rparr>) p"
proof (induction fs arbitrary: E)
  case (Cons f fs)
  obtain l m where f: "f = (l, m)" by (cases f)
  let ?q = "concat (map (\<lambda>x. put_new_file x []) fs) @ p"
  have m: "m = new_FileMetaData (fm_number m) (file_size m) (smallest m) (largest m)"
    using Cons.prems by (simp add: f new_file_ok_def new_FileMetaData_def)
  have "decode_tag_case (tag_number kNewFile) E (EncodeVarint32 (of_nat l) @ EncodeVarint64 (fm_number m) @ EncodeVarint64 (file_size m) @
        EncodeVarint32 (of_nat (length (smallest m))) @ smallest m @ EncodeVarint32 (of_nat (length (largest m))) @ largest m @ ?q) =
      Inr (E\<lparr>new_files := new_files E @ [(l, m)]\<rparr>, ?q)"
    using Cons.prems m [symmetric] unfolding f
    by (simp only: decode_tag_case_def tag_numbers Tag.distinct if_True if_False)
      (simp add: GetLevel_put GetInternalKey_put new_file_ok_def)
  from loop_step [OF this] Cons show ?case by (simp add: f put_new_file_def put_defs Let_def)
qed simp

text \<open>
  The edits that the functions above build: the levels exist, the strings fit 32-bit lengths, and a
  number that was not set has its initial value.
\<close>

definition edit_ok :: "VersionEdit \<Rightarrow> bool" where
  "edit_ok E \<longleftrightarrow> length (ve_comparator E) < 2 ^ 32 \<and> finite (deleted_files E) \<and>
     list_all (\<lambda>(l, k). l < kNumLevels \<and> length k < 2 ^ 32) (compact_pointers E) \<and>
     (\<forall>(l, n) \<in> deleted_files E. l < kNumLevels) \<and> list_all new_file_ok (new_files E) \<and>
     (has_comparator E \<or> ve_comparator E = []) \<and> (has_log_number E \<or> log_number E = 0) \<and>
     (has_prev_log_number E \<or> prev_log_number E = 0) \<and> (has_next_file_number E \<or> next_file_number E = 0) \<and>
     (has_last_sequence E \<or> last_sequence E = 0)"

lemma edit_EncodeTo_parts:
  "edit_EncodeTo E [] =
     (if has_comparator E then PutLengthPrefixedSlice (PutVarint32 [] (tag_number kComparator)) (ve_comparator E) else []) @
     put_number kLogNumber (has_log_number E) (log_number E) [] @
     put_number kPrevLogNumber (has_prev_log_number E) (prev_log_number E) [] @
     put_number kNextFileNumber (has_next_file_number E) (next_file_number E) [] @
     put_number kLastSequence (has_last_sequence E) (last_sequence E) [] @
     concat (map (\<lambda>x. put_compact_pointer x []) (compact_pointers E)) @
     concat (map (\<lambda>x. put_deleted_file x []) (sorted_list_of_set (deleted_files E))) @
     concat (map (\<lambda>x. put_new_file x []) (new_files E))"
  unfolding edit_EncodeTo_def Let_def
  by (subst fold_put [of put_new_file, OF put_append(4)], subst fold_put [of put_deleted_file, OF put_append(3)],
      subst fold_put [of put_compact_pointer, OF put_append(2)],
      subst put_append(1) [of kLastSequence], subst put_append(1) [of kNextFileNumber],
      subst put_append(1) [of kPrevLogNumber], subst put_append(1) [of kLogNumber]) simp

lemma edit_loop_Nil: "edit_loop E [] = (None, E, [])"
  by (subst edit_loop.simps) (simp add: GetVarint32_def GetVarint32_fast)

lemma edit_Decode_Encode:
  assumes "edit_ok E"
  shows "edit_DecodeFrom E0 (edit_EncodeTo E []) = (Status_OK, E\<lparr>compact_pointers := compact_pointers E0 @ compact_pointers E\<rparr>)"
proof -
  have ok: "length (ve_comparator E) < 2 ^ 32" "list_all (\<lambda>(l, k). l < kNumLevels \<and> length k < 2 ^ 32) (compact_pointers E)"
    "list_all (\<lambda>(l, n). l < kNumLevels) (sorted_list_of_set (deleted_files E))" "list_all new_file_ok (new_files E)"
    "set (sorted_list_of_set (deleted_files E)) = deleted_files E"
    using assms by (auto simp: edit_ok_def list_all_iff)
  have unset: "\<not> has_comparator E \<Longrightarrow> ve_comparator E = []" "\<not> has_log_number E \<Longrightarrow> log_number E = 0"
    "\<not> has_prev_log_number E \<Longrightarrow> prev_log_number E = 0" "\<not> has_next_file_number E \<Longrightarrow> next_file_number E = 0"
    "\<not> has_last_sequence E \<Longrightarrow> last_sequence E = 0"
    using assms by (auto simp: edit_ok_def)
  note steps = loop_comparator [OF ok(1)] loop_numbers loop_compact_pointers [OF ok(2)] loop_deleted_files [OF ok(3)]
    loop_new_files [OF ok(4), of _ "[]", simplified]
  have "edit_loop (edit_Clear E0) (edit_EncodeTo E []) = (None, E\<lparr>compact_pointers := compact_pointers E0 @ compact_pointers E\<rparr>, [])"
    unfolding edit_EncodeTo_parts steps edit_loop_Nil edit_Clear_def
    by (intro arg_cong2 [of _ _ _ _ Pair] refl VersionEdit.equality) (simp_all add: ok(5) unset)
  then show ?thesis by (simp add: edit_DecodeFrom_def)
qed

text \<open>The operations keep what the encoding needs.\<close>

lemma edit_ok_preserved:
  "edit_ok new_VersionEdit"
  "edit_ok E \<Longrightarrow> length c < 2 ^ 32 \<Longrightarrow> edit_ok (SetComparatorName E c)"
  "edit_ok E \<Longrightarrow> edit_ok (SetLogNumber E n)" "edit_ok E \<Longrightarrow> edit_ok (SetPrevLogNumber E n)"
  "edit_ok E \<Longrightarrow> edit_ok (SetNextFile E n)" "edit_ok E \<Longrightarrow> edit_ok (SetLastSequence E n)"
  "edit_ok E \<Longrightarrow> l < kNumLevels \<Longrightarrow> length k < 2 ^ 32 \<Longrightarrow> edit_ok (SetCompactPointer E l k)"
  "edit_ok E \<Longrightarrow> l < kNumLevels \<Longrightarrow> edit_ok (DeleteFile E l n)"
  "edit_ok E \<Longrightarrow> l < kNumLevels \<Longrightarrow> length a < 2 ^ 32 \<Longrightarrow> length b < 2 ^ 32 \<Longrightarrow> edit_ok (AddFile E l n fs a b)"
  by (auto simp: edit_ok_def new_VersionEdit_def edit_Clear_def SetComparatorName_def SetLogNumber_def SetPrevLogNumber_def
      SetNextFile_def SetLastSequence_def SetCompactPointer_def DeleteFile_def AddFile_def new_file_ok_def new_FileMetaData_def)



end
