(* ===== verification/LDB_Format.thy ===== *)
theory LDB_Format
  imports LDB_Coding LDB_Status LDB_Crc32c
begin

text \<open>
  The format of table files (\<open>format.h\<close>, \<open>format.cc\<close>): block handles, the footer, and reading a block.
\<close>

section \<open>Block handles\<close>

record BlockHandle =
  bh_offset :: u64
  bh_size :: u64

definition new_BlockHandle :: BlockHandle where
  "new_BlockHandle = \<lparr>bh_offset = NOT 0, bh_size = NOT 0\<rparr>"

definition kMaxEncodedLength :: nat where "kMaxEncodedLength = 10 + 10"

definition BlockHandle_EncodeTo :: "BlockHandle \<Rightarrow> byte list \<Rightarrow> byte list" where
  "BlockHandle_EncodeTo h dst = PutVarint64 (PutVarint64 dst (bh_offset h)) (bh_size h)"

text \<open>
  The handle and the rest of the input; a handle whose second number is missing has the first one
  already stored.
\<close>

definition BlockHandle_DecodeFrom :: "BlockHandle \<Rightarrow> slice \<Rightarrow> Status \<times> BlockHandle \<times> slice" where
  "BlockHandle_DecodeFrom h inp =
     (case GetVarint64 inp of
        None \<Rightarrow> (Status_Corruption (chars ''bad block handle'') [], h, inp)
      | Some (n, inp) \<Rightarrow>
          let h = h\<lparr>bh_offset := n\<rparr> in
          (case GetVarint64 inp of
             None \<Rightarrow> (Status_Corruption (chars ''bad block handle'') [], h, inp)
           | Some (n, inp) \<Rightarrow> (Status_OK, h\<lparr>bh_size := n\<rparr>, inp)))"

section \<open>The footer\<close>

record Footer =
  metaindex_handle :: BlockHandle
  index_handle :: BlockHandle

definition kEncodedLength :: nat where "kEncodedLength = 2 * kMaxEncodedLength + 8"
definition kTableMagicNumber :: u64 where "kTableMagicNumber = 0xdb4775248b80fb57"

text \<open>\<open>std::string::resize\<close>, which cuts the string or fills it with zeros.\<close>

definition str_resize :: "byte list \<Rightarrow> nat \<Rightarrow> byte list" where
  "str_resize s n = take n s @ replicate (n - length s) 0"

definition Footer_EncodeTo :: "Footer \<Rightarrow> byte list \<Rightarrow> byte list" where
  "Footer_EncodeTo f dst =
     (let dst = BlockHandle_EncodeTo (metaindex_handle f) dst;
          dst = BlockHandle_EncodeTo (index_handle f) dst;
          dst = str_resize dst (2 * kMaxEncodedLength);
          dst = PutFixed32 dst (ucast (kTableMagicNumber AND 0xFFFFFFFF));
          dst = PutFixed32 dst (ucast (drop_bit 32 kTableMagicNumber))
      in dst)"

text \<open>\<open>None\<close> is an input shorter than the footer, which the function would read beyond its end.\<close>

definition Footer_DecodeFrom :: "Footer \<Rightarrow> slice \<Rightarrow> (Status \<times> Footer \<times> slice) option" where
  "Footer_DecodeFrom f inp =
     (if length inp < kEncodedLength then None
      else
        let magic_ptr = drop (kEncodedLength - 8) inp;
            magic_lo = (le_word (take 4 magic_ptr) :: u32);
            magic_hi = (le_word (take 4 (drop 4 magic_ptr)) :: u32);
            magic = push_bit 32 (ucast magic_hi) OR (ucast magic_lo :: u64)
        in Some
          (if magic \<noteq> kTableMagicNumber
           then (Status_Corruption (chars ''not an sstable (bad magic number)'') [], f, inp)
           else
             let (result, h, rest) = BlockHandle_DecodeFrom (metaindex_handle f) inp;
                 f = f\<lparr>metaindex_handle := h\<rparr>
             in if status_ok result then
                  let (result, h, rest) = BlockHandle_DecodeFrom (index_handle f) rest;
                      f = f\<lparr>index_handle := h\<rparr>
                  in (result, f, if status_ok result then drop 8 magic_ptr else rest)
                else (result, f, rest)))"

section \<open>Reading a block\<close>

definition kBlockTrailerSize :: nat where "kBlockTrailerSize = 5"

datatype CompressionType = kNoCompression | kSnappyCompression

fun compression_byte :: "CompressionType \<Rightarrow> byte" where
  "compression_byte kNoCompression = 0"
| "compression_byte kSnappyCompression = 1"

record BlockContents =
  bc_data :: slice
  cachable :: bool
  heap_allocated :: bool

text \<open>
  The file and the decompression are parameters: \<open>Read offset n\<close> gives the status, the bytes and whether
  they are in the buffer of the caller, or \<open>None\<close> for bytes outside the memory of the file; \<open>uncompress\<close> is \<open>None\<close> where \<open>Snappy_GetUncompressedLength\<close> or
  \<open>Snappy_Uncompress\<close> returns false. The length of the read is computed with wrap-around; the result is
  \<open>None\<close> where the function reads beyond what the file returned.
\<close>

definition ReadBlock ::
  "(u64 \<Rightarrow> u64 \<Rightarrow> (Status \<times> slice \<times> bool) option) \<Rightarrow> (slice \<Rightarrow> byte list option) \<Rightarrow> bool \<Rightarrow> BlockHandle \<Rightarrow>
   (Status \<times> BlockContents) option" where
  "ReadBlock Read uncompress verify_checksums handle =
     (let result = \<lparr>bc_data = [], cachable = False, heap_allocated = False\<rparr>;
          n = unat (bh_size handle); len = bh_size handle + of_nat kBlockTrailerSize in do {
        (s, contents, in_buf) \<leftarrow> Read (bh_offset handle) len;
        if \<not> status_ok s then Some (s, result)
        else if length contents \<noteq> unat len
        then Some (Status_Corruption (chars ''truncated block read'') [], result)
        else if length contents < n + kBlockTrailerSize then None
        else if verify_checksums \<and> Value 0 (take (n + 1) contents) \<noteq> Unmask (le_word (take 4 (drop (n + 1) contents)))
        then Some (Status_Corruption (chars ''block checksum mismatch'') [], result)
        else if contents ! n = compression_byte kNoCompression then
          Some (Status_OK, \<lparr>bc_data = take n contents, cachable = in_buf, heap_allocated = in_buf\<rparr>)
        else if contents ! n = compression_byte kSnappyCompression then
          (case uncompress (take n contents) of
             None \<Rightarrow> Some (Status_Corruption (chars ''corrupted compressed block contents'') [], result)
           | Some d \<Rightarrow> Some (Status_OK, \<lparr>bc_data = d, cachable = True, heap_allocated = True\<rparr>))
        else Some (Status_Corruption (chars ''bad block type'') [], result) })"

section \<open>Handles and footers are read back\<close>

lemma BlockHandle_Decode_Encode:
  "BlockHandle_DecodeFrom g (BlockHandle_EncodeTo h [] @ p) = (Status_OK, h, p)"
  by (simp add: BlockHandle_EncodeTo_def BlockHandle_DecodeFrom_def PutVarint64_def Let_def)

lemma BlockHandle_EncodeTo_append: "BlockHandle_EncodeTo h dst = dst @ BlockHandle_EncodeTo h []"
  by (simp add: BlockHandle_EncodeTo_def PutVarint64_def)

lemma length_BlockHandle: "length (BlockHandle_EncodeTo h []) \<le> kMaxEncodedLength"
  using length_EncodeVarint(2) [of "bh_offset h"] length_EncodeVarint(2) [of "bh_size h"]
  by (simp add: BlockHandle_EncodeTo_def PutVarint64_def kMaxEncodedLength_def)

lemma Footer_EncodeTo_Nil:
  obtains z where "Footer_EncodeTo f [] = BlockHandle_EncodeTo (metaindex_handle f) [] @ BlockHandle_EncodeTo (index_handle f) [] @ z @
      EncodeFixed32 0x8b80fb57 @ EncodeFixed32 0xdb477524"
    and "length (BlockHandle_EncodeTo (metaindex_handle f) [] @ BlockHandle_EncodeTo (index_handle f) [] @ z) = 2 * kMaxEncodedLength"
proof
  let ?a = "BlockHandle_EncodeTo (metaindex_handle f) []" and ?b = "BlockHandle_EncodeTo (index_handle f) []"
  let ?z = "replicate (2 * kMaxEncodedLength - length (?a @ ?b)) 0 :: byte list"
  have l: "length (?a @ ?b) \<le> 2 * kMaxEncodedLength"
    using length_BlockHandle [of "metaindex_handle f"] length_BlockHandle [of "index_handle f"] by simp
  show "Footer_EncodeTo f [] = ?a @ ?b @ ?z @ EncodeFixed32 0x8b80fb57 @ EncodeFixed32 0xdb477524"
    using l unfolding Footer_EncodeTo_def Let_def
    by (subst BlockHandle_EncodeTo_append [of "index_handle f"])
      (simp add: str_resize_def PutFixed32_def kTableMagicNumber_def)
  show "length (?a @ ?b @ ?z) = 2 * kMaxEncodedLength" using l by simp
qed

lemma Footer_Decode_Encode:
  "Footer_DecodeFrom g (Footer_EncodeTo f [] @ p) = Some (Status_OK, f, p)" "length (Footer_EncodeTo f []) = kEncodedLength"
proof -
  let ?a = "BlockHandle_EncodeTo (metaindex_handle f) []" and ?b = "BlockHandle_EncodeTo (index_handle f) []"
  obtain z where e: "Footer_EncodeTo f [] = ?a @ ?b @ z @ EncodeFixed32 0x8b80fb57 @ EncodeFixed32 0xdb477524"
    and l: "length (?a @ ?b @ z) = 2 * kMaxEncodedLength" by (rule Footer_EncodeTo_Nil)
  show "length (Footer_EncodeTo f []) = kEncodedLength" unfolding e using l by (simp add: kEncodedLength_def)
  have "drop (kEncodedLength - 8) (Footer_EncodeTo f [] @ p) = EncodeFixed32 0x8b80fb57 @ EncodeFixed32 0xdb477524 @ p"
    unfolding e using l by (simp add: kEncodedLength_def)
  then show "Footer_DecodeFrom g (Footer_EncodeTo f [] @ p) = Some (Status_OK, f, p)"
    using l unfolding Footer_DecodeFrom_def Let_def e
    by (simp add: BlockHandle_Decode_Encode kEncodedLength_def EncodeFixed32_def kTableMagicNumber_def)
qed

section \<open>Reading a block stays inside what was read\<close>

lemma trailer_no_wrap: "unat (n :: u64) + kBlockTrailerSize < 2 ^ 64 \<Longrightarrow> unat (n + of_nat kBlockTrailerSize) = unat n + kBlockTrailerSize"
  by (simp add: kBlockTrailerSize_def unat_word_ariths)

lemma ReadBlock_Some:
  assumes "unat (bh_size h) + kBlockTrailerSize < 2 ^ 64" "Read (bh_offset h) (bh_size h + of_nat kBlockTrailerSize) = Some r"
  shows "ReadBlock Read uncompress v h \<noteq> None"
  using trailer_no_wrap [OF assms(1)] assms(2) by (auto simp: ReadBlock_def Let_def split: prod.splits option.splits)

text \<open>
  For a handle whose size is close to \<open>2 ^ 64\<close> the length of the read wraps around, and the function reads
  beyond the few bytes it got.
\<close>

lemma ReadBlock_wraps:
  "ReadBlock (\<lambda>o1 n. Some (Status_OK, replicate (unat n) 0, True)) uncompress v \<lparr>bh_offset = 0, bh_size = - 5\<rparr> = None"
  by (simp add: ReadBlock_def kBlockTrailerSize_def)

section \<open>The properties of the table format\<close>

text \<open>
  A footer is read back from its encoding, whatever follows it, and has always the same length.
\<close>

lemma footer_roundtrip:
  "Footer_DecodeFrom g (Footer_EncodeTo f [] @ p) = Some (Status_OK, f, p) \<and> length (Footer_EncodeTo f []) = kEncodedLength"
  by (simp add: Footer_Decode_Encode)

text \<open>
  C24. Reading a block whose size does not make the length of the read wrap around never looks beyond the
  bytes that the file returned, and when the result is good and checksums are verified, the bytes carry
  the masked CRC of the block and its type byte, and the contents are the block or its decompression.
\<close>

theorem ReadBlock_checked:
  assumes "unat (bh_size h) + kBlockTrailerSize < 2 ^ 64" "Read (bh_offset h) (bh_size h + of_nat kBlockTrailerSize) = Some (s1, d, in_buf)"
  shows "\<exists>s c. ReadBlock Read uncompress True h = Some (s, c) \<and>
    (status_ok s \<longrightarrow>
      (\<exists>b t m. s1 = Status_OK \<and> d = b @ [t] @ m \<and>
        length b = unat (bh_size h) \<and> length m = 4 \<and> Unmask (le_word m) = crc32c 0 (b @ [t]) \<and>
        (t = compression_byte kNoCompression \<and> bc_data c = b \<or>
         t = compression_byte kSnappyCompression \<and> uncompress b = Some (bc_data c))))"
proof -
  let ?n = "unat (bh_size h)"
  obtain s c where r: "ReadBlock Read uncompress True h = Some (s, c)"
    using ReadBlock_Some [where Read = Read and h = h, OF assms] by (metis not_None_eq surj_pair)
  have "s1 = Status_OK \<and> length d = ?n + kBlockTrailerSize \<and>
      Value 0 (take (?n + 1) d) = Unmask (le_word (take 4 (drop (?n + 1) d))) \<and>
      (d ! ?n = compression_byte kNoCompression \<and> bc_data c = take ?n d \<or>
       d ! ?n = compression_byte kSnappyCompression \<and> uncompress (take ?n d) = Some (bc_data c))"
    if "status_ok s"
    using r that assms(2) unfolding ReadBlock_def Let_def trailer_no_wrap [OF assms(1)]
    by (auto simp: status_ok_def Status_OK_def new_Status_def Let_def trailer_no_wrap [OF assms(1)] split: if_splits option.splits)
  moreover have "d = take ?n d @ [d ! ?n] @ drop (?n + 1) d \<and> take (?n + 1) d = take ?n d @ [d ! ?n]"
    if "length d = ?n + kBlockTrailerSize"
    using that by (simp add: kBlockTrailerSize_def take_Suc_conv_app_nth id_take_nth_drop [symmetric])
  ultimately show ?thesis
    using r
    by (intro exI [of _ s] exI [of _ c] conjI impI exI [of _ "take ?n d"] exI [of _ "d ! ?n"] exI [of _ "drop (?n + 1) d"])
      (auto simp: kBlockTrailerSize_def Value_def Extend_crc32c)
qed

theorem ReadBlock_checked_witness:
  "\<exists>s c. ReadBlock (\<lambda>o1 n. Some (Status_OK, [7, 8, 0] @ EncodeFixed32 (Mask (crc32c 0 [7, 8, 0])), True)) Some True
      \<lparr>bh_offset = 0, bh_size = 2\<rparr> = Some (s, c)"
  using ReadBlock_checked [of "\<lparr>bh_offset = 0, bh_size = 2\<rparr>"
      "\<lambda>o1 n. Some (Status_OK, [7, 8, 0] @ EncodeFixed32 (Mask (crc32c 0 [7, 8, 0])), True)" Status_OK
      "[7, 8, 0] @ EncodeFixed32 (Mask (crc32c 0 [7, 8, 0]))" True Some]
  by (auto simp: kBlockTrailerSize_def)

end
