(* ===== verification/LDB_Block.thy ===== *)
theory LDB_Block
  imports LDB_Coding LDB_Status
begin

text \<open>
  Blocks of a table: their builder (\<open>block_builder.cc\<close>), which drops the prefix a key shares with the one
  before it, and their iterator (\<open>block.cc\<close>), with its binary search over the restart points.
\<close>

section \<open>The builder\<close>

record BlockBuilder =
  bb_buffer :: "byte list"
  restarts :: "u32 list"
  counter :: nat
  finished :: bool
  last_key :: slice

definition new_BlockBuilder :: BlockBuilder where
  "new_BlockBuilder = \<lparr>bb_buffer = [], restarts = [0], counter = 0, finished = False, last_key = []\<rparr>"

definition builder_Reset :: "BlockBuilder \<Rightarrow> BlockBuilder" where
  "builder_Reset b = b\<lparr>bb_buffer := [], restarts := [0], counter := 0, finished := False, last_key := []\<rparr>"

definition CurrentSizeEstimate :: "BlockBuilder \<Rightarrow> nat" where
  "CurrentSizeEstimate b = length (bb_buffer b) + length (restarts b) * 4 + 4"

definition builder_Finish :: "BlockBuilder \<Rightarrow> slice \<times> BlockBuilder" where
  "builder_Finish b =
     (let buffer = fold (\<lambda>r dst. PutFixed32 dst r) (restarts b) (bb_buffer b);
          buffer = PutFixed32 buffer (of_nat (length (restarts b)))
      in (buffer, b\<lparr>bb_buffer := buffer, finished := True\<rparr>))"

text \<open>The first argument is the option \<open>block_restart_interval\<close>.\<close>

definition builder_Add :: "nat \<Rightarrow> BlockBuilder \<Rightarrow> slice \<Rightarrow> slice \<Rightarrow> BlockBuilder" where
  "builder_Add interval b key v =
     (let (shared, b) =
            (if counter b < interval then (diff_index (last_key b) key, b)
             else (0, b\<lparr>restarts := restarts b @ [of_nat (length (bb_buffer b))], counter := 0\<rparr>));
          non_shared = length key - shared;
          buffer = PutVarint32 (bb_buffer b) (of_nat shared);
          buffer = PutVarint32 buffer (of_nat non_shared);
          buffer = PutVarint32 buffer (of_nat (length v));
          buffer = buffer @ drop shared key;
          buffer = buffer @ v
      in b\<lparr>bb_buffer := buffer, last_key := take shared (last_key b) @ drop shared key, counter := counter b + 1\<rparr>)"

section \<open>The block\<close>

text \<open>The array, its length as the block uses it, and the offset of the restart array.\<close>

record Block =
  blk_data :: "byte list"
  blk_size :: nat
  restart_offset :: u32

definition NumRestarts :: "byte list \<Rightarrow> u32" where
  "NumRestarts data = le_word (drop (length data - 4) data)"

definition new_Block :: "byte list \<Rightarrow> Block" where
  "new_Block data =
     (if length data < 4 then \<lparr>blk_data = data, blk_size = 0, restart_offset = 0\<rparr>
      else if unat (NumRestarts data) > (length data - 4) div 4 then \<lparr>blk_data = data, blk_size = 0, restart_offset = 0\<rparr>
      else \<lparr>blk_data = data, blk_size = length data,
            restart_offset = of_nat (length data - unat (1 + NumRestarts data) * 4)\<rparr>)"

text \<open>
  \<open>DecodeEntry\<close> on the bytes from \<open>p\<close> to \<open>limit\<close>: the three lengths and the bytes from the key delta on, or
  \<open>None\<close> for \<open>NULL\<close>. The sum of the two lengths wraps around.
\<close>

definition DecodeEntry :: "byte list \<Rightarrow> (u32 \<times> u32 \<times> u32 \<times> byte list) option" where
  "DecodeEntry p =
     (if length p < 3 then None
      else do {
        (shared, non_shared, value_length, q) \<leftarrow>
          (let shared = (ucast (p ! 0) :: u32); non_shared = (ucast (p ! 1) :: u32); value_length = (ucast (p ! 2) :: u32)
           in if shared OR non_shared OR value_length < 128 then Some (shared, non_shared, value_length, drop 3 p)
              else do {
                (shared, p) \<leftarrow> GetVarint32Ptr p;
                (non_shared, p) \<leftarrow> GetVarint32Ptr p;
                (value_length, p) \<leftarrow> GetVarint32Ptr p;
                Some (shared, non_shared, value_length, p) });
        if of_nat (length q) < non_shared + value_length then None else Some (shared, non_shared, value_length, q) })"

section \<open>The iterator\<close>

text \<open>
  The value is its offset in the block and its length; \<open>None\<close> is the empty slice that points elsewhere.
  The functions return \<open>None\<close> where they read outside the block, and where a loop does not end.
\<close>

record BlockIter =
  it_data :: "byte list"
  it_restarts :: u32
  num_restarts :: u32
  current :: u32
  restart_index :: u32
  it_key :: slice
  it_value :: "(nat \<times> nat) option"
  it_status :: Status

definition new_BlockIter :: "byte list \<Rightarrow> u32 \<Rightarrow> u32 \<Rightarrow> BlockIter" where
  "new_BlockIter data rest num =
     \<lparr>it_data = data, it_restarts = rest, num_restarts = num, current = rest, restart_index = num,
      it_key = [], it_value = None, it_status = Status_OK\<rparr>"

definition iter_Valid :: "BlockIter \<Rightarrow> bool" where
  "iter_Valid it \<longleftrightarrow> current it < it_restarts it"

definition iter_value :: "BlockIter \<Rightarrow> slice option" where
  "iter_value it =
     (case it_value it of
        None \<Rightarrow> Some []
      | Some (n, len) \<Rightarrow> if n + len \<le> length (it_data it) then Some (take len (drop n (it_data it))) else None)"

definition NextEntryOffset :: "BlockIter \<Rightarrow> u32 option" where
  "NextEntryOffset it = map_option (\<lambda>(n, len). of_nat (n + len)) (it_value it)"

definition GetRestartPoint :: "BlockIter \<Rightarrow> u32 \<Rightarrow> u32 option" where
  "GetRestartPoint it index = DecodeFixed32 (drop (unat (it_restarts it) + unat index * 4) (it_data it))"

definition SeekToRestartPoint :: "BlockIter \<Rightarrow> u32 \<Rightarrow> BlockIter option" where
  "SeekToRestartPoint it index = do {
     offset \<leftarrow> GetRestartPoint it index;
     Some (it\<lparr>it_key := [], restart_index := index, it_value := Some (unat offset, 0)\<rparr>) }"

definition CorruptionError :: "BlockIter \<Rightarrow> BlockIter" where
  "CorruptionError it = it\<lparr>current := it_restarts it, restart_index := num_restarts it,
     it_status := Status_Corruption (chars ''bad entry in block'') [], it_key := [], it_value := None\<rparr>"

text \<open>The loop at the end of \<open>ParseNextKey\<close>.\<close>

function advance_restart :: "BlockIter \<Rightarrow> BlockIter option" where
  "advance_restart it =
     (if restart_index it + 1 < num_restarts it then
        (case GetRestartPoint it (restart_index it + 1) of
           None \<Rightarrow> None
         | Some r \<Rightarrow> if r < current it then advance_restart (it\<lparr>restart_index := restart_index it + 1\<rparr>) else Some it)
      else Some it)"
  by pat_completeness auto
termination
proof (relation "measure (\<lambda>it. if restart_index it + 1 = 0 then 2 ^ 32 + 1 else 2 ^ 32 - unat (restart_index it))", goal_cases)
  case (2 it r)
  show ?case
  proof (cases "restart_index it + 1 = 0")
    case False
    then have "unat (restart_index it + 1) = unat (restart_index it) + 1" using unatSuc [of "restart_index it"] by (simp add: add.commute)
    moreover have "restart_index it + 1 + 1 \<noteq> 0"
    proof
      assume "restart_index it + 1 + 1 = 0"
      then have "restart_index it + 1 = - 1" by (simp only: eq_neg_iff_add_eq_0)
      then show False using 2(1) word_n1_ge [of "num_restarts it"] by (metis not_less)
    qed
    ultimately show ?thesis using False unat_lt_32 [of "restart_index it"] by simp
  qed simp
qed simp

declare advance_restart.simps [simp del]

definition bytes_between :: "byte list \<Rightarrow> u32 \<Rightarrow> u32 \<Rightarrow> byte list" where
  "bytes_between data p limit = take (unat limit - unat p) (drop (unat p) data)"

definition ParseNextKey :: "BlockIter \<Rightarrow> (bool \<times> BlockIter) option" where
  "ParseNextKey it = do {
     off \<leftarrow> NextEntryOffset it;
     let it = it\<lparr>current := off\<rparr> in
     if current it \<ge> it_restarts it
     then Some (False, it\<lparr>current := it_restarts it, restart_index := num_restarts it\<rparr>)
     else
       (case DecodeEntry (bytes_between (it_data it) (current it) (it_restarts it)) of
          None \<Rightarrow> Some (False, CorruptionError it)
        | Some (shared, non_shared, value_length, q) \<Rightarrow>
            if length (it_key it) < unat shared then Some (False, CorruptionError it)
            else
              let p = unat (it_restarts it) - length q in
              if p + unat non_shared > length (it_data it) then None
              else do {
                it \<leftarrow> advance_restart
                  (it\<lparr>it_key := take (unat shared) (it_key it) @ take (unat non_shared) (drop p (it_data it)),
                      it_value := Some (p + unat non_shared, unat value_length)\<rparr>);
                Some (True, it) }) }"

definition iter_Next :: "BlockIter \<Rightarrow> BlockIter option" where
  "iter_Next it = map_option snd (ParseNextKey it)"

definition iter_SeekToFirst :: "BlockIter \<Rightarrow> BlockIter option" where
  "iter_SeekToFirst it = do { it \<leftarrow> SeekToRestartPoint it 0; (_, it) \<leftarrow> ParseNextKey it; Some it }"

text \<open>\<open>while (ParseNextKey() && NextEntryOffset() < limit)\<close>\<close>

partial_function (option) skip_until :: "u32 \<Rightarrow> BlockIter \<Rightarrow> BlockIter option" where
  "skip_until limit it = do {
     (ok, it) \<leftarrow> ParseNextKey it;
     if ok then do {
       off \<leftarrow> NextEntryOffset it;
       if off < limit then skip_until limit it else Some it }
     else Some it }"

definition iter_SeekToLast :: "BlockIter \<Rightarrow> BlockIter option" where
  "iter_SeekToLast it = do {
     it \<leftarrow> SeekToRestartPoint it (num_restarts it - 1);
     skip_until (it_restarts it) it }"

text \<open>The scan of \<open>Prev\<close> backwards to a restart point: \<open>None\<close> for the index if there is none before the entry.\<close>

partial_function (option) prev_restart :: "BlockIter \<Rightarrow> u32 \<Rightarrow> u32 \<Rightarrow> u32 option option" where
  "prev_restart it original index = do {
     r \<leftarrow> GetRestartPoint it index;
     if r \<ge> original then
       if index = 0 then Some None else prev_restart it original (index - 1)
     else Some (Some index) }"

definition iter_Prev :: "BlockIter \<Rightarrow> BlockIter option" where
  "iter_Prev it = do {
     let original = current it in do {
     found \<leftarrow> prev_restart it original (restart_index it);
     (case found of
        None \<Rightarrow> Some (it\<lparr>current := it_restarts it, restart_index := num_restarts it\<rparr>)
      | Some index \<Rightarrow> do {
          it \<leftarrow> SeekToRestartPoint it index;
          skip_until original it }) } }"

text \<open>The binary search of \<open>Seek\<close>: the restart point, or \<open>None\<close> for a corrupt entry.\<close>

partial_function (option) seek_restart ::
  "(slice \<Rightarrow> slice \<Rightarrow> int) \<Rightarrow> BlockIter \<Rightarrow> slice \<Rightarrow> u32 \<Rightarrow> u32 \<Rightarrow> u32 option option" where
  "seek_restart cmp it target left right =
     (if left < right then
        let mid = (left + right + 1) div 2 in do {
        region_offset \<leftarrow> GetRestartPoint it mid;
        (case DecodeEntry (bytes_between (it_data it) region_offset (it_restarts it)) of
           None \<Rightarrow> Some None
         | Some (shared, non_shared, value_length, q) \<Rightarrow>
             if shared \<noteq> 0 then Some None
             else
               let p = unat (it_restarts it) - length q in
               if p + unat non_shared > length (it_data it) then None
               else if cmp (take (unat non_shared) (drop p (it_data it))) target < 0
               then seek_restart cmp it target mid right
               else seek_restart cmp it target left (mid - 1)) }
      else Some (Some left))"

partial_function (option) seek_linear :: "(slice \<Rightarrow> slice \<Rightarrow> int) \<Rightarrow> BlockIter \<Rightarrow> slice \<Rightarrow> BlockIter option" where
  "seek_linear cmp it target = do {
     (ok, it) \<leftarrow> ParseNextKey it;
     if \<not> ok then Some it
     else if cmp (it_key it) target \<ge> 0 then Some it
     else seek_linear cmp it target }"

definition iter_Seek :: "(slice \<Rightarrow> slice \<Rightarrow> int) \<Rightarrow> BlockIter \<Rightarrow> slice \<Rightarrow> BlockIter option" where
  "iter_Seek cmp it target = do {
     found \<leftarrow> seek_restart cmp it target 0 (num_restarts it - 1);
     (case found of
        None \<Rightarrow> Some (CorruptionError it)
      | Some left \<Rightarrow> do { it \<leftarrow> SeekToRestartPoint it left; seek_linear cmp it target }) }"

text \<open>\<open>NewIterator\<close>: an error, an empty iterator, or an iterator of the block.\<close>

datatype NewIterator = ErrorIterator Status | EmptyIterator | BlockIterator BlockIter

definition block_NewIterator :: "Block \<Rightarrow> NewIterator" where
  "block_NewIterator b =
     (if blk_size b < 4 then ErrorIterator (Status_Corruption (chars ''bad block contents'') [])
      else
        let num = NumRestarts (blk_data b) in
        if num = 0 then EmptyIterator else BlockIterator (new_BlockIter (blk_data b) (restart_offset b) num))"

end
