(* ===== verification/LDB_Block_Correct.thy ===== *)
theory LDB_Block_Correct
  imports LDB_Block
begin

text \<open>
  What the builder of blocks lays out and what the iterator finds in it: the iteration gives back the
  entries, and seeking finds the first entry that is not below its target.
\<close>

section \<open>The layout of a block\<close>

text \<open>An entry is the number of bytes its key shares with the key before it, its key and its value.\<close>

type_synonym entry = "nat \<times> slice \<times> slice"

fun entry_bytes :: "entry \<Rightarrow> byte list" where
  "entry_bytes (s, k, v) =
     EncodeVarint32 (of_nat s) @ EncodeVarint32 (of_nat (length k - s)) @ EncodeVarint32 (of_nat (length v)) @ drop s k @ v"

fun chained :: "slice \<Rightarrow> entry list \<Rightarrow> bool" where
  "chained prev [] \<longleftrightarrow> True"
| "chained prev ((s, k, v) # es) \<longleftrightarrow>
     s \<le> length prev \<and> s \<le> length k \<and> take s prev = take s k \<and> chained k es"

abbreviation shared_of :: "entry \<Rightarrow> nat" where "shared_of e \<equiv> fst e"
abbreviation key_of :: "entry \<Rightarrow> slice" where "key_of e \<equiv> fst (snd e)"
abbreviation value_of :: "entry \<Rightarrow> slice" where "value_of e \<equiv> snd (snd e)"

definition entries_bytes :: "entry list \<Rightarrow> byte list" where
  "entries_bytes es = concat (map entry_bytes es)"

definition offset :: "entry list \<Rightarrow> nat \<Rightarrow> nat" where
  "offset es i = length (entries_bytes (take i es))"

definition key_before :: "entry list \<Rightarrow> nat \<Rightarrow> slice" where
  "key_before es i = (if i = 0 then [] else key_of (es ! (i - 1)))"

lemma entries_bytes_simps [simp]:
  "entries_bytes [] = []" "entries_bytes (e # es) = entry_bytes e @ entries_bytes es"
  "entries_bytes (es @ fs) = entries_bytes es @ entries_bytes fs"
  by (simp_all add: entries_bytes_def)

lemma chained_append: "chained p (es @ [(s, k, v)]) \<longleftrightarrow>
    chained p es \<and> (let q = (if es = [] then p else key_of (last es)) in s \<le> length q \<and> s \<le> length k \<and> take s q = take s k)"
  by (induction p es rule: chained.induct) (auto simp: Let_def)

lemma chained_nth:
  "chained p es \<Longrightarrow> i < length es \<Longrightarrow>
   (let q = (if i = 0 then p else key_of (es ! (i - 1)))
    in shared_of (es ! i) \<le> length q \<and> shared_of (es ! i) \<le> length (key_of (es ! i)) \<and>
       take (shared_of (es ! i)) q = take (shared_of (es ! i)) (key_of (es ! i)))"
proof (induction p es arbitrary: i rule: chained.induct)
  case (2 p s k v es)
  show ?case
  proof (cases i)
    case 0
    then show ?thesis using 2 by (simp add: Let_def)
  next
    case (Suc j)
    then show ?thesis using 2(1) [of j] 2(2,3) by (cases j) (simp_all add: Let_def)
  qed
qed simp

lemma offset_simps [simp]: "offset es 0 = 0" "offset es (length es) = length (entries_bytes es)"
  by (simp_all add: offset_def)

lemma offset_Suc: "i < length es \<Longrightarrow> offset es (Suc i) = offset es i + length (entry_bytes (es ! i))"
  by (simp add: offset_def take_Suc_conv_app_nth)

lemma offset_append: "i \<le> length es \<Longrightarrow> offset (es @ fs) i = offset es i"
  by (simp add: offset_def)

lemma offset_mono: "i \<le> j \<Longrightarrow> offset es i \<le> offset es j"
proof -
  assume "i \<le> j"
  then have "take j es = take i es @ take (j - i) (drop i es)" by (metis le_add_diff_inverse take_add)
  then show ?thesis by (simp add: offset_def)
qed

lemma offset_le: "offset es i \<le> length (entries_bytes es)"
  using offset_mono [of i "max i (length es)" es] by (simp add: offset_def max_def split: if_splits)

lemma drop_offset: "i \<le> length es \<Longrightarrow> drop (offset es i) (entries_bytes es) = entries_bytes (drop i es)"
proof -
  have "entries_bytes es = entries_bytes (take i es) @ entries_bytes (drop i es)"
    by (metis append_take_drop_id entries_bytes_simps(3))
  then show ?thesis by (simp add: offset_def)
qed

section \<open>What the builder lays out\<close>

lemma diff_index_prefix:
  "diff_index a b \<le> length a \<and> diff_index a b \<le> length b \<and> take (diff_index a b) a = take (diff_index a b) b"
  by (induction a b rule: diff_index.induct) auto

definition restart_ok :: "entry list \<Rightarrow> nat list \<Rightarrow> bool" where
  "restart_ok es rs \<longleftrightarrow> rs \<noteq> [] \<and> rs ! 0 = 0 \<and>
     (\<forall>j < length rs. (0 < j \<longrightarrow> rs ! j < length es) \<and> (rs ! j < length es \<longrightarrow> shared_of (es ! (rs ! j)) = 0))"

text \<open>The builder \<open>b\<close> holds the entries \<open>es\<close> and the restart points at the entries \<open>rs\<close>.\<close>

definition builds :: "nat \<Rightarrow> BlockBuilder \<Rightarrow> entry list \<Rightarrow> nat list \<Rightarrow> bool" where
  "builds interval b es rs \<longleftrightarrow> bb_buffer b = entries_bytes es \<and> chained [] es \<and>
     last_key b = key_before es (length es) \<and> restarts b = map (\<lambda>r. of_nat (offset es r)) rs \<and>
     restart_ok es rs"

lemma builds_new: "builds interval new_BlockBuilder [] [0]"
  by (simp add: builds_def new_BlockBuilder_def restart_ok_def key_before_def)

lemma key_before_snoc: "key_before (es @ [e]) (length (es @ [e])) = key_of e"
  by (simp add: key_before_def nth_append)

lemma restart_ok_snoc: "restart_ok es rs \<Longrightarrow> (es = [] \<longrightarrow> s = 0) \<Longrightarrow> restart_ok (es @ [(s, k, v)]) rs"
  unfolding restart_ok_def by (auto simp: nth_append)

lemma restart_ok_push:
  assumes "restart_ok es rs" "es \<noteq> []"
  shows "restart_ok (es @ [(0, k, v)]) (rs @ [length es])"
  using restart_ok_snoc [OF assms(1), of 0 k v] assms by (auto simp: restart_ok_def nth_append)

lemma builds_Add:
  assumes "builds interval b es rs" "0 < interval" "counter b \<noteq> 0 \<longrightarrow> es \<noteq> []"
  shows "\<exists>s rs'. builds interval (builder_Add interval b k v) (es @ [(s, k, v)]) rs'"
    and "counter (builder_Add interval b k v) \<noteq> 0"
proof -
  have b: "bb_buffer b = entries_bytes es" "chained [] es" "last_key b = key_before es (length es)"
    "restarts b = map (\<lambda>r. of_nat (offset es r)) rs" "restart_ok es rs"
    using assms(1) by (simp_all add: builds_def)
  have kb: "key_before es (length es) = (if es = [] then [] else key_of (last es))"
    by (simp add: key_before_def last_conv_nth)
  have le: "r \<le> length es" if "r \<in> set rs" for r
    using that b(5) by (auto simp: restart_ok_def in_set_conv_nth)
  have off: "map (\<lambda>r. of_nat (offset (es @ [e]) r)) rs = map (\<lambda>r. of_nat (offset es r)) rs" for e
    using le by (simp add: offset_append)
  show "\<exists>s rs'. builds interval (builder_Add interval b k v) (es @ [(s, k, v)]) rs'"
  proof (cases "counter b < interval")
    case True
    let ?s = "diff_index (last_key b) k"
    note d = diff_index_prefix [of "last_key b" k]
    have "es = [] \<longrightarrow> ?s = 0" by (simp add: b(3) key_before_def)
    moreover have "chained [] (es @ [(?s, k, v)])"
      using d b(2) unfolding chained_append Let_def kb [symmetric] b(3) by simp
    moreover have "take ?s (last_key b) @ drop ?s k = k" using d by (metis append_take_drop_id)
    ultimately have "builds interval (builder_Add interval b k v) (es @ [(?s, k, v)]) rs"
      using True b restart_ok_snoc [OF b(5), of ?s k v]
      by (simp add: builds_def builder_Add_def Let_def key_before_snoc [simplified] off PutVarint32_def)
    then show ?thesis by blast
  next
    case False
    then have ne: "es \<noteq> []" using assms(2,3) by auto
    have "chained [] (es @ [(0, k, v)])" using b(2) unfolding chained_append by simp
    then have "builds interval (builder_Add interval b k v) (es @ [(0, k, v)]) (rs @ [length es])"
      using False b restart_ok_push [OF b(5) ne, of k v]
      by (simp add: builds_def builder_Add_def Let_def key_before_snoc [simplified] off PutVarint32_def offset_append)
    then show ?thesis by blast
  qed
  show "counter (builder_Add interval b k v) \<noteq> 0" by (simp add: builder_Add_def Let_def)
qed

lemma builds_foldl:
  assumes "builds interval b es rs" "0 < interval" "counter b \<noteq> 0 \<longrightarrow> es \<noteq> []"
  shows "\<exists>es' rs'. builds interval (foldl (\<lambda>b (k, v). builder_Add interval b k v) b kvs) es' rs' \<and>
    map snd es' = map snd es @ kvs"
  using assms
proof (induction kvs arbitrary: b es rs)
  case Nil
  then show ?case by auto
next
  case (Cons kv kvs)
  obtain k v where kv: "kv = (k, v)" by (cases kv)
  obtain s rs' where 1: "builds interval (builder_Add interval b k v) (es @ [(s, k, v)]) rs'"
    using builds_Add(1) [OF Cons.prems] by blast
  from Cons.IH [OF 1 Cons.prems(2)] show ?case by (simp add: kv)
qed

text \<open>The block of a finished builder.\<close>

definition block_bytes :: "entry list \<Rightarrow> nat list \<Rightarrow> byte list" where
  "block_bytes es rs = entries_bytes es @ concat (map (\<lambda>r. EncodeFixed32 (of_nat (offset es r))) rs) @
     EncodeFixed32 (of_nat (length rs))"

lemma fold_PutFixed32: "fold (\<lambda>r dst. PutFixed32 dst r) rs dst = dst @ concat (map EncodeFixed32 rs)"
  by (induction rs arbitrary: dst) (simp_all add: PutFixed32_def)

lemma builder_Finish_bytes: "builds interval b es rs \<Longrightarrow> fst (builder_Finish b) = block_bytes es rs"
  by (simp add: builder_Finish_def Let_def builds_def fold_PutFixed32, simp add: PutFixed32_def block_bytes_def comp_def)

section \<open>Decoding an entry\<close>

lemma small_32: "(w :: u32) < 128 \<longleftrightarrow> drop_bit 7 w = 0"
proof -
  have "drop_bit 7 w = 0 \<longleftrightarrow> unat w div 2 ^ 7 = 0" by (metis unat_drop_bit_div unat_eq_zero)
  then show ?thesis by (simp add: word_less_nat_alt div_eq_0_iff)
qed

lemma or_less_128: "(x OR y OR z :: u32) < 128 \<longleftrightarrow> x < 128 \<and> y < 128 \<and> z < 128"
  unfolding small_32 by (simp add: or_eq_0_iff)

lemma big_byte: "\<not> (ucast (ucast (v OR 128 :: u32) :: byte) :: u32) < 128"
proof
  assume "(ucast (ucast (v OR 128 :: u32) :: byte) :: u32) < 128"
  then have "\<not> bit (drop_bit 7 (ucast (ucast (v OR 128 :: u32) :: byte) :: u32)) 0"
    unfolding small_32 by simp
  then show False by (simp add: bit_simps bit_128)
qed

lemma EncodeVarint32_head:
  obtains (small) "v < 128" "EncodeVarint32 v = [ucast v]" "ucast (ucast v :: byte) = v"
  | (big) c r where "EncodeVarint32 v = c # r" "\<not> (ucast c :: u32) < 128"
proof (cases "v < 128")
  case True
  then have "unat v < 128" by (simp add: word_less_nat_alt)
  then have "ucast (ucast v :: byte) = v" by (intro word_unat_eq_iff [THEN iffD2]) (simp add: unsigned_ucast_eq unat_take_bit_mod)
  then show ?thesis using True small by (simp add: EncodeVarint32_def)
next
  case False
  then have "hd (EncodeVarint32 v) = ucast (v OR 128)" "EncodeVarint32 v \<noteq> []"
    by (simp_all add: EncodeVarint32_def Let_def)
  then show ?thesis by (metis big big_byte list.collapse)
qed

lemma DecodeEntry_Encode:
  assumes "b + c \<le> of_nat (length r)"
  shows "DecodeEntry (EncodeVarint32 a @ EncodeVarint32 b @ EncodeVarint32 c @ r) = Some (a, b, c, r)"
proof -
  let ?p = "EncodeVarint32 a @ EncodeVarint32 b @ EncodeVarint32 c @ r"
  have slow: "do { (shared, p) \<leftarrow> GetVarint32Ptr ?p; (non_shared, p) \<leftarrow> GetVarint32Ptr p;
      (value_length, p) \<leftarrow> GetVarint32Ptr p; Some (shared, non_shared, value_length, p) } = Some (a, b, c, r)"
    using GetVarint_Encode(1) unfolding GetVarint32_def by simp
  have ne: "EncodeVarint32 v \<noteq> []" for v by (cases v rule: EncodeVarint32_head) auto
  then have "1 \<le> length (EncodeVarint32 v)" for v by (simp add: Suc_le_eq)
  from this [of a] this [of b] this [of c] have len: "\<not> length ?p < 3" by simp
  show ?thesis
  proof (cases "ucast (?p ! 0) OR ucast (?p ! 1) OR ucast (?p ! 2) < (128 :: u32)")
    case True
    then have s: "ucast (?p ! 0) < (128 :: u32)" "ucast (?p ! 1) < (128 :: u32)" "ucast (?p ! 2) < (128 :: u32)"
      by (simp_all add: or_less_128)
    from s(1) have a: "EncodeVarint32 a = [ucast a]" "ucast (ucast a :: byte) = a"
      by (cases a rule: EncodeVarint32_head; simp)+
    from s(2) have b: "EncodeVarint32 b = [ucast b]" "ucast (ucast b :: byte) = b"
      by (cases b rule: EncodeVarint32_head; simp add: a(1))+
    from s(3) have c: "EncodeVarint32 c = [ucast c]" "ucast (ucast c :: byte) = c"
      by (cases c rule: EncodeVarint32_head; simp add: a(1) b(1))+
    show ?thesis using True assms by (simp add: DecodeEntry_def a b c not_less Let_def)
  next
    case False
    show ?thesis unfolding DecodeEntry_def if_not_P [OF len] Let_def if_not_P [OF False] slow using assms by (simp add: not_less)
  qed
qed

section \<open>The iterator over a block\<close>

definition block_ok :: "entry list \<Rightarrow> nat list \<Rightarrow> bool" where
  "block_ok es rs \<longleftrightarrow> chained [] es \<and> restart_ok es rs \<and> length (block_bytes es rs) < 2 ^ 32"

definition over :: "entry list \<Rightarrow> nat list \<Rightarrow> BlockIter \<Rightarrow> bool" where
  "over es rs it \<longleftrightarrow> it_data it = block_bytes es rs \<and> it_restarts it = of_nat (length (entries_bytes es)) \<and>
     num_restarts it = of_nat (length rs)"

text \<open>The iterator is about to parse entry \<open>i\<close>, and it stands at entry \<open>i\<close>.\<close>

definition before :: "entry list \<Rightarrow> BlockIter \<Rightarrow> nat \<Rightarrow> bool" where
  "before es it i \<longleftrightarrow> i \<le> length es \<and> restart_index it < num_restarts it \<and> NextEntryOffset it = Some (of_nat (offset es i)) \<and>
     (i < length es \<longrightarrow> shared_of (es ! i) \<le> length (it_key it) \<and>
        take (shared_of (es ! i)) (it_key it) = take (shared_of (es ! i)) (key_of (es ! i)))"

definition standing :: "entry list \<Rightarrow> BlockIter \<Rightarrow> nat \<Rightarrow> bool" where
  "standing es it i \<longleftrightarrow> i < length es \<and> restart_index it < num_restarts it \<and> current it = of_nat (offset es i) \<and> it_key it = key_of (es ! i) \<and>
     it_value it = Some (offset es (Suc i) - length (value_of (es ! i)), length (value_of (es ! i)))"

lemma length_EncodeVarint_pos: "0 < length (EncodeVarint32 v)"
  by (cases v rule: EncodeVarint32_head) auto

lemma value_le_entry: "length (value_of e) \<le> length (entry_bytes e)"
  by (cases e) simp

lemma standing_before:
  assumes "chained [] es" "standing es it i"
  shows "before es it (Suc i)"
proof -
  have "offset es (Suc i) = offset es i + length (entry_bytes (es ! i))" using assms(2) by (simp add: standing_def offset_Suc)
  then have "length (value_of (es ! i)) \<le> offset es (Suc i)" using value_le_entry [of "es ! i"] by simp
  then show ?thesis using assms chained_nth [OF assms(1), of "Suc i"]
    by (auto simp: standing_def before_def NextEntryOffset_def Let_def)
qed

lemma offset_less: "i < length es \<Longrightarrow> offset es i < length (entries_bytes es)"
proof -
  assume i: "i < length es"
  then have "offset es i < offset es (Suc i)"
    using length_EncodeVarint_pos by (cases "es ! i") (simp add: offset_Suc add_pos_nonneg)
  then show ?thesis using offset_le [of es "Suc i"] by simp
qed

lemma offset_strict: "i < j \<Longrightarrow> j \<le> length es \<Longrightarrow> offset es i < offset es j"
proof -
  assume "i < j" "j \<le> length es"
  then have "i < length (take j es)" by simp
  from offset_less [OF this] show ?thesis using \<open>i < j\<close> by (simp add: offset_def)
qed

lemma chained_key_length:
  "chained p es \<Longrightarrow> e \<in> set es \<Longrightarrow> length (key_of e) \<le> length p + length (entries_bytes es)"
proof (induction p es rule: chained.induct)
  case (2 p s k v es)
  have "s \<le> length p" "s \<le> length k" using 2(2) by simp_all
  then have k: "length k \<le> length p + length (entry_bytes (s, k, v))" by simp
  show ?case using 2 k by (cases "e = (s, k, v)") auto
qed simp

lemma entries_less: "length (block_bytes es rs) < 2 ^ 32 \<Longrightarrow> length (entries_bytes es) < 2 ^ 32"
  by (simp add: block_bytes_def)

lemma length_block_bytes: "length (block_bytes es rs) = length (entries_bytes es) + 4 * length rs + 4"
  by (induction rs) (simp_all add: block_bytes_def)

lemma GetRestartPoint_over:
  assumes "over es rs it" "length (block_bytes es rs) < 2 ^ 32" "j < length rs"
  shows "GetRestartPoint it (of_nat j) = Some (of_nat (offset es (rs ! j)))"
proof -
  let ?f = "\<lambda>r. EncodeFixed32 (of_nat (offset es r))"
  have d: "drop (4 * j) (concat (map ?f rs) @ x) = ?f (rs ! j) @ concat (map ?f (drop (Suc j) rs)) @ x" for x
    using assms(3)
  proof (induction rs arbitrary: j)
    case (Cons r rs)
    show ?case
    proof (cases j)
      case (Suc i)
      then show ?thesis using Cons.IH [of i] Cons.prems by simp
    qed simp
  qed simp
  have "length rs < 2 ^ 32" using assms(2) by (simp add: length_block_bytes)
  then have "unat (of_nat j :: u32) = j" using assms(3) by (simp add: unat_of_nat_32)
  moreover have "unat (it_restarts it) = length (entries_bytes es)"
    using assms(1) entries_less [OF assms(2)] by (simp add: over_def unat_of_nat_32)
  ultimately have "drop (unat (it_restarts it) + unat (of_nat j :: u32) * 4) (it_data it) =
      drop (4 * j) (concat (map ?f rs) @ EncodeFixed32 (of_nat (length rs)))"
    using assms(1) by (simp add: over_def block_bytes_def mult.commute)
  then show ?thesis unfolding GetRestartPoint_def d by simp
qed

lemma bytes_between_block:
  assumes "over es rs it" "length (block_bytes es rs) < 2 ^ 32" "n \<le> length (entries_bytes es)"
  shows "bytes_between (it_data it) (of_nat n) (it_restarts it) = drop n (entries_bytes es)"
  using assms(1,3) entries_less [OF assms(2)] by (simp add: bytes_between_def over_def unat_of_nat_32 block_bytes_def)

lemma advance_restart_over:
  assumes "over es rs it" "length (block_bytes es rs) < 2 ^ 32" "restart_index it < num_restarts it"
  shows "\<exists>n. advance_restart it = Some (it\<lparr>restart_index := n\<rparr>) \<and> n < num_restarts it"
  using assms
proof (induction it rule: advance_restart.induct)
  case (1 it)
  have num: "unat (num_restarts it) = length rs"
    using 1(2,3) by (simp add: over_def unat_of_nat_32 length_block_bytes)
  show ?case
  proof (cases "restart_index it + 1 < num_restarts it")
    case True
    let ?j = "unat (restart_index it + 1)"
    have "?j < length rs" using True num by (simp add: word_less_nat_alt)
    from GetRestartPoint_over [OF 1(2,3) this] obtain r where r: "GetRestartPoint it (restart_index it + 1) = Some r" by simp
    show ?thesis
    proof (cases "r < current it")
      case less: True
      have "over es rs (it\<lparr>restart_index := restart_index it + 1\<rparr>)" using 1(2) True by (simp add: over_def)
      from 1(1) [OF True r less this 1(3)] True show ?thesis by (auto simp: advance_restart.simps [of it] True r less)
    next
      case False
      then show ?thesis using 1(2,4) by (auto simp: advance_restart.simps [of it] True r over_def intro!: exI [of _ "restart_index it"])
    qed
  next
    case False
    then show ?thesis using 1(2,4) by (auto simp: advance_restart.simps [of it] over_def intro!: exI [of _ "restart_index it"])
  qed
qed

lemma offset_less_iff:
  assumes "block_ok es rs" "i \<le> length es" "j \<le> length es"
  shows "(of_nat (offset es i) :: u32) < of_nat (offset es j) \<longleftrightarrow> i < j"
proof -
  have "length (entries_bytes es) < 2 ^ 32" using assms(1) entries_less [of es rs] by (simp add: block_ok_def)
  then have "(of_nat (offset es i) :: u32) < of_nat (offset es j) \<longleftrightarrow> offset es i < offset es j"
    using offset_le [of es i] offset_le [of es j] by (simp add: word_less_nat_alt unat_of_nat_32)
  then show ?thesis using offset_strict [of i j es] offset_mono [of j i es] assms(2,3) by linarith
qed

lemma decode_at:
  assumes ok: "block_ok es rs" and it: "over es rs it" and i: "i < length es" and e: "es ! i = (s, k, v)"
  defines "ns \<equiv> length k - s"
  obtains q p where "DecodeEntry (bytes_between (it_data it) (of_nat (offset es i)) (it_restarts it)) =
      Some (of_nat s, of_nat ns, of_nat (length v), q)"
    "unat (it_restarts it) - length q = p" "p + ns \<le> length (it_data it)" "take ns (drop p (it_data it)) = drop s k"
    "offset es (Suc i) = p + ns + length v"
    "unat (of_nat s :: u32) = s" "unat (of_nat ns :: u32) = ns" "unat (of_nat (length v) :: u32) = length v"
proof -
  have chain: "chained [] es" and small: "length (block_bytes es rs) < 2 ^ 32" using ok by (simp_all add: block_ok_def)
  note len = entries_less [OF small]
  have off: "offset es i \<le> length (entries_bytes es)" by (rule offset_le)
  have s: "s \<le> length k" "length k \<le> length (entries_bytes es)"
    using chained_nth [OF chain i] chained_key_length [OF chain nth_mem [OF i]] by (simp_all add: e Let_def)
  define pre where "pre = entries_bytes (take i es) @ EncodeVarint32 (of_nat s) @ EncodeVarint32 (of_nat ns) @ EncodeVarint32 (of_nat (length v))"
  define q where "q = drop s k @ v @ entries_bytes (drop (Suc i) es)"
  have split: "es = take i es @ es ! i # drop (Suc i) es" by (rule id_take_nth_drop [OF i])
  have entries: "entries_bytes es = pre @ q"
    by (subst split) (simp add: pre_def q_def e ns_def)
  have rest: "drop (offset es i) (entries_bytes es) = EncodeVarint32 (of_nat s) @ EncodeVarint32 (of_nat ns) @
      EncodeVarint32 (of_nat (length v)) @ q"
    unfolding drop_offset [OF less_imp_le [OF i]] Cons_nth_drop_Suc [OF i, symmetric] by (simp add: e q_def ns_def)
  have lq: "length q < 2 ^ 32" using len by (simp add: entries)
  have lv: "length v < 2 ^ 32" using lq by (simp add: q_def)
  have words: "unat (of_nat s :: u32) = s" "unat (of_nat ns :: u32) = ns" "unat (of_nat (length v) :: u32) = length v"
    using s len lv by (simp_all add: unat_of_nat_32 ns_def del: of_nat_diff)
  have "ns + length v \<le> length q" by (simp add: q_def ns_def)
  then have fits: "(of_nat ns :: u32) + of_nat (length v) \<le> of_nat (length q)"
    using lq by (simp only: word_le_nat_alt unat_of_nat_32 of_nat_add [symmetric])
  show ?thesis
  proof (rule that [of q "length pre"])
    show "DecodeEntry (bytes_between (it_data it) (of_nat (offset es i)) (it_restarts it)) =
        Some (of_nat s, of_nat ns, of_nat (length v), q)"
      using DecodeEntry_Encode [OF fits, of "of_nat s"] unfolding bytes_between_block [OF it small off] rest .
    show "unat (it_restarts it) - length q = length pre"
    proof -
      have "unat (it_restarts it) = length (entries_bytes es)" using it len by (simp add: over_def unat_of_nat_32)
      then show ?thesis by (simp add: entries)
    qed
    show "length pre + ns \<le> length (it_data it)" "take ns (drop (length pre) (it_data it)) = drop s k"
      using it by (simp_all add: over_def block_bytes_def entries q_def ns_def)
    show "offset es (Suc i) = length pre + ns + length v"
      by (simp add: offset_Suc [OF i] pre_def e ns_def, simp add: offset_def)
  qed (rule words)+
qed

lemma parse_step:
  assumes ok: "block_ok es rs" and it: "over es rs it" "before es it i" and i: "i < length es"
  shows "\<exists>it'. ParseNextKey it = Some (True, it') \<and> over es rs it' \<and> standing es it' i \<and> it_status it' = it_status it"
proof -
  obtain s k v where e: "es ! i = (s, k, v)" by (cases "es ! i")
  have small: "length (block_bytes es rs) < 2 ^ 32" using ok by (simp add: block_ok_def)
  have b: "NextEntryOffset it = Some (of_nat (offset es i))" "s \<le> length (it_key it)" "take s (it_key it) = take s k"
    using it(2) i by (simp_all add: before_def e)
  obtain q p where dec: "DecodeEntry (bytes_between (it_data it) (of_nat (offset es i)) (it_restarts it)) =
      Some (of_nat s, of_nat (length k - s), of_nat (length v), q)"
    and p: "unat (it_restarts it) - length q = p" "p + (length k - s) \<le> length (it_data it)"
      "take (length k - s) (drop p (it_data it)) = drop s k" "offset es (Suc i) = p + (length k - s) + length v"
    and words: "unat (of_nat s :: u32) = s" "unat (of_nat (length k - s) :: u32) = length k - s" "unat (of_nat (length v) :: u32) = length v"
    by (rule decode_at [OF ok it(1) i e])
  define ns where "ns = length k - s"
  note [simp] = ns_def [symmetric]
  have inside: "\<not> it_restarts it \<le> of_nat (offset es i)"
    using offset_less_iff [OF ok less_imp_le [OF i] order_refl] it(1) i by (simp add: over_def not_le)
  let ?it1 = "it\<lparr>current := of_nat (offset es i)\<rparr>"
  let ?it2 = "?it1\<lparr>it_key := k, it_value := Some (p + ns, length v)\<rparr>"
  have "over es rs ?it2" "restart_index ?it2 < num_restarts ?it2" using it by (simp_all add: over_def before_def)
  from advance_restart_over [OF this(1) small this(2)] obtain n where
    n: "advance_restart ?it2 = Some (?it2\<lparr>restart_index := n\<rparr>)" "n < num_restarts it" by auto
  have key: "take s (it_key it) @ drop s k = k" using b(3) by simp
  have "ParseNextKey it = Some (True, ?it2\<lparr>restart_index := n\<rparr>)"
    using b(2) p n(1) unfolding ParseNextKey_def b(1) dec [unfolded ns_def [symmetric]]
    by (simp add: inside dec [unfolded ns_def [symmetric]] words [unfolded ns_def [symmetric]] key Let_def)
  moreover have "standing es (?it2\<lparr>restart_index := n\<rparr>) i" using i n(2) p(4) by (simp add: standing_def e)
  moreover have "over es rs (?it2\<lparr>restart_index := n\<rparr>)" using it(1) n(2) by (simp add: over_def)
  ultimately show ?thesis by (intro exI [of _ "?it2\<lparr>restart_index := n\<rparr>"]) simp
qed

lemma parse_end:
  assumes "over es rs it" "before es it (length es)"
  shows "ParseNextKey it = Some (False, it\<lparr>current := it_restarts it, restart_index := num_restarts it\<rparr>)"
  using assms by (simp add: ParseNextKey_def before_def over_def Let_def)

lemma seek_point:
  assumes "block_ok es rs" "over es rs it" "j < length rs"
  obtains it' where "SeekToRestartPoint it (of_nat j) = Some it'" "over es rs it'" "before es it' (rs ! j)"
    "it_status it' = it_status it"
proof -
  have small: "length (block_bytes es rs) < 2 ^ 32" and r: "restart_ok es rs" using assms(1) by (simp_all add: block_ok_def)
  note g = GetRestartPoint_over [OF assms(2) small assms(3)]
  have le: "rs ! j \<le> length es" using r assms(3) by (cases "j = 0") (auto simp: restart_ok_def)
  have "offset es (rs ! j) < 2 ^ 32" using offset_le [of es "rs ! j"] entries_less [OF small] by simp
  moreover have "(of_nat j :: u32) < of_nat (length rs)"
    using assms(3) small by (simp add: word_less_nat_alt unat_of_nat_32 length_block_bytes)
  moreover have "rs ! j < length es \<longrightarrow> shared_of (es ! (rs ! j)) = 0" using r assms(3) by (simp add: restart_ok_def)
  ultimately show ?thesis
    using assms(2) g le by (intro that [of "it\<lparr>it_key := [], restart_index := of_nat j, it_value := Some (offset es (rs ! j), 0)\<rparr>"])
      (simp_all add: SeekToRestartPoint_def over_def before_def NextEntryOffset_def unat_of_nat_32)
qed

text \<open>What one call does.\<close>

lemma standing_Valid:
  assumes "block_ok es rs" "over es rs it" "standing es it i"
  shows "iter_Valid it" and "iter_value it = Some (value_of (es ! i))"
proof -
  have i: "i < length es" and small: "length (block_bytes es rs) < 2 ^ 32" using assms by (simp_all add: standing_def block_ok_def)
  show "iter_Valid it"
    using assms offset_less [OF i] entries_less [OF small]
    by (simp add: iter_Valid_def standing_def over_def word_less_nat_alt unat_of_nat_32)
  obtain s k v where e: "es ! i = (s, k, v)" by (cases "es ! i")
  let ?n = "offset es (Suc i) - length v"
  have "drop (offset es i) (entries_bytes es) = entry_bytes (es ! i) @ entries_bytes (drop (Suc i) es)"
    by (simp add: drop_offset less_imp_le [OF i] Cons_nth_drop_Suc [OF i, symmetric])
  moreover have "?n = length (entry_bytes (es ! i)) - length v + offset es i"
    using value_le_entry [of "es ! i"] by (simp add: offset_Suc [OF i] e)
  ultimately have "drop ?n (entries_bytes es) = v @ entries_bytes (drop (Suc i) es)"
    by (simp only: drop_drop [symmetric]) (simp add: e)
  then have "drop ?n (block_bytes es rs) = v @ entries_bytes (drop (Suc i) es) @
      concat (map (\<lambda>r. EncodeFixed32 (of_nat (offset es r))) rs) @ EncodeFixed32 (of_nat (length rs))"
    using offset_le [of es "Suc i"] by (simp add: block_bytes_def)
  moreover have "offset es (Suc i) \<le> length (block_bytes es rs)"
    using offset_le [of es "Suc i"] by (simp add: block_bytes_def)
  moreover have "length v \<le> offset es (Suc i)" using value_le_entry [of "es ! i"] by (simp add: offset_Suc [OF i] e)
  ultimately show "iter_value it = Some (value_of (es ! i))"
    using assms(2,3) by (simp add: iter_value_def standing_def over_def e)
qed

text \<open>Past the end, with the status as it was.\<close>

definition exhausted :: "entry list \<Rightarrow> nat list \<Rightarrow> BlockIter \<Rightarrow> bool" where
  "exhausted es rs it \<longleftrightarrow> over es rs it \<and> \<not> iter_Valid it"

text \<open>The iterator stands at entry \<open>i\<close>, or past the end if there is none.\<close>

definition at_entry :: "entry list \<Rightarrow> nat list \<Rightarrow> BlockIter \<Rightarrow> nat \<Rightarrow> BlockIter \<Rightarrow> bool" where
  "at_entry es rs it0 i it \<longleftrightarrow> over es rs it \<and> it_status it = it_status it0 \<and>
     (if i < length es then standing es it i else \<not> iter_Valid it)"

lemma ParseNextKey_before:
  assumes "block_ok es rs" "over es rs it" "before es it i"
  shows "\<exists>it'. ParseNextKey it = Some (i < length es, it') \<and> at_entry es rs it i it'"
proof (cases "i < length es")
  case True
  then show ?thesis using parse_step [OF assms True] by (auto simp: at_entry_def)
next
  case False
  then have "i = length es" using assms(3) by (simp add: before_def)
  then show ?thesis using parse_end [OF assms(2)] assms(2,3) by (simp add: at_entry_def over_def iter_Valid_def)
qed

lemma iter_Next_standing:
  assumes "block_ok es rs" "over es rs it" "standing es it i"
  shows "\<exists>it'. iter_Next it = Some it' \<and> at_entry es rs it (Suc i) it'"
proof -
  have "before es it (Suc i)" using assms(1,3) by (simp add: block_ok_def standing_before)
  from ParseNextKey_before [OF assms(1,2) this] show ?thesis by (auto simp: iter_Next_def)
qed

lemma restart_0: "block_ok es rs \<Longrightarrow> 0 < length rs \<and> rs ! 0 = 0"
  by (simp add: block_ok_def restart_ok_def)

lemma iter_SeekToFirst_over:
  assumes "block_ok es rs" "over es rs it"
  shows "\<exists>it'. iter_SeekToFirst it = Some it' \<and> at_entry es rs it 0 it'"
proof -
  have r: "0 < length rs" "rs ! 0 = 0" using restart_0 [OF assms(1)] by simp_all
  obtain it1 where 1: "SeekToRestartPoint it 0 = Some it1" "over es rs it1" "before es it1 0" "it_status it1 = it_status it"
    using seek_point [OF assms r(1)] r(2) by auto
  from ParseNextKey_before [OF assms(1) 1(2,3)] show ?thesis using 1(1,4) by (auto simp: iter_SeekToFirst_def at_entry_def)
qed

lemma skip_until_before:
  assumes "block_ok es rs" "over es rs it" "before es it i" "i < m" "m \<le> length es"
  shows "\<exists>it'. skip_until (of_nat (offset es m)) it = Some it' \<and> at_entry es rs it (m - 1) it'"
  using assms(2-4)
proof (induction "m - i" arbitrary: it i)
  case (Suc d)
  have i: "i < length es" using Suc.prems(3) assms(5) by simp
  obtain it1 where 1: "ParseNextKey it = Some (True, it1)" "over es rs it1" "standing es it1 i" "it_status it1 = it_status it"
    using parse_step [OF assms(1) Suc.prems(1,2) i] by blast
  have b: "before es it1 (Suc i)" using 1(3) assms(1) by (simp add: block_ok_def standing_before)
  have less: "(of_nat (offset es (Suc i)) :: u32) < of_nat (offset es m) \<longleftrightarrow> Suc i < m"
    using i assms(5) by (intro offset_less_iff [OF assms(1)]) simp_all
  have nx: "NextEntryOffset it1 = Some (of_nat (offset es (Suc i)))" using b by (simp add: before_def)
  show ?case
  proof (cases "Suc i < m")
    case True
    have "d = m - Suc i" using Suc.hyps(2) by simp
    then obtain it2 where "skip_until (of_nat (offset es m)) it1 = Some it2" "at_entry es rs it1 (m - 1) it2"
      using Suc.hyps(1) [OF _ 1(2) b True] by blast
    then show ?thesis using 1(1,4) nx less True by (subst skip_until.simps) (simp add: at_entry_def)
  next
    case False
    then have "m - 1 = i" using Suc.prems(3) by simp
    then show ?thesis using 1 nx less False i by (subst skip_until.simps) (simp add: at_entry_def)
  qed
qed simp

lemma length_rs: "block_ok es rs \<Longrightarrow> length rs < 2 ^ 30"
  by (simp add: block_ok_def length_block_bytes)

lemma restart_in: "block_ok es rs \<Longrightarrow> j < length rs \<Longrightarrow> es \<noteq> [] \<Longrightarrow> rs ! j < length es"
  by (cases "j = 0") (auto simp: block_ok_def restart_ok_def)

lemma iter_SeekToLast_over:
  assumes "block_ok es rs" "over es rs it"
  shows "\<exists>it'. iter_SeekToLast it = Some it' \<and> at_entry es rs it (length es - 1) it'"
proof -
  have r: "length rs - 1 < length rs" using restart_0 [OF assms(1)] by simp
  have "0 < length rs" using restart_0 [OF assms(1)] ..
  then have num: "num_restarts it - 1 = of_nat (length rs - 1)" using assms(2) by (simp add: over_def Suc_leI of_nat_diff)
  obtain it1 where 1: "SeekToRestartPoint it (of_nat (length rs - 1)) = Some it1" "over es rs it1"
      "before es it1 (rs ! (length rs - 1))" "it_status it1 = it_status it"
    by (rule seek_point [OF assms r])
  have seek: "SeekToRestartPoint it (num_restarts it - 1) = Some it1" unfolding num by (rule 1(1))
  have lim: "it_restarts it1 = of_nat (offset es (length es))" using 1(2) by (simp add: over_def)
  show ?thesis
  proof (cases "es = []")
    case True
    then have "before es it1 0" using 1(3) by (simp add: before_def)
    from ParseNextKey_before [OF assms(1) 1(2) this] obtain it2 where
      2: "ParseNextKey it1 = Some (False, it2)" "at_entry es rs it1 0 it2" using True by auto
    have "skip_until (it_restarts it1) it1 = Some it2" using 2(1) by (subst skip_until.simps) simp
    then show ?thesis using 2(2) 1(4) True by (auto simp: iter_SeekToLast_def seek at_entry_def)
  next
    case False
    have "rs ! (length rs - 1) < length es" using restart_in [OF assms(1) r False] .
    from skip_until_before [OF assms(1) 1(2,3) this order_refl] 1(4) show ?thesis
      by (auto simp: iter_SeekToLast_def seek at_entry_def lim simp del: offset_simps)
  qed
qed

lemma prev_restart_over:
  assumes "block_ok es rs" "over es rs it" "i < length es" "j < length rs"
  shows "\<exists>f. prev_restart it (of_nat (offset es i)) (of_nat j) = Some f \<and>
    (if i = 0 then f = None else \<exists>l < length rs. f = Some (of_nat l) \<and> rs ! l < i)"
  using assms(4)
proof (induction j)
  case 0
  have small: "length (block_bytes es rs) < 2 ^ 32" using assms(1) by (simp add: block_ok_def)
  have r: "0 < length rs" "rs ! 0 = 0" using restart_0 [OF assms(1)] by simp_all
  have g: "GetRestartPoint it 0 = Some (of_nat (offset es 0))" using GetRestartPoint_over [OF assms(2) small r(1)] r(2) by simp
  have "(of_nat (offset es 0) :: u32) < of_nat (offset es i) \<longleftrightarrow> 0 < i" using assms(3) by (intro offset_less_iff [OF assms(1)]) auto
  then show ?case using g r by (subst prev_restart.simps) (auto simp: not_less)
next
  case (Suc j)
  have small: "length (block_bytes es rs) < 2 ^ 32" using assms(1) by (simp add: block_ok_def)
  have le: "rs ! Suc j < length es" using assms(3) by (intro restart_in [OF assms(1) Suc.prems]) auto
  have less: "(of_nat (offset es (rs ! Suc j)) :: u32) < of_nat (offset es i) \<longleftrightarrow> rs ! Suc j < i"
    using assms(3) le by (intro offset_less_iff [OF assms(1)]) auto
  have "unat (of_nat (Suc j) :: u32) = Suc j"
    using Suc.prems length_rs [OF assms(1)] by (intro unat_of_nat_32) simp
  then have nz: "(of_nat (Suc j) :: u32) \<noteq> 0" by (metis nat.distinct(1) unat_0)
  show ?case
  proof (cases "rs ! Suc j < i")
    case True
    then show ?thesis using GetRestartPoint_over [OF assms(2) small Suc.prems] less Suc.prems
      by (subst prev_restart.simps) (auto simp: not_le)
  next
    case False
    then show ?thesis using GetRestartPoint_over [OF assms(2) small Suc.prems] less Suc nz
      by (subst prev_restart.simps) (auto simp: not_less)
  qed
qed

lemma iter_Prev_standing:
  assumes "block_ok es rs" "over es rs it" "standing es it i"
  shows "\<exists>it'. iter_Prev it = Some it' \<and> at_entry es rs it (if i = 0 then length es else i - 1) it'"
proof -
  have i: "i < length es" "current it = of_nat (offset es i)" using assms(3) by (simp_all add: standing_def)
  have num: "unat (num_restarts it) = length rs" using assms(2) length_rs [OF assms(1)] by (simp add: over_def unat_of_nat_32)
  have "unat (restart_index it) < length rs" using assms(3) num by (simp add: standing_def word_less_nat_alt)
  from prev_restart_over [OF assms(1,2) i(1) this] obtain f where
    f: "prev_restart it (current it) (restart_index it) = Some f"
      "if i = 0 then f = None else \<exists>l < length rs. f = Some (of_nat l) \<and> rs ! l < i" by (auto simp: i(2))
  show ?thesis
  proof (cases "i = 0")
    case True
    then show ?thesis using f assms(2) by (simp add: iter_Prev_def at_entry_def over_def iter_Valid_def)
  next
    case False
    then obtain l where l: "l < length rs" "f = Some (of_nat l)" "rs ! l < i" using f(2) by auto
    obtain it1 where 1: "SeekToRestartPoint it (of_nat l) = Some it1" "over es rs it1" "before es it1 (rs ! l)" "it_status it1 = it_status it"
      by (rule seek_point [OF assms(1,2) l(1)])
    from skip_until_before [OF assms(1) 1(2,3) l(3) less_imp_le [OF i(1)]] 1(4) show ?thesis
      using False f(1) l(2) 1(1) i by (auto simp: iter_Prev_def at_entry_def)
  qed
qed

section \<open>Seeking\<close>

lemma seek_restart_over:
  assumes ok: "block_ok es rs" and it: "over es rs it"
  shows "l \<le> h \<Longrightarrow> h < length rs \<Longrightarrow> \<exists>m. seek_restart cmp it target (of_nat l) (of_nat h) = Some (Some (of_nat m)) \<and>
    l \<le> m \<and> m \<le> h \<and> (m = l \<or> cmp (key_of (es ! (rs ! m))) target < 0)"
proof (induction "h - l" arbitrary: l h rule: less_induct)
  case less
  have small: "length (block_bytes es rs) < 2 ^ 32" and rok: "restart_ok es rs" using ok by (simp_all add: block_ok_def)
  note w = unat_of_nat_32
  have bounds: "h < 2 ^ 30" using less.prems length_rs [OF ok] by simp
  show ?case
  proof (cases "l = h")
    case True
    then show ?thesis by (subst seek_restart.simps) auto
  next
    case False
    define m where "m = (l + h + 1) div 2"
    have m: "l < m" "m \<le> h" using False less.prems by (auto simp: m_def)
    have lt: "(of_nat l :: u32) < of_nat h" using False less.prems bounds by (simp add: word_less_nat_alt w)
    have mid: "(of_nat l + of_nat h + 1 :: u32) div 2 = of_nat m"
    proof -
      have "unat (of_nat (l + h + 1) :: u32) = l + h + 1" using less.prems bounds by (intro w) simp
      then have "unat ((of_nat (l + h + 1) :: u32) div 2) = m" by (simp only: unat_div_distrib) (simp add: m_def)
      then show ?thesis using m bounds w [of m] by (intro word_unat_eq_iff [THEN iffD2]) (simp add: ac_simps)
    qed
    have pred: "(of_nat m - 1 :: u32) = of_nat (m - 1)" using m by (simp add: of_nat_diff)
    have mr: "m < length rs" using m less.prems by simp
    have r: "rs ! m < length es" "shared_of (es ! (rs ! m)) = 0" using rok mr m by (auto simp: restart_ok_def)
    obtain k v where e: "es ! (rs ! m) = (0, k, v)" using r(2) by (cases "es ! (rs ! m)") auto
    obtain q p where q: "DecodeEntry (bytes_between (it_data it) (of_nat (offset es (rs ! m))) (it_restarts it)) =
        Some (0, of_nat (length k), of_nat (length v), q)" "unat (it_restarts it) - length q = p"
        "p + length k \<le> length (it_data it)" "take (length k) (drop p (it_data it)) = k" "unat (of_nat (length k) :: u32) = length k"
    proof (rule decode_at [OF ok it r(1) e], goal_cases)
      case (1 q p)
      then show ?thesis by (intro 1(1) [of q p]) simp_all
    qed
    have step: "seek_restart cmp it target (of_nat l) (of_nat h) =
        (if cmp k target < 0 then seek_restart cmp it target (of_nat m) (of_nat h)
         else seek_restart cmp it target (of_nat l) (of_nat (m - 1)))"
      using lt GetRestartPoint_over [OF it small mr] q
      by (subst seek_restart.simps) (simp add: mid pred Let_def)
    have k: "key_of (es ! (rs ! m)) = k" by (simp add: e)
    show ?thesis
    proof (cases "cmp k target < 0")
      case True
      then show ?thesis using less.hyps [of h m] m less.prems step k by fastforce
    next
      case F: False
      then show ?thesis using less.hyps [of "m - 1" l] m less.prems step k by fastforce
    qed
  qed
qed

lemma seek_linear_before:
  assumes "block_ok es rs" "over es rs it" "before es it i" "i \<le> n" "n \<le> length es"
    and "\<And>j. i \<le> j \<Longrightarrow> j < n \<Longrightarrow> cmp (key_of (es ! j)) target < 0"
    and "n < length es \<Longrightarrow> 0 \<le> cmp (key_of (es ! n)) target"
  shows "\<exists>it'. seek_linear cmp it target = Some it' \<and> at_entry es rs it n it'"
  using assms(2-4,6)
proof (induction "n - i" arbitrary: it i)
  case 0
  then have "n = i" by simp
  from ParseNextKey_before [OF assms(1) 0(2,3)] obtain it' where
    p: "ParseNextKey it = Some (i < length es, it')" "at_entry es rs it i it'" by blast
  then have "it_key it' = key_of (es ! i)" if "i < length es" using that by (simp add: at_entry_def standing_def)
  then show ?case using p assms(7) \<open>n = i\<close> by (subst seek_linear.simps) auto
next
  case (Suc d)
  have i: "i < n" using Suc.hyps(2) by simp
  then have il: "i < length es" using assms(5) by simp
  obtain it1 where 1: "ParseNextKey it = Some (True, it1)" "over es rs it1" "standing es it1 i" "it_status it1 = it_status it"
    using parse_step [OF assms(1) Suc.prems(1,2) il] by blast
  have b: "before es it1 (Suc i)" using 1(3) assms(1) by (simp add: block_ok_def standing_before)
  have "d = n - Suc i" using Suc.hyps(2) by simp
  from Suc.hyps(1) [OF this 1(2) b] i Suc.prems(4) obtain it2 where
    2: "seek_linear cmp it1 target = Some it2" "at_entry es rs it1 n it2" by auto
  have "cmp (it_key it1) target < 0" using 1(3) Suc.prems(4) [of i] i by (simp add: standing_def)
  then show ?case using 1(1,4) 2 by (subst seek_linear.simps) (simp add: at_entry_def)
qed

lemma iter_Seek_over:
  assumes ok: "block_ok es rs" and it: "over es rs it"
    and n: "n \<le> length es" "\<And>j. j < n \<Longrightarrow> cmp (key_of (es ! j)) target < 0"
      "\<And>j. n \<le> j \<Longrightarrow> j < length es \<Longrightarrow> 0 \<le> cmp (key_of (es ! j)) target"
  shows "\<exists>it'. iter_Seek cmp it target = Some it' \<and> at_entry es rs it n it'"
proof -
  have r: "0 < length rs" "rs ! 0 = 0" using restart_0 [OF ok] by simp_all
  have num: "num_restarts it - 1 = of_nat (length rs - 1)" using it r(1) by (simp add: over_def Suc_leI of_nat_diff)
  have h: "length rs - 1 < length rs" using r(1) by simp
  from seek_restart_over [OF ok it le0 h, of cmp target] obtain m where
    m: "seek_restart cmp it target 0 (num_restarts it - 1) = Some (Some (of_nat m))" "m \<le> length rs - 1"
      "m = 0 \<or> cmp (key_of (es ! (rs ! m))) target < 0" by (auto simp: num)
  note m = m(1) le_less_trans [OF m(2) h] m(3)
  obtain it1 where 1: "SeekToRestartPoint it (of_nat m) = Some it1" "over es rs it1" "before es it1 (rs ! m)"
      "it_status it1 = it_status it"
    by (rule seek_point [OF ok it m(2)])
  have "rs ! m \<le> n"
  proof (rule ccontr)
    assume "\<not> rs ! m \<le> n"
    moreover have "rs ! m \<le> length es" using 1(3) by (simp add: before_def)
    ultimately have "es \<noteq> []" "m \<noteq> 0" using r(2) by (auto intro: ccontr)
    then have "rs ! m < length es" "m \<noteq> 0" using restart_in [OF ok m(2)] by simp_all
    then show False using n(3) [of "rs ! m"] m(3) \<open>\<not> rs ! m \<le> n\<close> by simp
  qed
  from seek_linear_before [OF ok 1(2,3) this n(1), of cmp target] n(2,3) 1(4) show ?thesis
    by (auto simp: iter_Seek_def m(1) 1(1) at_entry_def)
qed

section \<open>Built blocks\<close>

text \<open>The builder over a list of keys and values, and the iterator that \<open>Block\<close> gives for its bytes.\<close>

definition build_block :: "nat \<Rightarrow> (slice \<times> slice) list \<Rightarrow> slice" where
  "build_block interval kvs =
     fst (builder_Finish (foldl (\<lambda>b (k, v). builder_Add interval b k v) new_BlockBuilder kvs))"

lemma built:
  assumes "0 < interval" "length (build_block interval kvs) < 2 ^ 32"
  obtains es rs it where "block_ok es rs" "map snd es = kvs" "block_NewIterator (new_Block (build_block interval kvs)) = BlockIterator it"
    "over es rs it" "it_status it = Status_OK"
proof -
  obtain es rs where b: "builds interval (foldl (\<lambda>b (k, v). builder_Add interval b k v) new_BlockBuilder kvs) es rs" "map snd es = kvs"
    using builds_foldl [OF builds_new assms(1), of kvs] by (auto simp: new_BlockBuilder_def)
  let ?data = "block_bytes es rs"
  have data: "build_block interval kvs = ?data" unfolding build_block_def by (rule builder_Finish_bytes [OF b(1)])
  have ok: "block_ok es rs" using b(1) assms(2) by (simp add: block_ok_def builds_def data)
  note len = length_block_bytes [of es rs]
  have "drop (length ?data - 4) ?data = EncodeFixed32 (of_nat (length rs))"
    by (simp add: block_bytes_def)
  then have num: "NumRestarts ?data = of_nat (length rs)" unfolding NumRestarts_def by (simp add: EncodeFixed32_def)
  have n: "unat (of_nat (length rs) :: u32) = length rs" "unat (1 + of_nat (length rs) :: u32) = 1 + length rs"
    using length_rs [OF ok] unat_of_nat_32 [of "length rs"] unat_of_nat_32 [of "1 + length rs"] by simp_all
  have pos: "length rs \<noteq> 0" using restart_0 [OF ok] by simp
  then have "(of_nat (length rs) :: u32) \<noteq> 0" using n(1) by (metis unat_0)
  then have "block_NewIterator (new_Block ?data) = BlockIterator (new_BlockIter ?data (of_nat (length (entries_bytes es))) (of_nat (length rs)))"
    by (simp add: block_NewIterator_def new_Block_def num n len Let_def)
  moreover have "over es rs (new_BlockIter ?data (of_nat (length (entries_bytes es))) (of_nat (length rs)))"
    by (simp add: over_def new_BlockIter_def)
  moreover have "it_status (new_BlockIter ?data r n) = Status_OK" for r n by (simp add: new_BlockIter_def)
  ultimately show ?thesis using that ok b(2) data by metis
qed

text \<open>A client's loops over an iterator, forwards and backwards.\<close>

partial_function (option) iter_forward :: "BlockIter \<Rightarrow> ((slice \<times> slice) list \<times> BlockIter) option" where
  "iter_forward it =
     (if iter_Valid it then do {
        v \<leftarrow> iter_value it;
        it' \<leftarrow> iter_Next it;
        (kvs, it') \<leftarrow> iter_forward it';
        Some ((it_key it, v) # kvs, it') }
      else Some ([], it))"

partial_function (option) iter_backward :: "BlockIter \<Rightarrow> ((slice \<times> slice) list \<times> BlockIter) option" where
  "iter_backward it =
     (if iter_Valid it then do {
        v \<leftarrow> iter_value it;
        it' \<leftarrow> iter_Prev it;
        (kvs, it') \<leftarrow> iter_backward it';
        Some ((it_key it, v) # kvs, it') }
      else Some ([], it))"

lemma iter_forward_at:
  assumes "block_ok es rs" "at_entry es rs it0 i it"
  shows "\<exists>it'. iter_forward it = Some (map snd (drop i es), it') \<and> at_entry es rs it0 (length es) it'"
  using assms(2)
proof (induction "length es - i" arbitrary: it i)
  case 0
  then show ?case by (subst iter_forward.simps) (auto simp: at_entry_def)
next
  case (Suc d)
  have i: "i < length es" using Suc.hyps(2) by simp
  have st: "over es rs it" "standing es it i" "it_status it = it_status it0" using Suc.prems i by (simp_all add: at_entry_def)
  obtain it1 where 1: "iter_Next it = Some it1" "at_entry es rs it (Suc i) it1"
    using iter_Next_standing [OF assms(1) st(1,2)] by blast
  have d: "d = length es - Suc i" using Suc.hyps(2) by simp
  have "at_entry es rs it0 (Suc i) it1" using 1(2) st(3) by (simp add: at_entry_def)
  from Suc.hyps(1) [OF d this] 1(1) standing_Valid [OF assms(1) st(1,2)] st(2) i show ?case
    by (subst iter_forward.simps) (auto simp: Cons_nth_drop_Suc [symmetric] standing_def)
qed

lemma iter_backward_at:
  assumes "block_ok es rs" "i < length es" "at_entry es rs it0 i it"
  shows "\<exists>it'. iter_backward it = Some (rev (map snd (take (Suc i) es)), it') \<and> at_entry es rs it0 (length es) it'"
  using assms(2,3)
proof (induction i arbitrary: it)
  case 0
  have st: "over es rs it" "standing es it 0" "it_status it = it_status it0" using 0 by (simp_all add: at_entry_def)
  obtain it1 where 1: "iter_Prev it = Some it1" "at_entry es rs it (length es) it1"
    using iter_Prev_standing [OF assms(1) st(1,2)] by auto
  have "iter_backward it1 = Some ([], it1)" using 1(2) by (subst iter_backward.simps) (simp add: at_entry_def)
  then show ?case using 1 st 0(1) standing_Valid [OF assms(1) st(1,2)]
    by (subst iter_backward.simps) (auto simp: at_entry_def standing_def take_Suc_conv_app_nth)
next
  case (Suc i)
  have st: "over es rs it" "standing es it (Suc i)" "it_status it = it_status it0" using Suc.prems by (simp_all add: at_entry_def)
  obtain it1 where 1: "iter_Prev it = Some it1" "at_entry es rs it i it1"
    using iter_Prev_standing [OF assms(1) st(1,2)] by auto
  have "at_entry es rs it0 i it1" using 1(2) st(3) by (simp add: at_entry_def)
  from Suc.IH [OF _ this] Suc.prems(1) 1(1) standing_Valid [OF assms(1) st(1,2)] st(2) show ?case
    by (subst iter_backward.simps) (auto simp: standing_def take_Suc_conv_app_nth [of "Suc i"])
qed



lemma seek_built:
  assumes b: "block_ok es rs" "over es rs it"
    and order: "key_order ok cmp" "sorted_wrt (\<lambda>a b. cmp a b < 0) (map key_of es)" "\<forall>e \<in> set es. ok (key_of e)" "ok target"
  shows "\<exists>a. iter_Seek cmp it target = Some a \<and>
    at_entry es rs it (length (takeWhile (\<lambda>e. cmp (key_of e) target < 0) es)) a"
proof -
  let ?P = "\<lambda>e. cmp (key_of e) target < 0"
  define n where "n = length (takeWhile ?P es)"
  have n: "n \<le> length es" by (simp add: n_def length_takeWhile_le)
  have less: "cmp (key_of (es ! j)) target < 0" if "j < n" for j
    using nth_mem [of j "takeWhile ?P es"] that takeWhile_nth [of j ?P es] set_takeWhileD [of "es ! j" ?P es]
    by (auto simp: n_def)
  have okk: "ok (key_of (es ! j))" if "j < length es" for j using order(3) that by simp
  have ge: "0 \<le> cmp (key_of (es ! j)) target" if "n \<le> j" "j < length es" for j
  proof -
    have nn: "n < length es" using that by simp
    have first: "0 \<le> cmp (key_of (es ! n)) target"
      using nth_length_takeWhile [of ?P es] nn by (simp add: n_def not_less)
    show ?thesis
    proof (rule ccontr)
      assume neg: "\<not> 0 \<le> cmp (key_of (es ! j)) target"
      then have "n \<noteq> j" using first by auto
      then have "cmp (key_of (es ! n)) (key_of (es ! j)) < 0"
        using sorted_wrt_nth_less [OF order(2), of n j] that by auto
      then have "cmp (key_of (es ! n)) target < 0"
        using key_order.compare_less_le_trans [OF order(1) okk okk order(4)] neg nn that by (meson less_imp_le not_less)
      then show False using first by simp
    qed
  qed
  show ?thesis unfolding n_def [symmetric]
    by (rule iter_Seek_over [where cmp = cmp and target = target, OF b n less ge])
qed

text \<open>
  C26. Seeking in a block whose keys are in the order of the comparison lands on the first entry that is not
  below the target; what follows from there is the rest of the entries.
\<close>

theorem block_seek:
  assumes "0 < interval" "length (build_block interval kvs) < 2 ^ 32"
    and "key_order ok cmp" "sorted_wrt (\<lambda>a b. cmp a b < 0) (map fst kvs)" "\<forall>k \<in> fst ` set kvs. ok k" "ok target"
  shows "case block_NewIterator (new_Block (build_block interval kvs)) of
      BlockIterator it \<Rightarrow>
        do { it \<leftarrow> iter_Seek cmp it target; (xs, it) \<leftarrow> iter_forward it; Some (xs, it_status it) } =
          Some (dropWhile (\<lambda>(k, v). cmp k target < 0) kvs, Status_OK)
    | _ \<Rightarrow> False"
proof -
  obtain es rs it where b: "block_ok es rs" "map snd es = kvs" "block_NewIterator (new_Block (build_block interval kvs)) = BlockIterator it"
      "over es rs it" "it_status it = Status_OK"
    by (rule built [OF assms(1,2)])
  let ?P = "\<lambda>e. cmp (key_of e) target < 0"
  have "sorted_wrt (\<lambda>a b. cmp a b < 0) (map key_of es)" "\<forall>e \<in> set es. ok (key_of e)"
    using assms(4,5) by (auto simp: b(2) [symmetric] comp_def sorted_wrt_map)
  then obtain a where a: "iter_Seek cmp it target = Some a" "at_entry es rs it (length (takeWhile ?P es)) a"
    using seek_built [OF b(1,4) assms(3) _ _ assms(6)] by blast
  have "dropWhile (\<lambda>(k, v). cmp k target < 0) kvs = map snd (drop (length (takeWhile ?P es)) es)"
    by (simp add: b(2) [symmetric] dropWhile_map comp_def split_beta dropWhile_eq_drop [of ?P es])
  with iter_forward_at [OF b(1) a(2)] show ?thesis using a(1) b(3,5) by (auto simp: at_entry_def)
qed

theorem block_seek_witness:
  "case block_NewIterator (new_Block (build_block 1 [([1], [9]), ([1, 2], []), ([3], [7, 7])])) of
      BlockIterator it \<Rightarrow>
        do { it \<leftarrow> iter_Seek bytewise_Compare it [2]; (xs, it) \<leftarrow> iter_forward it; Some (xs, it_status it) } =
          Some (dropWhile (\<lambda>(k, v). bytewise_Compare k [2] < 0) [([1], [9]), ([1, 2], []), ([3], [7, 7])], Status_OK)
    | _ \<Rightarrow> False"
proof (rule block_seek [OF _ _ bytewise.key_order_axioms])
  have "length (build_block 1 [([1], [9]), ([1, 2], []), ([3], [7, 7])]) = 32" by code_simp
  then show "length (build_block 1 [([1], [9]), ([1, 2], []), ([3], [7, 7])]) < 2 ^ 32" by simp
  show "sorted_wrt (\<lambda>a b. bytewise_Compare a b < 0) (map fst [([1], [9] :: slice), ([1, 2], []), ([3], [7, 7])])"
    by code_simp
qed simp_all

text \<open>
  The sum of the two lengths in \<open>DecodeEntry\<close> wraps around, so an entry that announces a key of $2^{32} - 1$
  bytes and a value of one byte is accepted, and appending its key reads outside the block.
\<close>

lemma DecodeEntry_wraps: "DecodeEntry [0, 255, 255, 255, 255, 15, 1] = Some (0, - 1, 1, [])"
  by code_simp

lemma iter_reads_outside:
  "iter_SeekToFirst (new_BlockIter [0, 255, 255, 255, 255, 15, 1, 0, 0, 0, 0, 1, 0, 0, 0] 7 1) = None"
proof -
  have "SeekToRestartPoint (new_BlockIter [0, 255, 255, 255, 255, 15, 1, 0, 0, 0, 0, 1, 0, 0, 0] 7 1) 0 =
      Some (new_BlockIter [0, 255, 255, 255, 255, 15, 1, 0, 0, 0, 0, 1, 0, 0, 0] 7 1\<lparr>restart_index := 0, it_value := Some (0, 0)\<rparr>)"
    by code_simp
  then show ?thesis
    by (simp add: iter_SeekToFirst_def ParseNextKey_def NextEntryOffset_def new_BlockIter_def bytes_between_def DecodeEntry_wraps unsigned_minus_1_eq_mask mask_eq_exp_minus_1 Let_def)
qed

end
