(* ===== verification/LDB_Arena.thy ===== *)
theory LDB_Arena
  imports Prelude
begin

unbundle bit_operations_syntax

text \<open>
  The memory of a memtable (\<open>arena.h\<close>, \<open>arena.cc\<close>) and the random numbers of its skip list (\<open>random.h\<close>).
\<close>

section \<open>The arena\<close>

text \<open>
  A pointer is a block that \<open>new\<close> gave, by its index in \<open>blocks_\<close>, and an offset in it; the base of a block
  is aligned for any object. \<open>None\<close> is \<open>NULL\<close>. The model keeps the length of each block.
\<close>

type_synonym arena_ptr = "nat \<times> nat"

record Arena =
  alloc_ptr :: "arena_ptr option"
  alloc_bytes_remaining :: u64
  blocks :: "u64 list"
  memory_usage :: u64

definition arena_block_size :: u64 where "arena_block_size = 4096"

definition new_Arena :: Arena where
  "new_Arena = \<lparr>alloc_ptr = None, alloc_bytes_remaining = 0, blocks = [], memory_usage = 0\<rparr>"

definition MemoryUsage :: "Arena \<Rightarrow> u64" where
  "MemoryUsage a = memory_usage a"

definition ptr_add :: "arena_ptr option \<Rightarrow> u64 \<Rightarrow> arena_ptr option" where
  "ptr_add p n = map_option (\<lambda>(b, off). (b, off + unat n)) p"

definition AllocateNewBlock :: "Arena \<Rightarrow> u64 \<Rightarrow> arena_ptr option \<times> Arena" where
  "AllocateNewBlock a block_bytes =
     (Some (length (blocks a), 0),
      a\<lparr>blocks := blocks a @ [block_bytes], memory_usage := MemoryUsage a + block_bytes + 8\<rparr>)"

definition AllocateFallback :: "Arena \<Rightarrow> u64 \<Rightarrow> arena_ptr option \<times> Arena" where
  "AllocateFallback a bytes =
     (if bytes > arena_block_size div 4 then AllocateNewBlock a bytes
      else
        let (p, a) = AllocateNewBlock a arena_block_size;
            a = a\<lparr>alloc_ptr := p, alloc_bytes_remaining := arena_block_size\<rparr>
        in (alloc_ptr a, a\<lparr>alloc_ptr := ptr_add (alloc_ptr a) bytes,
                            alloc_bytes_remaining := alloc_bytes_remaining a - bytes\<rparr>))"

definition Allocate :: "Arena \<Rightarrow> u64 \<Rightarrow> arena_ptr option \<times> Arena" where
  "Allocate a bytes =
     (if bytes \<le> alloc_bytes_remaining a
      then (alloc_ptr a, a\<lparr>alloc_ptr := ptr_add (alloc_ptr a) bytes,
                            alloc_bytes_remaining := alloc_bytes_remaining a - bytes\<rparr>)
      else AllocateFallback a bytes)"

definition AllocateAligned :: "Arena \<Rightarrow> u64 \<Rightarrow> arena_ptr option \<times> Arena" where
  "AllocateAligned a bytes =
     (let align = 8;
          current_mod = (case alloc_ptr a of None \<Rightarrow> 0 | Some (_, off) \<Rightarrow> of_nat off AND (align - 1));
          slop = (if current_mod = 0 then 0 else align - current_mod);
          needed = bytes + slop
      in if needed \<le> alloc_bytes_remaining a
         then (ptr_add (alloc_ptr a) slop,
               a\<lparr>alloc_ptr := ptr_add (alloc_ptr a) needed, alloc_bytes_remaining := alloc_bytes_remaining a - needed\<rparr>)
         else AllocateFallback a bytes)"

section \<open>Regions\<close>

text \<open>A region is a pointer and a length; regions of different blocks, or one before the other, are apart.\<close>

type_synonym region = "arena_ptr \<times> nat"

fun apart :: "region \<Rightarrow> region \<Rightarrow> bool" where
  "apart ((b, off), n) ((b', off'), n') \<longleftrightarrow> b \<noteq> b' \<or> off + n \<le> off' \<or> off' + n' \<le> off"

text \<open>
  The regions handed out lie in their blocks, and those in the current block before the free part, which
  ends in the block.
\<close>

definition arena_ok :: "Arena \<Rightarrow> region list \<Rightarrow> bool" where
  "arena_ok a rs \<longleftrightarrow>
     (\<forall>((b, off), n) \<in> set rs. b < length (blocks a) \<and> off + n \<le> unat (blocks a ! b) \<and>
        (\<forall>off'. alloc_ptr a = Some (b, off') \<longrightarrow> off + n \<le> off')) \<and>
     (case alloc_ptr a of
        None \<Rightarrow> alloc_bytes_remaining a = 0
      | Some (b, off) \<Rightarrow> b < length (blocks a) \<and> off + unat (alloc_bytes_remaining a) \<le> unat (blocks a ! b)) \<and>
     sorted_wrt apart rs"

lemma arena_ok_new: "arena_ok new_Arena []"
  by (simp add: arena_ok_def new_Arena_def)

lemma bump_ok:
  assumes ok: "arena_ok a rs" and p: "alloc_ptr a = Some (b, off)"
    and n: "unat bytes \<le> unat (alloc_bytes_remaining a)" and s: "s \<le> unat bytes"
  shows "arena_ok (a\<lparr>alloc_ptr := ptr_add (alloc_ptr a) bytes, alloc_bytes_remaining := alloc_bytes_remaining a - bytes\<rparr>)
    (((b, off + s), unat bytes - s) # rs)"
proof -
  have r: "unat (alloc_bytes_remaining a - bytes) = unat (alloc_bytes_remaining a) - unat bytes"
    using n by (simp add: unat_sub word_le_nat_alt)
  have "b < length (blocks a)" "off + unat (alloc_bytes_remaining a) \<le> unat (blocks a ! b)"
    using ok p by (simp_all add: arena_ok_def)
  moreover have "apart ((b, off + s), unat bytes - s) r" if "r \<in> set rs" for r
    using ok p that by (cases r) (auto simp: arena_ok_def)
  ultimately show ?thesis using ok p n s r by (fastforce simp: arena_ok_def ptr_add_def)
qed

lemma new_block_ok:
  assumes ok: "arena_ok a rs"
  shows "arena_ok (snd (AllocateNewBlock a bytes)) (((length (blocks a), 0), unat bytes) # rs)"
proof -
  have "apart ((length (blocks a), 0), unat bytes) r" if "r \<in> set rs" for r
    using ok that by (cases r) (auto simp: arena_ok_def)
  moreover have "alloc_ptr a \<noteq> Some (length (blocks a), off)" for off using ok by (auto simp: arena_ok_def)
  ultimately show ?thesis using ok
    by (auto simp: arena_ok_def AllocateNewBlock_def nth_append split: option.splits)
qed

lemma AllocateFallback_ok:
  assumes ok: "arena_ok a rs"
  shows "\<exists>b a'. AllocateFallback a bytes = (Some (b, 0), a') \<and> arena_ok a' (((b, 0), unat bytes) # rs)"
proof (cases "bytes > arena_block_size div 4")
  case True
  then show ?thesis using new_block_ok [OF ok, of bytes]
    by (simp add: AllocateFallback_def AllocateNewBlock_def)
next
  case False
  let ?n = "length (blocks a)"
  let ?a = "(snd (AllocateNewBlock a arena_block_size))\<lparr>alloc_ptr := Some (?n, 0), alloc_bytes_remaining := arena_block_size\<rparr>"
  have "arena_ok ?a rs" using ok
    by (fastforce simp: arena_ok_def AllocateNewBlock_def nth_append)
  moreover have "unat bytes \<le> unat (alloc_bytes_remaining ?a)"
    using False by (simp add: arena_block_size_def word_less_nat_alt)
  ultimately show ?thesis
    using bump_ok [of ?a rs ?n 0 bytes 0] False by (simp add: AllocateFallback_def AllocateNewBlock_def Let_def)
qed

lemma Allocate_ok:
  assumes ok: "arena_ok a rs" and pos: "0 < unat bytes"
  shows "\<exists>b off a'. Allocate a bytes = (Some (b, off), a') \<and> arena_ok a' (((b, off), unat bytes) # rs)"
proof (cases "bytes \<le> alloc_bytes_remaining a")
  case True
  then obtain b off where p: "alloc_ptr a = Some (b, off)"
    using ok pos by (cases "alloc_ptr a") (auto simp: arena_ok_def word_le_nat_alt)
  show ?thesis using bump_ok [OF ok p, of bytes 0] True p by (simp add: Allocate_def word_le_nat_alt)
next
  case False
  then show ?thesis using AllocateFallback_ok [OF ok, of bytes] by (auto simp: Allocate_def)
qed

lemma and_7: "unat ((of_nat off :: u64) AND 7) = off mod 8" if "off < 2 ^ 64"
proof -
  have "(of_nat off :: u64) AND 7 = take_bit 3 (of_nat off)" by (simp add: take_bit_eq_mask mask_eq_exp_minus_1)
  then show ?thesis using that by (simp add: unat_take_bit_mod unat_of_nat_64)
qed

lemma AllocateAligned_ok:
  assumes ok: "arena_ok a rs" and pos: "0 < unat bytes" "unat bytes + 7 < 2 ^ 64"
  shows "\<exists>b off a'. AllocateAligned a bytes = (Some (b, off), a') \<and> off mod 8 = 0 \<and> arena_ok a' (((b, off), unat bytes) # rs)"
proof (cases "alloc_ptr a")
  case None
  then have "\<not> bytes \<le> alloc_bytes_remaining a" using ok pos by (simp add: arena_ok_def word_le_nat_alt)
  then show ?thesis using AllocateFallback_ok [OF ok, of bytes] None by (auto simp: AllocateAligned_def)
next
  case (Some p)
  obtain b off where p: "alloc_ptr a = Some (b, off)" using Some by (cases p) auto
  define slop :: u64 where "slop = (if (of_nat off :: u64) AND 7 = 0 then 0 else 8 - (of_nat off AND 7))"
  have "off \<le> unat (blocks a ! b)" using ok p by (simp add: arena_ok_def)
  then have off: "off < 2 ^ 64" using unat_lt_64 [of "blocks a ! b"] by simp
  have slop: "unat slop \<le> 7" "(off + unat slop) mod 8 = 0"
  proof -
    have m: "unat ((of_nat off :: u64) AND 7) = off mod 8" by (rule and_7 [OF off])
    then have z: "(of_nat off :: u64) AND 7 = 0 \<longleftrightarrow> off mod 8 = 0" by (metis unat_eq_zero)
    have "unat (8 - ((of_nat off :: u64) AND 7)) = 8 - off mod 8" by (subst unat_sub) (simp_all add: word_le_nat_alt m less_imp_le)
    then have s: "unat slop = (if off mod 8 = 0 then 0 else 8 - off mod 8)" by (simp add: slop_def z)
    show "unat slop \<le> 7" unfolding s by auto
    show "(off + unat slop) mod 8 = 0" unfolding s by simp presburger
  qed
  have needed: "unat (bytes + slop) = unat bytes + unat slop"
    using pos(2) slop(1) by (intro unat_add_lem [THEN iffD1]) simp
  have alloc: "AllocateAligned a bytes =
      (if bytes + slop \<le> alloc_bytes_remaining a
       then (Some (b, off + unat slop), a\<lparr>alloc_ptr := ptr_add (alloc_ptr a) (bytes + slop),
               alloc_bytes_remaining := alloc_bytes_remaining a - (bytes + slop)\<rparr>)
       else AllocateFallback a bytes)"
    using p by (simp add: AllocateAligned_def slop_def ptr_add_def Let_def)
  show ?thesis
  proof (cases "bytes + slop \<le> alloc_bytes_remaining a")
    case True
    then show ?thesis using bump_ok [OF ok p, of "bytes + slop" "unat slop"] slop(2) needed
      by (simp add: alloc word_le_nat_alt)
  next
    case False
    then show ?thesis using AllocateFallback_ok [OF ok, of bytes] by (auto simp: alloc)
  qed
qed

text \<open>A run of requests, aligned or not, and the regions they get.\<close>

fun arena_run :: "Arena \<Rightarrow> (bool \<times> u64) list \<Rightarrow> (arena_ptr option \<times> u64) list \<times> Arena" where
  "arena_run a [] = ([], a)"
| "arena_run a ((aligned, n) # reqs) =
     (let (p, a) = (if aligned then AllocateAligned a n else Allocate a n); (ps, a) = arena_run a reqs in ((p, n) # ps, a))"

lemma arena_run_ok:
  assumes "arena_ok a rs" "\<forall>(aligned, n) \<in> set reqs. 0 < unat n \<and> unat n + 7 < 2 ^ 64"
  shows "\<exists>ps a'. arena_run a reqs = (map (\<lambda>(p, n). (Some p, n)) ps, a') \<and> map snd ps = map snd reqs \<and>
    arena_ok a' (rev (map (\<lambda>(p, n). (p, unat n)) ps) @ rs) \<and>
    list_all2 (\<lambda>(aligned, _) ((_, off), _). aligned \<longrightarrow> off mod 8 = 0) reqs ps"
  using assms
proof (induction reqs arbitrary: a rs)
  case (Cons req reqs)
  obtain al n where req: "req = (al, n)" by (cases req)
  have n: "0 < unat n" "unat n + 7 < 2 ^ 64" using Cons.prems(2) by (simp_all add: req)
  obtain b off a1 where 1: "(if al then AllocateAligned a n else Allocate a n) = (Some (b, off), a1)"
      "al \<longrightarrow> off mod 8 = 0" "arena_ok a1 (((b, off), unat n) # rs)"
    using AllocateAligned_ok [OF Cons.prems(1) n] Allocate_ok [OF Cons.prems(1) n(1)] by (cases al) auto
  obtain ps a' where 2: "arena_run a1 reqs = (map (\<lambda>(p, n). (Some p, n)) ps, a')" "map snd ps = map snd reqs"
      "arena_ok a' (rev (map (\<lambda>(p, n). (p, unat n)) ps) @ ((b, off), unat n) # rs)"
      "list_all2 (\<lambda>(aligned, _) ((_, off), _). aligned \<longrightarrow> off mod 8 = 0) reqs ps"
    using Cons.IH [OF 1(3)] Cons.prems(2) by auto
  show ?case using 1(1,2) 2 by (intro exI [of _ "((b, off), n) # ps"] exI [of _ a']) (simp add: req)
qed simp

text \<open>
  C27. The arena hands out memory that is its own: after any run of requests, of any positive sizes up to
  $2^{64} - 8$ bytes, every pointer is real, its bytes lie inside one block, no two regions overlap, and the
  aligned ones are aligned.
\<close>

theorem arena_regions:
  assumes "\<forall>(aligned, n) \<in> set reqs. 0 < unat n \<and> unat n + 7 < 2 ^ 64"
  shows "\<exists>ps a. arena_run new_Arena reqs = (map (\<lambda>(p, n). (Some p, n)) ps, a) \<and> map snd ps = map snd reqs \<and>
    (\<forall>((b, off), n) \<in> set ps. b < length (blocks a) \<and> off + unat n \<le> unat (blocks a ! b)) \<and>
    sorted_wrt (\<lambda>r r'. apart r r') (rev (map (\<lambda>(p, n). (p, unat n)) ps)) \<and>
    list_all2 (\<lambda>(aligned, _) ((_, off), _). aligned \<longrightarrow> off mod 8 = 0) reqs ps"
proof -
  obtain ps a where 1: "arena_run new_Arena reqs = (map (\<lambda>(p, n). (Some p, n)) ps, a)" "map snd ps = map snd reqs"
      "arena_ok a (rev (map (\<lambda>(p, n). (p, unat n)) ps))"
      "list_all2 (\<lambda>(aligned, _) ((_, off), _). aligned \<longrightarrow> off mod 8 = 0) reqs ps"
    using arena_run_ok [OF arena_ok_new assms] by auto
  have "\<forall>((b, off), n) \<in> set ps. b < length (blocks a) \<and> off + unat n \<le> unat (blocks a ! b)"
    using 1(3) by (force simp: arena_ok_def)
  then show ?thesis using 1 by (intro exI [of _ ps] exI [of _ a]) (auto simp: arena_ok_def)
qed

theorem arena_regions_witness:
  "\<exists>ps a. arena_run new_Arena [(False, 5), (True, 40), (False, 2000)] = (map (\<lambda>(p, n). (Some p, n)) ps, a) \<and>
    map snd ps = map snd [(False, 5 :: u64), (True, 40), (False, 2000)] \<and>
    (\<forall>((b, off), n) \<in> set ps. b < length (blocks a) \<and> off + unat n \<le> unat (blocks a ! b)) \<and>
    sorted_wrt (\<lambda>r r'. apart r r') (rev (map (\<lambda>(p, n). (p, unat n)) ps)) \<and>
    list_all2 (\<lambda>(aligned, _) ((_, off), _). aligned \<longrightarrow> off mod 8 = 0) [(False, 5 :: u64), (True, 40), (False, 2000)] ps"
  by (rule arena_regions) simp

section \<open>Random numbers\<close>

record Random =
  seed :: u32

definition new_Random :: "u32 \<Rightarrow> Random" where
  "new_Random s =
     (let seed = s AND 0x7fffffff in \<lparr>seed = (if seed = 0 \<or> seed = 2147483647 then 1 else seed)\<rparr>)"

definition Random_Next :: "Random \<Rightarrow> u32 \<times> Random" where
  "Random_Next r =
     (let M = (2147483647 :: u32); A = (16807 :: u64);
          product = ucast (seed r) * A;
          s = ucast (drop_bit 31 product + (product AND ucast M));
          s = (if s > M then s - M else s)
      in (s, \<lparr>seed = s\<rparr>))"

definition Uniform :: "Random \<Rightarrow> u32 \<Rightarrow> u32 \<times> Random" where
  "Uniform r n = (let (x, r) = Random_Next r in (x mod n, r))"

definition OneIn :: "Random \<Rightarrow> u32 \<Rightarrow> bool \<times> Random" where
  "OneIn r n = (let (x, r) = Random_Next r in (x mod n = 0, r))"

text \<open>\<open>1 << n\<close> is undefined for an \<open>int\<close> and \<open>n\<close> above 30.\<close>

definition Skewed :: "Random \<Rightarrow> u32 \<Rightarrow> (u32 \<times> Random) option" where
  "Skewed r max_log =
     (let (n, r) = Uniform r (max_log + 1) in if n > 30 then None else Some (Uniform r (push_bit (unat n) 1)))"

text \<open>The generator of the comment in \<open>random.h\<close>; it never leaves the numbers from 1 to $M - 1$.\<close>

definition random_ok :: "Random \<Rightarrow> bool" where
  "random_ok r \<longleftrightarrow> 0 < unat (seed r) \<and> unat (seed r) < 2147483647"

lemma new_Random_ok: "random_ok (new_Random s)"
proof -
  have "(s AND 0x7fffffff) = take_bit 31 s" by (simp add: take_bit_eq_mask mask_eq_exp_minus_1)
  then have "unat (s AND 0x7fffffff) < 2 ^ 31" by (simp add: unat_take_bit_mod)
  moreover have "unat (s AND 0x7fffffff) \<noteq> 2147483647" if "(s AND 0x7fffffff) \<noteq> 2147483647"
    using that by (simp add: word_unat_eq_iff)
  moreover have "unat (s AND 0x7fffffff) \<noteq> 0" if "(s AND 0x7fffffff) \<noteq> 0" using that by (simp add: unat_eq_zero)
  ultimately show ?thesis by (auto simp: random_ok_def new_Random_def Let_def)
qed

lemma mersenne_no_zero:
  assumes "0 < n" "n < (2147483647 :: nat)"
  shows "(n * 16807) mod 2147483647 \<noteq> 0"
proof
  assume "(n * 16807) mod 2147483647 = 0"
  then have "(2147483647 :: nat) dvd n * 16807" by auto
  moreover have "coprime (2147483647 :: nat) 16807" by (simp add: coprime_iff_gcd_eq_1 gcd_non_0_nat)
  ultimately have "(2147483647 :: nat) dvd n" by (simp add: coprime_dvd_mult_left_iff)
  then show False using assms by (auto dest: dvd_imp_le)
qed

lemma mersenne_mod:
  fixes p :: nat
  shows "p mod 2147483647 = (p div 2 ^ 31 + p mod 2 ^ 31) mod 2147483647"
proof -
  have "p = (p div 2 ^ 31) * 2147483647 + (p div 2 ^ 31 + p mod 2 ^ 31)"
    using div_mult_mod_eq [of p "2 ^ 31"] by simp
  then show ?thesis by (metis mod_mult_self3)
qed

lemma Random_Next_eq:
  assumes "random_ok r"
  shows "unat (fst (Random_Next r)) = (unat (seed r) * 16807) mod 2147483647"
    and "random_ok (snd (Random_Next r))"
proof -
  let ?n = "unat (seed r)"
  let ?p = "?n * 16807"
  define product :: u64 where "product = ucast (seed r) * 16807"
  define t :: u64 where "t = drop_bit 31 product + (product AND ucast (2147483647 :: u32))"
  define s :: u32 where "s = ucast t"
  have n: "0 < ?n" "?n < 2147483647" using assms by (simp_all add: random_ok_def)
  have product: "unat product = ?p"
  proof -
    have "unat (ucast (seed r) :: u64) = ?n" using unat_lt_32 [of "seed r"] by (simp add: unsigned_ucast_eq take_bit_eq_mod)
    then show ?thesis unfolding product_def using n(2) by (subst unat_mult_lem [THEN iffD1]) simp_all
  qed
  let ?a = "?p div 2 ^ 31"
  let ?b = "?p mod 2 ^ 31"
  have a: "unat (drop_bit 31 product) = ?a" by (simp add: unat_drop_bit_div product)
  have "product AND ucast (2147483647 :: u32) = take_bit 31 product" by (simp add: take_bit_eq_mask mask_eq_exp_minus_1)
  then have b: "unat (product AND ucast (2147483647 :: u32)) = ?b" by (simp add: unat_take_bit_mod product)
  have bound: "?a < 16808" "?b < 2 ^ 31" using n(2) by simp_all
  have t: "unat t = ?a + ?b" unfolding t_def using a b bound by (subst unat_add_lem [THEN iffD1]) simp_all
  have "unat s = unat t mod 2 ^ 32" by (simp add: s_def unsigned_ucast_eq take_bit_eq_mod)
  moreover have "?a + ?b < 2 ^ 32" using bound by simp
  ultimately have s: "unat s = ?a + ?b" by (simp only: t mod_less)
  have eq: "Random_Next r = (let s = (if s > 2147483647 then s - 2147483647 else s) in (s, \<lparr>seed = s\<rparr>))"
    by (simp add: Random_Next_def s_def t_def product_def Let_def)
  define q where "q = ?a + ?b"
  have nz: "q mod 2147483647 \<noteq> 0" using mersenne_no_zero [OF n] mersenne_mod [of ?p] by (simp add: q_def)
  have small: "q < 2 * 2147483647" using bound by (simp add: q_def)
  note s = s [folded q_def]
  have "unat (if s > 2147483647 then s - 2147483647 else s) = q mod 2147483647"
  proof (cases "s > 2147483647")
    case True
    then have "2147483647 < q" using s by (simp add: word_less_nat_alt)
    moreover have "unat (s - 2147483647) = q - 2147483647" using True s by (simp add: unat_sub word_le_nat_alt word_less_nat_alt)
    ultimately show ?thesis using True small by (simp add: mod_if)
  next
    case False
    then have "q \<le> 2147483647" using s by (simp add: word_less_nat_alt)
    moreover have "q \<noteq> 2147483647" using nz by auto
    ultimately show ?thesis using False s by simp
  qed
  then have result: "unat (fst (Random_Next r)) = q mod 2147483647" "seed (snd (Random_Next r)) = fst (Random_Next r)"
    by (simp_all add: eq Let_def)
  then show "unat (fst (Random_Next r)) = (unat (seed r) * 16807) mod 2147483647"
    using mersenne_mod [of ?p] by (simp add: q_def)
  show "random_ok (snd (Random_Next r))" unfolding random_ok_def result using nz by simp
qed

end
