(* ===== verification/LDB_SkipList.thy ===== *)
theory LDB_SkipList
  imports LDB_Arena
begin

text \<open>
  The skip list of \<open>skiplist.h\<close>: nodes in the memory of an arena, linked at up to twelve levels. The
  functions return \<open>None\<close> where they follow a null pointer or read a link that is not there or was never
  set.
\<close>

section \<open>Nodes\<close>

text \<open>
  A node has an array of \<open>node_height\<close> links, which have no value until they are set. The key of the head
  is the null pointer, \<open>None\<close>.
\<close>

record 'k node =
  node_key :: "'k option"
  node_height :: nat
  links :: "nat \<rightharpoonup> arena_ptr option"

record 'k SkipList =
  sl_nodes :: "arena_ptr \<rightharpoonup> 'k node"
  sl_head :: arena_ptr
  max_height :: nat
  rnd :: Random

definition kMaxHeight :: nat where "kMaxHeight = 12"

definition node_Next :: "'k SkipList \<Rightarrow> arena_ptr \<Rightarrow> nat \<Rightarrow> arena_ptr option option" where
  "node_Next sl x n = do { nd \<leftarrow> sl_nodes sl x; if n < node_height nd then links nd n else None }"

definition node_SetNext :: "'k SkipList \<Rightarrow> arena_ptr \<Rightarrow> nat \<Rightarrow> arena_ptr option \<Rightarrow> 'k SkipList option" where
  "node_SetNext sl x n p = do {
     nd \<leftarrow> sl_nodes sl x;
     if n < node_height nd then Some (sl\<lparr>sl_nodes := (sl_nodes sl)(x \<mapsto> nd\<lparr>links := (links nd)(n \<mapsto> p)\<rparr>)\<rparr>) else None }"

definition key_at :: "'k SkipList \<Rightarrow> arena_ptr \<Rightarrow> 'k option" where
  "key_at sl x = do { nd \<leftarrow> sl_nodes sl x; node_key nd }"

text \<open>\<open>sizeof(Node)\<close> is 16, a key and one link.\<close>

definition NewNode :: "'k SkipList \<Rightarrow> Arena \<Rightarrow> 'k option \<Rightarrow> nat \<Rightarrow> (arena_ptr \<times> 'k SkipList \<times> Arena) option" where
  "NewNode sl arena k height =
     (let (p, arena) = AllocateAligned arena (16 + 8 * (of_nat height - 1)) in do {
        x \<leftarrow> p;
        Some (x, sl\<lparr>sl_nodes := (sl_nodes sl)(x \<mapsto> \<lparr>node_key = k, node_height = height, links = Map.empty\<rparr>)\<rparr>, arena) })"

section \<open>Heights\<close>

function RandomHeight_loop :: "nat \<Rightarrow> Random \<Rightarrow> nat \<times> Random" where
  "RandomHeight_loop height r =
     (if height < kMaxHeight then
        let (x, r) = Random_Next r in
        if x mod 4 = 0 then RandomHeight_loop (height + 1) r else (height, r)
      else (height, r))"
  by pat_completeness auto
termination by (relation "measure (\<lambda>(h, r). kMaxHeight - h)") auto

declare RandomHeight_loop.simps [simp del]

definition RandomHeight :: "Random \<Rightarrow> nat \<times> Random" where
  "RandomHeight r = RandomHeight_loop 1 r"

section \<open>Searching\<close>

text \<open>The comparator is a parameter.\<close>

definition KeyIsAfterNode :: "('k \<Rightarrow> 'k \<Rightarrow> int) \<Rightarrow> 'k SkipList \<Rightarrow> 'k \<Rightarrow> arena_ptr option \<Rightarrow> bool option" where
  "KeyIsAfterNode cmp sl key n =
     (case n of None \<Rightarrow> Some False | Some x \<Rightarrow> do { k \<leftarrow> key_at sl x; Some (cmp k key < 0) })"

text \<open>The array \<open>prev\<close> is a map from levels to nodes; the argument \<open>prev\<close> may be \<open>NULL\<close>.\<close>

partial_function (option) fge_loop ::
  "('k \<Rightarrow> 'k \<Rightarrow> int) \<Rightarrow> 'k SkipList \<Rightarrow> 'k \<Rightarrow> arena_ptr \<Rightarrow> nat \<Rightarrow> (nat \<rightharpoonup> arena_ptr) option \<Rightarrow>
     (arena_ptr option \<times> (nat \<rightharpoonup> arena_ptr) option) option" where
  "fge_loop cmp sl key x level prev = do {
     nxt \<leftarrow> node_Next sl x level;
     after \<leftarrow> KeyIsAfterNode cmp sl key nxt;
     if after then do { x \<leftarrow> nxt; fge_loop cmp sl key x level prev }
     else
       let prev = map_option (\<lambda>m. m(level \<mapsto> x)) prev in
       if level = 0 then Some (nxt, prev) else fge_loop cmp sl key x (level - 1) prev }"

definition FindGreaterOrEqual ::
  "('k \<Rightarrow> 'k \<Rightarrow> int) \<Rightarrow> 'k SkipList \<Rightarrow> 'k \<Rightarrow> (nat \<rightharpoonup> arena_ptr) option \<Rightarrow>
     (arena_ptr option \<times> (nat \<rightharpoonup> arena_ptr) option) option" where
  "FindGreaterOrEqual cmp sl key prev = fge_loop cmp sl key (sl_head sl) (max_height sl - 1) prev"

partial_function (option) flt_loop :: "('k \<Rightarrow> 'k \<Rightarrow> int) \<Rightarrow> 'k SkipList \<Rightarrow> 'k \<Rightarrow> arena_ptr \<Rightarrow> nat \<Rightarrow> arena_ptr option" where
  "flt_loop cmp sl key x level = do {
     nxt \<leftarrow> node_Next sl x level;
     stop \<leftarrow> (case nxt of None \<Rightarrow> Some True | Some y \<Rightarrow> do { k \<leftarrow> key_at sl y; Some (cmp k key \<ge> 0) });
     if stop then if level = 0 then Some x else flt_loop cmp sl key x (level - 1)
     else do { x \<leftarrow> nxt; flt_loop cmp sl key x level } }"

definition FindLessThan :: "('k \<Rightarrow> 'k \<Rightarrow> int) \<Rightarrow> 'k SkipList \<Rightarrow> 'k \<Rightarrow> arena_ptr option" where
  "FindLessThan cmp sl key = flt_loop cmp sl key (sl_head sl) (max_height sl - 1)"

partial_function (option) last_loop :: "'k SkipList \<Rightarrow> arena_ptr \<Rightarrow> nat \<Rightarrow> arena_ptr option" where
  "last_loop sl x level = do {
     nxt \<leftarrow> node_Next sl x level;
     (case nxt of
        None \<Rightarrow> if level = 0 then Some x else last_loop sl x (level - 1)
      | Some y \<Rightarrow> last_loop sl y level) }"

definition FindLast :: "'k SkipList \<Rightarrow> arena_ptr option" where
  "FindLast sl = last_loop sl (sl_head sl) (max_height sl - 1)"

section \<open>Changing\<close>

text \<open>The links of the head are set one by one; the list has no head yet when it is built.\<close>

definition new_SkipList :: "Arena \<Rightarrow> ('k SkipList \<times> Arena) option" where
  "new_SkipList arena = do {
     (h, sl, arena) \<leftarrow> NewNode \<lparr>sl_nodes = Map.empty, sl_head = (0, 0), max_height = 1, rnd = new_Random 0xdeadbeef\<rparr>
       arena None kMaxHeight;
     sl \<leftarrow> fold (\<lambda>i s. Option.bind s (\<lambda>sl. node_SetNext sl h i None)) [0..<kMaxHeight] (Some (sl\<lparr>sl_head := h\<rparr>));
     Some (sl, arena) }"

text \<open>One iteration of the loop that links a new node: first its own link, then that of the node before it.\<close>

definition link_own :: "(nat \<rightharpoonup> arena_ptr) \<Rightarrow> arena_ptr \<Rightarrow> nat \<Rightarrow> 'k SkipList \<Rightarrow> 'k SkipList option" where
  "link_own prev x i sl = do {
     p \<leftarrow> prev i;
     q \<leftarrow> node_Next sl p i;
     node_SetNext sl x i q }"

definition link_level :: "(nat \<rightharpoonup> arena_ptr) \<Rightarrow> arena_ptr \<Rightarrow> nat \<Rightarrow> 'k SkipList \<Rightarrow> 'k SkipList option" where
  "link_level prev x i sl = do {
     sl \<leftarrow> link_own prev x i sl;
     p \<leftarrow> prev i;
     node_SetNext sl p i (Some x) }"

fun link_levels :: "(nat \<rightharpoonup> arena_ptr) \<Rightarrow> arena_ptr \<Rightarrow> nat list \<Rightarrow> 'k SkipList \<Rightarrow> 'k SkipList option" where
  "link_levels prev x [] sl = Some sl"
| "link_levels prev x (i # is) sl = do { sl \<leftarrow> link_level prev x i sl; link_levels prev x is sl }"

text \<open>\<open>Insert\<close> up to the loop: the new node, its height, and the nodes before it.\<close>

definition prepare_insert ::
  "('k \<Rightarrow> 'k \<Rightarrow> int) \<Rightarrow> 'k SkipList \<Rightarrow> Arena \<Rightarrow> 'k \<Rightarrow> (arena_ptr \<times> nat \<times> (nat \<rightharpoonup> arena_ptr) \<times> 'k SkipList \<times> Arena) option" where
  "prepare_insert cmp sl arena key = do {
     (_, prev) \<leftarrow> FindGreaterOrEqual cmp sl key (Some Map.empty);
     prev \<leftarrow> prev;
     let (height, r) = RandomHeight (rnd sl);
         sl = sl\<lparr>rnd := r\<rparr>;
         (prev, sl) =
           (if height > max_height sl
            then (fold (\<lambda>i prev. prev(i \<mapsto> sl_head sl)) [max_height sl..<height] prev, sl\<lparr>max_height := height\<rparr>)
            else (prev, sl))
     in do {
     (x, sl, arena) \<leftarrow> NewNode sl arena (Some key) height;
     Some (x, height, prev, sl, arena) } }"

definition skip_Insert :: "('k \<Rightarrow> 'k \<Rightarrow> int) \<Rightarrow> 'k SkipList \<Rightarrow> Arena \<Rightarrow> 'k \<Rightarrow> ('k SkipList \<times> Arena) option" where
  "skip_Insert cmp sl arena key = do {
     (x, height, prev, sl, arena) \<leftarrow> prepare_insert cmp sl arena key;
     sl \<leftarrow> link_levels prev x [0..<height] sl;
     Some (sl, arena) }"

definition skip_Contains :: "('k \<Rightarrow> 'k \<Rightarrow> int) \<Rightarrow> 'k SkipList \<Rightarrow> 'k \<Rightarrow> bool option" where
  "skip_Contains cmp sl key = do {
     (x, _) \<leftarrow> FindGreaterOrEqual cmp sl key None;
     (case x of None \<Rightarrow> Some False | Some y \<Rightarrow> do { k \<leftarrow> key_at sl y; Some (cmp key k = 0) }) }"

section \<open>Iterators\<close>

text \<open>The state of an iterator is its node. \<open>None\<close> of the outer type is a call that is not allowed.\<close>

type_synonym skip_iter = "arena_ptr option"

definition skip_Valid :: "skip_iter \<Rightarrow> bool" where
  "skip_Valid it \<longleftrightarrow> it \<noteq> None"

definition skip_key :: "'k SkipList \<Rightarrow> skip_iter \<Rightarrow> 'k option" where
  "skip_key sl it = do { x \<leftarrow> it; key_at sl x }"

definition skip_Next :: "'k SkipList \<Rightarrow> skip_iter \<Rightarrow> skip_iter option" where
  "skip_Next sl it = do { x \<leftarrow> it; node_Next sl x 0 }"

definition skip_Prev :: "('k \<Rightarrow> 'k \<Rightarrow> int) \<Rightarrow> 'k SkipList \<Rightarrow> skip_iter \<Rightarrow> skip_iter option" where
  "skip_Prev cmp sl it = do {
     x \<leftarrow> it;
     k \<leftarrow> key_at sl x;
     y \<leftarrow> FindLessThan cmp sl k;
     Some (if y = sl_head sl then None else Some y) }"

definition skip_Seek :: "('k \<Rightarrow> 'k \<Rightarrow> int) \<Rightarrow> 'k SkipList \<Rightarrow> 'k \<Rightarrow> skip_iter option" where
  "skip_Seek cmp sl target = map_option fst (FindGreaterOrEqual cmp sl target None)"

definition skip_SeekToFirst :: "'k SkipList \<Rightarrow> skip_iter option" where
  "skip_SeekToFirst sl = node_Next sl (sl_head sl) 0"

definition skip_SeekToLast :: "'k SkipList \<Rightarrow> skip_iter option" where
  "skip_SeekToLast sl = do { y \<leftarrow> FindLast sl; Some (if y = sl_head sl then None else Some y) }"

end
