(* ===== verification/LDB_SkipList_Correct.thy ===== *)
theory LDB_SkipList_Correct
  imports LDB_SkipList LDB_Coding
begin

text \<open>
  A skip list is a sorted list: what searching, iterating and inserting do to the list of its keys, also
  while an insertion is under way.
\<close>

section \<open>Chains of links\<close>

fun chain :: "'k SkipList \<Rightarrow> nat \<Rightarrow> arena_ptr \<Rightarrow> arena_ptr list \<Rightarrow> bool" where
  "chain sl l x [] \<longleftrightarrow> node_Next sl x l = Some None"
| "chain sl l x (q # qs) \<longleftrightarrow> node_Next sl x l = Some (Some q) \<and> chain sl l q qs"

lemma chain_append: "chain sl l x (as @ bs) \<Longrightarrow> chain sl l (last (x # as)) bs"
  by (induction as arbitrary: x) auto

lemma chain_cong:
  "(\<And>q. q = x \<or> q \<in> set qs \<Longrightarrow> node_Next sl' q l = node_Next sl q l) \<Longrightarrow> chain sl' l x qs = chain sl l x qs"
  by (induction qs arbitrary: x) auto

lemma chain_splice:
  assumes "chain sl l x (as @ bs)" "distinct (x # as @ bs)" "y \<notin> set (x # as @ bs)"
    and "node_Next sl' y l = node_Next sl (last (x # as)) l" "node_Next sl' (last (x # as)) l = Some (Some y)"
    and "\<And>q. q \<noteq> y \<Longrightarrow> q \<noteq> last (x # as) \<Longrightarrow> node_Next sl' q l = node_Next sl q l"
  shows "chain sl' l x (as @ y # bs)"
  using assms
proof (induction as arbitrary: x)
  case Nil
  have "chain sl' l b bs' = chain sl l b bs'" if "bs = b # bs'" for b bs'
  proof (rule chain_cong)
    fix q assume "q = b \<or> q \<in> set bs'"
    then have "q \<noteq> y" "q \<noteq> x" using Nil.prems(2,3) that by auto
    then show "node_Next sl' q l = node_Next sl q l" using Nil.prems(6) by simp
  qed
  then show ?case using Nil by (cases bs) auto
next
  case (Cons a as)
  have "node_Next sl' x l = node_Next sl x l" using Cons.prems(2,3) by (intro Cons.prems(6)) auto
  moreover have "chain sl' l a (as @ y # bs)" using Cons.prems by (intro Cons.IH) auto
  ultimately show ?case using Cons.prems(1) by simp
qed

lemma node_SetNext_Some:
  assumes "node_SetNext sl x n p = Some sl'"
  shows "node_Next sl' y m = (if y = x \<and> m = n then Some p else node_Next sl y m)"
    and "key_at sl' = key_at sl" and "sl_head sl' = sl_head sl" and "max_height sl' = max_height sl"
    and "dom (sl_nodes sl') = dom (sl_nodes sl)"
    and "map_option node_height (sl_nodes sl' y) = map_option node_height (sl_nodes sl y)"
  using assms
  by (auto simp: node_SetNext_def node_Next_def key_at_def bind_Some_iff fun_eq_iff split: if_splits)

lemma node_SetNext_new: "map_option node_height (sl_nodes sl x) = Some h \<Longrightarrow> n < h \<Longrightarrow> \<exists>sl'. node_SetNext sl x n p = Some sl'"
  by (auto simp: node_SetNext_def)

lemma node_SetNext_ok: "node_Next sl x n = Some q \<Longrightarrow> \<exists>sl'. node_SetNext sl x n p = Some sl'"
  by (auto simp: node_SetNext_def node_Next_def bind_Some_iff split: if_splits)

section \<open>The list of a skip list\<close>

text \<open>
  The nodes \<open>ps\<close> in order; \<open>ht\<close> is the number of levels at which a node is linked. Any height of the
  search from 1 to \<open>kMaxHeight\<close> will do, so a reader may use an old one.
\<close>

abbreviation key_of :: "'k SkipList \<Rightarrow> arena_ptr \<Rightarrow> 'k" where
  "key_of sl p \<equiv> the (key_at sl p)"

definition linked :: "'k SkipList \<Rightarrow> arena_ptr list \<Rightarrow> (arena_ptr \<Rightarrow> nat) \<Rightarrow> bool" where
  "linked sl ps ht \<longleftrightarrow> distinct (sl_head sl # ps) \<and> (\<forall>p \<in> set ps. key_at sl p \<noteq> None) \<and>
     (\<forall>l < kMaxHeight. chain sl l (sl_head sl) (filter (\<lambda>p. l < ht p) ps)) \<and>
     1 \<le> max_height sl \<and> max_height sl \<le> kMaxHeight"

text \<open>A search stands at the node \<open>x\<close> at level \<open>l\<close>; the nodes \<open>xs\<close> up to it are before what is looked for.\<close>

definition search_at ::
  "'k SkipList \<Rightarrow> arena_ptr list \<Rightarrow> (arena_ptr \<Rightarrow> nat) \<Rightarrow> (arena_ptr \<Rightarrow> bool) \<Rightarrow> nat \<Rightarrow> arena_ptr list \<Rightarrow> arena_ptr list \<Rightarrow> arena_ptr \<Rightarrow> bool" where
  "search_at sl ps ht before l xs ys x \<longleftrightarrow> ps = xs @ ys \<and> x = last (sl_head sl # xs) \<and> (xs = [] \<or> l < ht x) \<and>
     (\<forall>p \<in> set xs. before p)"

definition downward :: "'a list \<Rightarrow> ('a \<Rightarrow> bool) \<Rightarrow> bool" where
  "downward xs P \<longleftrightarrow> (\<forall>us y vs x. xs = us @ y # vs \<longrightarrow> x \<in> set us \<longrightarrow> P y \<longrightarrow> P x)"

definition hd_option :: "'a list \<Rightarrow> 'a option" where
  "hd_option xs = (case xs of [] \<Rightarrow> None | x # _ \<Rightarrow> Some x)"

lemma downward_True: "downward xs (\<lambda>x. True)"
  by (simp add: downward_def)

lemma hd_option_simps [simp]: "hd_option [] = None" "hd_option (x # xs) = Some x"
  by (simp_all add: hd_option_def)

lemma search_step:
  assumes linked: "linked sl ps ht" and at: "search_at sl ps ht before l xs ys x" and l: "l < kMaxHeight"
    and mono: "downward ps before"
  obtains (stop) nxt where "node_Next sl x l = Some nxt" "\<And>q. nxt = Some q \<Longrightarrow> q \<in> set ps \<and> \<not> before q"
      "filter (\<lambda>p. l < ht p) (takeWhile before ps) = filter (\<lambda>p. l < ht p) xs"
      "(\<forall>p \<in> set ps. 0 < ht p) \<Longrightarrow> l = 0 \<Longrightarrow> takeWhile before ps = xs \<and> nxt = hd_option (dropWhile before ps)"
    | (advance) q us vs where "node_Next sl x l = Some (Some q)" "q \<in> set ps" "before q" "ys = us @ q # vs"
      "search_at sl ps ht before l (xs @ us @ [q]) vs q"
proof -
  have ps: "ps = xs @ ys" and x: "x = last (sl_head sl # xs)" "xs = [] \<or> l < ht x" and bef: "\<forall>p \<in> set xs. before p"
    using at by (auto simp: search_at_def)
  have "chain sl l (sl_head sl) (filter (\<lambda>p. l < ht p) xs @ filter (\<lambda>p. l < ht p) ys)"
    using linked l by (simp add: linked_def ps)
  then have "chain sl l (last (sl_head sl # filter (\<lambda>p. l < ht p) xs)) (filter (\<lambda>p. l < ht p) ys)"
    by (rule chain_append)
  moreover have "last (sl_head sl # filter (\<lambda>p. l < ht p) xs) = x"
    using x by (cases xs rule: rev_cases) auto
  ultimately have ch: "chain sl l x (filter (\<lambda>p. l < ht p) ys)" by simp
  have tw: "takeWhile before ps = xs @ takeWhile before ys" "dropWhile before ps = dropWhile before ys"
    using bef by (simp_all add: ps)
  show ?thesis
  proof (cases "filter (\<lambda>p. l < ht p) ys")
    case Nil
    then have none: "\<forall>p \<in> set ys. \<not> l < ht p" by (simp add: filter_empty_conv)
    then have "filter (\<lambda>p. l < ht p) (takeWhile before ys) = []" by (auto simp: filter_empty_conv dest: set_takeWhileD)
    moreover have "ys = []" if "\<forall>p \<in> set ps. 0 < ht p" "l = 0" using none that by (cases ys) (auto simp: ps)
    ultimately show ?thesis using ch Nil by (intro stop [of None]) (auto simp: tw)
  next
    case (Cons q rest)
    then obtain us vs where ys: "ys = us @ q # vs" "\<forall>u \<in> set us. \<not> l < ht u" "l < ht q"
      by (auto simp: filter_eq_Cons_iff)
    have q: "q \<in> set ps" "node_Next sl x l = Some (Some q)" using ch Cons by (simp_all add: ps ys)
    show ?thesis
    proof (cases "before q")
      case True
      have "before p" if "p \<in> set us" for p using mono that True unfolding downward_def ps ys by (metis append.assoc Un_iff set_append)
      then have "search_at sl ps ht before l (xs @ us @ [q]) vs q"
        using bef True ys by (auto simp: search_at_def ps)
      then show ?thesis using q True ys(1) by (intro advance)
    next
      case False
      have *: "set (takeWhile before ys) \<subseteq> set us"
      proof (cases "\<forall>u \<in> set us. before u")
        case True
        then show ?thesis using False by (simp add: ys(1))
      next
        case F: False
        then show ?thesis by (auto simp: ys(1) takeWhile_append dest: set_takeWhileD)
      qed
      then have "filter (\<lambda>p. l < ht p) (takeWhile before ys) = []" using ys(2) by (auto simp: filter_empty_conv)
      moreover have "us = []" if "\<forall>p \<in> set ps. 0 < ht p" "l = 0" using ys that by (cases us) (auto simp: ps)
      ultimately show ?thesis using q False by (intro stop [of "Some q"]) (auto simp: tw ys(1))
    qed
  qed
qed

section \<open>Searching\<close>

lemma KeyIsAfterNode_Some:
  assumes "linked sl ps ht" "q \<in> set ps"
  shows "KeyIsAfterNode cmp sl key (Some q) = Some (cmp (key_of sl q) key < 0)"
  using assms by (force simp: KeyIsAfterNode_def linked_def)

lemma fge_loop_search:
  assumes linked: "linked sl ps ht"
    and mono: "downward ps (\<lambda>p. cmp (key_of sl p) key < 0)"
    and pos: "\<forall>p \<in> set ps. 0 < ht p"
  defines "before \<equiv> \<lambda>p. cmp (key_of sl p) key < 0"
  shows "search_at sl ps ht before l xs ys x \<Longrightarrow> l < kMaxHeight \<Longrightarrow>
    \<exists>prev'. fge_loop cmp sl key x l prev = Some (hd_option (dropWhile before ps), prev') \<and>
      (\<forall>m. prev = Some m \<longrightarrow> (\<exists>m'. prev' = Some m' \<and>
        (\<forall>i. m' i = (if i \<le> l then Some (last (sl_head sl # filter (\<lambda>p. i < ht p) (takeWhile before ps))) else m i))))"
proof (induction "l + length ys" arbitrary: l xs ys x prev rule: less_induct)
  case less
  have mono': "downward ps before" using mono by (simp add: before_def)
  note xs = less.prems(1) [unfolded search_at_def]
  show ?case
  proof (rule search_step [OF linked less.prems mono'], goal_cases)
    case advance: (2 q us vs)
    obtain prev' where "fge_loop cmp sl key q l prev = Some (hd_option (dropWhile before ps), prev')"
      "\<forall>m. prev = Some m \<longrightarrow> (\<exists>m'. prev' = Some m' \<and>
        (\<forall>i. m' i = (if i \<le> l then Some (last (sl_head sl # filter (\<lambda>p. i < ht p) (takeWhile before ps))) else m i)))"
      using less.hyps [OF _ advance(5) less.prems(2), of prev] advance(4) by auto
    then show ?thesis using advance(1,3) KeyIsAfterNode_Some [OF linked advance(2), of cmp key]
      by (intro exI [of _ prev']) (subst fge_loop.simps, simp add: before_def)
  next
    case stop: (1 nxt)
    have after: "KeyIsAfterNode cmp sl key nxt = Some False"
    proof (cases nxt)
      case None
      then show ?thesis by (simp add: KeyIsAfterNode_def)
    next
      case (Some q)
      then show ?thesis using stop(2) [OF Some] KeyIsAfterNode_Some [OF linked, of q cmp key] by (simp add: before_def)
    qed
    have last: "x = last (sl_head sl # filter (\<lambda>p. l < ht p) (takeWhile before ps))"
      using xs unfolding stop(3) by (cases xs rule: rev_cases) auto
    show ?thesis
    proof (cases "l = 0")
      case True
      then show ?thesis using stop(1) after stop(4) [OF pos True] last by (subst fge_loop.simps) (auto simp: Let_def)
    next
      case False
      have "search_at sl ps ht before (l - 1) xs ys x" using less.prems(1) by (auto simp: search_at_def)
      then obtain prev' where p: "fge_loop cmp sl key x (l - 1) (map_option (\<lambda>m. m(l \<mapsto> x)) prev) = Some (hd_option (dropWhile before ps), prev')"
        "\<forall>m. map_option (\<lambda>m. m(l \<mapsto> x)) prev = Some m \<longrightarrow> (\<exists>m'. prev' = Some m' \<and>
        (\<forall>i. m' i = (if i \<le> l - 1 then Some (last (sl_head sl # filter (\<lambda>p. i < ht p) (takeWhile before ps))) else m i)))"
        using less.hyps [of "l - 1" ys xs x "map_option (\<lambda>m. m(l \<mapsto> x)) prev"] less.prems(2) False by fastforce
      have "fge_loop cmp sl key x l prev = Some (hd_option (dropWhile before ps), prev')"
        using stop(1) after False p(1) by (subst fge_loop.simps) (simp add: Let_def)
      moreover have "\<exists>m'. prev' = Some m' \<and>
          (\<forall>i. m' i = (if i \<le> l then Some (last (sl_head sl # filter (\<lambda>p. i < ht p) (takeWhile before ps))) else m i))"
        if "prev = Some m" for m
        using p(2) that False last by (auto simp: le_less)
      ultimately show ?thesis by blast
    qed
  qed
qed

lemma flt_loop_search:
  assumes linked: "linked sl ps ht"
    and mono: "downward ps (\<lambda>p. cmp (key_of sl p) key < 0)"
    and pos: "\<forall>p \<in> set ps. 0 < ht p"
  defines "before \<equiv> \<lambda>p. cmp (key_of sl p) key < 0"
  shows "search_at sl ps ht before l xs ys x \<Longrightarrow> l < kMaxHeight \<Longrightarrow>
    flt_loop cmp sl key x l = Some (last (sl_head sl # takeWhile before ps))"
proof (induction "l + length ys" arbitrary: l xs ys x rule: less_induct)
  case less
  have mono': "downward ps before" using mono by (simp add: before_def)
  have key: "\<exists>k. key_at sl q = Some k" if "q \<in> set ps" for q using linked that by (force simp: linked_def)
  show ?case
  proof (rule search_step [OF linked less.prems mono'], goal_cases)
    case advance: (2 q us vs)
    obtain k where "key_at sl q = Some k" using key [OF advance(2)] ..
    then show ?thesis using less.hyps [OF _ advance(5) less.prems(2)] advance
      by (subst flt_loop.simps) (simp add: before_def)
  next
    case stop: (1 nxt)
    have st: "(case nxt of None \<Rightarrow> Some True | Some y \<Rightarrow> do { k \<leftarrow> key_at sl y; Some (cmp k key \<ge> 0) }) = Some True"
    proof (cases nxt)
      case (Some q)
      then obtain k where "key_at sl q = Some k" using key stop(2) by blast
      then show ?thesis using stop(2) Some by (simp add: before_def)
    qed simp
    show ?thesis
    proof (cases "l = 0")
      case True
      then show ?thesis using stop(1) st stop(4) [OF pos True] less.prems(1) by (subst flt_loop.simps) (simp add: search_at_def)
    next
      case False
      have "search_at sl ps ht before (l - 1) xs ys x" using less.prems(1) by (auto simp: search_at_def)
      then show ?thesis using less.hyps [of "l - 1" ys xs x] less.prems(2) False stop(1) st by (subst flt_loop.simps) simp
    qed
  qed
qed

lemma last_loop_search:
  assumes linked: "linked sl ps ht" and pos: "\<forall>p \<in> set ps. 0 < ht p"
  shows "search_at sl ps ht (\<lambda>p. True) l xs ys x \<Longrightarrow> l < kMaxHeight \<Longrightarrow> last_loop sl x l = Some (last (sl_head sl # ps))"
proof (induction "l + length ys" arbitrary: l xs ys x rule: less_induct)
  case less
  show ?case
  proof (rule search_step [OF linked less.prems downward_True], goal_cases)
    case advance: (2 q us vs)
    then show ?thesis using less.hyps [OF _ advance(5) less.prems(2)] by (subst last_loop.simps) simp
  next
    case stop: (1 nxt)
    have "nxt = None" using stop(2) by (cases nxt) auto
    show ?thesis
    proof (cases "l = 0")
      case True
      have "takeWhile (\<lambda>p. True) ps = ps" by (simp add: takeWhile_eq_all_conv)
      then have "x = last (sl_head sl # ps)" using stop(4) [OF pos True] less.prems(1) by (simp add: search_at_def)
      then show ?thesis using stop(1) \<open>nxt = None\<close> True by (subst last_loop.simps) simp
    next
      case False
      have "search_at sl ps ht (\<lambda>p. True) (l - 1) xs ys x" using less.prems(1) by (auto simp: search_at_def)
      then show ?thesis using less.hyps [of "l - 1" ys xs x] less.prems(2) False stop(1) \<open>nxt = None\<close> by (subst last_loop.simps) simp
    qed
  qed
qed

lemma search_start: "search_at sl ps ht before l [] ps (sl_head sl)"
  by (simp add: search_at_def)

section \<open>Reading\<close>

text \<open>The keys of a skip list, in order; a client's loops over an iterator.\<close>

definition holds :: "('k \<Rightarrow> 'k \<Rightarrow> int) \<Rightarrow> 'k SkipList \<Rightarrow> 'k list \<Rightarrow> bool" where
  "holds cmp sl ks \<longleftrightarrow> (\<exists>ps ht. linked sl ps ht \<and> (\<forall>p \<in> set ps. 0 < ht p) \<and> map (key_of sl) ps = ks \<and>
     sorted_wrt (\<lambda>a b. cmp a b < 0) ks)"

partial_function (option) keys_forward :: "'k SkipList \<Rightarrow> skip_iter \<Rightarrow> 'k list option" where
  "keys_forward sl it =
     (if skip_Valid it then do { k \<leftarrow> skip_key sl it; it \<leftarrow> skip_Next sl it; ks \<leftarrow> keys_forward sl it; Some (k # ks) }
      else Some [])"

partial_function (option) keys_backward :: "('k \<Rightarrow> 'k \<Rightarrow> int) \<Rightarrow> 'k SkipList \<Rightarrow> skip_iter \<Rightarrow> 'k list option" where
  "keys_backward cmp sl it =
     (if skip_Valid it then do { k \<leftarrow> skip_key sl it; it \<leftarrow> skip_Prev cmp sl it; ks \<leftarrow> keys_backward cmp sl it; Some (k # ks) }
      else Some [])"

lemma linked_key: "linked sl ps ht \<Longrightarrow> p \<in> set ps \<Longrightarrow> \<exists>k. key_at sl p = Some k"
  by (force simp: linked_def)

lemma linked_level_0:
  assumes "linked sl (xs @ ys) ht" "\<forall>p \<in> set (xs @ ys). 0 < ht p"
  shows "node_Next sl (last (sl_head sl # xs)) 0 = Some (hd_option ys)"
proof -
  have "filter (\<lambda>p. 0 < ht p) (xs @ ys) = xs @ ys" using assms(2) by (simp add: filter_id_conv)
  then have "chain sl 0 (sl_head sl) (xs @ ys)" using assms(1) by (fastforce simp: linked_def kMaxHeight_def)
  then have "chain sl 0 (last (sl_head sl # xs)) ys" by (rule chain_append)
  then show ?thesis by (cases ys) auto
qed

lemma keys_forward_at:
  assumes "linked sl (xs @ ys) ht" "\<forall>p \<in> set (xs @ ys). 0 < ht p"
  shows "keys_forward sl (hd_option ys) = Some (map (key_of sl) ys)"
  using assms
proof (induction ys arbitrary: xs)
  case Nil
  then show ?case by (subst keys_forward.simps) (simp add: skip_Valid_def)
next
  case (Cons y ys)
  obtain k where k: "key_at sl y = Some k" using linked_key [OF Cons.prems(1), of y] by auto
  have "node_Next sl y 0 = Some (hd_option ys)" using linked_level_0 [of sl "xs @ [y]" ys ht] Cons.prems by simp
  moreover have "keys_forward sl (hd_option ys) = Some (map (key_of sl) ys)" using Cons.IH [of "xs @ [y]"] Cons.prems by simp
  ultimately show ?case using k by (subst keys_forward.simps) (simp add: skip_Valid_def skip_key_def skip_Next_def)
qed

context key_order begin

lemma downward_less:
  assumes "sorted_wrt (\<lambda>a b. Compare a b < 0) (map (key_of sl) ps)" "\<forall>p \<in> set ps. ok (key_of sl p)" "ok key"
  shows "downward ps (\<lambda>p. Compare (key_of sl p) key < 0)"
  unfolding downward_def
proof (intro allI impI)
  fix us q vs p
  assume ps: "ps = us @ q # vs" and p: "p \<in> set us" and q: "Compare (key_of sl q) key < 0"
  have "Compare (key_of sl p) (key_of sl q) < 0" using assms(1) ps p by (auto simp: sorted_wrt_append)
  then show "Compare (key_of sl p) key < 0"
    using compare_less_trans [of "key_of sl p" "key_of sl q" key] assms(2,3) ps p q by simp
qed

lemma FindGreaterOrEqual_linked:
  assumes "linked sl ps ht" "\<forall>p \<in> set ps. 0 < ht p" "sorted_wrt (\<lambda>a b. Compare a b < 0) (map (key_of sl) ps)"
    and "\<forall>p \<in> set ps. ok (key_of sl p)" "ok key"
  defines "before \<equiv> \<lambda>p. Compare (key_of sl p) key < 0"
  shows "\<exists>prev'. FindGreaterOrEqual Compare sl key prev = Some (hd_option (dropWhile before ps), prev') \<and>
      (\<forall>m. prev = Some m \<longrightarrow> (\<exists>m'. prev' = Some m' \<and>
        (\<forall>i. m' i = (if i < max_height sl then Some (last (sl_head sl # filter (\<lambda>p. i < ht p) (takeWhile before ps))) else m i))))"
proof -
  have h: "1 \<le> max_height sl" "max_height sl - 1 < kMaxHeight" using assms(1) by (auto simp: linked_def)
  have iff: "i \<le> max_height sl - 1 \<longleftrightarrow> i < max_height sl" for i using h(1) by auto
  show ?thesis
    using fge_loop_search [where cmp = Compare and sl = sl and key = key and ht = ht and ps = ps, OF assms(1) downward_less [OF assms(3-5)] assms(2) search_start h(2), of prev]
    unfolding FindGreaterOrEqual_def before_def iff .
qed

lemma FindLessThan_linked:
  assumes "linked sl ps ht" "\<forall>p \<in> set ps. 0 < ht p" "sorted_wrt (\<lambda>a b. Compare a b < 0) (map (key_of sl) ps)"
    and "\<forall>p \<in> set ps. ok (key_of sl p)" "ok key"
  shows "FindLessThan Compare sl key = Some (last (sl_head sl # takeWhile (\<lambda>p. Compare (key_of sl p) key < 0) ps))"
proof -
  have h: "max_height sl - 1 < kMaxHeight" using assms(1) by (auto simp: linked_def)
  show ?thesis
    using flt_loop_search [where cmp = Compare and sl = sl and key = key and ht = ht and ps = ps, OF assms(1) downward_less [OF assms(3-5)] assms(2) search_start h] unfolding FindLessThan_def .
qed

lemma keys_backward_at:
  assumes "linked sl ps ht" "\<forall>p \<in> set ps. 0 < ht p" "sorted_wrt (\<lambda>a b. Compare a b < 0) (map (key_of sl) ps)"
    and "\<forall>p \<in> set ps. ok (key_of sl p)" "ps = xs @ ys"
  shows "keys_backward Compare sl (hd_option (rev xs)) = Some (rev (map (key_of sl) xs))"
  using assms(5)
proof (induction xs arbitrary: ys rule: rev_induct)
  case Nil
  then show ?case by (subst keys_backward.simps) (simp add: skip_Valid_def)
next
  case (snoc x xs)
  have x: "x \<in> set ps" using snoc.prems by simp
  obtain k where k: "key_at sl x = Some k" using linked_key [OF assms(1) x] by auto
  have okx: "ok k" using assms(4) x k by force
  have "Compare (key_of sl p) k < 0" if "p \<in> set xs" for p
    using assms(3) that k snoc.prems by (auto simp: sorted_wrt_append)
  moreover have "\<not> Compare k k < 0" using compare_refl [OF okx] by simp
  ultimately have "takeWhile (\<lambda>p. Compare (key_of sl p) k < 0) ps = xs"
    using k by (simp add: snoc.prems)
  then have "FindLessThan Compare sl k = Some (last (sl_head sl # xs))"
    using FindLessThan_linked [OF assms(1-4) okx] by simp
  moreover have "last (sl_head sl # xs) = sl_head sl \<longleftrightarrow> xs = []"
    using assms(1) snoc.prems by (cases xs rule: rev_cases) (auto simp: linked_def)
  ultimately have "skip_Prev Compare sl (Some x) = Some (hd_option (rev xs))"
    using k by (cases xs rule: rev_cases) (auto simp: skip_Prev_def)
  then show ?case using snoc k by (subst keys_backward.simps) (simp add: skip_Valid_def skip_key_def)
qed

lemma reads:
  assumes "holds Compare sl ks" "\<forall>k \<in> set ks. ok k" "ok key"
  shows "do { it \<leftarrow> skip_SeekToFirst sl; keys_forward sl it } = Some ks"
    and "do { it \<leftarrow> skip_SeekToLast sl; keys_backward Compare sl it } = Some (rev ks)"
    and "do { it \<leftarrow> skip_Seek Compare sl key; keys_forward sl it } = Some (dropWhile (\<lambda>k. Compare k key < 0) ks)"
    and "skip_Contains Compare sl key = Some (\<exists>k \<in> set ks. Compare k key = 0)"
proof -
  obtain ps ht where l: "linked sl ps ht" "\<forall>p \<in> set ps. 0 < ht p" and ks: "map (key_of sl) ps = ks"
    and s: "sorted_wrt (\<lambda>a b. Compare a b < 0) (map (key_of sl) ps)"
    using assms(1) by (auto simp: holds_def)
  have ok: "\<forall>p \<in> set ps. ok (key_of sl p)" using assms(2) ks by auto
  show "do { it \<leftarrow> skip_SeekToFirst sl; keys_forward sl it } = Some ks"
    using linked_level_0 [of sl "[]" ps ht] keys_forward_at [of sl "[]" ps ht] l ks by (simp add: skip_SeekToFirst_def)
  have h: "max_height sl - 1 < kMaxHeight" using l(1) by (auto simp: linked_def)
  have "FindLast sl = Some (last (sl_head sl # ps))"
    unfolding FindLast_def by (rule last_loop_search [OF l search_start h])
  moreover have "last (sl_head sl # ps) = sl_head sl \<longleftrightarrow> ps = []"
    using l(1) by (cases ps rule: rev_cases) (auto simp: linked_def)
  ultimately have "skip_SeekToLast sl = Some (hd_option (rev ps))"
    by (cases ps rule: rev_cases) (auto simp: skip_SeekToLast_def)
  then show "do { it \<leftarrow> skip_SeekToLast sl; keys_backward Compare sl it } = Some (rev ks)"
    using keys_backward_at [OF l s ok, of ps "[]"] ks by simp
  define before where "before = (\<lambda>p. Compare (key_of sl p) key < 0)"
  obtain p' where f: "FindGreaterOrEqual Compare sl key None = Some (hd_option (dropWhile before ps), p')"
    using FindGreaterOrEqual_linked [OF l s ok assms(3), of None] by (auto simp: before_def)
  have split: "linked sl (takeWhile before ps @ dropWhile before ps) ht" "\<forall>p \<in> set (takeWhile before ps @ dropWhile before ps). 0 < ht p"
    using l by simp_all
  show "do { it \<leftarrow> skip_Seek Compare sl key; keys_forward sl it } = Some (dropWhile (\<lambda>k. Compare k key < 0) ks)"
    using f keys_forward_at [OF split] by (simp add: skip_Seek_def ks [symmetric] dropWhile_map comp_def before_def)
  show "skip_Contains Compare sl key = Some (\<exists>k \<in> set ks. Compare k key = 0)"
  proof (cases "dropWhile before ps")
    case Nil
    then have "\<forall>p \<in> set ps. before p" by (simp add: dropWhile_eq_Nil_conv)
    then have "\<not> (\<exists>k \<in> set ks. Compare k key = 0)" using ks by (fastforce simp: before_def)
    then show ?thesis using f Nil by (simp add: skip_Contains_def)
  next
    case (Cons q vs)
    have q: "q \<in> set ps" "\<not> before q" using Cons set_dropWhileD [of q before ps] hd_dropWhile [of before ps] by auto
    have okq: "ok (key_of sl q)" using ok q(1) by simp
    have "(\<exists>k \<in> set ks. Compare k key = 0) \<longleftrightarrow> Compare (key_of sl q) key = 0"
    proof
      assume "\<exists>k \<in> set ks. Compare k key = 0"
      then obtain p where p: "p \<in> set ps" "Compare (key_of sl p) key = 0" using ks by auto
      have "p \<notin> set (takeWhile before ps)" using p(2) by (auto simp: before_def dest: set_takeWhileD)
      then have "p \<in> set (dropWhile before ps)" using p(1) by (metis Un_iff set_append takeWhile_dropWhile_id)
      then have "p = q \<or> p \<in> set vs" using Cons by simp
      moreover have False if "p \<in> set vs"
      proof -
        have "sorted_wrt (\<lambda>a b. Compare a b < 0) (map (key_of sl) (takeWhile before ps @ q # vs))"
          using s takeWhile_dropWhile_id [of before ps] Cons by simp
        then have "Compare (key_of sl q) (key_of sl p) < 0" using that by (auto simp: sorted_wrt_append)
        then have "Compare (key_of sl q) key < 0"
          using compare_less_le_trans [of "key_of sl q" "key_of sl p" key] okq ok p assms(3) by auto
        then show False using q(2) by (simp add: before_def)
      qed
      ultimately show "Compare (key_of sl q) key = 0" using p(2) by blast
    next
      assume "Compare (key_of sl q) key = 0"
      then show "\<exists>k \<in> set ks. Compare k key = 0" using q(1) ks by auto
    qed
    moreover obtain k where "key_at sl q = Some k" using linked_key [OF l(1) q(1)] by auto
    ultimately show ?thesis using f Cons compare_eq_flip [OF okq assms(3)] by (simp add: skip_Contains_def)
  qed
qed

end

section \<open>Inserting\<close>

text \<open>The nodes lie in regions the arena gave, and no node is linked above the height of the list.\<close>

definition skip_inv :: "('k \<Rightarrow> 'k \<Rightarrow> int) \<Rightarrow> 'k SkipList \<Rightarrow> Arena \<Rightarrow> 'k list \<Rightarrow> bool" where
  "skip_inv cmp sl arena ks \<longleftrightarrow> (\<exists>ps ht rs. linked sl ps ht \<and> (\<forall>p \<in> set ps. 0 < ht p \<and> ht p \<le> max_height sl) \<and>
     map (key_of sl) ps = ks \<and> sorted_wrt (\<lambda>a b. cmp a b < 0) ks \<and>
     arena_ok arena rs \<and> (\<forall>p \<in> dom (sl_nodes sl). \<exists>n > 0. (p, n) \<in> set rs))"

lemma skip_inv_holds: "skip_inv cmp sl arena ks \<Longrightarrow> holds cmp sl ks"
  unfolding skip_inv_def holds_def by blast

lemma RandomHeight_bounds: "1 \<le> fst (RandomHeight r) \<and> fst (RandomHeight r) \<le> kMaxHeight"
proof -
  have "h \<le> kMaxHeight \<Longrightarrow> h \<le> fst (RandomHeight_loop h r) \<and> fst (RandomHeight_loop h r) \<le> kMaxHeight" for h r
  proof (induction h r rule: RandomHeight_loop.induct)
    case (1 h r)
    show ?case
    proof (cases "h < kMaxHeight \<and> fst (Random_Next r) mod 4 = 0")
      case True
      obtain x r' where x: "Random_Next r = (x, r')" by (cases "Random_Next r")
      then show ?thesis using 1(1) [OF _ refl, of x r'] True
        by (subst (1 2) RandomHeight_loop.simps) (auto simp: Let_def)
    next
      case False
      obtain x r' where x: "Random_Next r = (x, r')" by (cases "Random_Next r")
      then have "RandomHeight_loop h r = (if h < kMaxHeight then (h, r') else (h, r))"
        using False by (subst RandomHeight_loop.simps) (simp add: Let_def)
      then show ?thesis using 1(2) by simp
    qed
  qed
  then show ?thesis by (simp add: RandomHeight_def kMaxHeight_def)
qed

text \<open>A new node is not one of the old ones.\<close>

lemma NewNode_ok:
  assumes ok: "arena_ok arena rs" and nodes: "\<forall>p \<in> dom (sl_nodes sl). \<exists>n > 0. (p, n) \<in> set rs"
    and h: "1 \<le> h" "h \<le> kMaxHeight"
  obtains x arena' rs' where
    "NewNode sl arena k h = Some (x, sl\<lparr>sl_nodes := (sl_nodes sl)(x \<mapsto> \<lparr>node_key = k, node_height = h, links = Map.empty\<rparr>)\<rparr>, arena')"
    "x \<notin> dom (sl_nodes sl)" "arena_ok arena' rs'" "\<forall>p \<in> insert x (dom (sl_nodes sl)). \<exists>n > 0. (p, n) \<in> set rs'"
proof -
  have w: "unat (16 + 8 * (of_nat h - 1) :: u64) = 16 + 8 * (h - 1)"
  proof -
    have "(16 + 8 * (of_nat h - 1) :: u64) = of_nat (16 + 8 * (h - 1))" using h(1) by (simp add: of_nat_diff)
    moreover have "16 + 8 * (h - 1) < 2 ^ 64" using h(2) by (simp add: kMaxHeight_def)
    ultimately show ?thesis by (metis unat_of_nat_64)
  qed
  obtain b off arena' where a: "AllocateAligned arena (16 + 8 * (of_nat h - 1)) = (Some (b, off), arena')"
      "arena_ok arena' (((b, off), 16 + 8 * (h - 1)) # rs)"
  proof -
    have "0 < unat (16 + 8 * (of_nat h - 1) :: u64)" "unat (16 + 8 * (of_nat h - 1) :: u64) + 7 < 2 ^ 64"
      using h(2) unfolding w by (simp_all add: kMaxHeight_def)
    from AllocateAligned_ok [OF ok this] show ?thesis using that unfolding w by blast
  qed
  have "(b, off) \<notin> dom (sl_nodes sl)"
  proof
    assume "(b, off) \<in> dom (sl_nodes sl)"
    then obtain n where "n > 0" "((b, off), n) \<in> set rs" using nodes by blast
    then have "apart ((b, off), 16 + 8 * (h - 1)) ((b, off), n)" using a(2) by (auto simp: arena_ok_def)
    then show False using \<open>n > 0\<close> by simp
  qed
  then show ?thesis using a nodes
    by (intro that [of "(b, off)" arena' "((b, off), 16 + 8 * (h - 1)) # rs"]) (auto simp: NewNode_def)
qed

text \<open>Linking at one level leaves the other levels alone and puts the node in its place at this one.\<close>

definition chains :: "'k SkipList \<Rightarrow> arena_ptr list \<Rightarrow> (arena_ptr \<Rightarrow> nat) \<Rightarrow> bool" where
  "chains sl ps ht \<longleftrightarrow> (\<forall>l < kMaxHeight. chain sl l (sl_head sl) (filter (\<lambda>p. l < ht p) ps))"

lemma filter_upd: "x \<notin> set zs \<Longrightarrow> filter (\<lambda>p. l < (ht(x := n)) p) zs = filter (\<lambda>p. l < (ht p :: nat)) zs"
  by (intro filter_cong) auto

lemma link_level_chains:
  assumes chains: "chains sl (xs @ x # ys) (ht(x := i))" and dist: "distinct (sl_head sl # xs @ x # ys)"
    and prev: "prev i = Some (last (sl_head sl # filter (\<lambda>p. i < ht p) xs))" and i: "i < kMaxHeight"
    and x: "map_option node_height (sl_nodes sl x) = Some h" "i < h"
  obtains sl1 sl2 where "link_own prev x i sl = Some sl1" "link_level prev x i sl = Some sl2"
    "chains sl1 (xs @ x # ys) (ht(x := i))" "chains sl2 (xs @ x # ys) (ht(x := Suc i))"
    "key_at sl1 = key_at sl" "sl_head sl1 = sl_head sl" "max_height sl1 = max_height sl" "dom (sl_nodes sl1) = dom (sl_nodes sl)"
    "key_at sl2 = key_at sl" "sl_head sl2 = sl_head sl" "max_height sl2 = max_height sl" "dom (sl_nodes sl2) = dom (sl_nodes sl)"
    "map_option node_height (sl_nodes sl2 x) = Some h"
proof -
  let ?A = "filter (\<lambda>p. i < ht p) xs"
  let ?B = "filter (\<lambda>p. i < ht p) ys"
  let ?p = "last (sl_head sl # ?A)"
  have notx: "x \<noteq> sl_head sl" "x \<notin> set xs" "x \<notin> set ys" using dist by auto
  note same = filter_upd [of x]
  have level_i: "filter (\<lambda>p. i < (ht(x := i)) p) (xs @ x # ys) = ?A @ ?B" using notx by (simp add: same del: fun_upd_apply) simp
  have ch: "chain sl i (sl_head sl) (?A @ ?B)" using chains i unfolding chains_def level_i [symmetric] by blast
  then have "chain sl i ?p ?B" by (rule chain_append)
  then have p: "node_Next sl ?p i = Some (hd_option ?B)" by (cases ?B) auto
  have px: "?p \<noteq> x" using notx by (auto dest: in_set_takeD split: if_splits) (metis filter_is_subset last_in_set subsetD)
  obtain sl1 where 1: "node_SetNext sl x i (hd_option ?B) = Some sl1" using node_SetNext_new [OF x] by blast
  note s1 = node_SetNext_Some [OF 1]
  have "node_Next sl1 ?p i = Some (hd_option ?B)" using p px by (simp add: s1(1))
  then obtain sl2 where 2: "node_SetNext sl1 ?p i (Some x) = Some sl2" using node_SetNext_ok by blast
  note s2 = node_SetNext_Some [OF 2]
  have own: "link_own prev x i sl = Some sl1" using prev p 1 by (simp add: link_own_def)
  have both: "link_level prev x i sl = Some sl2" using own prev 2 by (simp add: link_level_def)
  have "chain sl1 l (sl_head sl) (filter (\<lambda>p. l < (ht(x := i)) p) (xs @ x # ys))" if "l < kMaxHeight" for l
  proof -
    have "chain sl1 l (sl_head sl) qs = chain sl l (sl_head sl) qs" if "qs = filter (\<lambda>p. l < (ht(x := i)) p) (xs @ x # ys)" for qs
      using notx(1) that by (intro chain_cong) (auto simp: s1(1))
    then show ?thesis using chains that by (simp add: chains_def)
  qed
  then have c1: "chains sl1 (xs @ x # ys) (ht(x := i))" by (simp add: chains_def s1(3))
  have "chain sl2 l (sl_head sl) (filter (\<lambda>p. l < (ht(x := Suc i)) p) (xs @ x # ys))" if l: "l < kMaxHeight" for l
  proof (cases "l = i")
    case True
    have "filter (\<lambda>p. i < (ht(x := Suc i)) p) (xs @ x # ys) = ?A @ x # ?B" using notx by (simp add: same del: fun_upd_apply) simp
    moreover have "chain sl2 i (sl_head sl) (?A @ x # ?B)"
    proof (rule chain_splice [OF ch])
      show "distinct (sl_head sl # ?A @ ?B)" "x \<notin> set (sl_head sl # ?A @ ?B)" using dist by auto
      show "node_Next sl2 x i = node_Next sl ?p i" "node_Next sl2 ?p i = Some (Some x)"
        using p px by (simp_all add: s1(1) s2(1))
      show "node_Next sl2 q i = node_Next sl q i" if "q \<noteq> x" "q \<noteq> ?p" for q using that by (simp add: s1(1) s2(1))
    qed
    ultimately show ?thesis using True by simp
  next
    case False
    have "filter (\<lambda>p. l < (ht(x := Suc i)) p) (xs @ x # ys) = filter (\<lambda>p. l < (ht(x := i)) p) (xs @ x # ys)"
      using False by (intro filter_cong) auto
    moreover have "chain sl2 l (sl_head sl) qs = chain sl l (sl_head sl) qs" for qs
      using False by (intro chain_cong) (simp add: s1(1) s2(1))
    ultimately show ?thesis using chains l unfolding chains_def by simp
  qed
  then have c2: "chains sl2 (xs @ x # ys) (ht(x := Suc i))" by (simp add: chains_def s1(3) s2(3))
  show ?thesis by (rule that [OF own both c1 c2]) (simp_all add: s1 s2 x(1))
qed

lemma link_levels_append: "link_levels prev x (is @ js) sl = do { sl \<leftarrow> link_levels prev x is sl; link_levels prev x js sl }"
  by (induction "is" arbitrary: sl) (auto split: bind_split)

lemma link_levels_chains:
  assumes chains: "chains sl (xs @ x # ys) (ht(x := 0))" and dist: "distinct (sl_head sl # xs @ x # ys)"
    and prev: "\<And>i. i < h \<Longrightarrow> prev i = Some (last (sl_head sl # filter (\<lambda>p. i < ht p) xs))" and h: "h \<le> kMaxHeight"
    and x: "map_option node_height (sl_nodes sl x) = Some h"
  shows "n \<le> h \<Longrightarrow> \<exists>sl'. link_levels prev x [0..<n] sl = Some sl' \<and> chains sl' (xs @ x # ys) (ht(x := n)) \<and>
    key_at sl' = key_at sl \<and> sl_head sl' = sl_head sl \<and> max_height sl' = max_height sl \<and> dom (sl_nodes sl') = dom (sl_nodes sl) \<and>
    map_option node_height (sl_nodes sl' x) = Some h"
proof (induction n)
  case 0
  then show ?case using chains x by (simp del: fun_upd_apply)
next
  case (Suc n)
  then obtain sl' where s: "link_levels prev x [0..<n] sl = Some sl'" "chains sl' (xs @ x # ys) (ht(x := n))"
    "key_at sl' = key_at sl" "sl_head sl' = sl_head sl" "max_height sl' = max_height sl" "dom (sl_nodes sl') = dom (sl_nodes sl)"
    "map_option node_height (sl_nodes sl' x) = Some h" using Suc_leD by blast
  have n: "n < h" using Suc.prems by simp
  have "distinct (sl_head sl' # xs @ x # ys)" "prev n = Some (last (sl_head sl' # filter (\<lambda>p. n < ht p) xs))" "n < kMaxHeight"
    using dist prev [OF n] n h by (simp_all add: s(4))
  from link_level_chains [where xs = xs and x = x and ys = ys and ht = ht and i = n and sl = sl' and prev = prev and h = h, OF s(2) this s(7) n] obtain sl2 where
    "link_level prev x n sl' = Some sl2" "chains sl2 (xs @ x # ys) (ht(x := Suc n))"
    "key_at sl2 = key_at sl'" "sl_head sl2 = sl_head sl'" "max_height sl2 = max_height sl'" "dom (sl_nodes sl2) = dom (sl_nodes sl')"
    "map_option node_height (sl_nodes sl2 x) = Some h" .
  then show ?case using s by (simp add: link_levels_append del: fun_upd_apply)
qed

text \<open>What the insertion of \<open>x\<close> between \<open>xs\<close> and \<open>ys\<close> has prepared when its loop begins.\<close>

definition prepared ::
  "('k \<Rightarrow> 'k \<Rightarrow> int) \<Rightarrow> 'k SkipList \<Rightarrow> Arena \<Rightarrow> arena_ptr \<Rightarrow> nat \<Rightarrow> (nat \<rightharpoonup> arena_ptr) \<Rightarrow> arena_ptr list \<Rightarrow> arena_ptr list \<Rightarrow>
     (arena_ptr \<Rightarrow> nat) \<Rightarrow> bool" where
  "prepared cmp sl arena x h prev xs ys ht \<longleftrightarrow>
     chains sl (xs @ x # ys) (ht(x := 0)) \<and> distinct (sl_head sl # xs @ x # ys) \<and>
     (\<forall>i < h. prev i = Some (last (sl_head sl # filter (\<lambda>p. i < ht p) xs))) \<and> 1 \<le> h \<and> h \<le> kMaxHeight \<and>
     map_option node_height (sl_nodes sl x) = Some h \<and>
     (\<forall>p \<in> set (xs @ x # ys). key_at sl p \<noteq> None) \<and> (\<forall>p \<in> set (xs @ ys). 0 < ht p) \<and>
     (\<forall>p \<in> set (xs @ ys). ht p \<le> max_height sl) \<and> h \<le> max_height sl \<and> max_height sl \<le> kMaxHeight \<and>
     sorted_wrt (\<lambda>a b. cmp a b < 0) (map (key_of sl) (xs @ x # ys)) \<and>
     (\<exists>rs. arena_ok arena rs \<and> (\<forall>p \<in> dom (sl_nodes sl). \<exists>n > 0. (p, n) \<in> set rs))"

lemma fold_fill: "fold (\<lambda>i m. m(i \<mapsto> c)) is m = (\<lambda>j. if j \<in> set is then Some c else m j)"
  by (induction "is" arbitrary: m) (auto simp: fun_eq_iff)

lemma key_at_dom: "key_at sl p \<noteq> None \<Longrightarrow> p \<in> dom (sl_nodes sl)"
  by (auto simp: key_at_def bind_Some_iff)

lemma linked_dom:
  assumes "linked sl ps ht"
  shows "set (sl_head sl # ps) \<subseteq> dom (sl_nodes sl)"
proof -
  have "chain sl 0 (sl_head sl) (filter (\<lambda>p. 0 < ht p) ps)" using assms by (auto simp: linked_def kMaxHeight_def)
  then have "node_Next sl (sl_head sl) 0 \<noteq> None" by (cases "filter (\<lambda>p. 0 < ht p) ps") auto
  then have "sl_head sl \<in> dom (sl_nodes sl)" by (auto simp: node_Next_def bind_Some_iff)
  moreover have "p \<in> dom (sl_nodes sl)" if "p \<in> set ps" for p using assms that by (intro key_at_dom) (simp add: linked_def)
  ultimately show ?thesis by auto
qed

context key_order begin

lemma insert_sorted:
  assumes "sorted_wrt (\<lambda>a b. Compare a b < 0) ks" "\<forall>k \<in> set ks. ok k \<and> Compare k key \<noteq> 0" "ok key"
  shows "sorted_wrt (\<lambda>a b. Compare a b < 0)
    (takeWhile (\<lambda>k. Compare k key < 0) ks @ key # dropWhile (\<lambda>k. Compare k key < 0) ks)"
proof -
  let ?P = "\<lambda>k. Compare k key < 0"
  have s: "sorted_wrt (\<lambda>a b. Compare a b < 0) (takeWhile ?P ks @ dropWhile ?P ks)" using assms(1) by simp
  have above: "Compare key b < 0" if b: "b \<in> set (dropWhile ?P ks)" for b
  proof -
    obtain c cs where cs: "dropWhile ?P ks = c # cs" using b by (cases "dropWhile ?P ks") auto
    have c: "c \<in> set ks" "\<not> ?P c" using cs set_dropWhileD [of c ?P ks] hd_dropWhile [of ?P ks] by auto
    have bk: "b \<in> set ks" by (rule set_dropWhileD [OF b])
    have kc: "Compare key c < 0" using c assms(2,3) compare_flip [of key c] by force
    have "b = c \<or> Compare c b < 0" using s b cs by (auto simp: sorted_wrt_append)
    then show ?thesis using kc compare_less_trans [of key c b] assms(2,3) c(1) bk by auto
  qed
  have below: "Compare a key < 0" if "a \<in> set (takeWhile ?P ks)" for a using that by (auto dest: set_takeWhileD)
  have "Compare a b < 0" if "a \<in> set (takeWhile ?P ks)" "b \<in> set (dropWhile ?P ks)" for a b
    using s that unfolding sorted_wrt_append by blast
  moreover have "sorted_wrt (\<lambda>a b. Compare a b < 0) (takeWhile ?P ks)" "sorted_wrt (\<lambda>a b. Compare a b < 0) (dropWhile ?P ks)"
    using s unfolding sorted_wrt_append by blast+
  ultimately show ?thesis using above below unfolding sorted_wrt_append sorted_wrt.simps list.set by blast
qed

lemma prepare_insert_inv:
  assumes inv: "skip_inv Compare sl arena ks" and ks: "\<forall>k \<in> set ks. ok k \<and> Compare k key \<noteq> 0" and key: "ok key"
  shows "\<exists>x h prev sl1 arena1 xs ys ht. prepare_insert Compare sl arena key = Some (x, h, prev, sl1, arena1) \<and>
    prepared Compare sl1 arena1 x h prev xs ys ht \<and>
    map (key_of sl1) xs = takeWhile (\<lambda>k. Compare k key < 0) ks \<and> map (key_of sl1) ys = dropWhile (\<lambda>k. Compare k key < 0) ks \<and>
    key_at sl1 x = Some key"
proof -
  obtain ps ht rs where l: "linked sl ps ht" and ht: "\<forall>p \<in> set ps. 0 < ht p \<and> ht p \<le> max_height sl" and psk: "map (key_of sl) ps = ks"
    and s: "sorted_wrt (\<lambda>a b. Compare a b < 0) ks" and ar: "arena_ok arena rs" "\<forall>p \<in> dom (sl_nodes sl). \<exists>n > 0. (p, n) \<in> set rs"
    using inv unfolding skip_inv_def by blast
  define xs where "xs = takeWhile (\<lambda>p. Compare (key_of sl p) key < 0) ps"
  define ys where "ys = dropWhile (\<lambda>p. Compare (key_of sl p) key < 0) ps"
  have ps: "ps = xs @ ys" by (simp add: xs_def ys_def)
  have keys: "map (key_of sl) xs = takeWhile (\<lambda>k. Compare k key < 0) ks" "map (key_of sl) ys = dropWhile (\<lambda>k. Compare k key < 0) ks"
    by (simp_all add: xs_def ys_def psk [symmetric] takeWhile_map dropWhile_map comp_def)
  obtain m where find: "FindGreaterOrEqual Compare sl key (Some Map.empty) = Some (hd_option ys, Some m)"
      "\<And>i. m i = (if i < max_height sl then Some (last (sl_head sl # filter (\<lambda>p. i < ht p) xs)) else None)"
    using FindGreaterOrEqual_linked [OF l _ _ _ key, of "Some Map.empty"] ht s ks psk by (auto simp: xs_def ys_def)
  obtain h r where h: "RandomHeight (rnd sl) = (h, r)" by (cases "RandomHeight (rnd sl)")
  have hb: "1 \<le> h" "h \<le> kMaxHeight" using RandomHeight_bounds [of "rnd sl"] h by simp_all
  define M where "M = max h (max_height sl)"
  define prev where "prev = (if h > max_height sl then fold (\<lambda>i prev. prev(i \<mapsto> sl_head sl)) [max_height sl..<h] m else m)"
  define sl' where "sl' = sl\<lparr>rnd := r, max_height := M\<rparr>"
  have prev: "prev i = Some (last (sl_head sl # filter (\<lambda>p. i < ht p) xs))" if "i < h" for i
  proof (cases "i < max_height sl")
    case False
    moreover have "\<forall>p \<in> set xs. ht p \<le> max_height sl" using ht by (simp add: ps)
    ultimately have "filter (\<lambda>p. i < ht p) xs = []" by (auto simp: filter_empty_conv)
    then show ?thesis using that False by (simp add: prev_def fold_fill)
  qed (simp add: prev_def fold_fill find)
  obtain x arena1 rs1 where new: "NewNode sl' arena (Some key) h =
        Some (x, sl'\<lparr>sl_nodes := (sl_nodes sl')(x \<mapsto> \<lparr>node_key = Some key, node_height = h, links = Map.empty\<rparr>)\<rparr>, arena1)"
      "x \<notin> dom (sl_nodes sl')" "arena_ok arena1 rs1" "\<forall>p \<in> insert x (dom (sl_nodes sl')). \<exists>n > 0. (p, n) \<in> set rs1"
    by (rule NewNode_ok [OF ar(1) _ hb, of sl']) (use ar(2) in \<open>simp add: sl'_def\<close>)
  define sl1 where "sl1 = sl'\<lparr>sl_nodes := (sl_nodes sl')(x \<mapsto> \<lparr>node_key = Some key, node_height = h, links = Map.empty\<rparr>)\<rparr>"
  have prep: "prepare_insert Compare sl arena key = Some (x, h, prev, sl1, arena1)"
    using new(1) unfolding sl1_def [symmetric]
    by (auto simp: prepare_insert_def find(1) h prev_def sl'_def M_def max_def Let_def)
  have fresh: "x \<notin> set (sl_head sl # ps)" using new(2) linked_dom [OF l] by (auto simp: sl'_def)
  have fields: "sl_head sl1 = sl_head sl" "max_height sl1 = M" by (simp_all add: sl1_def sl'_def)
  have nxt: "node_Next sl1 q i = node_Next sl q i" if "q \<noteq> x" for q i using that by (simp add: node_Next_def sl1_def sl'_def)
  have key1: "key_at sl1 q = (if q = x then Some key else key_at sl q)" for q by (simp add: key_at_def sl1_def sl'_def)
  have kxs: "map (key_of sl1) xs = map (key_of sl) xs" "map (key_of sl1) ys = map (key_of sl) ys"
    using fresh by (auto simp: key1 ps)
  have "chains sl1 (xs @ x # ys) (ht(x := 0))" unfolding chains_def
  proof (intro allI impI)
    fix i assume i: "i < kMaxHeight"
    have "filter (\<lambda>p. i < (ht(x := 0)) p) (xs @ x # ys) = filter (\<lambda>p. i < ht p) ps"
      using fresh by (simp add: ps filter_upd del: fun_upd_apply) simp
    moreover have "chain sl1 i (sl_head sl) (filter (\<lambda>p. i < ht p) ps) = chain sl i (sl_head sl) (filter (\<lambda>p. i < ht p) ps)"
      using fresh by (intro chain_cong nxt) auto
    ultimately show "chain sl1 i (sl_head sl1) (filter (\<lambda>p. i < (ht(x := 0)) p) (xs @ x # ys))"
      using l i by (simp add: linked_def fields)
  qed
  moreover have "map (key_of sl1) (xs @ x # ys) = takeWhile (\<lambda>k. Compare k key < 0) ks @ key # dropWhile (\<lambda>k. Compare k key < 0) ks"
    using kxs keys by (simp add: key1)
  then have "sorted_wrt (\<lambda>a b. Compare a b < 0) (map (key_of sl1) (xs @ x # ys))" using insert_sorted [OF s ks key] by simp
  moreover have "distinct (sl_head sl1 # xs @ x # ys)" using l fresh by (auto simp: linked_def ps fields)
  moreover have "map_option node_height (sl_nodes sl1 x) = Some h" by (simp add: sl1_def)
  moreover have "\<forall>p \<in> set (xs @ x # ys). key_at sl1 p \<noteq> None" using l by (auto simp: linked_def ps key1)
  moreover have "1 \<le> h" "h \<le> M" "M \<le> kMaxHeight" using hb l by (simp_all add: M_def linked_def)
  moreover have "\<forall>p \<in> set (xs @ ys). 0 < ht p" "\<forall>p \<in> set (xs @ ys). ht p \<le> M" using ht by (simp_all add: ps M_def le_max_iff_disj)
  moreover have "dom (sl_nodes sl1) = insert x (dom (sl_nodes sl'))" by (simp add: sl1_def)
  then have "\<exists>rs. arena_ok arena1 rs \<and> (\<forall>p \<in> dom (sl_nodes sl1). \<exists>n > 0. (p, n) \<in> set rs)" using new(3,4) by metis
  ultimately have "prepared Compare sl1 arena1 x h prev xs ys ht"
    using prev hb unfolding prepared_def fields by blast
  then show ?thesis using prep kxs keys key1 [of x] by (intro exI conjI) (assumption | simp)+
qed

end

lemma stage_holds:
  assumes p: "prepared cmp sl arena x h prev xs ys ht" and c: "chains sl' (xs @ x # ys) (ht(x := n))"
    and s: "key_at sl' = key_at sl" "sl_head sl' = sl_head sl" and m: "1 \<le> m" "m \<le> kMaxHeight"
  shows "holds cmp (sl'\<lparr>max_height := m\<rparr>) (map (key_of sl) (if n = 0 then xs @ ys else xs @ x # ys))"
proof -
  let ?ps = "if n = 0 then xs @ ys else xs @ x # ys"
  let ?sl = "sl'\<lparr>max_height := m\<rparr>"
  have x: "x \<notin> set xs" "x \<notin> set ys" using p by (auto simp: prepared_def)
  have nxt: "node_Next ?sl = node_Next sl'" and key: "key_at ?sl = key_at sl"
    using s(1) by (simp_all add: node_Next_def key_at_def fun_eq_iff)
  have ch: "chain ?sl l q qs = chain sl' l q qs" for l q qs by (rule chain_cong) (simp add: nxt)
  have filt: "filter (\<lambda>p. l < (ht(x := n)) p) ?ps = filter (\<lambda>p. l < (ht(x := n)) p) (xs @ x # ys)" for l by simp
  have "linked ?sl ?ps (ht(x := n))"
    using p c m unfolding linked_def chains_def filt ch key by (auto simp: prepared_def s(2))
  moreover have "\<forall>p \<in> set ?ps. 0 < (ht(x := n)) p" using p x by (auto simp: prepared_def)
  moreover have "sorted_wrt (\<lambda>a b. cmp a b < 0) (map (key_of sl) ?ps)"
    using p by (auto simp: prepared_def sorted_wrt_append)
  ultimately show ?thesis unfolding holds_def key by blast
qed

text \<open>After the loop the node is linked at all its levels, and the list is in order again.\<close>

lemma inserted_inv:
  assumes p: "prepared cmp sl arena x h prev xs ys ht" and c: "chains sl' (xs @ x # ys) (ht(x := h))"
    and s: "key_at sl' = key_at sl" "sl_head sl' = sl_head sl" "max_height sl' = max_height sl" "dom (sl_nodes sl') = dom (sl_nodes sl)"
  shows "skip_inv cmp sl' arena (map (key_of sl) (xs @ x # ys))"
proof -
  have x: "x \<notin> set xs" "x \<notin> set ys" using p by (auto simp: prepared_def)
  have "linked sl' (xs @ x # ys) (ht(x := h))"
    using p c unfolding linked_def chains_def s by (auto simp: prepared_def)
  moreover have "\<forall>p \<in> set (xs @ x # ys). 0 < (ht(x := h)) p \<and> (ht(x := h)) p \<le> max_height sl'"
    using p x by (auto simp: prepared_def s)
  moreover have "\<exists>rs. arena_ok arena rs \<and> (\<forall>p \<in> dom (sl_nodes sl'). \<exists>n > 0. (p, n) \<in> set rs)"
    using p by (simp add: prepared_def s(4))
  moreover have "sorted_wrt (\<lambda>a b. cmp a b < 0) (map (key_of sl) (xs @ x # ys))" using p by (simp add: prepared_def)
  ultimately show ?thesis unfolding skip_inv_def s(1) by blast
qed

lemma prepared_levels:
  assumes "prepared cmp sl arena x h prev xs ys ht" "n \<le> h"
  shows "\<exists>sl'. link_levels prev x [0..<n] sl = Some sl' \<and> chains sl' (xs @ x # ys) (ht(x := n)) \<and>
    key_at sl' = key_at sl \<and> sl_head sl' = sl_head sl \<and> max_height sl' = max_height sl \<and> dom (sl_nodes sl') = dom (sl_nodes sl) \<and>
    map_option node_height (sl_nodes sl' x) = Some h"
  using assms by (intro link_levels_chains) (auto simp: prepared_def simp del: fun_upd_apply)

context key_order begin

lemma Insert_inv:
  assumes "skip_inv Compare sl arena ks" "\<forall>k \<in> set ks. ok k \<and> Compare k key \<noteq> 0" "ok key"
  shows "\<exists>sl' arena'. skip_Insert Compare sl arena key = Some (sl', arena') \<and>
    skip_inv Compare sl' arena' (takeWhile (\<lambda>k. Compare k key < 0) ks @ key # dropWhile (\<lambda>k. Compare k key < 0) ks)"
proof -
  obtain x h prev sl1 arena1 xs ys ht where p: "prepare_insert Compare sl arena key = Some (x, h, prev, sl1, arena1)"
      "prepared Compare sl1 arena1 x h prev xs ys ht"
      "map (key_of sl1) xs = takeWhile (\<lambda>k. Compare k key < 0) ks" "map (key_of sl1) ys = dropWhile (\<lambda>k. Compare k key < 0) ks"
      "key_at sl1 x = Some key"
    using prepare_insert_inv [OF assms] by blast
  obtain sl' where s: "link_levels prev x [0..<h] sl1 = Some sl'" "chains sl' (xs @ x # ys) (ht(x := h))"
    "key_at sl' = key_at sl1" "sl_head sl' = sl_head sl1" "max_height sl' = max_height sl1" "dom (sl_nodes sl') = dom (sl_nodes sl1)"
    using prepared_levels [OF p(2) order_refl] by blast
  show ?thesis using inserted_inv [OF p(2) s(2-6)] p s(1) by (simp add: skip_Insert_def)
qed

lemma Insert_stages:
  assumes "skip_inv Compare sl arena ks" "\<forall>k \<in> set ks. ok k \<and> Compare k key \<noteq> 0" "ok key"
    and "prepare_insert Compare sl arena key = Some (x, h, prev, sl1, arena1)" and n: "n \<le> h" and m: "1 \<le> m" "m \<le> kMaxHeight"
  defines "after \<equiv> if n = 0 then ks else takeWhile (\<lambda>k. Compare k key < 0) ks @ key # dropWhile (\<lambda>k. Compare k key < 0) ks"
  shows "\<exists>sl2. link_levels prev x [0..<n] sl1 = Some sl2 \<and> holds Compare (sl2\<lparr>max_height := m\<rparr>) after \<and>
    (n < h \<longrightarrow> (\<exists>sl3. link_own prev x n sl2 = Some sl3 \<and> holds Compare (sl3\<lparr>max_height := m\<rparr>) after))"
proof -
  obtain xs ys ht where p: "prepared Compare sl1 arena1 x h prev xs ys ht"
      "map (key_of sl1) xs = takeWhile (\<lambda>k. Compare k key < 0) ks" "map (key_of sl1) ys = dropWhile (\<lambda>k. Compare k key < 0) ks"
      "key_at sl1 x = Some key"
    using prepare_insert_inv [OF assms(1-3)] assms(4) by auto
  have after: "after = map (key_of sl1) (if n = 0 then xs @ ys else xs @ x # ys)" using p(2-4) by (simp add: after_def)
  obtain sl2 where s: "link_levels prev x [0..<n] sl1 = Some sl2" "chains sl2 (xs @ x # ys) (ht(x := n))"
    "key_at sl2 = key_at sl1" "sl_head sl2 = sl_head sl1" "map_option node_height (sl_nodes sl2 x) = Some h"
    using prepared_levels [OF p(1) n] by blast
  have "\<exists>sl3. link_own prev x n sl2 = Some sl3 \<and> holds Compare (sl3\<lparr>max_height := m\<rparr>) after" if "n < h"
  proof -
    have "distinct (sl_head sl2 # xs @ x # ys)" "prev n = Some (last (sl_head sl2 # filter (\<lambda>p. n < ht p) xs))" "n < kMaxHeight"
      using p(1) that by (auto simp: prepared_def s(4))
    then show ?thesis
    proof (rule link_level_chains [OF s(2) _ _ _ s(5) that], goal_cases)
      case (1 sl3 sl4)
      then have "key_at sl3 = key_at sl1" "sl_head sl3 = sl_head sl1" by (simp_all add: s)
      then show ?case using stage_holds [OF p(1) 1(3) _ _ m] 1(1) unfolding after by blast
    qed
  qed
  then show ?thesis using s(1) stage_holds [OF p(1) s(2-4) m] unfolding after by blast
qed

end

section \<open>The empty list\<close>

lemma set_null_links:
  assumes "map_option node_height (sl_nodes sl h) = Some H" "n \<le> H"
  shows "\<exists>sl'. fold (\<lambda>i s. Option.bind s (\<lambda>sl. node_SetNext sl h i None)) [0..<n] (Some sl) = Some sl' \<and>
    (\<forall>i < n. node_Next sl' h i = Some None) \<and> sl_head sl' = sl_head sl \<and> max_height sl' = max_height sl \<and>
    dom (sl_nodes sl') = dom (sl_nodes sl) \<and> map_option node_height (sl_nodes sl' h) = Some H"
  using assms(2)
proof (induction n)
  case 0
  then show ?case using assms(1) by simp
next
  case (Suc n)
  then obtain sl' where s: "fold (\<lambda>i s. Option.bind s (\<lambda>sl. node_SetNext sl h i None)) [0..<n] (Some sl) = Some sl'"
    "\<forall>i < n. node_Next sl' h i = Some None" "sl_head sl' = sl_head sl" "max_height sl' = max_height sl"
    "dom (sl_nodes sl') = dom (sl_nodes sl)" "map_option node_height (sl_nodes sl' h) = Some H" using Suc_leD by blast
  obtain sl2 where 2: "node_SetNext sl' h n None = Some sl2" using node_SetNext_new [OF s(6), of n None] Suc.prems by (auto simp: Suc_le_eq)
  note s2 = node_SetNext_Some [OF 2]
  show ?case using s 2 s2(3-6) by (intro exI [of _ sl2]) (auto simp: s2(1) less_Suc_eq)
qed

lemma new_SkipList_inv:
  assumes "arena_ok arena rs"
  shows "\<exists>sl arena'. new_SkipList arena = Some (sl, arena') \<and> skip_inv cmp sl arena' []"
proof -
  define sl0 :: "'a SkipList" where "sl0 = \<lparr>sl_nodes = Map.empty, sl_head = (0, 0), max_height = 1, rnd = new_Random 0xdeadbeef\<rparr>"
  obtain h arena1 rs1 where new: "NewNode sl0 arena None kMaxHeight =
        Some (h, sl0\<lparr>sl_nodes := (sl_nodes sl0)(h \<mapsto> \<lparr>node_key = None, node_height = kMaxHeight, links = Map.empty\<rparr>)\<rparr>, arena1)"
      "arena_ok arena1 rs1" "\<forall>p \<in> insert h (dom (sl_nodes sl0)). \<exists>n > 0. (p, n) \<in> set rs1"
    by (rule NewNode_ok [OF assms, of sl0 kMaxHeight None]) (auto simp: sl0_def kMaxHeight_def)
  define sl1 where "sl1 = sl0\<lparr>sl_nodes := (sl_nodes sl0)(h \<mapsto> \<lparr>node_key = None, node_height = kMaxHeight, links = Map.empty\<rparr>), sl_head := h\<rparr>"
  have "map_option node_height (sl_nodes sl1 h) = Some kMaxHeight" by (simp add: sl1_def)
  from set_null_links [OF this order_refl] obtain sl where
    sl: "fold (\<lambda>i s. Option.bind s (\<lambda>sl. node_SetNext sl h i None)) [0..<kMaxHeight] (Some sl1) = Some sl"
      "\<forall>i < kMaxHeight. node_Next sl h i = Some None" "sl_head sl = h" "max_height sl = 1" "dom (sl_nodes sl) = {h}"
    by (auto simp: sl1_def sl0_def)
  have "new_SkipList arena = Some (sl, arena1)"
    using new(1) sl(1) by (simp add: new_SkipList_def sl0_def sl1_def)
  moreover have "linked sl [] (\<lambda>_. 0)" using sl by (simp add: linked_def kMaxHeight_def)
  then have "skip_inv cmp sl arena1 []" unfolding skip_inv_def using new(2,3) sl(5) by fastforce
  ultimately show ?thesis by blast
qed

section \<open>Properties\<close>

fun skip_insert_all :: "('k \<Rightarrow> 'k \<Rightarrow> int) \<Rightarrow> 'k list \<Rightarrow> 'k SkipList \<times> Arena \<Rightarrow> ('k SkipList \<times> Arena) option" where
  "skip_insert_all cmp [] s = Some s"
| "skip_insert_all cmp (k # ks) s = do { s \<leftarrow> skip_Insert cmp (fst s) (snd s) k; skip_insert_all cmp ks s }"

context key_order begin

lemma insert_all_inv:
  assumes "skip_inv Compare (fst s) (snd s) ks" "\<forall>k \<in> set keys. ok k" "\<forall>k \<in> set ks. ok k"
    and "\<forall>k \<in> set ks. \<forall>k' \<in> set keys. Compare k k' \<noteq> 0" "sorted_wrt (\<lambda>a b. Compare a b \<noteq> 0) keys"
  shows "\<exists>s' ks'. skip_insert_all Compare keys s = Some s' \<and> skip_inv Compare (fst s') (snd s') ks' \<and>
    set ks' = set ks \<union> set keys"
  using assms
proof (induction keys arbitrary: s ks)
  case (Cons key keys)
  let ?ks = "takeWhile (\<lambda>k. Compare k key < 0) ks @ key # dropWhile (\<lambda>k. Compare k key < 0) ks"
  have set: "set ?ks = insert key (set ks)"
    by (metis Un_insert_right list.simps(15) set_append takeWhile_dropWhile_id)
  obtain sl' arena' where 1: "skip_Insert Compare (fst s) (snd s) key = Some (sl', arena')" "skip_inv Compare sl' arena' ?ks"
    using Insert_inv [OF Cons.prems(1), of key] Cons.prems(2-4) by auto
  have "\<exists>s' ks'. skip_insert_all Compare keys (sl', arena') = Some s' \<and> skip_inv Compare (fst s') (snd s') ks' \<and>
      set ks' = set ?ks \<union> set keys"
  proof (rule Cons.IH)
    show "skip_inv Compare (fst (sl', arena')) (snd (sl', arena')) ?ks" using 1(2) by simp
  qed (unfold set, use Cons.prems in auto)
  then show ?case using 1(1) unfolding set by simp
qed auto

end

text \<open>
  C28. A skip list built by inserting keys that differ in the order of a comparison is the sorted list of
  these keys: iterating from the first key gives them in order, iterating backwards from the last gives them
  in reverse, seeking lands on the first key that is not below the target, and \<open>Contains\<close> finds exactly the
  keys that are there. No operation runs into a null pointer or an unset link, whatever the random heights.
\<close>

theorem skip_list_contents:
  assumes "key_order ok cmp" "\<forall>k \<in> set keys. ok k" "sorted_wrt (\<lambda>a b. cmp a b \<noteq> 0) keys" "ok target"
  shows "\<exists>sl arena ks. Option.bind (new_SkipList new_Arena) (skip_insert_all cmp keys) = Some (sl, arena) \<and>
    set ks = set keys \<and> sorted_wrt (\<lambda>a b. cmp a b < 0) ks \<and>
    do { it \<leftarrow> skip_SeekToFirst sl; keys_forward sl it } = Some ks \<and>
    do { it \<leftarrow> skip_SeekToLast sl; keys_backward cmp sl it } = Some (rev ks) \<and>
    do { it \<leftarrow> skip_Seek cmp sl target; keys_forward sl it } = Some (dropWhile (\<lambda>k. cmp k target < 0) ks) \<and>
    skip_Contains cmp sl target = Some (\<exists>k \<in> set keys. cmp k target = 0)"
proof -
  obtain sl0 arena0 where n: "new_SkipList new_Arena = Some (sl0, arena0)" "skip_inv cmp sl0 arena0 []"
    using new_SkipList_inv [OF arena_ok_new] by blast
  obtain s ks where s: "skip_insert_all cmp keys (sl0, arena0) = Some s" "skip_inv cmp (fst s) (snd s) ks" "set ks = set keys"
    using key_order.insert_all_inv [OF assms(1), of "(sl0, arena0)" "[]" keys] n(2) assms(2,3) by auto
  have h: "holds cmp (fst s) ks" by (rule skip_inv_holds [OF s(2)])
  have "\<forall>k \<in> set ks. ok k" using s(3) assms(2) by simp
  note r = key_order.reads [OF assms(1) h this assms(4)]
  have "sorted_wrt (\<lambda>a b. cmp a b < 0) ks" using h by (auto simp: holds_def)
  then show ?thesis using n(1) s(1,3) r by (intro exI [of _ "fst s"] exI [of _ "snd s"] exI [of _ ks]) simp
qed

theorem skip_list_contents_witness:
  "\<exists>sl arena ks. Option.bind (new_SkipList new_Arena) (skip_insert_all bytewise_Compare [[2], [1, 5], [3]]) = Some (sl, arena) \<and>
    set ks = set [[2 :: byte], [1, 5], [3]] \<and> sorted_wrt (\<lambda>a b. bytewise_Compare a b < 0) ks \<and>
    do { it \<leftarrow> skip_SeekToFirst sl; keys_forward sl it } = Some ks \<and>
    do { it \<leftarrow> skip_SeekToLast sl; keys_backward bytewise_Compare sl it } = Some (rev ks) \<and>
    do { it \<leftarrow> skip_Seek bytewise_Compare sl [1, 9]; keys_forward sl it } = Some (dropWhile (\<lambda>k. bytewise_Compare k [1, 9] < 0) ks) \<and>
    skip_Contains bytewise_Compare sl [1, 9] = Some (\<exists>k \<in> set [[2], [1, 5], [3]]. bytewise_Compare k [1, 9] = 0)"
proof (rule skip_list_contents [OF bytewise.key_order_axioms])
  show "sorted_wrt (\<lambda>a b. bytewise_Compare a b \<noteq> 0) [[2], [1, 5], [3]]" by code_simp
qed simp_all

text \<open>
  C29. Reading while an insertion is under way: after any number of iterations of the linking loop, and
  between the two stores of an iteration, the list that a reader sees is a well-formed sorted list, of the
  old keys before the first iteration and of the old keys and the new one from then on, even if the reader
  still uses any other height of the list. Every read of \<open>skip_list_contents\<close> then works on it.
\<close>

theorem insert_readers:
  assumes "key_order ok cmp" "skip_inv cmp sl arena ks" "\<forall>k \<in> set ks. ok k \<and> cmp k key \<noteq> 0" "ok key" "1 \<le> m" "m \<le> kMaxHeight"
  shows "case prepare_insert cmp sl arena key of
      None \<Rightarrow> False
    | Some (x, h, prev, sl1, arena1) \<Rightarrow>
        (\<forall>n \<le> h.
           let after = (if n = 0 then ks else takeWhile (\<lambda>k. cmp k key < 0) ks @ key # dropWhile (\<lambda>k. cmp k key < 0) ks) in
           (\<exists>sl2. link_levels prev x [0..<n] sl1 = Some sl2 \<and> holds cmp (sl2\<lparr>max_height := m\<rparr>) after \<and>
              (n < h \<longrightarrow> (\<exists>sl3. link_own prev x n sl2 = Some sl3 \<and> holds cmp (sl3\<lparr>max_height := m\<rparr>) after))))"
proof -
  obtain x h prev sl1 arena1 where "prepare_insert cmp sl arena key = Some (x, h, prev, sl1, arena1)"
    using key_order.prepare_insert_inv [OF assms(1-4)] by blast
  then show ?thesis
    using key_order.Insert_stages [OF assms(1-4) _ _ assms(5,6)] by (simp add: Let_def)
qed

theorem insert_readers_witness:
  "\<exists>sl arena. new_SkipList new_Arena = Some (sl, arena) \<and>
    (case prepare_insert bytewise_Compare sl arena [7] of
      None \<Rightarrow> False
    | Some (x, h, prev, sl1, arena1) \<Rightarrow>
        (\<forall>n \<le> h.
           let after = (if n = 0 then [] else takeWhile (\<lambda>k. bytewise_Compare k [7] < 0) [] @ [7] # dropWhile (\<lambda>k. bytewise_Compare k [7] < 0) []) in
           (\<exists>sl2. link_levels prev x [0..<n] sl1 = Some sl2 \<and> holds bytewise_Compare (sl2\<lparr>max_height := 12\<rparr>) after \<and>
              (n < h \<longrightarrow> (\<exists>sl3. link_own prev x n sl2 = Some sl3 \<and> holds bytewise_Compare (sl3\<lparr>max_height := 12\<rparr>) after)))))"
proof -
  obtain sl arena where n: "new_SkipList new_Arena = Some (sl, arena)" "skip_inv bytewise_Compare sl arena []"
    using new_SkipList_inv [OF arena_ok_new] by blast
  show ?thesis using n(1) insert_readers [OF bytewise.key_order_axioms n(2), of "[7]" 12] by (simp add: kMaxHeight_def)
qed

end
