(* ===== verification/LDB_MemTable.thy ===== *)
theory LDB_MemTable
  imports LDB_SkipList_Correct LDB_WriteBatch
begin

text \<open>
  The memtable (\<open>memtable.h\<close>, \<open>memtable.cc\<close>): a skip list of encoded entries in the memory of an arena. A
  pointer to characters that never change is the list of the bytes from there on.
\<close>

section \<open>Entries\<close>

text \<open>
  The static \<open>GetLengthPrefixedSlice\<close>: the slice and the bytes behind it. It looks for the end of the
  number in the first five bytes and does not check that the slice is there; the model returns \<open>None\<close> then.
\<close>

definition prefixed_at :: "byte list \<Rightarrow> (slice \<times> byte list) option" where
  "prefixed_at data = do {
     (len, q) \<leftarrow> GetVarint32Ptr (take 5 data);
     let p = drop (length (take 5 data) - length q) data in
     if unat len \<le> length p then Some (take (unat len) p, drop (unat len) p) else None }"

definition EncodeKey :: "slice \<Rightarrow> byte list" where
  "EncodeKey target = PutVarint32 [] (of_nat (length target)) @ target"

text \<open>Every key in the table has a prefix; what the comparator does without one is of no interest.\<close>

definition entry_key :: "byte list \<Rightarrow> slice" where
  "entry_key data = (case prefixed_at data of Some (k, _) \<Rightarrow> k | None \<Rightarrow> [])"

definition KeyComparator :: "(slice \<Rightarrow> slice \<Rightarrow> int) \<Rightarrow> byte list \<Rightarrow> byte list \<Rightarrow> int" where
  "KeyComparator ucmp aptr bptr = internal_Compare ucmp (entry_key aptr) (entry_key bptr)"

section \<open>The memtable\<close>

record MemTable =
  mt_refs :: int
  mt_arena :: Arena
  mt_table :: "byte list SkipList"

definition new_MemTable :: "MemTable option" where
  "new_MemTable = do {
     (table, arena) \<leftarrow> new_SkipList new_Arena;
     Some \<lparr>mt_refs = 0, mt_arena = arena, mt_table = table\<rparr> }"

definition mem_Ref :: "MemTable \<Rightarrow> MemTable" where
  "mem_Ref mt = mt\<lparr>mt_refs := mt_refs mt + 1\<rparr>"

text \<open>\<open>None\<close> is the deleted memtable.\<close>

definition mem_Unref :: "MemTable \<Rightarrow> MemTable option" where
  "mem_Unref mt = (let mt = mt\<lparr>mt_refs := mt_refs mt - 1\<rparr> in if mt_refs mt \<le> 0 then None else Some mt)"

definition ApproximateMemoryUsage :: "MemTable \<Rightarrow> u64" where
  "ApproximateMemoryUsage mt = MemoryUsage (mt_arena mt)"

definition mem_Add ::
  "(slice \<Rightarrow> slice \<Rightarrow> int) \<Rightarrow> MemTable \<Rightarrow> u64 \<Rightarrow> ValueType \<Rightarrow> slice \<Rightarrow> slice \<Rightarrow> MemTable option" where
  "mem_Add ucmp mt s type key v =
     (let key_size = length key;
          val_size = length v;
          internal_key_size = key_size + 8;
          encoded_len = VarintLength (of_nat internal_key_size) + internal_key_size + VarintLength (of_nat val_size) + val_size;
          (buf, arena) = Allocate (mt_arena mt) (of_nat encoded_len);
          entry = EncodeVarint32 (of_nat internal_key_size) @ key @ EncodeFixed64 (PackSequenceAndType s type) @
                  EncodeVarint32 (of_nat val_size) @ v
      in do {
        _ \<leftarrow> buf;
        (table, arena) \<leftarrow> skip_Insert (KeyComparator ucmp) (mt_table mt) arena entry;
        Some (mt\<lparr>mt_arena := arena, mt_table := table\<rparr>) })"

text \<open>The result, and what is left in \<open>*value\<close> and \<open>*s\<close>.\<close>

definition mem_Get ::
  "(slice \<Rightarrow> slice \<Rightarrow> int) \<Rightarrow> MemTable \<Rightarrow> LookupKey \<Rightarrow> slice \<Rightarrow> Status \<Rightarrow> (bool \<times> slice \<times> Status) option" where
  "mem_Get ucmp mt key v s = do {
     iter \<leftarrow> skip_Seek (KeyComparator ucmp) (mt_table mt) (memtable_key key);
     if skip_Valid iter then do {
       entry \<leftarrow> skip_key (mt_table mt) iter;
       (key_length, q) \<leftarrow> GetVarint32Ptr (take 5 entry);
       let key_ptr = drop (length (take 5 entry) - length q) entry in
       if ucmp (take (unat (key_length - 8)) key_ptr) (lookup_user_key key) = 0 then do {
         tag \<leftarrow> DecodeFixed64 (drop (unat key_length - 8) key_ptr);
         let c = tag AND 0xFF in
         if c = type_code kTypeValue then do {
           (v', _) \<leftarrow> prefixed_at (drop (unat key_length) key_ptr);
           Some (True, v', s) }
         else if c = type_code kTypeDeletion then Some (True, v, Status_NotFound [] [])
         else Some (False, v, s) }
       else Some (False, v, s) }
     else Some (False, v, s) }"

section \<open>The iterator\<close>

text \<open>Its state is that of the iterator of the skip list; only \<open>Seek\<close> and the accessors do more.\<close>

definition memiter_Seek :: "(slice \<Rightarrow> slice \<Rightarrow> int) \<Rightarrow> MemTable \<Rightarrow> slice \<Rightarrow> skip_iter option" where
  "memiter_Seek ucmp mt k = skip_Seek (KeyComparator ucmp) (mt_table mt) (EncodeKey k)"

definition memiter_SeekToFirst :: "MemTable \<Rightarrow> skip_iter option" where
  "memiter_SeekToFirst mt = skip_SeekToFirst (mt_table mt)"

definition memiter_SeekToLast :: "MemTable \<Rightarrow> skip_iter option" where
  "memiter_SeekToLast mt = skip_SeekToLast (mt_table mt)"

definition memiter_Next :: "MemTable \<Rightarrow> skip_iter \<Rightarrow> skip_iter option" where
  "memiter_Next mt it = skip_Next (mt_table mt) it"

definition memiter_Prev :: "(slice \<Rightarrow> slice \<Rightarrow> int) \<Rightarrow> MemTable \<Rightarrow> skip_iter \<Rightarrow> skip_iter option" where
  "memiter_Prev ucmp mt it = skip_Prev (KeyComparator ucmp) (mt_table mt) it"

definition memiter_key :: "MemTable \<Rightarrow> skip_iter \<Rightarrow> slice option" where
  "memiter_key mt it = do { entry \<leftarrow> skip_key (mt_table mt) it; map_option fst (prefixed_at entry) }"

definition memiter_value :: "MemTable \<Rightarrow> skip_iter \<Rightarrow> slice option" where
  "memiter_value mt it = do {
     entry \<leftarrow> skip_key (mt_table mt) it;
     (_, rest) \<leftarrow> prefixed_at entry;
     map_option fst (prefixed_at rest) }"

end
