(* ===== verification/LDB_MemTable_Correct.thy ===== *)
theory LDB_MemTable_Correct
  imports LDB_MemTable
begin

text \<open>
  Looking up a key in a memtable finds the newest version in the snapshot; a batch that is inserted can be
  read back.
\<close>

section \<open>Entries\<close>

lemma GetVarint32_at:
  "\<exists>q. GetVarint32Ptr (take 5 (EncodeVarint32 n @ r)) = Some (n, q) \<and>
     length (take 5 (EncodeVarint32 n @ r)) - length q = length (EncodeVarint32 n)"
proof -
  have "length (EncodeVarint32 n) \<le> 5" by (rule length_EncodeVarint)
  then have "take 5 (EncodeVarint32 n @ r) = EncodeVarint32 n @ take (5 - length (EncodeVarint32 n)) r" by simp
  moreover have "GetVarint32Ptr (EncodeVarint32 n @ p) = Some (n, p)" for p
    using GetVarint_Encode(1) [of n p] by (simp add: GetVarint32_def)
  ultimately show ?thesis by simp
qed

lemma prefixed_at_Encode:
  assumes "length k < 2 ^ 32"
  shows "prefixed_at (EncodeVarint32 (of_nat (length k)) @ k @ r) = Some (k, r)"
proof -
  let ?d = "EncodeVarint32 (of_nat (length k)) @ k @ r"
  obtain q where q: "GetVarint32Ptr (take 5 ?d) = Some (of_nat (length k), q)"
    "length (take 5 ?d) - length q = length (EncodeVarint32 (of_nat (length k)))"
    using GetVarint32_at by blast
  show ?thesis unfolding prefixed_at_def q(1) bind.bind_lunit prod.case q(2) Let_def
    using assms by (simp add: unat_of_nat_32)
qed

type_synonym version = "u64 \<times> ValueType \<times> slice \<times> slice"

fun version_entry :: "version \<Rightarrow> byte list" where
  "version_entry (s, t, u, v) = EncodeVarint32 (of_nat (length u + 8)) @ u @ EncodeFixed64 (PackSequenceAndType s t) @
     EncodeVarint32 (of_nat (length v)) @ v"

fun version_ok :: "(slice \<Rightarrow> bool) \<Rightarrow> version \<Rightarrow> bool" where
  "version_ok ok (s, t, u, v) \<longleftrightarrow> s \<le> kMaxSequenceNumber \<and> length u + 8 < 2 ^ 32 \<and> length v < 2 ^ 32 \<and> ok u"

fun version_key :: "version \<Rightarrow> slice" where
  "version_key (s, t, u, v) = new_InternalKey u s t"

declare version_entry.simps [simp del]

lemma length_new_InternalKey: "length (new_InternalKey u s t) = length u + 8"
  by (simp add: new_InternalKey_eq)

lemma version_entry_parts:
  assumes "version_ok ok e"
  shows "prefixed_at (version_entry e) = Some (version_key e, EncodeVarint32 (of_nat (length (snd (snd (snd e))))) @ snd (snd (snd e)))"
    and "entry_key (version_entry e) = version_key e"
proof -
  obtain s t u v where e: "e = (s, t, u, v)" by (cases e)
  have "version_entry e = EncodeVarint32 (of_nat (length (new_InternalKey u s t))) @ new_InternalKey u s t @ EncodeVarint32 (of_nat (length v)) @ v"
    unfolding length_new_InternalKey by (simp add: e version_entry.simps new_InternalKey_eq)
  moreover have "length (new_InternalKey u s t) < 2 ^ 32" using assms by (simp add: e length_new_InternalKey)
  ultimately show 1: "prefixed_at (version_entry e) = Some (version_key e, EncodeVarint32 (of_nat (length (snd (snd (snd e))))) @ snd (snd (snd e)))"
    using prefixed_at_Encode [of "new_InternalKey u s t" "EncodeVarint32 (of_nat (length v)) @ v"] by (simp add: e)
  show "entry_key (version_entry e) = version_key e" by (simp add: entry_key_def 1)
qed

lemma memtable_key_eq:
  "memtable_key (new_LookupKey u s) = EncodeVarint32 (of_nat (length (new_InternalKey u s kValueTypeForSeek))) @ new_InternalKey u s kValueTypeForSeek"
  unfolding length_new_InternalKey by (simp add: memtable_key_def new_LookupKey_def new_InternalKey_eq Let_def)

lemma entry_key_lookup:
  assumes "length u + 8 < 2 ^ 32"
  shows "entry_key (memtable_key (new_LookupKey u s)) = new_InternalKey u s kValueTypeForSeek"
  using prefixed_at_Encode [of "new_InternalKey u s kValueTypeForSeek" "[]"] assms
  unfolding memtable_key_eq by (simp add: entry_key_def length_new_InternalKey)

text \<open>The order of entries.\<close>

lemma KeyComparator_order:
  assumes "key_order ok ucmp"
  shows "key_order (\<lambda>d. internal_ok ok (entry_key d)) (KeyComparator ucmp)"
proof (unfold_locales, unfold KeyComparator_def)
  note order = internal_order [OF assms]
  fix a b c assume a: "internal_ok ok (entry_key a)"
  show "internal_Compare ucmp (entry_key a) (entry_key a) = 0" by (rule key_order.compare_refl [OF order a])
  assume b: "internal_ok ok (entry_key b)"
  show "internal_Compare ucmp (entry_key a) (entry_key b) < 0 \<longleftrightarrow> internal_Compare ucmp (entry_key b) (entry_key a) > 0"
    by (rule key_order.compare_flip [OF order a b])
  assume c: "internal_ok ok (entry_key c)"
  show "internal_Compare ucmp (entry_key a) (entry_key b) \<le> 0 \<Longrightarrow> internal_Compare ucmp (entry_key b) (entry_key c) \<le> 0 \<Longrightarrow>
      internal_Compare ucmp (entry_key a) (entry_key c) \<le> 0"
    by (rule key_order.compare_trans [OF order a b c])
qed

interpretation entries: key_order "\<lambda>d. 8 \<le> length (entry_key d)" "KeyComparator bytewise_Compare"
  using KeyComparator_order [OF bytewise.key_order_axioms] by simp

lemma KeyComparator_entries:
  assumes "version_ok ok e" "version_ok ok e'"
  shows "KeyComparator ucmp (version_entry e) (version_entry e') = internal_Compare ucmp (version_key e) (version_key e')"
  using assms by (simp add: KeyComparator_def version_entry_parts(2))

lemma KeyComparator_lookup:
  assumes "version_ok ok (s, t, u, v)" "length w + 8 < 2 ^ 32" "snap \<le> kMaxSequenceNumber"
  shows "KeyComparator ucmp (version_entry (s, t, u, v)) (memtable_key (new_LookupKey w snap)) < 0 \<longleftrightarrow>
    ucmp u w < 0 \<or> ucmp u w = 0 \<and> snap < s"
proof -
  have "PackSequenceAndType snap kTypeValue < PackSequenceAndType s t \<longleftrightarrow> snap < s"
    using PackSequenceAndType_less [of snap s kTypeValue t] assms by simp
  then show ?thesis
    using assms version_entry_parts(2) [OF assms(1)] entry_key_lookup [OF assms(2)]
    by (simp add: KeyComparator_def internal_Compare_less new_InternalKey_eq)
qed

lemma version_entry_internal_ok: "version_ok ok e \<Longrightarrow> internal_ok ok (entry_key (version_entry e))"
  by (cases e) (simp add: version_entry_parts(2) new_InternalKey_eq)

lemma version_distinct:
  assumes "version_ok ok (s, t, u, v)" "version_ok ok (s', t', u', v')" "s \<noteq> s'"
  shows "KeyComparator ucmp (version_entry (s, t, u, v)) (version_entry (s', t', u', v')) \<noteq> 0"
proof -
  have "PackSequenceAndType s t \<noteq> PackSequenceAndType s' t'"
    using PackSequenceAndType_less [of s s' t t'] PackSequenceAndType_less [of s' s t' t] assms by auto
  then show ?thesis using KeyComparator_entries [OF assms(1,2)] by (simp add: internal_Compare_eq_0 new_InternalKey_eq)
qed

section \<open>Adding\<close>

definition mem_inv :: "(slice \<Rightarrow> slice \<Rightarrow> int) \<Rightarrow> MemTable \<Rightarrow> version list \<Rightarrow> bool" where
  "mem_inv ucmp mt es \<longleftrightarrow>
     (\<exists>ks. skip_inv (KeyComparator ucmp) (mt_table mt) (mt_arena mt) ks \<and> set ks = version_entry ` set es)"

lemma new_MemTable_inv: "\<exists>mt. new_MemTable = Some mt \<and> mem_inv ucmp mt []"
proof -
  obtain sl arena where "new_SkipList new_Arena = Some (sl, arena)" "skip_inv (KeyComparator ucmp) sl arena []"
    using new_SkipList_inv [OF arena_ok_new] by blast
  then show ?thesis by (auto simp: new_MemTable_def mem_inv_def)
qed

lemma skip_inv_Allocate:
  assumes "skip_inv cmp sl arena ks" "0 < unat n"
  shows "\<exists>p arena'. Allocate arena n = (Some p, arena') \<and> skip_inv cmp sl arena' ks"
proof -
  obtain ps ht rs where i: "linked sl ps ht" "\<forall>p \<in> set ps. 0 < ht p \<and> ht p \<le> max_height sl"
     "map (key_of sl) ps = ks" "sorted_wrt (\<lambda>a b. cmp a b < 0) ks"
     "arena_ok arena rs" "\<forall>p \<in> dom (sl_nodes sl). \<exists>n > 0. (p, n) \<in> set rs"
    using assms(1) unfolding skip_inv_def by blast
  obtain b off arena' where a: "Allocate arena n = (Some (b, off), arena')" "arena_ok arena' (((b, off), unat n) # rs)"
    using Allocate_ok [OF i(5) assms(2)] by blast
  have "\<forall>p \<in> dom (sl_nodes sl). \<exists>m > 0. (p, m) \<in> set (((b, off), unat n) # rs)" using i(6) by (metis list.set_intros(2))
  then have "skip_inv cmp sl arena' ks" unfolding skip_inv_def using i(1-4) a(2) by blast
  then show ?thesis using a(1) by blast
qed

lemma mem_Add_inv:
  assumes "key_order ok ucmp" and inv: "mem_inv ucmp mt es" and ok: "\<forall>e \<in> set es. version_ok ok e" "version_ok ok (s, t, u, v)"
    and new: "s \<notin> fst ` set es"
  shows "\<exists>mt'. mem_Add ucmp mt s t u v = Some mt' \<and> mem_inv ucmp mt' (es @ [(s, t, u, v)])"
proof -
  obtain ks where ks: "skip_inv (KeyComparator ucmp) (mt_table mt) (mt_arena mt) ks" "set ks = version_entry ` set es"
    using inv by (auto simp: mem_inv_def)
  define n where "n = VarintLength (of_nat (length u + 8)) + (length u + 8) + VarintLength (of_nat (length v)) + length v"
  have "VarintLength w \<le> 10" for w using length_EncodeVarint(2) [of w] by (simp add: VarintLength_Encode)
  then have "n \<le> 10 + (length u + 8) + 10 + length v" unfolding n_def by (intro add_mono) simp_all
  then have "n < 2 ^ 64" "0 < n" using ok(2) by (simp_all add: n_def)
  then have "0 < unat (of_nat n :: u64)" by (simp add: unat_of_nat_64)
  from skip_inv_Allocate [OF ks(1) this] obtain p arena where
    a: "Allocate (mt_arena mt) (of_nat n) = (Some p, arena)" "skip_inv (KeyComparator ucmp) (mt_table mt) arena ks" by blast
  let ?e = "version_entry (s, t, u, v)"
  have "\<forall>k \<in> set ks. internal_ok ok (entry_key k) \<and> KeyComparator ucmp k ?e \<noteq> 0"
  proof
    fix k assume "k \<in> set ks"
    then obtain s' t' u' v' where e: "(s', t', u', v') \<in> set es" "k = version_entry (s', t', u', v')" using ks(2) by force
    then have "s' \<noteq> s" using new by force
    then show "internal_ok ok (entry_key k) \<and> KeyComparator ucmp k ?e \<noteq> 0"
      using e ok version_distinct version_entry_internal_ok by blast
  qed
  from key_order.Insert_inv [OF KeyComparator_order [OF assms(1)] a(2) this version_entry_internal_ok [OF ok(2)]]
  obtain table arena' where i: "skip_Insert (KeyComparator ucmp) (mt_table mt) arena ?e = Some (table, arena')"
    "skip_inv (KeyComparator ucmp) table arena' (takeWhile (\<lambda>k. KeyComparator ucmp k ?e < 0) ks @ ?e # dropWhile (\<lambda>k. KeyComparator ucmp k ?e < 0) ks)"
    by blast
  have "set (takeWhile (\<lambda>k. KeyComparator ucmp k ?e < 0) ks @ ?e # dropWhile (\<lambda>k. KeyComparator ucmp k ?e < 0) ks) =
      version_entry ` set (es @ [(s, t, u, v)])"
  proof -
    have "set (takeWhile P ks @ x # dropWhile P ks) = insert x (set ks)" for P and x :: "byte list"
      by (metis Un_insert_right list.simps(15) set_append takeWhile_dropWhile_id)
    then show ?thesis by (simp add: ks(2))
  qed
  then have "mem_inv ucmp (mt\<lparr>mt_arena := arena', mt_table := table\<rparr>) (es @ [(s, t, u, v)])"
    using i(2) by (auto simp: mem_inv_def)
  moreover have "mem_Add ucmp mt s t u v = Some (mt\<lparr>mt_arena := arena', mt_table := table\<rparr>)"
    using a(1) i(1) by (simp add: mem_Add_def n_def version_entry.simps Let_def)
  ultimately show ?thesis by blast
qed

fun mem_add_all :: "(slice \<Rightarrow> slice \<Rightarrow> int) \<Rightarrow> version list \<Rightarrow> MemTable \<Rightarrow> MemTable option" where
  "mem_add_all ucmp [] mt = Some mt"
| "mem_add_all ucmp ((s, t, u, v) # es) mt = do { mt \<leftarrow> mem_Add ucmp mt s t u v; mem_add_all ucmp es mt }"

lemma mem_add_all_inv:
  assumes "key_order ok ucmp" "mem_inv ucmp mt es0" "\<forall>e \<in> set (es0 @ es). version_ok ok e" "distinct (map fst (es0 @ es))"
  shows "\<exists>mt'. mem_add_all ucmp es mt = Some mt' \<and> mem_inv ucmp mt' (es0 @ es)"
  using assms(2-4)
proof (induction es arbitrary: mt es0)
  case (Cons e es)
  obtain s t u v where e: "e = (s, t, u, v)" by (cases e)
  obtain mt1 where 1: "mem_Add ucmp mt s t u v = Some mt1" "mem_inv ucmp mt1 (es0 @ [(s, t, u, v)])"
    using mem_Add_inv [OF assms(1) Cons.prems(1), of s t u v] Cons.prems(2,3) by (auto simp: e)
  show ?case using Cons.IH [OF 1(2)] Cons.prems(2,3) 1(1) by (simp add: e)
qed simp

section \<open>Looking up\<close>

text \<open>The newest version of a key that a snapshot sees, and what it means for \<open>Get\<close>.\<close>

definition newest :: "(slice \<Rightarrow> slice \<Rightarrow> int) \<Rightarrow> version list \<Rightarrow> slice \<Rightarrow> u64 \<Rightarrow> version option" where
  "newest ucmp es w snap = find (\<lambda>(s, t, u, v). ucmp u w = 0 \<and> s \<le> snap) (rev es)"

fun get_result :: "version option \<Rightarrow> slice \<Rightarrow> Status \<Rightarrow> bool \<times> slice \<times> Status" where
  "get_result None v st = (False, v, st)"
| "get_result (Some (_, kTypeValue, _, v')) v st = (True, v', st)"
| "get_result (Some (_, kTypeDeletion, _, _)) v st = (True, v, Status_NotFound [] [])"

lemma seek_first:
  assumes "do { it \<leftarrow> skip_Seek cmp sl key; keys_forward sl it } = Some ks"
  obtains it where "skip_Seek cmp sl key = Some it"
    "case ks of [] \<Rightarrow> \<not> skip_Valid it | k # _ \<Rightarrow> skip_Valid it \<and> skip_key sl it = Some k"
proof -
  obtain it where it: "skip_Seek cmp sl key = Some it" "keys_forward sl it = Some ks" using assms by (auto simp: bind_Some_iff)
  have "case ks of [] \<Rightarrow> \<not> skip_Valid it | k # _ \<Rightarrow> skip_Valid it \<and> skip_key sl it = Some k"
    using it(2) by (subst (asm) keys_forward.simps) (auto simp: bind_Some_iff split: if_splits)
  then show ?thesis using it(1) that by blast
qed

lemma pack_low: "PackSequenceAndType s t AND 0xFF = type_code t"
proof -
  have t: "bit (type_code t) n \<longleftrightarrow> n = 0 \<and> t = kTypeValue" for n by (cases t; cases n; simp add: bit_1_iff)
  have "take_bit 8 (PackSequenceAndType s t) = type_code t"
    by (rule bit_word_eqI) (auto simp: PackSequenceAndType_def bit_simps t)
  then show ?thesis by (simp add: take_bit_eq_mask mask_eq_exp_minus_1)
qed

lemma mem_Get_entry:
  assumes it: "skip_Seek (KeyComparator ucmp) (mt_table mt) (memtable_key key) = Some it" "skip_Valid it"
    and e: "skip_key (mt_table mt) it = Some (version_entry (s, t, u, v))" "version_ok ok (s, t, u, v)"
  shows "mem_Get ucmp mt key v0 st = Some (if ucmp u (lookup_user_key key) = 0 then get_result (Some (s, t, u, v)) v0 st else (False, v0, st))"
proof -
  let ?e = "version_entry (s, t, u, v)"
  let ?n = "of_nat (length u + 8) :: u32"
  let ?r = "u @ EncodeFixed64 (PackSequenceAndType s t) @ EncodeVarint32 (of_nat (length v)) @ v"
  have ent: "?e = EncodeVarint32 ?n @ ?r" by (simp add: version_entry.simps)
  obtain q where q: "GetVarint32Ptr (take 5 ?e) = Some (?n, q)" "length (take 5 ?e) - length q = length (EncodeVarint32 ?n)"
    using GetVarint32_at [of ?n ?r] unfolding ent by blast
  have ptr: "drop (length (take 5 ?e) - length q) ?e = ?r" unfolding q(2) by (simp add: ent)
  have n: "unat ?n = length u + 8" "unat (?n - 8) = length u"
    using e(2) unat_of_nat_32 [of "length u + 8"] unat_of_nat_32 [of "length u"] by simp_all
  have key: "take (unat (?n - 8)) ?r = u" by (simp only: n append_eq_conv_conj [symmetric]) simp
  have "drop (unat ?n - 8) ?r = EncodeFixed64 (PackSequenceAndType s t) @ EncodeVarint32 (of_nat (length v)) @ v"
    by (simp only: n(1)) simp
  then have tag: "DecodeFixed64 (drop (unat ?n - 8) ?r) = Some (PackSequenceAndType s t)" by simp
  have "drop (unat ?n) ?r = EncodeVarint32 (of_nat (length v)) @ v @ []" by (simp only: n(1)) simp
  then have val: "prefixed_at (drop (unat ?n) ?r) = Some (v, [])" using prefixed_at_Encode [of v "[]"] e(2) by simp
  show ?thesis
    unfolding mem_Get_def it(1) e(1) bind.bind_lunit q(1) prod.case ptr Let_def key tag val pack_low if_P [OF it(2)]
    by (cases t) simp_all
qed

lemma find_rev_newest:
  assumes "e \<in> set es" "P e" "sorted_wrt (<) (map fst es)" "\<And>e'. e' \<in> set es \<Longrightarrow> P e' \<Longrightarrow> fst e' \<le> fst e"
  shows "find P (rev es) = Some (e :: u64 \<times> 'b)"
proof -
  obtain xs ys where es: "es = xs @ e # ys" using assms(1) split_list by metis
  have "\<not> P y" if "y \<in> set ys" for y
    using assms(3) assms(4) [of y] that by (auto simp: es sorted_wrt_append)
  then have "find P (rev ys @ zs) = find P zs" for zs by (induction ys arbitrary: zs) auto
  then show ?thesis using assms(2) by (simp add: es)
qed

lemma mem_Get_newest:
  assumes order: "key_order ok ucmp" and inv: "mem_inv ucmp mt es" and oks: "\<forall>e \<in> set es. version_ok ok e"
    and seqs: "sorted_wrt (<) (map fst es)" and w: "ok w" "length w + 8 < 2 ^ 32" "snap \<le> kMaxSequenceNumber"
  shows "mem_Get ucmp mt (new_LookupKey w snap) v0 st = Some (get_result (newest ucmp es w snap) v0 st)"
proof -
  let ?c = "KeyComparator ucmp"
  let ?key = "memtable_key (new_LookupKey w snap)"
  define vis where "vis = (\<lambda>(s :: u64, t :: ValueType, u, v :: slice). ucmp u w = 0 \<and> s \<le> snap)"
  have new: "newest ucmp es w snap = find vis (rev es)" by (simp add: newest_def vis_def)
  obtain ks where ks: "skip_inv ?c (mt_table mt) (mt_arena mt) ks" "set ks = version_entry ` set es"
    using inv by (auto simp: mem_inv_def)
  note eorder = KeyComparator_order [OF order]
  have okk: "\<forall>k \<in> set ks. internal_ok ok (entry_key k)"
  proof
    fix k assume "k \<in> set ks"
    then obtain e where "e \<in> set es" "k = version_entry e" using ks(2) by auto
    then show "internal_ok ok (entry_key k)" using oks version_entry_internal_ok [of ok e] by simp
  qed
  have okt: "internal_ok ok (entry_key ?key)" using w(1,2) by (simp add: entry_key_lookup new_InternalKey_eq)
  have sorted: "sorted_wrt (\<lambda>a b. ?c a b < 0) ks" using skip_inv_holds [OF ks(1)] by (auto simp: holds_def)
  let ?P = "\<lambda>k. ?c k ?key < 0"
  have below: "?P (version_entry (s, t, u, v)) \<longleftrightarrow> ucmp u w < 0 \<or> ucmp u w = 0 \<and> snap < s" if "(s, t, u, v) \<in> set es" for s t u v
    using KeyComparator_lookup [OF _ w(2,3), of ok s t u v] oks that by blast
  have split: "ks = takeWhile ?P ks @ dropWhile ?P ks" by simp
  have visL: "version_entry e' \<in> set (dropWhile ?P ks)" if "e' \<in> set es" "vis e'" for e'
  proof -
    obtain s t u v where e': "e' = (s, t, u, v)" by (cases e')
    then have "\<not> ?P (version_entry e')" using below [of s t u v] that by (auto simp: vis_def)
    moreover have "version_entry e' \<in> set ks" using ks(2) that(1) by simp
    ultimately show ?thesis using split by (metis Un_iff set_append set_takeWhileD)
  qed
  obtain it where it: "skip_Seek ?c (mt_table mt) ?key = Some it"
    "case dropWhile ?P ks of [] \<Rightarrow> \<not> skip_Valid it | k # _ \<Rightarrow> skip_Valid it \<and> skip_key (mt_table mt) it = Some k"
    by (rule seek_first [OF key_order.reads(3) [OF eorder skip_inv_holds [OF ks(1)] okk okt]])
  show ?thesis
  proof (cases "dropWhile ?P ks")
    case Nil
    have "\<not> vis e'" if "e' \<in> set es" for e' using visL [OF that] unfolding Nil by auto
    then have "newest ucmp es w snap = None" by (simp add: new find_None_iff)
    then show ?thesis using it Nil by (simp add: mem_Get_def)
  next
    case (Cons k rest)
    then have valid: "skip_Valid it" "skip_key (mt_table mt) it = Some k" using it(2) by simp_all
    have "k \<in> set ks" "\<not> ?P k" using Cons set_dropWhileD [of k ?P ks] hd_dropWhile [of ?P ks] by auto
    then obtain s t u v where e: "(s, t, u, v) \<in> set es" "k = version_entry (s, t, u, v)" "\<not> ?P k" using ks(2) by force
    have eok: "version_ok ok (s, t, u, v)" using oks e(1) by blast
    have get: "mem_Get ucmp mt (new_LookupKey w snap) v0 st = Some (if ucmp u w = 0 then get_result (Some (s, t, u, v)) v0 st else (False, v0, st))"
      using mem_Get_entry [OF it(1) valid(1) _ eok] valid(2) e(2) by (simp add: LookupKey_parts)
    have not_below: "\<not> ucmp u w < 0" "ucmp u w = 0 \<Longrightarrow> s \<le> snap" using e below [OF e(1)] by auto
    have after: "ucmp u u' < 0 \<or> ucmp u u' = 0 \<and> s' \<le> s" "ok u'" if e': "(s', t', u', v') \<in> set es" "vis (s', t', u', v')" for s' t' u' v'
    proof -
      have ok': "version_ok ok (s', t', u', v')" using oks e'(1) by blast
      then show "ok u'" by simp
      have "k = version_entry (s', t', u', v') \<or> ?c k (version_entry (s', t', u', v')) < 0"
        using visL [OF e'] Cons sorted split by (metis set_ConsD sorted_wrt.simps(2) sorted_wrt_append)
      moreover have "?c k k = 0" using key_order.compare_refl [OF eorder] okk \<open>k \<in> set ks\<close> by blast
      ultimately have "?c k (version_entry (s', t', u', v')) \<le> 0" by auto
      then have "internal_Compare ucmp (new_InternalKey u s t) (new_InternalKey u' s' t') \<le> 0"
        using KeyComparator_entries [OF eok ok', of ucmp] e(2) by simp
      then have "ucmp u u' < 0 \<or> ucmp u u' = 0 \<and> PackSequenceAndType s' t' \<le> PackSequenceAndType s t"
        by (simp add: internal_Compare_le new_InternalKey_eq)
      moreover have "s' \<le> s" if "PackSequenceAndType s' t' \<le> PackSequenceAndType s t"
        using that PackSequenceAndType_less [of s s' t t'] eok ok' by (auto simp: not_less [symmetric])
      ultimately show "ucmp u u' < 0 \<or> ucmp u u' = 0 \<and> s' \<le> s" by blast
    qed
    have oku: "ok u" using eok by simp
    show ?thesis
    proof (cases "ucmp u w = 0")
      case True
      have "fst e' \<le> fst (s, t, u, v)" if e': "e' \<in> set es" "vis e'" for e'
      proof -
        obtain s' t' u' v' where x: "e' = (s', t', u', v')" by (cases e')
        note a = after [OF e' [unfolded x]]
        have "ucmp u' w = 0" using e'(2) by (simp add: x vis_def)
        then have "\<not> ucmp u u' < 0"
          using True key_order.compare_less_le_trans [OF order oku a(2) w(1)] by force
        then show ?thesis using a(1) by (simp add: x)
      qed
      moreover have "vis (s, t, u, v)" using True not_below(2) by (simp add: vis_def)
      ultimately have "find vis (rev es) = Some (s, t, u, v)"
        using find_rev_newest [OF e(1) _ seqs, of vis] by blast
      then show ?thesis using get True by (simp add: new)
    next
      case False
      have "\<not> vis e'" if "e' \<in> set es" for e'
      proof
        assume v: "vis e'"
        obtain s' t' u' v' where x: "e' = (s', t', u', v')" by (cases e')
        note a = after [OF that [unfolded x] v [unfolded x]]
        have "ucmp u' w = 0" using v by (simp add: x vis_def)
        then have "ucmp u w \<le> 0" using a key_order.compare_trans [OF order oku a(2) w(1)] by auto
        then show False using False not_below(1) by simp
      qed
      then have "newest ucmp es w snap = None" by (simp add: new find_None_iff)
      then show ?thesis using get False by simp
    qed
  qed
qed

text \<open>
  C30. Looking up a key in a memtable: after adding any versions with increasing sequence numbers, \<open>Get\<close> finds
  the newest version of the key that the snapshot sees, by the order of the user's comparator: its value if it is
  a value, \<open>NotFound\<close> if it is a deletion, and nothing if there is none.
\<close>

theorem memtable_get:
  assumes "key_order ok ucmp" "\<forall>e \<in> set es. version_ok ok e" "sorted_wrt (<) (map fst es)"
    and "ok w" "length w + 8 < 2 ^ 32" "snap \<le> kMaxSequenceNumber"
  shows "case Option.bind new_MemTable (mem_add_all ucmp es) of
      None \<Rightarrow> False
    | Some mt \<Rightarrow> mem_Get ucmp mt (new_LookupKey w snap) v st = Some (get_result (newest ucmp es w snap) v st)"
proof -
  obtain mt0 where 0: "new_MemTable = Some mt0" "mem_inv ucmp mt0 []" using new_MemTable_inv by blast
  have "distinct (map fst ([] @ es))" using assms(3) by (simp add: strict_sorted_iff)
  then obtain mt where mt: "mem_add_all ucmp es mt0 = Some mt" "mem_inv ucmp mt es"
    using mem_add_all_inv [OF assms(1) 0(2), of es] assms(2) by auto
  show ?thesis unfolding 0(1) bind.bind_lunit mt(1) option.case by (rule mem_Get_newest [OF assms(1) mt(2) assms(2-6)])
qed

theorem memtable_get_witness:
  "case Option.bind new_MemTable (mem_add_all bytewise_Compare
      [(3, kTypeValue, [65], [1]), (5, kTypeValue, [66], [2]), (8, kTypeDeletion, [65], []), (9, kTypeValue, [65], [4])]) of
      None \<Rightarrow> False
    | Some mt \<Rightarrow> mem_Get bytewise_Compare mt (new_LookupKey [65] 8) [] Status_OK =
        Some (get_result (newest bytewise_Compare
          [(3, kTypeValue, [65], [1]), (5, kTypeValue, [66], [2]), (8, kTypeDeletion, [65], []), (9, kTypeValue, [65], [4])] [65] 8) [] Status_OK)"
  by (rule memtable_get [OF bytewise.key_order_axioms]) (simp_all add: kMaxSequenceNumber_def)

section \<open>Batches\<close>

text \<open>The memtable as the state of \<open>MemTableInserter\<close>, and the versions a batch adds.\<close>

definition add_to_table ::
  "(slice \<Rightarrow> slice \<Rightarrow> int) \<Rightarrow> u64 \<Rightarrow> ValueType \<Rightarrow> slice \<Rightarrow> slice \<Rightarrow> MemTable option \<Rightarrow> MemTable option" where
  "add_to_table ucmp s t k v mt = Option.bind mt (\<lambda>mt. mem_Add ucmp mt s t k v)"

fun batch_versions :: "u64 \<Rightarrow> update list \<Rightarrow> version list" where
  "batch_versions seq [] = []"
| "batch_versions seq (Update_Put k v # us) = (seq, kTypeValue, k, v) # batch_versions (seq + 1) us"
| "batch_versions seq (Update_Delete k # us) = (seq, kTypeDeletion, k, []) # batch_versions (seq + 1) us"

lemma add_entries_table:
  "add_entries (add_to_table ucmp) seq us mt = Option.bind mt (mem_add_all ucmp (batch_versions seq us))"
  by (induction seq us arbitrary: mt rule: batch_versions.induct) (auto simp: add_to_table_def split: bind_split)

text \<open>The contents of the database as a map: a value, or a deletion mark.\<close>

fun update_map :: "update \<Rightarrow> (slice \<rightharpoonup> slice option) \<Rightarrow> slice \<rightharpoonup> slice option" where
  "update_map (Update_Put k v) m = m(k \<mapsto> Some v)"
| "update_map (Update_Delete k) m = m(k \<mapsto> None)"

fun map_result :: "slice option option \<Rightarrow> slice \<Rightarrow> Status \<Rightarrow> bool \<times> slice \<times> Status" where
  "map_result None v st = (False, v, st)"
| "map_result (Some (Some v')) v st = (True, v', st)"
| "map_result (Some None) v st = (True, v, Status_NotFound [] [])"

fun update_key :: "update \<Rightarrow> slice" where
  "update_key (Update_Put k v) = k"
| "update_key (Update_Delete k) = k"

lemma batch_versions_snoc:
  "batch_versions seq (us @ [u]) = batch_versions seq us @ batch_versions (seq + of_nat (length us)) [u]"
  by (induction seq us rule: batch_versions.induct) (simp_all add: add.assoc)

lemma batch_versions_seqs: "map fst (batch_versions seq us) = map (\<lambda>i. seq + of_nat i) [0..<length us]"
  by (induction us rule: rev_induct) (simp, simp add: batch_versions_snoc split: update.splits, metis (no_types, lifting) batch_versions.simps fst_conv list.simps(8,9) update.exhaust)

lemma batch_versions_props:
  assumes "unat seq + length us \<le> unat kMaxSequenceNumber" "\<forall>u \<in> set us. update_ok u \<and> length (update_key u) + 8 < 2 ^ 32"
  shows "\<forall>e \<in> set (batch_versions seq us). version_ok (\<lambda>_. True) e \<and> fst e \<le> seq + of_nat (length us)"
    and "sorted_wrt (<) (map fst (batch_versions seq us))" and "seq + of_nat (length us) \<le> kMaxSequenceNumber"
proof -
  have u: "unat (seq + of_nat i) = unat seq + i" if "i \<le> length us" for i
  proof -
    have "unat seq + i < 2 ^ 64" using assms(1) that unat_lt_64 [of kMaxSequenceNumber] by simp
    then show ?thesis using unat_of_nat_64 [of i] by (simp add: unat_word_ariths)
  qed
  show le: "seq + of_nat (length us) \<le> kMaxSequenceNumber" using assms(1) u [of "length us"] by (simp add: word_le_nat_alt)
  show "sorted_wrt (<) (map fst (batch_versions seq us))"
    unfolding batch_versions_seqs sorted_wrt_map
    by (rule sorted_wrt_mono_rel [OF _ sorted_wrt_upt]) (use u in \<open>simp add: word_less_nat_alt\<close>)
  have "fst e \<le> seq + of_nat (length us)" if "e \<in> set (batch_versions seq us)" for e
  proof -
    have "fst e \<in> set (map fst (batch_versions seq us))" using that by simp
    then obtain i where "i < length us" "fst e = seq + of_nat i" unfolding batch_versions_seqs by auto
    then show ?thesis using u [of i] u [of "length us"] by (simp add: word_le_nat_alt)
  qed
  moreover have "length u + 8 < 2 ^ 32 \<and> length v < 2 ^ 32" if "(s, t, u, v) \<in> set (batch_versions seq us)" for s t u v
    using assms(2) that by (induction seq us rule: batch_versions.induct) auto
  ultimately show "\<forall>e \<in> set (batch_versions seq us). version_ok (\<lambda>_. True) e \<and> fst e \<le> seq + of_nat (length us)"
    using le by (force dest: order_trans)
qed

lemma newest_batch:
  assumes "\<forall>e \<in> set (batch_versions seq us). fst e \<le> snap"
  shows "get_result (newest bytewise_Compare (batch_versions seq us) w snap) v st = map_result (fold update_map us Map.empty w) v st"
  using assms
proof (induction us rule: rev_induct)
  case Nil
  then show ?case by (simp add: newest_def)
next
  case (snoc u us)
  have eq: "bytewise_Compare a w = 0 \<longleftrightarrow> a = w" for a by (simp add: bytewise_Compare_def slice_compare_lex)
  show ?case using snoc by (cases u) (auto simp: batch_versions_snoc newest_def eq)
qed

text \<open>
  C31. A batch can be read back: after inserting a batch into an empty memtable, looking up a key in the
  snapshot behind the batch gives what the map gives that the updates of the batch, in order, make.
\<close>

theorem batch_read_back:
  assumes "unat seq + length us \<le> unat kMaxSequenceNumber" "\<forall>u \<in> set us. update_ok u \<and> length (update_key u) + 8 < 2 ^ 32"
    and "length w + 8 < 2 ^ 32"
  shows "case InsertInto (add_to_table bytewise_Compare) (SetSequence (foldl add_update batch_Clear us) seq) new_MemTable of
      (s, Some mt) \<Rightarrow> s = Status_OK \<and>
        mem_Get bytewise_Compare mt (new_LookupKey w (seq + of_nat (length us))) v st =
          Some (map_result (fold update_map us Map.empty w) v st)
    | _ \<Rightarrow> False"
proof -
  note props = batch_versions_props [OF assms(1,2)]
  let ?es = "batch_versions seq us"
  have oks: "\<forall>e \<in> set ?es. version_ok (\<lambda>_. True) e" using props(1) by blast
  obtain mt0 where 0: "new_MemTable = Some mt0" "mem_inv bytewise_Compare mt0 []" using new_MemTable_inv by blast
  have "distinct (map fst ([] @ ?es))" using props(2) by (simp add: strict_sorted_iff)
  then obtain mt where mt: "mem_add_all bytewise_Compare ?es mt0 = Some mt" "mem_inv bytewise_Compare mt ?es"
    using mem_add_all_inv [OF bytewise.key_order_axioms 0(2), of ?es] oks by auto
  have "list_all update_ok us" using assms(2) by (simp add: list_all_iff)
  have "InsertInto (add_to_table bytewise_Compare) (SetSequence (foldl add_update batch_Clear us) seq) new_MemTable = (Status_OK, Some mt)"
    unfolding InsertInto_updates [OF \<open>list_all update_ok us\<close>] add_entries_table 0(1) bind.bind_lunit mt(1) ..
  moreover have "mem_Get bytewise_Compare mt (new_LookupKey w (seq + of_nat (length us))) v st =
      Some (map_result (fold update_map us Map.empty w) v st)"
    using mem_Get_newest [OF bytewise.key_order_axioms mt(2) oks props(2) _ assms(3) props(3)] newest_batch [of seq us] props(1) by simp
  ultimately show ?thesis by simp
qed

theorem batch_read_back_witness:
  "case InsertInto (add_to_table bytewise_Compare) (SetSequence (foldl add_update batch_Clear [Update_Put [65] [1], Update_Delete [66]]) 7) new_MemTable of
      (s, Some mt) \<Rightarrow> s = Status_OK \<and>
        mem_Get bytewise_Compare mt (new_LookupKey [66] (7 + of_nat (length [Update_Put [65] [1], Update_Delete [66]]))) [] Status_OK =
          Some (map_result (fold update_map [Update_Put [65] [1], Update_Delete [66]] Map.empty [66]) [] Status_OK)
    | _ \<Rightarrow> False"
  by (rule batch_read_back) (simp_all add: kMaxSequenceNumber_def)

end
