(* ===== verification/LDB_FilterBlock.thy ===== *)
theory LDB_FilterBlock
  imports LDB_Bloom LDB_Dbformat
begin

text \<open>
  The filters of a table (\<open>filter_block.h\<close>, \<open>filter_block.cc\<close>): one for the keys of every two kilobytes of
  the file.
\<close>

section \<open>Building\<close>

text \<open>A filter policy: its name, the bytes that \<open>CreateFilter\<close> appends, and \<open>KeyMayMatch\<close>.\<close>

record FilterPolicy =
  fp_Name :: "byte list"
  fp_CreateFilter :: "slice list \<Rightarrow> byte list"
  fp_KeyMayMatch :: "slice \<Rightarrow> slice \<Rightarrow> bool"

definition kFilterBaseLg :: nat where "kFilterBaseLg = 11"
definition kFilterBase :: nat where "kFilterBase = 2048"

record FilterBlockBuilder =
  fb_keys :: "byte list"
  fb_start :: "nat list"
  fb_result :: "byte list"
  filter_offsets :: "u32 list"

definition new_FilterBlockBuilder :: FilterBlockBuilder where
  "new_FilterBlockBuilder = \<lparr>fb_keys = [], fb_start = [], fb_result = [], filter_offsets = []\<rparr>"

definition GenerateFilter :: "FilterPolicy \<Rightarrow> FilterBlockBuilder \<Rightarrow> FilterBlockBuilder" where
  "GenerateFilter policy b =
     (let num_keys = length (fb_start b) in
      if num_keys = 0 then b\<lparr>filter_offsets := filter_offsets b @ [of_nat (length (fb_result b))]\<rparr>
      else
        let start = fb_start b @ [length (fb_keys b)];
            tmp_keys = map (\<lambda>i. take (start ! (i + 1) - start ! i) (drop (start ! i) (fb_keys b))) [0..<num_keys]
        in b\<lparr>filter_offsets := filter_offsets b @ [of_nat (length (fb_result b))],
             fb_result := fb_result b @ fp_CreateFilter policy tmp_keys,
             fb_keys := [], fb_start := []\<rparr>)"

lemma GenerateFilter_offsets:
  "filter_offsets (GenerateFilter policy b) = filter_offsets b @ [of_nat (length (fb_result b))]"
  by (simp add: GenerateFilter_def Let_def)

function StartBlock_loop :: "FilterPolicy \<Rightarrow> nat \<Rightarrow> FilterBlockBuilder \<Rightarrow> FilterBlockBuilder" where
  "StartBlock_loop policy filter_index b =
     (if filter_index > length (filter_offsets b) then StartBlock_loop policy filter_index (GenerateFilter policy b) else b)"
  by pat_completeness auto
termination
  by (relation "measure (\<lambda>(policy, n, b). n - length (filter_offsets b))") (auto simp: GenerateFilter_offsets)

declare StartBlock_loop.simps [simp del]

definition StartBlock :: "FilterPolicy \<Rightarrow> u64 \<Rightarrow> FilterBlockBuilder \<Rightarrow> FilterBlockBuilder" where
  "StartBlock policy block_offset b = StartBlock_loop policy (unat block_offset div kFilterBase) b"

definition filter_AddKey :: "FilterBlockBuilder \<Rightarrow> slice \<Rightarrow> FilterBlockBuilder" where
  "filter_AddKey b key = b\<lparr>fb_start := fb_start b @ [length (fb_keys b)], fb_keys := fb_keys b @ key\<rparr>"

definition filter_Finish :: "FilterPolicy \<Rightarrow> FilterBlockBuilder \<Rightarrow> slice \<times> FilterBlockBuilder" where
  "filter_Finish policy b =
     (let b = (if fb_start b \<noteq> [] then GenerateFilter policy b else b);
          array_offset = (of_nat (length (fb_result b)) :: u32);
          result = fold (\<lambda>n dst. PutFixed32 dst n) (filter_offsets b) (fb_result b);
          result = PutFixed32 result array_offset @ [of_nat kFilterBaseLg]
      in (result, b\<lparr>fb_result := result\<rparr>))"

section \<open>Reading\<close>

text \<open>The contents if they are accepted (\<open>data_\<close>), the offset array as a position in them.\<close>

record FilterBlockReader =
  fr_data :: "byte list"
  fr_offset :: nat
  fr_num :: nat
  base_lg :: size_t

definition new_FilterBlockReader :: "slice \<Rightarrow> FilterBlockReader" where
  "new_FilterBlockReader contents =
     (let n = length contents; r = \<lparr>fr_data = [], fr_offset = 0, fr_num = 0, base_lg = 0\<rparr> in
      if n < 5 then r
      else
        let r = r\<lparr>base_lg := scast (contents ! (n - 1))\<rparr>;
            last_word = unat (le_word (take 4 (drop (n - 5) contents)) :: u32)
        in if last_word > n - 5 then r
           else r\<lparr>fr_data := contents, fr_offset := last_word, fr_num := (n - 5 - last_word) div 4\<rparr>)"

text \<open>
  The base is read as a signed \<open>char\<close> and converted to \<open>size_t\<close>; shifting by 64 or more, which a corrupt block
  can ask for, is undefined: \<open>None\<close>. So is a read outside the contents.
\<close>

definition filter_KeyMayMatch :: "FilterPolicy \<Rightarrow> FilterBlockReader \<Rightarrow> u64 \<Rightarrow> slice \<Rightarrow> bool option" where
  "filter_KeyMayMatch policy r block_offset key =
     (if base_lg r \<ge> 64 then None
      else
        let index = unat (drop_bit (unat (base_lg r)) block_offset) in
        if index < fr_num r then do {
          start \<leftarrow> DecodeFixed32 (drop (fr_offset r + index * 4) (fr_data r));
          limit \<leftarrow> DecodeFixed32 (drop (fr_offset r + index * 4 + 4) (fr_data r));
          if start \<le> limit \<and> unat limit \<le> fr_offset r
          then Some (fp_KeyMayMatch policy key (take (unat (limit - start)) (drop (unat start) (fr_data r))))
          else Some (\<not> start = limit) }
        else Some True)"

section \<open>What the builder holds\<close>

text \<open>
  The keys added so far with the offsets of their blocks; the keys of filter \<open>i\<close> are those of the blocks
  that begin in the \<open>i\<close>-th two kilobytes.
\<close>

type_synonym added = "(u64 \<times> slice) list"

definition filter_keys :: "added \<Rightarrow> nat \<Rightarrow> slice list" where
  "filter_keys ad i = map snd (filter (\<lambda>(off, _). unat off div kFilterBase = i) ad)"

definition filter_of :: "FilterPolicy \<Rightarrow> added \<Rightarrow> nat \<Rightarrow> byte list" where
  "filter_of policy ad i = (if filter_keys ad i = [] then [] else fp_CreateFilter policy (filter_keys ad i))"

definition filters_before :: "FilterPolicy \<Rightarrow> added \<Rightarrow> nat \<Rightarrow> byte list" where
  "filters_before policy ad i = concat (map (filter_of policy ad) [0..<i])"

definition pending_keys :: "FilterBlockBuilder \<Rightarrow> slice list" where
  "pending_keys b = (let start = fb_start b @ [length (fb_keys b)] in
     map (\<lambda>i. take (start ! (i + 1) - start ! i) (drop (start ! i) (fb_keys b))) [0..<length (fb_start b)])"

definition filter_inv :: "FilterPolicy \<Rightarrow> FilterBlockBuilder \<Rightarrow> added \<Rightarrow> bool" where
  "filter_inv policy b ad \<longleftrightarrow>
     (let n = length (filter_offsets b) in
      (\<forall>(off, _) \<in> set ad. unat off div kFilterBase \<le> n) \<and> pending_keys b = filter_keys ad n \<and>
      (\<forall>s \<in> set (fb_start b). s \<le> length (fb_keys b)) \<and>
      fb_result b = filters_before policy ad n \<and>
      filter_offsets b = map (\<lambda>i. of_nat (length (filters_before policy ad i))) [0..<n])"

lemma length_pending_keys: "length (pending_keys b) = length (fb_start b)"
  by (simp add: pending_keys_def Let_def)

lemma filter_inv_new: "filter_inv policy new_FilterBlockBuilder []"
  by (simp add: filter_inv_def new_FilterBlockBuilder_def pending_keys_def filter_keys_def filters_before_def)

lemma filters_before_Suc: "filters_before policy ad (Suc n) = filters_before policy ad n @ filter_of policy ad n"
  by (simp add: filters_before_def)

lemma filter_keys_above: "\<forall>(off, _) \<in> set ad. unat off div kFilterBase \<le> n \<Longrightarrow> filter_keys ad (Suc n) = []"
  by (fastforce simp: filter_keys_def filter_empty_conv)

lemma GenerateFilter_inv:
  assumes inv: "filter_inv policy b ad"
  shows "filter_inv policy (GenerateFilter policy b) ad"
proof -
  let ?n = "length (filter_offsets b)"
  have i: "\<forall>(off, _) \<in> set ad. unat off div kFilterBase \<le> ?n" "pending_keys b = filter_keys ad ?n"
    "fb_result b = filters_before policy ad ?n" "filter_offsets b = map (\<lambda>i. of_nat (length (filters_before policy ad i))) [0..<?n]"
    using inv by (simp_all add: filter_inv_def Let_def)
  have empty: "filter_keys ad ?n = [] \<longleftrightarrow> fb_start b = []" using i(2) length_pending_keys [of b] by force
  have res: "fb_result (GenerateFilter policy b) = fb_result b @ filter_of policy ad ?n"
    using i(2) by (auto simp: GenerateFilter_def filter_of_def empty pending_keys_def Let_def)
  have p: "fb_start (GenerateFilter policy b) = []" "pending_keys (GenerateFilter policy b) = []"
    by (simp_all add: GenerateFilter_def pending_keys_def Let_def)
  have "\<forall>(off, _) \<in> set ad. unat off div kFilterBase \<le> Suc ?n" using i(1) by fastforce
  then show ?thesis
    using i(4) by (simp add: filter_inv_def GenerateFilter_offsets res p i(3) filters_before_Suc filter_keys_above [OF i(1)] Let_def)
qed

lemma StartBlock_inv:
  assumes "filter_inv policy b ad" "unat off div kFilterBase \<ge> length (filter_offsets b)"
  shows "filter_inv policy (StartBlock policy off b) ad \<and>
    length (filter_offsets (StartBlock policy off b)) = unat off div kFilterBase"
proof -
  have "filter_inv policy b ad \<Longrightarrow> n \<ge> length (filter_offsets b) \<Longrightarrow>
      filter_inv policy (StartBlock_loop policy n b) ad \<and> length (filter_offsets (StartBlock_loop policy n b)) = n" for n
  proof (induction policy n b rule: StartBlock_loop.induct)
    case (1 policy n b)
    then show ?case
      by (cases "length (filter_offsets b) < n")
        (simp_all add: StartBlock_loop.simps [of policy n b] GenerateFilter_inv GenerateFilter_offsets)
  qed
  then show ?thesis using assms by (simp add: StartBlock_def)
qed

lemma pending_AddKey:
  assumes "\<forall>s \<in> set (fb_start b). s \<le> length (fb_keys b)"
  shows "pending_keys (filter_AddKey b key) = pending_keys b @ [key]"
proof -
  let ?k = "fb_keys b" and ?s = "fb_start b"
  let ?S = "?s @ [length ?k]"
  have le: "?S ! i \<le> length ?k" if "i \<le> length ?s" for i using assms that by (cases "i = length ?s") (auto simp: nth_append)
  have "take ((?S @ [length (?k @ key)]) ! (i + 1) - (?S @ [length (?k @ key)]) ! i) (drop ((?S @ [length (?k @ key)]) ! i) (?k @ key)) =
      take (?S ! (i + 1) - ?S ! i) (drop (?S ! i) ?k)" if i: "i < length ?s" for i
    using le [of i] le [of "i + 1"] i by (auto simp: nth_append split: if_splits)
  then have "map (\<lambda>i. take ((?S @ [length (?k @ key)]) ! (i + 1) - (?S @ [length (?k @ key)]) ! i)
        (drop ((?S @ [length (?k @ key)]) ! i) (?k @ key))) [0..<length ?s] = pending_keys b"
    by (simp add: pending_keys_def Let_def)
  then show ?thesis by (simp add: pending_keys_def filter_AddKey_def Let_def nth_append)
qed

lemma filter_keys_snoc:
  "filter_keys (ad @ [(off, key)]) i = (if unat off div kFilterBase = i then filter_keys ad i @ [key] else filter_keys ad i)"
  by (simp add: filter_keys_def)

lemma AddKey_inv:
  assumes inv: "filter_inv policy b ad" and off: "unat off div kFilterBase = length (filter_offsets b)"
  shows "filter_inv policy (filter_AddKey b key) (ad @ [(off, key)])"
proof -
  let ?n = "length (filter_offsets b)"
  have before: "filters_before policy (ad @ [(off, key)]) i = filters_before policy ad i" if "i \<le> ?n" for i
    using off that unfolding filters_before_def
    by (intro arg_cong [of _ _ concat] map_cong) (auto simp: filter_of_def filter_keys_snoc)
  have i: "\<forall>s \<in> set (fb_start b). s \<le> length (fb_keys b)" using inv by (simp add: filter_inv_def Let_def)
  have start: "\<forall>s \<in> set (fb_start (filter_AddKey b key)). s \<le> length (fb_keys (filter_AddKey b key))"
    using i by (auto simp: filter_AddKey_def)
  have same: "filter_offsets (filter_AddKey b key) = filter_offsets b" "fb_result (filter_AddKey b key) = fb_result b"
    by (simp_all add: filter_AddKey_def)
  have "filter_offsets b = map (\<lambda>i. of_nat (length (filters_before policy ad i))) [0..<?n]"
    using inv unfolding filter_inv_def Let_def by blast
  also have "\<dots> = map (\<lambda>i. of_nat (length (filters_before policy (ad @ [(off, key)]) i))) [0..<?n]"
    using before by simp
  finally have offsets: "filter_offsets b = \<dots>" .
  have result: "fb_result b = filters_before policy (ad @ [(off, key)]) ?n"
    using inv before [of ?n] unfolding filter_inv_def Let_def by simp
  have pending: "pending_keys (filter_AddKey b key) = filter_keys (ad @ [(off, key)]) ?n"
    using inv off by (simp add: pending_AddKey [OF i] filter_keys_snoc filter_inv_def Let_def)
  have "\<forall>(off, _) \<in> set ad. unat off div kFilterBase \<le> ?n"
    using inv unfolding filter_inv_def Let_def by blast
  then have "\<forall>(off, _) \<in> set (ad @ [(off, key)]). unat off div kFilterBase \<le> ?n"
    using off by simp
  then show ?thesis unfolding filter_inv_def Let_def same
    by (intro conjI pending start result offsets)
qed

section \<open>The filter block\<close>

text \<open>What \<open>Finish\<close> writes: the filters, their offsets, the end of the filters, and the base.\<close>

lemma filter_Finish_eq:
  assumes "filter_inv policy b ad"
  obtains n where "n \<ge> length (filter_offsets b)" "\<forall>(off, _) \<in> set ad. unat off div kFilterBase < n"
    "fst (filter_Finish policy b) = filters_before policy ad n @
       concat (map (\<lambda>i. EncodeFixed32 (of_nat (length (filters_before policy ad i)))) [0..<Suc n]) @ [of_nat kFilterBaseLg]"
proof -
  define b' where "b' = (if fb_start b \<noteq> [] then GenerateFilter policy b else b)"
  have inv: "filter_inv policy b' ad" using assms GenerateFilter_inv by (simp add: b'_def)
  define n where "n = length (filter_offsets b')"
  have p: "fb_start b' = []" by (simp add: b'_def GenerateFilter_def Let_def)
  have parts: "fb_result b' = filters_before policy ad n"
    "filter_offsets b' = map (\<lambda>i. of_nat (length (filters_before policy ad i))) [0..<n]"
    using inv by (simp_all add: filter_inv_def Let_def n_def)
  have "filter_keys ad n = []" using inv p by (simp add: filter_inv_def Let_def pending_keys_def n_def)
  then have "unat off div kFilterBase < n" if "(off, key) \<in> set ad" for off key
    using inv that by (force simp: filter_inv_def Let_def filter_keys_def filter_empty_conv le_less n_def)
  moreover have fold: "fold (\<lambda>n dst. dst @ EncodeFixed32 n) ns dst = dst @ concat (map EncodeFixed32 ns)" for ns dst
    by (induction ns arbitrary: dst) simp_all
  have "fst (filter_Finish policy b) = filters_before policy ad n @
       concat (map (\<lambda>i. EncodeFixed32 (of_nat (length (filters_before policy ad i)))) [0..<Suc n]) @ [of_nat kFilterBaseLg]"
    by (simp add: filter_Finish_def b'_def [symmetric] PutFixed32_def Let_def fold parts comp_def)
  moreover have "n \<ge> length (filter_offsets b)" by (simp add: n_def b'_def GenerateFilter_offsets)
  ultimately show ?thesis using that [of n] by blast
qed

lemma concat_blocks:
  assumes "\<forall>x \<in> set xs. length (f x) = (m::nat)" "i < length xs"
  shows "take m (drop (i * m) (concat (map f xs) @ rest)) = f (xs ! i)"
  using assms
proof (induction xs arbitrary: i)
  case (Cons x xs)
  then show ?case by (cases i) simp_all
qed simp

lemma concat_blocks_length:
  "\<forall>x \<in> set xs. length (f x) = (m::nat) \<Longrightarrow> length (concat (map f xs)) = m * length xs"
  by (induction xs) simp_all

lemma DecodeFixed32_drop:
  "take 4 (drop k xs) = EncodeFixed32 v \<Longrightarrow> DecodeFixed32 (drop k xs) = Some v"
proof -
  assume a: "take 4 (drop k xs) = EncodeFixed32 v"
  have "DecodeFixed32 (EncodeFixed32 v @ drop 4 (drop k xs)) = Some v" by simp
  then show ?thesis by (metis a append_take_drop_id)
qed

text \<open>
  What \<open>KeyMayMatch\<close> reads for the block at offset \<open>off\<close> is a filter that was created for the keys of this
  block, perhaps among others.
\<close>

lemma filter_read:
  assumes inv: "filter_inv policy b ad" and mem: "(off, key) \<in> set ad"
    and size: "length (fst (filter_Finish policy b)) < 2 ^ 32"
  shows "\<exists>keys. key \<in> set keys \<and> set keys \<subseteq> snd ` set ad \<and>
    filter_KeyMayMatch policy (new_FilterBlockReader (fst (filter_Finish policy b))) off q =
      Some (fp_KeyMayMatch policy q (fp_CreateFilter policy keys))"
proof -
  obtain n where n: "\<forall>(off, _) \<in> set ad. unat off div kFilterBase < n"
    and eq: "fst (filter_Finish policy b) = filters_before policy ad n @
       concat (map (\<lambda>i. EncodeFixed32 (of_nat (length (filters_before policy ad i)))) [0..<Suc n]) @ [of_nat kFilterBaseLg]"
    using filter_Finish_eq [OF inv] by blast
  let ?F = "filters_before policy ad" and ?E = "\<lambda>i. EncodeFixed32 (of_nat (length (filters_before policy ad i)))"
  let ?B = "concat (map ?E [0..<Suc n])" and ?c = "fst (filter_Finish policy b)" and ?i = "unat off div kFilterBase"
  have len: "length ?B = 4 * Suc n" using concat_blocks_length [of "[0..<Suc n]" ?E 4] by simp
  have c: "?c = ?F n @ ?B @ [of_nat kFilterBaseLg]" by (rule eq)
  have lc: "length ?c = length (?F n) + 4 * Suc n + 1" using len by (simp add: c)
  have small: "length (?F n) < 2 ^ 32" using size lc by linarith
  have off4: "take 4 (drop (length (?F n) + j * 4) ?c) = ?E j" if "j < Suc n" for j
    using concat_blocks [of "[0..<Suc n]" ?E 4 j "[of_nat kFilterBaseLg]"] that unfolding c by (simp del: upt_Suc)
  have last: "take 4 (drop (length ?c - 5) ?c) = ?E n"
    using off4 [of n] lc by (simp add: mult.commute add.commute)
  have lw: "unat (le_word (take 4 (drop (length ?c - 5) ?c)) :: u32) = length (?F n)"
    using DecodeFixed_Encode(1) [of "of_nat (length (?F n))" "[]"] small
    unfolding last by (simp add: DecodeFixed32_def unat_of_nat)
  have "?c ! (length ?c - 1) = of_nat kFilterBaseLg" using lc by (simp add: c nth_append)
  then have r: "new_FilterBlockReader ?c = \<lparr>fr_data = ?c, fr_offset = length (?F n), fr_num = n, base_lg = 11\<rparr>"
    using lc lw by (simp add: new_FilterBlockReader_def Let_def kFilterBaseLg_def)
  have i: "?i < n" using n mem by auto
  have idx: "unat (drop_bit 11 off) = ?i" by (simp add: drop_bit_eq_div unat_div kFilterBase_def)
  have mono: "length (?F j) \<le> length (?F k)" if "j \<le> k" for j k
    using that by (induction k rule: dec_induct) (simp_all add: filters_before_Suc)
  have u: "unat (of_nat (length (?F j)) :: u32) = length (?F j)" if "j \<le> n" for j
    using mono [OF that] small by (simp add: unat_of_nat)
  have d: "DecodeFixed32 (drop (length (?F n) + ?i * 4) ?c) = Some (of_nat (length (?F ?i)))"
    "DecodeFixed32 (drop (length (?F n) + ?i * 4 + 4) ?c) = Some (of_nat (length (?F (Suc ?i))))"
    using i DecodeFixed32_drop [OF off4 [of ?i]] DecodeFixed32_drop [OF off4 [of "Suc ?i"]]
    by (simp_all add: add.commute add.left_commute)
  have le: "(of_nat (length (?F ?i)) :: u32) \<le> of_nat (length (?F (Suc ?i)))"
    using u [of ?i] u [of "Suc ?i"] mono [of ?i "Suc ?i"] i by (simp add: word_le_nat_alt)
  have diff: "unat (of_nat (length (?F (Suc ?i))) - of_nat (length (?F ?i)) :: u32) = length (filter_of policy ad ?i)"
    using i by (simp only: unat_sub [OF le] u [of ?i] u [of "Suc ?i"] less_imp_le Suc_leI) (simp add: filters_before_Suc)
  obtain rest where "?F n = ?F ?i @ filter_of policy ad ?i @ rest"
  proof -
    have "[0..<n] = [0..<Suc ?i] @ [Suc ?i..<n]" using i upt_add_eq_append [of 0 "Suc ?i" "n - Suc ?i"] by simp
    then show ?thesis using that [of "concat (map (filter_of policy ad) [Suc ?i..<n])"] by (simp add: filters_before_def)
  qed
  then have f: "take (length (filter_of policy ad ?i)) (drop (length (?F ?i)) ?c) = filter_of policy ad ?i"
    by (simp add: c)
  have k: "key \<in> set (filter_keys ad ?i)" using mem by (force simp: filter_keys_def)
  then have match: "filter_of policy ad ?i = fp_CreateFilter policy (filter_keys ad ?i)" by (auto simp: filter_of_def)
  have "filter_KeyMayMatch policy (new_FilterBlockReader ?c) off q = Some (fp_KeyMayMatch policy q (filter_of policy ad ?i))"
    using i d le diff u [of ?i] u [of "Suc ?i"] mono [of "Suc ?i" n] f
    by (simp add: filter_KeyMayMatch_def r idx Let_def word_le_nat_alt)
  moreover have "set (filter_keys ad ?i) \<subseteq> snd ` set ad" by (auto simp: filter_keys_def)
  ultimately show ?thesis using k match by auto
qed

end
