(* ===== verification/LDB_TableBuilder.thy ===== *)
theory LDB_TableBuilder
  imports LDB_FilterBlock LDB_Format LDB_Block
begin

text \<open>
  Building a table (\<open>table_builder.cc\<close>): data blocks with a filter over their keys, an index block with one
  entry for each data block, and the footer.
\<close>

section \<open>Options\<close>

text \<open>
  The options (\<open>options.h\<close>) that tables use; the comparator is its three functions. The cache of blocks is an
  argument of the functions that use it.
\<close>

record Options =
  opt_Compare :: "slice \<Rightarrow> slice \<Rightarrow> int"
  opt_FindShortestSeparator :: "slice \<Rightarrow> slice \<Rightarrow> slice"
  opt_FindShortSuccessor :: "slice \<Rightarrow> slice"
  opt_comparator_Name :: "byte list"
  paranoid_checks :: bool
  block_size :: nat
  block_restart_interval :: nat
  opt_compression :: CompressionType
  opt_filter_policy :: "FilterPolicy option"

text \<open>The default options (\<open>options.cc\<close>), and those of a database on them (\<open>SanitizeOptions\<close> of \<open>db_impl.cc\<close>).\<close>

definition new_Options :: Options where
  "new_Options = \<lparr>opt_Compare = bytewise_Compare, opt_FindShortestSeparator = bytewise_FindShortestSeparator,
     opt_FindShortSuccessor = bytewise_FindShortSuccessor, opt_comparator_Name = chars ''leveldb.BytewiseComparator'',
     paranoid_checks = False, block_size = 4096, block_restart_interval = 16, opt_compression = kSnappyCompression,
     opt_filter_policy = None\<rparr>"

definition NewBloomFilterPolicy :: "nat \<Rightarrow> FilterPolicy" where
  "NewBloomFilterPolicy bits =
     \<lparr>fp_Name = chars ''leveldb.BuiltinBloomFilter2'', fp_CreateFilter = CreateFilter (new_BloomFilterPolicy bits),
      fp_KeyMayMatch = KeyMayMatch\<rparr>"

definition InternalFilterPolicy :: "FilterPolicy \<Rightarrow> FilterPolicy" where
  "InternalFilterPolicy p =
     \<lparr>fp_Name = fp_Name p, fp_CreateFilter = internal_CreateFilter (fp_CreateFilter p),
      fp_KeyMayMatch = internal_KeyMayMatch (fp_KeyMayMatch p)\<rparr>"

definition ClipToRange :: "nat \<Rightarrow> nat \<Rightarrow> nat \<Rightarrow> nat" where
  "ClipToRange v minvalue maxvalue =
     (let v = (if v > maxvalue then maxvalue else v) in if v < minvalue then minvalue else v)"

definition SanitizeOptions :: "Options \<Rightarrow> Options" where
  "SanitizeOptions src = src\<lparr>
     opt_Compare := internal_Compare (opt_Compare src),
     opt_FindShortestSeparator := internal_FindShortestSeparator (opt_Compare src) (opt_FindShortestSeparator src),
     opt_FindShortSuccessor := internal_FindShortSuccessor (opt_Compare src) (opt_FindShortSuccessor src),
     opt_comparator_Name := chars ''leveldb.InternalKeyComparator'',
     opt_filter_policy := map_option InternalFilterPolicy (opt_filter_policy src),
     block_size := ClipToRange (block_size src) (2 ^ 10) (2 ^ 22)\<rparr>"

section \<open>The builder\<close>

record 'f TableBuilder =
  tb_options :: Options
  index_block_options :: Options
  tb_file :: 'f
  tb_offset :: u64
  tb_status :: Status
  data_block :: BlockBuilder
  index_block :: BlockBuilder
  tb_last_key :: slice
  num_entries :: nat
  tb_closed :: bool
  filter_block :: "FilterBlockBuilder option"
  pending_index_entry :: bool
  pending_handle :: BlockHandle

text \<open>
  The functions of the file and \<open>Snappy_Compress\<close> (\<open>None\<close> where it returns false) are arguments. The handle of
  a block is a result.
\<close>

definition new_TableBuilder :: "Options \<Rightarrow> 'f \<Rightarrow> 'f TableBuilder" where
  "new_TableBuilder opts f =
     (let r = \<lparr>tb_options = opts, index_block_options = opts\<lparr>block_restart_interval := 1\<rparr>, tb_file = f, tb_offset = 0,
         tb_status = Status_OK, data_block = new_BlockBuilder, index_block = new_BlockBuilder, tb_last_key = [],
         num_entries = 0, tb_closed = False,
         filter_block = (case opt_filter_policy opts of None \<Rightarrow> None | Some _ \<Rightarrow> Some new_FilterBlockBuilder),
         pending_index_entry = False, pending_handle = new_BlockHandle\<rparr>
      in r\<lparr>filter_block := (case (filter_block r, opt_filter_policy opts) of
             (Some fb, Some policy) \<Rightarrow> Some (StartBlock policy 0 fb) | _ \<Rightarrow> None)\<rparr>)"

text \<open>Comparators are objects, compared as pointers: \<open>same_comparator\<close>.\<close>

definition ChangeOptions :: "bool \<Rightarrow> Options \<Rightarrow> 'f TableBuilder \<Rightarrow> Status \<times> 'f TableBuilder" where
  "ChangeOptions same_comparator opts r =
     (if \<not> same_comparator then (Status_InvalidArgument (chars ''changing comparator while building table'') [], r)
      else (Status_OK, r\<lparr>tb_options := opts, index_block_options := opts\<lparr>block_restart_interval := 1\<rparr>\<rparr>))"

definition WriteRawBlock ::
  "('f \<Rightarrow> slice \<Rightarrow> Status \<times> 'f) \<Rightarrow> slice \<Rightarrow> CompressionType \<Rightarrow> 'f TableBuilder \<Rightarrow> BlockHandle \<times> 'f TableBuilder" where
  "WriteRawBlock Append block_contents ctype r =
     (let handle = \<lparr>bh_offset = tb_offset r, bh_size = of_nat (length block_contents)\<rparr>;
          (s, f) = Append (tb_file r) block_contents;
          r = r\<lparr>tb_status := s, tb_file := f\<rparr>
      in if status_ok s then
           let crc = Value 0 block_contents;
               crc = Extend 0 crc [compression_byte ctype];
               trailer = [compression_byte ctype] @ EncodeFixed32 (Mask crc);
               (s, f) = Append (tb_file r) trailer;
               r = r\<lparr>tb_status := s, tb_file := f\<rparr>
           in if status_ok s then (handle, r\<lparr>tb_offset := tb_offset r + of_nat (length block_contents) + of_nat kBlockTrailerSize\<rparr>)
              else (handle, r)
         else (handle, r))"

definition block_compression :: "(slice \<Rightarrow> slice option) \<Rightarrow> CompressionType \<Rightarrow> slice \<Rightarrow> slice \<times> CompressionType" where
  "block_compression compress ctype raw =
     (case ctype of
        kNoCompression \<Rightarrow> (raw, ctype)
      | kSnappyCompression \<Rightarrow>
          (case compress raw of
             Some compressed \<Rightarrow>
               if length compressed < length raw - length raw div 8 then (compressed, ctype) else (raw, kNoCompression)
           | None \<Rightarrow> (raw, kNoCompression)))"

text \<open>The block builder that is reset is the result in front.\<close>

definition WriteBlock ::
  "('f \<Rightarrow> slice \<Rightarrow> Status \<times> 'f) \<Rightarrow> (slice \<Rightarrow> slice option) \<Rightarrow> BlockBuilder \<Rightarrow> 'f TableBuilder \<Rightarrow>
   BlockBuilder \<times> BlockHandle \<times> 'f TableBuilder" where
  "WriteBlock Append compress block r =
     (let (raw, block) = builder_Finish block;
          (block_contents, ctype) = block_compression compress (opt_compression (tb_options r)) raw;
          (handle, r) = WriteRawBlock Append block_contents ctype r
      in (builder_Reset block, handle, r))"

definition table_Flush ::
  "('f \<Rightarrow> slice \<Rightarrow> Status \<times> 'f) \<Rightarrow> ('f \<Rightarrow> Status \<times> 'f) \<Rightarrow> (slice \<Rightarrow> slice option) \<Rightarrow> 'f TableBuilder \<Rightarrow> 'f TableBuilder" where
  "table_Flush Append Flush compress r =
     (if \<not> status_ok (tb_status r) then r
      else if bb_buffer (data_block r) = [] then r
      else
        let (block, handle, r) = WriteBlock Append compress (data_block r) r;
            r = r\<lparr>data_block := block, pending_handle := handle\<rparr>;
            r = (if status_ok (tb_status r) then
                   let (s, f) = Flush (tb_file r) in r\<lparr>pending_index_entry := True, tb_status := s, tb_file := f\<rparr>
                 else r)
        in case (filter_block r, opt_filter_policy (tb_options r)) of
             (Some fb, Some policy) \<Rightarrow> r\<lparr>filter_block := Some (StartBlock policy (tb_offset r) fb)\<rparr>
           | _ \<Rightarrow> r)"

definition table_Add ::
  "('f \<Rightarrow> slice \<Rightarrow> Status \<times> 'f) \<Rightarrow> ('f \<Rightarrow> Status \<times> 'f) \<Rightarrow> (slice \<Rightarrow> slice option) \<Rightarrow> 'f TableBuilder \<Rightarrow> slice \<Rightarrow> slice \<Rightarrow>
   'f TableBuilder" where
  "table_Add Append Flush compress r key v =
     (if \<not> status_ok (tb_status r) then r
      else
        let r = (if pending_index_entry r then
                   let sep = opt_FindShortestSeparator (tb_options r) (tb_last_key r) key;
                       handle_encoding = BlockHandle_EncodeTo (pending_handle r) []
                   in r\<lparr>tb_last_key := sep, pending_index_entry := False,
                        index_block := builder_Add (block_restart_interval (index_block_options r)) (index_block r) sep handle_encoding\<rparr>
                 else r);
            r = r\<lparr>filter_block := map_option (\<lambda>fb. filter_AddKey fb key) (filter_block r)\<rparr>;
            r = r\<lparr>tb_last_key := key, num_entries := num_entries r + 1,
                  data_block := builder_Add (block_restart_interval (tb_options r)) (data_block r) key v\<rparr>
        in if CurrentSizeEstimate (data_block r) \<ge> block_size (tb_options r) then table_Flush Append Flush compress r else r)"

text \<open>\<open>Finish\<close> in the order of the code: filter block, metaindex block, index block and footer.\<close>

definition finish_filter ::
  "('f \<Rightarrow> slice \<Rightarrow> Status \<times> 'f) \<Rightarrow> 'f TableBuilder \<Rightarrow> BlockHandle \<times> 'f TableBuilder" where
  "finish_filter Append r =
     (case (filter_block r, opt_filter_policy (tb_options r)) of
        (Some fb, Some policy) \<Rightarrow>
          if status_ok (tb_status r) then
            let (contents, fb) = filter_Finish policy fb in WriteRawBlock Append contents kNoCompression (r\<lparr>filter_block := Some fb\<rparr>)
          else (new_BlockHandle, r)
      | _ \<Rightarrow> (new_BlockHandle, r))"

definition filter_key :: "FilterPolicy \<Rightarrow> slice" where
  "filter_key policy = chars ''filter.'' @ fp_Name policy"

definition finish_metaindex ::
  "('f \<Rightarrow> slice \<Rightarrow> Status \<times> 'f) \<Rightarrow> (slice \<Rightarrow> slice option) \<Rightarrow> BlockHandle \<Rightarrow> 'f TableBuilder \<Rightarrow> BlockHandle \<times> 'f TableBuilder" where
  "finish_metaindex Append compress filter_block_handle r =
     (if status_ok (tb_status r) then
        let meta = (case (filter_block r, opt_filter_policy (tb_options r)) of
                      (Some _, Some policy) \<Rightarrow>
                        builder_Add (block_restart_interval (tb_options r)) new_BlockBuilder (filter_key policy)
                          (BlockHandle_EncodeTo filter_block_handle [])
                    | _ \<Rightarrow> new_BlockBuilder);
            (_, handle, r) = WriteBlock Append compress meta r
        in (handle, r)
      else (new_BlockHandle, r))"

definition finish_index ::
  "('f \<Rightarrow> slice \<Rightarrow> Status \<times> 'f) \<Rightarrow> (slice \<Rightarrow> slice option) \<Rightarrow> 'f TableBuilder \<Rightarrow> BlockHandle \<times> 'f TableBuilder" where
  "finish_index Append compress r =
     (if status_ok (tb_status r) then
        let r = (if pending_index_entry r then
                   let succ = opt_FindShortSuccessor (tb_options r) (tb_last_key r);
                       handle_encoding = BlockHandle_EncodeTo (pending_handle r) []
                   in r\<lparr>tb_last_key := succ, pending_index_entry := False,
                        index_block := builder_Add (block_restart_interval (index_block_options r)) (index_block r) succ handle_encoding\<rparr>
                 else r);
            (block, handle, r) = WriteBlock Append compress (index_block r) r
        in (handle, r\<lparr>index_block := block\<rparr>)
      else (new_BlockHandle, r))"

definition finish_footer ::
  "('f \<Rightarrow> slice \<Rightarrow> Status \<times> 'f) \<Rightarrow> BlockHandle \<Rightarrow> BlockHandle \<Rightarrow> 'f TableBuilder \<Rightarrow> 'f TableBuilder" where
  "finish_footer Append metaindex index r =
     (if status_ok (tb_status r) then
        let footer_encoding = Footer_EncodeTo \<lparr>metaindex_handle = metaindex, index_handle = index\<rparr> [];
            (s, f) = Append (tb_file r) footer_encoding;
            r = r\<lparr>tb_status := s, tb_file := f\<rparr>
        in if status_ok s then r\<lparr>tb_offset := tb_offset r + of_nat (length footer_encoding)\<rparr> else r
      else r)"

definition table_Finish ::
  "('f \<Rightarrow> slice \<Rightarrow> Status \<times> 'f) \<Rightarrow> ('f \<Rightarrow> Status \<times> 'f) \<Rightarrow> (slice \<Rightarrow> slice option) \<Rightarrow> 'f TableBuilder \<Rightarrow> Status \<times> 'f TableBuilder" where
  "table_Finish Append Flush compress r =
     (let r = table_Flush Append Flush compress r;
          r = r\<lparr>tb_closed := True\<rparr>;
          (filter_block_handle, r) = finish_filter Append r;
          (metaindex_block_handle, r) = finish_metaindex Append compress filter_block_handle r;
          (index_block_handle, r) = finish_index Append compress r;
          r = finish_footer Append metaindex_block_handle index_block_handle r
      in (tb_status r, r))"

definition table_Abandon :: "'f TableBuilder \<Rightarrow> 'f TableBuilder" where
  "table_Abandon r = r\<lparr>tb_closed := True\<rparr>"

definition NumEntries :: "'f TableBuilder \<Rightarrow> nat" where
  "NumEntries r = num_entries r"

definition FileSize :: "'f TableBuilder \<Rightarrow> u64" where
  "FileSize r = tb_offset r"

end
