(* ===== verification/LDB_Table.thy ===== *)
theory LDB_Table
  imports LDB_TableBuilder
begin

text \<open>
  Reading a table (\<open>table.cc\<close>): opening it, its meta data, reading a block through the cache, and looking a
  key up.
\<close>

section \<open>Iterators of blocks\<close>

text \<open>
  The iterator of a block is an error or an empty one (\<open>EmptyIterator\<close> of \<open>iterator.cc\<close>), which stand nowhere,
  or one over the block.
\<close>

fun it_Valid :: "NewIterator \<Rightarrow> bool" where
  "it_Valid (BlockIterator it) = iter_Valid it"
| "it_Valid _ = False"

fun it_Seek :: "(slice \<Rightarrow> slice \<Rightarrow> int) \<Rightarrow> NewIterator \<Rightarrow> slice \<Rightarrow> NewIterator option" where
  "it_Seek cmp (BlockIterator it) target = map_option BlockIterator (iter_Seek cmp it target)"
| "it_Seek cmp it target = Some it"

fun it_SeekToFirst :: "NewIterator \<Rightarrow> NewIterator option" where
  "it_SeekToFirst (BlockIterator it) = map_option BlockIterator (iter_SeekToFirst it)"
| "it_SeekToFirst it = Some it"

fun it_SeekToLast :: "NewIterator \<Rightarrow> NewIterator option" where
  "it_SeekToLast (BlockIterator it) = map_option BlockIterator (iter_SeekToLast it)"
| "it_SeekToLast it = Some it"

text \<open>These need an iterator that stands somewhere; \<open>None\<close> where the code asserts it.\<close>

fun it_Next :: "NewIterator \<Rightarrow> NewIterator option" where
  "it_Next (BlockIterator it) = map_option BlockIterator (iter_Next it)"
| "it_Next it = None"

fun it_Prev :: "NewIterator \<Rightarrow> NewIterator option" where
  "it_Prev (BlockIterator it) = map_option BlockIterator (iter_Prev it)"
| "it_Prev it = None"

fun the_key :: "NewIterator \<Rightarrow> slice option" where
  "the_key (BlockIterator it) = Some (it_key it)"
| "the_key it = None"

fun the_value :: "NewIterator \<Rightarrow> slice option" where
  "the_value (BlockIterator it) = iter_value it"
| "the_value it = None"

fun the_status :: "NewIterator \<Rightarrow> Status" where
  "the_status (BlockIterator it) = it_status it"
| "the_status (ErrorIterator s) = s"
| "the_status EmptyIterator = Status_OK"

section \<open>Opening a table\<close>

record ReadOptions =
  verify_checksums :: bool
  fill_cache :: bool

text \<open>The file is the argument \<open>Read\<close> of the functions. The filter goes with its policy.\<close>

record Table =
  tab_options :: Options
  cache_id :: u64
  tab_filter :: "(FilterPolicy \<times> FilterBlockReader) option"
  tab_metaindex_handle :: BlockHandle
  tab_index_block :: Block

type_synonym random_file = "u64 \<Rightarrow> u64 \<Rightarrow> (Status \<times> slice \<times> bool) option"

definition ReadFilter :: "random_file \<Rightarrow> (slice \<Rightarrow> byte list option) \<Rightarrow> FilterPolicy \<Rightarrow> Table \<Rightarrow> slice \<Rightarrow> Table option" where
  "ReadFilter Read uncompress policy rep filter_handle_value =
     (let (s, filter_handle, _) = BlockHandle_DecodeFrom new_BlockHandle filter_handle_value in
      if \<not> status_ok s then Some rep
      else do {
        (s, block) \<leftarrow> ReadBlock Read uncompress (paranoid_checks (tab_options rep)) filter_handle;
        if \<not> status_ok s then Some rep
        else Some (rep\<lparr>tab_filter := Some (policy, new_FilterBlockReader (bc_data block))\<rparr>) })"

definition ReadMeta :: "random_file \<Rightarrow> (slice \<Rightarrow> byte list option) \<Rightarrow> Table \<Rightarrow> Footer \<Rightarrow> Table option" where
  "ReadMeta Read uncompress rep footer =
     (case opt_filter_policy (tab_options rep) of
        None \<Rightarrow> Some rep
      | Some policy \<Rightarrow> do {
          (s, contents) \<leftarrow> ReadBlock Read uncompress (paranoid_checks (tab_options rep)) (metaindex_handle footer);
          if \<not> status_ok s then Some rep
          else do {
            iter \<leftarrow> it_Seek bytewise_Compare (block_NewIterator (new_Block (bc_data contents))) (filter_key policy);
            if it_Valid iter then do {
              k \<leftarrow> the_key iter;
              if slice_eq k (filter_key policy) then do { v \<leftarrow> the_value iter; ReadFilter Read uncompress policy rep v }
              else Some rep }
            else Some rep } })"

text \<open>
  \<open>new_id\<close> is what the cache gives for \<open>NewId\<close>, or 0. The result is \<open>None\<close> where the function reads bytes
  that the file did not return; the second component is the table if it was opened.
\<close>

definition Table_Open ::
  "random_file \<Rightarrow> (slice \<Rightarrow> byte list option) \<Rightarrow> u64 \<Rightarrow> Options \<Rightarrow> u64 \<Rightarrow> (Status \<times> Table option) option" where
  "Table_Open Read uncompress new_id options file_size =
     (if unat file_size < kEncodedLength
      then Some (Status_Corruption (chars ''file is too short to be an sstable'') [], None)
      else do {
        (s, footer_input, _) \<leftarrow> Read (file_size - of_nat kEncodedLength) (of_nat kEncodedLength);
        if \<not> status_ok s then Some (s, None)
        else do {
          (s, footer, _) \<leftarrow>
            Footer_DecodeFrom \<lparr>metaindex_handle = new_BlockHandle, index_handle = new_BlockHandle\<rparr> footer_input;
          if \<not> status_ok s then Some (s, None)
          else do {
            (s, contents) \<leftarrow> ReadBlock Read uncompress (paranoid_checks options) (index_handle footer);
            if status_ok s then do {
              let rep = \<lparr>tab_options = options, cache_id = new_id, tab_filter = None,
                         tab_metaindex_handle = metaindex_handle footer, tab_index_block = new_Block (bc_data contents)\<rparr> in do {
              rep \<leftarrow> ReadMeta Read uncompress rep footer;
              Some (s, Some rep) } }
            else Some (s, None) } } })"

section \<open>Reading a block\<close>

text \<open>
  The cache of blocks: its state, or \<open>None\<close> for no cache. \<open>lookup\<close> gives the block and the state afterwards,
  \<open>insert_block\<close> takes the charge. Releasing the handles is not part of it.
\<close>

definition block_cache_key :: "Table \<Rightarrow> BlockHandle \<Rightarrow> slice" where
  "block_cache_key rep handle = EncodeFixed64 (cache_id rep) @ EncodeFixed64 (bh_offset handle)"

definition BlockReader ::
  "('c \<Rightarrow> slice \<Rightarrow> Block option \<times> 'c) \<Rightarrow> ('c \<Rightarrow> slice \<Rightarrow> Block \<Rightarrow> nat \<Rightarrow> 'c) \<Rightarrow>
   random_file \<Rightarrow> (slice \<Rightarrow> byte list option) \<Rightarrow> Table \<Rightarrow> ReadOptions \<Rightarrow> slice \<Rightarrow> 'c option \<Rightarrow> (NewIterator \<times> 'c option) option" where
  "BlockReader lookup insert_block Read uncompress rep options index_value block_cache =
     (let (s, handle, _) = BlockHandle_DecodeFrom new_BlockHandle index_value in
      if \<not> status_ok s then Some (ErrorIterator s, block_cache)
      else
        (case block_cache of
           Some c \<Rightarrow>
             (let key = block_cache_key rep handle; (found, c) = lookup c key in
              case found of
                Some block \<Rightarrow> Some (block_NewIterator block, Some c)
              | None \<Rightarrow> do {
                  (s, contents) \<leftarrow> ReadBlock Read uncompress (verify_checksums options) handle;
                  if status_ok s then
                    (let block = new_Block (bc_data contents);
                         c = (if cachable contents \<and> fill_cache options then insert_block c key block (blk_size block) else c)
                     in Some (block_NewIterator block, Some c))
                  else Some (ErrorIterator s, Some c) })
         | None \<Rightarrow> do {
             (s, contents) \<leftarrow> ReadBlock Read uncompress (verify_checksums options) handle;
             if status_ok s then Some (block_NewIterator (new_Block (bc_data contents)), None)
             else Some (ErrorIterator s, None) }))"

section \<open>Looking up\<close>

text \<open>The status, the key and value the function \<open>saver\<close> is called with, if it is, and the cache.\<close>

definition InternalGet ::
  "('c \<Rightarrow> slice \<Rightarrow> Block option \<times> 'c) \<Rightarrow> ('c \<Rightarrow> slice \<Rightarrow> Block \<Rightarrow> nat \<Rightarrow> 'c) \<Rightarrow>
   random_file \<Rightarrow> (slice \<Rightarrow> byte list option) \<Rightarrow> Table \<Rightarrow> ReadOptions \<Rightarrow> slice \<Rightarrow> 'c option \<Rightarrow>
   (Status \<times> (slice \<times> slice) option \<times> 'c option) option" where
  "InternalGet lookup insert_block Read uncompress rep options k block_cache = do {
     iiter \<leftarrow> it_Seek (opt_Compare (tab_options rep)) (block_NewIterator (tab_index_block rep)) k;
     (s, saved, block_cache) \<leftarrow>
       (if it_Valid iiter then do {
          handle_value \<leftarrow> the_value iiter;
          not_found \<leftarrow>
            (case tab_filter rep of
               None \<Rightarrow> Some False
             | Some (policy, reader) \<Rightarrow>
                 (let (s, handle, _) = BlockHandle_DecodeFrom new_BlockHandle handle_value in
                  if status_ok s then map_option Not (filter_KeyMayMatch policy reader (bh_offset handle) k) else Some False));
          if not_found then Some (Status_OK, None, block_cache)
          else do {
            (block_iter, block_cache) \<leftarrow> BlockReader lookup insert_block Read uncompress rep options handle_value block_cache;
            block_iter \<leftarrow> it_Seek (opt_Compare (tab_options rep)) block_iter k;
            saved \<leftarrow>
              (if it_Valid block_iter then do { k' \<leftarrow> the_key block_iter; v \<leftarrow> the_value block_iter; Some (Some (k', v)) }
               else Some None);
            Some (the_status block_iter, saved, block_cache) } }
        else Some (Status_OK, None, block_cache));
     Some (if status_ok s then the_status iiter else s, saved, block_cache) }"

definition ApproximateOffsetOf :: "Table \<Rightarrow> slice \<Rightarrow> u64 option" where
  "ApproximateOffsetOf rep key = do {
     index_iter \<leftarrow> it_Seek (opt_Compare (tab_options rep)) (block_NewIterator (tab_index_block rep)) key;
     if it_Valid index_iter then do {
       inp \<leftarrow> the_value index_iter;
       let (s, handle, _) = BlockHandle_DecodeFrom new_BlockHandle inp
       in Some (if status_ok s then bh_offset handle else bh_offset (tab_metaindex_handle rep)) }
     else Some (bh_offset (tab_metaindex_handle rep)) }"

end
