(* ===== verification/LDB_RandomAccess.thy ===== *)
theory LDB_RandomAccess
  imports LDB_Env LDB_Format
begin

text \<open>
  Files that are read at any position (\<open>env_posix.cc\<close>): by \<open>pread\<close>, or in memory after \<open>mmap\<close>. The limiter
  bounds how many of either are held open.
\<close>

section \<open>The limiter\<close>

text \<open>Each operation holds the mutex where it changes the counter, so it is one step.\<close>

record Limiter =
  allowed :: int

definition new_Limiter :: "int \<Rightarrow> Limiter" where
  "new_Limiter n = \<lparr>allowed = n\<rparr>"

definition limiter_Acquire :: "Limiter \<Rightarrow> bool \<times> Limiter" where
  "limiter_Acquire l = (if allowed l \<le> 0 then (False, l) else (True, l\<lparr>allowed := allowed l - 1\<rparr>))"

definition limiter_Release :: "Limiter \<Rightarrow> Limiter" where
  "limiter_Release l = l\<lparr>allowed := allowed l + 1\<rparr>"

section \<open>Reading with pread\<close>

text \<open>
  The system calls are parameters: \<open>open_fd name\<close> and \<open>pread fd n offset\<close>, with \<open>None\<close> for an error. The text of
  the error is part of the file.
\<close>

record PosixRandomAccessFile =
  rf_filename :: "byte list"
  temporary_fd :: bool
  rf_fd :: int
  rf_strerror :: "byte list"

definition new_PosixRandomAccessFile :: "byte list \<Rightarrow> int \<Rightarrow> byte list \<Rightarrow> Limiter \<Rightarrow> PosixRandomAccessFile \<times> Limiter" where
  "new_PosixRandomAccessFile fname fd strerror limiter =
     (let (acquired, limiter) = limiter_Acquire limiter
      in (\<lparr>rf_filename = fname, temporary_fd = \<not> acquired, rf_fd = (if acquired then fd else -1), rf_strerror = strerror\<rparr>, limiter))"

definition delete_PosixRandomAccessFile :: "PosixRandomAccessFile \<Rightarrow> Limiter \<Rightarrow> Limiter" where
  "delete_PosixRandomAccessFile f limiter = (if \<not> temporary_fd f then limiter_Release limiter else limiter)"

text \<open>What is read lies in the buffer of the caller.\<close>

definition random_Read ::
  "(byte list \<Rightarrow> int option) \<Rightarrow> (int \<Rightarrow> u64 \<Rightarrow> u64 \<Rightarrow> byte list option) \<Rightarrow> PosixRandomAccessFile \<Rightarrow> u64 \<Rightarrow> u64 \<Rightarrow>
   (Status \<times> slice \<times> bool) option" where
  "random_Read open_fd pread w offset n =
     (case (if temporary_fd w then open_fd (rf_filename w) else Some (rf_fd w)) of
        None \<Rightarrow> Some (IOError (rf_filename w) (rf_strerror w), [], True)
      | Some fd \<Rightarrow>
          (case pread fd n offset of
             None \<Rightarrow> Some (IOError (rf_filename w) (rf_strerror w), [], True)
           | Some data \<Rightarrow> Some (Status_OK, data, True)))"

section \<open>Reading from memory\<close>

record PosixMmapReadableFile =
  mf_filename :: "byte list"
  mmapped_region :: "byte list"
  mf_strerror :: "byte list"

text \<open>The sum of offset and length wraps around; \<open>None\<close> is a slice outside the mapped memory.\<close>

definition mmap_Read :: "PosixMmapReadableFile \<Rightarrow> u64 \<Rightarrow> u64 \<Rightarrow> (Status \<times> slice \<times> bool) option" where
  "mmap_Read w offset n =
     (if offset + n > of_nat (length (mmapped_region w)) then Some (IOError (mf_filename w) (mf_strerror w), [], False)
      else if unat offset + unat n > length (mmapped_region w) then None
      else Some (Status_OK, take (unat n) (drop (unat offset) (mmapped_region w)), False))"

lemma mmap_Read_wraps: "mmap_Read \<lparr>mf_filename = [], mmapped_region = [1, 2, 3, 4], mf_strerror = []\<rparr> (- 8) 10 = None"
  by (simp add: mmap_Read_def unsigned_minus_1_eq_mask mask_eq_exp_minus_1)

section \<open>The interface\<close>

text \<open>A read inside the file gives its bytes.\<close>

locale random_access_file =
  fixes contents :: "byte list" and Read :: "u64 \<Rightarrow> u64 \<Rightarrow> (Status \<times> slice \<times> bool) option"
  assumes read_inside: "unat offset + unat n \<le> length contents \<Longrightarrow>
    \<exists>in_buf. Read offset n = Some (Status_OK, take (unat n) (drop (unat offset) contents), in_buf)"

text \<open>
  \<open>pread\<close> of an open file, as documented: the bytes from the offset, as many as there are and are asked for.
\<close>

definition pread_of :: "(int \<Rightarrow> byte list option) \<Rightarrow> int \<Rightarrow> u64 \<Rightarrow> u64 \<Rightarrow> byte list option" where
  "pread_of opened fd n offset = map_option (\<lambda>data. take (unat n) (drop (unat offset) data)) (opened fd)"

lemma random_Read_file:
  assumes "temporary_fd w \<Longrightarrow> open_fd (rf_filename w) = Some fd" "\<not> temporary_fd w \<Longrightarrow> rf_fd w = fd" "opened fd = Some contents"
  shows "random_access_file contents (random_Read open_fd (pread_of opened) w)"
  using assms by unfold_locales (auto simp: random_Read_def pread_of_def)

interpretation posix_random: random_access_file contents
  "random_Read (\<lambda>_. Some 3) (pread_of [3 \<mapsto> contents]) \<lparr>rf_filename = fname, temporary_fd = True, rf_fd = -1, rf_strerror = e\<rparr>"
  for contents fname e
  by (rule random_Read_file) simp_all

text \<open>The mapped memory, which is shorter than $2^{64}$ bytes.\<close>

lemma mmap_Read_file:
  assumes "length (mmapped_region w) < 2 ^ 64"
  shows "random_access_file (mmapped_region w) (mmap_Read w)"
proof
  fix offset n :: u64
  assume le: "unat offset + unat n \<le> length (mmapped_region w)"
  then have "unat (offset + n) = unat offset + unat n" using assms by (simp add: unat_plus_simple [THEN iffD1] no_olen_add_nat)
  then show "\<exists>in_buf. mmap_Read w offset n = Some (Status_OK, take (unat n) (drop (unat offset) (mmapped_region w)), in_buf)"
    using le assms by (intro exI [of _ False]) (simp add: mmap_Read_def word_less_nat_alt unat_of_nat)
qed

end
