(* ===== verification/LDB_TableBuilder_Correct.thy ===== *)
theory LDB_TableBuilder_Correct
  imports LDB_Table LDB_Block_Correct LDB_RandomAccess LDB_Log_Write "HOL-Library.Sublist"
begin

text \<open>
  What the table builder leaves in a file that has no faults: where each block is, what the entries of the
  index are, and what the filter was built from.
\<close>

section \<open>Compression\<close>

text \<open>
  \<open>Snappy_Compress\<close> and \<open>Snappy_Uncompress\<close> of \<open>port_posix.h\<close>, with the library if there is one. The format
  of the library stores the length in 32 bits.
\<close>

definition Snappy_Compress :: "(slice \<Rightarrow> slice) option \<Rightarrow> slice \<Rightarrow> slice option" where
  "Snappy_Compress snappy inp = (case snappy of None \<Rightarrow> None | Some RawCompress \<Rightarrow> Some (RawCompress inp))"

definition Snappy_Uncompress :: "(slice \<Rightarrow> slice option) option \<Rightarrow> slice \<Rightarrow> slice option" where
  "Snappy_Uncompress snappy inp = (case snappy of None \<Rightarrow> None | Some RawUncompress \<Rightarrow> RawUncompress inp)"

locale compressor =
  fixes compress uncompress :: "slice \<Rightarrow> slice option"
  assumes uncompress_compress: "compress raw = Some c \<Longrightarrow> uncompress c = Some raw \<and> length raw < 2 ^ 32"

interpretation no_snappy: compressor "Snappy_Compress None" "Snappy_Uncompress None"
  by unfold_locales (simp add: Snappy_Compress_def)

section \<open>Blocks in a file\<close>

definition block_trailer :: "CompressionType \<Rightarrow> slice \<Rightarrow> byte list" where
  "block_trailer t c = [compression_byte t] @ EncodeFixed32 (Mask (Value 0 (c @ [compression_byte t])))"

lemma length_block_trailer [simp]: "length (block_trailer t c) = kBlockTrailerSize"
  by (simp add: block_trailer_def kBlockTrailerSize_def)

text \<open>The block \<open>raw\<close> is stored at the handle \<open>h\<close>.\<close>

definition block_at :: "(slice \<Rightarrow> slice option) \<Rightarrow> byte list \<Rightarrow> BlockHandle \<Rightarrow> slice \<Rightarrow> bool" where
  "block_at compress data h raw \<longleftrightarrow>
     (\<exists>pre c t post. data = pre @ c @ block_trailer t c @ post \<and> bh_offset h = of_nat (length pre) \<and> bh_size h = of_nat (length c) \<and>
        (t = kNoCompression \<and> c = raw \<or> t = kSnappyCompression \<and> compress raw = Some c))"

lemma block_at_append: "block_at compress data h raw \<Longrightarrow> block_at compress (data @ data2) h raw"
  unfolding block_at_def by (metis append_assoc)

lemma block_at_inside:
  assumes "block_at compress data h raw" "length data < 2 ^ 64"
  shows "bh_offset h \<noteq> of_nat (length data)"
proof -
  obtain pre c t post where d: "data = pre @ c @ block_trailer t c @ post" and h: "bh_offset h = of_nat (length pre)"
    using assms(1) by (auto simp: block_at_def)
  have less: "length pre < length data" by (simp add: d kBlockTrailerSize_def)
  then have "unat (bh_offset h) = length pre" "unat (of_nat (length data) :: u64) = length data"
    using assms(2) by (simp_all add: h unat_of_nat)
  then show ?thesis using less by auto
qed

lemma ReadBlock_at:
  assumes "compressor compress uncompress" "random_access_file data Read" "length data < 2 ^ 32" "block_at compress data h raw"
  shows "length raw < 2 ^ 32" and "\<exists>c. ReadBlock Read uncompress verify h = Some (Status_OK, c) \<and> bc_data c = raw"
proof -
  obtain pre c t post where b: "data = pre @ c @ block_trailer t c @ post" "bh_offset h = of_nat (length pre)"
    "bh_size h = of_nat (length c)" "t = kNoCompression \<and> c = raw \<or> t = kSnappyCompression \<and> compress raw = Some c"
    using assms(4) by (auto simp: block_at_def)
  have len: "length pre + length c + kBlockTrailerSize \<le> length data" by (simp add: b(1))
  have u: "unat (bh_offset h) = length pre" "unat (bh_size h) = length c"
    "unat (bh_size h + of_nat kBlockTrailerSize) = length c + kBlockTrailerSize"
  proof -
    show "unat (bh_offset h) = length pre" using len assms(3) by (simp add: b(2) unat_of_nat)
    show s: "unat (bh_size h) = length c" using len assms(3) by (simp add: b(3) unat_of_nat)
    then show "unat (bh_size h + of_nat kBlockTrailerSize) = length c + kBlockTrailerSize"
      using trailer_no_wrap [of "bh_size h"] len assms(3) by simp
  qed
  obtain in_buf where rd: "Read (bh_offset h) (bh_size h + of_nat kBlockTrailerSize) = Some (Status_OK, c @ block_trailer t c, in_buf)"
    using random_access_file.read_inside [OF assms(2), of "bh_offset h" "bh_size h + of_nat kBlockTrailerSize"] len
    by (auto simp: u b(1))
  define d where "d = c @ block_trailer t c"
  have parts: "take (Suc (length c)) d = c @ [compression_byte t]" "take (length c) d = c" "d ! length c = compression_byte t"
    "length d = length c + kBlockTrailerSize"
    "drop (Suc (length c)) d = EncodeFixed32 (Mask (Value 0 (c @ [compression_byte t])))"
    by (simp_all add: d_def block_trailer_def nth_append kBlockTrailerSize_def)
  have crc: "Unmask (le_word (take 4 (drop (Suc (length c)) d))) = Value 0 (c @ [compression_byte t])"
    unfolding parts by (simp add: EncodeFixed32_def Unmask_Mask)
  have un: "t = kSnappyCompression \<Longrightarrow> uncompress c = Some raw \<and> length raw < 2 ^ 32"
    using b(4) compressor.uncompress_compress [OF assms(1)] by auto
  show "length raw < 2 ^ 32" using b(4) un len assms(3) by auto
  show "\<exists>c. ReadBlock Read uncompress verify h = Some (Status_OK, c) \<and> bc_data c = raw"
  proof (cases t)
    case kNoCompression
    then have "\<exists>x. ReadBlock Read uncompress verify h = Some (Status_OK, x) \<and> bc_data x = c"
      unfolding ReadBlock_def Let_def rd d_def [symmetric] u by (simp add: crc parts(1-4))
    then show ?thesis using b(4) kNoCompression by auto
  next
    case kSnappyCompression
    then show ?thesis
      using un unfolding ReadBlock_def Let_def rd d_def [symmetric] u by (simp add: crc parts(1-4))
  qed
qed

section \<open>Writing blocks\<close>

lemma status_ok_eq: "status_ok s \<longleftrightarrow> s = Status_OK"
  by (simp add: status_ok_def Status_OK_def)

lemma builder_Reset_new: "builder_Reset b = new_BlockBuilder"
  by (simp add: builder_Reset_def new_BlockBuilder_def)

lemma block_compression_cases:
  assumes "block_compression compress ctype raw = (c, t)"
  shows "t = kNoCompression \<and> c = raw \<or> t = kSnappyCompression \<and> compress raw = Some c"
  using assms by (cases ctype) (auto simp: block_compression_def split: option.splits if_splits)

context reliable_file begin

text \<open>Nothing has failed, and the builder knows the length of the file.\<close>

definition table_file_ok :: "'f TableBuilder \<Rightarrow> bool" where
  "table_file_ok r \<longleftrightarrow> good (tb_file r) \<and> tb_status r = Status_OK \<and> tb_offset r = of_nat (length (contents (tb_file r)))"

lemma table_file_ok_update [simp]:
  "table_file_ok (r\<lparr>tb_last_key := k\<rparr>) = table_file_ok r" "table_file_ok (r\<lparr>pending_index_entry := p\<rparr>) = table_file_ok r"
  "table_file_ok (r\<lparr>index_block := b\<rparr>) = table_file_ok r" "table_file_ok (r\<lparr>data_block := b\<rparr>) = table_file_ok r"
  "table_file_ok (r\<lparr>filter_block := fb\<rparr>) = table_file_ok r" "table_file_ok (r\<lparr>num_entries := n\<rparr>) = table_file_ok r"
  "table_file_ok (r\<lparr>pending_handle := h\<rparr>) = table_file_ok r" "table_file_ok (r\<lparr>tb_closed := c\<rparr>) = table_file_ok r"
  by (simp_all add: table_file_ok_def)

text \<open>The builder after the bytes \<open>d\<close> have been appended.\<close>

definition wrote :: "'f TableBuilder \<Rightarrow> 'f TableBuilder \<Rightarrow> byte list \<Rightarrow> bool" where
  "wrote r r' d \<longleftrightarrow>
     (\<exists>f. good f \<and> contents f = contents (tb_file r) @ d \<and>
        r' = r\<lparr>tb_status := Status_OK, tb_file := f, tb_offset := of_nat (length (contents f))\<rparr>)"

lemma wrote_ok: "wrote r r' d \<Longrightarrow> table_file_ok r' \<and> contents (tb_file r') = contents (tb_file r) @ d"
  by (auto simp: wrote_def table_file_ok_def)

lemma WriteRawBlock_good:
  assumes "table_file_ok r" "WriteRawBlock Append c t r = (h, r')"
  shows "wrote r r' (c @ block_trailer t c)" and "h = \<lparr>bh_offset = of_nat (length (contents (tb_file r))), bh_size = of_nat (length c)\<rparr>"
proof -
  have ok: "good (tb_file r)" "tb_offset r = of_nat (length (contents (tb_file r)))" using assms(1) by (simp_all add: table_file_ok_def)
  obtain s1 f1 where 1: "Append (tb_file r) c = (s1, f1)" by fastforce
  obtain s2 f2 where 2: "Append f1 (block_trailer t c) = (s2, f2)" by fastforce
  note g1 = append_contents [OF ok(1) 1]
  have g2: "status_ok s2 \<and> good f2 \<and> contents f2 = contents f1 @ block_trailer t c" using append_contents [OF _ 2] g1 by simp
  have tr: "[compression_byte t] @ EncodeFixed32 (Mask (Extend 0 (Value 0 c) [compression_byte t])) = block_trailer t c"
    by (simp add: block_trailer_def Value_def Extend_append)
  have r: "h = \<lparr>bh_offset = tb_offset r, bh_size = of_nat (length c)\<rparr>"
    "r' = r\<lparr>tb_status := s2, tb_file := f2, tb_offset := tb_offset r + of_nat (length c) + of_nat kBlockTrailerSize\<rparr>"
    using assms(2) 1 2 g1 g2 unfolding WriteRawBlock_def Let_def tr by simp_all
  show "h = \<lparr>bh_offset = of_nat (length (contents (tb_file r))), bh_size = of_nat (length c)\<rparr>" using r(1) ok(2) by simp
  show "wrote r r' (c @ block_trailer t c)"
    using g1 g2 ok(2) by (intro wrote_def [THEN iffD2] exI [of _ f2]) (simp add: r(2) status_ok_eq)
qed

lemma WriteRawBlock_at:
  assumes "table_file_ok r" "WriteRawBlock Append c t r = (h, r')" "t = kNoCompression \<and> c = raw \<or> t = kSnappyCompression \<and> compress raw = Some c"
  shows "\<exists>d. wrote r r' d \<and> block_at compress (contents (tb_file r')) h raw"
proof -
  note w = WriteRawBlock_good [OF assms(1,2)]
  have "contents (tb_file r') = contents (tb_file r) @ c @ block_trailer t c @ []" using wrote_ok [OF w(1)] by simp
  then have "block_at compress (contents (tb_file r')) h raw"
    unfolding block_at_def using w(2) assms(3)
    by (intro exI [of _ "contents (tb_file r)"] exI [of _ c] exI [of _ t] exI [of _ "[]"]) simp
  then show ?thesis using w(1) by blast
qed

lemma WriteBlock_good:
  assumes "table_file_ok r" "WriteBlock Append compress b r = (b', h, r')"
  shows "b' = new_BlockBuilder" and "bh_offset h = tb_offset r"
    and "\<exists>d. wrote r r' d \<and> block_at compress (contents (tb_file r')) h (fst (builder_Finish b))"
proof -
  obtain raw b1 where f: "builder_Finish b = (raw, b1)" by fastforce
  obtain c t where c: "block_compression compress (opt_compression (tb_options r)) raw = (c, t)" by fastforce
  obtain h1 r1 where w: "WriteRawBlock Append c t r = (h1, r1)" by fastforce
  have eq: "b' = new_BlockBuilder" "h = h1" "r' = r1"
    using assms(2) f c w by (simp_all add: WriteBlock_def builder_Reset_new)
  show "b' = new_BlockBuilder" by (rule eq)
  show "bh_offset h = tb_offset r" using WriteRawBlock_good(2) [OF assms(1) w] assms(1) by (simp add: eq table_file_ok_def)
  show "\<exists>d. wrote r r' d \<and> block_at compress (contents (tb_file r')) h (fst (builder_Finish b))"
    using WriteRawBlock_at [where compress = compress, OF assms(1) w block_compression_cases [OF c]] by (simp add: eq f)
qed

end

section \<open>The entries of the index\<close>

text \<open>The blocks of the index: the key under which a block is found, its handle and its entries.\<close>

type_synonym indexed = "slice \<times> BlockHandle \<times> (slice \<times> slice) list"

definition fill :: "nat \<Rightarrow> (slice \<times> slice) list \<Rightarrow> BlockBuilder" where
  "fill interval kvs = foldl (\<lambda>b (k, v). builder_Add interval b k v) new_BlockBuilder kvs"

lemma fill_simps [simp]: "fill interval [] = new_BlockBuilder"
  "fill interval (kvs @ [(k, v)]) = builder_Add interval (fill interval kvs) k v"
  by (simp_all add: fill_def)

lemma fill_build: "fst (builder_Finish (fill interval kvs)) = build_block interval kvs"
  by (simp add: fill_def build_block_def)

lemma fill_empty:
  assumes "0 < interval"
  shows "bb_buffer (fill interval kvs) = [] \<longleftrightarrow> kvs = []"
proof -
  obtain es rs where b: "builds interval (fill interval kvs) es rs" "map snd es = kvs"
    using builds_foldl [OF builds_new assms, of kvs] by (auto simp: new_BlockBuilder_def fill_def)
  have "entries_bytes es = [] \<longleftrightarrow> es = []"
    using length_EncodeVarint_pos by (cases es) (auto elim: entry_bytes.elims)
  then show ?thesis using b by (auto simp: builds_def)
qed

definition entries :: "indexed list \<Rightarrow> (slice \<times> slice) list" where
  "entries T = concat (map (\<lambda>(_, _, c). c) T)"

definition index_entries :: "indexed list \<Rightarrow> (slice \<times> slice) list" where
  "index_entries T = map (\<lambda>(sep, h, _). (sep, BlockHandle_EncodeTo h [])) T"

text \<open>The keys with the offset of their block, as the filter gets them.\<close>

definition tag_keys :: "u64 \<Rightarrow> (slice \<times> slice) list \<Rightarrow> added" where
  "tag_keys off kvs = map (\<lambda>(k, _). (off, k)) kvs"

definition tags :: "indexed list \<Rightarrow> added" where
  "tags T = concat (map (\<lambda>(_, h, c). tag_keys (bh_offset h) c) T)"

lemma indexed_simps [simp]:
  "entries [] = []" "entries (T @ [(sep, h, c)]) = entries T @ c"
  "index_entries [] = []" "index_entries (T @ [(sep, h, c)]) = index_entries T @ [(sep, BlockHandle_EncodeTo h [])]"
  "tags [] = []" "tags (T @ [(sep, h, c)]) = tags T @ tag_keys (bh_offset h) c"
  "tag_keys off [] = []" "tag_keys off (kvs @ [(k, v)]) = tag_keys off kvs @ [(off, k)]"
  by (simp_all add: entries_def index_entries_def tags_def tag_keys_def)

text \<open>
  Where more keys follow, a block is found under the separator of its last key and the key that follows.
\<close>

fun separated_by :: "(slice \<Rightarrow> slice \<Rightarrow> slice) \<Rightarrow> indexed list \<Rightarrow> (slice \<times> slice) list \<Rightarrow> bool" where
  "separated_by f [] rest \<longleftrightarrow> True"
| "separated_by f ((sep, h, c) # T) rest \<longleftrightarrow>
     (entries T @ rest \<noteq> [] \<longrightarrow> sep = f (fst (last c)) (fst (hd (entries T @ rest)))) \<and> separated_by f T rest"

lemma separated_by_snoc:
  "separated_by f (T @ [(sep, h, c)]) rest \<longleftrightarrow>
     separated_by f T (c @ rest) \<and> (rest \<noteq> [] \<longrightarrow> sep = f (fst (last c)) (fst (hd rest)))"
  by (induction T) auto

abbreviation offsets_of :: "indexed list \<Rightarrow> u64 list" where
  "offsets_of T \<equiv> map (\<lambda>(_, h, _). bh_offset h) T"

text \<open>
  An option record that tables can be built with: the comparator keeps its contract, restart points are
  possible, and the filter policy, if there is one, has no false negatives.
\<close>

locale table_options = comparator ok "opt_Compare opts" "opt_FindShortestSeparator opts" "opt_FindShortSuccessor opts"
  for ok :: "slice \<Rightarrow> bool" and opts :: Options +
  assumes interval: "0 < block_restart_interval opts"
    and policy: "opt_filter_policy opts = Some p \<Longrightarrow> filter_policy ok (fp_CreateFilter p) (fp_KeyMayMatch p)"
begin

definition keys_ok :: "(slice \<times> slice) list \<Rightarrow> bool" where
  "keys_ok kvs \<longleftrightarrow> sorted_wrt (\<lambda>a b. opt_Compare opts a b < 0) (map fst kvs) \<and> (\<forall>k \<in> fst ` set kvs. ok k)"

text \<open>
  The blocks stored in \<open>data\<close>: each is found under a key that is not below its keys and below all keys that
  follow, those of \<open>K\<close> included.
\<close>

definition stored :: "(slice \<Rightarrow> slice option) \<Rightarrow> byte list \<Rightarrow> BlockHandle \<Rightarrow> (slice \<times> slice) list \<Rightarrow> bool" where
  "stored compress data h c \<longleftrightarrow> c \<noteq> [] \<and> block_at compress data h (build_block (block_restart_interval opts) c)"

definition index_ok :: "(slice \<Rightarrow> slice option) \<Rightarrow> byte list \<Rightarrow> indexed list \<Rightarrow> slice set \<Rightarrow> bool" where
  "index_ok compress data T K \<longleftrightarrow>
     (\<forall>(sep, h, c) \<in> set T. stored compress data h c \<and> ok sep \<and> (\<forall>k \<in> fst ` set c. opt_Compare opts k sep \<le> 0) \<and>
        (\<forall>k \<in> K. opt_Compare opts sep k < 0)) \<and>
     sorted_wrt (\<lambda>(sep, _, _) (_, _, c). \<forall>k \<in> fst ` set c. opt_Compare opts sep k < 0) T"

lemma stored_append: "stored compress data h c \<Longrightarrow> stored compress (data @ d) h c"
  by (simp add: stored_def block_at_append)

lemma index_ok_append: "index_ok compress data T K \<Longrightarrow> index_ok compress (data @ d) T K"
  by (auto simp: index_ok_def stored_append)

lemma index_ok_snoc:
  assumes "index_ok compress data T (fst ` set c \<union> K)" "stored compress data h c" "ok sep"
    "\<forall>k \<in> fst ` set c. opt_Compare opts k sep \<le> 0" "\<forall>k \<in> K. opt_Compare opts sep k < 0"
  shows "index_ok compress data (T @ [(sep, h, c)]) K"
  using assms by (fastforce simp: index_ok_def sorted_wrt_append)

lemma keys_ok_last:
  assumes "keys_ok (kvs @ c @ rest)" "c \<noteq> []" "k \<in> fst ` set c"
  shows "opt_Compare opts k (fst (last c)) \<le> 0"
proof -
  obtain c' x where c: "c = c' @ [x]" using assms(2) by (cases c rule: rev_cases) auto
  have "ok (fst x)" "sorted_wrt (\<lambda>a b. opt_Compare opts a b < 0) (map fst c' @ [fst x])"
    using assms(1) by (auto simp: keys_ok_def c sorted_wrt_append)
  then show ?thesis using assms(3) compare_refl [of "fst x"] by (force simp: c sorted_wrt_append)
qed

text \<open>What is in the file: the blocks of \<open>T\<close>, the index, the filter with its entry in the metaindex, and the footer.\<close>

definition table_layout :: "(slice \<Rightarrow> slice option) \<Rightarrow> byte list \<Rightarrow> Footer \<Rightarrow> indexed list \<Rightarrow> bool" where
  "table_layout compress data footer T \<longleftrightarrow>
     length data < 2 ^ 32 \<and> (\<exists>pre. data = pre @ Footer_EncodeTo footer []) \<and> keys_ok (entries T) \<and> index_ok compress data T {} \<and>
     separated_by (opt_FindShortestSeparator opts) T [] \<and> distinct (offsets_of T) \<and>
     block_at compress data (index_handle footer) (build_block 1 (index_entries T)) \<and>
     (case opt_filter_policy opts of
        None \<Rightarrow> True
      | Some p \<Rightarrow> (\<exists>h fb. filter_inv p fb (tags T) \<and> block_at compress data h (fst (filter_Finish p fb)) \<and>
          block_at compress data (metaindex_handle footer)
            (build_block (block_restart_interval opts) [(filter_key p, BlockHandle_EncodeTo h [])])))"

end

section \<open>The builder while keys are added\<close>

locale table_building = reliable_file contents Append Flush good + table_options ok opts
  for contents :: "'f \<Rightarrow> byte list" and Append :: "'f \<Rightarrow> slice \<Rightarrow> Status \<times> 'f" and Flush :: "'f \<Rightarrow> Status \<times> 'f"
    and good :: "'f \<Rightarrow> bool" and ok :: "slice \<Rightarrow> bool" and opts :: Options +
  fixes compress :: "slice \<Rightarrow> slice option"
begin

abbreviation data_of :: "'f TableBuilder \<Rightarrow> byte list" where
  "data_of b \<equiv> contents (tb_file b)"

definition filter_ok :: "FilterBlockBuilder option \<Rightarrow> u64 \<Rightarrow> added \<Rightarrow> bool" where
  "filter_ok fbo off ad \<longleftrightarrow>
     (case opt_filter_policy opts of
        None \<Rightarrow> fbo = None
      | Some p \<Rightarrow> (\<exists>fb. fbo = Some fb \<and> filter_inv p fb ad \<and> unat off div kFilterBase = length (filter_offsets fb)))"

text \<open>
  The blocks \<open>T\<close> are in the index, the block \<open>pend\<close> (if it is not empty) waits for its index entry, \<open>cur\<close> is in
  the data block, and \<open>rest\<close> is still to come.
\<close>

definition table_inv ::
  "'f TableBuilder \<Rightarrow> indexed list \<Rightarrow> (slice \<times> slice) list \<Rightarrow> (slice \<times> slice) list \<Rightarrow> (slice \<times> slice) list \<Rightarrow> bool" where
  "table_inv b T pend cur rest \<longleftrightarrow>
     table_file_ok b \<and> tb_options b = opts \<and> index_block_options b = opts\<lparr>block_restart_interval := 1\<rparr> \<and>
     keys_ok (entries T @ pend @ cur @ rest) \<and>
     data_block b = fill (block_restart_interval opts) cur \<and> index_block b = fill 1 (index_entries T) \<and>
     index_ok compress (data_of b) T (fst ` set (pend @ cur @ rest)) \<and>
     separated_by (opt_FindShortestSeparator opts) T (pend @ cur @ rest) \<and> distinct (offsets_of T) \<and>
     pending_index_entry b = (pend \<noteq> []) \<and>
     (pend \<noteq> [] \<longrightarrow> cur = [] \<and> stored compress (data_of b) (pending_handle b) pend \<and> bh_offset (pending_handle b) \<notin> set (offsets_of T)) \<and>
     (pend @ cur \<noteq> [] \<longrightarrow> tb_last_key b = fst (last (pend @ cur))) \<and>
     filter_ok (filter_block b) (tb_offset b)
       (tags T @ tag_keys (bh_offset (pending_handle b)) pend @ tag_keys (tb_offset b) cur)"

lemma table_inv_new:
  assumes "good f" "contents f = []" "keys_ok kvs"
  shows "table_inv (new_TableBuilder opts f) [] [] [] kvs"
proof -
  have "filter_inv p (StartBlock p 0 new_FilterBlockBuilder) [] \<and> length (filter_offsets (StartBlock p 0 new_FilterBlockBuilder)) = 0" for p
    using StartBlock_inv [OF filter_inv_new, of 0 p] by (simp add: new_FilterBlockBuilder_def)
  then have "filter_ok (filter_block (new_TableBuilder opts f)) 0 []"
    by (auto simp: filter_ok_def new_TableBuilder_def Let_def split: option.splits)
  then show ?thesis
    using assms by (simp add: table_inv_def table_file_ok_def index_ok_def, simp add: new_TableBuilder_def Let_def)
qed

text \<open>The index entry of the pending block is added.\<close>

lemma push_index:
  assumes inv: "table_inv b T pend cur rest" and ne: "pend \<noteq> []"
    and sep: "ok sep" "opt_Compare opts (fst (last pend)) sep \<le> 0" "\<forall>k \<in> fst ` set rest. opt_Compare opts sep k < 0"
      "rest \<noteq> [] \<longrightarrow> sep = opt_FindShortestSeparator opts (fst (last pend)) (fst (hd rest))"
  shows "table_inv (b\<lparr>tb_last_key := sep, pending_index_entry := False,
      index_block := builder_Add (block_restart_interval (index_block_options b)) (index_block b) sep
        (BlockHandle_EncodeTo (pending_handle b) [])\<rparr>) (T @ [(sep, pending_handle b, pend)]) [] [] rest"
proof -
  have cur: "cur = []" and st: "stored compress (data_of b) (pending_handle b) pend"
    using inv ne by (simp_all add: table_inv_def)
  have keys: "keys_ok (entries T @ pend @ rest)" using inv cur by (simp add: table_inv_def)
  have "opt_Compare opts k sep \<le> 0" if "k \<in> fst ` set pend" for k
  proof (rule compare_trans)
    show "opt_Compare opts k (fst (last pend)) \<le> 0" by (rule keys_ok_last [OF keys ne that])
    show "ok k" "ok (fst (last pend))" using keys that ne by (auto simp: keys_ok_def)
  qed (use sep in simp_all)
  then have "index_ok compress (data_of b) (T @ [(sep, pending_handle b, pend)]) (fst ` set rest)"
    using inv sep st by (intro index_ok_snoc) (simp_all add: table_inv_def cur image_Un Un_commute)
  then show ?thesis using inv ne sep(4) by (simp add: table_inv_def cur separated_by_snoc)
qed

text \<open>A key is put into the data block.\<close>

lemma put_key:
  assumes inv: "table_inv b T [] cur ((key, v) # rest)"
  shows "table_inv (b\<lparr>filter_block := map_option (\<lambda>fb. filter_AddKey fb key) (filter_block b), tb_last_key := key,
      num_entries := num_entries b + 1,
      data_block := builder_Add (block_restart_interval (tb_options b)) (data_block b) key v\<rparr>) T [] (cur @ [(key, v)]) rest"
proof -
  have f: "filter_ok (filter_block b) (tb_offset b) (tags T @ tag_keys (tb_offset b) cur)"
    using inv by (simp add: table_inv_def)
  have "filter_ok (map_option (\<lambda>fb. filter_AddKey fb key) (filter_block b)) (tb_offset b)
      ((tags T @ tag_keys (tb_offset b) cur) @ [(tb_offset b, key)])"
    using f AddKey_inv [where off = "tb_offset b" and key = key and ad = "tags T @ tag_keys (tb_offset b) cur"]
    by (auto simp: filter_ok_def split: option.splits) (simp add: filter_AddKey_def)
  then show ?thesis
    using inv by (simp add: table_inv_def)
qed

text \<open>The file only grows, whatever happens.\<close>

lemma append_grows: "Append f d = (s, f') \<Longrightarrow> prefix (contents f) (contents f')"
  using append_part by (metis prefixI)

lemma WriteRawBlock_grows: "WriteRawBlock Append c t r = (h, r') \<Longrightarrow> prefix (data_of r) (data_of r')"
  by (auto simp: WriteRawBlock_def Let_def split: prod.splits if_splits dest!: append_grows intro: prefix_order.trans)

lemma table_Flush_grows: "prefix (data_of r) (data_of (table_Flush Append Flush compress r))"
  by (auto simp: table_Flush_def WriteBlock_def Let_def split: prod.splits option.splits
      dest!: WriteRawBlock_grows flush_contents)

lemma table_Add_grows: "prefix (data_of r) (data_of (table_Add Append Flush compress r k v))"
  using table_Flush_grows by (auto simp: table_Add_def Let_def intro: prefix_order.trans [OF _ table_Flush_grows])

lemma Flush_inv:
  assumes inv: "table_inv b T [] cur rest" and ne: "cur \<noteq> []"
    and small: "length (data_of (table_Flush Append Flush compress b)) < 2 ^ 32"
  shows "table_inv (table_Flush Append Flush compress b) T cur [] rest"
proof -
  let ?b = "table_Flush Append Flush compress b"
  have ok: "table_file_ok b" "status_ok (tb_status b)" "tb_options b = opts" "data_block b = fill (block_restart_interval opts) cur"
    using inv by (simp_all add: table_inv_def table_file_ok_def status_ok_eq)
  have buf: "bb_buffer (data_block b) \<noteq> []" using ne fill_empty [OF interval] by (simp add: ok(4))
  obtain bb h r1 where w: "WriteBlock Append compress (data_block b) b = (bb, h, r1)" by (metis prod_cases3)
  note W = WriteBlock_good [OF ok(1) w]
  obtain d where d: "wrote b r1 d" "block_at compress (data_of r1) h (build_block (block_restart_interval opts) cur)"
    using W(3) by (auto simp: ok(4) fill_build)
  obtain f1 where f1: "good f1" "contents f1 = data_of b @ d"
    "r1 = b\<lparr>tb_status := Status_OK, tb_file := f1, tb_offset := of_nat (length (contents f1))\<rparr>"
    using d(1) by (auto simp: wrote_def)
  obtain s f where fl: "Flush f1 = (s, f)" by fastforce
  then have f: "s = Status_OK" "good f" "contents f = data_of b @ d"
    using good_flush [OF f1(1) fl] flush_contents [OF fl] f1(2) by (simp_all add: status_ok_eq)
  define off where "off = (of_nat (length (data_of b @ d)) :: u64)"
  define fb where "fb = (case (filter_block b, opt_filter_policy opts) of
      (Some fb, Some p) \<Rightarrow> Some (StartBlock p off fb) | _ \<Rightarrow> filter_block b)"
  have eq: "?b = b\<lparr>tb_status := Status_OK, tb_file := f, tb_offset := off, data_block := new_BlockBuilder,
      pending_handle := h, pending_index_entry := True, filter_block := fb\<rparr>"
    using ok(2) buf w fl unfolding table_Flush_def Let_def
    by (simp add: W(1) status_ok_eq ok(3) f1(2,3) f(1) fb_def off_def split: option.split)
  have "length (data_of b @ d) < 2 ^ 32" using small by (simp add: eq f(3))
  then have off: "unat (tb_offset b) \<le> unat off"
    using ok(1) by (simp add: table_file_ok_def off_def unat_of_nat del: of_nat_add)
  have "filter_ok fb off (tags T @ tag_keys (tb_offset b) cur)"
  proof (cases "opt_filter_policy opts")
    case None
    then show ?thesis using inv by (simp add: fb_def filter_ok_def table_inv_def)
  next
    case (Some p)
    then obtain fb0 where fb0: "filter_block b = Some fb0" "filter_inv p fb0 (tags T @ tag_keys (tb_offset b) cur)"
      "unat (tb_offset b) div kFilterBase = length (filter_offsets fb0)"
      using inv by (auto simp: filter_ok_def table_inv_def)
    have "length (filter_offsets fb0) \<le> unat off div kFilterBase"
      unfolding fb0(3) [symmetric] using off by (rule div_le_mono)
    from StartBlock_inv [OF fb0(2) this] show ?thesis by (simp add: filter_ok_def fb_def Some fb0(1))
  qed
  moreover have "bh_offset h \<notin> set (offsets_of T)"
  proof
    assume "bh_offset h \<in> set (offsets_of T)"
    then obtain sep h' c where T: "(sep, h', c) \<in> set T" "bh_offset h' = bh_offset h" by auto
    then have "block_at compress (data_of b) h' (build_block (block_restart_interval opts) c)"
      using inv by (auto simp: table_inv_def index_ok_def stored_def)
    moreover have "bh_offset h' = of_nat (length (data_of b))" using T(2) W(2) ok(1) by (simp add: table_file_ok_def)
    ultimately show False using block_at_inside small eq f(3) by fastforce
  qed
  moreover have "stored compress (data_of b @ d) h cur" using d(2) ne by (simp add: stored_def f1(2,3))
  moreover have "index_ok compress (data_of b @ d) T (fst ` set (cur @ rest))"
    using inv index_ok_append by (simp add: table_inv_def)
  ultimately show ?thesis
    using inv f W(2) ne by (simp add: table_inv_def eq table_file_ok_def off_def)
qed

text \<open>The separator of a pending block and the next key.\<close>

lemma separator_push:
  assumes inv: "table_inv b T pend cur ((key, v) # rest)" and ne: "pend \<noteq> []"
  defines "sep \<equiv> opt_FindShortestSeparator opts (fst (last pend)) key"
  shows "ok sep" and "opt_Compare opts (fst (last pend)) sep \<le> 0"
    and "\<forall>k \<in> fst ` set ((key, v) # rest). opt_Compare opts sep k < 0"
    and "(key, v) # rest \<noteq> [] \<longrightarrow> sep = opt_FindShortestSeparator opts (fst (last pend)) (fst (hd ((key, v) # rest)))"
proof -
  have keys: "keys_ok (entries T @ pend @ (key, v) # rest)" using inv ne by (auto simp: table_inv_def)
  have l: "fst (last pend) \<in> fst ` set pend" using ne by simp
  have oks: "ok (fst (last pend))" "ok key" "\<forall>k \<in> fst ` set rest. ok k" using keys last_in_set [OF ne] by (auto simp: keys_ok_def)
  have less: "opt_Compare opts (fst (last pend)) key < 0" "\<forall>k \<in> fst ` set rest. opt_Compare opts key k < 0"
    using keys l by (auto simp: keys_ok_def sorted_wrt_append)
  note s = separator_ok [OF oks(1,2) less(1)] separator [OF oks(1,2) less(1)]
  show "ok sep" "opt_Compare opts (fst (last pend)) sep \<le> 0" using s by (simp_all add: sep_def)
  have "opt_Compare opts sep k < 0" if "k \<in> fst ` set rest" for k
    using compare_le_less_trans [OF _ oks(2), of sep k] s oks(3) less(2) that by (auto simp: sep_def)
  then show "\<forall>k \<in> fst ` set ((key, v) # rest). opt_Compare opts sep k < 0" using s by (auto simp: sep_def)
  show "(key, v) # rest \<noteq> [] \<longrightarrow> sep = opt_FindShortestSeparator opts (fst (last pend)) (fst (hd ((key, v) # rest)))"
    by (simp add: sep_def)
qed

lemma Add_inv:
  assumes inv: "table_inv b T pend cur ((key, v) # rest)"
    and small: "length (data_of (table_Add Append Flush compress b key v)) < 2 ^ 32"
  shows "\<exists>T' pend' cur'. table_inv (table_Add Append Flush compress b key v) T' pend' cur' rest \<and>
    entries T' @ pend' @ cur' = entries T @ pend @ cur @ [(key, v)]"
proof -
  define b1 where "b1 = (if pending_index_entry b then
      let sep = opt_FindShortestSeparator (tb_options b) (tb_last_key b) key
      in b\<lparr>tb_last_key := sep, pending_index_entry := False,
           index_block := builder_Add (block_restart_interval (index_block_options b)) (index_block b) sep
             (BlockHandle_EncodeTo (pending_handle b) [])\<rparr> else b)"
  obtain T1 cur1 where 1: "table_inv b1 T1 [] cur1 ((key, v) # rest)" "entries T1 @ cur1 = entries T @ pend @ cur"
  proof (cases "pend = []")
    case True
    then show ?thesis using inv that [of T cur] by (simp add: b1_def table_inv_def)
  next
    case False
    have p: "pending_index_entry b" "tb_options b = opts" "tb_last_key b = fst (last pend)" "cur = []"
      using inv False by (auto simp: table_inv_def)
    show ?thesis
      by (rule that [of "T @ [(opt_FindShortestSeparator opts (fst (last pend)) key, pending_handle b, pend)]" "[]"])
        (use push_index [OF inv False separator_push [OF inv False]] in \<open>simp_all add: b1_def p Let_def\<close>)
  qed
  define b2 where "b2 = b1\<lparr>filter_block := map_option (\<lambda>fb. filter_AddKey fb key) (filter_block b1), tb_last_key := key,
      num_entries := num_entries b1 + 1,
      data_block := builder_Add (block_restart_interval (tb_options b1)) (data_block b1) key v\<rparr>"
  have 2: "table_inv b2 T1 [] (cur1 @ [(key, v)]) rest" unfolding b2_def by (rule put_key [OF 1(1)])
  have st: "status_ok (tb_status b)" using inv by (simp add: table_inv_def table_file_ok_def status_ok_eq)
  have opts: "tb_options b2 = opts" using 2 by (simp add: table_inv_def)
  have eq: "table_Add Append Flush compress b key v =
      (if CurrentSizeEstimate (data_block b2) \<ge> block_size opts then table_Flush Append Flush compress b2 else b2)"
    unfolding opts [symmetric] by (simp add: table_Add_def st b2_def b1_def Let_def)
  show ?thesis
  proof (cases "CurrentSizeEstimate (data_block b2) \<ge> block_size opts")
    case True
    have "table_inv (table_Flush Append Flush compress b2) T1 (cur1 @ [(key, v)]) [] rest"
      using Flush_inv [OF 2] small by (simp add: eq True)
    then show ?thesis using 1(2) True by (intro exI [of _ T1] exI [of _ "cur1 @ [(key, v)]"] exI [of _ "[]"]) (simp add: eq)
  next
    case False
    then show ?thesis using 1(2) 2 by (intro exI [of _ T1] exI [of _ "[]"] exI [of _ "cur1 @ [(key, v)]"]) (simp add: eq)
  qed
qed

definition add_all :: "'f TableBuilder \<Rightarrow> (slice \<times> slice) list \<Rightarrow> 'f TableBuilder" where
  "add_all b kvs = foldl (\<lambda>b (k, v). table_Add Append Flush compress b k v) b kvs"

lemma add_all_grows: "prefix (data_of b) (data_of (add_all b kvs))"
  unfolding add_all_def
  by (induction kvs arbitrary: b) (auto intro: prefix_order.trans [OF table_Add_grows])

lemma add_all_inv:
  assumes "table_inv b T pend cur kvs" "length (data_of (add_all b kvs)) < 2 ^ 32"
  shows "\<exists>T' pend' cur'. table_inv (add_all b kvs) T' pend' cur' [] \<and> entries T' @ pend' @ cur' = entries T @ pend @ cur @ kvs"
  using assms
proof (induction kvs arbitrary: b T pend cur)
  case Nil
  then show ?case by (auto simp: add_all_def)
next
  case (Cons kv kvs)
  obtain k v where kv: "kv = (k, v)" by (cases kv)
  let ?b = "table_Add Append Flush compress b k v"
  have all: "add_all b (kv # kvs) = add_all ?b kvs" by (simp add: add_all_def kv)
  then have "length (data_of ?b) < 2 ^ 32" using Cons.prems(2) prefix_length_le [OF add_all_grows [of ?b kvs]] by simp
  from Add_inv [OF Cons.prems(1) [unfolded kv] this] obtain T1 p1 c1 where
    1: "table_inv ?b T1 p1 c1 kvs" "entries T1 @ p1 @ c1 = entries T @ pend @ cur @ [(k, v)]" by blast
  have "\<exists>T' pend' cur'. table_inv (add_all ?b kvs) T' pend' cur' [] \<and> entries T' @ pend' @ cur' = entries T1 @ p1 @ c1 @ kvs"
    by (rule Cons.IH [OF 1(1)]) (use Cons.prems(2) all in simp)
  moreover have "entries T1 @ p1 @ c1 @ kvs = entries T @ pend @ cur @ kv # kvs"
    using arg_cong [OF 1(2), of "\<lambda>xs. xs @ kvs"] by (simp add: kv)
  ultimately show ?case by (simp add: all)
qed

section \<open>The finished table\<close>

text \<open>A later builder with a longer file, of which only the file and the contents of the filter have changed.\<close>

definition later :: "'f TableBuilder \<Rightarrow> 'f TableBuilder \<Rightarrow> bool" where
  "later r r' \<longleftrightarrow> table_file_ok r' \<and> prefix (data_of r) (data_of r') \<and>
     tb_options r' = tb_options r \<and> index_block_options r' = index_block_options r \<and> index_block r' = index_block r \<and>
     pending_index_entry r' = pending_index_entry r \<and> pending_handle r' = pending_handle r \<and> tb_last_key r' = tb_last_key r \<and>
     (filter_block r' = None \<longleftrightarrow> filter_block r = None)"

lemma wrote_later: "wrote r r' d \<Longrightarrow> later r r'"
  by (auto simp: wrote_def later_def table_file_ok_def)

lemma builder_later_trans: "later r1 r2 \<Longrightarrow> later r2 r3 \<Longrightarrow> later r1 r3"
  by (auto simp: later_def)

lemma block_at_prefix: "block_at compress d h raw \<Longrightarrow> prefix d d' \<Longrightarrow> block_at compress d' h raw"
  by (auto simp: prefix_def block_at_append)

lemma index_ok_prefix: "index_ok compress d T K \<Longrightarrow> prefix d d' \<Longrightarrow> index_ok compress d' T K"
  by (auto simp: prefix_def index_ok_append)

lemma final_index:
  assumes inv: "table_inv r T pend [] []"
  shows "\<exists>T1. entries T1 = entries T @ pend \<and> tags T1 = tags T @ tag_keys (bh_offset (pending_handle r)) pend \<and>
    index_ok compress (data_of r) T1 {} \<and> separated_by (opt_FindShortestSeparator opts) T1 [] \<and> distinct (offsets_of T1) \<and>
    (if pending_index_entry r
     then builder_Add (block_restart_interval (index_block_options r)) (index_block r)
       (opt_FindShortSuccessor (tb_options r) (tb_last_key r)) (BlockHandle_EncodeTo (pending_handle r) [])
     else index_block r) = fill 1 (index_entries T1)"
proof (cases "pend = []")
  case True
  then show ?thesis using inv by (intro exI [of _ T]) (simp add: table_inv_def)
next
  case False
  let ?succ = "opt_FindShortSuccessor opts (fst (last pend))"
  have "keys_ok (entries T @ pend)" using inv by (simp add: table_inv_def)
  then have "ok (fst (last pend))" using last_in_set [OF False] by (auto simp: keys_ok_def)
  note succ = successor_ok [OF this] successor [OF this]
  have f: "tb_last_key r = fst (last pend)" "tb_options r = opts" "pending_index_entry r"
    "index_block_options r = opts\<lparr>block_restart_interval := 1\<rparr>"
    using inv False by (simp_all add: table_inv_def)
  have "table_inv (r\<lparr>tb_last_key := ?succ, pending_index_entry := False,
      index_block := builder_Add (block_restart_interval (index_block_options r)) (index_block r) ?succ
        (BlockHandle_EncodeTo (pending_handle r) [])\<rparr>) (T @ [(?succ, pending_handle r, pend)]) [] [] []"
    by (rule push_index [OF inv False]) (use succ in simp_all)
  then show ?thesis
    by (intro exI [of _ "T @ [(?succ, pending_handle r, pend)]"]) (simp add: table_inv_def f)
qed

lemma finish_filter_good:
  assumes "table_file_ok r" "tb_options r = opts" "filter_ok (filter_block r) off ad" "finish_filter Append r = (h, r')"
  shows "later r r'"
    and "opt_filter_policy opts = Some p \<Longrightarrow> \<exists>fb. filter_inv p fb ad \<and> block_at compress (data_of r') h (fst (filter_Finish p fb)) \<and> filter_block r' \<noteq> None"
proof -
  have "later r r' \<and> (\<forall>p. opt_filter_policy opts = Some p \<longrightarrow>
      (\<exists>fb. filter_inv p fb ad \<and> block_at compress (data_of r') h (fst (filter_Finish p fb)) \<and> filter_block r' \<noteq> None))"
  proof (cases "opt_filter_policy opts")
    case None
    then show ?thesis using assms by (simp add: filter_ok_def finish_filter_def later_def)
  next
    case (Some p)
    then obtain fb where fb: "filter_block r = Some fb" "filter_inv p fb ad" using assms(3) by (auto simp: filter_ok_def)
    obtain c fb' where c: "filter_Finish p fb = (c, fb')" by fastforce
    have ok: "table_file_ok (r\<lparr>filter_block := Some fb'\<rparr>)" using assms(1) by simp
    have w: "WriteRawBlock Append c kNoCompression (r\<lparr>filter_block := Some fb'\<rparr>) = (h, r')"
      using assms(1,2,4) by (simp add: finish_filter_def fb(1) Some c table_file_ok_def status_ok_eq)
    obtain d where "wrote (r\<lparr>filter_block := Some fb'\<rparr>) r' d" "block_at compress (data_of r') h c"
      using WriteRawBlock_at [where compress = compress and raw = c, OF ok w] by auto
    moreover from wrote_later [OF this(1)] have "later r r'" "filter_block r' \<noteq> None" using fb(1) by (simp_all add: later_def)
    ultimately show ?thesis using fb(2) by (auto simp: Some c)
  qed
  then show "later r r'" "opt_filter_policy opts = Some p \<Longrightarrow>
    \<exists>fb. filter_inv p fb ad \<and> block_at compress (data_of r') h (fst (filter_Finish p fb)) \<and> filter_block r' \<noteq> None" by blast+
qed

lemma finish_metaindex_good:
  assumes "table_file_ok r" "tb_options r = opts" "finish_metaindex Append compress fh r = (h, r')"
  shows "later r r'"
    and "opt_filter_policy opts = Some p \<Longrightarrow> filter_block r \<noteq> None \<Longrightarrow>
      block_at compress (data_of r') h (build_block (block_restart_interval opts) [(filter_key p, BlockHandle_EncodeTo fh [])])"
proof -
  define meta where "meta = (case (filter_block r, opt_filter_policy (tb_options r)) of
      (Some _, Some policy) \<Rightarrow> builder_Add (block_restart_interval (tb_options r)) new_BlockBuilder (filter_key policy)
          (BlockHandle_EncodeTo fh []) | _ \<Rightarrow> new_BlockBuilder)"
  obtain bb h1 r1 where w: "WriteBlock Append compress meta r = (bb, h1, r1)" by (metis prod_cases3)
  have eq: "h = h1" "r' = r1"
    using assms(1,3) w unfolding finish_metaindex_def meta_def [symmetric] by (simp_all add: table_file_ok_def status_ok_eq)
  obtain d where d: "wrote r r' d" "block_at compress (data_of r') h (fst (builder_Finish meta))"
    using WriteBlock_good(3) [OF assms(1) w] by (auto simp: eq)
  show "later r r'" by (rule wrote_later [OF d(1)])
  show "block_at compress (data_of r') h (build_block (block_restart_interval opts) [(filter_key p, BlockHandle_EncodeTo fh [])])"
    if "opt_filter_policy opts = Some p" "filter_block r \<noteq> None"
    using d(2) that assms(2) by (auto simp: meta_def build_block_def)
qed

lemma finish_index_good:
  assumes "table_file_ok r" "finish_index Append compress r = (h, r')"
    and "(if pending_index_entry r
     then builder_Add (block_restart_interval (index_block_options r)) (index_block r)
       (opt_FindShortSuccessor (tb_options r) (tb_last_key r)) (BlockHandle_EncodeTo (pending_handle r) [])
     else index_block r) = fill 1 kvs"
  shows "table_file_ok r' \<and> prefix (data_of r) (data_of r') \<and> block_at compress (data_of r') h (build_block 1 kvs)"
proof -
  define r0 where "r0 = (if pending_index_entry r then
      let succ = opt_FindShortSuccessor (tb_options r) (tb_last_key r);
          handle_encoding = BlockHandle_EncodeTo (pending_handle r) []
      in r\<lparr>tb_last_key := succ, pending_index_entry := False,
           index_block := builder_Add (block_restart_interval (index_block_options r)) (index_block r) succ handle_encoding\<rparr>
      else r)"
  have r0: "table_file_ok r0" "index_block r0 = fill 1 kvs" "data_of r0 = data_of r"
    using assms(1,3) by (auto simp: r0_def Let_def split: if_splits)
  obtain bb h1 r1 where w: "WriteBlock Append compress (index_block r0) r0 = (bb, h1, r1)" by (metis prod_cases3)
  have eq: "h = h1" "r' = r1\<lparr>index_block := bb\<rparr>"
    using assms(1,2) w unfolding finish_index_def r0_def [symmetric] by (simp_all add: table_file_ok_def status_ok_eq)
  obtain d where d: "wrote r0 r1 d" "block_at compress (data_of r1) h (build_block 1 kvs)"
    using WriteBlock_good(3) [OF r0(1) w] by (auto simp: eq r0(2) fill_build)
  then show ?thesis using wrote_ok [OF d(1)] by (simp add: eq(2) r0(3))
qed

lemma finish_footer_good:
  fixes m i :: BlockHandle
  assumes "table_file_ok r"
  defines "r' \<equiv> finish_footer Append m i r"
  shows "tb_status r' = Status_OK" and "data_of r' = data_of r @ Footer_EncodeTo \<lparr>metaindex_handle = m, index_handle = i\<rparr> []"
proof -
  obtain s f where a: "Append (tb_file r) (Footer_EncodeTo \<lparr>metaindex_handle = m, index_handle = i\<rparr> []) = (s, f)" by fastforce
  note c = append_contents [OF _ a]
  show "tb_status r' = Status_OK" "data_of r' = data_of r @ Footer_EncodeTo \<lparr>metaindex_handle = m, index_handle = i\<rparr> []"
    using assms(1) a c by (simp_all add: r'_def finish_footer_def table_file_ok_def status_ok_eq)
qed

lemma Flush_final:
  assumes inv: "table_inv b T pend cur []" and small: "length (data_of (table_Flush Append Flush compress b)) < 2 ^ 32"
  shows "\<exists>T' pend'. table_inv (table_Flush Append Flush compress b) T' pend' [] [] \<and> entries T' @ pend' = entries T @ pend @ cur"
proof (cases "cur = []")
  case True
  then have "table_Flush Append Flush compress b = b"
    using inv by (simp add: table_Flush_def table_inv_def new_BlockBuilder_def)
  then show ?thesis using inv True by auto
next
  case False
  then have "pend = []" using inv by (auto simp: table_inv_def)
  then show ?thesis using Flush_inv [of b T cur "[]"] inv False small by auto
qed

lemma finish_filter_grows: "finish_filter Append r = (h, r') \<Longrightarrow> prefix (data_of r) (data_of r')"
  by (auto simp: finish_filter_def split: option.splits if_splits prod.splits dest!: WriteRawBlock_grows)

lemma finish_metaindex_grows: "finish_metaindex Append compress fh r = (h, r') \<Longrightarrow> prefix (data_of r) (data_of r')"
  by (auto simp: finish_metaindex_def WriteBlock_def Let_def split: if_splits prod.splits dest!: WriteRawBlock_grows)

lemma finish_index_grows: "finish_index Append compress r = (h, r') \<Longrightarrow> prefix (data_of r) (data_of r')"
  by (auto simp: finish_index_def WriteBlock_def Let_def split: if_splits prod.splits dest!: WriteRawBlock_grows)

lemma finish_footer_grows: "prefix (data_of r) (data_of (finish_footer Append m i r))"
  by (auto simp: finish_footer_def Let_def split: prod.splits dest!: append_grows)

lemma Finish_grows:
  assumes "table_Finish Append Flush compress b = (s, r)"
  shows "prefix (data_of b) (data_of r)"
proof -
  define r0 where "r0 = (table_Flush Append Flush compress b)\<lparr>tb_closed := True\<rparr>"
  obtain fh r1 where 1: "finish_filter Append r0 = (fh, r1)" by fastforce
  obtain mh r2 where 2: "finish_metaindex Append compress fh r1 = (mh, r2)" by fastforce
  obtain ih r3 where 3: "finish_index Append compress r2 = (ih, r3)" by fastforce
  have "r = finish_footer Append mh ih r3" using assms by (auto simp: table_Finish_def r0_def [symmetric] 1 2 3 Let_def)
  then show ?thesis
    using table_Flush_grows [of b] finish_filter_grows [OF 1] finish_metaindex_grows [OF 2] finish_index_grows [OF 3]
      finish_footer_grows [of r3 mh ih] by (auto simp: r0_def intro: prefix_order.trans)
qed

lemma Finish_layout:
  assumes inv: "table_inv b T pend cur []" and fin: "table_Finish Append Flush compress b = (s, r)"
    and small: "length (data_of r) < 2 ^ 32"
  shows "s = Status_OK" and "\<exists>footer T'. table_layout compress (data_of r) footer T' \<and> entries T' = entries T @ pend @ cur"
proof -
  define r0 where "r0 = (table_Flush Append Flush compress b)\<lparr>tb_closed := True\<rparr>"
  obtain fh r1 where 1: "finish_filter Append r0 = (fh, r1)" by fastforce
  obtain mh r2 where 2: "finish_metaindex Append compress fh r1 = (mh, r2)" by fastforce
  obtain ih r3 where 3: "finish_index Append compress r2 = (ih, r3)" by fastforce
  define footer where "footer = \<lparr>metaindex_handle = mh, index_handle = ih\<rparr>"
  have r: "s = tb_status r" "r = finish_footer Append mh ih r3"
    using fin by (auto simp: table_Finish_def r0_def [symmetric] 1 2 3 Let_def)
  note g0 = finish_filter_grows [OF 1] and g1 = finish_metaindex_grows [OF 2] and g2 = finish_index_grows [OF 3]
    and g3 = finish_footer_grows [where r = r3 and m = mh and i = ih, folded r(2)]
  have "length (data_of (table_Flush Append Flush compress b)) < 2 ^ 32"
    using prefix_length_le [OF g0] prefix_length_le [OF g1] prefix_length_le [OF g2] prefix_length_le [OF g3] small
    by (simp add: r0_def)
  from Flush_final [OF inv this] obtain T0 p0 where
    flushed: "table_inv (table_Flush Append Flush compress b) T0 p0 [] []" and ents: "entries T0 @ p0 = entries T @ pend @ cur"
    by blast
  have inv0: "table_inv r0 T0 p0 [] []" using flushed by (simp add: r0_def table_inv_def)
  from final_index [OF inv0] obtain T1 where T1: "entries T1 = entries T0 @ p0"
    "tags T1 = tags T0 @ tag_keys (bh_offset (pending_handle r0)) p0" "index_ok compress (data_of r0) T1 {}"
    "separated_by (opt_FindShortestSeparator opts) T1 []" "distinct (offsets_of T1)"
    "(if pending_index_entry r0
     then builder_Add (block_restart_interval (index_block_options r0)) (index_block r0)
       (opt_FindShortSuccessor (tb_options r0) (tb_last_key r0)) (BlockHandle_EncodeTo (pending_handle r0) [])
     else index_block r0) = fill 1 (index_entries T1)" by blast
  have i0: "table_file_ok r0" "tb_options r0 = opts" "filter_ok (filter_block r0) (tb_offset r0) (tags T1)"
    using inv0 by (simp_all add: table_inv_def T1(2))
  note f1 = finish_filter_good [OF i0 1]
  have l1: "table_file_ok r1" "tb_options r1 = opts" using f1(1) i0(2) by (simp_all add: later_def)
  note f2 = finish_metaindex_good [OF l1 2]
  have l2: "table_file_ok r2" "later r0 r2" using f2(1) builder_later_trans [OF f1(1)] by (simp_all add: later_def)
  have "table_file_ok r3 \<and> prefix (data_of r2) (data_of r3) \<and> block_at compress (data_of r3) ih (build_block 1 (index_entries T1))"
    by (rule finish_index_good [OF l2(1) 3]) (use T1(6) l2(2) in \<open>simp add: later_def split: if_splits\<close>)
  note f3 = this
  note f4 = finish_footer_good [where m = mh and i = ih, of r3, folded r(2) footer_def]
  show "s = Status_OK" using f3 f4(1) r(1) by simp
  have p0: "prefix (data_of r0) (data_of r)" "prefix (data_of r1) (data_of r)" "prefix (data_of r2) (data_of r)"
    using g0 g1 g2 g3 by (meson prefix_order.trans)+
  have "table_layout compress (data_of r) footer T1"
    unfolding table_layout_def
  proof (intro conjI)
    show "length (data_of r) < 2 ^ 32" by (rule small)
    show "\<exists>pre. data_of r = pre @ Footer_EncodeTo footer []" using f3 f4(2) by blast
    show "keys_ok (entries T1)" using inv0 by (simp add: table_inv_def T1(1))
    show "index_ok compress (data_of r) T1 {}" by (rule index_ok_prefix [OF T1(3) p0(1)])
    show "separated_by (opt_FindShortestSeparator opts) T1 []" "distinct (offsets_of T1)" by (rule T1(4,5))+
    show "block_at compress (data_of r) (index_handle footer) (build_block 1 (index_entries T1))"
      using block_at_prefix g3 f3 by (auto simp: footer_def)
    show "case opt_filter_policy opts of None \<Rightarrow> True
      | Some p \<Rightarrow> \<exists>h fb. filter_inv p fb (tags T1) \<and> block_at compress (data_of r) h (fst (filter_Finish p fb)) \<and>
          block_at compress (data_of r) (metaindex_handle footer)
            (build_block (block_restart_interval opts) [(filter_key p, BlockHandle_EncodeTo h [])])"
    proof (cases "opt_filter_policy opts")
      case (Some p)
      from f1(2) [OF Some] f2(2) [OF Some] block_at_prefix [OF _ p0(2)] block_at_prefix [OF _ p0(3)]
      show ?thesis by (simp add: Some footer_def) blast
    qed simp
  qed
  then show "\<exists>footer T'. table_layout compress (data_of r) footer T' \<and> entries T' = entries T @ pend @ cur"
    using T1(1) ents by auto
qed

text \<open>The whole: a new builder, its keys, and the end.\<close>

definition build_table :: "'f \<Rightarrow> (slice \<times> slice) list \<Rightarrow> Status \<times> 'f TableBuilder" where
  "build_table f kvs = table_Finish Append Flush compress (add_all (new_TableBuilder opts f) kvs)"

end

end
