(* ===== verification/LDB_Table_Correct.thy ===== *)
theory LDB_Table_Correct
  imports LDB_TableBuilder_Correct
begin

text \<open>
  A table that was built is opened and read: a lookup gives the entry of its key, through the index, the
  filter and the cache of blocks.
\<close>

section \<open>Seeking in a built block\<close>

abbreviation below :: "(slice \<Rightarrow> slice \<Rightarrow> int) \<Rightarrow> slice \<Rightarrow> slice \<times> slice \<Rightarrow> bool" where
  "below cmp target \<equiv> \<lambda>(k, _). cmp k target < 0"

text \<open>The iterator stands at the first of the entries \<open>kvs\<close>, or nowhere.\<close>

definition stands_at :: "NewIterator \<Rightarrow> (slice \<times> slice) list \<Rightarrow> bool" where
  "stands_at it kvs \<longleftrightarrow> the_status it = Status_OK \<and>
     (case kvs of
        [] \<Rightarrow> \<not> it_Valid it
      | (k, v) # _ \<Rightarrow> it_Valid it \<and> the_key it = Some k \<and> the_value it = Some v)"

lemma stands_at_read:
  assumes "stands_at it kvs"
  shows "(if it_Valid it then do { k \<leftarrow> the_key it; v \<leftarrow> the_value it; Some (Some (k, v)) } else Some None) =
      Some (case kvs of [] \<Rightarrow> None | (k, v) # _ \<Rightarrow> Some (k, v))" and "the_status it = Status_OK"
  using assms by (cases kvs; auto simp: stands_at_def)+

lemma it_Seek_built:
  assumes "0 < interval" "length (build_block interval kvs) < 2 ^ 32"
    and "key_order ok cmp" "sorted_wrt (\<lambda>a b. cmp a b < 0) (map fst kvs)" "\<forall>k \<in> fst ` set kvs. ok k" "ok target"
  shows "\<exists>it. it_Seek cmp (block_NewIterator (new_Block (build_block interval kvs))) target = Some it \<and>
    stands_at it (dropWhile (below cmp target) kvs)"
proof -
  obtain es rs it where b: "block_ok es rs" "map snd es = kvs" "block_NewIterator (new_Block (build_block interval kvs)) = BlockIterator it"
      "over es rs it" "it_status it = Status_OK"
    by (rule built [OF assms(1,2)])
  let ?P = "\<lambda>e. cmp (key_of e) target < 0"
  let ?n = "length (takeWhile ?P es)"
  have "sorted_wrt (\<lambda>a b. cmp a b < 0) (map key_of es)" "\<forall>e \<in> set es. ok (key_of e)"
    using assms(4,5) by (auto simp: b(2) [symmetric] comp_def sorted_wrt_map)
  then obtain a where a: "iter_Seek cmp it target = Some a" "at_entry es rs it ?n a"
    using seek_built [OF b(1,4) assms(3) _ _ assms(6)] by blast
  have dw: "dropWhile (below cmp target) kvs = map snd (drop ?n es)"
    by (simp add: b(2) [symmetric] dropWhile_map comp_def split_beta dropWhile_eq_drop [of ?P es])
  have "stands_at (BlockIterator a) (map snd (drop ?n es))"
  proof (cases "?n < length es")
    case True
    then have "over es rs a" "standing es a ?n" using a(2) by (simp_all add: at_entry_def)
    from standing_Valid [OF b(1) this] this(2) a(2) b(5) True show ?thesis
      by (simp add: stands_at_def Cons_nth_drop_Suc [OF True, symmetric] at_entry_def standing_def split: prod.split)
  next
    case False
    then show ?thesis using a(2) b(5) by (simp add: stands_at_def at_entry_def)
  qed
  then show ?thesis using a(1) b(3) by (simp add: dw)
qed

section \<open>The cache of blocks\<close>

text \<open>
  What a lookup finds is the last block that was inserted under this key, if it is still there, and looking up
  changes no contents.
\<close>

locale block_cache =
  fixes cache_ok :: "'c \<Rightarrow> bool" and lookup :: "'c \<Rightarrow> slice \<Rightarrow> Block option \<times> 'c" and insert_block :: "'c \<Rightarrow> slice \<Rightarrow> Block \<Rightarrow> nat \<Rightarrow> 'c"
  assumes lookup_keeps: "cache_ok c \<Longrightarrow> cache_ok (snd (lookup c k)) \<and> fst (lookup (snd (lookup c k)) k') = fst (lookup c k')"
    and insert_finds: "cache_ok c \<Longrightarrow> cache_ok (insert_block c k b n) \<and>
      (fst (lookup (insert_block c k b n) k') = Some b' \<longrightarrow> k' = k \<and> b' = b \<or> k' \<noteq> k \<and> fst (lookup c k') = Some b')"

section \<open>Opening and looking up\<close>

text \<open>
  An entry under \<open>k'\<close> is findable by \<open>k\<close> if no separator comes between them and no filter that knows \<open>k'\<close>
  denies \<open>k\<close>.
\<close>

definition findable :: "(slice \<Rightarrow> bool) \<Rightarrow> Options \<Rightarrow> slice \<Rightarrow> slice \<Rightarrow> bool" where
  "findable ok opts k' k \<longleftrightarrow>
     (\<forall>a. ok a \<and> opt_Compare opts a k < 0 \<and> opt_Compare opts a k' < 0 \<longrightarrow>
        opt_Compare opts (opt_FindShortestSeparator opts a k') k < 0) \<and>
     (\<forall>p keys. opt_filter_policy opts = Some p \<and> list_all ok keys \<and> k' \<in> set keys \<longrightarrow>
        fp_KeyMayMatch p k (fp_CreateFilter p keys))"

text \<open>What a lookup may save: nothing or the first entry from \<open>k\<close> on, and that one if it is findable.\<close>

definition found :: "(slice \<Rightarrow> bool) \<Rightarrow> Options \<Rightarrow> (slice \<times> slice) list \<Rightarrow> slice \<Rightarrow> (slice \<times> slice) option \<Rightarrow> bool" where
  "found ok opts kvs k saved \<longleftrightarrow>
     (case dropWhile (below (opt_Compare opts) k) kvs of
        [] \<Rightarrow> saved = None
      | (k', v) # _ \<Rightarrow> (saved = None \<or> saved = Some (k', v)) \<and> (findable ok opts k' k \<longrightarrow> saved = Some (k', v)))"

locale table_reading = table_options ok opts + random_access_file data Read + compressor compress uncompress
  for ok :: "slice \<Rightarrow> bool" and opts :: Options and data :: "byte list"
    and Read :: "u64 \<Rightarrow> u64 \<Rightarrow> (Status \<times> slice \<times> bool) option" and compress uncompress :: "slice \<Rightarrow> slice option"
begin

lemma read_at:
  assumes "table_layout compress data footer T" "block_at compress data h raw"
  shows "length raw < 2 ^ 32" and "\<exists>c. ReadBlock Read uncompress verify h = Some (Status_OK, c) \<and> bc_data c = raw"
  using ReadBlock_at [OF compressor_axioms random_access_file_axioms _ assms(2)] assms(1) by (auto simp: table_layout_def)

text \<open>The table of the blocks \<open>T\<close>.\<close>

definition opened :: "Table \<Rightarrow> indexed list \<Rightarrow> bool" where
  "opened rep T \<longleftrightarrow> tab_options rep = opts \<and> tab_index_block rep = new_Block (build_block 1 (index_entries T)) \<and>
     (case opt_filter_policy opts of
        None \<Rightarrow> tab_filter rep = None
      | Some p \<Rightarrow> (\<exists>fb. filter_inv p fb (tags T) \<and> length (fst (filter_Finish p fb)) < 2 ^ 32 \<and>
          tab_filter rep = Some (p, new_FilterBlockReader (fst (filter_Finish p fb)))))"

lemma ReadMeta_layout:
  assumes "table_layout compress data footer T" "tab_options rep = opts" "tab_filter rep = None"
  shows "\<exists>flt. ReadMeta Read uncompress rep footer = Some (rep\<lparr>tab_filter := flt\<rparr>) \<and>
     (case opt_filter_policy opts of
        None \<Rightarrow> flt = None
      | Some p \<Rightarrow> (\<exists>fb. filter_inv p fb (tags T) \<and> length (fst (filter_Finish p fb)) < 2 ^ 32 \<and>
          flt = Some (p, new_FilterBlockReader (fst (filter_Finish p fb)))))"
proof (cases "opt_filter_policy opts")
  case None
  then show ?thesis using assms(2,3) by (intro exI [of _ None]) (simp add: ReadMeta_def)
next
  case (Some p)
  let ?c = "fst \<circ> filter_Finish p" and ?kvs = "\<lambda>h. [(filter_key p, BlockHandle_EncodeTo h [])]"
  obtain h fb where l: "filter_inv p fb (tags T)" "block_at compress data h (?c fb)"
    "block_at compress data (metaindex_handle footer) (build_block (block_restart_interval opts) (?kvs h))"
    using assms(1) Some by (auto simp: table_layout_def)
  obtain mc where mc: "ReadBlock Read uncompress (paranoid_checks opts) (metaindex_handle footer) = Some (Status_OK, mc)"
    "bc_data mc = build_block (block_restart_interval opts) (?kvs h)" using read_at(2) [OF assms(1) l(3)] by blast
  obtain it where it: "it_Seek bytewise_Compare (block_NewIterator (new_Block (bc_data mc))) (filter_key p) = Some it"
    "stands_at it (?kvs h)"
    using it_Seek_built [OF interval read_at(1) [OF assms(1) l(3)] bytewise.key_order_axioms, of "filter_key p"]
    by (auto simp: mc(2) bytewise.compare_refl)
  obtain fc where fc: "ReadBlock Read uncompress (paranoid_checks opts) h = Some (Status_OK, fc)" "bc_data fc = ?c fb"
    using read_at(2) [OF assms(1) l(2)] by blast
  have "ReadFilter Read uncompress p rep (BlockHandle_EncodeTo h []) = Some (rep\<lparr>tab_filter := Some (p, new_FilterBlockReader (?c fb))\<rparr>)"
    using BlockHandle_Decode_Encode [of new_BlockHandle h "[]"] fc by (simp add: ReadFilter_def assms(2) status_ok_eq)
  then show ?thesis
    using l(1) read_at(1) [OF assms(1) l(2)] mc(1) it
    by (intro exI [of _ "Some (p, new_FilterBlockReader (?c fb))"])
      (auto simp: ReadMeta_def Some assms(2) status_ok_eq stands_at_def slice_eq_iff)
qed

lemma Open_layout:
  assumes "table_layout compress data footer T"
  shows "\<exists>rep. Table_Open Read uncompress new_id opts (of_nat (length data)) = Some (Status_OK, Some rep) \<and> opened rep T"
proof -
  obtain pre where pre: "data = pre @ Footer_EncodeTo footer []" using assms by (auto simp: table_layout_def)
  have len: "length data = length pre + kEncodedLength" by (simp add: pre Footer_Decode_Encode(2))
  have u1: "unat (of_nat (length data) :: u64) = length data" using assms by (simp add: table_layout_def unat_of_nat)
  have u2: "unat (of_nat kEncodedLength :: u64) = kEncodedLength" by (simp add: kEncodedLength_def kMaxEncodedLength_def)
  have "(of_nat kEncodedLength :: u64) \<le> of_nat (length data)" unfolding word_le_nat_alt u1 u2 by (simp add: len)
  from unat_sub [OF this] have "unat (of_nat (length data) - of_nat kEncodedLength :: u64) = length pre"
    unfolding u1 u2 by (simp add: len)
  note u = u1 u2 this
  have "unat (of_nat (length data) - of_nat kEncodedLength :: u64) + unat (of_nat kEncodedLength :: u64) \<le> length data"
    unfolding u by (simp add: len)
  from read_inside [OF this] obtain ib where
    rd: "Read (of_nat (length data) - of_nat kEncodedLength) (of_nat kEncodedLength) =
      Some (Status_OK, take kEncodedLength (drop (length pre) data), ib)" unfolding u by blast
  have tail: "take kEncodedLength (drop (length pre) data) = Footer_EncodeTo footer []" "\<not> length data < kEncodedLength"
    by (simp_all add: pre Footer_Decode_Encode(2))
  have foot: "Footer_DecodeFrom g (Footer_EncodeTo footer []) = Some (Status_OK, footer, [])" for g
    using Footer_Decode_Encode(1) [of g footer "[]"] by simp
  have "block_at compress data (index_handle footer) (build_block 1 (index_entries T))"
    using assms by (simp add: table_layout_def)
  from read_at(2) [OF assms this] obtain ic where ic: "ReadBlock Read uncompress (paranoid_checks opts) (index_handle footer) = Some (Status_OK, ic)"
    "bc_data ic = build_block 1 (index_entries T)" by blast
  define rep where "rep = \<lparr>tab_options = opts, cache_id = new_id, tab_filter = None,
     tab_metaindex_handle = metaindex_handle footer, tab_index_block = new_Block (bc_data ic)\<rparr>"
  obtain flt where flt: "ReadMeta Read uncompress rep footer = Some (rep\<lparr>tab_filter := flt\<rparr>)"
     "case opt_filter_policy opts of
        None \<Rightarrow> flt = None
      | Some p \<Rightarrow> (\<exists>fb. filter_inv p fb (tags T) \<and> length (fst (filter_Finish p fb)) < 2 ^ 32 \<and>
          flt = Some (p, new_FilterBlockReader (fst (filter_Finish p fb))))"
    using ReadMeta_layout [OF assms, of rep] by (auto simp: rep_def)
  have "Table_Open Read uncompress new_id opts (of_nat (length data)) = Some (Status_OK, Some (rep\<lparr>tab_filter := flt\<rparr>))"
    by (simp add: Table_Open_def u rd tail foot ic(1) status_ok_eq rep_def [symmetric] flt(1))
  moreover have "opened (rep\<lparr>tab_filter := flt\<rparr>) T" using flt(2) by (cases "opt_filter_policy opts") (simp_all add: opened_def rep_def ic(2))
  ultimately show ?thesis by blast
qed

text \<open>The cache holds no block but those of the table under the keys of their handles.\<close>

definition coherent :: "('c \<Rightarrow> slice \<Rightarrow> Block option \<times> 'c) \<Rightarrow> Table \<Rightarrow> indexed list \<Rightarrow> 'c \<Rightarrow> bool" where
  "coherent lookup rep T c \<longleftrightarrow>
     (\<forall>(_, h, es) \<in> set T. \<forall>b. fst (lookup c (block_cache_key rep h)) = Some b \<longrightarrow>
        b = new_Block (build_block (block_restart_interval opts) es))"

lemma block_cache_key_eq: "block_cache_key rep h = block_cache_key rep h' \<longleftrightarrow> bh_offset h = bh_offset h'"
proof -
  have "EncodeFixed64 v = EncodeFixed64 w \<longleftrightarrow> v = w" for v w by (metis DecodeFixed_Encode(2) option.inject)
  then show ?thesis by (simp add: block_cache_key_def)
qed

text \<open>
  A property \<open>I\<close> of the cache that makes it coherent with the table, and that the calls of the table keep.
\<close>

definition kept_by_table ::
  "('c \<Rightarrow> bool) \<Rightarrow> ('c \<Rightarrow> slice \<Rightarrow> Block option \<times> 'c) \<Rightarrow> ('c \<Rightarrow> slice \<Rightarrow> Block \<Rightarrow> nat \<Rightarrow> 'c) \<Rightarrow> Table \<Rightarrow> indexed list \<Rightarrow> ('c \<Rightarrow> bool) \<Rightarrow> bool" where
  "kept_by_table cache_ok lookup insert_block rep T I \<longleftrightarrow>
     (\<forall>c. cache_ok c \<and> I c \<longrightarrow> coherent lookup rep T c \<and> (\<forall>k. I (snd (lookup c k))) \<and>
        (\<forall>(_, h, es) \<in> set T. \<forall>n.
           I (insert_block c (block_cache_key rep h) (new_Block (build_block (block_restart_interval opts) es)) n)))"

lemma kept_by_tableD:
  assumes "kept_by_table cache_ok lookup insert_block rep T I" "cache_ok c" "I c"
  shows "coherent lookup rep T c" "I (snd (lookup c k))"
    "(sep, h, es) \<in> set T \<Longrightarrow> I (insert_block c (block_cache_key rep h) (new_Block (build_block (block_restart_interval opts) es)) n)"
  using assms unfolding kept_by_table_def by fastforce+

lemma coherent_kept:
  assumes layout: "table_layout compress data footer T" and cache: "block_cache cache_ok lookup insert_block"
  shows "kept_by_table cache_ok lookup insert_block rep T (coherent lookup rep T)"
proof -
  have "coherent lookup rep T (snd (lookup c k))" if "cache_ok c" "coherent lookup rep T c" for c k
    using block_cache.lookup_keeps [OF cache that(1), of k] that(2) by (simp add: coherent_def)
  moreover have "coherent lookup rep T (insert_block c (block_cache_key rep h) (new_Block (build_block (block_restart_interval opts) es)) n)"
    if c: "cache_ok c" "coherent lookup rep T c" and mem: "(sep, h, es) \<in> set T" for c sep h es n
  proof -
    let ?k = "block_cache_key rep h" and ?b = "new_Block (build_block (block_restart_interval opts) es)"
    note ins = block_cache.insert_finds [OF cache c(1), of ?k ?b n]
    have "b' = new_Block (build_block (block_restart_interval opts) es')"
      if T': "(sep', h', es') \<in> set T" and f: "fst (lookup (insert_block c ?k ?b n) (block_cache_key rep h')) = Some b'" for sep' h' es' b'
    proof (cases "block_cache_key rep h' = ?k")
      case True
      then have "bh_offset h' = bh_offset h" by (simp add: block_cache_key_eq)
      moreover have "distinct (offsets_of T)" using layout by (simp add: table_layout_def)
      ultimately have "(sep', h', es') = (sep, h, es)" using T' mem by (auto simp: distinct_map inj_on_def)
      then show ?thesis using ins f True by auto
    next
      case False
      then have "fst (lookup c (block_cache_key rep h')) = Some b'" using ins f by auto
      then show ?thesis using c(2) T' by (auto simp: coherent_def)
    qed
    then show ?thesis by (auto simp: coherent_def)
  qed
  ultimately show ?thesis by (auto simp: kept_by_table_def)
qed

lemma BlockReader_layout:
  assumes layout: "table_layout compress data footer T" and mem: "(sep, h, es) \<in> set T" and opened: "opened rep T"
    and cache: "block_cache cache_ok lookup insert_block" "kept_by_table cache_ok lookup insert_block rep T I"
      "case_option True (\<lambda>c. cache_ok c \<and> I c) c"
  shows "\<exists>c'. BlockReader lookup insert_block Read uncompress rep ropts (BlockHandle_EncodeTo h []) c =
      Some (block_NewIterator (new_Block (build_block (block_restart_interval opts) es)), c') \<and>
    case_option True (\<lambda>c. cache_ok c \<and> I c) c' \<and> (c' = None \<longleftrightarrow> c = None)"
proof -
  let ?b = "new_Block (build_block (block_restart_interval opts) es)"
  have dec: "BlockHandle_DecodeFrom new_BlockHandle (BlockHandle_EncodeTo h []) = (Status_OK, h, [])"
    using BlockHandle_Decode_Encode [of new_BlockHandle h "[]"] by simp
  have "block_at compress data h (build_block (block_restart_interval opts) es)"
    using layout mem by (auto simp: table_layout_def index_ok_def stored_def)
  from read_at(2) [OF layout this] obtain bc where
    bc: "ReadBlock Read uncompress (verify_checksums ropts) h = Some (Status_OK, bc)" "new_Block (bc_data bc) = ?b" by metis
  show ?thesis
  proof (cases c)
    case None
    then show ?thesis using bc by (simp add: BlockReader_def dec status_ok_eq)
  next
    case (Some c1)
    let ?k = "block_cache_key rep h"
    obtain f c2 where l: "lookup c1 ?k = (f, c2)" by fastforce
    have c1: "cache_ok c1" "I c1" using cache(3) Some by simp_all
    have c2: "cache_ok c2" "I c2"
      using block_cache.lookup_keeps [OF cache(1) c1(1), of ?k] kept_by_tableD(2) [OF cache(2) c1, of ?k] by (simp_all add: l)
    show ?thesis
    proof (cases f)
      case None
      have "cache_ok (insert_block c2 ?k ?b n) \<and> I (insert_block c2 ?k ?b n)" for n
        using block_cache.insert_finds [OF cache(1) c2(1), of ?k ?b n] kept_by_tableD(3) [OF cache(2) c2 mem] by blast
      then show ?thesis using bc None c2 by (simp add: BlockReader_def dec status_ok_eq Some l Let_def)
    next
      case (Some b)
      then have "b = ?b" using kept_by_tableD(1) [OF cache(2) c1] mem l by (auto simp: coherent_def)
      then show ?thesis using \<open>c = Some c1\<close> Some c2 by (simp add: BlockReader_def dec status_ok_eq l)
    qed
  qed
qed

lemma layout_block:
  assumes "table_layout compress data footer T" "(sep, h, es) \<in> set T"
  shows "ok sep" and "es \<noteq> []" and "set es \<subseteq> set (entries T)"
    and "\<forall>k \<in> fst ` set es. ok k \<and> opt_Compare opts k sep \<le> 0"
    and "block_at compress data h (build_block (block_restart_interval opts) es)"
proof -
  show sub: "set es \<subseteq> set (entries T)" using assms(2) by (force simp: entries_def)
  have "(\<lambda>(sep, h, c). stored compress data h c \<and> ok sep \<and> (\<forall>k \<in> fst ` set c. opt_Compare opts k sep \<le> 0)) (sep, h, es)"
    using assms unfolding table_layout_def index_ok_def by blast
  then show "ok sep" "es \<noteq> []" "block_at compress data h (build_block (block_restart_interval opts) es)"
    "\<forall>k \<in> fst ` set es. ok k \<and> opt_Compare opts k sep \<le> 0"
    using sub assms(1) by (auto simp: stored_def table_layout_def keys_ok_def)
qed

text \<open>The keys of the index are in the order of the comparator.\<close>

lemma index_sorted:
  assumes "table_layout compress data footer T"
  shows "sorted_wrt (\<lambda>a b. opt_Compare opts a b < 0) (map fst (index_entries T))" and "\<forall>k \<in> fst ` set (index_entries T). ok k"
proof -
  have i: "index_ok compress data T {}" using assms by (simp add: table_layout_def)
  have fst: "map fst (index_entries T) = map fst T" by (auto simp: index_entries_def)
  have "sorted_wrt (\<lambda>(sep, _, _) (_, _, c). \<forall>k \<in> fst ` set c. opt_Compare opts sep k < 0) T" using i by (simp add: index_ok_def)
  then have "sorted_wrt (\<lambda>x y. opt_Compare opts (fst x) (fst y) < 0) T"
  proof (rule sorted_wrt_mono_rel [rotated])
    fix x y assume xy: "x \<in> set T" "y \<in> set T" and less: "(\<lambda>(sep, _, _) (_, _, c). \<forall>k \<in> fst ` set c. opt_Compare opts sep k < 0) x y"
    obtain s h es where y: "y = (s, h, es)" by (cases y)
    obtain s0 h0 es0 where x: "x = (s0, h0, es0)" by (cases x)
    note tx = layout_block [OF assms xy(1) [unfolded x]] and ty = layout_block [OF assms xy(2) [unfolded y]]
    then have hd: "fst (hd es) \<in> fst ` set es" by simp
    moreover have "opt_Compare opts s0 (fst (hd es)) < 0" using less hd unfolding x y by blast
    ultimately show "opt_Compare opts (fst x) (fst y) < 0"
      using compare_less_le_trans [of s0 "fst (hd es)" s] tx(1) ty(1,4) by (simp add: x y)
  qed
  then show "sorted_wrt (\<lambda>a b. opt_Compare opts a b < 0) (map fst (index_entries T))" by (simp add: fst sorted_wrt_map)
  show "\<forall>k \<in> fst ` set (index_entries T). ok k" using layout_block(1) [OF assms] by (auto simp: index_entries_def)
qed

lemma filter_may_match:
  assumes "opened rep T" "tab_filter rep = Some (p, reader)" "(sep, h, es) \<in> set T" "(k', v) \<in> set es" "keys_ok (entries T)"
  shows "\<exists>keys. opt_filter_policy opts = Some p \<and> k' \<in> set keys \<and> list_all ok keys \<and>
    filter_KeyMayMatch p reader (bh_offset h) k = Some (fp_KeyMayMatch p k (fp_CreateFilter p keys))"
proof -
  obtain fb where fb: "opt_filter_policy opts = Some p" "filter_inv p fb (tags T)" "length (fst (filter_Finish p fb)) < 2 ^ 32"
    "reader = new_FilterBlockReader (fst (filter_Finish p fb))"
    using assms(1,2) by (auto simp: opened_def split: option.splits)
  have "(bh_offset h, k') \<in> set (tags T)" using assms(3,4) by (force simp: tags_def tag_keys_def)
  from filter_read [OF fb(2) this fb(3), of k] obtain keys where keys: "k' \<in> set keys" "set keys \<subseteq> snd ` set (tags T)"
    "filter_KeyMayMatch p reader (bh_offset h) k = Some (fp_KeyMayMatch p k (fp_CreateFilter p keys))"
    by (auto simp: fb(4))
  have "snd ` set (tags T) = fst ` set (entries T)" by (force simp: tags_def tag_keys_def entries_def)
  then have "list_all ok keys" using keys(2) assms(5) by (auto simp: keys_ok_def list_all_iff)
  then show ?thesis using fb(1) keys by blast
qed

text \<open>The index leads to the block in which the first entry from \<open>k\<close> on is, or to the one before it.\<close>

lemma index_seek:
  assumes layout: "table_layout compress data footer T" and k: "ok k"
  shows "case dropWhile (below (opt_Compare opts) k) (index_entries T) of
      [] \<Rightarrow> dropWhile (below (opt_Compare opts) k) (entries T) = []
    | (sep, enc) # _ \<Rightarrow> (\<exists>h es T2. enc = BlockHandle_EncodeTo h [] \<and> (sep, h, es) \<in> set T \<and> opt_Compare opts sep k \<ge> 0 \<and>
        dropWhile (below (opt_Compare opts) k) (entries T) = dropWhile (below (opt_Compare opts) k) es @ entries T2 \<and>
        (entries T2 \<noteq> [] \<longrightarrow> sep = opt_FindShortestSeparator opts (fst (last es)) (fst (hd (entries T2))) \<and>
           opt_Compare opts (fst (last es)) (fst (hd (entries T2))) < 0))"
proof -
  let ?P = "below (opt_Compare opts) k"
  have i: "index_ok compress data T {}" and ks: "keys_ok (entries T)" and sb: "separated_by (opt_FindShortestSeparator opts) T []"
    using layout by (simp_all add: table_layout_def)
  have below_block: "\<forall>e \<in> set es. ?P e" if "(sep, h, es) \<in> set T" "opt_Compare opts sep k < 0" for sep h es
  proof
    fix e assume e: "e \<in> set es"
    have "opt_Compare opts (fst e) sep \<le> 0" "ok sep" "ok (fst e)"
      using layout_block [OF layout that(1)] e by auto
    then show "?P e" using compare_le_less_trans [OF _ _ k] that(2) by (auto simp: split_beta)
  qed
  define T1 where "T1 = takeWhile (\<lambda>x. opt_Compare opts (fst x) k < 0) T"
  define T' where "T' = dropWhile (\<lambda>x. opt_Compare opts (fst x) k < 0) T"
  have T: "T = T1 @ T'" by (simp add: T1_def T'_def)
  have index: "dropWhile ?P (index_entries T) = index_entries T'"
    by (simp add: index_entries_def T'_def dropWhile_map comp_def split_beta)
  have ents: "entries T = entries T1 @ entries T'" by (simp add: T entries_def)
  have "?P e" if e: "e \<in> set (entries T1)" for e
  proof -
    obtain sep h es where m: "(sep, h, es) \<in> set T1" "e \<in> set es" using e by (auto simp: entries_def)
    then have "(sep, h, es) \<in> set T" "opt_Compare opts sep k < 0" by (auto simp: T1_def dest: set_takeWhileD)
    then show ?thesis using below_block m(2) by blast
  qed
  then have drop: "dropWhile ?P (entries T) = dropWhile ?P (entries T')" unfolding ents by (subst dropWhile_append2) auto
  show ?thesis
  proof (cases T')
    case Nil
    then show ?thesis unfolding index drop by simp
  next
    case (Cons x T2)
    obtain sep h es where x: "x = (sep, h, es)" by (cases x)
    have mem: "(sep, h, es) \<in> set T" by (simp add: T Cons x)
    have ge: "opt_Compare opts sep k \<ge> 0" using Cons by (simp add: T'_def x dropWhile_eq_Cons_conv)
    have "sorted_wrt (\<lambda>(sep, _, _) (_, _, c). \<forall>k \<in> fst ` set c. opt_Compare opts sep k < 0) (T1 @ x # T2)"
      using i by (simp add: index_ok_def T Cons)
    then have after: "opt_Compare opts sep k' < 0" if "k' \<in> fst ` set (entries T2)" for k'
      using that by (auto simp: sorted_wrt_append x entries_def)
    have split: "entries T = entries T1 @ es @ entries T2" by (simp add: T Cons x entries_def)
    have "\<not> ?P e" if e: "e \<in> set (entries T2)" for e
    proof -
      have "opt_Compare opts sep (fst e) < 0" using after e by blast
      moreover have "ok (fst e)" "ok sep" using e ks layout_block(1) [OF layout mem] by (auto simp: keys_ok_def split)
      ultimately have "opt_Compare opts sep (fst e) < 0" "ok (fst e)" "ok sep" by blast+
      then show ?thesis using compare_less_trans [OF _ _ k, of sep "fst e"] ge by (auto simp: split_beta)
    qed
    then have "dropWhile ?P (entries T2) = entries T2" by (cases "entries T2") auto
    moreover have "entries T' = es @ entries T2" by (simp add: Cons x entries_def)
    ultimately have "dropWhile ?P (entries T) = dropWhile ?P es @ entries T2"
      unfolding drop by (cases "\<exists>e \<in> set es. \<not> ?P e") (auto simp: dropWhile_append1 dropWhile_append2)
    moreover have lh: "opt_Compare opts (fst (last es)) (fst (hd (entries T2))) < 0" if "entries T2 \<noteq> []"
    proof -
      have "sorted_wrt (\<lambda>a b. opt_Compare opts a b < 0) (map fst es @ map fst (entries T2))"
        using ks by (simp add: keys_ok_def split sorted_wrt_append)
      moreover have "last es \<in> set es" "hd (entries T2) \<in> set (entries T2)" using layout_block(2) [OF layout mem] that by simp_all
      ultimately show ?thesis by (simp add: sorted_wrt_append)
    qed
    moreover have "separated_by f (T1 @ x # T2) [] \<Longrightarrow> entries T2 \<noteq> [] \<Longrightarrow> sep = f (fst (last es)) (fst (hd (entries T2)))" for f
      by (induction T1) (auto simp: x)
    ultimately have "dropWhile ?P (entries T) = dropWhile ?P es @ entries T2 \<and>
        (entries T2 \<noteq> [] \<longrightarrow> sep = opt_FindShortestSeparator opts (fst (last es)) (fst (hd (entries T2))) \<and>
           opt_Compare opts (fst (last es)) (fst (hd (entries T2))) < 0)"
      using sb lh by (simp add: T Cons)
    moreover have "index_entries T' = (sep, BlockHandle_EncodeTo h []) # index_entries T2" by (simp add: Cons x index_entries_def)
    ultimately show ?thesis using mem ge unfolding index by auto
  qed
qed

lemma InternalGet_layout:
  assumes layout: "table_layout compress data footer T" and opened: "opened rep T" and k: "ok k"
    and cache: "block_cache cache_ok lookup insert_block" "kept_by_table cache_ok lookup insert_block rep T I"
      "case_option True (\<lambda>c. cache_ok c \<and> I c) c"
  shows "\<exists>saved c'. InternalGet lookup insert_block Read uncompress rep ropts k c = Some (Status_OK, saved, c') \<and>
    found ok opts (entries T) k saved \<and>
    case_option True (\<lambda>c. cache_ok c \<and> I c) c' \<and> (c' = None \<longleftrightarrow> c = None)"
proof -
  let ?P = "below (opt_Compare opts) k"
  have ks: "keys_ok (entries T)" using layout by (simp add: table_layout_def)
  have rep: "tab_options rep = opts" "tab_index_block rep = new_Block (build_block 1 (index_entries T))"
    using opened by (simp_all add: opened_def)
  have "block_at compress data (index_handle footer) (build_block 1 (index_entries T))" using layout by (simp add: table_layout_def)
  from it_Seek_built [OF _ read_at(1) [OF layout this] key_order_axioms index_sorted [OF layout] k] obtain ii where
    ii: "it_Seek (opt_Compare opts) (block_NewIterator (tab_index_block rep)) k = Some ii"
      "stands_at ii (dropWhile ?P (index_entries T))"
    by (auto simp: rep(2))
  note seek = index_seek [OF layout k]
  show ?thesis
  proof (cases "dropWhile ?P (index_entries T)")
    case Nil
    have "\<not> it_Valid ii" "the_status ii = Status_OK" using ii(2) unfolding stands_at_def Nil by simp_all
    then have "InternalGet lookup insert_block Read uncompress rep ropts k c = Some (Status_OK, None, c)"
      using ii(1) by (simp add: InternalGet_def rep(1) status_ok_eq)
    moreover have none: "dropWhile ?P (entries T) = []" using seek unfolding Nil by simp
    have "found ok opts (entries T) k None" unfolding found_def none by simp
    ultimately show ?thesis using cache(3) by blast
  next
    case (Cons x xs)
    obtain sep enc where x: "x = (sep, enc)" by (cases x)
    obtain h es T2 where s: "enc = BlockHandle_EncodeTo h []" "(sep, h, es) \<in> set T" "opt_Compare opts sep k \<ge> 0"
      "dropWhile ?P (entries T) = dropWhile ?P es @ entries T2"
      "entries T2 \<noteq> [] \<longrightarrow> sep = opt_FindShortestSeparator opts (fst (last es)) (fst (hd (entries T2))) \<and>
           opt_Compare opts (fst (last es)) (fst (hd (entries T2))) < 0"
      using seek by (auto simp: Cons x)
    have at: "it_Valid ii" "the_value ii = Some enc" "the_status ii = Status_OK" using ii(2) by (simp_all add: stands_at_def Cons x)
    have dec: "BlockHandle_DecodeFrom new_BlockHandle enc = (Status_OK, h, [])"
      using BlockHandle_Decode_Encode [of new_BlockHandle h "[]"] by (simp add: s(1))
    note blk = layout_block [OF layout s(2)]
    have es: "es \<noteq> []" "hd es \<in> set es" using blk(2) by simp_all
    have tail: "\<not> findable ok opts (fst (hd (entries T2))) k" if "dropWhile ?P es = []" "entries T2 \<noteq> []"
    proof
      assume f: "findable ok opts (fst (hd (entries T2))) k"
      have last: "last es \<in> set es" using es by simp
      then have "opt_Compare opts (fst (last es)) k < 0" "ok (fst (last es))"
        using that(1) blk(4) by (auto simp: split_beta)
      then have "opt_Compare opts sep k < 0" using f s(5) that(2) by (auto simp: findable_def)
      then show False using s(3) by simp
    qed
    have keys: "sorted_wrt (\<lambda>a b. opt_Compare opts a b < 0) (map fst es)" "\<forall>k \<in> fst ` set es. ok k"
    proof -
      obtain T1 T3 where "T = T1 @ (sep, h, es) # T3" using s(2) by (meson split_list)
      then have "entries T = entries T1 @ es @ entries T3" by (simp add: entries_def)
      then show "sorted_wrt (\<lambda>a b. opt_Compare opts a b < 0) (map fst es)" using ks by (simp add: keys_ok_def sorted_wrt_append)
      show "\<forall>k \<in> fst ` set es. ok k" using blk(4) by blast
    qed
    from it_Seek_built [OF interval read_at(1) [OF layout blk(5)] key_order_axioms keys k] obtain bi where
      bi: "it_Seek (opt_Compare opts) (block_NewIterator (new_Block (build_block (block_restart_interval opts) es))) k = Some bi"
        "stands_at bi (dropWhile ?P es)" by blast
    obtain c' where c': "BlockReader lookup insert_block Read uncompress rep ropts enc c =
        Some (block_NewIterator (new_Block (build_block (block_restart_interval opts) es)), c')"
      "case_option True (\<lambda>c. cache_ok c \<and> I c) c'" "c' = None \<longleftrightarrow> c = None"
      using BlockReader_layout [OF layout s(2) opened cache, of ropts] by (auto simp: s(1))
    define saved where "saved = (case dropWhile ?P es of [] \<Rightarrow> None | (k', v) # _ \<Rightarrow> Some (k', v))"
    note at_block = stands_at_read [OF bi(2), folded saved_def]
    have flt: "\<exists>keys. opt_filter_policy opts = Some p \<and> k' \<in> set keys \<and> list_all ok keys \<and>
        filter_KeyMayMatch p reader (bh_offset h) k = Some (fp_KeyMayMatch p k (fp_CreateFilter p keys))"
      if "tab_filter rep = Some (p, reader)" "(k', v) \<in> set es" for p reader k' v
      by (rule filter_may_match [OF opened that(1) s(2) that(2) ks])
    show ?thesis
    proof (cases "\<exists>p reader. tab_filter rep = Some (p, reader) \<and> filter_KeyMayMatch p reader (bh_offset h) k = Some False")
      case True
      then obtain p reader where p: "tab_filter rep = Some (p, reader)" "filter_KeyMayMatch p reader (bh_offset h) k = Some False" by blast
      have "InternalGet lookup insert_block Read uncompress rep ropts k c = Some (Status_OK, None, c)"
        by (simp add: InternalGet_def rep(1) ii(1) at dec p status_ok_eq)
      moreover have "found ok opts (entries T) k None"
      proof (cases "dropWhile ?P (entries T)")
        case Nil
        show ?thesis unfolding found_def Nil by simp
      next
        case (Cons y ys)
        have "\<not> findable ok opts (fst y) k"
        proof (cases "dropWhile ?P es")
          case Nil
          then have "entries T2 = y # ys" using s(4) Cons unfolding Nil by simp
          then show ?thesis using tail [OF Nil] by simp
        next
          case (Cons e es')
          then have "y = e" "(fst e, snd e) \<in> set es"
            using s(4) \<open>dropWhile ?P (entries T) = y # ys\<close> set_dropWhileD [of e ?P es] unfolding Cons by simp_all
          with flt [OF p(1) this(2)] p(2) show ?thesis by (auto simp: findable_def)
        qed
        then show ?thesis unfolding found_def Cons by (simp add: split_beta)
      qed
      ultimately show ?thesis using cache(3) by blast
    next
      case False
      have "(case tab_filter rep of
               None \<Rightarrow> Some False
             | Some (policy, reader) \<Rightarrow> map_option Not (filter_KeyMayMatch policy reader (bh_offset h) k)) = Some False"
      proof (cases "tab_filter rep")
        case (Some pr)
        obtain p reader where pr: "pr = (p, reader)" by (cases pr)
        from flt [of p reader "fst (hd es)" "snd (hd es)"] es(2) Some show ?thesis using False by (auto simp: pr)
      qed simp
      then have "InternalGet lookup insert_block Read uncompress rep ropts k c = Some (Status_OK, saved, c')"
        using at_block by (simp add: InternalGet_def rep(1) ii(1) at dec status_ok_eq c'(1) bi(1) cong: option.case_cong)
      moreover have "found ok opts (entries T) k saved"
      proof (cases "dropWhile ?P es")
        case Nil
        have "saved = None" unfolding saved_def Nil by simp
        moreover have rest: "dropWhile ?P (entries T) = entries T2" using s(4) unfolding Nil by simp
        ultimately show ?thesis using tail [OF Nil] unfolding found_def rest by (cases "entries T2") auto
      next
        case (Cons e es')
        then show ?thesis using s(4) by (simp add: found_def saved_def split_beta)
      qed
      ultimately show ?thesis using c'(2,3) by blast
    qed
  qed
qed

end

section \<open>The options of the program\<close>

text \<open>The bytewise comparator with any options, and a Bloom filter or none.\<close>

abbreviation bytewise_options :: "nat \<Rightarrow> nat \<Rightarrow> nat option \<Rightarrow> Options" where
  "bytewise_options sz interval bits \<equiv> new_Options\<lparr>block_size := sz, block_restart_interval := Suc interval,
     opt_filter_policy := map_option NewBloomFilterPolicy bits\<rparr>"

interpretation bytewise_table: table_options "\<lambda>_. True" "bytewise_options sz interval bits" for sz interval bits
proof (intro table_options.intro)
  show "comparator (\<lambda>_. True) (opt_Compare (bytewise_options sz interval bits))
      (opt_FindShortestSeparator (bytewise_options sz interval bits)) (opt_FindShortSuccessor (bytewise_options sz interval bits))"
    using bytewise.comparator_axioms by (simp add: new_Options_def)
  show "table_options_axioms (\<lambda>_. True) (bytewise_options sz interval bits)"
    using bloom.filter_policy_axioms by (auto simp: table_options_axioms_def new_Options_def NewBloomFilterPolicy_def)
qed

text \<open>Options that tables can be built with give such options for a database.\<close>

lemma internal_table_options:
  assumes "table_options ok opts"
  shows "table_options (internal_ok ok) (SanitizeOptions opts)"
proof (intro table_options.intro)
  note o = table_options.axioms [OF assms]
  show "comparator (internal_ok ok) (opt_Compare (SanitizeOptions opts))
      (opt_FindShortestSeparator (SanitizeOptions opts)) (opt_FindShortSuccessor (SanitizeOptions opts))"
    using comparator.internal_comparator [OF o(1)] by (simp add: SanitizeOptions_def)
  show "table_options_axioms (internal_ok ok) (SanitizeOptions opts)"
  proof (rule table_options_axioms.intro)
    show "0 < block_restart_interval (SanitizeOptions opts)" using o(2) by (simp add: SanitizeOptions_def table_options_axioms_def)
    fix p assume "opt_filter_policy (SanitizeOptions opts) = Some p"
    then obtain q where q: "opt_filter_policy opts = Some q" "p = InternalFilterPolicy q" by (auto simp: SanitizeOptions_def)
    then have "filter_policy ok (fp_CreateFilter q) (fp_KeyMayMatch q)" using o(2) by (simp add: table_options_axioms_def)
    from filter_policy.internal_filter_policy [OF this]
    have "filter_policy (\<lambda>k. ok (ExtractUserKey k)) (fp_CreateFilter p) (fp_KeyMayMatch p)" by (simp add: q(2) InternalFilterPolicy_def)
    then show "filter_policy (internal_ok ok) (fp_CreateFilter p) (fp_KeyMayMatch p)"
      by (auto simp: filter_policy_def list_all_iff)
  qed
qed

interpretation posix_table: table_building "\<lambda>w. written (wf_file w)" writable_Append writable_Flush
  "\<lambda>w. out_faults (wf_file w) = []" "\<lambda>_. True" "bytewise_options sz interval bits" compress for sz interval bits compress
  by unfold_locales

interpretation posix_read: table_reading "\<lambda>_. True" "bytewise_options sz interval bits" contents
  "random_Read (\<lambda>_. Some 3) (pread_of [3 \<mapsto> contents]) \<lparr>rf_filename = fname, temporary_fd = True, rf_fd = -1, rf_strerror = e\<rparr>"
  "Snappy_Compress None" "Snappy_Uncompress None" for sz interval bits contents fname e
  by unfold_locales

section \<open>The whole way of a table\<close>

text \<open>A client that looks up one key after the other with the same cache.\<close>

fun get_all ::
  "('c \<Rightarrow> slice \<Rightarrow> Block option \<times> 'c) \<Rightarrow> ('c \<Rightarrow> slice \<Rightarrow> Block \<Rightarrow> nat \<Rightarrow> 'c) \<Rightarrow>
   random_file \<Rightarrow> (slice \<Rightarrow> byte list option) \<Rightarrow> Table \<Rightarrow> ReadOptions \<Rightarrow> slice list \<Rightarrow> 'c option \<Rightarrow>
   (Status \<times> (slice \<times> slice) option) list option" where
  "get_all lookup insert_block Read uncompress rep options [] c = Some []"
| "get_all lookup insert_block Read uncompress rep options (k # ks) c = do {
     (s, saved, c) \<leftarrow> InternalGet lookup insert_block Read uncompress rep options k c;
     rest \<leftarrow> get_all lookup insert_block Read uncompress rep options ks c;
     Some ((s, saved) # rest) }"

definition add_entries ::
  "('f \<Rightarrow> slice \<Rightarrow> Status \<times> 'f) \<Rightarrow> ('f \<Rightarrow> Status \<times> 'f) \<Rightarrow> (slice \<Rightarrow> slice option) \<Rightarrow> 'f TableBuilder \<Rightarrow>
   (slice \<times> slice) list \<Rightarrow> 'f TableBuilder" where
  "add_entries Append Flush compress b kvs = foldl (\<lambda>b (k, v). table_Add Append Flush compress b k v) b kvs"

lemma findable_self:
  assumes "table_options ok opts" "ok k"
  shows "findable ok opts k k"
  unfolding findable_def
  using comparator.separator [OF table_options.axioms(1) [OF assms(1)] _ assms(2)]
    filter_policy.no_false_negative [OF table_options.policy [OF assms(1)]] by blast

lemma found_key:
  assumes o: "table_options ok opts" and s: "table_options.keys_ok ok opts kvs" and f: "found ok opts kvs k saved" and m: "(k, v) \<in> set kvs"
  shows "saved = Some (k, v)"
proof -
  obtain xs ys where kvs: "kvs = xs @ (k, v) # ys" using m by (meson split_list)
  have ks: "sorted_wrt (\<lambda>a b. opt_Compare opts a b < 0) (map fst kvs)" "ok k"
    using s m by (auto simp: table_options.keys_ok_def [OF o])
  have "opt_Compare opts k k = 0" using key_order.compare_refl [OF comparator.axioms(1) [OF table_options.axioms(1) [OF o]] ks(2)] .
  moreover have "below (opt_Compare opts) k x" if "x \<in> set xs" for x using ks(1) that by (auto simp: kvs sorted_wrt_append)
  ultimately have "dropWhile (below (opt_Compare opts) k) kvs = (k, v) # ys" unfolding kvs by (subst dropWhile_append2) auto
  then show ?thesis using f findable_self [OF o ks(2)] by (simp add: found_def)
qed

lemma built_layout:
  assumes opts: "table_options ok opts" and wfile: "reliable_file contents Append Flush good"
    and f: "good f" "contents f = []"
    and kvs: "sorted_wrt (\<lambda>a b. opt_Compare opts a b < 0) (map fst kvs)" "\<forall>k \<in> fst ` set kvs. ok k"
    and fin: "table_Finish Append Flush compress (add_entries Append Flush compress (new_TableBuilder opts f) kvs) = (s, b)"
    and small: "length (contents (tb_file b)) < 2 ^ 32"
  shows "s = Status_OK" and "\<exists>footer T. table_options.table_layout ok opts compress (contents (tb_file b)) footer T \<and> entries T = kvs"
proof -
  let ?data = "contents (tb_file b)"
  have B: "table_building contents Append Flush good ok opts" using wfile opts by (rule table_building.intro)
  have keys: "table_options.keys_ok ok opts kvs" using kvs by (simp add: table_options.keys_ok_def [OF opts])
  have all: "add_entries Append Flush compress b kvs = table_building.add_all Append Flush compress b kvs" for b
    by (simp add: add_entries_def table_building.add_all_def [OF B])
  note inv0 = table_building.table_inv_new [where compress = compress, OF B f keys]
  have "prefix (contents (tb_file (add_entries Append Flush compress (new_TableBuilder opts f) kvs))) ?data"
    using table_building.Finish_grows [OF B fin] .
  then have "length (contents (tb_file (table_building.add_all Append Flush compress (new_TableBuilder opts f) kvs))) < 2 ^ 32"
    using small prefix_length_le by (fastforce simp: all)
  from table_building.add_all_inv [OF B inv0 this] obtain T p cur where
    inv: "table_building.table_inv contents good ok opts compress (add_entries Append Flush compress (new_TableBuilder opts f) kvs) T p cur []"
      "entries T @ p @ cur = kvs" by (auto simp: all)
  show "s = Status_OK" "\<exists>footer T. table_options.table_layout ok opts compress ?data footer T \<and> entries T = kvs"
    using table_building.Finish_layout [OF B inv(1) fin small] inv(2) by auto
qed

lemma table_lookups:
  assumes opts: "table_options ok opts" and wfile: "reliable_file contents Append Flush good" and comp: "compressor compress uncompress"
    and f: "good f" "contents f = []"
    and kvs: "sorted_wrt (\<lambda>a b. opt_Compare opts a b < 0) (map fst kvs)" "\<forall>k \<in> fst ` set kvs. ok k"
    and fin: "table_Finish Append Flush compress (add_entries Append Flush compress (new_TableBuilder opts f) kvs) = (s, b)"
    and small: "length (contents (tb_file b)) < 2 ^ 32"
    and rd: "random_access_file (contents (tb_file b)) Read"
    and cache: "block_cache cache_ok lookup insert_block" "case c of None \<Rightarrow> True | Some c \<Rightarrow> cache_ok c \<and> (\<forall>k. fst (lookup c k) = None)"
    and ks: "\<forall>k \<in> set ks. ok k"
  shows "s = Status_OK \<and>
    (\<exists>rep rs. Table_Open Read uncompress new_id opts (of_nat (length (contents (tb_file b)))) = Some (Status_OK, Some rep) \<and>
       get_all lookup insert_block Read uncompress rep ropts ks c = Some rs \<and>
       list_all2 (\<lambda>k (s, saved). s = Status_OK \<and> found ok opts kvs k saved) ks rs)"
proof -
  let ?data = "contents (tb_file b)"
  have R: "table_reading ok opts ?data Read compress uncompress" using opts rd comp by (rule table_reading.intro)
  note built = built_layout [OF opts wfile f kvs fin small]
  obtain footer T' where layout: "s = Status_OK" "table_options.table_layout ok opts compress ?data footer T'" "entries T' = kvs"
    using built by blast
  obtain rep where rep: "Table_Open Read uncompress new_id opts (of_nat (length ?data)) = Some (Status_OK, Some rep)"
    "table_reading.opened opts rep T'"
    using table_reading.Open_layout [OF R layout(2)] by blast
  let ?good = "case_option True (\<lambda>c. cache_ok c \<and> table_reading.coherent opts lookup rep T' c)"
  have "\<exists>rs. get_all lookup insert_block Read uncompress rep ropts ks c = Some rs \<and>
      list_all2 (\<lambda>k (s, saved). s = Status_OK \<and> found ok opts kvs k saved) ks rs" if "?good c" "\<forall>k \<in> set ks. ok k" for c
    using that
  proof (induction ks arbitrary: c)
    case (Cons k ks)
    have k: "ok k" using Cons.prems(2) by simp
    obtain saved c' where g: "InternalGet lookup insert_block Read uncompress rep ropts k c = Some (Status_OK, saved, c')"
      "found ok opts kvs k saved" "?good c'"
      using table_reading.InternalGet_layout
        [OF R layout(2) rep(2) k cache(1) table_reading.coherent_kept [OF R layout(2) cache(1)] Cons.prems(1), of ropts] layout(3)
      by auto
    obtain rs where "get_all lookup insert_block Read uncompress rep ropts ks c' = Some rs"
      "list_all2 (\<lambda>k (s, saved). s = Status_OK \<and> found ok opts kvs k saved) ks rs"
      using Cons.IH [OF g(3)] Cons.prems(2) by auto
    then show ?case using g(1,2) by auto
  qed simp
  moreover have "?good c" using cache(2) by (auto simp: table_reading.coherent_def [OF R] split: option.splits)
  ultimately show ?thesis using layout(1) rep(1) ks by blast
qed

text \<open>
  C32. A table that is built in a file without faults is found again: for any options with a comparator and a
  filter policy that keep their contracts, any strictly increasing keys and any compression that can be
  undone, if the file has fewer than $2^{32}$ bytes, then \<open>Finish\<close> succeeds, \<open>Open\<close> opens what it wrote, and in
  any sequence of lookups through an initially empty cache (or none) each one succeeds and saves nothing or the
  first entry that is not below its key, and the very entry of its key if there is one.
\<close>

theorem table_get:
  assumes "table_options ok opts" "reliable_file contents Append Flush good" "compressor compress uncompress"
    and "good f" "contents f = []"
    and "sorted_wrt (\<lambda>a b. opt_Compare opts a b < 0) (map fst kvs)" "\<forall>k \<in> fst ` set kvs. ok k"
    and "table_Finish Append Flush compress (add_entries Append Flush compress (new_TableBuilder opts f) kvs) = (s, b)"
    and "length (contents (tb_file b)) < 2 ^ 32"
    and "random_access_file (contents (tb_file b)) Read"
    and "block_cache cache_ok lookup insert_block" "case c of None \<Rightarrow> True | Some c \<Rightarrow> cache_ok c \<and> (\<forall>k. fst (lookup c k) = None)"
    and "\<forall>k \<in> set ks. ok k"
  shows "s = Status_OK \<and>
    (\<exists>rep rs. Table_Open Read uncompress new_id opts (of_nat (length (contents (tb_file b)))) = Some (Status_OK, Some rep) \<and>
       get_all lookup insert_block Read uncompress rep ropts ks c = Some rs \<and>
       list_all2 (\<lambda>k (s, saved). s = Status_OK \<and>
         (saved = None \<or> saved = find (\<lambda>(k', _). \<not> opt_Compare opts k' k < 0) kvs) \<and>
         (\<forall>v. (k, v) \<in> set kvs \<longrightarrow> saved = Some (k, v))) ks rs)"
proof -
  have keys: "table_options.keys_ok ok opts kvs" using assms(6,7) by (simp add: table_options.keys_ok_def [OF assms(1)])
  have "find (\<lambda>(k', _). \<not> opt_Compare opts k' k < 0) kvs =
      (case dropWhile (below (opt_Compare opts) k) kvs of [] \<Rightarrow> None | x # _ \<Rightarrow> Some x)" for k
    by (induction kvs) auto
  then have "saved = None \<or> saved = find (\<lambda>(k', _). \<not> opt_Compare opts k' k < 0) kvs" if "found ok opts kvs k saved" for k saved
    using that by (auto simp: found_def split: list.splits simp del: dropWhile_eq_Nil_conv)
  with found_key [OF assms(1) keys] table_lookups [OF assms, of new_id ropts] show ?thesis
    by (fastforce elim!: list_all2_mono)
qed

abbreviation demo_file :: PosixWritableFile where
  "demo_file \<equiv> \<lparr>wf_filename = [], wf_file = \<lparr>written = [], out_faults = []\<rparr>, wf_strerror = []\<rparr>"

abbreviation demo_table :: "(slice \<times> slice) list \<Rightarrow> Status \<times> PosixWritableFile TableBuilder" where
  "demo_table kvs \<equiv> table_Finish writable_Append writable_Flush (Snappy_Compress None)
     (add_entries writable_Append writable_Flush (Snappy_Compress None) (new_TableBuilder (bytewise_options 4096 1 None) demo_file) kvs)"

lemma demo_length: "length (written (wf_file (tb_file (snd (demo_table [([1], [9]), ([2], [8])]))))) = 103"
  by code_simp

theorem table_get_witness:
  "fst (demo_table [([1], [9]), ([2], [8])]) = Status_OK \<and>
    (\<exists>rep rs. Table_Open (random_Read (\<lambda>_. Some 3) (pread_of [3 \<mapsto> written (wf_file (tb_file (snd (demo_table [([1], [9]), ([2], [8])]))))])
         \<lparr>rf_filename = [], temporary_fd = True, rf_fd = -1, rf_strerror = []\<rparr>) (Snappy_Uncompress None) 7 (bytewise_options 4096 1 None)
         (of_nat (length (written (wf_file (tb_file (snd (demo_table [([1], [9]), ([2], [8])]))))))) = Some (Status_OK, Some rep) \<and>
       get_all (\<lambda>c k. (None, c)) (\<lambda>c k b n. c)
         (random_Read (\<lambda>_. Some 3) (pread_of [3 \<mapsto> written (wf_file (tb_file (snd (demo_table [([1], [9]), ([2], [8])]))))])
         \<lparr>rf_filename = [], temporary_fd = True, rf_fd = -1, rf_strerror = []\<rparr>) (Snappy_Uncompress None) rep
         \<lparr>verify_checksums = True, fill_cache = True\<rparr> [[2], [3]] (Some ()) = Some rs \<and>
       list_all2 (\<lambda>k (s, saved). s = Status_OK \<and>
         (saved = None \<or> saved = find (\<lambda>(k', _). \<not> opt_Compare (bytewise_options 4096 1 None) k' k < 0) [([1], [9]), ([2], [8])]) \<and>
         (\<forall>v. (k, v) \<in> set [([1], [9]), ([2], [8])] \<longrightarrow> saved = Some (k, v))) [[2], [3]] rs)"
proof (rule table_get [OF bytewise_table.table_options_axioms posix_good.reliable_file_axioms no_snappy.compressor_axioms])
  show "demo_table [([1], [9]), ([2], [8])] = (fst (demo_table [([1], [9]), ([2], [8])]), snd (demo_table [([1], [9]), ([2], [8])]))"
    by (rule prod.collapse [symmetric])
  show "sorted_wrt (\<lambda>a b. opt_Compare (bytewise_options 4096 1 None) a b < 0) (map fst [([1], [9] :: slice), ([2], [8])])"
    by code_simp
  show "length (written (wf_file (tb_file (snd (demo_table [([1], [9]), ([2], [8])]))))) < 2 ^ 32" unfolding demo_length by simp
  show "block_cache (\<lambda>_. True) (\<lambda>c k. (None, c)) (\<lambda>c k b n. c)" by unfold_locales simp_all
qed (simp_all add: posix_random.random_access_file_axioms)

end
