(* ===== verification/LDB_Version.thy ===== *)
theory LDB_Version
  imports LDB_VersionEdit LDB_Table
begin

text \<open>
  Versions (\<open>version_set.h\<close>, \<open>version_set.cc\<close>): the files of the levels, looking up a key in them, and which files a
  range of keys overlaps. Pointers to \<open>FileMetaData\<close> are numbers, and \<open>m\<close> is the object of a pointer: versions
  share them. The functions take the user's comparator; that of internal keys is built on it. Indexes are
  natural numbers: a vector has fewer than $2^{31}$ elements.
\<close>

section \<open>Files and ranges\<close>

type_synonym files = "nat \<Rightarrow> FileMetaData"

abbreviation start_key :: "files \<Rightarrow> nat \<Rightarrow> slice" where
  "start_key m f \<equiv> ExtractUserKey (smallest (m f))"

abbreviation limit_key :: "files \<Rightarrow> nat \<Rightarrow> slice" where
  "limit_key m f \<equiv> ExtractUserKey (largest (m f))"

definition TotalFileSize :: "files \<Rightarrow> nat list \<Rightarrow> int" where
  "TotalFileSize m fs = sint (fold (\<lambda>f total. total + file_size (m f)) fs 0)"

function FindFile_loop :: "(slice \<Rightarrow> slice \<Rightarrow> int) \<Rightarrow> files \<Rightarrow> nat list \<Rightarrow> slice \<Rightarrow> nat \<Rightarrow> nat \<Rightarrow> nat" where
  "FindFile_loop ucmp m fs key left right =
     (if left < right then
        let mid = (left + right) div 2 in
        if internal_Compare ucmp (largest (m (fs ! mid))) key < 0 then FindFile_loop ucmp m fs key (mid + 1) right
        else FindFile_loop ucmp m fs key left mid
      else right)"
  by pat_completeness auto
termination by (relation "measure (\<lambda>(_, _, _, _, left, right). right - left)") auto

declare FindFile_loop.simps [simp del]

definition FindFile :: "(slice \<Rightarrow> slice \<Rightarrow> int) \<Rightarrow> files \<Rightarrow> nat list \<Rightarrow> slice \<Rightarrow> nat" where
  "FindFile ucmp m fs key = FindFile_loop ucmp m fs key 0 (length fs)"

text \<open>A null pointer to a user key is \<open>None\<close>.\<close>

definition AfterFile :: "(slice \<Rightarrow> slice \<Rightarrow> int) \<Rightarrow> files \<Rightarrow> slice option \<Rightarrow> nat \<Rightarrow> bool" where
  "AfterFile ucmp m ukey f = (case ukey of None \<Rightarrow> False | Some k \<Rightarrow> ucmp k (limit_key m f) > 0)"

definition BeforeFile :: "(slice \<Rightarrow> slice \<Rightarrow> int) \<Rightarrow> files \<Rightarrow> slice option \<Rightarrow> nat \<Rightarrow> bool" where
  "BeforeFile ucmp m ukey f = (case ukey of None \<Rightarrow> False | Some k \<Rightarrow> ucmp k (start_key m f) < 0)"

definition SomeFileOverlapsRange ::
  "(slice \<Rightarrow> slice \<Rightarrow> int) \<Rightarrow> files \<Rightarrow> bool \<Rightarrow> nat list \<Rightarrow> slice option \<Rightarrow> slice option \<Rightarrow> bool" where
  "SomeFileOverlapsRange ucmp m disjoint_sorted_files fs smallest_user_key largest_user_key =
     (if \<not> disjoint_sorted_files
      then list_ex (\<lambda>f. \<not> (AfterFile ucmp m smallest_user_key f \<or> BeforeFile ucmp m largest_user_key f)) fs
      else
        let index = (case smallest_user_key of
                       None \<Rightarrow> 0
                     | Some k \<Rightarrow> FindFile ucmp m fs (new_InternalKey k kMaxSequenceNumber kValueTypeForSeek))
        in if index \<ge> length fs then False else \<not> BeforeFile ucmp m largest_user_key (fs ! index))"

section \<open>Versions\<close>

text \<open>The list \<open>files\<close> has \<open>kNumLevels\<close> elements.\<close>

record Version =
  levels :: "nat list list"
  file_to_compact :: "nat option"
  file_to_compact_level :: int

definition new_Version :: Version where
  "new_Version = \<lparr>levels = replicate kNumLevels [], file_to_compact = None, file_to_compact_level = - 1\<rparr>"

record GetStats =
  seek_file :: "nat option"
  seek_file_level :: int

section \<open>Looking up\<close>

datatype SaverState = kNotFound_saver | kFound | kDeleted | kCorrupt

text \<open>The callback, on the state and the value of the saver.\<close>

definition SaveValue ::
  "(slice \<Rightarrow> slice \<Rightarrow> int) \<Rightarrow> slice \<Rightarrow> SaverState \<times> slice \<Rightarrow> slice \<Rightarrow> slice \<Rightarrow> SaverState \<times> slice" where
  "SaveValue ucmp ukey s ikey v =
     (case ParseInternalKey ikey of
        None \<Rightarrow> (kCorrupt, snd s)
      | Some parsed_key \<Rightarrow>
          if ucmp (user_key parsed_key) ukey = 0
          then (if vtype parsed_key = kTypeValue then (kFound, v) else (kDeleted, snd s))
          else s)"

text \<open>
  \<open>std::sort\<close> by \<open>NewestFirst\<close>: the numbers of files are distinct, so that there is one sorted list.
\<close>

definition NewestFirst :: "files \<Rightarrow> nat \<Rightarrow> nat \<Rightarrow> bool" where
  "NewestFirst m a b \<longleftrightarrow> fm_number (m a) > fm_number (m b)"

fun insert_newest :: "files \<Rightarrow> nat \<Rightarrow> nat list \<Rightarrow> nat list" where
  "insert_newest m f [] = [f]"
| "insert_newest m f (g # gs) = (if NewestFirst m g f then g # insert_newest m f gs else f # g # gs)"

definition sort_newest :: "files \<Rightarrow> nat list \<Rightarrow> nat list" where
  "sort_newest m fs = foldr (insert_newest m) fs []"

text \<open>The body of the loop over the levels in \<open>Version::Get\<close>, up to the files to search.\<close>

definition files_to_search :: "(slice \<Rightarrow> slice \<Rightarrow> int) \<Rightarrow> files \<Rightarrow> Version \<Rightarrow> slice \<Rightarrow> slice \<Rightarrow> nat \<Rightarrow> nat list" where
  "files_to_search ucmp m v ukey ikey level =
     (let fs = levels v ! level in
      if fs = [] then []
      else if level = 0 then
        sort_newest m (filter (\<lambda>f. ucmp ukey (start_key m f) \<ge> 0 \<and> ucmp ukey (limit_key m f) \<le> 0) fs)
      else
        let index = FindFile ucmp m fs ikey in
        if index \<ge> length fs then []
        else if ucmp ukey (start_key m (fs ! index)) < 0 then [] else [fs ! index])"

text \<open>
  \<open>TGet\<close> is \<open>TableCache::Get\<close>, with the state of the cache: it calls the saver at most once, with the key and
  the value in its result. The loops over the levels and their files are one loop over all of these files.
\<close>

type_synonym 'c table_get = "u64 \<Rightarrow> u64 \<Rightarrow> slice \<Rightarrow> 'c \<Rightarrow> (Status \<times> (slice \<times> slice) option \<times> 'c) option"

fun version_Get_loop ::
  "'c table_get \<Rightarrow> (slice \<Rightarrow> slice \<Rightarrow> int) \<Rightarrow> files \<Rightarrow> slice \<Rightarrow> slice \<Rightarrow> (nat \<times> nat) list \<Rightarrow> (nat \<times> nat) option \<Rightarrow>
   GetStats \<Rightarrow> slice \<Rightarrow> 'c \<Rightarrow> (Status \<times> slice \<times> GetStats \<times> 'c) option" where
  "version_Get_loop TGet ucmp m ukey ikey [] last_read stats val c = Some (Status_NotFound [] [], val, stats, c)"
| "version_Get_loop TGet ucmp m ukey ikey ((level, f) # rest) last_read stats val c =
     (let stats = (case last_read of
                     Some (ll, lf) \<Rightarrow> if seek_file stats = None then \<lparr>seek_file = Some lf, seek_file_level = int ll\<rparr> else stats
                   | None \<Rightarrow> stats)
      in do {
        (s, saved, c) \<leftarrow> TGet (fm_number (m f)) (file_size (m f)) ikey c;
        let (state, val) = (case saved of None \<Rightarrow> (kNotFound_saver, val)
                                        | Some (k, v) \<Rightarrow> SaveValue ucmp ukey (kNotFound_saver, val) k v) in
        if \<not> status_ok s then Some (s, val, stats, c)
        else case state of
            kNotFound_saver \<Rightarrow> version_Get_loop TGet ucmp m ukey ikey rest (Some (level, f)) stats val c
          | kFound \<Rightarrow> Some (s, val, stats, c)
          | kDeleted \<Rightarrow> Some (Status_NotFound [] [], val, stats, c)
          | kCorrupt \<Rightarrow> Some (Status_Corruption (chars ''corrupted key for '') ukey, val, stats, c) })"

definition version_Get ::
  "'c table_get \<Rightarrow> (slice \<Rightarrow> slice \<Rightarrow> int) \<Rightarrow> files \<Rightarrow> Version \<Rightarrow> LookupKey \<Rightarrow> slice \<Rightarrow> 'c \<Rightarrow>
   (Status \<times> slice \<times> GetStats \<times> 'c) option" where
  "version_Get TGet ucmp m v k val c =
     (let ikey = internal_key k; ukey = lookup_user_key k in
      version_Get_loop TGet ucmp m ukey ikey
        (concat (map (\<lambda>level. map (Pair level) (files_to_search ucmp m v ukey ikey level)) [0..<kNumLevels]))
        None \<lparr>seek_file = None, seek_file_level = - 1\<rparr> val c)"

section \<open>Statistics of seeks\<close>

definition UpdateStats :: "files \<Rightarrow> Version \<Rightarrow> GetStats \<Rightarrow> bool \<times> files \<times> Version" where
  "UpdateStats m v stats =
     (case seek_file stats of
        None \<Rightarrow> (False, m, v)
      | Some f \<Rightarrow>
          let m = m(f := (m f)\<lparr>allowed_seeks := allowed_seeks (m f) - 1\<rparr>) in
          if allowed_seeks (m f) \<le> 0 \<and> file_to_compact v = None
          then (True, m, v\<lparr>file_to_compact := Some f, file_to_compact_level := seek_file_level stats\<rparr>)
          else (False, m, v))"

text \<open>The calls of a function on a state that says whether to go on.\<close>

fun call_while :: "('s \<Rightarrow> nat \<Rightarrow> nat \<Rightarrow> 's \<times> bool) \<Rightarrow> 's \<Rightarrow> (nat \<times> nat) list \<Rightarrow> 's" where
  "call_while func arg [] = arg"
| "call_while func arg ((level, f) # rest) =
     (let (arg, continue) = func arg level f in if continue then call_while func arg rest else arg)"

definition ForEachOverlapping ::
  "(slice \<Rightarrow> slice \<Rightarrow> int) \<Rightarrow> files \<Rightarrow> Version \<Rightarrow> slice \<Rightarrow> slice \<Rightarrow> ('s \<Rightarrow> nat \<Rightarrow> nat \<Rightarrow> 's \<times> bool) \<Rightarrow> 's \<Rightarrow> 's" where
  "ForEachOverlapping ucmp m v ukey ikey func arg =
     (let level0 = sort_newest m (filter (\<lambda>f. ucmp ukey (start_key m f) \<ge> 0 \<and> ucmp ukey (limit_key m f) \<le> 0) (levels v ! 0));
          other = (\<lambda>level.
            let fs = levels v ! level; index = FindFile ucmp m fs ikey in
            if fs = [] then []
            else if index < length fs then
              (if ucmp ukey (start_key m (fs ! index)) < 0 then [] else [(level, fs ! index)])
            else [])
      in call_while func arg (map (Pair 0) level0 @ concat (map other [1..<kNumLevels])))"

record SampleState =
  sample_stats :: GetStats
  matches :: nat

definition Match :: "SampleState \<Rightarrow> nat \<Rightarrow> nat \<Rightarrow> SampleState \<times> bool" where
  "Match st level f =
     (let st = st\<lparr>matches := matches st + 1\<rparr>;
          st = (if matches st = 1 then st\<lparr>sample_stats := \<lparr>seek_file = Some f, seek_file_level = int level\<rparr>\<rparr> else st)
      in (st, matches st < 2))"

text \<open>The fields of \<open>stats\<close> are not set before the first match; they are not read then.\<close>

definition RecordReadSample :: "(slice \<Rightarrow> slice \<Rightarrow> int) \<Rightarrow> files \<Rightarrow> Version \<Rightarrow> slice \<Rightarrow> bool \<times> files \<times> Version" where
  "RecordReadSample ucmp m v ikey =
     (case ParseInternalKey ikey of
        None \<Rightarrow> (False, m, v)
      | Some parsed \<Rightarrow>
          let st = ForEachOverlapping ucmp m v (user_key parsed) ikey Match
                     \<lparr>sample_stats = \<lparr>seek_file = None, seek_file_level = - 1\<rparr>, matches = 0\<rparr>
          in if matches st \<ge> 2 then UpdateStats m v (sample_stats st) else (False, m, v))"

section \<open>Overlapping files\<close>

definition OverlapInLevel ::
  "(slice \<Rightarrow> slice \<Rightarrow> int) \<Rightarrow> files \<Rightarrow> Version \<Rightarrow> nat \<Rightarrow> slice option \<Rightarrow> slice option \<Rightarrow> bool" where
  "OverlapInLevel ucmp m v level smallest_user_key largest_user_key =
     SomeFileOverlapsRange ucmp m (level > 0) (levels v ! level) smallest_user_key largest_user_key"

text \<open>
  The loop of \<open>GetOverlappingInputs\<close>. Its state is the next index, the ends of the range (which stay null) and the
  inputs. In level 0 it starts again when a file is wider than the range.
\<close>

type_synonym overlap_state = "nat \<times> slice option \<times> slice option \<times> nat list"

fun overlap_step :: "(slice \<Rightarrow> slice \<Rightarrow> int) \<Rightarrow> files \<Rightarrow> nat \<Rightarrow> nat list \<Rightarrow> overlap_state \<Rightarrow> overlap_state" where
  "overlap_step ucmp m level fs (i, user_begin, user_end, inputs) =
     (let f = fs ! i; i = i + 1; file_start = start_key m f; file_limit = limit_key m f in
      if case_option False (\<lambda>b. ucmp file_limit b < 0) user_begin then (i, user_begin, user_end, inputs)
      else if case_option False (\<lambda>e. ucmp file_start e > 0) user_end then (i, user_begin, user_end, inputs)
      else
        let inputs = inputs @ [f] in
        if level = 0 then
          if case_option False (\<lambda>b. ucmp file_start b < 0) user_begin then (0, Some file_start, user_end, [])
          else if case_option False (\<lambda>e. ucmp file_limit e > 0) user_end then (0, user_begin, Some file_limit, [])
          else (i, user_begin, user_end, inputs)
        else (i, user_begin, user_end, inputs))"

partial_function (option) overlapping_loop ::
  "(slice \<Rightarrow> slice \<Rightarrow> int) \<Rightarrow> files \<Rightarrow> nat \<Rightarrow> nat list \<Rightarrow> overlap_state \<Rightarrow> nat list option" where
  "overlapping_loop ucmp m level fs st =
     (if fst st < length fs then overlapping_loop ucmp m level fs (overlap_step ucmp m level fs st)
      else Some (snd (snd (snd st))))"

definition GetOverlappingInputs ::
  "(slice \<Rightarrow> slice \<Rightarrow> int) \<Rightarrow> files \<Rightarrow> Version \<Rightarrow> nat \<Rightarrow> slice option \<Rightarrow> slice option \<Rightarrow> nat list option" where
  "GetOverlappingInputs ucmp m v level begin_key end_key =
     overlapping_loop ucmp m level (levels v ! level)
       (0, map_option ExtractUserKey begin_key, map_option ExtractUserKey end_key, [])"

text \<open>
  Products of the type \<open>int\<close>: \<open>None\<close> where they overflow. The field \<open>max_file_size\<close> of the options is an argument.
\<close>

definition int_times :: "int \<Rightarrow> int \<Rightarrow> int option" where
  "int_times a b = (if - (2 ^ 31) \<le> a * b \<and> a * b < 2 ^ 31 then Some (a * b) else None)"

definition TargetFileSize :: "u64 \<Rightarrow> int" where
  "TargetFileSize max_file_size = sint (ucast max_file_size :: u32)"

definition MaxGrandParentOverlapBytes :: "u64 \<Rightarrow> int option" where
  "MaxGrandParentOverlapBytes max_file_size = int_times 10 (TargetFileSize max_file_size)"

definition ExpandedCompactionByteSizeLimit :: "u64 \<Rightarrow> int option" where
  "ExpandedCompactionByteSizeLimit max_file_size = int_times 25 (TargetFileSize max_file_size)"

definition MaxFileSizeForLevel :: "u64 \<Rightarrow> u64" where
  "MaxFileSizeForLevel max_file_size = of_int (TargetFileSize max_file_size)"

definition kMaxMemCompactLevel :: nat where "kMaxMemCompactLevel = 2"

function pick_level_loop ::
  "(slice \<Rightarrow> slice \<Rightarrow> int) \<Rightarrow> u64 \<Rightarrow> files \<Rightarrow> Version \<Rightarrow> slice \<Rightarrow> slice \<Rightarrow> nat \<Rightarrow> nat option" where
  "pick_level_loop ucmp max_file_size m v smallest_user_key largest_user_key level =
     (if level < kMaxMemCompactLevel then
        if OverlapInLevel ucmp m v (level + 1) (Some smallest_user_key) (Some largest_user_key) then Some level
        else do {
          stop \<leftarrow> (if level + 2 < kNumLevels then do {
              overlaps \<leftarrow> GetOverlappingInputs ucmp m v (level + 2)
                (Some (new_InternalKey smallest_user_key kMaxSequenceNumber kValueTypeForSeek))
                (Some (new_InternalKey largest_user_key 0 kTypeDeletion));
              max_bytes \<leftarrow> MaxGrandParentOverlapBytes max_file_size;
              Some (TotalFileSize m overlaps > max_bytes) }
            else Some False);
          if stop then Some level
          else pick_level_loop ucmp max_file_size m v smallest_user_key largest_user_key (level + 1) }
      else Some level)"
  by pat_completeness auto
termination by (relation "measure (\<lambda>(_, _, _, _, _, _, level). kMaxMemCompactLevel - level)") auto

declare pick_level_loop.simps [simp del]

definition PickLevelForMemTableOutput :: "(slice \<Rightarrow> slice \<Rightarrow> int) \<Rightarrow> u64 \<Rightarrow> files \<Rightarrow> Version \<Rightarrow> slice \<Rightarrow> slice \<Rightarrow> nat option" where
  "PickLevelForMemTableOutput ucmp max_file_size m v smallest_user_key largest_user_key =
     (if \<not> OverlapInLevel ucmp m v 0 (Some smallest_user_key) (Some largest_user_key)
      then pick_level_loop ucmp max_file_size m v smallest_user_key largest_user_key 0
      else Some 0)"

end
