(* ===== verification/LDB_VersionBuilder.thy ===== *)
theory LDB_VersionBuilder
  imports LDB_Version
begin

text \<open>
  From one version to the next (\<open>VersionSet::Builder\<close> and the numbers of a \<open>VersionSet\<close>, \<open>version_set.cc\<close>). New objects
  are allocated at the pointer \<open>fresh\<close>. \<open>None\<close> is a level out of the bounds of an array or an assertion that fails.
\<close>

section \<open>The builder\<close>

definition BySmallestKey :: "(slice \<Rightarrow> slice \<Rightarrow> int) \<Rightarrow> files \<Rightarrow> nat \<Rightarrow> nat \<Rightarrow> bool" where
  "BySmallestKey ucmp m f1 f2 =
     (let r = internal_Compare ucmp (smallest (m f1)) (smallest (m f2)) in
      if r \<noteq> 0 then r < 0 else fm_number (m f1) < fm_number (m f2))"

text \<open>A \<open>FileSet\<close> is the list of its elements in order.\<close>

fun FileSet_insert :: "(slice \<Rightarrow> slice \<Rightarrow> int) \<Rightarrow> files \<Rightarrow> nat \<Rightarrow> nat list \<Rightarrow> nat list" where
  "FileSet_insert ucmp m f [] = [f]"
| "FileSet_insert ucmp m f (g # gs) =
     (if BySmallestKey ucmp m f g then f # g # gs
      else if BySmallestKey ucmp m g f then g # FileSet_insert ucmp m f gs
      else g # gs)"

record LevelState =
  ls_deleted :: "u64 set"
  ls_added :: "nat list"

record Builder =
  bd_levels :: "LevelState list"
  bd_files :: files
  bd_fresh :: nat
  bd_compact_pointer :: "slice list"

definition new_Builder :: "files \<Rightarrow> nat \<Rightarrow> slice list \<Rightarrow> Builder" where
  "new_Builder m fresh compact_pointer =
     \<lparr>bd_levels = replicate kNumLevels \<lparr>ls_deleted = {}, ls_added = []\<rparr>, bd_files = m, bd_fresh = fresh,
      bd_compact_pointer = compact_pointer\<rparr>"

fun apply_compact_pointer :: "nat \<times> slice \<Rightarrow> Builder \<Rightarrow> Builder option" where
  "apply_compact_pointer (level, key) b =
     (if level < kNumLevels then Some (b\<lparr>bd_compact_pointer := (bd_compact_pointer b)[level := key]\<rparr>) else None)"

fun apply_deleted :: "nat \<times> u64 \<Rightarrow> Builder \<Rightarrow> Builder option" where
  "apply_deleted (level, num) b =
     (if level < kNumLevels then
        let ls = bd_levels b ! level in Some (b\<lparr>bd_levels := (bd_levels b)[level := ls\<lparr>ls_deleted := insert num (ls_deleted ls)\<rparr>]\<rparr>)
      else None)"

definition initial_seeks :: "u64 \<Rightarrow> int" where
  "initial_seeks fsize = (let n = sint (ucast (fsize div 16384) :: u32) in if n < 100 then 100 else n)"

fun apply_new_file :: "(slice \<Rightarrow> slice \<Rightarrow> int) \<Rightarrow> nat \<times> FileMetaData \<Rightarrow> Builder \<Rightarrow> Builder option" where
  "apply_new_file ucmp (level, meta) b =
     (if level < kNumLevels then
        let f = bd_fresh b;
            m = (bd_files b)(f := meta\<lparr>fm_refs := 1, allowed_seeks := initial_seeks (file_size meta)\<rparr>);
            ls = bd_levels b ! level;
            ls = ls\<lparr>ls_deleted := ls_deleted ls - {fm_number (m f)}, ls_added := FileSet_insert ucmp m f (ls_added ls)\<rparr>
        in Some (b\<lparr>bd_files := m, bd_fresh := Suc f, bd_levels := (bd_levels b)[level := ls]\<rparr>)
      else None)"

fun each :: "('a \<Rightarrow> 'b \<Rightarrow> 'b option) \<Rightarrow> 'a list \<Rightarrow> 'b \<Rightarrow> 'b option" where
  "each f [] b = Some b"
| "each f (x # xs) b = do { b \<leftarrow> f x b; each f xs b }"

definition builder_Apply :: "(slice \<Rightarrow> slice \<Rightarrow> int) \<Rightarrow> VersionEdit \<Rightarrow> Builder \<Rightarrow> Builder option" where
  "builder_Apply ucmp edit b = do {
     b \<leftarrow> each apply_compact_pointer (compact_pointers edit) b;
     b \<leftarrow> each apply_deleted (sorted_list_of_set (deleted_files edit)) b;
     each (apply_new_file ucmp) (new_files edit) b }"

text \<open>
  The files of a level are pushed to the list in the second component. \<open>std::upper_bound\<close> on a sorted range
  gives the end of the elements that are not greater.
\<close>

fun MaybeAddFile :: "(slice \<Rightarrow> slice \<Rightarrow> int) \<Rightarrow> nat \<Rightarrow> u64 set \<Rightarrow> nat \<Rightarrow> files \<times> nat list \<Rightarrow> (files \<times> nat list) option" where
  "MaybeAddFile ucmp level deleted f (m, fs) =
     (if fm_number (m f) \<in> deleted then Some (m, fs)
      else if level > 0 \<and> fs \<noteq> [] \<and> \<not> internal_Compare ucmp (largest (m (last fs))) (smallest (m f)) < 0 then None
      else Some (m(f := (m f)\<lparr>fm_refs := fm_refs (m f) + 1\<rparr>), fs @ [f]))"

fun save_level ::
  "(slice \<Rightarrow> slice \<Rightarrow> int) \<Rightarrow> nat \<Rightarrow> u64 set \<Rightarrow> nat list \<Rightarrow> nat list \<Rightarrow> files \<times> nat list \<Rightarrow> (files \<times> nat list) option" where
  "save_level ucmp level deleted base_files [] st = each (MaybeAddFile ucmp level deleted) base_files st"
| "save_level ucmp level deleted base_files (a # added) st =
     (let smaller = takeWhile (\<lambda>f. \<not> BySmallestKey ucmp (fst st) a f) base_files in do {
        st \<leftarrow> each (MaybeAddFile ucmp level deleted) smaller st;
        st \<leftarrow> MaybeAddFile ucmp level deleted a st;
        save_level ucmp level deleted (drop (length smaller) base_files) added st })"

fun save_levels ::
  "(slice \<Rightarrow> slice \<Rightarrow> int) \<Rightarrow> nat \<Rightarrow> LevelState list \<Rightarrow> nat list list \<Rightarrow> files \<Rightarrow> (files \<times> nat list list) option" where
  "save_levels ucmp level (ls # lss) (base_files # bases) m = do {
     (m, fs) \<leftarrow> save_level ucmp level (ls_deleted ls) base_files (ls_added ls) (m, []);
     (m, rest) \<leftarrow> save_levels ucmp (Suc level) lss bases m;
     Some (m, fs # rest) }"
| "save_levels ucmp level _ _ m = Some (m, [])"

definition builder_SaveTo :: "(slice \<Rightarrow> slice \<Rightarrow> int) \<Rightarrow> Builder \<Rightarrow> Version \<Rightarrow> (files \<times> Version) option" where
  "builder_SaveTo ucmp b base = do {
     (m, fs) \<leftarrow> save_levels ucmp 0 (bd_levels b) (levels base) (bd_files b);
     Some (m, new_Version\<lparr>levels := fs\<rparr>) }"

section \<open>The state of a set of versions\<close>

record VersionSet =
  vs_next_file_number :: u64
  manifest_file_number :: u64
  vs_last_sequence :: u64
  vs_log_number :: u64
  vs_prev_log_number :: u64
  vs_current :: Version
  vs_files :: files
  vs_fresh :: nat
  compact_pointer :: "slice list"

definition NewFileNumber :: "VersionSet \<Rightarrow> u64 \<times> VersionSet" where
  "NewFileNumber vs = (vs_next_file_number vs, vs\<lparr>vs_next_file_number := vs_next_file_number vs + 1\<rparr>)"

definition ReuseFileNumber :: "u64 \<Rightarrow> VersionSet \<Rightarrow> VersionSet" where
  "ReuseFileNumber file_number vs =
     (if vs_next_file_number vs = file_number + 1 then vs\<lparr>vs_next_file_number := file_number\<rparr> else vs)"

definition vset_SetLastSequence :: "u64 \<Rightarrow> VersionSet \<Rightarrow> VersionSet option" where
  "vset_SetLastSequence s vs = (if s \<ge> vs_last_sequence vs then Some (vs\<lparr>vs_last_sequence := s\<rparr>) else None)"

definition MarkFileNumberUsed :: "u64 \<Rightarrow> VersionSet \<Rightarrow> VersionSet" where
  "MarkFileNumberUsed num vs = (if vs_next_file_number vs \<le> num then vs\<lparr>vs_next_file_number := num + 1\<rparr> else vs)"

text \<open>The edit that \<open>WriteSnapshot\<close> writes; the name of the comparator is an argument.\<close>

fun snapshot_pointers :: "nat \<Rightarrow> slice list \<Rightarrow> VersionEdit \<Rightarrow> VersionEdit" where
  "snapshot_pointers level [] edit = edit"
| "snapshot_pointers level (p # ps) edit =
     snapshot_pointers (Suc level) ps (if p \<noteq> [] then SetCompactPointer edit level p else edit)"

fun snapshot_files :: "files \<Rightarrow> nat \<Rightarrow> nat list list \<Rightarrow> VersionEdit \<Rightarrow> VersionEdit" where
  "snapshot_files m level [] edit = edit"
| "snapshot_files m level (fs # rest) edit =
     snapshot_files m (Suc level) rest
       (fold (\<lambda>f edit. AddFile edit level (fm_number (m f)) (file_size (m f)) (smallest (m f)) (largest (m f))) fs edit)"

definition WriteSnapshot_edit :: "byte list \<Rightarrow> VersionSet \<Rightarrow> VersionEdit" where
  "WriteSnapshot_edit comparator_Name vs =
     snapshot_files (vs_files vs) 0 (levels (vs_current vs))
       (snapshot_pointers 0 (compact_pointer vs) (SetComparatorName new_VersionEdit comparator_Name))"

text \<open>
  The part of \<open>LogAndApply\<close> that fills in the edit and builds the version, and what it does once the edit is in the
  manifest. \<open>Finalize\<close>, which computes floating-point scores, is not part of it.
\<close>

definition LogAndApply_edit :: "VersionEdit \<Rightarrow> VersionSet \<Rightarrow> VersionEdit option" where
  "LogAndApply_edit edit vs =
     (if has_log_number edit \<and> \<not> (log_number edit \<ge> vs_log_number vs \<and> log_number edit < vs_next_file_number vs) then None
      else
        let edit = (if has_log_number edit then edit else SetLogNumber edit (vs_log_number vs));
            edit = (if has_prev_log_number edit then edit else SetPrevLogNumber edit (vs_prev_log_number vs));
            edit = SetNextFile edit (vs_next_file_number vs)
        in Some (SetLastSequence edit (vs_last_sequence vs)))"

definition LogAndApply_install :: "(slice \<Rightarrow> slice \<Rightarrow> int) \<Rightarrow> VersionEdit \<Rightarrow> VersionSet \<Rightarrow> VersionSet option" where
  "LogAndApply_install ucmp edit vs = do {
     b \<leftarrow> builder_Apply ucmp edit (new_Builder (vs_files vs) (vs_fresh vs) (compact_pointer vs));
     (m, v) \<leftarrow> builder_SaveTo ucmp b (vs_current vs);
     Some (vs\<lparr>vs_current := v, vs_files := m, vs_fresh := bd_fresh b, compact_pointer := bd_compact_pointer b,
       vs_log_number := log_number edit, vs_prev_log_number := prev_log_number edit\<rparr>) }"

text \<open>
  What \<open>Recover\<close> collects from the manifest: the status, the builder, which numbers were set, and the numbers. Every
  record comes with the first corruption that the reader reported while it looked for this record, or a good status;
  \<open>last_report\<close> is that of the end of the log.
\<close>

record Recovery =
  rc_status :: Status
  rc_builder :: Builder
  have_log_number :: bool
  have_prev_log_number :: bool
  have_next_file :: bool
  have_last_sequence :: bool
  rc_log_number :: u64
  rc_prev_log_number :: u64
  rc_next_file :: u64
  rc_last_sequence :: u64

definition recover_record :: "(slice \<Rightarrow> slice \<Rightarrow> int) \<Rightarrow> byte list \<Rightarrow> slice \<Rightarrow> Recovery \<Rightarrow> Recovery option" where
  "recover_record ucmp comparator_Name rec r =
     (let (s, edit) = edit_DecodeFrom new_VersionEdit rec;
          s = (if status_ok s \<and> has_comparator edit \<and> ve_comparator edit \<noteq> comparator_Name
               then Status_InvalidArgument (ve_comparator edit @ chars '' does not match existing comparator '') comparator_Name
               else s)
      in do {
        b \<leftarrow> (if status_ok s then builder_Apply ucmp edit (rc_builder r) else Some (rc_builder r));
        let r = r\<lparr>rc_status := s, rc_builder := b\<rparr>;
            r = (if has_log_number edit then r\<lparr>rc_log_number := log_number edit, have_log_number := True\<rparr> else r);
            r = (if has_prev_log_number edit then r\<lparr>rc_prev_log_number := prev_log_number edit, have_prev_log_number := True\<rparr> else r);
            r = (if has_next_file_number edit then r\<lparr>rc_next_file := next_file_number edit, have_next_file := True\<rparr> else r);
            r = (if has_last_sequence edit then r\<lparr>rc_last_sequence := last_sequence edit, have_last_sequence := True\<rparr> else r)
        in Some r })"

definition LogReporter_Corruption :: "Status \<Rightarrow> Recovery \<Rightarrow> Recovery" where
  "LogReporter_Corruption s r = (if status_ok (rc_status r) then r\<lparr>rc_status := s\<rparr> else r)"

fun recover_records ::
  "(slice \<Rightarrow> slice \<Rightarrow> int) \<Rightarrow> byte list \<Rightarrow> Status \<Rightarrow> (Status \<times> slice) list \<Rightarrow> Recovery \<Rightarrow> Recovery option" where
  "recover_records ucmp comparator_Name last_report [] r = Some (LogReporter_Corruption last_report r)"
| "recover_records ucmp comparator_Name last_report ((report, rec) # recs) r =
     (let r = LogReporter_Corruption report r in
      if status_ok (rc_status r) then do {
        r \<leftarrow> recover_record ucmp comparator_Name rec r;
        recover_records ucmp comparator_Name last_report recs r }
      else Some r)"

definition new_Recovery :: "VersionSet \<Rightarrow> Recovery" where
  "new_Recovery vs =
     \<lparr>rc_status = Status_OK, rc_builder = new_Builder (vs_files vs) (vs_fresh vs) (compact_pointer vs),
      have_log_number = False, have_prev_log_number = False, have_next_file = False, have_last_sequence = False,
      rc_log_number = 0, rc_prev_log_number = 0, rc_next_file = 0, rc_last_sequence = 0\<rparr>"

text \<open>The rest of \<open>Recover\<close>; without \<open>Finalize\<close> and \<open>ReuseManifest\<close>.\<close>

definition recover_install :: "(slice \<Rightarrow> slice \<Rightarrow> int) \<Rightarrow> Recovery \<Rightarrow> VersionSet \<Rightarrow> (Status \<times> VersionSet) option" where
  "recover_install ucmp r vs =
     (let vs = vs\<lparr>vs_files := bd_files (rc_builder r), vs_fresh := bd_fresh (rc_builder r),
                 compact_pointer := bd_compact_pointer (rc_builder r)\<rparr> in
      if status_ok (rc_status r) then
        let s = (if \<not> have_next_file r then Status_Corruption (chars ''no meta-nextfile entry in descriptor'') []
                 else if \<not> have_log_number r then Status_Corruption (chars ''no meta-lognumber entry in descriptor'') []
                 else if \<not> have_last_sequence r then Status_Corruption (chars ''no last-sequence-number entry in descriptor'') []
                 else Status_OK);
            prev = (if have_prev_log_number r then rc_prev_log_number r else 0);
            vs = MarkFileNumberUsed (rc_log_number r) (MarkFileNumberUsed prev vs)
        in if status_ok s then do {
             (m, v) \<leftarrow> builder_SaveTo ucmp (rc_builder r) (vs_current vs);
             Some (s, vs\<lparr>vs_current := v, vs_files := m, manifest_file_number := rc_next_file r,
               vs_next_file_number := rc_next_file r + 1, vs_last_sequence := rc_last_sequence r,
               vs_log_number := rc_log_number r, vs_prev_log_number := prev\<rparr>) }
           else Some (s, vs)
      else Some (rc_status r, vs))"

end
