(* ===== verification/LDB_Version_Correct.thy ===== *)
theory LDB_Version_Correct
  imports LDB_Version LDB_Table_Correct LDB_MemTable_Correct
begin

text \<open>
  Looking up a key in a version finds the newest entry that the snapshot sees; the files that overlap a range.
\<close>

section \<open>Finding a file\<close>

lemma FindFile_loop_range:
  fixes ucmp m fs key
  defines "P \<equiv> \<lambda>i. internal_Compare ucmp (largest (m (fs ! i))) key < 0"
  assumes down: "\<And>i j. i < j \<Longrightarrow> j < length fs \<Longrightarrow> P j \<Longrightarrow> P i"
    and "left \<le> right" "right \<le> length fs" "\<forall>i < left. P i" "\<forall>i < length fs. right \<le> i \<longrightarrow> \<not> P i"
  shows "FindFile_loop ucmp m fs key left right \<le> length fs \<and> (\<forall>i < FindFile_loop ucmp m fs key left right. P i) \<and>
    (\<forall>i < length fs. FindFile_loop ucmp m fs key left right \<le> i \<longrightarrow> \<not> P i)"
  using assms(3-)
proof (induction "right - left" arbitrary: left right rule: less_induct)
  case less
  let ?mid = "(left + right) div 2"
  show ?case
  proof (cases "left < right")
    case True
    then have mid: "left \<le> ?mid" "?mid < right" by auto
    show ?thesis
    proof (cases "P ?mid")
      case True
      have "\<forall>i < Suc ?mid. P i" using down [of _ ?mid] True mid less.prems(2) less_trans by (metis less_Suc_eq less_le_trans)
      moreover have "FindFile_loop ucmp m fs key left right = FindFile_loop ucmp m fs key (Suc ?mid) right"
        using True \<open>left < right\<close> by (subst FindFile_loop.simps) (simp add: P_def Let_def)
      ultimately show ?thesis using less.hyps [of right "Suc ?mid"] mid less.prems by simp
    next
      case False
      have "\<forall>i < length fs. ?mid \<le> i \<longrightarrow> \<not> P i" using down [of ?mid] False by (auto simp: le_less)
      moreover have eq: "FindFile_loop ucmp m fs key left right = FindFile_loop ucmp m fs key left ?mid"
        using False \<open>left < right\<close> by (subst FindFile_loop.simps) (simp add: P_def Let_def)
      moreover have "?mid - left < right - left" "?mid \<le> length fs" using mid less.prems(2) by linarith+
      ultimately show ?thesis unfolding eq using less.hyps [of ?mid left] mid(1) less.prems(3) by blast
    qed
  next
    case False
    then have "FindFile_loop ucmp m fs key left right = right" by (subst FindFile_loop.simps) simp
    then show ?thesis using False less.prems by simp
  qed
qed

lemma FindFile_first:
  assumes "\<And>i j. i < j \<Longrightarrow> j < length fs \<Longrightarrow> internal_Compare ucmp (largest (m (fs ! j))) key < 0 \<Longrightarrow>
      internal_Compare ucmp (largest (m (fs ! i))) key < 0"
  shows "FindFile ucmp m fs key \<le> length fs"
    and "i < FindFile ucmp m fs key \<Longrightarrow> internal_Compare ucmp (largest (m (fs ! i))) key < 0"
    and "FindFile ucmp m fs key \<le> i \<Longrightarrow> i < length fs \<Longrightarrow> \<not> internal_Compare ucmp (largest (m (fs ! i))) key < 0"
  using FindFile_loop_range [of fs ucmp m key 0 "length fs"] assms by (auto simp: FindFile_def)

section \<open>Overlapping files\<close>

text \<open>
  Ranges of keys, with \<open>None\<close> for an end that is not bounded, and the interval of keys of a file against a range.
\<close>

definition overlaps :: "('k \<Rightarrow> 'k \<Rightarrow> int) \<Rightarrow> 'k option \<times> 'k option \<Rightarrow> 'k \<times> 'k \<Rightarrow> bool" where
  "overlaps cmp r f \<longleftrightarrow>
     \<not> case_option False (\<lambda>b. cmp (snd f) b < 0) (fst r) \<and> \<not> case_option False (\<lambda>e. cmp (fst f) e > 0) (snd r)"

definition inside :: "('k \<Rightarrow> 'k \<Rightarrow> int) \<Rightarrow> 'k option \<times> 'k option \<Rightarrow> 'k \<times> 'k \<Rightarrow> bool" where
  "inside cmp r f \<longleftrightarrow>
     \<not> case_option False (\<lambda>b. cmp (fst f) b < 0) (fst r) \<and> \<not> case_option False (\<lambda>e. cmp (snd f) e > 0) (snd r)"

definition wider_begin :: "('k \<Rightarrow> 'k \<Rightarrow> int) \<Rightarrow> 'k option \<Rightarrow> 'k option \<Rightarrow> bool" where
  "wider_begin cmp b b' \<longleftrightarrow> (case b of None \<Rightarrow> True | Some x \<Rightarrow> (case b' of None \<Rightarrow> False | Some y \<Rightarrow> cmp x y \<le> 0))"

definition wider_end :: "('k \<Rightarrow> 'k \<Rightarrow> int) \<Rightarrow> 'k option \<Rightarrow> 'k option \<Rightarrow> bool" where
  "wider_end cmp e e' \<longleftrightarrow> (case e of None \<Rightarrow> True | Some x \<Rightarrow> (case e' of None \<Rightarrow> False | Some y \<Rightarrow> cmp y x \<le> 0))"

definition wider :: "('k \<Rightarrow> 'k \<Rightarrow> int) \<Rightarrow> 'k option \<times> 'k option \<Rightarrow> 'k option \<times> 'k option \<Rightarrow> bool" where
  "wider cmp r r' \<longleftrightarrow> wider_begin cmp (fst r) (fst r') \<and> wider_end cmp (snd r) (snd r')"

text \<open>A range that contains every file that it overlaps.\<close>

definition closed_range :: "('k \<Rightarrow> 'k \<Rightarrow> int) \<Rightarrow> ('k \<times> 'k) list \<Rightarrow> 'k option \<times> 'k option \<Rightarrow> bool" where
  "closed_range cmp fs r \<longleftrightarrow> list_all (\<lambda>f. overlaps cmp r f \<longrightarrow> inside cmp r f) fs"

abbreviation range_ok :: "('k \<Rightarrow> bool) \<Rightarrow> 'k option \<times> 'k option \<Rightarrow> bool" where
  "range_ok ok r \<equiv> pred_option ok (fst r) \<and> pred_option ok (snd r)"

context key_order begin

lemma compare_ge: "ok a \<Longrightarrow> ok b \<Longrightarrow> \<not> Compare a b < 0 \<longleftrightarrow> Compare b a \<le> 0"
  using compare_flip [of a b] compare_flip [of b a] by linarith

lemma compare_gt: "ok a \<Longrightarrow> ok b \<Longrightarrow> Compare a b > 0 \<longleftrightarrow> Compare b a < 0"
  using compare_flip [of a b] compare_flip [of b a] by linarith

lemma compare_eq_trans: "ok a \<Longrightarrow> ok b \<Longrightarrow> ok c \<Longrightarrow> Compare a b = 0 \<Longrightarrow> Compare b c = 0 \<Longrightarrow> Compare a c = 0"
  using compare_trans [of a b c] compare_trans [of c b a] compare_eq_flip [of a b] compare_eq_flip [of b c] compare_ge [of a c]
  by force

lemma wider_refl: "range_ok ok r \<Longrightarrow> wider Compare r r"
  by (auto simp: wider_def wider_begin_def wider_end_def compare_refl split: option.splits)

lemma wider_begin_trans:
  "pred_option ok a \<Longrightarrow> pred_option ok b \<Longrightarrow> pred_option ok c \<Longrightarrow> wider_begin Compare a b \<Longrightarrow> wider_begin Compare b c \<Longrightarrow> wider_begin Compare a c"
  by (cases a; cases b; cases c) (auto simp: wider_begin_def intro: compare_trans)

lemma wider_end_trans:
  "pred_option ok a \<Longrightarrow> pred_option ok b \<Longrightarrow> pred_option ok c \<Longrightarrow> wider_end Compare a b \<Longrightarrow> wider_end Compare b c \<Longrightarrow> wider_end Compare a c"
  by (cases a; cases b; cases c) (auto simp: wider_end_def intro: compare_trans)

lemma overlaps_wider:
  assumes "range_ok ok r" "range_ok ok r'" "ok s" "ok l" "wider Compare r r'" "overlaps Compare r' (s, l)"
  shows "overlaps Compare r (s, l)"
proof -
  have "\<not> case_option False (\<lambda>b. Compare l b < 0) (fst r)"
    using assms by (cases "fst r"; cases "fst r'")
      (auto simp: wider_def wider_begin_def overlaps_def compare_ge intro: compare_trans)
  moreover have "\<not> Compare s e > 0" if e: "snd r = Some e" for e
  proof -
    obtain e' where "snd r' = Some e'" "Compare e' e \<le> 0" 
      using assms(5) e by (cases "snd r'") (auto simp: wider_def wider_end_def)
    moreover have "Compare s e' \<le> 0" using assms(6) calculation(1) by (simp add: overlaps_def)
    ultimately have "Compare s e \<le> 0" using assms(1-3) e compare_trans [of s e' e] by simp
    then show ?thesis by simp
  qed
  ultimately show ?thesis by (auto simp: overlaps_def split: option.splits)
qed

text \<open>Widening a range to a file that it overlaps keeps it inside every closed range around it.\<close>

lemma closed_wider:
  assumes "closed_range Compare fs R" "range_ok ok R" "range_ok ok r" "wider Compare R r" "(s, l) \<in> set fs" "ok s" "ok l" "overlaps Compare r (s, l)"
  shows "wider Compare R (Some s, snd r)" and "wider Compare R (fst r, Some l)"
proof -
  have "overlaps Compare R (s, l)" using overlaps_wider [OF assms(2,3,6,7,4,8)] .
  then have i: "inside Compare R (s, l)" using assms(1,5) by (auto simp: closed_range_def list_all_iff)
  show "wider Compare R (Some s, snd r)"
    using i assms(2,4,6) by (auto simp: wider_def wider_begin_def inside_def compare_ge split: option.splits)
  show "wider Compare R (fst r, Some l)"
    using i assms(4) by (auto simp: wider_def wider_end_def inside_def split: option.splits)
qed

end

abbreviation key_range :: "files \<Rightarrow> nat \<Rightarrow> slice \<times> slice" where
  "key_range m f \<equiv> (start_key m f, limit_key m f)"

lemma overlap_step_cases:
  "overlap_step ucmp m level fs (i, b, e, inputs) =
     (if \<not> overlaps ucmp (b, e) (key_range m (fs ! i)) then (Suc i, b, e, inputs)
      else if level = 0 \<and> case_option False (\<lambda>b. ucmp (start_key m (fs ! i)) b < 0) b then (0, Some (start_key m (fs ! i)), e, [])
      else if level = 0 \<and> case_option False (\<lambda>e. ucmp (limit_key m (fs ! i)) e > 0) e then (0, b, Some (limit_key m (fs ! i)), [])
      else (Suc i, b, e, inputs @ [fs ! i]))"
  by (cases b; cases e; simp add: overlaps_def Let_def)

declare overlap_step.simps [simp del]

lemma length_filter_less:
  assumes "\<And>x. x \<in> set xs \<Longrightarrow> P x \<Longrightarrow> Q x" "x \<in> set xs" "Q x" "\<not> P x"
  shows "length (filter P xs) < length (filter Q xs)"
proof -
  have le: "length (filter P ys) \<le> length (filter Q ys)" if "set ys \<subseteq> set xs" for ys
    using that assms(1) by (induction ys) auto
  obtain ys zs where xs: "xs = ys @ x # zs" using assms(2) by (meson split_list)
  then have "length (filter P ys) \<le> length (filter Q ys)" "length (filter P zs) \<le> length (filter Q zs)" using le by auto
  then show ?thesis using assms(3,4) by (simp add: xs)
qed

text \<open>How often a search may still start again.\<close>

definition restarts :: "(slice \<Rightarrow> slice \<Rightarrow> int) \<Rightarrow> files \<Rightarrow> nat list \<Rightarrow> slice option \<times> slice option \<Rightarrow> nat" where
  "restarts ucmp m fs r =
     length (filter (\<lambda>f. case_option False (\<lambda>b. ucmp (start_key m f) b < 0) (fst r)) fs) +
     length (filter (\<lambda>f. case_option False (\<lambda>e. ucmp (limit_key m f) e > 0) (snd r)) fs)"

lemma restarts_less:
  assumes order: "key_order ok ucmp" and fs: "\<forall>f \<in> set fs. ok (start_key m f) \<and> ok (limit_key m f)" and f: "f \<in> set fs"
  shows "ok b \<Longrightarrow> ucmp (start_key m f) b < 0 \<Longrightarrow> restarts ucmp m fs (Some (start_key m f), e) < restarts ucmp m fs (Some b, e)"
    and "ok d \<Longrightarrow> ucmp (limit_key m f) d > 0 \<Longrightarrow> restarts ucmp m fs (c, Some (limit_key m f)) < restarts ucmp m fs (c, Some d)"
proof -
  have ok: "ok (start_key m f)" "ok (limit_key m f)" using fs f by auto
  show "restarts ucmp m fs (Some (start_key m f), e) < restarts ucmp m fs (Some b, e)" if "ok b" "ucmp (start_key m f) b < 0"
    unfolding restarts_def fst_conv snd_conv option.case
    using length_filter_less [of fs "\<lambda>g. ucmp (start_key m g) (start_key m f) < 0" "\<lambda>g. ucmp (start_key m g) b < 0" f]
      key_order.compare_less_trans [OF order _ ok(1) that(1)] key_order.compare_refl [OF order ok(1)] fs f that(2) by simp
  show "restarts ucmp m fs (c, Some (limit_key m f)) < restarts ucmp m fs (c, Some d)" if d: "ok d" "ucmp (limit_key m f) d > 0"
  proof -
    have "ucmp (limit_key m g) d > 0" if "g \<in> set fs" "ucmp (limit_key m g) (limit_key m f) > 0" for g
      using key_order.compare_less_trans [OF order d(1) ok(2), of "limit_key m g"] key_order.compare_gt [OF order] d ok(2) fs that by auto
    then show ?thesis
      unfolding restarts_def fst_conv snd_conv option.case
      using length_filter_less [of fs "\<lambda>g. ucmp (limit_key m g) (limit_key m f) > 0" "\<lambda>g. ucmp (limit_key m g) d > 0" f]
        key_order.compare_refl [OF order ok(2)] f d(2) by simp
  qed
qed

lemma overlapping_loop_ends:
  assumes order: "key_order ok ucmp" and fs: "\<forall>f \<in> set fs. ok (start_key m f) \<and> ok (limit_key m f)"
    and "i \<le> length fs" "pred_option ok b" "pred_option ok e"
    and "inputs = filter (\<lambda>f. overlaps ucmp (b, e) (key_range m f)) (take i fs)"
    and "level = 0 \<Longrightarrow> closed_range ucmp (map (key_range m) (take i fs)) (b, e)"
  shows "\<exists>r. overlapping_loop ucmp m level fs (i, b, e, inputs) = Some (filter (\<lambda>f. overlaps ucmp r (key_range m f)) fs) \<and>
    range_ok ok r \<and> wider ucmp r (b, e) \<and>
    (if level = 0 then closed_range ucmp (map (key_range m) fs) r \<and>
        (\<forall>R. range_ok ok R \<and> closed_range ucmp (map (key_range m) fs) R \<and> wider ucmp R (b, e) \<longrightarrow> wider ucmp R r)
     else r = (b, e))"
  using assms(3-)
proof (induction "restarts ucmp m fs (b, e) * Suc (length fs) + (length fs - i)" arbitrary: i b e inputs rule: less_induct)
  case less
  show ?case
  proof (cases "i < length fs")
    case False
    then have "i = length fs" using less.prems(1) by simp
    moreover have "overlapping_loop ucmp m level fs (i, b, e, inputs) = Some inputs"
      using False by (subst overlapping_loop.simps) simp
    ultimately show ?thesis
      using less.prems key_order.wider_refl [OF order, of "(b, e)"] by (intro exI [of _ "(b, e)"]) simp
  next
    case True
    let ?f = "fs ! i"
    have f: "?f \<in> set fs" "ok (start_key m ?f)" "ok (limit_key m ?f)" using True fs by auto
    have take: "take (Suc i) fs = take i fs @ [?f]" using True by (rule take_Suc_conv_app_nth)
    have step: "overlapping_loop ucmp m level fs (i, b, e, inputs) =
        overlapping_loop ucmp m level fs (overlap_step ucmp m level fs (i, b, e, inputs))"
      using True by (subst overlapping_loop.simps) simp
    have wtrans: "wider ucmp r (b, e)" if "range_ok ok r" "range_ok ok r'" "wider ucmp r r'" "wider ucmp r' (b, e)" for r r'
      using that less.prems(2,3) key_order.wider_begin_trans [OF order] key_order.wider_end_trans [OF order]
      unfolding wider_def by (metis fst_conv snd_conv)
    have restart: ?thesis
      if "level = 0" "overlap_step ucmp m level fs (i, b, e, inputs) = (0, b', e', [])" "range_ok ok (b', e')"
        "restarts ucmp m fs (b', e') < restarts ucmp m fs (b, e)" "wider ucmp (b', e') (b, e)"
        "\<And>R. range_ok ok R \<Longrightarrow> closed_range ucmp (map (key_range m) fs) R \<Longrightarrow> wider ucmp R (b, e) \<Longrightarrow> wider ucmp R (b', e')" for b' e'
    proof -
      have "Suc (restarts ucmp m fs (b', e')) * Suc (length fs) \<le> restarts ucmp m fs (b, e) * Suc (length fs)"
        using that(4) by (intro mult_le_mono1) simp
      then have "restarts ucmp m fs (b', e') * Suc (length fs) + (length fs - 0) <
          restarts ucmp m fs (b, e) * Suc (length fs) + (length fs - i)" by simp
      note level0 = that(1) and less' = this
      have c0: "closed_range ucmp (map (key_range m) (take 0 fs)) (b', e')" by (simp add: closed_range_def)
      from less.hyps [OF less', of "[]"] that(3) c0 obtain r where
        "overlapping_loop ucmp m level fs (0, b', e', []) = Some (filter (\<lambda>f. overlaps ucmp r (key_range m f)) fs)"
        "range_ok ok r" "wider ucmp r (b', e')" "closed_range ucmp (map (key_range m) fs) r"
        "\<forall>R. range_ok ok R \<and> closed_range ucmp (map (key_range m) fs) R \<and> wider ucmp R (b', e') \<longrightarrow> wider ucmp R r"
        unfolding if_P [OF level0] by auto
      then show ?thesis
        using wtrans [OF _ that(3) _ that(5), of r] that(1,2,6) step by (intro exI [of _ r]) simp
    qed
    have forward: ?thesis
      if "overlap_step ucmp m level fs (i, b, e, inputs) = (Suc i, b, e, inputs')"
        "inputs' = filter (\<lambda>f. overlaps ucmp (b, e) (key_range m f)) (take (Suc i) fs)"
        "level = 0 \<Longrightarrow> overlaps ucmp (b, e) (key_range m ?f) \<Longrightarrow> inside ucmp (b, e) (key_range m ?f)" for inputs'
    proof -
      have "restarts ucmp m fs (b, e) * Suc (length fs) + (length fs - Suc i) < restarts ucmp m fs (b, e) * Suc (length fs) + (length fs - i)"
        using True by simp
      from less.hyps [OF this _ less.prems(2,3) that(2)] less.prems(5) that(3) True
      show ?thesis unfolding step that(1) by (simp add: take closed_range_def)
    qed
    show ?thesis
    proof (cases "overlaps ucmp (b, e) (key_range m ?f)")
      case False
      then show ?thesis by (intro forward [of inputs]) (simp_all add: overlap_step_cases take less.prems(4))
    next
      case over: True
      note closed = key_order.closed_wider [OF order _ _ _ _ _ f(2,3) over, of "map (key_range m) fs"]
      consider b0 where "level = 0" "b = Some b0" "ucmp (start_key m ?f) b0 < 0"
        | e0 where "level = 0" "\<not> case_option False (\<lambda>b. ucmp (start_key m (fs ! i)) b < 0) b" "e = Some e0" "ucmp (limit_key m ?f) e0 > 0"
        | "level = 0 \<longrightarrow> inside ucmp (b, e) (key_range m ?f)"
        by (cases b; cases e; fastforce simp: inside_def)
      then show ?thesis
      proof cases
        case 1
        have "wider ucmp (Some (start_key m ?f), e) (b, e)"
          using key_order.wider_refl [OF order, of "(b, e)"] less.prems(2,3) 1 by (auto simp: wider_def wider_begin_def)
        then show ?thesis
          using restarts_less(1) [OF order fs f(1) _ 1(3)] closed(1) less.prems(2,3) 1 f over
          by (intro restart [of "Some (start_key m ?f)" e]) (auto simp: overlap_step_cases)
      next
        case 2
        have "wider ucmp (b, Some (limit_key m ?f)) (b, e)"
          using key_order.wider_refl [OF order, of "(b, e)"] less.prems(2,3) 2 key_order.compare_gt [OF order f(3)]
          by (auto simp: wider_def wider_end_def)
        then show ?thesis
          using restarts_less(2) [OF order fs f(1) _ 2(4)] closed(2) less.prems(2,3) 2 f over
          by (intro restart [of b "Some (limit_key m ?f)"]) (auto simp: overlap_step_cases)
      next
        case 3
        then show ?thesis
          using over by (intro forward [of "inputs @ [?f]"])
            (auto simp: overlap_step_cases take less.prems(4) inside_def split: option.splits)
      qed
    qed
  qed
qed


definition demo_files :: files where
  "demo_files f = new_FileMetaData (of_nat f) 100 (new_InternalKey [of_nat f] 9 kTypeValue) (new_InternalKey [of_nat (f + 2)] 3 kTypeValue)"


section \<open>Looking up\<close>

text \<open>
  What a version needs of the tables it reads: for each file that is stored with these entries, looking a key up
  succeeds and finds the entry, up to \<open>n\<close> times.
\<close>

locale table_store =
  fixes ok :: "slice \<Rightarrow> bool" and opts :: Options and stored :: "u64 \<Rightarrow> (u64 \<times> (slice \<times> slice) list) option"
    and good :: "nat \<Rightarrow> 'c \<Rightarrow> bool" and TGet :: "'c table_get"
  assumes get_stored: "good (Suc n) c \<Longrightarrow> stored num = Some (fsize, kvs) \<Longrightarrow> ok k \<Longrightarrow>
    \<exists>saved c'. TGet num fsize k c = Some (Status_OK, saved, c') \<and> good n c' \<and> found ok opts kvs k saved"

fun version_kv :: "version \<Rightarrow> slice \<times> slice" where
  "version_kv (s, t, u, v) = (new_InternalKey u s t, v)"

fun visible :: "(slice \<Rightarrow> slice \<Rightarrow> int) \<Rightarrow> slice \<Rightarrow> u64 \<Rightarrow> version \<Rightarrow> bool" where
  "visible ucmp w snap (s, t, u, v) \<longleftrightarrow> ucmp u w = 0 \<and> s \<le> snap"

fun saver_result :: "version option \<Rightarrow> slice \<Rightarrow> SaverState \<times> slice" where
  "saver_result None val = (kNotFound_saver, val)"
| "saver_result (Some (_, kTypeValue, _, v)) val = (kFound, v)"
| "saver_result (Some (_, kTypeDeletion, _, _)) val = (kDeleted, val)"

lemma newest_visible: "newest ucmp es w snap = find (visible ucmp w snap) (rev es)"
proof -
  have "visible ucmp w snap = (\<lambda>(s, t, u, v). ucmp u w = 0 \<and> s \<le> snap)" by auto
  then show ?thesis by (simp add: newest_def)
qed

lemma internal_lookup_less:
  assumes "version_ok ok (s, t, u, v)" "snap \<le> kMaxSequenceNumber"
  shows "internal_Compare ucmp (new_InternalKey u s t) (new_InternalKey w snap kTypeValue) < 0 \<longleftrightarrow>
    ucmp u w < 0 \<or> ucmp u w = 0 \<and> snap < s"
  using PackSequenceAndType_less [of snap s kTypeValue t] assms by (simp add: internal_Compare_less new_InternalKey_eq)

lemma SaveValue_version:
  assumes "version_ok ok (s, t, u, v)"
  shows "SaveValue ucmp w (kNotFound_saver, val) (new_InternalKey u s t) v =
    (if ucmp u w = 0 then saver_result (Some (s, t, u, v)) val else (kNotFound_saver, val))"
  using Parse_AppendInternalKey [of "\<lparr>user_key = u, sequence = s, vtype = t\<rparr>"] assms
  by (cases t) (simp_all add: SaveValue_def new_InternalKey_def)

lemma internal_findable:
  assumes "table_options ok opts" and "ok u" "ok w" "opt_Compare opts u w = 0"
    and filter: "opt_filter_policy opts \<noteq> None \<Longrightarrow> u = w"
    and k: "ExtractUserKey k' = u" "ExtractUserKey k = w" "8 \<le> length k'" "8 \<le> length k"
  shows "findable (internal_ok ok) (SanitizeOptions opts) k' k"
proof -
  note cmp = table_options.axioms(1) [OF assms(1)]
  note order = comparator.axioms(1) [OF cmp]
  let ?c = "opt_Compare opts" and ?sep = "opt_FindShortestSeparator opts"
  have "internal_Compare ?c (internal_FindShortestSeparator ?c ?sep a k') k < 0"
    if a: "internal_ok ok a" "internal_Compare ?c a k < 0" "internal_Compare ?c a k' < 0" for a
  proof (cases "length (?sep (ExtractUserKey a) u) < length (ExtractUserKey a) \<and> ?c (ExtractUserKey a) (?sep (ExtractUserKey a) u) < 0")
    case True
    have "?c (ExtractUserKey a) u \<noteq> 0" using True comparator.separator_same [OF cmp, of "ExtractUserKey a" u] a(1) assms(2) by auto
    then have "?c (ExtractUserKey a) u < 0" using a(3) k(1) by (auto simp: internal_Compare_less)
    then have "?c (?sep (ExtractUserKey a) u) u < 0" "ok (?sep (ExtractUserKey a) u)"
      using comparator.separator [OF cmp, of "ExtractUserKey a" u] comparator.separator_ok [OF cmp, of "ExtractUserKey a" u] a(1) assms(2) by auto
    then have "?c (?sep (ExtractUserKey a) u) w < 0" using key_order.compare_less_le_trans [OF order _ assms(2,3)] assms(4) by simp
    then show ?thesis using True k by (simp add: internal_FindShortestSeparator_def Let_def internal_Compare_less PutFixed64_def)
  next
    case False
    then have "internal_FindShortestSeparator ?c ?sep a k' = a" using k(1) by (auto simp: internal_FindShortestSeparator_def Let_def)
    then show ?thesis using a(2) by simp
  qed
  moreover have "fp_KeyMayMatch p k (fp_CreateFilter p keys)"
    if p: "opt_filter_policy (SanitizeOptions opts) = Some p" "list_all (internal_ok ok) keys" "k' \<in> set keys" for p keys
  proof -
    obtain q where q: "opt_filter_policy opts = Some q" "p = InternalFilterPolicy q" using p(1) by (auto simp: SanitizeOptions_def)
    have "w \<in> set (map ExtractUserKey keys)" using filter q(1) p(3) k(1) by force
    moreover have "list_all ok (map ExtractUserKey keys)" using p(2) by (auto simp: list_all_iff)
    ultimately have "fp_KeyMayMatch q w (fp_CreateFilter q (map ExtractUserKey keys))"
      using filter_policy.no_false_negative [OF table_options.policy [OF assms(1) q(1)]] by blast
    then show ?thesis by (simp add: q(2) InternalFilterPolicy_def internal_KeyMayMatch_def internal_CreateFilter_def k(2))
  qed
  ultimately show ?thesis by (simp add: findable_def SanitizeOptions_def)
qed

section \<open>The shape of the levels\<close>

text \<open>
  The entries of a file are in order and its bounds are its first and last keys; \<open>newer_than\<close>: the first list
  has the newer entries of every key that both have.
\<close>

definition file_shape :: "(slice \<Rightarrow> slice \<Rightarrow> int) \<Rightarrow> (slice \<Rightarrow> bool) \<Rightarrow> files \<Rightarrow> (nat \<Rightarrow> version list) \<Rightarrow> nat \<Rightarrow> bool" where
  "file_shape ucmp ok m contents f \<longleftrightarrow>
     contents f \<noteq> [] \<and> list_all (version_ok ok) (contents f) \<and>
     sorted_wrt (\<lambda>a b. internal_Compare ucmp (version_key a) (version_key b) < 0) (contents f) \<and>
     smallest (m f) = version_key (hd (contents f)) \<and> largest (m f) = version_key (last (contents f))"

fun newer :: "(slice \<Rightarrow> slice \<Rightarrow> int) \<Rightarrow> version \<Rightarrow> version \<Rightarrow> bool" where
  "newer ucmp (s, t, u, v) (s', t', u', v') \<longleftrightarrow> (ucmp u u' = 0 \<longrightarrow> s' < s)"

definition newer_than :: "(slice \<Rightarrow> slice \<Rightarrow> int) \<Rightarrow> version list \<Rightarrow> version list \<Rightarrow> bool" where
  "newer_than ucmp xs ys \<longleftrightarrow> list_all (\<lambda>x. list_all (newer ucmp x) ys) xs"

text \<open>
  Among the files of level 0 those with the larger numbers are newer; in the other levels the files are disjoint and
  in order; a level is newer than the levels after it.
\<close>

definition level0_shape :: "(slice \<Rightarrow> slice \<Rightarrow> int) \<Rightarrow> files \<Rightarrow> (nat \<Rightarrow> version list) \<Rightarrow> nat list \<Rightarrow> bool" where
  "level0_shape ucmp m contents fs \<longleftrightarrow>
     distinct (map (\<lambda>f. fm_number (m f)) fs) \<and>
     list_all (\<lambda>f. list_all (\<lambda>g. NewestFirst m f g \<longrightarrow> newer_than ucmp (contents f) (contents g)) fs) fs"

definition level_shape :: "(slice \<Rightarrow> slice \<Rightarrow> int) \<Rightarrow> files \<Rightarrow> nat list \<Rightarrow> bool" where
  "level_shape ucmp m fs \<longleftrightarrow> sorted_wrt (\<lambda>f g. internal_Compare ucmp (largest (m f)) (smallest (m g)) < 0) fs"

definition version_shape :: "(slice \<Rightarrow> slice \<Rightarrow> int) \<Rightarrow> (slice \<Rightarrow> bool) \<Rightarrow> files \<Rightarrow> (nat \<Rightarrow> version list) \<Rightarrow> Version \<Rightarrow> bool" where
  "version_shape ucmp ok m contents v \<longleftrightarrow>
     length (levels v) = kNumLevels \<and>
     list_all (list_all (file_shape ucmp ok m contents)) (levels v) \<and>
     level0_shape ucmp m contents (levels v ! 0) \<and> list_all (level_shape ucmp m) (tl (levels v)) \<and>
     sorted_wrt (\<lambda>fs gs. list_all (\<lambda>f. list_all (\<lambda>g. newer_than ucmp (contents f) (contents g)) gs) fs) (levels v)"

lemma newer_thanD: "newer_than ucmp xs ys \<Longrightarrow> a \<in> set xs \<Longrightarrow> b \<in> set ys \<Longrightarrow> newer ucmp a b"
  by (auto simp: newer_than_def list_all_iff)

lemma set_insert_newest [simp]: "set (insert_newest m f gs) = insert f (set gs)"
  by (induction gs) auto

lemma set_sort_newest [simp]: "set (sort_newest m fs) = set fs"
  by (induction fs) (simp_all add: sort_newest_def)

lemma sort_newest_sorted:
  assumes "distinct (map (\<lambda>f. fm_number (m f)) fs)"
  shows "sorted_wrt (NewestFirst m) (sort_newest m fs)"
proof -
  have ins: "sorted_wrt (NewestFirst m) (insert_newest m f gs)"
    if "sorted_wrt (NewestFirst m) gs" "fm_number (m f) \<notin> (\<lambda>g. fm_number (m g)) ` set gs" for f gs
    using that by (induction gs) (auto simp: NewestFirst_def)
  have "sorted_wrt (NewestFirst m) (foldr (insert_newest m) fs [])"
    using assms
  proof (induction fs)
    case (Cons f fs)
    then show ?case using ins [of "foldr (insert_newest m) fs []" f] set_sort_newest [of m fs] by (simp add: sort_newest_def)
  qed simp
  then show ?thesis by (simp add: sort_newest_def)
qed

lemma length_sort_newest [simp]: "length (sort_newest m fs) = length fs"
proof -
  have "length (insert_newest m f gs) = Suc (length gs)" for f gs by (induction gs) auto
  then show ?thesis by (induction fs) (simp_all add: sort_newest_def)
qed

section \<open>One file\<close>

lemma internal_newer:
  assumes "version_ok ok a" "version_ok ok b" "internal_Compare ucmp (version_key a) (version_key b) < 0" "fst a \<noteq> fst b"
  shows "newer ucmp a b"
proof -
  obtain s t u v where a: "a = (s, t, u, v)" by (cases a)
  obtain s' t' u' v' where b: "b = (s', t', u', v')" by (cases b)
  show ?thesis
    using assms PackSequenceAndType_less [of s s' t t'] PackSequenceAndType_less [of s' s t' t]
    by (auto simp: a b internal_Compare_less new_InternalKey_eq)
qed

text \<open>What a lookup in a file of these entries saves is the first entry that the snapshot sees.\<close>

lemma found_saver:
  assumes opts: "table_options ok opts" and eq: "opt_filter_policy opts \<noteq> None \<Longrightarrow> \<forall>u w. ok u \<and> ok w \<and> opt_Compare opts u w = 0 \<longrightarrow> u = w"
    and es: "list_all (version_ok ok) es" "sorted_wrt (\<lambda>a b. internal_Compare (opt_Compare opts) (version_key a) (version_key b) < 0) es"
    and w: "ok w" "snap \<le> kMaxSequenceNumber"
    and f: "found (internal_ok ok) (SanitizeOptions opts) (map version_kv es) (new_InternalKey w snap kTypeValue) saved"
  shows "(case saved of None \<Rightarrow> (kNotFound_saver, val) | Some (k, v) \<Rightarrow> SaveValue (opt_Compare opts) w (kNotFound_saver, val) k v) =
    saver_result (find (visible (opt_Compare opts) w snap) es) val"
proof -
  let ?c = "opt_Compare opts" and ?k = "new_InternalKey w snap kTypeValue"
  note order = comparator.axioms(1) [OF table_options.axioms(1) [OF opts]]
  let ?P = "\<lambda>e. internal_Compare ?c (version_key e) ?k < 0"
  have below: "?P (s, t, u, v) \<longleftrightarrow> ?c u w < 0 \<or> ?c u w = 0 \<and> snap < s" if "(s, t, u, v) \<in> set es" for s t u v
    using internal_lookup_less [of ok s t u v snap ?c w] that es(1) w(2) by (auto simp: list_all_iff)
  have "\<not> visible ?c w snap e" if "e \<in> set es" "?P e" for e using below that by (cases e) auto
  then have find: "find (visible ?c w snap) es = find (visible ?c w snap) (dropWhile ?P es)"
    by (induction es) auto
  have "(below (opt_Compare (SanitizeOptions opts)) ?k \<circ> version_kv) = ?P"
    by (auto simp: SanitizeOptions_def fun_eq_iff)
  then have dw: "dropWhile (below (opt_Compare (SanitizeOptions opts)) ?k) (map version_kv es) = map version_kv (dropWhile ?P es)"
    by (simp add: dropWhile_map)
  show ?thesis
  proof (cases "dropWhile ?P es")
    case Nil
    show ?thesis using f unfolding find found_def dw Nil by simp
  next
    case (Cons e rest)
    obtain s t u v where e: "e = (s, t, u, v)" by (cases e)
    have mem: "(s, t, u, v) \<in> set es" "\<not> ?P (s, t, u, v)"
      using Cons set_dropWhileD [of e ?P es] hd_dropWhile [of ?P es] by (auto simp: e)
    have eok: "version_ok ok (s, t, u, v)" using es(1) mem(1) by (auto simp: list_all_iff)
    have f': "saved = None \<or> saved = Some (new_InternalKey u s t, v)"
      "findable (internal_ok ok) (SanitizeOptions opts) (new_InternalKey u s t) ?k \<Longrightarrow> saved = Some (new_InternalKey u s t, v)"
      using f unfolding found_def dw Cons e by auto
    show ?thesis
    proof (cases "?c u w = 0")
      case True
      have "findable (internal_ok ok) (SanitizeOptions opts) (new_InternalKey u s t) ?k"
        using internal_findable [OF opts _ w(1) True, of "new_InternalKey u s t" ?k] eq eok w(1) True
        by (auto simp: length_new_InternalKey new_InternalKey_eq)
      moreover have "visible ?c w snap (s, t, u, v)" using True mem below [OF mem(1)] by auto
      ultimately show ?thesis using f'(2) SaveValue_version [OF eok, of ?c w val] True by (simp add: find Cons e)
    next
      case False
      have "\<not> visible ?c w snap b" if "b \<in> set (dropWhile ?P es)" for b
      proof
        assume vis: "visible ?c w snap b"
        obtain s' t' u' v' where b: "b = (s', t', u', v')" by (cases b)
        have "b \<in> set es" using that by (rule set_dropWhileD)
        then have bok: "version_ok ok (s', t', u', v')" using es(1) by (auto simp: list_all_iff b)
        have "sorted_wrt (\<lambda>a b. internal_Compare ?c (version_key a) (version_key b) < 0) (dropWhile ?P es)"
          using es(2) sorted_wrt_drop [of _ es] by (simp add: dropWhile_eq_drop)
        then have "b = e \<or> internal_Compare ?c (version_key e) (version_key b) < 0" using that by (auto simp: Cons)
        then have "?c u u' \<le> 0" using False vis by (auto simp: e b internal_Compare_less new_InternalKey_eq)
        then have "?c u w \<le> 0" using key_order.compare_trans [OF order, of u u' w] eok bok w(1) vis by (simp add: b)
        then show False using mem(2) below [OF mem(1)] False by auto
      qed
      then have "find (visible ?c w snap) (dropWhile ?P es) = None" by (simp only: find_None_iff) blast
      then show ?thesis using f'(1) SaveValue_version [OF eok, of ?c w val] False by (auto simp: find simp del: dropWhile_eq_Nil_conv)
    qed
  qed
qed

section \<open>The files of a version\<close>

fun version_result :: "version option \<Rightarrow> slice \<Rightarrow> Status \<times> slice" where
  "version_result None val = (Status_NotFound [] [], val)"
| "version_result (Some (_, kTypeValue, _, v)) val = (Status_OK, v)"
| "version_result (Some (_, kTypeDeletion, _, _)) val = (Status_NotFound [] [], val)"

text \<open>The loop over files with these entries: the first entry in their order that the snapshot sees.\<close>

lemma Get_loop_finds:
  assumes opts: "table_options ok opts" and eq: "opt_filter_policy opts \<noteq> None \<Longrightarrow> \<forall>u w. ok u \<and> ok w \<and> opt_Compare opts u w = 0 \<longrightarrow> u = w"
    and store: "table_store (internal_ok ok) (SanitizeOptions opts) stored good TGet"
    and w: "ok w" "snap \<le> kMaxSequenceNumber"
    and "\<forall>(l, f) \<in> set cs. file_shape (opt_Compare opts) ok m contents f \<and>
      stored (fm_number (m f)) = Some (file_size (m f), map version_kv (contents f))"
    and "good n c" "length cs \<le> n"
  shows "\<exists>stats' c' n'. n \<le> n' + length cs \<and> good n' c' \<and> version_Get_loop TGet (opt_Compare opts) m w (new_InternalKey w snap kTypeValue) cs last_read stats val c =
    (let (st, val') = version_result (find (visible (opt_Compare opts) w snap) (concat (map (contents \<circ> snd) cs))) val
     in Some (st, val', stats', c'))"
  using assms(6-)
proof (induction cs arbitrary: n c last_read stats)
  case (Cons lf cs)
  let ?vis = "visible (opt_Compare opts) w snap" and ?k = "new_InternalKey w snap kTypeValue"
  obtain l f where lf: "lf = (l, f)" by (cases lf)
  obtain n' where n: "n = Suc n'" "length cs \<le> n'" using Cons.prems(3) by (cases n) auto
  have f: "file_shape (opt_Compare opts) ok m contents f" "stored (fm_number (m f)) = Some (file_size (m f), map version_kv (contents f))"
    using Cons.prems(1) by (auto simp: lf)
  have "internal_ok ok ?k" using w(1) by (simp add: new_InternalKey_eq)
  then obtain saved c' where get: "TGet (fm_number (m f)) (file_size (m f)) ?k c = Some (Status_OK, saved, c')" "good n' c'"
    "found (internal_ok ok) (SanitizeOptions opts) (map version_kv (contents f)) ?k saved"
    using table_store.get_stored [OF store Cons.prems(2) [unfolded n(1)] f(2), of ?k] by blast
  have saver: "(case saved of None \<Rightarrow> (kNotFound_saver, val) | Some (k, v) \<Rightarrow> SaveValue (opt_Compare opts) w (kNotFound_saver, val) k v) =
      saver_result (find ?vis (contents f)) val"
    using found_saver [OF opts eq _ _ w get(3), of val] f(1) by (simp add: file_shape_def)
  note IH = Cons.IH [OF _ get(2) n(2)]
  have app: "find ?vis (xs @ ys) = (case find ?vis xs of None \<Rightarrow> find ?vis ys | r \<Rightarrow> r)" for xs ys by (induction xs) auto
  show ?case
  proof (cases "find ?vis (contents f)")
    case None
    let ?stats = "case last_read of
        Some (ll, lf) \<Rightarrow> if seek_file stats = None then \<lparr>seek_file = Some lf, seek_file_level = int ll\<rparr> else stats
      | None \<Rightarrow> stats"
    have cs: "\<forall>(l, f) \<in> set cs. file_shape (opt_Compare opts) ok m contents f \<and>
        stored (fm_number (m f)) = Some (file_size (m f), map version_kv (contents f))"
      using Cons.prems(1) by simp
    obtain stats2 c2 n2 where 2: "n' \<le> n2 + length cs" "good n2 c2"
      "version_Get_loop TGet (opt_Compare opts) m w ?k cs (Some (l, f)) ?stats val c' =
        (let (st, val') = version_result (find ?vis (concat (map (contents \<circ> snd) cs))) val in Some (st, val', stats2, c2))"
      using IH [where last_read = "Some (l, f)" and stats = ?stats] cs by blast
    have "version_Get_loop TGet (opt_Compare opts) m w ?k (lf # cs) last_read stats val c =
        (let (st, val') = version_result (find ?vis (concat (map (contents \<circ> snd) (lf # cs)))) val in Some (st, val', stats2, c2))"
      unfolding version_Get_loop.simps lf get(1) bind.bind_lunit prod.case
      using saver 2(3) None by (simp add: app Let_def status_ok_def Status_OK_def)
    moreover have "n \<le> n2 + length (lf # cs)" using 2(1) n(1) by simp
    ultimately show ?thesis using 2(2) by blast
  next
    case (Some e)
    obtain s t u v where e: "e = (s, t, u, v)" by (cases e)
    have "\<exists>stats'. version_Get_loop TGet (opt_Compare opts) m w ?k (lf # cs) last_read stats val c =
        (let (st, val') = version_result (find ?vis (concat (map (contents \<circ> snd) (lf # cs)))) val in Some (st, val', stats', c'))"
      using saver by (cases t) (simp_all add: Some e lf get(1) app Let_def status_ok_def Status_OK_def)
    moreover have "n \<le> n' + length (lf # cs)" using n(1) by simp
    ultimately show ?thesis using get(2) by blast
  qed
qed fastforce

lemma sorted_wrt_concat:
  "sorted_wrt R (concat xss) \<longleftrightarrow> (\<forall>xs \<in> set xss. sorted_wrt R xs) \<and> sorted_wrt (\<lambda>xs ys. \<forall>x \<in> set xs. \<forall>y \<in> set ys. R x y) xss"
  by (induction xss) (auto simp: sorted_wrt_append)

lemma files_to_search_subset: "set (files_to_search ucmp m v w k l) \<subseteq> set (levels v ! l)"
  by (auto simp: files_to_search_def Let_def)

lemma length_files_to_search: "length (files_to_search ucmp m v w k l) \<le> length (levels v ! l)"
  by (auto simp: files_to_search_def Let_def Suc_le_eq)

lemma search_order:
  assumes shape: "version_shape ucmp ok m contents v"
  shows "sorted_wrt (\<lambda>f g. newer_than ucmp (contents f) (contents g)) (concat (map (files_to_search ucmp m v w k) [0..<kNumLevels]))"
proof -
  have levels: "sorted_wrt (\<lambda>fs gs. list_all (\<lambda>f. list_all (\<lambda>g. newer_than ucmp (contents f) (contents g)) gs) fs) (levels v)"
    and len: "length (levels v) = kNumLevels" and level0: "level0_shape ucmp m contents (levels v ! 0)"
    using shape by (simp_all add: version_shape_def)
  have "sorted_wrt (\<lambda>f g. newer_than ucmp (contents f) (contents g)) (files_to_search ucmp m v w k l)" for l
  proof (cases "l = 0 \<and> levels v ! 0 \<noteq> []")
    case True
    let ?fs = "filter (\<lambda>f. 0 \<le> ucmp w (start_key m f) \<and> ucmp w (limit_key m f) \<le> 0) (levels v ! 0)"
    have s: "sorted_wrt (NewestFirst m) (sort_newest m ?fs)"
      using level0 by (intro sort_newest_sorted) (simp add: level0_shape_def distinct_map_filter)
    then have "sorted_wrt (\<lambda>f g. newer_than ucmp (contents f) (contents g)) (sort_newest m ?fs)"
      using level0 by (intro sorted_wrt_mono_rel [OF _ s]) (auto simp: level0_shape_def list_all_iff)
    then show ?thesis using True by (simp add: files_to_search_def Let_def)
  next
    case False
    then show ?thesis by (auto simp: files_to_search_def Let_def)
  qed
  moreover have "newer_than ucmp (contents f) (contents g)"
    if "l < l'" "l' < kNumLevels" "f \<in> set (files_to_search ucmp m v w k l)" "g \<in> set (files_to_search ucmp m v w k l')" for l l' f g
    using sorted_wrt_nth_less [OF levels that(1)] that files_to_search_subset [of ucmp m v w k] len by (fastforce simp: list_all_iff)
  ultimately show ?thesis unfolding sorted_wrt_concat sorted_wrt_map
    by (auto intro!: sorted_wrt_mono_rel [OF _ sorted_wrt_upt] simp del: upt_Suc)
qed

lemma version_key_ok: "version_ok ok e \<Longrightarrow> internal_ok ok (version_key e)"
  by (cases e) (simp add: new_InternalKey_eq)

lemma file_bounds:
  assumes order: "key_order ok ucmp" and f: "file_shape ucmp ok m contents f" and e: "e \<in> set (contents f)"
  shows "internal_ok ok (smallest (m f))" "internal_ok ok (largest (m f))" "internal_ok ok (version_key e)"
    and "internal_Compare ucmp (smallest (m f)) (version_key e) \<le> 0" "internal_Compare ucmp (version_key e) (largest (m f)) \<le> 0"
proof -
  note io = internal_order [OF order]
  have ok: "internal_ok ok (version_key x)" if "x \<in> set (contents f)" for x
    using f that by (intro version_key_ok) (simp add: file_shape_def list_all_iff)
  then show "internal_ok ok (version_key e)" using e by simp
  show "internal_ok ok (smallest (m f))" "internal_ok ok (largest (m f))" using ok f by (simp_all add: file_shape_def)
  have ends: "x = hd xs \<or> R (hd xs) x" "x = last xs \<or> R x (last xs)" if "sorted_wrt R xs" "x \<in> set xs" for R x and xs :: "version list"
    using that by (induction xs) auto
  have refl: "internal_Compare ucmp (version_key e) (version_key e) = 0" using key_order.compare_refl [OF io ok [OF e]] .
  show "internal_Compare ucmp (smallest (m f)) (version_key e) \<le> 0" "internal_Compare ucmp (version_key e) (largest (m f)) \<le> 0"
    using ends [of "\<lambda>a b. internal_Compare ucmp (version_key a) (version_key b) < 0" "contents f" e] f e refl
    by (auto simp: file_shape_def)
qed

lemma user_compare_le: "internal_Compare ucmp a b \<le> 0 \<Longrightarrow> ucmp (ExtractUserKey a) (ExtractUserKey b) \<le> 0"
  by (auto simp: internal_Compare_le)

lemma new_key_parts [simp]: "ExtractUserKey (new_InternalKey u s t) = u" "key_tag (new_InternalKey u s t) = PackSequenceAndType s t"
  by (simp_all add: new_InternalKey_eq)

text \<open>The user key of an entry in the bounds of its file.\<close>

lemma user_bounds:
  assumes order: "key_order ok ucmp" and f: "file_shape ucmp ok m contents f" and e: "(s, t, u, v) \<in> set (contents f)"
    and w: "ok w" "ucmp u w = 0"
  shows "\<not> ucmp w (start_key m f) < 0" and "ucmp w (limit_key m f) \<le> 0"
proof -
  note b = file_bounds [OF order f e]
  have "ok u" using b(3) by (simp add: new_InternalKey_eq)
  then have "ucmp w u = 0" using w key_order.compare_eq_flip [OF order, of u w] by simp
  then show "\<not> ucmp w (start_key m f) < 0" "ucmp w (limit_key m f) \<le> 0"
    using user_compare_le [OF b(4)] user_compare_le [OF b(5)] b(1-3) w key_order.compare_ge [OF order]
      key_order.compare_trans [OF order, of "start_key m f" u w] key_order.compare_trans [OF order, of w u "limit_key m f"] \<open>ok u\<close>
    by simp_all
qed

lemma search_finds:
  assumes order: "key_order ok ucmp" and shape: "version_shape ucmp ok m contents v" and l: "l < kNumLevels" "f \<in> set (levels v ! l)"
    and e: "e \<in> set (contents f)" "visible ucmp w snap e" and w: "ok w" "snap \<le> kMaxSequenceNumber"
  shows "\<exists>g \<in> set (files_to_search ucmp m v w (new_InternalKey w snap kTypeValue) l).
    \<exists>x \<in> set (contents g). visible ucmp w snap x \<and> fst e \<le> fst x"
proof -
  let ?k = "new_InternalKey w snap kTypeValue" and ?fs = "levels v ! l"
  let ?I = "internal_Compare ucmp"
  note io = internal_order [OF order]
  have len: "length (levels v) = kNumLevels" and shapes: "\<forall>f \<in> set ?fs. file_shape ucmp ok m contents f"
    using shape l(1) nth_mem [of l "levels v"] by (auto simp: version_shape_def list_all_iff)
  obtain s t u va where e': "e = (s, t, u, va)" by (cases e)
  note f = bspec [OF shapes l(2)]
  have u: "ucmp u w = 0" "ok u" "s \<le> snap" using e(2) file_bounds(3) [OF order f e(1)] by (auto simp: e')
  note bounds = user_bounds [OF order f e(1) [unfolded e'] w(1) u(1)]
  show ?thesis
  proof (cases "l = 0")
    case True
    then have "f \<in> set (files_to_search ucmp m v w ?k l)"
      using l(2) bounds by (auto simp: files_to_search_def Let_def)
    then show ?thesis using e by blast
  next
    case False
    have level: "level_shape ucmp m ?fs"
      using shape l(1) False len by (cases "levels v"; cases l) (auto simp: version_shape_def list_all_length)
    obtain i where i: "i < length ?fs" "f = ?fs ! i" using l(2) by (metis in_set_conv_nth)
    have pos: "contents g \<noteq> []" "last (contents g) \<in> set (contents g)" "largest (m g) = version_key (last (contents g))"
      if "g \<in> set ?fs" for g using shapes that by (auto simp: file_shape_def)
    note largest_ok = file_bounds(2) [OF order bspec [OF shapes] pos(2)]
    have next_file: "?I (largest (m (?fs ! a))) (smallest (m (?fs ! b))) < 0" if "a < b" "b < length ?fs" for a b
      using level that by (simp add: level_shape_def sorted_wrt_iff_nth_less)
    have k: "internal_ok ok ?k" using w(1) by (simp add: new_InternalKey_eq)
    have down: "?I (largest (m (?fs ! a))) ?k < 0" if "a < b" "b < length ?fs" "?I (largest (m (?fs ! b))) ?k < 0" for a b
    proof -
      have g: "?fs ! a \<in> set ?fs" "?fs ! b \<in> set ?fs" using that(1,2) by simp_all
      note B = file_bounds [OF order bspec [OF shapes g(2)] pos(2) [OF g(2)]]
      have "?I (smallest (m (?fs ! b))) (largest (m (?fs ! b))) \<le> 0" using key_order.compare_trans [OF io B(1,3,2,4,5)] .
      then have "?I (largest (m (?fs ! a))) (largest (m (?fs ! b))) < 0"
        using key_order.compare_less_le_trans [OF io largest_ok [OF g(1)] B(1,2) next_file [OF that(1,2)]] g(1) by blast
      then show ?thesis using key_order.compare_less_trans [OF io largest_ok [OF g(1)] B(2) k _ that(3)] g(1) by blast
    qed
    define j where "j = FindFile ucmp m ?fs ?k"
    have first: "\<And>a. a < j \<Longrightarrow> ?I (largest (m (?fs ! a))) ?k < 0"
      "\<And>a. j \<le> a \<Longrightarrow> a < length ?fs \<Longrightarrow> \<not> ?I (largest (m (?fs ! a))) ?k < 0"
      unfolding j_def using FindFile_first [of ?fs ucmp m ?k] down by blast+
    note fb = file_bounds [OF order f e(1)]
    have e_above: "\<not> ?I (version_key e) ?k < 0"
      using internal_lookup_less [of ok s t u va snap ucmp w] f e w(2) u by (auto simp: e' file_shape_def list_all_iff)
    then have "\<not> ?I (largest (m f)) ?k < 0"
      using key_order.compare_le_less_trans [OF io fb(3,2) k fb(5)] by blast
    then have "\<not> i < j" using first(1) [of i] i(2) by blast
    then have j: "j \<le> i" "j < length ?fs" using i(1) by linarith+
    let ?g = "?fs ! j"
    have g: "?g \<in> set ?fs" using j(2) by simp
    obtain x where x: "x \<in> set (contents ?g)" "visible ucmp w snap x" "fst e \<le> fst x"
    proof (cases "j = i")
      case True
      then show ?thesis using e i(2) by (intro that [of e]) simp_all
    next
      case False
      let ?x = "last (contents ?g)"
      obtain sx tx ux vx where x': "?x = (sx, tx, ux, vx)" by (cases ?x)
      note gx = pos(2) [OF g, unfolded x']
      note xb = file_bounds(3) [OF order bspec [OF shapes g] gx]
      have "?I (largest (m ?g)) (smallest (m f)) < 0" using next_file [of j i] False j(1) i by simp
      then have less: "?I (version_key ?x) (version_key e) < 0"
        using key_order.compare_less_le_trans [OF io largest_ok [OF g] fb(1,3) _ fb(4)] pos(3) [OF g] g by simp
      have "ucmp ux u \<le> 0" using user_compare_le [of ucmp "version_key ?x" "version_key e"] less by (simp add: x' e')
      then have le: "ucmp ux w \<le> 0" using key_order.compare_trans [OF order _ u(2) w(1)] u(1) xb by simp
      have xok: "version_ok ok (sx, tx, ux, vx)" "version_ok ok (s, t, u, va)"
        using bspec [OF shapes g] gx f e(1) by (auto simp: file_shape_def list_all_iff e')
      have "\<not> ?I (version_key ?x) ?k < 0" using first(2) [of j] j(2) pos(3) [OF g] by simp
      then have vis: "ucmp ux w = 0" "sx \<le> snap"
        using internal_lookup_less [OF xok(1) w(2), of ucmp w] le by (auto simp: x')
      have "ucmp w ux = 0" using vis(1) key_order.compare_eq_flip [OF order, of ux w] xb w(1) by simp
      then have "\<not> ucmp ux u < 0"
        using key_order.compare_less_le_trans [OF order _ u(2) w(1), of ux] u(1) vis(1) xb by fastforce
      then have "PackSequenceAndType s t < PackSequenceAndType sx tx" using less by (auto simp: x' e' internal_Compare_less)
      then have "s \<le> sx" using PackSequenceAndType_less [of sx s tx t] xok by (auto simp: not_less [symmetric])
      then show ?thesis using vis gx by (intro that [of ?x]) (simp_all add: x' e')
    qed
    obtain sx tx ux vx where x': "x = (sx, tx, ux, vx)" by (cases x)
    have "\<not> ucmp w (start_key m ?g) < 0"
      using user_bounds(1) [OF order bspec [OF shapes g] _ w(1), of sx tx ux vx] x by (simp add: x')
    then have "?g \<in> set (files_to_search ucmp m v w ?k l)"
      using False g j(2) by (auto simp: files_to_search_def Let_def j_def not_le)
    then show ?thesis using x by blast
  qed
qed

lemma find_split: "find P xs = Some e \<Longrightarrow> \<exists>ys zs. xs = ys @ e # zs \<and> P e \<and> (\<forall>y \<in> set ys. \<not> P y)"
proof (induction xs)
  case (Cons x xs)
  show ?case
  proof (cases "P x")
    case True
    then show ?thesis using Cons.prems by (auto intro: exI [of _ "[] :: 'a list"])
  next
    case False
    then obtain ys zs where "xs = ys @ e # zs" "P e" "\<forall>y \<in> set ys. \<not> P y" using Cons by auto
    then have "x # xs = (x # ys) @ e # zs" "\<forall>y \<in> set (x # ys). \<not> P y" using False by simp_all
    then show ?thesis using \<open>P e\<close> by blast
  qed
qed simp

lemma newest_first:
  assumes order: "key_order ok ucmp" and shape: "version_shape ucmp ok m contents v" and w: "ok w" "snap \<le> kMaxSequenceNumber"
    and es: "set es = (\<Union>f \<in> set (concat (levels v)). set (contents f))" "sorted_wrt (<) (map fst es)"
  shows "find (visible ucmp w snap)
      (concat (map contents (concat (map (files_to_search ucmp m v w (new_InternalKey w snap kTypeValue)) [0..<kNumLevels])))) =
    newest ucmp es w snap"
proof -
  let ?search = "files_to_search ucmp m v w (new_InternalKey w snap kTypeValue)"
  let ?F = "concat (map ?search [0..<kNumLevels])"
  let ?L = "concat (map contents ?F)"
  let ?vis = "visible ucmp w snap"
  have len: "length (levels v) = kNumLevels" using shape by (simp add: version_shape_def)
  have F: "f \<in> set (concat (levels v))" if "f \<in> set ?F" for f
    using that files_to_search_subset [of ucmp m v w "new_InternalKey w snap kTypeValue"] nth_mem len by fastforce
  have shapes: "file_shape ucmp ok m contents f" if "f \<in> set (concat (levels v))" for f
    using shape that by (auto simp: version_shape_def list_all_iff)
  have "set ?L = (\<Union>f \<in> set ?F. set (contents f))" by simp
  also have "\<dots> \<subseteq> set es" unfolding es(1) using F by (intro UN_mono subsetI) (simp_all only: order_refl)
  finally have L: "set ?L \<subseteq> set es" .
  have inj: "a = b" if "a \<in> set es" "b \<in> set es" "fst a = fst b" for a b
    using that es(2) by (simp add: strict_sorted_iff distinct_map inj_on_def)
  have order_L: "sorted_wrt (newer ucmp) ?L"
  proof -
    have "sorted_wrt (newer ucmp) (contents f)" if f: "f \<in> set ?F" for f
    proof (rule sorted_wrt_mono_rel)
      show "sorted_wrt (\<lambda>a b. internal_Compare ucmp (version_key a) (version_key b) < 0) (contents f)"
        using shapes [OF F [OF f]] by (simp add: file_shape_def)
      fix a b assume ab: "a \<in> set (contents f)" "b \<in> set (contents f)" "internal_Compare ucmp (version_key a) (version_key b) < 0"
      have "a \<noteq> b"
        using ab key_order.compare_refl [OF internal_order [OF order] file_bounds(3) [OF order shapes [OF F [OF f]] ab(1)]] by auto
      then have "fst a \<noteq> fst b" using inj [of a b] F [OF f] es(1) ab by auto
      then show "newer ucmp a b"
        using internal_newer [OF _ _ ab(3)] shapes [OF F [OF f]] ab by (auto simp: file_shape_def list_all_iff)
    qed
    moreover have "sorted_wrt (\<lambda>xs ys. \<forall>x \<in> set xs. \<forall>y \<in> set ys. newer ucmp x y) (map contents ?F)"
      unfolding sorted_wrt_map by (rule sorted_wrt_mono_rel [OF _ search_order [OF shape]]) (auto dest: newer_thanD)
    ultimately show ?thesis unfolding sorted_wrt_concat by auto
  qed
  have reach: "\<exists>x \<in> set ?L. ?vis x \<and> fst e \<le> fst x" if "e \<in> set es" "?vis e" for e
  proof -
    obtain fs f where "fs \<in> set (levels v)" "f \<in> set fs" "e \<in> set (contents f)" using \<open>e \<in> set es\<close> es(1) by auto
    moreover from this(1) obtain l where "l < kNumLevels" "fs = levels v ! l" using len by (metis in_set_conv_nth)
    ultimately show ?thesis using search_finds [OF order shape _ _ _ \<open>?vis e\<close> w, of l f] by fastforce
  qed
  show ?thesis
  proof (cases "find ?vis ?L")
    case None
    then have "\<not> ?vis e" if "e \<in> set es" for e using reach [OF that] unfolding find_None_iff by blast
    then have "find ?vis (rev es) = None" unfolding find_None_iff set_rev by blast
    then show ?thesis using None by (simp add: newest_visible)
  next
    case (Some e)
    then obtain xs ys where split: "?L = xs @ e # ys" "?vis e" "\<forall>x \<in> set xs. \<not> ?vis x" by (blast dest: find_split)
    have "e \<in> set es" using L split(1) by auto
    moreover have "fst e' \<le> fst e" if e': "e' \<in> set es" "?vis e'" for e'
    proof -
      obtain x where x: "x \<in> set ?L" "?vis x" "fst e' \<le> fst x" using reach [OF e'] by blast
      then have "x = e \<or> x \<in> set ys" using split by auto
      moreover have "fst x < fst e" if "x \<in> set ys"
      proof -
        have n: "newer ucmp e x" using order_L that by (simp add: split(1) sorted_wrt_append)
        obtain s t u va where e: "e = (s, t, u, va)" by (cases e)
        obtain s' t' u' va' where x': "x = (s', t', u', va')" by (cases x)
        have entry_ok: "ok (fst (snd (snd y)))" if y: "y \<in> set es" for y
        proof -
          obtain f where "f \<in> set (concat (levels v))" "y \<in> set (contents f)" using y unfolding es(1) by blast
          then have "version_ok ok y" using shapes by (auto simp: file_shape_def list_all_iff)
          then show ?thesis by (cases y) simp
        qed
        have "ok u" "ok u'" using entry_ok [of e] entry_ok [of x] \<open>e \<in> set es\<close> L x(1) by (auto simp: e x')
        then have "ucmp u u' = 0"
          using split(2) x(2) w(1) key_order.compare_eq_trans [OF order, of u w u'] key_order.compare_eq_flip [OF order, of u' w]
          by (simp add: e x')
        then show ?thesis using n by (simp add: e x')
      qed
      ultimately show ?thesis using x(3) by auto
    qed
    ultimately have "find ?vis (rev es) = Some e" using find_rev_newest [of e es ?vis] split(2) es(2) by blast
    then show ?thesis using Some by (simp add: newest_visible)
  qed
qed

text \<open>Looking up in a version, with any store of tables.\<close>

lemma version_get_store:
  assumes "table_options ok opts"
    and "opt_filter_policy opts \<noteq> None \<Longrightarrow> \<forall>u w. ok u \<and> ok w \<and> opt_Compare opts u w = 0 \<longrightarrow> u = w"
    and "table_store (internal_ok ok) (SanitizeOptions opts) stored good TGet"
    and "version_shape (opt_Compare opts) ok m contents v"
    and "\<forall>f \<in> set (concat (levels v)). stored (fm_number (m f)) = Some (file_size (m f), map version_kv (contents f))"
    and "set es = (\<Union>f \<in> set (concat (levels v)). set (contents f))" "sorted_wrt (<) (map fst es)"
    and "ok w" "snap \<le> kMaxSequenceNumber" "good n c" "length (concat (levels v)) \<le> n"
  shows "\<exists>stats c' n'. n \<le> n' + length (concat (levels v)) \<and> good n' c' \<and> version_Get TGet (opt_Compare opts) m v (new_LookupKey w snap) val c =
    (let (st, val') = version_result (newest (opt_Compare opts) es w snap) val in Some (st, val', stats, c'))"
proof -
  let ?k = "new_InternalKey w snap kTypeValue"
  let ?search = "files_to_search (opt_Compare opts) m v w ?k"
  let ?cs = "concat (map (\<lambda>level. map (Pair level) (?search level)) [0..<kNumLevels])"
  have len: "length (levels v) = kNumLevels" using assms(4) by (simp add: version_shape_def)
  have F: "f \<in> set (concat (levels v))" if "(l, f) \<in> set ?cs" for l f
    using that files_to_search_subset [of "opt_Compare opts" m v w ?k] nth_mem len by fastforce
  have cs: "\<forall>(l, f) \<in> set ?cs. file_shape (opt_Compare opts) ok m contents f \<and>
      stored (fm_number (m f)) = Some (file_size (m f), map version_kv (contents f))"
  proof (intro ballI case_prodI2)
    fix lf l f assume "lf \<in> set ?cs" "lf = (l, f)"
    then have f: "f \<in> set (concat (levels v))" using F [of l f] by simp
    then have "file_shape (opt_Compare opts) ok m contents f" using assms(4) by (auto simp: version_shape_def list_all_iff)
    then show "file_shape (opt_Compare opts) ok m contents f \<and> stored (fm_number (m f)) = Some (file_size (m f), map version_kv (contents f))"
      using assms(5) f by blast
  qed
  have "sum_list (map (\<lambda>l. length (?search l)) [0..<kNumLevels]) \<le> sum_list (map (\<lambda>l. length (levels v ! l)) [0..<kNumLevels])"
    by (rule sum_list_mono) (rule length_files_to_search)
  also have "\<dots> = sum_list (map length (map (\<lambda>l. levels v ! l) [0..<length (levels v)]))" by (simp add: len comp_def)
  also have "\<dots> = length (concat (levels v))" by (simp only: map_nth length_concat)
  finally have le: "length ?cs \<le> length (concat (levels v))" by (simp add: length_concat comp_def)
  obtain stats c' n' where loop: "n \<le> n' + length ?cs" "good n' c'"
    "version_Get_loop TGet (opt_Compare opts) m w ?k ?cs None \<lparr>seek_file = None, seek_file_level = - 1\<rparr> val c =
      (let (st, val') = version_result (find (visible (opt_Compare opts) w snap) (concat (map (contents \<circ> snd) ?cs))) val
       in Some (st, val', stats, c'))"
    using Get_loop_finds [OF assms(1-3,8,9) cs assms(10) order_trans [OF le assms(11)]] by blast
  have "concat (map (contents \<circ> snd) ?cs) = concat (map contents (concat (map ?search [0..<kNumLevels])))"
    by (simp add: map_concat comp_def)
  then have "version_Get TGet (opt_Compare opts) m v (new_LookupKey w snap) val c =
      (let (st, val') = version_result (newest (opt_Compare opts) es w snap) val in Some (st, val', stats, c'))"
    using loop(3) newest_first [OF comparator.axioms(1) [OF table_options.axioms(1) [OF assms(1)]] assms(4,8,9,6,7)]
    by (simp add: version_Get_def LookupKey_parts Let_def)
  moreover have "n \<le> n' + length (concat (levels v))" using loop(1) le by simp
  ultimately show ?thesis using loop(2) by blast
qed


text \<open>A store whose tables are lists that are searched from the front.\<close>

definition list_Get :: "Options \<Rightarrow> (u64 \<Rightarrow> (u64 \<times> (slice \<times> slice) list) option) \<Rightarrow> nat table_get" where
  "list_Get opts stored num fsize k c =
     (case stored num of
        None \<Rightarrow> None
      | Some (_, kvs) \<Rightarrow> Some (Status_OK, find (\<lambda>(k', _). \<not> opt_Compare opts k' k < 0) kvs, Suc c))"

lemma list_store: "table_store ok opts stored (\<lambda>_ _. True) (list_Get opts stored)"
proof
  fix n c num fsize kvs k assume "stored num = Some (fsize, kvs)"
  moreover have "find (\<lambda>(k', _). \<not> opt_Compare opts k' k < 0) kvs =
      (case dropWhile (below (opt_Compare opts) k) kvs of [] \<Rightarrow> None | x # _ \<Rightarrow> Some x)"
    by (induction kvs) auto
  ultimately show "\<exists>saved c'. list_Get opts stored num fsize k c = Some (Status_OK, saved, c') \<and> True \<and> found ok opts kvs k saved"
    by (auto simp: list_Get_def found_def split: list.splits simp del: dropWhile_eq_Nil_conv)
qed

definition demo_contents :: "nat \<Rightarrow> version list" where
  "demo_contents f =
     (if f = 1 then [(9, kTypeDeletion, [65], []), (8, kTypeValue, [66], [8])]
      else if f = 2 then [(7, kTypeValue, [65], [7]), (5, kTypeValue, [65], [5])]
      else if f = 3 then [(4, kTypeValue, [65], [4]), (3, kTypeValue, [66], [3])]
      else [(2, kTypeValue, [67], [2])])"

definition demo_meta :: files where
  "demo_meta f = new_FileMetaData (of_nat f) 100 (version_key (hd (demo_contents f))) (version_key (last (demo_contents f)))"

definition demo_version :: Version where
  "demo_version = new_Version\<lparr>levels := [[1], [2, 3, 4], [], [], [], [], []]\<rparr>"

definition demo_stored :: "u64 \<Rightarrow> (u64 \<times> (slice \<times> slice) list) option" where
  "demo_stored n = Some (100, map version_kv (demo_contents (unat n)))"

definition demo_entries :: "version list" where
  "demo_entries = [(2, kTypeValue, [67], [2]), (3, kTypeValue, [66], [3]), (4, kTypeValue, [65], [4]), (5, kTypeValue, [65], [5]),
     (7, kTypeValue, [65], [7]), (8, kTypeValue, [66], [8]), (9, kTypeDeletion, [65], [])]"

lemma demo_ok: "list_all (version_ok (\<lambda>_. True)) (demo_contents f)"
  by (simp add: demo_contents_def kMaxSequenceNumber_def)

lemma demo_sorted: "list_all (\<lambda>f. sorted_wrt (\<lambda>a b. internal_Compare bytewise_Compare (version_key a) (version_key b) < 0) (demo_contents f)) [1, 2, 3, 4]"
  by code_simp

lemma demo_file: "list_all (file_shape bytewise_Compare (\<lambda>_. True) demo_meta demo_contents) [1, 2, 3, 4]"
proof -
  have "demo_contents f \<noteq> []" for f by (simp add: demo_contents_def)
  then show ?thesis
    using demo_sorted by (simp add: file_shape_def demo_ok demo_meta_def new_FileMetaData_def)
qed

lemma demo_levels:
  "level0_shape bytewise_Compare demo_meta demo_contents (levels demo_version ! 0) \<and>
   list_all (level_shape bytewise_Compare demo_meta) (tl (levels demo_version)) \<and>
   sorted_wrt (\<lambda>fs gs. list_all (\<lambda>f. list_all (\<lambda>g. newer_than bytewise_Compare (demo_contents f) (demo_contents g)) gs) fs) (levels demo_version)"
  by code_simp

lemma demo_shape: "version_shape bytewise_Compare (\<lambda>_. True) demo_meta demo_contents demo_version"
  unfolding version_shape_def using demo_levels demo_file by (simp add: demo_version_def kNumLevels_def)

lemma demo_stored_files:
  "\<forall>f \<in> set (concat (levels demo_version)).
     demo_stored (fm_number (demo_meta f)) = Some (file_size (demo_meta f), map version_kv (demo_contents f))"
  by (simp add: demo_version_def demo_stored_def demo_meta_def new_FileMetaData_def)


end
