(* ===== verification/LDB_VersionBuilder_Correct.thy ===== *)
theory LDB_VersionBuilder_Correct
  imports LDB_VersionBuilder LDB_Version_Correct
begin

text \<open>
  What applying edits to a version gives, and that a manifest gives the version back.
\<close>

section \<open>The order of files\<close>

definition bare :: "FileMetaData \<Rightarrow> FileMetaData" where
  "bare x = x\<lparr>fm_refs := 0, allowed_seeks := 0\<rparr>"

lemma bare_simps [simp]:
  "fm_number (bare x) = fm_number x" "file_size (bare x) = file_size x" "smallest (bare x) = smallest x" "largest (bare x) = largest x"
  "bare (x\<lparr>fm_refs := r\<rparr>) = bare x" "bare (x\<lparr>allowed_seeks := n\<rparr>) = bare x" "bare (bare x) = bare x"
  by (simp_all add: bare_def)

definition meta_less :: "(slice \<Rightarrow> slice \<Rightarrow> int) \<Rightarrow> FileMetaData \<Rightarrow> FileMetaData \<Rightarrow> bool" where
  "meta_less ucmp a b \<longleftrightarrow>
     internal_Compare ucmp (smallest a) (smallest b) < 0 \<or>
     internal_Compare ucmp (smallest a) (smallest b) = 0 \<and> fm_number a < fm_number b"

lemma BySmallestKey_meta: "BySmallestKey ucmp m f g \<longleftrightarrow> meta_less ucmp (bare (m f)) (bare (m g))"
  by (auto simp: BySmallestKey_def meta_less_def Let_def)

abbreviation meta_ok :: "(slice \<Rightarrow> bool) \<Rightarrow> FileMetaData \<Rightarrow> bool" where
  "meta_ok ok a \<equiv> internal_ok ok (smallest a) \<and> internal_ok ok (largest a)"

lemma meta_order:
  assumes order: "key_order ok ucmp" and "meta_ok ok a" "meta_ok ok b"
  shows "\<not> meta_less ucmp a a"
    and "meta_less ucmp a b \<Longrightarrow> \<not> meta_less ucmp b a"
    and "fm_number a \<noteq> fm_number b \<Longrightarrow> \<not> meta_less ucmp a b \<Longrightarrow> meta_less ucmp b a"
    and "meta_ok ok c \<Longrightarrow> meta_less ucmp a b \<Longrightarrow> meta_less ucmp b c \<Longrightarrow> meta_less ucmp a c"
proof -
  note io = internal_order [OF order]
  show "\<not> meta_less ucmp a a" using key_order.compare_refl [OF io, of "smallest a"] assms(2) by (auto simp: meta_less_def)
  show "meta_less ucmp a b \<Longrightarrow> \<not> meta_less ucmp b a"
    using key_order.compare_flip [OF io, of "smallest a" "smallest b"] key_order.compare_flip [OF io, of "smallest b" "smallest a"] assms(2,3)
    by (auto simp: meta_less_def)
  show "fm_number a \<noteq> fm_number b \<Longrightarrow> \<not> meta_less ucmp a b \<Longrightarrow> meta_less ucmp b a"
    using key_order.compare_flip [OF io, of "smallest b" "smallest a"] key_order.compare_eq_flip [OF io, of "smallest b" "smallest a"] assms(2,3)
    by (auto simp: meta_less_def)
  show "meta_less ucmp a c" if c: "meta_ok ok c" "meta_less ucmp a b" "meta_less ucmp b c"
  proof -
    note keys = conjunct1 [OF assms(2)] conjunct1 [OF assms(3)] conjunct1 [OF c(1)]
    consider "internal_Compare ucmp (smallest a) (smallest b) < 0" "internal_Compare ucmp (smallest b) (smallest c) \<le> 0"
      | "internal_Compare ucmp (smallest a) (smallest b) \<le> 0" "internal_Compare ucmp (smallest b) (smallest c) < 0"
      | "internal_Compare ucmp (smallest a) (smallest b) = 0" "internal_Compare ucmp (smallest b) (smallest c) = 0" "fm_number a < fm_number c"
      using c(2,3) unfolding meta_less_def by force
    then show ?thesis
    proof cases
      case 1 then show ?thesis using key_order.compare_less_le_trans [OF io keys] by (simp add: meta_less_def)
    next
      case 2 then show ?thesis using key_order.compare_le_less_trans [OF io keys] by (simp add: meta_less_def)
    next
      case 3 then show ?thesis using key_order.compare_eq_trans [OF io keys] by (simp add: meta_less_def)
    qed
  qed
qed

text \<open>A list in strict order is determined by its elements.\<close>

lemma sorted_unique:
  assumes "sorted_wrt R xs" "sorted_wrt R ys" "set xs = set ys"
    and irr: "\<And>x y. x \<in> set xs \<Longrightarrow> y \<in> set xs \<Longrightarrow> R x y \<Longrightarrow> \<not> R y x"
  shows "xs = ys"
  using assms
proof (induction xs arbitrary: ys)
  case (Cons x xs)
  have "ys \<noteq> []" using Cons.prems(3) by auto
  then obtain y ys' where ys: "ys = y # ys'" by (meson neq_Nil_conv)
  have no: "\<not> R z z" if "z \<in> set (x # xs)" for z using Cons.prems(4) [OF that that] by blast
  have "x = y"
  proof (rule ccontr)
    assume "x \<noteq> y"
    have e: "set (x # xs) = set (y # ys')" using Cons.prems(3) by (simp only: ys)
    have "x \<in> set (y # ys')" unfolding e [symmetric] by simp
    moreover have "y \<in> set (x # xs)" unfolding e by simp
    ultimately have "R x y" "R y x" "y \<in> set (x # xs)" using Cons.prems(1,2) \<open>x \<noteq> y\<close> unfolding ys by simp_all
    then show False using Cons.prems(4) [of x y] by simp
  qed
  have nx: "\<not> R x x" using no [of x] by simp
  have "x \<notin> set xs" using nx Cons.prems(1) unfolding sorted_wrt.simps by blast
  moreover have "x \<notin> set ys'" using nx Cons.prems(2) unfolding ys \<open>x = y\<close> sorted_wrt.simps by blast
  moreover have "insert x (set xs) = insert x (set ys')" using Cons.prems(3) \<open>x = y\<close> by (simp only: ys list.set)
  ultimately have "set xs = set ys'" by (metis insert_ident)
  moreover have "sorted_wrt R xs" "sorted_wrt R ys'" using Cons.prems(1,2) by (simp_all add: ys)
  ultimately have "xs = ys'" by (intro Cons.IH) (simp_all add: Cons.prems(4))
  then show ?case using \<open>x = y\<close> by (simp only: ys)
qed simp

section \<open>Inserting and merging\<close>

lemma FileSet_insert_sorted:
  assumes order: "key_order ok ucmp" and f: "meta_ok ok (m f)"
    and "sorted_wrt (BySmallestKey ucmp m) gs" "\<forall>g \<in> set gs. meta_ok ok (m g) \<and> fm_number (m g) \<noteq> fm_number (m f)"
  shows "set (FileSet_insert ucmp m f gs) = insert f (set gs)" and "sorted_wrt (BySmallestKey ucmp m) (FileSet_insert ucmp m f gs)"
proof (atomize (full), use assms(3,4) in \<open>induction gs\<close>)
  case (Cons g gs)
  let ?less = "\<lambda>f g. BySmallestKey ucmp m f g"
  have g: "meta_ok ok (bare (m g))" "meta_ok ok (bare (m f))" "fm_number (bare (m f)) \<noteq> fm_number (bare (m g))" using Cons.prems(2) f by auto
  have step: "?less f x" if "?less f g" "x \<in> set gs" for x
    using meta_order(4) [OF order g(2,1), of "bare (m x)"] that Cons.prems by (simp add: BySmallestKey_meta)
  have "?less f g \<or> ?less g f" using meta_order(3) [OF order g(2,1,3)] by (auto simp: BySmallestKey_meta)
  then show ?case using Cons step by auto
qed simp

fun merge_by :: "('a \<Rightarrow> 'a \<Rightarrow> bool) \<Rightarrow> 'a list \<Rightarrow> 'a list \<Rightarrow> 'a list" where
  "merge_by R bs [] = bs"
| "merge_by R bs (a # as) =
     takeWhile (\<lambda>f. \<not> R a f) bs @ a # merge_by R (dropWhile (\<lambda>f. \<not> R a f) bs) as"

lemma set_merge_by: "set (merge_by R bs as) = set bs \<union> set as"
proof (induction as arbitrary: bs)
  case (Cons a as)
  have "set bs = set (takeWhile (\<lambda>f. \<not> R a f) bs) \<union> set (dropWhile (\<lambda>f. \<not> R a f) bs)"
    by (metis set_append takeWhile_dropWhile_id)
  then show ?case using Cons by auto
qed simp

lemma merge_by_sorted:
  assumes "sorted_wrt R bs" "sorted_wrt R as"
    and "\<And>a b. a \<in> set as \<Longrightarrow> b \<in> set bs \<Longrightarrow> \<not> R a b \<Longrightarrow> R b a"
    and "\<And>a b c. a \<in> set bs \<union> set as \<Longrightarrow> b \<in> set bs \<union> set as \<Longrightarrow> c \<in> set bs \<union> set as \<Longrightarrow> R a b \<Longrightarrow> R b c \<Longrightarrow> R a c"
  shows "sorted_wrt R (merge_by R bs as)"
  using assms
proof (induction as arbitrary: bs)
  case (Cons a as)
  let ?T = "takeWhile (\<lambda>f. \<not> R a f) bs" and ?D = "dropWhile (\<lambda>f. \<not> R a f) bs"
  have D: "set ?D \<subseteq> set bs" by (auto dest: set_dropWhileD)
  have "sorted_wrt R (?T @ ?D)" using Cons.prems(1) by simp
  then have TD: "sorted_wrt R ?T" "sorted_wrt R ?D" by (simp_all only: sorted_wrt_append)
  have tot: "R x y" if "y \<in> set as" "x \<in> set ?D" "\<not> R y x" for x y using Cons.prems(3) [of y x] D that by auto
  have tr: "R x z" if "x \<in> set ?D \<union> set as" "y \<in> set ?D \<union> set as" "z \<in> set ?D \<union> set as" "R x y" "R y z" for x y z
    using Cons.prems(4) [of x y z] D that by auto
  have rest: "sorted_wrt R (merge_by R ?D as)"
    using Cons.IH [OF TD(2) _ tot tr] Cons.prems(2) by simp
  have below: "R x a" if "x \<in> set ?T" for x using that Cons.prems(3) [of a x] by (auto dest: set_takeWhileD)
  have above: "R a y" if "y \<in> set (merge_by R ?D as)" for y
  proof -
    consider "y \<in> set as" | "y \<in> set ?D" using \<open>y \<in> _\<close> by (auto simp: set_merge_by)
    then show ?thesis
    proof cases
      case 1
      then show ?thesis using Cons.prems(2) by simp
    next
      case 2
      then obtain d ds where d: "?D = d # ds" by (cases ?D) auto
      then have "R a d" using hd_dropWhile [of "\<lambda>f. \<not> R a f" bs] by simp
      moreover have "y = d \<or> R d y" using 2 TD(2) by (auto simp: d)
      moreover have "d \<in> set bs" "y \<in> set bs" using D 2 by (auto simp: d)
      ultimately show ?thesis using Cons.prems(4) [of a d y] by auto
    qed
  qed
  have "R x y" if "x \<in> set ?T" "y \<in> set (merge_by R ?D as)" for x y
    using Cons.prems(4) [OF _ _ _ below [OF that(1)] above [OF that(2)]] that D by (auto simp: set_merge_by dest: set_takeWhileD)
  then have "\<forall>x \<in> set ?T. \<forall>y \<in> set (a # merge_by R ?D as). R x y" using below by simp
  moreover have "\<forall>y \<in> set (merge_by R ?D as). R a y" using above by blast
  ultimately show ?case using TD(1) rest unfolding merge_by.simps sorted_wrt_append sorted_wrt.simps by blast
qed simp

section \<open>Saving a level\<close>

lemma each_append: "each f (xs @ ys) b = Option.bind (each f xs b) (each f ys)"
  by (induction xs arbitrary: b) (auto split: Option.bind_splits)

lemma each_Cons: "each f (x # xs) = (\<lambda>b. Option.bind (f x b) (each f xs))"
  by auto

lemma BySmallestKey_bare: "(\<And>f. bare (m' f) = bare (m f)) \<Longrightarrow> BySmallestKey ucmp m' = BySmallestKey ucmp m"
  by (simp add: fun_eq_iff BySmallestKey_meta)

lemma MaybeAddFile_bare: "MaybeAddFile ucmp level del f st = Some st' \<Longrightarrow> bare (fst st' g) = bare (fst st g)"
  by (cases st) (auto split: if_splits)

lemma each_MaybeAddFile_bare: "each (MaybeAddFile ucmp level del) fs st = Some st' \<Longrightarrow> bare (fst st' g) = bare (fst st g)"
  by (induction fs arbitrary: st) (auto simp: bind_Some_iff dest: MaybeAddFile_bare)

lemma save_level_merge:
  "save_level ucmp level del bs as st = each (MaybeAddFile ucmp level del) (merge_by (BySmallestKey ucmp (fst st)) bs as) st"
proof (induction as arbitrary: bs st)
  case (Cons a as)
  let ?add = "MaybeAddFile ucmp level del"
  let ?T = "takeWhile (\<lambda>f. \<not> BySmallestKey ucmp (fst st) a f) bs"
  have drop: "drop (length ?T) bs = dropWhile (\<lambda>f. \<not> BySmallestKey ucmp (fst st) a f) bs"
    by (simp add: dropWhile_eq_drop)
  have "Option.bind (each ?add ?T st) (\<lambda>st. Option.bind (?add a st) (save_level ucmp level del (drop (length ?T) bs) as)) =
      Option.bind (each ?add ?T st) (\<lambda>st'. Option.bind (?add a st')
        (each ?add (merge_by (BySmallestKey ucmp (fst st)) (drop (length ?T) bs) as)))"
  proof (intro Option.bind_cong refl)
    fix st1 st2 assume "each ?add ?T st = Some st1" "?add a st1 = Some st2"
    then have "bare (fst st2 g) = bare (fst st g)" for g using each_MaybeAddFile_bare MaybeAddFile_bare by metis
    then have "BySmallestKey ucmp (fst st2) = BySmallestKey ucmp (fst st)" by (rule BySmallestKey_bare)
    then show "save_level ucmp level del (drop (length ?T) bs) as st2 =
        each ?add (merge_by (BySmallestKey ucmp (fst st)) (drop (length ?T) bs) as) st2"
      by (simp add: Cons.IH)
  qed
  then show ?case by (simp only: save_level.simps merge_by.simps each_append each_Cons Let_def drop)
qed simp

text \<open>\<open>M\<close> is what the files are but for their counters.\<close>

abbreviation files_are :: "files \<Rightarrow> (nat \<Rightarrow> FileMetaData) \<Rightarrow> bool" where
  "files_are m M \<equiv> \<forall>f. bare (m f) = M f"

lemma files_areD: "files_are m M \<Longrightarrow> fm_number (m f) = fm_number (M f)" "files_are m M \<Longrightarrow> smallest (m f) = smallest (M f)"
  "files_are m M \<Longrightarrow> largest (m f) = largest (M f)" "files_are m M \<Longrightarrow> file_size (m f) = file_size (M f)"
  by (metis bare_simps(1), metis bare_simps(3), metis bare_simps(4), metis bare_simps(2))

definition separated :: "(slice \<Rightarrow> slice \<Rightarrow> int) \<Rightarrow> (nat \<Rightarrow> FileMetaData) \<Rightarrow> nat list \<Rightarrow> bool" where
  "separated ucmp M fs \<longleftrightarrow> sorted_wrt (\<lambda>f g. internal_Compare ucmp (largest (M f)) (smallest (M g)) < 0) fs"

lemma each_MaybeAddFile:
  assumes "files_are m M" "level = 0 \<or> separated ucmp M (fs @ filter (\<lambda>f. fm_number (M f) \<notin> del) xs)"
  shows "\<exists>m'. each (MaybeAddFile ucmp level del) xs (m, fs) = Some (m', fs @ filter (\<lambda>f. fm_number (M f) \<notin> del) xs) \<and> files_are m' M"
  using assms
proof (induction xs arbitrary: m fs)
  case (Cons x xs)
  note M = files_areD [OF Cons.prems(1)]
  show ?case
  proof (cases "fm_number (M x) \<in> del")
    case True
    then show ?thesis using Cons.IH [OF Cons.prems(1)] Cons.prems(2) by (simp add: M)
  next
    case False
    let ?m = "m(x := (m x)\<lparr>fm_refs := fm_refs (m x) + 1\<rparr>)"
    have "\<forall>f \<in> set fs. level > 0 \<longrightarrow> internal_Compare ucmp (largest (M f)) (smallest (M x)) < 0"
      using Cons.prems(2) False by (auto simp: separated_def sorted_wrt_append)
    then have "\<not> (level > 0 \<and> fs \<noteq> [] \<and> \<not> internal_Compare ucmp (largest (m (last fs))) (smallest (m x)) < 0)"
      unfolding M using last_in_set by blast
    then have add: "MaybeAddFile ucmp level del x (m, fs) = Some (?m, fs @ [x])" using False by (simp add: M)
    have "files_are ?m M" using Cons.prems(1) by simp
    moreover have "level = 0 \<or> separated ucmp M ((fs @ [x]) @ filter (\<lambda>f. fm_number (M f) \<notin> del) xs)" using Cons.prems(2) False by simp
    ultimately have "\<exists>m'. each (MaybeAddFile ucmp level del) xs (?m, fs @ [x]) =
        Some (m', (fs @ [x]) @ filter (\<lambda>f. fm_number (M f) \<notin> del) xs) \<and> files_are m' M" by (rule Cons.IH)
    then show ?thesis unfolding each_Cons add bind.bind_lunit using False by simp
  qed
qed simp

abbreviation kept :: "(slice \<Rightarrow> slice \<Rightarrow> int) \<Rightarrow> (nat \<Rightarrow> FileMetaData) \<Rightarrow> LevelState \<Rightarrow> nat list \<Rightarrow> nat list" where
  "kept ucmp M ls bs \<equiv> filter (\<lambda>f. fm_number (M f) \<notin> ls_deleted ls) (merge_by (BySmallestKey ucmp M) bs (ls_added ls))"

lemma BySmallestKey_are: "files_are m M \<Longrightarrow> BySmallestKey ucmp m = BySmallestKey ucmp M"
  by (rule BySmallestKey_bare) (metis bare_simps(7))

lemma save_levels_kept:
  assumes "files_are m M" "length lss = length bases"
    and "\<forall>i < length lss. level + i = 0 \<or> separated ucmp M (kept ucmp M (lss ! i) (bases ! i))"
  shows "\<exists>m'. save_levels ucmp level lss bases m = Some (m', map2 (kept ucmp M) lss bases) \<and> files_are m' M"
  using assms
proof (induction lss bases arbitrary: level m rule: list_induct2')
  case (4 ls lss bs bases)
  have "level = 0 \<or> separated ucmp M ([] @ kept ucmp M ls bs)" using 4(4) by force
  from each_MaybeAddFile [OF 4(2) this] obtain m1 where
    m1: "save_level ucmp level (ls_deleted ls) bs (ls_added ls) (m, []) = Some (m1, kept ucmp M ls bs)" "files_are m1 M"
    by (auto simp: save_level_merge BySmallestKey_are [OF 4(2)])
  have "\<forall>i < length lss. Suc level + i = 0 \<or> separated ucmp M (kept ucmp M (lss ! i) (bases ! i))" using 4(4) by fastforce
  from 4(1) [OF m1(2) _ this] obtain m2 where
    "save_levels ucmp (Suc level) lss bases m1 = Some (m2, map2 (kept ucmp M) lss bases)" "files_are m2 M"
    using 4(3) by auto
  then show ?case using m1(1) by simp
qed simp_all

section \<open>Applying an edit\<close>

text \<open>The builder has added files \<open>A\<close> and deletes the numbers \<open>D\<close> of each level.\<close>

definition builder_holds ::
  "(slice \<Rightarrow> slice \<Rightarrow> int) \<Rightarrow> (slice \<Rightarrow> bool) \<Rightarrow> (nat \<Rightarrow> FileMetaData set) \<Rightarrow> (nat \<Rightarrow> u64 set) \<Rightarrow> Builder \<Rightarrow> bool" where
  "builder_holds ucmp ok A D b \<longleftrightarrow> length (bd_levels b) = kNumLevels \<and>
     (\<forall>l < kNumLevels. ls_deleted (bd_levels b ! l) = D l \<and>
        sorted_wrt (BySmallestKey ucmp (bd_files b)) (ls_added (bd_levels b ! l)) \<and>
        (\<lambda>f. bare (bd_files b f)) ` set (ls_added (bd_levels b ! l)) = A l \<and>
        (\<forall>f \<in> set (ls_added (bd_levels b ! l)). f < bd_fresh b \<and> meta_ok ok (bd_files b f)))"

text \<open>The objects of a builder are kept by a step that adds objects.\<close>

definition extends :: "Builder \<Rightarrow> Builder \<Rightarrow> bool" where
  "extends b b' \<longleftrightarrow> bd_fresh b \<le> bd_fresh b' \<and> (\<forall>f < bd_fresh b. bare (bd_files b' f) = bare (bd_files b f))"

lemma extends_refl [simp]: "extends b b"
  by (simp add: extends_def)

lemma extends_trans: "extends b b' \<Longrightarrow> extends b' b'' \<Longrightarrow> extends b b''"
  unfolding extends_def by (metis le_trans less_le_trans)

lemma apply_compact_pointers:
  assumes "\<forall>(l, k) \<in> set ps. l < kNumLevels"
  shows "each apply_compact_pointer ps b =
    Some (b\<lparr>bd_compact_pointer := fold (\<lambda>(l, k) cp. cp[l := k]) ps (bd_compact_pointer b)\<rparr>)"
  using assms by (induction ps arbitrary: b) auto

lemma apply_deleted_holds:
  assumes "builder_holds ucmp ok A D b" "\<forall>(l, n) \<in> set ds. l < kNumLevels"
  shows "\<exists>b'. each apply_deleted ds b = Some b' \<and> builder_holds ucmp ok A (\<lambda>l. D l \<union> {n. (l, n) \<in> set ds}) b' \<and> extends b b' \<and>
    bd_compact_pointer b' = bd_compact_pointer b"
  using assms
proof (induction ds arbitrary: b D)
  case (Cons d ds)
  obtain l n where d: "d = (l, n)" "l < kNumLevels" using Cons.prems(2) by (cases d) auto
  obtain b1 where b1: "apply_deleted (l, n) b = Some b1"
    "b1 = b\<lparr>bd_levels := (bd_levels b)[l := (bd_levels b ! l)\<lparr>ls_deleted := insert n (ls_deleted (bd_levels b ! l))\<rparr>]\<rparr>"
    using d(2) by (simp add: Let_def)
  have "builder_holds ucmp ok A (D(l := insert n (D l))) b1"
    using Cons.prems(1) d(2) by (auto simp: builder_holds_def b1(2) nth_list_update)
  from Cons.IH [OF this] Cons.prems(2) obtain b' where
    b': "each apply_deleted ds b1 = Some b'" "builder_holds ucmp ok A (\<lambda>k. (D(l := insert n (D l))) k \<union> {n. (k, n) \<in> set ds}) b'"
    "extends b1 b'" "bd_compact_pointer b' = bd_compact_pointer b1" by auto
  have "(\<lambda>k. (D(l := insert n (D l))) k \<union> {n. (k, n) \<in> set ds}) = (\<lambda>k. D k \<union> {n. (k, n) \<in> set (d # ds)})"
    by (auto simp: d(1) fun_eq_iff)
  moreover have "extends b b1" by (simp add: b1(2) extends_def)
  ultimately show ?case
    unfolding each_Cons d(1) b1(1) bind.bind_lunit using b' extends_trans by (auto simp: b1(2))
qed simp

lemma apply_new_file_holds:
  assumes order: "key_order ok ucmp" and b: "builder_holds ucmp ok A D b" and l: "l < kNumLevels" "meta_ok ok x" "\<forall>a \<in> A l. fm_number a \<noteq> fm_number x"
  shows "\<exists>b'. apply_new_file ucmp (l, x) b = Some b' \<and>
    builder_holds ucmp ok (A(l := insert (bare x) (A l))) (D(l := D l - {fm_number x})) b' \<and> extends b b' \<and>
    bd_compact_pointer b' = bd_compact_pointer b"
proof -
  let ?f = "bd_fresh b" and ?ls = "bd_levels b ! l"
  let ?x = "x\<lparr>fm_refs := 1, allowed_seeks := initial_seeks (file_size x)\<rparr>"
  let ?m = "(bd_files b)(?f := ?x)"
  define b' where "b' = b\<lparr>bd_files := ?m, bd_fresh := Suc ?f,
    bd_levels := (bd_levels b)[l := ?ls\<lparr>ls_deleted := ls_deleted ?ls - {fm_number x}, ls_added := FileSet_insert ucmp ?m ?f (ls_added ?ls)\<rparr>]\<rparr>"
  have step: "apply_new_file ucmp (l, x) b = Some b'" using l(1) by (simp add: b'_def Let_def)
  have old: "\<forall>g \<in> set (ls_added (bd_levels b ! k)). g < ?f \<and> ?m g = bd_files b g" if "k < kNumLevels" for k
    using b that by (auto simp: builder_holds_def)
  have BS: "sorted_wrt (BySmallestKey ucmp ?m) (ls_added (bd_levels b ! k))" if k: "k < kNumLevels" for k
  proof (rule sorted_wrt_mono_rel)
    show "sorted_wrt (BySmallestKey ucmp (bd_files b)) (ls_added (bd_levels b ! k))" using b k by (simp add: builder_holds_def)
    show "BySmallestKey ucmp ?m g h" if "g \<in> set (ls_added (bd_levels b ! k))" "h \<in> set (ls_added (bd_levels b ! k))"
      "BySmallestKey ucmp (bd_files b) g h" for g h
      using that old [OF k] by (simp add: BySmallestKey_meta)
  qed
  have "fm_number (bd_files b g) \<noteq> fm_number x" if "g \<in> set (ls_added ?ls)" for g
    using l(3) b l(1) that by (metis (no_types, lifting) bare_simps(1) builder_holds_def image_eqI)
  then have "\<forall>g \<in> set (ls_added ?ls). meta_ok ok (?m g) \<and> fm_number (?m g) \<noteq> fm_number (?m ?f)"
    using b l(1) old [OF l(1)] by (auto simp: builder_holds_def)
  note ins = FileSet_insert_sorted [OF order, of ?m ?f "ls_added ?ls", OF _ BS [OF l(1)] this]
  have img: "(\<lambda>g. bare (?m g)) ` set (ls_added (bd_levels b ! k)) = A k" if "k < kNumLevels" for k
  proof -
    have "(\<lambda>g. bare (?m g)) ` set (ls_added (bd_levels b ! k)) = (\<lambda>g. bare (bd_files b g)) ` set (ls_added (bd_levels b ! k))"
      using old [OF that] by (intro image_cong) auto
    then show ?thesis using b that by (simp add: builder_holds_def)
  qed
  have "builder_holds ucmp ok (A(l := insert (bare x) (A l))) (D(l := D l - {fm_number x})) b'"
    unfolding builder_holds_def
  proof (intro conjI allI impI)
    show "length (bd_levels b') = kNumLevels" using b by (simp add: builder_holds_def b'_def)
    fix k assume k: "k < kNumLevels"
    let ?L = "bd_levels b' ! k"
    have L: "?L = (if k = l then ?ls\<lparr>ls_deleted := ls_deleted ?ls - {fm_number x}, ls_added := FileSet_insert ucmp ?m ?f (ls_added ?ls)\<rparr> else bd_levels b ! k)"
      using b k by (simp add: b'_def builder_holds_def nth_list_update)
    have files: "bd_files b' = ?m" "bd_fresh b' = Suc ?f" by (simp_all add: b'_def)
    show "ls_deleted ?L = (D(l := D l - {fm_number x})) k" using b k by (simp add: L builder_holds_def)
    show "sorted_wrt (BySmallestKey ucmp (bd_files b')) (ls_added ?L)" unfolding files using BS [OF k] ins(2) l(2) by (simp add: L)
    have "set (ls_added ?L) = (if k = l then insert ?f (set (ls_added ?ls)) else set (ls_added (bd_levels b ! k)))"
      using ins(1) l(2) by (simp add: L)
    moreover have "bare (?m ?f) = bare x" by simp
    ultimately show "(\<lambda>g. bare (bd_files b' g)) ` set (ls_added ?L) = (A(l := insert (bare x) (A l))) k"
      unfolding files using img [OF k] img [OF l(1)] by simp
    show "\<forall>g \<in> set (ls_added ?L). g < bd_fresh b' \<and> meta_ok ok (bd_files b' g)"
      unfolding files \<open>set (ls_added ?L) = _\<close> using b k l old [OF k] by (auto simp: builder_holds_def less_Suc_eq)
  qed
  moreover have "extends b b'" by (simp add: extends_def b'_def)
  ultimately show ?thesis using step by (simp add: b'_def)
qed

lemma apply_new_files_hold:
  assumes order: "key_order ok ucmp" and "builder_holds ucmp ok A D b" "\<forall>(l, x) \<in> set nf. l < kNumLevels \<and> meta_ok ok x \<and> (\<forall>a \<in> A l. fm_number a \<noteq> fm_number x)"
    and "distinct (map (\<lambda>(l, x). (l, fm_number x)) nf)"
  shows "\<exists>b'. each (apply_new_file ucmp) nf b = Some b' \<and>
    builder_holds ucmp ok (\<lambda>l. A l \<union> {bare x | x. (l, x) \<in> set nf}) (\<lambda>l. D l - {fm_number x | x. (l, x) \<in> set nf}) b' \<and>
    extends b b' \<and> bd_compact_pointer b' = bd_compact_pointer b"
  using assms(2-)
proof (induction nf arbitrary: b A D)
  case (Cons p nf)
  obtain l x where p: "p = (l, x)" "l < kNumLevels" "meta_ok ok x" "\<forall>a \<in> A l. fm_number a \<noteq> fm_number x" using Cons.prems(2) by (cases p) auto
  from apply_new_file_holds [OF order Cons.prems(1) p(2-4)] obtain b1 where b1: "apply_new_file ucmp (l, x) b = Some b1"
    "builder_holds ucmp ok (A(l := insert (bare x) (A l))) (D(l := D l - {fm_number x})) b1" "extends b b1" "bd_compact_pointer b1 = bd_compact_pointer b"
    by blast
  have "\<forall>(k, y) \<in> set nf. k < kNumLevels \<and> meta_ok ok y \<and> (\<forall>a \<in> (A(l := insert (bare x) (A l))) k. fm_number a \<noteq> fm_number y)"
    using Cons.prems(2,3) by (fastforce simp: p(1) image_iff split: if_splits)
  from Cons.IH [OF b1(2) this] Cons.prems(3) obtain b' where b': "each (apply_new_file ucmp) nf b1 = Some b'"
    "builder_holds ucmp ok (\<lambda>k. (A(l := insert (bare x) (A l))) k \<union> {bare y | y. (k, y) \<in> set nf})
       (\<lambda>k. (D(l := D l - {fm_number x})) k - {fm_number y | y. (k, y) \<in> set nf}) b'"
    "extends b1 b'" "bd_compact_pointer b' = bd_compact_pointer b1" by auto
  have "(\<lambda>k. (A(l := insert (bare x) (A l))) k \<union> {bare y | y. (k, y) \<in> set nf}) = (\<lambda>k. A k \<union> {bare y | y. (k, y) \<in> set (p # nf)})"
    "(\<lambda>k. (D(l := D l - {fm_number x})) k - {fm_number y | y. (k, y) \<in> set nf}) = (\<lambda>k. D k - {fm_number y | y. (k, y) \<in> set (p # nf)})"
    by (auto simp: p(1) fun_eq_iff)
  then show ?case
    unfolding each_Cons p(1) b1(1) bind.bind_lunit using b' b1(3,4) extends_trans [OF b1(3) b'(3)] by (auto simp: p(1))
qed simp

text \<open>What an edit makes of the files of a level, and when it fits them.\<close>

definition edited :: "VersionEdit \<Rightarrow> (nat \<Rightarrow> FileMetaData set) \<Rightarrow> nat \<Rightarrow> FileMetaData set" where
  "edited E S l = {a \<in> S l. (l, fm_number a) \<notin> deleted_files E} \<union> {bare x | x. (l, x) \<in> set (new_files E)}"

definition edit_fits :: "(slice \<Rightarrow> bool) \<Rightarrow> VersionEdit \<Rightarrow> (nat \<Rightarrow> FileMetaData set) \<Rightarrow> bool" where
  "edit_fits ok E S \<longleftrightarrow> finite (deleted_files E) \<and> (\<forall>(l, n) \<in> deleted_files E. l < kNumLevels) \<and>
     (\<forall>(l, k) \<in> set (compact_pointers E). l < kNumLevels) \<and> distinct (map (\<lambda>(l, x). (l, fm_number x)) (new_files E)) \<and>
     (\<forall>(l, x) \<in> set (new_files E). l < kNumLevels \<and> meta_ok ok x \<and> (\<forall>a \<in> S l. fm_number a \<noteq> fm_number x))"

lemma builder_Apply_holds:
  assumes "key_order ok ucmp" "builder_holds ucmp ok A D b" "edit_fits ok E A"
  shows "\<exists>b'. builder_Apply ucmp E b = Some b' \<and>
    builder_holds ucmp ok (\<lambda>l. A l \<union> {bare x | x. (l, x) \<in> set (new_files E)})
      (\<lambda>l. (D l \<union> {n. (l, n) \<in> deleted_files E}) - {fm_number x | x. (l, x) \<in> set (new_files E)}) b' \<and>
    extends b b' \<and> bd_compact_pointer b' = fold (\<lambda>(l, k) cp. cp[l := k]) (compact_pointers E) (bd_compact_pointer b)"
proof -
  let ?b = "b\<lparr>bd_compact_pointer := fold (\<lambda>(l, k) cp. cp[l := k]) (compact_pointers E) (bd_compact_pointer b)\<rparr>"
  have 1: "each apply_compact_pointer (compact_pointers E) b = Some ?b"
    using assms(3) by (intro apply_compact_pointers) (auto simp: edit_fits_def)
  have "builder_holds ucmp ok A D ?b" "extends b ?b" using assms(2) by (simp_all add: builder_holds_def extends_def)
  moreover have "set (sorted_list_of_set (deleted_files E)) = deleted_files E" using assms(3) by (simp add: edit_fits_def)
  ultimately obtain b2 where 2: "each apply_deleted (sorted_list_of_set (deleted_files E)) ?b = Some b2"
    "builder_holds ucmp ok A (\<lambda>l. D l \<union> {n. (l, n) \<in> deleted_files E}) b2" "extends b b2" "bd_compact_pointer b2 = bd_compact_pointer ?b"
    using apply_deleted_holds [of ucmp ok A D ?b "sorted_list_of_set (deleted_files E)"] assms(3) extends_trans
    by (auto simp: edit_fits_def)
  from apply_new_files_hold [OF assms(1) 2(2), of "new_files E"] assms(3) obtain b3 where
    "each (apply_new_file ucmp) (new_files E) b2 = Some b3"
    "builder_holds ucmp ok (\<lambda>l. A l \<union> {bare x | x. (l, x) \<in> set (new_files E)})
      (\<lambda>l. (D l \<union> {n. (l, n) \<in> deleted_files E}) - {fm_number x | x. (l, x) \<in> set (new_files E)}) b3"
    "extends b2 b3" "bd_compact_pointer b3 = bd_compact_pointer b2" by (auto simp: edit_fits_def)
  then show ?thesis using 1 2 extends_trans [OF 2(3)] by (simp add: builder_Apply_def)
qed

section \<open>Saving a version\<close>

definition disjoint_metas :: "(slice \<Rightarrow> slice \<Rightarrow> int) \<Rightarrow> FileMetaData set \<Rightarrow> bool" where
  "disjoint_metas ucmp R \<longleftrightarrow> (\<forall>a \<in> R. \<forall>c \<in> R. meta_less ucmp a c \<longrightarrow> internal_Compare ucmp (largest a) (smallest c) < 0)"

text \<open>The files of a level, but for their counters, in order.\<close>

abbreviation metas :: "files \<Rightarrow> nat list \<Rightarrow> FileMetaData list" where
  "metas m fs \<equiv> map (\<lambda>f. bare (m f)) fs"

definition version_ordered :: "(slice \<Rightarrow> slice \<Rightarrow> int) \<Rightarrow> (slice \<Rightarrow> bool) \<Rightarrow> files \<Rightarrow> nat \<Rightarrow> Version \<Rightarrow> bool" where
  "version_ordered ucmp ok m fresh v \<longleftrightarrow> length (levels v) = kNumLevels \<and>
     (\<forall>fs \<in> set (levels v). sorted_wrt (meta_less ucmp) (metas m fs) \<and> (\<forall>f \<in> set fs. f < fresh \<and> meta_ok ok (m f)))"

lemma sorted_metas: "sorted_wrt (meta_less ucmp) (metas m fs) \<longleftrightarrow> sorted_wrt (BySmallestKey ucmp m) fs"
proof -
  have "BySmallestKey ucmp m = (\<lambda>f g. meta_less ucmp (bare (m f)) (bare (m g)))" by (simp add: fun_eq_iff BySmallestKey_meta)
  then show ?thesis by (simp add: sorted_wrt_map)
qed

lemma builder_SaveTo_levels:
  assumes order: "key_order ok ucmp" and b: "builder_holds ucmp ok A D b" and base: "version_ordered ucmp ok (bd_files b) (bd_fresh b) base"
    and nums: "\<forall>l < kNumLevels. \<forall>f \<in> set (levels base ! l). \<forall>a \<in> A l. fm_number (bd_files b f) \<noteq> fm_number a"
    and disj: "\<forall>l < kNumLevels. 0 < l \<longrightarrow>
      disjoint_metas ucmp {a \<in> set (metas (bd_files b) (levels base ! l)) \<union> A l. fm_number a \<notin> D l}"
  shows "\<exists>m' v'. builder_SaveTo ucmp b base = Some (m', v') \<and> (\<forall>f. bare (m' f) = bare (bd_files b f)) \<and>
    version_ordered ucmp ok m' (bd_fresh b) v' \<and>
    (\<forall>l < kNumLevels. set (metas m' (levels v' ! l)) = {a \<in> set (metas (bd_files b) (levels base ! l)) \<union> A l. fm_number a \<notin> D l})"
proof -
  define M where "M = (\<lambda>f. bare (bd_files b f))"
  define K where "K = (\<lambda>l. kept ucmp M (bd_levels b ! l) (levels base ! l))"
  have M: "files_are (bd_files b) M" by (simp add: M_def)
  note BM = BySmallestKey_are [OF M, of ucmp]
  have len: "length (bd_levels b) = kNumLevels" "length (levels base) = kNumLevels"
    using b base by (simp_all add: builder_holds_def version_ordered_def)
  have lev: "sorted_wrt (BySmallestKey ucmp M) (ls_added (bd_levels b ! l))" "M ` set (ls_added (bd_levels b ! l)) = A l"
    "ls_deleted (bd_levels b ! l) = D l" "\<forall>f \<in> set (ls_added (bd_levels b ! l)). f < bd_fresh b \<and> meta_ok ok (M f)"
    "sorted_wrt (BySmallestKey ucmp M) (levels base ! l)" "\<forall>f \<in> set (levels base ! l). f < bd_fresh b \<and> meta_ok ok (M f)"
    if "l < kNumLevels" for l
  proof -
    have "levels base ! l \<in> set (levels base)" using that len(2) by (metis nth_mem)
    then have "sorted_wrt (meta_less ucmp) (metas (bd_files b) (levels base ! l)) \<and>
        (\<forall>f \<in> set (levels base ! l). f < bd_fresh b \<and> meta_ok ok (bd_files b f))"
      using base unfolding version_ordered_def by blast
    then show "sorted_wrt (BySmallestKey ucmp M) (ls_added (bd_levels b ! l))" "M ` set (ls_added (bd_levels b ! l)) = A l"
      "ls_deleted (bd_levels b ! l) = D l" "\<forall>f \<in> set (ls_added (bd_levels b ! l)). f < bd_fresh b \<and> meta_ok ok (M f)"
      "sorted_wrt (BySmallestKey ucmp M) (levels base ! l)" "\<forall>f \<in> set (levels base ! l). f < bd_fresh b \<and> meta_ok ok (M f)"
      using b that unfolding BM [symmetric] by (simp_all add: builder_holds_def sorted_metas M_def)
  qed
  have merged: "sorted_wrt (BySmallestKey ucmp M) (merge_by (BySmallestKey ucmp M) (levels base ! l) (ls_added (bd_levels b ! l)))"
    if l: "l < kNumLevels" for l
  proof (rule merge_by_sorted [OF lev(5,1) [OF l]])
    fix a f assume af: "a \<in> set (ls_added (bd_levels b ! l))" "f \<in> set (levels base ! l)" "\<not> BySmallestKey ucmp M a f"
    have "M a \<in> A l" using lev(2) [OF l] af(1) by blast
    then have "fm_number (M a) \<noteq> fm_number (M f)" using nums l af(2) unfolding M_def by (metis bare_simps(1))
    then show "BySmallestKey ucmp M f a"
      using af lev(4,6) [OF l] meta_order(3) [OF order, of "bare (M a)" "bare (M f)"] by (simp add: BySmallestKey_meta)
  next
    fix a f g assume "a \<in> set (levels base ! l) \<union> set (ls_added (bd_levels b ! l))" "f \<in> set (levels base ! l) \<union> set (ls_added (bd_levels b ! l))"
      "g \<in> set (levels base ! l) \<union> set (ls_added (bd_levels b ! l))" "BySmallestKey ucmp M a f" "BySmallestKey ucmp M f g"
    then show "BySmallestKey ucmp M a g"
      using lev(4,6) [OF l] meta_order(4) [OF order, of "bare (M a)" "bare (M f)" "bare (M g)"] by (auto simp: BySmallestKey_meta)
  qed
  have setK: "set (map M (K l)) = {a \<in> M ` set (levels base ! l) \<union> A l. fm_number a \<notin> D l}" if "l < kNumLevels" for l
    using lev(2,3) [OF that] by (auto simp: K_def set_merge_by)
  have K: "sorted_wrt (BySmallestKey ucmp M) (K l)" "\<forall>f \<in> set (K l). f < bd_fresh b \<and> meta_ok ok (M f)" if "l < kNumLevels" for l
    using merged [OF that] lev(4,6) [OF that] by (auto simp: K_def sorted_wrt_filter set_merge_by)
  have "0 + l = 0 \<or> separated ucmp M (K l)" if l: "l < kNumLevels" for l
  proof (cases "l = 0")
    case False
    have "M ` set (levels base ! l) = set (metas (bd_files b) (levels base ! l))" by (simp add: M_def)
    then have "disjoint_metas ucmp (set (map M (K l)))" using disj l False unfolding setK [OF l] by simp
    then have "separated ucmp M (K l)"
      unfolding separated_def
      by (intro sorted_wrt_mono_rel [OF _ K(1) [OF l]]) (auto simp: disjoint_metas_def BySmallestKey_meta M_def)
    then show ?thesis by simp
  qed simp
  then obtain m' where m': "save_levels ucmp 0 (bd_levels b) (levels base) (bd_files b) =
      Some (m', map2 (kept ucmp M) (bd_levels b) (levels base))" "files_are m' M"
    using save_levels_kept [OF M, of "bd_levels b" "levels base" 0 ucmp] len by (auto simp: K_def)
  let ?v = "new_Version\<lparr>levels := map2 (kept ucmp M) (bd_levels b) (levels base)\<rparr>"
  have nth: "levels ?v ! l = K l" if "l < kNumLevels" for l using that len by (simp add: K_def)
  have am: "bare (m' f) = M f" for f using m'(2) by simp
  have "version_ordered ucmp ok m' (bd_fresh b) ?v"
    unfolding version_ordered_def
  proof (rule conjI, goal_cases)
    case 1
    show ?case using len by simp
  next
    case 2
    have lv: "length (levels ?v) = kNumLevels" using len by simp
    have "sorted_wrt (meta_less ucmp) (metas m' fs) \<and> (\<forall>f \<in> set fs. f < bd_fresh b \<and> meta_ok ok (m' f))" if "fs \<in> set (levels ?v)" for fs
    proof -
      obtain l where "l < length (levels ?v)" "levels ?v ! l = fs" using \<open>fs \<in> _\<close> unfolding in_set_conv_nth by blast
      then have l: "l < kNumLevels" "fs = K l" using nth [of l] unfolding lv by blast+
      have "sorted_wrt (meta_less ucmp) (metas m' fs)" unfolding sorted_metas BySmallestKey_are [OF m'(2)] l(2) using K(1) [OF l(1)] .
      then show ?thesis using K(2) [OF l(1)] unfolding l(2) files_areD(2,3) [OF m'(2)] by blast
    qed
    then show ?case by blast
  qed
  moreover have "set (metas m' (levels ?v ! l)) = {a \<in> set (metas (bd_files b) (levels base ! l)) \<union> A l. fm_number a \<notin> D l}"
    if "l < kNumLevels" for l
    using setK [OF that] unfolding nth [OF that] by (simp add: am M_def)
  moreover have "builder_SaveTo ucmp b base = Some (m', ?v)" by (simp add: builder_SaveTo_def m'(1))
  moreover have "\<forall>f. bare (m' f) = bare (bd_files b f)" using am by (simp add: M_def)
  ultimately show ?thesis by blast
qed

section \<open>One edit\<close>

abbreviation level_metas :: "files \<Rightarrow> Version \<Rightarrow> nat \<Rightarrow> FileMetaData set" where
  "level_metas m v \<equiv> \<lambda>l. set (metas m (levels v ! l))"

lemma new_Builder_holds: "builder_holds ucmp ok (\<lambda>_. {}) (\<lambda>_. {}) (new_Builder m fresh cp)"
  by (simp add: builder_holds_def new_Builder_def)

lemma edit_fits_mono: "edit_fits ok E S \<Longrightarrow> (\<And>l. l < kNumLevels \<Longrightarrow> A l \<subseteq> S l) \<Longrightarrow> edit_fits ok E A"
  unfolding edit_fits_def by (auto, blast+)

lemma edited_kept:
  assumes "edit_fits ok E A"
  shows "{a \<in> A l \<union> {bare x | x. (l, x) \<in> set (new_files E)}.
      fm_number a \<notin> (D l \<union> {n. (l, n) \<in> deleted_files E}) - {fm_number x | x. (l, x) \<in> set (new_files E)}} =
    edited E (\<lambda>l. {a \<in> A l. fm_number a \<notin> D l}) l"
proof -
  have "fm_number a \<notin> {fm_number x | x. (l, x) \<in> set (new_files E)}" if "a \<in> A l" for a
    using assms that by (fastforce simp: edit_fits_def)
  then show ?thesis by (auto simp: edited_def)
qed

lemma edit_applied:
  assumes order: "key_order ok ucmp" and v: "version_ordered ucmp ok m fresh v" and E: "edit_fits ok E (level_metas m v)"
    and disj: "\<forall>l < kNumLevels. 0 < l \<longrightarrow> disjoint_metas ucmp (edited E (level_metas m v) l)"
  shows "\<exists>b m' v'. builder_Apply ucmp E (new_Builder m fresh cp) = Some b \<and> builder_SaveTo ucmp b v = Some (m', v') \<and>
    bd_compact_pointer b = fold (\<lambda>(l, k) cp. cp[l := k]) (compact_pointers E) cp \<and>
    version_ordered ucmp ok m' (bd_fresh b) v' \<and> (\<forall>l < kNumLevels. level_metas m' v' l = edited E (level_metas m v) l)"
proof -
  let ?b0 = "new_Builder m fresh cp"
  let ?A = "\<lambda>l. {} \<union> {bare x | x. (l, x) \<in> set (new_files E)}"
  let ?D = "\<lambda>l. ({} \<union> {n. (l, n) \<in> deleted_files E}) - {fm_number x | x. (l, x) \<in> set (new_files E)}"
  have E0: "edit_fits ok E (\<lambda>_. {})" using E by (rule edit_fits_mono) simp
  from builder_Apply_holds [OF order new_Builder_holds this] obtain b where b: "builder_Apply ucmp E ?b0 = Some b"
    "builder_holds ucmp ok ?A ?D b" "extends ?b0 b" "bd_compact_pointer b = fold (\<lambda>(l, k) cp. cp[l := k]) (compact_pointers E) (bd_compact_pointer ?b0)"
    by blast
  have same: "bare (bd_files b f) = bare (m f)" "f < bd_fresh b" if "f < fresh" for f
    using b(3) that by (auto simp: extends_def new_Builder_def)
  have old: "metas (bd_files b) fs = metas m fs" "\<forall>f \<in> set fs. f < bd_fresh b \<and> meta_ok ok (bd_files b f)" if "fs \<in> set (levels v)" for fs
  proof -
    have fs: "\<forall>f \<in> set fs. f < fresh \<and> meta_ok ok (m f)" using v that by (simp add: version_ordered_def)
    then show "metas (bd_files b) fs = metas m fs" using same by simp
    show "\<forall>f \<in> set fs. f < bd_fresh b \<and> meta_ok ok (bd_files b f)"
      using fs same by (metis bare_simps(3,4))
  qed
  have nth: "levels v ! l \<in> set (levels v)" if "l < kNumLevels" for l using that v by (simp add: version_ordered_def)
  have v': "version_ordered ucmp ok (bd_files b) (bd_fresh b) v"
    unfolding version_ordered_def
  proof (rule conjI [OF _ ballI])
    show "length (levels v) = kNumLevels" using v by (simp add: version_ordered_def)
    fix fs assume fs: "fs \<in> set (levels v)"
    then have "sorted_wrt (meta_less ucmp) (metas m fs)" using v by (simp add: version_ordered_def)
    then show "sorted_wrt (meta_less ucmp) (metas (bd_files b) fs) \<and> (\<forall>f \<in> set fs. f < bd_fresh b \<and> meta_ok ok (bd_files b f))"
      unfolding old(1) [OF fs] using old(2) [OF fs] by blast
  qed
  have nums: "\<forall>l < kNumLevels. \<forall>f \<in> set (levels v ! l). \<forall>a \<in> ?A l. fm_number (bd_files b f) \<noteq> fm_number a"
  proof (intro allI impI ballI)
    fix l f a assume l: "l < kNumLevels" and f: "f \<in> set (levels v ! l)" and a: "a \<in> ?A l"
    obtain x where x: "(l, x) \<in> set (new_files E)" "a = bare x" using a by auto
    have "bare (bd_files b f) \<in> level_metas m v l" using old(1) [OF nth [OF l]] f by (metis image_eqI list.set_map)
    then have "fm_number (bare (bd_files b f)) \<noteq> fm_number x" using E x(1) unfolding edit_fits_def by fast
    then show "fm_number (bd_files b f) \<noteq> fm_number a" by (simp add: x(2))
  qed
  have sets: "{a \<in> set (metas (bd_files b) (levels v ! l)) \<union> ?A l. fm_number a \<notin> ?D l} = edited E (level_metas m v) l" if "l < kNumLevels" for l
    using edited_kept [OF E, of l "\<lambda>_. {}"] by (simp add: old(1) [OF nth [OF that]])
  have disj': "\<forall>l < kNumLevels. 0 < l \<longrightarrow> disjoint_metas ucmp {a \<in> set (metas (bd_files b) (levels v ! l)) \<union> ?A l. fm_number a \<notin> ?D l}"
    using disj sets by simp
  from builder_SaveTo_levels [OF order b(2) v' nums disj'] sets show ?thesis using b by (auto simp: new_Builder_def)
qed


section \<open>An example\<close>

definition example_meta :: "nat \<Rightarrow> FileMetaData" where
  "example_meta f = new_FileMetaData (of_nat f) 100 (new_InternalKey [of_nat (10 * f)] 9 kTypeValue) (new_InternalKey [of_nat (10 * f + 5)] 3 kTypeValue)"

definition example_version :: Version where
  "example_version = new_Version\<lparr>levels := [[7], [1, 2]] @ replicate 5 []\<rparr>"

text \<open>A compaction of the file 2 of level 1 and the file 7 of level 0 to a file 9 of level 1.\<close>

definition example_edit :: VersionEdit where
  "example_edit = SetCompactPointer (AddFile (DeleteFile (DeleteFile new_VersionEdit 1 2) 0 7) 1 9 150
     (new_InternalKey [20] 9 kTypeValue) (new_InternalKey [75] 3 kTypeValue)) 1 (new_InternalKey [75] 3 kTypeValue)"

lemma disjoint_metas_list:
  "disjoint_metas ucmp (set xs) \<longleftrightarrow>
     list_all (\<lambda>a. list_all (\<lambda>c. meta_less ucmp a c \<longrightarrow> internal_Compare ucmp (largest a) (smallest c) < 0) xs) xs"
  by (auto simp: disjoint_metas_def list_all_iff)

lemma example_levels: "levels example_version ! l = (if l = 0 then [7] else if l = 1 then [1, 2] else [])" if "l < kNumLevels"
  using that by (auto simp: example_version_def kNumLevels_def nth_append nth_Cons' less_Suc_eq numeral_eq_Suc)

lemma example_ordered: "version_ordered bytewise_Compare (\<lambda>_. True) example_meta 10 example_version"
proof -
  have "sorted_wrt (meta_less bytewise_Compare) (metas example_meta [1, 2])" by code_simp
  then show ?thesis
    by (auto simp: version_ordered_def example_version_def kNumLevels_def example_meta_def new_FileMetaData_def length_new_InternalKey)
qed

lemma example_edit_parts:
  "new_files example_edit = [(1, new_FileMetaData 9 150 (new_InternalKey [20] 9 kTypeValue) (new_InternalKey [75] 3 kTypeValue))]"
  "deleted_files example_edit = {(0, 7), (1, 2)}" "compact_pointers example_edit = [(1, new_InternalKey [75] 3 kTypeValue)]"
  "edit_ok example_edit" "\<not> has_comparator example_edit" "\<not> has_log_number example_edit"
proof -
  show "edit_ok example_edit"
    unfolding example_edit_def by (intro edit_ok_preserved) (simp_all add: kNumLevels_def length_new_InternalKey)
qed (simp_all add: example_edit_def AddFile_def DeleteFile_def SetCompactPointer_def new_VersionEdit_def edit_Clear_def)

lemma example_fits: "edit_fits (\<lambda>_. True) example_edit (level_metas example_meta example_version)"
  unfolding edit_fits_def example_edit_parts
  by (auto simp: kNumLevels_def length_new_InternalKey new_FileMetaData_def example_levels example_meta_def)

lemma example_edited:
  assumes "l < kNumLevels"
  shows "edited example_edit (level_metas example_meta example_version) l =
    set (if l = 1 then [bare (example_meta 1), bare (snd (hd (new_files example_edit)))] else [])"
  unfolding edited_def example_levels [OF assms] example_edit_parts(1,2)
  by (auto simp: example_meta_def new_FileMetaData_def image_iff)

lemma example_disjoint:
  "\<forall>l < kNumLevels. 0 < l \<longrightarrow> disjoint_metas bytewise_Compare (edited example_edit (level_metas example_meta example_version) l)"
proof -
  have "disjoint_metas bytewise_Compare (set [bare (example_meta 1), bare (snd (hd (new_files example_edit)))])"
    unfolding disjoint_metas_list by code_simp
  moreover have "disjoint_metas bytewise_Compare (set [])" by (simp add: disjoint_metas_def)
  ultimately have "disjoint_metas bytewise_Compare (set (if l = 1 then [bare (example_meta 1), bare (snd (hd (new_files example_edit)))] else []))"
    for l :: nat by (cases "l = 1") (simp_all only: if_True if_False simp_thms)
  then show ?thesis using example_edited by (intro allI impI) (simp only:)
qed


section \<open>A manifest\<close>

text \<open>
  Logging edits one after the other; before each one, numbers of files may be handed out and the sequence number set.
  The result has the edits as they are written to the manifest.
\<close>

fun log_edits :: "(slice \<Rightarrow> slice \<Rightarrow> int) \<Rightarrow> (u64 \<times> u64 \<times> VersionEdit) list \<Rightarrow> VersionSet \<Rightarrow> (VersionSet \<times> VersionEdit list) option" where
  "log_edits ucmp [] vs = Some (vs, [])"
| "log_edits ucmp ((n, s, E) # Es) vs = do {
     let vs = vs\<lparr>vs_next_file_number := n, vs_last_sequence := s\<rparr>;
     E \<leftarrow> LogAndApply_edit E vs;
     vs \<leftarrow> LogAndApply_install ucmp E vs;
     (vs, rest) \<leftarrow> log_edits ucmp Es vs;
     Some (vs, E # rest) }"

text \<open>The edits fit all files that were ever added (\<open>A\<close>), and what they make of the version (\<open>S\<close>) does not overlap.\<close>

fun edits_fit ::
  "(slice \<Rightarrow> slice \<Rightarrow> int) \<Rightarrow> (slice \<Rightarrow> bool) \<Rightarrow> byte list \<Rightarrow> (nat \<Rightarrow> FileMetaData set) \<Rightarrow> (nat \<Rightarrow> FileMetaData set) \<Rightarrow>
   (u64 \<times> u64 \<times> VersionEdit) list \<Rightarrow> bool" where
  "edits_fit ucmp ok name A S [] \<longleftrightarrow> True"
| "edits_fit ucmp ok name A S ((_, _, E) # Es) \<longleftrightarrow>
     edit_ok E \<and> (has_comparator E \<longrightarrow> ve_comparator E = name) \<and> edit_fits ok E A \<and>
     (\<forall>l < kNumLevels. 0 < l \<longrightarrow> disjoint_metas ucmp (edited E S l)) \<and>
     edits_fit ucmp ok name (\<lambda>l. A l \<union> {bare x | x. (l, x) \<in> set (new_files E)}) (edited E S) Es"

lemma LogAndApply_edit_parts:
  assumes "LogAndApply_edit E vs = Some E'" "edit_ok E"
  shows "edit_ok E'" "new_files E' = new_files E" "deleted_files E' = deleted_files E" "compact_pointers E' = compact_pointers E"
    "has_comparator E' = has_comparator E" "ve_comparator E' = ve_comparator E"
    "has_log_number E'" "has_prev_log_number E'" "has_next_file_number E'" "has_last_sequence E'"
    "next_file_number E' = vs_next_file_number vs" "last_sequence E' = vs_last_sequence vs"
proof -
  have E': "E' = SetLastSequence (SetNextFile
      (if has_prev_log_number (if has_log_number E then E else SetLogNumber E (vs_log_number vs))
       then (if has_log_number E then E else SetLogNumber E (vs_log_number vs))
       else SetPrevLogNumber (if has_log_number E then E else SetLogNumber E (vs_log_number vs)) (vs_prev_log_number vs))
      (vs_next_file_number vs)) (vs_last_sequence vs)"
    using assms(1) by (simp add: LogAndApply_edit_def Let_def split: if_splits)
  show "edit_ok E'" unfolding E' using assms(2) by (simp add: edit_ok_preserved)
  show "new_files E' = new_files E" "deleted_files E' = deleted_files E" "compact_pointers E' = compact_pointers E"
    "has_comparator E' = has_comparator E" "ve_comparator E' = ve_comparator E"
    "has_log_number E'" "has_prev_log_number E'" "has_next_file_number E'" "has_last_sequence E'"
    "next_file_number E' = vs_next_file_number vs" "last_sequence E' = vs_last_sequence vs"
    by (simp_all add: E' SetLastSequence_def SetNextFile_def SetPrevLogNumber_def SetLogNumber_def)
qed

lemma edit_fits_cong:
  "new_files E' = new_files E \<Longrightarrow> deleted_files E' = deleted_files E \<Longrightarrow> compact_pointers E' = compact_pointers E \<Longrightarrow>
   edit_fits ok E' S = edit_fits ok E S \<and> edited E' S = edited E S"
  by (simp add: edit_fits_def edited_def fun_eq_iff)

text \<open>The state of the recovery after the records of some edits, against the set of versions that logged them.\<close>

definition recovered ::
  "(slice \<Rightarrow> slice \<Rightarrow> int) \<Rightarrow> (slice \<Rightarrow> bool) \<Rightarrow> (nat \<Rightarrow> FileMetaData set) \<Rightarrow> (nat \<Rightarrow> u64 set) \<Rightarrow> Recovery \<Rightarrow> VersionSet \<Rightarrow> bool" where
  "recovered ucmp ok A D r vs \<longleftrightarrow>
     rc_status r = Status_OK \<and> builder_holds ucmp ok A D (rc_builder r) \<and>
     bd_compact_pointer (rc_builder r) = compact_pointer vs \<and>
     version_ordered ucmp ok (vs_files vs) (vs_fresh vs) (vs_current vs) \<and>
     (\<forall>l < kNumLevels. level_metas (vs_files vs) (vs_current vs) l = {a \<in> A l. fm_number a \<notin> D l})"

definition numbers_agree :: "Recovery \<Rightarrow> VersionSet \<Rightarrow> bool" where
  "numbers_agree r vs \<longleftrightarrow> have_log_number r \<and> have_prev_log_number r \<and> have_next_file r \<and> have_last_sequence r \<and>
     rc_log_number r = vs_log_number vs \<and> rc_prev_log_number r = vs_prev_log_number vs \<and>
     rc_next_file r = vs_next_file_number vs \<and> rc_last_sequence r = vs_last_sequence vs"

lemma edited_cong: "(S l = T l) \<Longrightarrow> edited E S l = edited E T l"
  by (simp add: edited_def)

lemma recover_step:
  assumes order: "key_order ok ucmp" and r: "recovered ucmp ok A D r vs"
    and fit: "edits_fit ucmp ok name A (\<lambda>l. {a \<in> A l. fm_number a \<notin> D l}) [(n, s, E)]"
    and log: "LogAndApply_edit E (vs\<lparr>vs_next_file_number := n, vs_last_sequence := s\<rparr>) = Some E'"
    and inst: "LogAndApply_install ucmp E' (vs\<lparr>vs_next_file_number := n, vs_last_sequence := s\<rparr>) = Some vs'"
  defines "A' \<equiv> \<lambda>l. A l \<union> {bare x | x. (l, x) \<in> set (new_files E)}"
    and "D' \<equiv> \<lambda>l. (D l \<union> {n. (l, n) \<in> deleted_files E}) - {fm_number x | x. (l, x) \<in> set (new_files E)}"
  shows "\<exists>r'. recover_record ucmp name (edit_EncodeTo E' []) r = Some r' \<and> recovered ucmp ok A' D' r' vs' \<and> numbers_agree r' vs' \<and>
    (\<forall>l < kNumLevels. 0 < l \<longrightarrow> disjoint_metas ucmp {a \<in> A' l. fm_number a \<notin> D' l})"
proof -
  let ?S = "\<lambda>l. {a \<in> A l. fm_number a \<notin> D l}"
  let ?M = "level_metas (vs_files vs) (vs_current vs)"
  note E = LogAndApply_edit_parts [OF log]
  have eok: "edit_ok E" "has_comparator E \<longrightarrow> ve_comparator E = name" "edit_fits ok E A"
    "\<forall>l < kNumLevels. 0 < l \<longrightarrow> disjoint_metas ucmp (edited E ?S l)" using fit by simp_all
  note E = E [OF eok(1)]
  note cong = edit_fits_cong [OF E(2-4)]
  have rs: "rc_status r = Status_OK" "builder_holds ucmp ok A D (rc_builder r)" "bd_compact_pointer (rc_builder r) = compact_pointer vs"
    "version_ordered ucmp ok (vs_files vs) (vs_fresh vs) (vs_current vs)" "\<And>l. l < kNumLevels \<Longrightarrow> ?M l = ?S l"
    using r by (simp_all add: recovered_def)
  have fits: "edit_fits ok E' A" "edit_fits ok E' ?M"
    using eok(3) rs(5) cong by (auto intro: edit_fits_mono)
  have ed: "edited E' ?M l = edited E ?S l" if "l < kNumLevels" for l
    using edited_cong [of ?M l ?S E, OF rs(5) [OF that]] cong by simp
  have disj: "\<forall>l < kNumLevels. 0 < l \<longrightarrow> disjoint_metas ucmp (edited E' ?M l)" using eok(4) ed by simp
  from edit_applied [OF order rs(4) fits(2) disj, of "compact_pointer vs"] obtain b m' v' where
    b0: "builder_Apply ucmp E' (new_Builder (vs_files vs) (vs_fresh vs) (compact_pointer vs)) = Some b"
      "builder_SaveTo ucmp b (vs_current vs) = Some (m', v')" and
    b: "bd_compact_pointer b = fold (\<lambda>(l, k) cp. cp[l := k]) (compact_pointers E') (compact_pointer vs)"
      "version_ordered ucmp ok m' (bd_fresh b) v'" "\<forall>l < kNumLevels. level_metas m' v' l = edited E' ?M l" by blast
  have vs': "vs' = vs\<lparr>vs_next_file_number := n, vs_last_sequence := s, vs_current := v', vs_files := m', vs_fresh := bd_fresh b,
       compact_pointer := bd_compact_pointer b, vs_log_number := log_number E', vs_prev_log_number := prev_log_number E'\<rparr>"
    using inst b0 by (simp add: LogAndApply_install_def)
  from builder_Apply_holds [OF order rs(2) fits(1)] obtain rb where rb: "builder_Apply ucmp E' (rc_builder r) = Some rb"
    "builder_holds ucmp ok A' D' rb" "bd_compact_pointer rb = fold (\<lambda>(l, k) cp. cp[l := k]) (compact_pointers E') (bd_compact_pointer (rc_builder r))"
    by (auto simp: A'_def D'_def E(2,3))
  define r' where "r' = r\<lparr>rc_builder := rb, have_log_number := True, have_prev_log_number := True, have_next_file := True, have_last_sequence := True,
      rc_log_number := log_number E', rc_prev_log_number := prev_log_number E', rc_next_file := n, rc_last_sequence := s\<rparr>"
  have dec: "edit_DecodeFrom new_VersionEdit (edit_EncodeTo E' []) = (Status_OK, E')"
    using edit_Decode_Encode [OF E(1), of new_VersionEdit] by (simp add: new_VersionEdit_def edit_Clear_def)
  have "recover_record ucmp name (edit_EncodeTo E' []) r = Some r'"
    using eok(2) E rb(1) rs(1) unfolding recover_record_def dec
    by (cases "has_comparator E"; cases r; simp add: r'_def status_ok_def Status_OK_def)
  moreover have "level_metas m' v' l = {a \<in> A' l. fm_number a \<notin> D' l}" if "l < kNumLevels" for l
    using b(3) ed [OF that] edited_kept [OF eok(3), of l D] that by (simp add: A'_def D'_def)
  then have "recovered ucmp ok A' D' r' vs'"
    using rb(2,3) rs(1,3) b by (simp add: recovered_def r'_def vs')
  moreover have "numbers_agree r' vs'" by (simp add: numbers_agree_def r'_def vs')
  moreover have "\<forall>l < kNumLevels. 0 < l \<longrightarrow> disjoint_metas ucmp {a \<in> A' l. fm_number a \<notin> D' l}"
    using eok(4) edited_kept [OF eok(3), of _ D] by (simp add: A'_def D'_def)
  ultimately show ?thesis by blast
qed

text \<open>The record of a snapshot.\<close>

abbreviation snapshot_file :: "files \<Rightarrow> nat \<Rightarrow> FileMetaData" where
  "snapshot_file m f \<equiv> new_FileMetaData (fm_number (m f)) (file_size (m f)) (smallest (m f)) (largest (m f))"

lemma bare_snapshot [simp]: "bare (snapshot_file m f) = bare (m f)"
  by (simp add: bare_def new_FileMetaData_def)

lemma snapshot_files_eq:
  "snapshot_files m l lss E = E\<lparr>new_files := new_files E @ concat (map (\<lambda>(l, fs). map (\<lambda>f. (l, snapshot_file m f)) fs) (enumerate l lss))\<rparr>"
proof (induction lss arbitrary: l E)
  case (Cons fs lss)
  have "fold (\<lambda>f E. AddFile E l (fm_number (m f)) (file_size (m f)) (smallest (m f)) (largest (m f))) fs E =
      E\<lparr>new_files := new_files E @ map (\<lambda>f. (l, snapshot_file m f)) fs\<rparr>"
    by (induction fs arbitrary: E) (simp_all add: AddFile_def)
  then show ?case using Cons by simp
qed simp

lemma snapshot_pointers_eq:
  "snapshot_pointers l ps E = E\<lparr>compact_pointers := compact_pointers E @ filter (\<lambda>(l, p). p \<noteq> []) (enumerate l ps)\<rparr>"
  by (induction ps arbitrary: l E) (simp_all add: SetCompactPointer_def)

lemma snapshot_parts:
  "new_files (WriteSnapshot_edit name vs) =
     concat (map (\<lambda>(l, fs). map (\<lambda>f. (l, snapshot_file (vs_files vs) f)) fs) (enumerate 0 (levels (vs_current vs))))"
  "compact_pointers (WriteSnapshot_edit name vs) = filter (\<lambda>(l, p). p \<noteq> []) (enumerate 0 (compact_pointer vs))"
  "deleted_files (WriteSnapshot_edit name vs) = {}" "has_comparator (WriteSnapshot_edit name vs)" "ve_comparator (WriteSnapshot_edit name vs) = name"
  "\<not> has_log_number (WriteSnapshot_edit name vs)" "\<not> has_prev_log_number (WriteSnapshot_edit name vs)"
  "\<not> has_next_file_number (WriteSnapshot_edit name vs)" "\<not> has_last_sequence (WriteSnapshot_edit name vs)"
  "log_number (WriteSnapshot_edit name vs) = 0" "prev_log_number (WriteSnapshot_edit name vs) = 0"
  "next_file_number (WriteSnapshot_edit name vs) = 0" "last_sequence (WriteSnapshot_edit name vs) = 0"
  by (simp_all add: WriteSnapshot_edit_def snapshot_files_eq snapshot_pointers_eq SetComparatorName_def new_VersionEdit_def edit_Clear_def)

lemma snapshot_new_files: "(l, x) \<in> set (new_files (WriteSnapshot_edit name vs)) \<longleftrightarrow>
    l < length (levels (vs_current vs)) \<and> (\<exists>f \<in> set (levels (vs_current vs) ! l). x = snapshot_file (vs_files vs) f)"
  by (auto simp: snapshot_parts(1) in_set_enumerate_eq intro!: bexI [of _ "(l, levels (vs_current vs) ! l)"])

lemma restore_pointers:
  "k + length ps = length cp \<Longrightarrow> (\<forall>i. k \<le> i \<and> i < length cp \<longrightarrow> cp ! i = []) \<Longrightarrow>
   fold (\<lambda>(l, p) cp. cp[l := p]) (filter (\<lambda>(l, p). p \<noteq> []) (enumerate k ps)) cp = take k cp @ ps"
proof (induction ps arbitrary: k cp)
  case (Cons p ps)
  have k: "k < length cp" "cp ! k = []" using Cons.prems by auto
  have "take (Suc k) (cp[k := p]) = take k cp @ [p]" using k(1) by (simp add: take_Suc_conv_app_nth)
  moreover have "p = [] \<Longrightarrow> cp[k := p] = cp" using k(2) by (metis list_update_id)
  ultimately show ?case using Cons.IH [of "Suc k" "cp[k := p]"] Cons.prems by (cases "p = []") (auto simp: nth_list_update)
qed simp

lemma edits_fit_cong:
  "(\<And>l. l < kNumLevels \<Longrightarrow> A l = B l \<and> S l = T l) \<Longrightarrow> edits_fit ucmp ok name A S Es = edits_fit ucmp ok name B T Es"
proof (induction Es arbitrary: A B S T)
  case (Cons p Es)
  obtain n s E where p: "p = (n, s, E)" by (cases p)
  have "edit_fits ok E A = edit_fits ok E B" using Cons.prems by (auto intro: edit_fits_mono)
  moreover have "edited E S l = edited E T l" if "l < kNumLevels" for l using Cons.prems [OF that] by (simp add: edited_def)
  ultimately show ?case using Cons.IH [of "\<lambda>l. A l \<union> {bare x | x. (l, x) \<in> set (new_files E)}"
      "\<lambda>l. B l \<union> {bare x | x. (l, x) \<in> set (new_files E)}" "edited E S" "edited E T"] Cons.prems
    by (simp add: p)
qed simp

definition complete :: "(slice \<Rightarrow> slice \<Rightarrow> int) \<Rightarrow> (nat \<Rightarrow> FileMetaData set) \<Rightarrow> (nat \<Rightarrow> u64 set) \<Rightarrow> Recovery \<Rightarrow> VersionSet \<Rightarrow> bool" where
  "complete ucmp A D r vs \<longleftrightarrow> numbers_agree r vs \<and>
     (\<forall>l < kNumLevels. 0 < l \<longrightarrow> disjoint_metas ucmp {a \<in> A l. fm_number a \<notin> D l})"

lemma recover_edits:
  assumes order: "key_order ok ucmp" and "recovered ucmp ok A D r vs"
    and "edits_fit ucmp ok name A (\<lambda>l. {a \<in> A l. fm_number a \<notin> D l}) Es" "log_edits ucmp Es vs = Some (vs', Es')"
  shows "\<exists>r' A' D'. recover_records ucmp name Status_OK (map (\<lambda>E. (Status_OK, edit_EncodeTo E [])) Es') r = Some r' \<and>
    recovered ucmp ok A' D' r' vs' \<and> (Es \<noteq> [] \<or> complete ucmp A D r vs \<longrightarrow> complete ucmp A' D' r' vs')"
  using assms(2-)
proof (induction Es arbitrary: A D r vs Es')
  case Nil
  have "LogReporter_Corruption Status_OK r = r"
    using Nil.prems(1) by (cases r) (simp add: LogReporter_Corruption_def recovered_def)
  then show ?case using Nil by auto
next
  case (Cons p Es)
  obtain n s E where p: "p = (n, s, E)" by (cases p)
  obtain E1 vs1 Es1 where log: "LogAndApply_edit E (vs\<lparr>vs_next_file_number := n, vs_last_sequence := s\<rparr>) = Some E1"
    "LogAndApply_install ucmp E1 (vs\<lparr>vs_next_file_number := n, vs_last_sequence := s\<rparr>) = Some vs1"
    "log_edits ucmp Es vs1 = Some (vs', Es1)" "Es' = E1 # Es1"
    using Cons.prems(3) by (auto simp: p bind_Some_iff Let_def)
  have fit: "edits_fit ucmp ok name A (\<lambda>l. {a \<in> A l. fm_number a \<notin> D l}) [(n, s, E)]" "edit_fits ok E A"
    using Cons.prems(2) by (simp_all add: p)
  let ?A = "\<lambda>l. A l \<union> {bare x | x. (l, x) \<in> set (new_files E)}"
  let ?D = "\<lambda>l. (D l \<union> {n. (l, n) \<in> deleted_files E}) - {fm_number x | x. (l, x) \<in> set (new_files E)}"
  obtain r1 where r1: "recover_record ucmp name (edit_EncodeTo E1 []) r = Some r1" "recovered ucmp ok ?A ?D r1 vs1" "complete ucmp ?A ?D r1 vs1"
    using recover_step [OF order Cons.prems(1) fit(1) log(1,2)] unfolding complete_def by blast
  have "edits_fit ucmp ok name ?A (\<lambda>l. {a \<in> ?A l. fm_number a \<notin> ?D l}) Es"
    using Cons.prems(2) unfolding edited_kept [OF fit(2)] by (simp add: p)
  from Cons.IH [OF r1(2) this log(3)] obtain r' A' D' where
    "recover_records ucmp name Status_OK (map (\<lambda>E. (Status_OK, edit_EncodeTo E [])) Es1) r1 = Some r'"
    "recovered ucmp ok A' D' r' vs'" "complete ucmp A' D' r' vs'" using r1(3) by blast
  moreover have "rc_status r = Status_OK" using Cons.prems(1) by (simp add: recovered_def)
  moreover from this have "LogReporter_Corruption Status_OK r = r" by (cases r) (simp add: LogReporter_Corruption_def)
  ultimately show ?case using r1(1) by (auto simp: log(4) status_ok_def Status_OK_def)
qed

text \<open>A set of versions that can be written: the keys fit 32-bit lengths, and a level has no number twice.\<close>

definition vset_ok :: "(slice \<Rightarrow> slice \<Rightarrow> int) \<Rightarrow> (slice \<Rightarrow> bool) \<Rightarrow> VersionSet \<Rightarrow> bool" where
  "vset_ok ucmp ok vs \<longleftrightarrow> version_ordered ucmp ok (vs_files vs) (vs_fresh vs) (vs_current vs) \<and>
     length (compact_pointer vs) = kNumLevels \<and> list_all (\<lambda>p. length p < 2 ^ 32) (compact_pointer vs) \<and>
     list_all (\<lambda>fs. distinct (map (\<lambda>f. fm_number (vs_files vs f)) fs) \<and>
       list_all (\<lambda>f. length (smallest (vs_files vs f)) < 2 ^ 32 \<and> length (largest (vs_files vs f)) < 2 ^ 32) fs) (levels (vs_current vs))"

lemma distinct_levels:
  "list_all (\<lambda>fs. distinct (map g fs)) lss \<Longrightarrow> distinct (concat (map (\<lambda>(l, fs). map (\<lambda>f. (l :: nat, g f)) fs) (enumerate k lss)))"
proof (induction lss arbitrary: k)
  case (Cons fs lss)
  have "l \<ge> Suc k" if "(l, x) \<in> set (concat (map (\<lambda>(l, fs). map (\<lambda>f. (l, g f)) fs) (enumerate (Suc k) lss)))" for l x
    using that by (auto simp: in_set_enumerate_eq)
  then have "set (map (\<lambda>f. (k, g f)) fs) \<inter> set (concat (map (\<lambda>(l, fs). map (\<lambda>f. (l, g f)) fs) (enumerate (Suc k) lss))) = {}"
    by fastforce
  moreover have "distinct (map (\<lambda>f. (k, g f)) fs)" using Cons.prems by (auto simp: distinct_map inj_on_def)
  ultimately show ?case using Cons.IH [of "Suc k"] Cons.prems by simp
qed simp

lemma snapshot_ok:
  assumes "vset_ok ucmp ok vs" "length name < 2 ^ 32"
  shows "edit_ok (WriteSnapshot_edit name vs)" and "edit_fits ok (WriteSnapshot_edit name vs) (\<lambda>_. {})"
proof -
  let ?E = "WriteSnapshot_edit name vs"
  have len: "length (levels (vs_current vs)) = kNumLevels" and cp: "length (compact_pointer vs) = kNumLevels"
    using assms(1) by (simp_all add: vset_ok_def version_ordered_def)
  have keys: "length (smallest (vs_files vs f)) < 2 ^ 32" "length (largest (vs_files vs f)) < 2 ^ 32" "meta_ok ok (vs_files vs f)"
    if "l < kNumLevels" "f \<in> set (levels (vs_current vs) ! l)" for l f
  proof -
    have "levels (vs_current vs) ! l \<in> set (levels (vs_current vs))" using that(1) len by (metis nth_mem)
    then show "length (smallest (vs_files vs f)) < 2 ^ 32" "length (largest (vs_files vs f)) < 2 ^ 32" "meta_ok ok (vs_files vs f)"
      using assms(1) that(2) unfolding vset_ok_def version_ordered_def list_all_iff by blast+
  qed
  have "list_all new_file_ok (new_files ?E)"
    using keys unfolding list_all_iff by (auto simp: snapshot_new_files len new_file_ok_def new_FileMetaData_def)
  moreover have "list_all (\<lambda>(l, k). l < kNumLevels \<and> length k < 2 ^ 32) (compact_pointers ?E)"
    using assms(1) cp by (auto simp: snapshot_parts(2) list_all_iff in_set_enumerate_eq vset_ok_def)
  ultimately show "edit_ok ?E" using assms(2) by (simp add: edit_ok_def snapshot_parts(3-))
  have "map (\<lambda>(l, x). (l, fm_number x)) (new_files ?E) =
      concat (map (\<lambda>(l, fs). map (\<lambda>f. (l, fm_number (vs_files vs f))) fs) (enumerate 0 (levels (vs_current vs))))"
    by (simp add: snapshot_parts(1) map_concat comp_def case_prod_unfold new_FileMetaData_def)
  moreover have "list_all (\<lambda>fs. distinct (map (\<lambda>f. fm_number (vs_files vs f)) fs)) (levels (vs_current vs))"
    using assms(1) by (auto simp: vset_ok_def list_all_iff)
  ultimately have "distinct (map (\<lambda>(l, x). (l, fm_number x)) (new_files ?E))" using distinct_levels by metis
  moreover have "\<forall>(l, x) \<in> set (new_files ?E). l < kNumLevels \<and> meta_ok ok x"
    using keys(3) len by (auto simp: snapshot_new_files new_FileMetaData_def)
  moreover have "\<forall>(l, k) \<in> set (compact_pointers ?E). l < kNumLevels" using cp by (auto simp: snapshot_parts(2) in_set_enumerate_eq)
  ultimately show "edit_fits ok ?E (\<lambda>_. {})" by (auto simp: edit_fits_def snapshot_parts(3))
qed

lemma recover_snapshot:
  assumes order: "key_order ok ucmp" and vs: "vset_ok ucmp ok vs" "length name < 2 ^ 32"
    and vs0: "compact_pointer vs0 = replicate kNumLevels []"
  shows "\<exists>r. recover_record ucmp name (edit_EncodeTo (WriteSnapshot_edit name vs) []) (new_Recovery vs0) = Some r \<and>
    recovered ucmp ok (\<lambda>l. {bare x | x. (l, x) \<in> set (new_files (WriteSnapshot_edit name vs))}) (\<lambda>_. {}) r vs"
proof -
  let ?E = "WriteSnapshot_edit name vs"
  note ok = snapshot_ok [OF vs]
  have len: "length (levels (vs_current vs)) = kNumLevels" using vs(1) by (simp add: vset_ok_def version_ordered_def)
  have hold: "builder_holds ucmp ok (\<lambda>_. {}) (\<lambda>_. {}) (rc_builder (new_Recovery vs0))" by (simp add: new_Recovery_def new_Builder_holds)
  from builder_Apply_holds [OF order this ok(2)] obtain b where b: "builder_Apply ucmp ?E (rc_builder (new_Recovery vs0)) = Some b"
    "builder_holds ucmp ok (\<lambda>l. {} \<union> {bare x | x. (l, x) \<in> set (new_files ?E)})
       (\<lambda>l. ({} \<union> {n. (l, n) \<in> deleted_files ?E}) - {fm_number x | x. (l, x) \<in> set (new_files ?E)}) b"
    "bd_compact_pointer b = fold (\<lambda>(l, k) cp. cp[l := k]) (compact_pointers ?E) (bd_compact_pointer (rc_builder (new_Recovery vs0)))" by blast
  let ?r = "(new_Recovery vs0)\<lparr>rc_builder := b\<rparr>"
  have dec: "edit_DecodeFrom new_VersionEdit (edit_EncodeTo ?E []) = (Status_OK, ?E)"
    using edit_Decode_Encode [OF ok(1), of new_VersionEdit] by (simp add: new_VersionEdit_def edit_Clear_def)
  have "recover_record ucmp name (edit_EncodeTo ?E []) (new_Recovery vs0) = Some ?r"
    unfolding recover_record_def dec using b(1) by (simp add: snapshot_parts(4-) status_ok_def Status_OK_def new_Recovery_def)
  moreover have "bd_compact_pointer b = compact_pointer vs"
    using vs(1) restore_pointers [of 0 "compact_pointer vs" "replicate kNumLevels []"]
    by (simp add: b(3) snapshot_parts(2) new_Recovery_def new_Builder_def vs0 vset_ok_def)
  moreover have "level_metas (vs_files vs) (vs_current vs) l = {bare x | x. (l, x) \<in> set (new_files ?E)}" if "l < kNumLevels" for l
  proof -
    have "{bare x | x. (l, x) \<in> set (new_files ?E)} = {bare (snapshot_file (vs_files vs) f) | f. f \<in> set (levels (vs_current vs) ! l)}"
      unfolding snapshot_new_files len using that by blast
    also have "\<dots> = level_metas (vs_files vs) (vs_current vs) l" by auto
    finally show ?thesis by simp
  qed
  ultimately have "recovered ucmp ok (\<lambda>l. {bare x | x. (l, x) \<in> set (new_files ?E)}) (\<lambda>_. {}) ?r vs"
    using b(2) vs(1) by (simp add: recovered_def snapshot_parts(3) vset_ok_def new_Recovery_def)
  then show ?thesis using \<open>recover_record ucmp name (edit_EncodeTo ?E []) (new_Recovery vs0) = Some ?r\<close> by blast
qed

lemma MarkFileNumberUsed_keeps [simp]:
  "vs_current (MarkFileNumberUsed n vs) = vs_current vs" "compact_pointer (MarkFileNumberUsed n vs) = compact_pointer vs"
  by (simp_all add: MarkFileNumberUsed_def)

lemma ordered_asym:
  assumes order: "key_order ok ucmp" and v: "version_ordered ucmp ok m fresh v" and l: "l < kNumLevels"
    and ab: "a \<in> set (metas m (levels v ! l))" "b \<in> set (metas m (levels v ! l))" "meta_less ucmp a b"
  shows "\<not> meta_less ucmp b a"
proof -
  have mem: "levels v ! l \<in> set (levels v)" using l v by (simp add: version_ordered_def)
  have "meta_ok ok x" if x: "x \<in> set (metas m (levels v ! l))" for x
  proof -
    obtain f where "f \<in> set (levels v ! l)" "x = bare (m f)" using x by auto
    moreover from this(1) have "meta_ok ok (m f)" using mem v unfolding version_ordered_def by blast
    ultimately show ?thesis by simp
  qed
  then show ?thesis using ab meta_order(2) [OF order] by blast
qed

lemma ordered_metas_unique:
  assumes order: "key_order ok ucmp" and v: "version_ordered ucmp ok m fresh v" and w: "version_ordered ucmp ok m' fresh' w"
    and l: "l < kNumLevels" "level_metas m v l = level_metas m' w l"
  shows "metas m (levels v ! l) = metas m' (levels w ! l)"
proof (rule sorted_unique)
  have mem: "levels v ! l \<in> set (levels v)" "levels w ! l \<in> set (levels w)"
    using l(1) v w by (simp_all add: version_ordered_def)
  then show "sorted_wrt (meta_less ucmp) (metas m (levels v ! l))" "sorted_wrt (meta_less ucmp) (metas m' (levels w ! l))"
    using v w unfolding version_ordered_def by blast+
  show "level_metas m v l = level_metas m' w l" by (rule l(2))
  show "\<not> meta_less ucmp b a"
    if "a \<in> set (metas m (levels v ! l))" "b \<in> set (metas m (levels v ! l))" "meta_less ucmp a b" for a b
    using ordered_asym [OF order v l(1) that] .
qed


definition example_vset :: VersionSet where
  "example_vset = \<lparr>vs_next_file_number = 8, manifest_file_number = 5, vs_last_sequence = 100, vs_log_number = 6, vs_prev_log_number = 0,
     vs_current = example_version, vs_files = example_meta, vs_fresh = 10, compact_pointer = replicate kNumLevels []\<rparr>"

definition empty_vset :: VersionSet where
  "empty_vset = \<lparr>vs_next_file_number = 2, manifest_file_number = 0, vs_last_sequence = 0, vs_log_number = 0, vs_prev_log_number = 0,
     vs_current = new_Version, vs_files = (\<lambda>_. new_FileMetaData 0 0 [] []), vs_fresh = 0, compact_pointer = replicate kNumLevels []\<rparr>"

lemma example_vset_ok: "vset_ok bytewise_Compare (\<lambda>_. True) example_vset"
  unfolding vset_ok_def using example_ordered
  by (simp add: example_vset_def example_version_def kNumLevels_def example_meta_def new_FileMetaData_def length_new_InternalKey list_all_iff)


end
