(* ===== verification/LDB_Cache.thy ===== *)
theory LDB_Cache
  imports LDB_Bloom
begin

text \<open>
  The cache with least-recently-used eviction (\<open>cache.cc\<close>). Handles are numbers that name objects of a heap; \<open>None\<close>
  is the use of a handle that was freed, or an assertion that fails. Entries and references are counted in natural
  numbers: there are fewer than $2^{31}$ of them.
\<close>

section \<open>Handles and the hash table\<close>

record 'v LRUHandle =
  h_key :: slice
  h_value :: 'v
  h_charge :: u64
  in_cache :: bool
  h_refs :: nat
  h_hash :: u32

type_synonym 'v handles = "nat \<Rightarrow> 'v LRUHandle option"

text \<open>A bucket is the list of its handles.\<close>

record HandleTable =
  elems :: nat
  buckets :: "nat list list"

text \<open>The handles of a bucket before the pointer that is found, and those from there on.\<close>

fun FindPointer_list :: "'v handles \<Rightarrow> slice \<Rightarrow> u32 \<Rightarrow> nat list \<Rightarrow> (nat list \<times> nat list) option" where
  "FindPointer_list hp key hash [] = Some ([], [])"
| "FindPointer_list hp key hash (e # es) = do {
     h \<leftarrow> hp e;
     if h_hash h \<noteq> hash \<or> \<not> slice_eq key (h_key h) then do {
       (before, rest) \<leftarrow> FindPointer_list hp key hash es;
       Some (e # before, rest) }
     else Some ([], e # es) }"

definition bucket_index :: "nat \<Rightarrow> u32 \<Rightarrow> nat" where
  "bucket_index len hash = unat (hash AND of_nat (len - 1))"

definition FindPointer :: "'v handles \<Rightarrow> HandleTable \<Rightarrow> slice \<Rightarrow> u32 \<Rightarrow> (nat list \<times> nat list) option" where
  "FindPointer hp t key hash = FindPointer_list hp key hash (buckets t ! bucket_index (length (buckets t)) hash)"

definition table_Lookup :: "'v handles \<Rightarrow> HandleTable \<Rightarrow> slice \<Rightarrow> u32 \<Rightarrow> nat option option" where
  "table_Lookup hp t key hash = do {
     (_, rest) \<leftarrow> FindPointer hp t key hash;
     Some (case rest of [] \<Rightarrow> None | e # _ \<Rightarrow> Some e) }"

function new_length_loop :: "nat \<Rightarrow> nat \<Rightarrow> nat" where
  "new_length_loop n m = (if 0 < n \<and> n < m then new_length_loop (n * 2) m else n)"
  by pat_completeness auto
termination by (relation "measure (\<lambda>(n, m). m - n)") auto

declare new_length_loop.simps [simp del]

fun resize_bucket :: "'v handles \<Rightarrow> nat list \<Rightarrow> nat list list \<Rightarrow> nat list list option" where
  "resize_bucket hp [] new_list = Some new_list"
| "resize_bucket hp (e # es) new_list = do {
     h \<leftarrow> hp e;
     let i = bucket_index (length new_list) (h_hash h) in resize_bucket hp es (new_list[i := e # new_list ! i]) }"

fun resize_buckets :: "'v handles \<Rightarrow> nat list list \<Rightarrow> nat list list \<Rightarrow> nat list list option" where
  "resize_buckets hp [] new_list = Some new_list"
| "resize_buckets hp (b # bs) new_list = do { new_list \<leftarrow> resize_bucket hp b new_list; resize_buckets hp bs new_list }"

definition Resize :: "'v handles \<Rightarrow> HandleTable \<Rightarrow> HandleTable option" where
  "Resize hp t = do {
     new_list \<leftarrow> resize_buckets hp (buckets t) (replicate (new_length_loop 4 (elems t)) []);
     if elems t = length (concat (buckets t)) then Some (t\<lparr>buckets := new_list\<rparr>) else None }"

definition new_HandleTable :: HandleTable where
  "new_HandleTable = \<lparr>elems = 0, buckets = replicate (new_length_loop 4 0) []\<rparr>"

text \<open>The handle that is replaced, and the table.\<close>

definition table_Insert :: "'v handles \<Rightarrow> HandleTable \<Rightarrow> nat \<Rightarrow> (nat option \<times> HandleTable) option" where
  "table_Insert hp t e = do {
     h \<leftarrow> hp e;
     let i = bucket_index (length (buckets t)) (h_hash h) in do {
     (before, rest) \<leftarrow> FindPointer hp t (h_key h) (h_hash h);
     let t = t\<lparr>buckets := (buckets t)[i := before @ e # tl rest]\<rparr> in
     case rest of
       old # _ \<Rightarrow> Some (Some old, t)
     | [] \<Rightarrow>
         let t = t\<lparr>elems := elems t + 1\<rparr> in
         if elems t > length (buckets t) then do { t \<leftarrow> Resize hp t; Some (None, t) } else Some (None, t) } }"

definition table_Remove :: "'v handles \<Rightarrow> HandleTable \<Rightarrow> slice \<Rightarrow> u32 \<Rightarrow> (nat option \<times> HandleTable) option" where
  "table_Remove hp t key hash = do {
     (before, rest) \<leftarrow> FindPointer hp t key hash;
     case rest of
       e # rest \<Rightarrow>
         Some (Some e, t\<lparr>buckets := (buckets t)[bucket_index (length (buckets t)) hash := before @ rest], elems := elems t - 1\<rparr>)
     | [] \<Rightarrow> Some (None, t) }"

section \<open>A shard\<close>

text \<open>
  The lists \<open>lru\<close> and \<open>in_use\<close> have the oldest entry first. \<open>deleted\<close> are the keys and values that were given to
  the function \<open>deleter\<close>.
\<close>

record 'v LRUCache =
  capacity :: u64
  usage :: u64
  lru :: "nat list"
  in_use :: "nat list"
  ht :: HandleTable
  handles :: "'v handles"
  fresh_handle :: nat
  deleted :: "(slice \<times> 'v) list"

definition new_LRUCache :: "u64 \<Rightarrow> 'v LRUCache" where
  "new_LRUCache cap = \<lparr>capacity = cap, usage = 0, lru = [], in_use = [], ht = new_HandleTable,
     handles = (\<lambda>_. None), fresh_handle = 0, deleted = []\<rparr>"

definition LRU_Remove :: "nat \<Rightarrow> 'v LRUCache \<Rightarrow> 'v LRUCache" where
  "LRU_Remove e c = c\<lparr>lru := remove1 e (lru c), in_use := remove1 e (in_use c)\<rparr>"

definition Ref :: "nat \<Rightarrow> 'v LRUCache \<Rightarrow> 'v LRUCache option" where
  "Ref e c = do {
     h \<leftarrow> handles c e;
     let c = (if h_refs h = 1 \<and> in_cache h then (let c = LRU_Remove e c in c\<lparr>in_use := in_use c @ [e]\<rparr>) else c)
     in Some (c\<lparr>handles := (handles c)(e \<mapsto> h\<lparr>h_refs := h_refs h + 1\<rparr>)\<rparr>) }"

definition Unref :: "nat \<Rightarrow> 'v LRUCache \<Rightarrow> 'v LRUCache option" where
  "Unref e c = do {
     h \<leftarrow> handles c e;
     if \<not> h_refs h > 0 then None
     else
       let h = h\<lparr>h_refs := h_refs h - 1\<rparr>; c = c\<lparr>handles := (handles c)(e \<mapsto> h)\<rparr> in
       if h_refs h = 0 then
         if in_cache h then None
         else Some (c\<lparr>handles := (handles c)(e := None), deleted := deleted c @ [(h_key h, h_value h)]\<rparr>)
       else if in_cache h \<and> h_refs h = 1 then (let c = LRU_Remove e c in Some (c\<lparr>lru := lru c @ [e]\<rparr>))
       else Some c }"

definition shard_Lookup :: "slice \<Rightarrow> u32 \<Rightarrow> 'v LRUCache \<Rightarrow> (nat option \<times> 'v LRUCache) option" where
  "shard_Lookup key hash c = do {
     e \<leftarrow> table_Lookup (handles c) (ht c) key hash;
     case e of
       Some e \<Rightarrow> do { c \<leftarrow> Ref e c; Some (Some e, c) }
     | None \<Rightarrow> Some (None, c) }"

definition shard_Release :: "nat \<Rightarrow> 'v LRUCache \<Rightarrow> 'v LRUCache option" where
  "shard_Release e c = Unref e c"

definition FinishErase :: "nat option \<Rightarrow> 'v LRUCache \<Rightarrow> (bool \<times> 'v LRUCache) option" where
  "FinishErase e c =
     (case e of
        None \<Rightarrow> Some (False, c)
      | Some e \<Rightarrow> do {
          h \<leftarrow> handles c e;
          if \<not> in_cache h then None
          else do {
            let c = LRU_Remove e c;
                c = c\<lparr>handles := (handles c)(e \<mapsto> h\<lparr>in_cache := False\<rparr>), usage := usage c - h_charge h\<rparr> in do {
            c \<leftarrow> Unref e c;
            Some (True, c) } } })"

text \<open>Removing the oldest entry, as \<open>Insert\<close> and \<open>Prune\<close> do.\<close>

definition remove_oldest :: "'v LRUCache \<Rightarrow> 'v LRUCache option" where
  "remove_oldest c = do {
     h \<leftarrow> handles c (hd (lru c));
     if h_refs h \<noteq> 1 then None
     else do {
       (e, t) \<leftarrow> table_Remove (handles c) (ht c) (h_key h) (h_hash h);
       (erased, c) \<leftarrow> FinishErase e (c\<lparr>ht := t\<rparr>);
       if erased then Some c else None } }"

partial_function (option) evict_loop :: "'v LRUCache \<Rightarrow> 'v LRUCache option" where
  "evict_loop c =
     (if usage c > capacity c \<and> lru c \<noteq> [] then do { c \<leftarrow> remove_oldest c; evict_loop c } else Some c)"

definition shard_Insert :: "slice \<Rightarrow> u32 \<Rightarrow> 'v \<Rightarrow> u64 \<Rightarrow> 'v LRUCache \<Rightarrow> (nat \<times> 'v LRUCache) option" where
  "shard_Insert key hash val charge c =
     (let e = fresh_handle c;
          h = \<lparr>h_key = key, h_value = val, h_charge = charge, in_cache = False, h_refs = 1, h_hash = hash\<rparr>;
          c = c\<lparr>handles := (handles c)(e \<mapsto> h), fresh_handle := e + 1\<rparr>
      in do {
        c \<leftarrow> (if capacity c > 0 then
                let c = c\<lparr>handles := (handles c)(e \<mapsto> h\<lparr>h_refs := 2, in_cache := True\<rparr>), in_use := in_use c @ [e],
                           usage := usage c + charge\<rparr> in do {
                (old, t) \<leftarrow> table_Insert (handles c) (ht c) e;
                (_, c) \<leftarrow> FinishErase old (c\<lparr>ht := t\<rparr>);
                Some c }
              else Some c);
        c \<leftarrow> evict_loop c;
        Some (e, c) })"

definition shard_Erase :: "slice \<Rightarrow> u32 \<Rightarrow> 'v LRUCache \<Rightarrow> 'v LRUCache option" where
  "shard_Erase key hash c = do {
     (e, t) \<leftarrow> table_Remove (handles c) (ht c) key hash;
     (_, c) \<leftarrow> FinishErase e (c\<lparr>ht := t\<rparr>);
     Some c }"

partial_function (option) shard_Prune :: "'v LRUCache \<Rightarrow> 'v LRUCache option" where
  "shard_Prune c = (if lru c \<noteq> [] then do { c \<leftarrow> remove_oldest c; shard_Prune c } else Some c)"

declare evict_loop.simps [code] shard_Prune.simps [code]

text \<open>The destructor, when no client holds a handle.\<close>

fun delete_entries :: "nat list \<Rightarrow> 'v LRUCache \<Rightarrow> 'v LRUCache option" where
  "delete_entries [] c = Some c"
| "delete_entries (e # es) c = do {
     h \<leftarrow> handles c e;
     if \<not> in_cache h then None
     else if h_refs h \<noteq> 1 then None
     else do {
       c \<leftarrow> Unref e (c\<lparr>handles := (handles c)(e \<mapsto> h\<lparr>in_cache := False\<rparr>)\<rparr>);
       delete_entries es c } }"

definition delete_LRUCache :: "'v LRUCache \<Rightarrow> 'v LRUCache option" where
  "delete_LRUCache c = (if in_use c \<noteq> [] then None else delete_entries (lru c) c)"

section \<open>The cache of all shards\<close>

definition kNumShardBits :: nat where "kNumShardBits = 4"

definition kNumShards :: nat where "kNumShards = push_bit kNumShardBits 1"

definition HashSlice :: "slice \<Rightarrow> u32" where
  "HashSlice s = Hash s 0"

definition Shard :: "u32 \<Rightarrow> nat" where
  "Shard hash = unat (drop_bit (32 - kNumShardBits) hash)"

record 'v ShardedLRUCache =
  shard :: "'v LRUCache list"
  last_id :: u64

definition NewLRUCache :: "u64 \<Rightarrow> 'v ShardedLRUCache" where
  "NewLRUCache cap =
     \<lparr>shard = replicate kNumShards (new_LRUCache ((cap + (of_nat kNumShards - 1)) div of_nat kNumShards)), last_id = 0\<rparr>"

text \<open>A handle is the number of its shard and its number there.\<close>

definition cache_Insert :: "slice \<Rightarrow> 'v \<Rightarrow> u64 \<Rightarrow> 'v ShardedLRUCache \<Rightarrow> ((nat \<times> nat) \<times> 'v ShardedLRUCache) option" where
  "cache_Insert key val charge c =
     (let hash = HashSlice key; s = Shard hash in do {
      (e, sh) \<leftarrow> shard_Insert key hash val charge (shard c ! s);
      Some ((s, e), c\<lparr>shard := (shard c)[s := sh]\<rparr>) })"

definition cache_Lookup :: "slice \<Rightarrow> 'v ShardedLRUCache \<Rightarrow> ((nat \<times> nat) option \<times> 'v ShardedLRUCache) option" where
  "cache_Lookup key c =
     (let hash = HashSlice key; s = Shard hash in do {
      (e, sh) \<leftarrow> shard_Lookup key hash (shard c ! s);
      Some (map_option (Pair s) e, c\<lparr>shard := (shard c)[s := sh]\<rparr>) })"

definition cache_Release :: "nat \<times> nat \<Rightarrow> 'v ShardedLRUCache \<Rightarrow> 'v ShardedLRUCache option" where
  "cache_Release handle c = do {
     h \<leftarrow> handles (shard c ! fst handle) (snd handle);
     let s = Shard (h_hash h) in do {
     sh \<leftarrow> shard_Release (snd handle) (shard c ! s);
     Some (c\<lparr>shard := (shard c)[s := sh]\<rparr>) } }"

definition cache_Value :: "nat \<times> nat \<Rightarrow> 'v ShardedLRUCache \<Rightarrow> 'v option" where
  "cache_Value handle c = map_option h_value (handles (shard c ! fst handle) (snd handle))"

definition cache_Erase :: "slice \<Rightarrow> 'v ShardedLRUCache \<Rightarrow> 'v ShardedLRUCache option" where
  "cache_Erase key c =
     (let hash = HashSlice key; s = Shard hash in do {
      sh \<leftarrow> shard_Erase key hash (shard c ! s);
      Some (c\<lparr>shard := (shard c)[s := sh]\<rparr>) })"

definition cache_NewId :: "'v ShardedLRUCache \<Rightarrow> u64 \<times> 'v ShardedLRUCache" where
  "cache_NewId c = (last_id c + 1, c\<lparr>last_id := last_id c + 1\<rparr>)"

fun prune_shards :: "'v LRUCache list \<Rightarrow> 'v LRUCache list option" where
  "prune_shards [] = Some []"
| "prune_shards (s # ss) = do { s \<leftarrow> shard_Prune s; ss \<leftarrow> prune_shards ss; Some (s # ss) }"

definition cache_Prune :: "'v ShardedLRUCache \<Rightarrow> 'v ShardedLRUCache option" where
  "cache_Prune c = do { ss \<leftarrow> prune_shards (shard c); Some (c\<lparr>shard := ss\<rparr>) }"

definition cache_TotalCharge :: "'v ShardedLRUCache \<Rightarrow> u64" where
  "cache_TotalCharge c = fold (\<lambda>s total. total + usage s) (shard c) 0"

text \<open>The destructor of the cache runs that of each shard.\<close>

fun delete_shards :: "'v LRUCache list \<Rightarrow> 'v LRUCache list option" where
  "delete_shards [] = Some []"
| "delete_shards (s # ss) = do { s \<leftarrow> delete_LRUCache s; ss \<leftarrow> delete_shards ss; Some (s # ss) }"

definition delete_ShardedLRUCache :: "'v ShardedLRUCache \<Rightarrow> 'v ShardedLRUCache option" where
  "delete_ShardedLRUCache c = do { ss \<leftarrow> delete_shards (shard c); Some (c\<lparr>shard := ss\<rparr>) }"

end
