(* ===== verification/LDB_Cache_Correct.thy ===== *)
theory LDB_Cache_Correct
  imports LDB_Cache "HOL-Library.Multiset"
begin

text \<open>
  The cache never uses a freed handle, finds what was inserted last, keeps to its capacity, and gives every value to
  its deleter once.
\<close>

section \<open>The hash table\<close>

text \<open>The buckets have the handles \<open>S\<close>, each once and in the bucket of its hash; two of them never have the same key.\<close>

definition buckets_ok :: "'v handles \<Rightarrow> nat list list \<Rightarrow> nat set \<Rightarrow> bool" where
  "buckets_ok hp bs S \<longleftrightarrow> finite S \<and> mset (concat bs) = mset_set S \<and>
     (\<forall>i < length bs. \<forall>e \<in> set (bs ! i). \<exists>h. hp e = Some h \<and> bucket_index (length bs) (h_hash h) = i)"

definition table_ok :: "'v handles \<Rightarrow> HandleTable \<Rightarrow> nat set \<Rightarrow> bool" where
  "table_ok hp t S \<longleftrightarrow> buckets t \<noteq> [] \<and> elems t = card S \<and> buckets_ok hp (buckets t) S \<and>
     inj_on (\<lambda>e. map_option (\<lambda>h. (h_key h, h_hash h)) (hp e)) S"

lemma buckets_set: "buckets_ok hp bs S \<Longrightarrow> set (concat bs) = S"
  unfolding buckets_ok_def by (metis finite_set_mset_mset_set set_mset_mset)

lemma buckets_at: "buckets_ok hp bs S \<Longrightarrow> i < length bs \<Longrightarrow> e \<in> set (bs ! i) \<Longrightarrow>
    \<exists>h. hp e = Some h \<and> bucket_index (length bs) (h_hash h) = i"
  by (simp add: buckets_ok_def)

definition matching :: "'v handles \<Rightarrow> nat set \<Rightarrow> slice \<Rightarrow> u32 \<Rightarrow> nat set" where
  "matching hp S key hash = {e \<in> S. \<exists>h. hp e = Some h \<and> h_key h = key \<and> h_hash h = hash}"

lemma bucket_index_less: "0 < len \<Longrightarrow> bucket_index len hash < len"
proof -
  assume "0 < len"
  have "hash AND of_nat (len - 1) \<le> of_nat (len - 1)" by (rule word_and_le1)
  then have "unat (hash AND of_nat (len - 1)) \<le> unat (of_nat (len - 1) :: u32)" by (simp only: word_le_nat_alt)
  also have "\<dots> \<le> len - 1" by (simp add: unat_of_nat)
  finally show ?thesis using \<open>0 < len\<close> by (simp add: bucket_index_def)
qed

lemma FindPointer_list_splits:
  assumes "\<forall>e \<in> set es. hp e \<noteq> None"
  shows "\<exists>before rest. FindPointer_list hp key hash es = Some (before, rest) \<and> es = before @ rest \<and>
    (\<forall>e \<in> set before. e \<notin> matching hp UNIV key hash) \<and> (case rest of [] \<Rightarrow> True | e # _ \<Rightarrow> e \<in> matching hp UNIV key hash)"
  using assms
proof (induction es)
  case (Cons e es)
  obtain h where h: "hp e = Some h" using Cons.prems by auto
  obtain before rest where IH: "FindPointer_list hp key hash es = Some (before, rest)" "es = before @ rest"
    "\<forall>e \<in> set before. e \<notin> matching hp UNIV key hash" "case rest of [] \<Rightarrow> True | e # _ \<Rightarrow> e \<in> matching hp UNIV key hash"
    using Cons by auto
  show ?case
  proof (cases "h_hash h \<noteq> hash \<or> \<not> slice_eq key (h_key h)")
    case True
    then show ?thesis using IH h by (intro exI [of _ "e # before"] exI [of _ rest]) (auto simp: matching_def slice_eq_iff)
  next
    case False
    then show ?thesis using h by (intro exI [of _ "[]"] exI [of _ "e # es"]) (auto simp: matching_def slice_eq_iff)
  qed
qed simp

text \<open>What is found, and that it lies in the bucket.\<close>

lemma FindPointer_ok:
  fixes hash
  assumes t: "table_ok hp t S"
  defines "i \<equiv> bucket_index (length (buckets t)) hash"
  shows "\<exists>before rest. FindPointer hp t key hash = Some (before, rest) \<and> i < length (buckets t) \<and> buckets t ! i = before @ rest \<and>
    (case rest of [] \<Rightarrow> matching hp S key hash = {} | e # _ \<Rightarrow> matching hp S key hash = {e})"
proof -
  have i: "i < length (buckets t)" using t by (simp add: i_def bucket_index_less table_ok_def)
  have bs: "buckets_ok hp (buckets t) S" using t by (simp add: table_ok_def)
  note set_bs = buckets_set [OF bs]
  have bucket: "\<forall>e \<in> set (buckets t ! i). hp e \<noteq> None" using buckets_at [OF bs i] by auto
  obtain before rest where f: "FindPointer_list hp key hash (buckets t ! i) = Some (before, rest)" "buckets t ! i = before @ rest"
    "\<forall>e \<in> set before. e \<notin> matching hp UNIV key hash" "case rest of [] \<Rightarrow> True | e # _ \<Rightarrow> e \<in> matching hp UNIV key hash"
    using FindPointer_list_splits [OF bucket] by blast
  have S: "set (buckets t ! i) \<subseteq> S" using set_bs i nth_mem by fastforce
  have inb: "e \<in> set (buckets t ! i)" if e: "e \<in> matching hp S key hash" for e
  proof -
    have "e \<in> set (concat (buckets t))" using e set_bs by (simp add: matching_def)
    then obtain b where "b \<in> set (buckets t)" "e \<in> set b" by auto
    then obtain j where j: "j < length (buckets t)" "e \<in> set (buckets t ! j)" by (auto simp: in_set_conv_nth)
    then obtain h where "hp e = Some h" "bucket_index (length (buckets t)) (h_hash h) = j" using buckets_at [OF bs] by blast
    then have "j = i" using e by (simp add: matching_def i_def)
    then show ?thesis using j(2) by simp
  qed
  have uniq: "e = e'" if "e \<in> matching hp S key hash" "e' \<in> matching hp S key hash" for e e'
    using t that by (auto simp: matching_def table_ok_def inj_on_def)
  have sub: "matching hp S key hash \<subseteq> set (buckets t ! i) \<inter> matching hp UNIV key hash" using inb by (auto simp: matching_def)
  have "case rest of [] \<Rightarrow> matching hp S key hash = {} | e # _ \<Rightarrow> matching hp S key hash = {e}"
  proof (cases rest)
    case Nil
    then show ?thesis using sub f(2,3) by auto
  next
    case (Cons e r)
    then have "e \<in> matching hp S key hash" using f(2,4) S by (auto simp: matching_def)
    then show ?thesis using uniq Cons by auto
  qed
  then show ?thesis using f(1,2) i by (auto simp: FindPointer_def i_def)
qed

lemma table_Lookup_ok:
  assumes "table_ok hp t S"
  shows "\<exists>r. table_Lookup hp t key hash = Some r \<and> matching hp S key hash = set_option r"
proof -
  obtain before rest where f: "FindPointer hp t key hash = Some (before, rest)"
    "case rest of [] \<Rightarrow> matching hp S key hash = {} | e # _ \<Rightarrow> matching hp S key hash = {e}"
    using FindPointer_ok [OF assms, where hash = hash and key = key] by blast
  then show ?thesis by (cases rest) (simp_all add: table_Lookup_def)
qed

lemma concat_update:
  assumes "i < length bs"
  shows "mset (concat (bs[i := b])) + mset (bs ! i) = mset (concat bs) + mset b"
proof -
  have bs: "bs = take i bs @ bs ! i # drop (Suc i) bs" using assms by (rule id_take_nth_drop)
  have up: "bs[i := b] = take i bs @ b # drop (Suc i) bs" using assms by (simp add: upd_conv_take_nth_drop)
  have "mset (concat bs) = mset (concat (take i bs)) + mset (bs ! i) + mset (concat (drop (Suc i) bs))"
    using arg_cong [OF bs, of "\<lambda>x. mset (concat x)"] by simp
  then show ?thesis by (simp add: up)
qed

lemma buckets_insert:
  assumes "buckets_ok hp bs S" "hp e = Some h" "e \<notin> S" "mset b = add_mset e (mset (bs ! i))"
    and "i = bucket_index (length bs) (h_hash h)" "i < length bs"
  shows "buckets_ok hp (bs[i := b]) (insert e S)"
proof -
  have "mset (concat (bs[i := b])) = add_mset e (mset (concat bs))" using concat_update [OF assms(6), of b] assms(4) by simp
  moreover have "set b = insert e (set (bs ! i))" using arg_cong [OF assms(4), of set_mset] by simp
  ultimately show ?thesis using assms(1-3,5,6) by (auto simp: buckets_ok_def nth_list_update)
qed

lemma buckets_remove:
  assumes "buckets_ok hp bs S" "mset (bs ! i) = add_mset e (mset b)" "i < length bs"
  shows "buckets_ok hp (bs[i := b]) (S - {e})"
proof -
  have m: "mset (concat bs) = add_mset e (mset (concat (bs[i := b])))" using concat_update [OF assms(3), of b] assms(2) by simp
  have fin: "finite S" and S: "mset (concat bs) = mset_set S" using assms(1) by (simp_all add: buckets_ok_def)
  have "e \<in> set_mset (mset (concat bs))" unfolding m by simp
  then have e: "e \<in> S" unfolding S using fin by simp
  have "add_mset e (mset (concat (bs[i := b]))) = add_mset e (mset_set (S - {e}))"
    unfolding m [symmetric] S by (rule mset_set.remove [OF fin e])
  then have 1: "mset (concat (bs[i := b])) = mset_set (S - {e})" by simp
  have "set (bs ! i) = insert e (set b)" using arg_cong [OF assms(2), of set_mset] by simp
  then have "\<forall>j < length bs. set (bs[i := b] ! j) \<subseteq> set (bs ! j)"
    using assms(3) by (simp add: nth_list_update) blast
  then have 2: "\<forall>j < length (bs[i := b]). \<forall>e \<in> set (bs[i := b] ! j). \<exists>h. hp e = Some h \<and> bucket_index (length (bs[i := b])) (h_hash h) = j"
    using assms(1) by (simp add: buckets_ok_def) blast
  show ?thesis using fin 1 2 by (simp add: buckets_ok_def)
qed

lemma buckets_distinct:
  assumes "buckets_ok hp bs S"
  shows "distinct (concat bs)" and "length (concat bs) = card S"
proof -
  have "size (mset (concat bs)) = size (mset_set S)" using assms unfolding buckets_ok_def by (simp only:)
  then show len: "length (concat bs) = card S" by simp
  show "distinct (concat bs)" by (rule card_distinct) (simp only: buckets_set [OF assms] len)
qed

lemma resize_bucket_ok:
  assumes "buckets_ok hp new_list A" "new_list \<noteq> []" "\<forall>e \<in> set b. hp e \<noteq> None" "distinct b" "set b \<inter> A = {}"
  shows "\<exists>l. resize_bucket hp b new_list = Some l \<and> length l = length new_list \<and> buckets_ok hp l (A \<union> set b)"
  using assms
proof (induction b arbitrary: new_list A)
  case (Cons e b)
  obtain h where h: "hp e = Some h" using Cons.prems(3) by auto
  let ?i = "bucket_index (length new_list) (h_hash h)"
  let ?l = "new_list[?i := e # new_list ! ?i]"
  have i: "?i < length new_list" using Cons.prems(2) by (simp add: bucket_index_less)
  have "buckets_ok hp ?l (insert e A)"
    by (rule buckets_insert [OF Cons.prems(1) h _ _ refl i]) (use Cons.prems(5) in auto)
  then obtain l where "resize_bucket hp b ?l = Some l" "length l = length ?l" "buckets_ok hp l (insert e A \<union> set b)"
    using Cons.IH [of ?l "insert e A"] Cons.prems(2-5) by auto
  then show ?case by (simp add: h)
qed simp

lemma resize_buckets_ok:
  assumes "buckets_ok hp new_list A" "new_list \<noteq> []" "\<forall>e \<in> set (concat bs). hp e \<noteq> None" "distinct (concat bs)"
    and "set (concat bs) \<inter> A = {}"
  shows "\<exists>l. resize_buckets hp bs new_list = Some l \<and> length l = length new_list \<and> buckets_ok hp l (A \<union> set (concat bs))"
  using assms
proof (induction bs arbitrary: new_list A)
  case (Cons b bs)
  obtain l where l: "resize_bucket hp b new_list = Some l" "length l = length new_list" "buckets_ok hp l (A \<union> set b)"
    using resize_bucket_ok [OF Cons.prems(1,2), of b] Cons.prems(3-5) by auto
  have "l \<noteq> []" "set (concat bs) \<inter> (A \<union> set b) = {}" using l(2) Cons.prems(2,4,5) by auto
  then obtain l' where "resize_buckets hp bs l = Some l'" "length l' = length l" "buckets_ok hp l' (A \<union> set b \<union> set (concat bs))"
    using Cons.IH [OF l(3)] Cons.prems(3,4) by auto
  then show ?case using l by (auto simp: Un_assoc)
qed simp

lemma new_length_loop_pos: "0 < n \<Longrightarrow> 0 < new_length_loop n m"
  by (induction n m rule: new_length_loop.induct) (subst new_length_loop.simps, simp)

lemma buckets_empty: "buckets_ok hp (replicate n []) {}"
  by (simp add: buckets_ok_def)

lemma Resize_ok:
  assumes "table_ok hp t S"
  shows "\<exists>t'. Resize hp t = Some t' \<and> table_ok hp t' S"
proof -
  have bs: "buckets_ok hp (buckets t) S" using assms by (simp add: table_ok_def)
  let ?new = "replicate (new_length_loop 4 (elems t)) [] :: nat list list"
  have ne: "?new \<noteq> []" using new_length_loop_pos [of 4 "elems t"] by simp
  have live: "\<forall>e \<in> set (concat (buckets t)). hp e \<noteq> None"
  proof
    fix e
    assume "e \<in> set (concat (buckets t))"
    then obtain i where "i < length (buckets t)" "e \<in> set (buckets t ! i)" by (auto simp: in_set_conv_nth [of _ "buckets t"])
    then show "hp e \<noteq> None" using buckets_at [OF bs] by fastforce
  qed
  obtain l where "resize_buckets hp (buckets t) ?new = Some l" "length l = length ?new" "buckets_ok hp l ({} \<union> set (concat (buckets t)))"
    using resize_buckets_ok [OF buckets_empty ne live buckets_distinct(1) [OF bs]] by auto
  then show ?thesis using ne assms buckets_set [OF bs] buckets_distinct(2) [OF bs]
    by (intro exI [of _ "t\<lparr>buckets := l\<rparr>"]) (auto simp: Resize_def table_ok_def)
qed

lemma new_HandleTable_ok: "table_ok hp new_HandleTable {}"
  using new_length_loop_pos [of 4 0] by (simp add: table_ok_def new_HandleTable_def buckets_empty)

lemma table_Remove_ok:
  assumes t: "table_ok hp t S"
  shows "\<exists>r t'. table_Remove hp t key hash = Some (r, t') \<and> matching hp S key hash = set_option r \<and>
    table_ok hp t' (S - set_option r)"
proof -
  let ?i = "bucket_index (length (buckets t)) hash"
  obtain before rest where f: "FindPointer hp t key hash = Some (before, rest)" "?i < length (buckets t)"
    "buckets t ! ?i = before @ rest" "case rest of [] \<Rightarrow> matching hp S key hash = {} | e # _ \<Rightarrow> matching hp S key hash = {e}"
    using FindPointer_ok [OF t, where key = key and hash = hash] by blast
  show ?thesis
  proof (cases rest)
    case Nil
    then show ?thesis using f t by (simp add: table_Remove_def)
  next
    case (Cons e r)
    have bs: "buckets_ok hp (buckets t) S" using t by (simp add: table_ok_def)
    have "buckets_ok hp ((buckets t)[?i := before @ r]) (S - {e})"
      by (rule buckets_remove [OF bs _ f(2)]) (simp add: f(3) Cons)
    moreover have "e \<in> S" "finite S" using f(4) Cons bs by (auto simp: matching_def buckets_ok_def)
    ultimately show ?thesis using f Cons t by (auto simp: table_Remove_def table_ok_def inj_on_diff)
  qed
qed

lemma table_Insert_ok:
  assumes t: "table_ok hp t S" and h: "hp e = Some h" and e: "e \<notin> S"
  shows "\<exists>r t'. table_Insert hp t e = Some (r, t') \<and> matching hp S (h_key h) (h_hash h) = set_option r \<and>
    table_ok hp t' (insert e (S - set_option r))"
proof -
  let ?i = "bucket_index (length (buckets t)) (h_hash h)"
  obtain before rest where f: "FindPointer hp t (h_key h) (h_hash h) = Some (before, rest)" "?i < length (buckets t)"
    "buckets t ! ?i = before @ rest"
    "case rest of [] \<Rightarrow> matching hp S (h_key h) (h_hash h) = {} | e # _ \<Rightarrow> matching hp S (h_key h) (h_hash h) = {e}"
    using FindPointer_ok [OF t, where key = "h_key h" and hash = "h_hash h"] by blast
  have bs: "buckets_ok hp (buckets t) S" using t by (simp add: table_ok_def)
  let ?r = "case rest of [] \<Rightarrow> None | d # _ \<Rightarrow> Some d"
  have m: "matching hp S (h_key h) (h_hash h) = set_option ?r" using f(4) by (cases rest) auto
  let ?k = "\<lambda>e. map_option (\<lambda>h. (h_key h, h_hash h)) (hp e)"
  have "inj_on ?k (S - set_option ?r)" using t by (simp add: table_ok_def inj_on_diff)
  moreover have "?k e \<noteq> ?k d" if d: "d \<in> S - set_option ?r" for d
  proof
    assume "?k e = ?k d"
    then have "d \<in> matching hp S (h_key h) (h_hash h)" using d h by (cases "hp d") (auto simp: matching_def)
    then show False using d unfolding m by blast
  qed
  ultimately have inj: "inj_on ?k (insert e (S - set_option ?r))" unfolding inj_on_insert by blast
  show ?thesis
  proof (cases rest)
    case Nil
    let ?t = "t\<lparr>buckets := (buckets t)[?i := before @ [e]], elems := elems t + 1\<rparr>"
    have "buckets_ok hp (buckets ?t) (insert e S)"
      using buckets_insert [OF bs h e _ refl f(2), of "before @ [e]"] f(3) Nil by simp
    then have "table_ok hp ?t (insert e S)" using t inj Nil e bs by (auto simp: table_ok_def buckets_ok_def)
    moreover obtain t' where r: "Resize hp ?t = Some t'" "table_ok hp t' (insert e S)"
      using Resize_ok calculation by blast
    ultimately show ?thesis
      by (cases "length (buckets t) < Suc (elems t)") (use f(1) m h Nil r in \<open>simp_all add: table_Insert_def Let_def\<close>)
  next
    case (Cons old r)
    let ?bs = "(buckets t)[?i := before @ r]"
    have "buckets_ok hp ?bs (S - {old})"
      by (rule buckets_remove [OF bs _ f(2)]) (simp add: f(3) Cons)
    moreover have "old \<in> S" "finite S" using f(4) Cons bs by (auto simp: matching_def buckets_ok_def)
    moreover have "(buckets t)[?i := before @ e # r] = ?bs[?i := before @ e # r]" by simp
    ultimately have "buckets_ok hp ((buckets t)[?i := before @ e # r]) (insert e (S - {old}))"
      using buckets_insert [of hp ?bs "S - {old}" e h "before @ e # r" ?i] h e f(2) by simp
    moreover have "card (insert e (S - {old})) = card S"
      using card_Suc_Diff1 [OF \<open>finite S\<close> \<open>old \<in> S\<close>] e \<open>finite S\<close> by simp
    ultimately show ?thesis using f(1) m h Cons t inj by (simp add: table_Insert_def table_ok_def Let_def)
  qed
qed

section \<open>A shard\<close>

definition cached :: "'v LRUCache \<Rightarrow> nat set" where
  "cached c = {e. \<exists>h. handles c e = Some h \<and> in_cache h}"

fun fixed :: "'v LRUHandle \<Rightarrow> slice \<times> 'v \<times> u64 \<times> u32" where
  "fixed h = (h_key h, h_value h, h_charge h, h_hash h)"

definition total_charge :: "'v handles \<Rightarrow> nat set \<Rightarrow> u64" where
  "total_charge hp S = (\<Sum>e \<in> S. h_charge (the (hp e)))"

text \<open>\<open>held e\<close> is the number of references of clients to \<open>e\<close>.\<close>

definition heap_inv :: "(nat \<Rightarrow> nat) \<Rightarrow> 'v LRUCache \<Rightarrow> bool" where
  "heap_inv held c \<longleftrightarrow>
     (\<forall>e h. handles c e = Some h \<longrightarrow> h_refs h > 0 \<and> h_refs h = held e + (if in_cache h then 1 else 0)) \<and>
     (\<forall>e. handles c e = None \<longrightarrow> held e = 0) \<and> (\<forall>e \<ge> fresh_handle c. handles c e = None)"

definition lists_inv :: "(nat \<Rightarrow> nat) \<Rightarrow> 'v LRUCache \<Rightarrow> bool" where
  "lists_inv held c \<longleftrightarrow> distinct (lru c) \<and> set (lru c) = {e \<in> cached c. held e = 0} \<and>
     distinct (in_use c) \<and> set (in_use c) = {e \<in> cached c. held e > 0}"

definition shard_inv :: "(nat \<Rightarrow> nat) \<Rightarrow> nat set \<Rightarrow> 'v LRUCache \<Rightarrow> bool" where
  "shard_inv held T c \<longleftrightarrow> heap_inv held c \<and> lists_inv held c \<and> table_ok (handles c) (ht c) T \<and> T \<subseteq> cached c \<and>
     usage c = total_charge (handles c) (cached c) \<and> (capacity c = 0 \<longrightarrow> cached c = {})"

text \<open>The keys and values that are alive or were given to the deleter.\<close>

definition account :: "'v LRUCache \<Rightarrow> (slice \<times> 'v) multiset" where
  "account c = mset (deleted c) +
     image_mset (\<lambda>e. let h = the (handles c e) in (h_key h, h_value h)) (mset_set (dom (handles c)))"

text \<open>From \<open>c\<close> to \<open>c'\<close>, entries only leave.\<close>

definition shrinks :: "'v LRUCache \<Rightarrow> 'v LRUCache \<Rightarrow> bool" where
  "shrinks c c' \<longleftrightarrow> fresh_handle c' = fresh_handle c \<and> capacity c' = capacity c \<and> account c' = account c \<and>
     (\<forall>e h'. handles c' e = Some h' \<longrightarrow> (\<exists>h. handles c e = Some h \<and> fixed h' = fixed h \<and> (in_cache h' \<longrightarrow> in_cache h)))"

lemma shrinks_refl: "shrinks c c"
  by (simp add: shrinks_def)

lemma shrinks_trans: "shrinks a b \<Longrightarrow> shrinks b c \<Longrightarrow> shrinks a c"
  unfolding shrinks_def by metis

lemma table_ok_cong:
  assumes t: "table_ok hp t S" and eq: "\<And>e. e \<in> S \<Longrightarrow> map_option fixed (hp' e) = map_option fixed (hp e)"
  shows "table_ok hp' t S"
proof -
  have eq': "\<exists>h'. hp' e = Some h' \<and> h_key h' = h_key h \<and> h_hash h' = h_hash h" if e: "e \<in> S" "hp e = Some h" for e h
    using eq [OF e(1)] e(2) by auto
  have bs: "buckets_ok hp (buckets t) S" using t by (simp add: table_ok_def)
  have mem: "e \<in> S" if b: "i < length (buckets t)" "e \<in> set (buckets t ! i)" for i e
    using buckets_set [OF bs] b nth_mem by fastforce
  have live: "\<exists>h. hp e = Some h" if e: "e \<in> S" for e
  proof -
    have "e \<in> set (concat (buckets t))" using buckets_set [OF bs] e by simp
    then obtain i where "i < length (buckets t)" "e \<in> set (buckets t ! i)" by (auto simp: in_set_conv_nth [of _ "buckets t"])
    then show ?thesis using buckets_at [OF bs] by blast
  qed
  have key: "map_option (\<lambda>h. (h_key h, h_hash h)) (hp' e) = map_option (\<lambda>h. (h_key h, h_hash h)) (hp e)" if e: "e \<in> S" for e
    using live [OF e] eq' [OF e] by auto
  have "inj_on (\<lambda>e. map_option (\<lambda>h. (h_key h, h_hash h)) (hp' e)) S = inj_on (\<lambda>e. map_option (\<lambda>h. (h_key h, h_hash h)) (hp e)) S"
    by (rule inj_on_cong) (rule key)
  moreover have "buckets_ok hp' (buckets t) S"
    using bs eq' mem unfolding buckets_ok_def by metis
  ultimately show ?thesis using t by (simp add: table_ok_def)
qed

lemma heap_fresh: "heap_inv held c \<Longrightarrow> fresh_handle c \<le> e \<Longrightarrow> handles c e = None"
  unfolding heap_inv_def by blast

lemma finite_heap: "heap_inv held c \<Longrightarrow> finite (dom (handles c))"
  by (rule finite_subset [OF _ finite_lessThan [of "fresh_handle c"]]) (use heap_fresh in \<open>fastforce simp: not_le [symmetric]\<close>)

lemma finite_cached: "heap_inv held c \<Longrightarrow> finite (cached c)"
  by (rule finite_subset [OF _ finite_heap]) (auto simp: cached_def)

lemma heap_refs: "heap_inv held c \<Longrightarrow> handles c e = Some h \<Longrightarrow> h_refs h = held e + (if in_cache h then 1 else 0) \<and> h_refs h > 0"
  unfolding heap_inv_def by blast

lemma account_free:
  assumes fin: "finite (dom (handles c))" and h: "handles c e = Some h"
    and c': "handles c' = (handles c)(e := None)" "deleted c' = deleted c @ [(h_key h, h_value h)]"
  shows "account c' = account c"
proof -
  have dom: "dom (handles c') = dom (handles c) - {e}" by (auto simp: c')
  have "mset_set (dom (handles c)) = add_mset e (mset_set (dom (handles c) - {e}))"
    using h by (intro mset_set.remove fin) auto
  moreover have "image_mset (\<lambda>e. let h = the (handles c' e) in (h_key h, h_value h)) (mset_set (dom (handles c) - {e})) =
      image_mset (\<lambda>e. let h = the (handles c e) in (h_key h, h_value h)) (mset_set (dom (handles c) - {e}))"
    by (rule image_mset_cong) (use fin in \<open>auto simp: c'\<close>)
  ultimately show ?thesis unfolding account_def dom by (simp add: h c'(2))
qed

text \<open>A handle whose count changes.\<close>

lemma count_update:
  assumes h: "handles c e = Some h" and up: "handles c' = (handles c)(e \<mapsto> h\<lparr>h_refs := n\<rparr>)"
  shows "cached c' = cached c" and "total_charge (handles c') S = total_charge (handles c) S"
    and "table_ok (handles c) t T \<Longrightarrow> table_ok (handles c') t T"
    and "deleted c' = deleted c \<Longrightarrow> account c' = account c"
proof -
  show "cached c' = cached c" using h by (auto simp: cached_def up)
  show "total_charge (handles c') S = total_charge (handles c) S"
    unfolding total_charge_def up by (rule sum.cong) (auto simp: h)
  show "table_ok (handles c') t T" if "table_ok (handles c) t T"
    by (rule table_ok_cong [OF that]) (simp add: up h)
  have "dom (handles c') = dom (handles c)" using h by (auto simp: up)
  then show "account c' = account c" if "deleted c' = deleted c"
    unfolding account_def that by (simp only:) (rule arg_cong [of _ _ "(+) _"], rule image_mset_cong, auto simp: up h Let_def)
qed

lemma lists_cached: "lists_inv held c \<Longrightarrow> set (lru c) \<subseteq> cached c \<and> set (in_use c) \<subseteq> cached c"
  by (auto simp: lists_inv_def)

lemma LRU_Remove_set: "lists_inv held c \<Longrightarrow> set (remove1 e (lru c)) = set (lru c) - {e} \<and> set (remove1 e (in_use c)) = set (in_use c) - {e}"
  by (simp add: lists_inv_def)

lemma Ref_ok:
  assumes inv: "shard_inv held T c" and h: "handles c e = Some h"
  shows "\<exists>c'. Ref e c = Some c' \<and> shard_inv (held(e := held e + 1)) T c' \<and> cached c' = cached c \<and> deleted c' = deleted c \<and>
    fresh_handle c' = fresh_handle c \<and> capacity c' = capacity c \<and> handles c' = (handles c)(e \<mapsto> h\<lparr>h_refs := h_refs h + 1\<rparr>)"
proof -
  obtain c' where c': "Ref e c = Some c'" by (simp add: Ref_def h Let_def)
  have up: "handles c' = (handles c)(e \<mapsto> h\<lparr>h_refs := h_refs h + 1\<rparr>)"
    and same: "deleted c' = deleted c" "fresh_handle c' = fresh_handle c" "capacity c' = capacity c" "usage c' = usage c" "ht c' = ht c"
    using c' by (auto simp: Ref_def h Let_def LRU_Remove_def)
  note count = count_update [OF h up]
  have hp: "heap_inv held c" and li: "lists_inv held c" using inv by (simp_all add: shard_inv_def)
  have refs: "h_refs h = held e + (if in_cache h then 1 else 0)" using heap_refs [OF hp h] by blast
  have e: "e \<in> cached c \<longleftrightarrow> in_cache h" using h by (simp add: cached_def)
  have "heap_inv (held(e := held e + 1)) c'"
    unfolding heap_inv_def using h refs heap_fresh [OF hp] hp [unfolded heap_inv_def]
    by (auto simp: up same dest: heap_refs [OF hp] split: if_splits)
  moreover have "lists_inv (held(e := held e + 1)) c'"
  proof (cases "h_refs h = 1 \<and> in_cache h")
    case True
    then have "lru c' = remove1 e (lru c)" "in_use c' = remove1 e (in_use c) @ [e]" using c' by (auto simp: Ref_def h Let_def LRU_Remove_def)
    then show ?thesis using li True e refs by (auto simp: lists_inv_def count(1))
  next
    case False
    then have "lru c' = lru c" "in_use c' = in_use c" using c' by (auto simp: Ref_def h Let_def)
    then show ?thesis using li False e refs by (auto simp: lists_inv_def count(1))
  qed
  ultimately show ?thesis using inv c' up same count by (simp add: shard_inv_def)
qed

lemma Unref_ok:
  assumes inv: "shard_inv held T c" and h: "handles c e = Some h" and e: "held e > 0"
  shows "\<exists>c'. Unref e c = Some c' \<and> shard_inv (held(e := held e - 1)) T c' \<and> cached c' = cached c \<and> shrinks c c' \<and>
    handles c' = (if h_refs h = 1 then (handles c)(e := None) else (handles c)(e \<mapsto> h\<lparr>h_refs := h_refs h - 1\<rparr>))"
proof -
  have hp: "heap_inv held c" and li: "lists_inv held c" using inv by (simp_all add: shard_inv_def)
  have refs: "h_refs h = held e + (if in_cache h then 1 else 0)" "h_refs h > 0" using heap_refs [OF hp h] by auto
  have mem: "e \<in> cached c \<longleftrightarrow> in_cache h" using h by (simp add: cached_def)
  show ?thesis
  proof (cases "h_refs h = 1")
    case True
    let ?c = "c\<lparr>handles := (handles c)(e := None), deleted := deleted c @ [(h_key h, h_value h)]\<rparr>"
    have nc: "\<not> in_cache h" "held e = 1" using True refs e by (auto split: if_splits)
    have u: "Unref e c = Some ?c" using True nc by (simp add: Unref_def h Let_def)
    have cd: "cached ?c = cached c" using nc h by (auto simp: cached_def)
    have "heap_inv (held(e := held e - 1)) ?c"
      unfolding heap_inv_def using nc heap_fresh [OF hp] hp [unfolded heap_inv_def] by (auto dest: heap_refs [OF hp] split: if_splits)
    moreover have "lists_inv (held(e := held e - 1)) ?c" using li nc mem unfolding lists_inv_def cd by auto
    moreover have "total_charge (handles ?c) (cached c) = total_charge (handles c) (cached c)"
      unfolding total_charge_def by (rule sum.cong) (use mem nc in auto)
    moreover have "table_ok (handles ?c) (ht c) T"
      by (rule table_ok_cong [of "handles c"]) (use inv mem nc in \<open>auto simp: shard_inv_def\<close>)
    moreover have "account ?c = account c" by (rule account_free [OF finite_heap [OF hp] h]) simp_all
    ultimately show ?thesis using inv u cd True by (auto simp: shard_inv_def shrinks_def)
  next
    case False
    obtain c' where c': "Unref e c = Some c'"
      using False refs(2) by (cases "in_cache h \<and> h_refs h - 1 = 1") (auto simp: Unref_def h Let_def)
    have up: "handles c' = (handles c)(e \<mapsto> h\<lparr>h_refs := h_refs h - 1\<rparr>)"
      and same: "deleted c' = deleted c" "fresh_handle c' = fresh_handle c" "capacity c' = capacity c" "usage c' = usage c" "ht c' = ht c"
      using c' refs(2) False by (auto simp: Unref_def h Let_def LRU_Remove_def split: if_splits)
    note count = count_update [OF h up]
    have "heap_inv (held(e := held e - 1)) c'"
      unfolding heap_inv_def using h refs e False heap_fresh [OF hp] hp [unfolded heap_inv_def]
      by (auto simp: up same dest: heap_refs [OF hp] split: if_splits)
    moreover have "lists_inv (held(e := held e - 1)) c'"
    proof (cases "h_refs h = 2 \<and> in_cache h")
      case True
      then have "lru c' = remove1 e (lru c) @ [e]" "in_use c' = remove1 e (in_use c)"
        using c' by (auto simp: Unref_def h Let_def LRU_Remove_def)
      then show ?thesis using li True mem refs by (auto simp: lists_inv_def count(1))
    next
      case ne: False
      then have "lru c' = lru c" "in_use c' = in_use c" using c' False refs(2) by (auto simp: Unref_def h Let_def split: if_splits)
      then show ?thesis using li ne mem refs e by (auto simp: lists_inv_def count(1))
    qed
    moreover have "shrinks c c'" using count(4) h by (auto simp: shrinks_def same up)
    ultimately show ?thesis using inv c' up same count False by (simp add: shard_inv_def)
  qed
qed

text \<open>A handle that is no longer cached: the reference of the cache becomes one that is given back.\<close>

lemma FinishErase_ok:
  assumes inv: "shard_inv held (cached c - {e}) c" and e: "e \<in> cached c"
  shows "\<exists>c'. FinishErase (Some e) c = Some (True, c') \<and> shard_inv held (cached c') c' \<and> cached c' = cached c - {e} \<and> shrinks c c' \<and>
    lru c' = remove1 e (lru c)"
proof -
  obtain h where h: "handles c e = Some h" "in_cache h" using e by (auto simp: cached_def)
  let ?h = "h\<lparr>in_cache := False\<rparr>" and ?held = "held(e := held e + 1)"
  let ?c = "(LRU_Remove e c)\<lparr>handles := (handles c)(e \<mapsto> ?h), usage := usage c - h_charge h\<rparr>"
  have hp: "heap_inv held c" and li: "lists_inv held c" using inv by (simp_all add: shard_inv_def)
  have refs: "h_refs h = held e + 1" using heap_refs [OF hp h(1)] h(2) by simp
  have cd: "cached ?c = cached c - {e}" by (auto simp: cached_def LRU_Remove_def)
  have "heap_inv ?held ?c"
    unfolding heap_inv_def using h refs heap_fresh [OF hp] hp [unfolded heap_inv_def]
    by (auto simp: LRU_Remove_def dest: heap_refs [OF hp] split: if_splits)
  moreover have "lists_inv ?held ?c" using li unfolding lists_inv_def cd by (auto simp: LRU_Remove_def)
  moreover have "table_ok (handles ?c) (ht ?c) (cached c - {e})"
  proof (rule table_ok_cong [of "handles c"])
    show "table_ok (handles c) (ht ?c) (cached c - {e})" using inv by (simp add: shard_inv_def LRU_Remove_def)
  qed simp
  moreover have "usage ?c = total_charge (handles ?c) (cached ?c)"
  proof -
    have "total_charge (handles ?c) (cached c - {e}) = total_charge (handles c) (cached c - {e})"
      unfolding total_charge_def by (rule sum.cong) auto
    moreover have "total_charge (handles c) (cached c) = h_charge h + total_charge (handles c) (cached c - {e})"
      unfolding total_charge_def by (subst sum.remove [OF finite_cached [OF hp] e]) (simp add: h(1))
    ultimately show ?thesis using inv unfolding cd by (simp add: shard_inv_def)
  qed
  ultimately have inv1: "shard_inv ?held (cached c - {e}) ?c"
    using inv unfolding shard_inv_def cd by (auto simp: LRU_Remove_def)
  have "account ?c = account c"
  proof -
    have "dom (handles ?c) = dom (handles c)" using h by auto
    then show ?thesis unfolding account_def
      by (simp only:) (rule arg_cong2 [of _ _ _ _ "(+)"], simp add: LRU_Remove_def, rule image_mset_cong, auto simp: h Let_def)
  qed
  then have s1: "shrinks c ?c" using h by (auto simp: shrinks_def LRU_Remove_def)
  have he: "handles ?c e = Some ?h" by simp
  obtain c' where c': "Unref e ?c = Some c'" "shard_inv held (cached c - {e}) c'" "cached c' = cached ?c" "shrinks ?c c'"
    using Unref_ok [OF inv1 he] by auto
  have "lru c' = lru ?c" using c'(1) by (auto simp: Unref_def Let_def split: if_splits)
  then have "lru c' = remove1 e (lru c)" by (simp add: LRU_Remove_def)
  moreover have "handles (LRU_Remove e c) = handles c" "usage (LRU_Remove e c) = usage c" by (simp_all add: LRU_Remove_def)
  then have "FinishErase (Some e) c = Some (True, c')" using c'(1) h by (simp add: FinishErase_def Let_def)
  ultimately show ?thesis using c'(2-) cd shrinks_trans [OF s1] by simp
qed

lemma FinishErase_option_ok:
  assumes inv: "shard_inv held (cached c - set_option e) c" and e: "set_option e \<subseteq> cached c"
  shows "\<exists>c'. FinishErase e c = Some (e \<noteq> None, c') \<and> shard_inv held (cached c') c' \<and> cached c' = cached c - set_option e \<and> shrinks c c'"
proof (cases e)
  case None
  then show ?thesis using inv shrinks_refl by (simp add: FinishErase_def)
next
  case (Some e')
  then show ?thesis using FinishErase_ok [of held c e'] inv e by auto
qed

lemma matching_cached: "e \<in> cached c \<Longrightarrow> handles c e = Some h \<Longrightarrow> e \<in> matching (handles c) (cached c) (h_key h) (h_hash h)"
  by (simp add: matching_def)

lemma with_table_simps [simp]:
  "cached (c\<lparr>ht := t\<rparr>) = cached c" "heap_inv held (c\<lparr>ht := t\<rparr>) = heap_inv held c" "lists_inv held (c\<lparr>ht := t\<rparr>) = lists_inv held c"
  by (simp_all add: cached_def heap_inv_def lists_inv_def)

lemma with_table:
  assumes "shard_inv held T c" "table_ok (handles c) t T'" "T' \<subseteq> cached c"
  shows "shard_inv held T' (c\<lparr>ht := t\<rparr>)"
  using assms by (simp add: shard_inv_def)

lemma shrinks_table [simp]: "shrinks (c\<lparr>ht := t\<rparr>) c' = shrinks c c'"
  by (simp add: shrinks_def account_def)

lemma remove_oldest_ok:
  assumes inv: "shard_inv held (cached c) c" and lru: "lru c = e # es"
  shows "\<exists>c'. remove_oldest c = Some c' \<and> shard_inv held (cached c') c' \<and> cached c' = cached c - {e} \<and> e \<in> cached c \<and>
    shrinks c c' \<and> lru c' = es"
proof -
  have hp: "heap_inv held c" and li: "lists_inv held c" and t: "table_ok (handles c) (ht c) (cached c)"
    using inv by (simp_all add: shard_inv_def)
  have e: "e \<in> cached c" "held e = 0" using li lru by (auto simp: lists_inv_def)
  then obtain h where h: "handles c e = Some h" "in_cache h" by (auto simp: cached_def)
  have refs: "h_refs h = 1" using heap_refs [OF hp h(1)] h(2) e(2) by simp
  obtain r t' where r: "table_Remove (handles c) (ht c) (h_key h) (h_hash h) = Some (r, t')"
    "matching (handles c) (cached c) (h_key h) (h_hash h) = set_option r" "table_ok (handles c) t' (cached c - set_option r)"
    using table_Remove_ok [OF t] by blast
  then have re: "r = Some e" using matching_cached [OF e(1) h(1)] by (cases r) auto
  have "shard_inv held (cached c - {e}) (c\<lparr>ht := t'\<rparr>)" by (rule with_table [OF inv]) (use r re in auto)
  then obtain c' where "FinishErase (Some e) (c\<lparr>ht := t'\<rparr>) = Some (True, c')" "shard_inv held (cached c') c'" "cached c' = cached c - {e}"
    "shrinks c c'" "lru c' = remove1 e (lru c)"
    using FinishErase_ok [of held "c\<lparr>ht := t'\<rparr>" e] e(1) by auto
  then show ?thesis using lru h refs r(1) re e(1) by (simp add: remove_oldest_def)
qed

text \<open>The oldest entries are evicted until the charge is within the capacity or no entry is left that no client uses.\<close>

lemma evict_loop_ok:
  assumes "shard_inv held (cached c) c"
  shows "\<exists>c'. evict_loop c = Some c' \<and> shard_inv held (cached c') c' \<and> cached c' \<subseteq> cached c \<and> shrinks c c' \<and>
    (usage c' \<le> capacity c' \<or> lru c' = []) \<and> (\<exists>n. lru c' = drop n (lru c))"
  using assms
proof (induction "lru c" arbitrary: c)
  case Nil
  then show ?case using shrinks_refl by (subst evict_loop.simps) (simp add: Nil.hyps [symmetric])
next
  case (Cons e es)
  show ?case
  proof (cases "usage c > capacity c")
    case True
    obtain c1 where c1: "remove_oldest c = Some c1" "shard_inv held (cached c1) c1" "cached c1 = cached c - {e}" "shrinks c c1" "lru c1 = es"
      using remove_oldest_ok [OF Cons.prems Cons.hyps(2) [symmetric]] by blast
    obtain c' where "evict_loop c1 = Some c'" "shard_inv held (cached c') c'" "cached c' \<subseteq> cached c1" "shrinks c1 c'"
      "usage c' \<le> capacity c' \<or> lru c' = []" "\<exists>n. lru c' = drop n (lru c1)"
      using Cons.hyps(1) [OF c1(5) [symmetric] c1(2)] by blast
    moreover have "evict_loop c = evict_loop c1"
      by (subst evict_loop.simps) (simp add: c1(1) True Cons.hyps(2) [symmetric])
    moreover have "\<exists>n. drop k es = drop n (lru c)" for k by (intro exI [of _ "Suc k"]) (simp add: Cons.hyps(2) [symmetric])
    ultimately show ?thesis using c1 shrinks_trans [OF c1(4)] by auto
  next
    case False
    then show ?thesis using shrinks_refl Cons.prems by (subst evict_loop.simps) (auto intro: exI [of _ 0])
  qed
qed

lemma shard_Prune_ok:
  assumes "shard_inv held (cached c) c"
  shows "\<exists>c'. shard_Prune c = Some c' \<and> shard_inv held (cached c') c' \<and> cached c' = cached c - set (lru c) \<and> shrinks c c' \<and> lru c' = []"
  using assms
proof (induction "lru c" arbitrary: c)
  case Nil
  then show ?case using shrinks_refl by (subst shard_Prune.simps) (simp add: Nil.hyps [symmetric])
next
  case (Cons e es)
  obtain c1 where c1: "remove_oldest c = Some c1" "shard_inv held (cached c1) c1" "cached c1 = cached c - {e}" "shrinks c c1" "lru c1 = es"
    using remove_oldest_ok [OF Cons.prems Cons.hyps(2) [symmetric]] by blast
  obtain c' where "shard_Prune c1 = Some c'" "shard_inv held (cached c') c'" "cached c' = cached c1 - set (lru c1)" "shrinks c1 c'"
    "lru c' = []"
    using Cons.hyps(1) [OF c1(5) [symmetric] c1(2)] by blast
  moreover have "shard_Prune c = shard_Prune c1"
    by (subst shard_Prune.simps) (simp add: c1(1) Cons.hyps(2) [symmetric])
  ultimately show ?case using c1 shrinks_trans [OF c1(4)] by (auto simp: Cons.hyps(2) [symmetric])
qed

text \<open>\<open>contents c key hash\<close> is the value that the shard has under \<open>key\<close>.\<close>

definition has_entry :: "'v LRUCache \<Rightarrow> slice \<Rightarrow> u32 \<Rightarrow> 'v \<Rightarrow> bool" where
  "has_entry c key hash v \<longleftrightarrow> (\<exists>e h. handles c e = Some h \<and> in_cache h \<and> h_key h = key \<and> h_hash h = hash \<and> h_value h = v)"

lemma shrinks_entry: "shrinks c c' \<Longrightarrow> has_entry c' key hash v \<Longrightarrow> has_entry c key hash v"
  unfolding shrinks_def has_entry_def by fastforce

lemma entry_unique:
  assumes inv: "shard_inv held (cached c) c" and "has_entry c key hash v" "has_entry c key hash w"
  shows "v = w"
proof -
  have inj: "inj_on (\<lambda>e. map_option (\<lambda>h. (h_key h, h_hash h)) (handles c e)) (cached c)"
    using inv by (simp add: shard_inv_def table_ok_def)
  obtain d h where d: "handles c d = Some h" "in_cache h" "h_key h = key" "h_hash h = hash" "h_value h = v"
    using assms(2) by (auto simp: has_entry_def)
  obtain e g where e: "handles c e = Some g" "in_cache g" "h_key g = key" "h_hash g = hash" "h_value g = w"
    using assms(3) by (auto simp: has_entry_def)
  have "d = e" by (rule inj_onD [OF inj]) (use d e in \<open>auto simp: cached_def\<close>)
  then show ?thesis using d e by simp
qed

lemma shard_Lookup_ok:
  assumes inv: "shard_inv held (cached c) c"
  shows "(\<exists>e h c'. shard_Lookup key hash c = Some (Some e, c') \<and> handles c e = Some h \<and> in_cache h \<and> h_key h = key \<and> h_hash h = hash \<and>
      handles c' = (handles c)(e \<mapsto> h\<lparr>h_refs := h_refs h + 1\<rparr>) \<and>
      shard_inv (held(e := held e + 1)) (cached c') c' \<and> shrinks c c' \<and> shrinks c' c) \<or>
    (shard_Lookup key hash c = Some (None, c) \<and> (\<forall>v. \<not> has_entry c key hash v))"
proof -
  have t: "table_ok (handles c) (ht c) (cached c)" using inv by (simp add: shard_inv_def)
  obtain r where r: "table_Lookup (handles c) (ht c) key hash = Some r" "matching (handles c) (cached c) key hash = set_option r"
    using table_Lookup_ok [OF t] by blast
  show ?thesis
  proof (cases r)
    case None
    then have "\<not> has_entry c key hash v" for v using r(2) by (auto simp: has_entry_def matching_def cached_def)
    then show ?thesis using r(1) None by (simp add: shard_Lookup_def)
  next
    case (Some e)
    then have "e \<in> matching (handles c) (cached c) key hash" using r(2) by simp
    then obtain h where h: "handles c e = Some h" "in_cache h" "h_key h = key" "h_hash h = hash"
      by (auto simp: matching_def cached_def)
    obtain c' where c': "Ref e c = Some c'" "shard_inv (held(e := held e + 1)) (cached c) c'" "cached c' = cached c" "deleted c' = deleted c"
      "fresh_handle c' = fresh_handle c" "capacity c' = capacity c" "handles c' = (handles c)(e \<mapsto> h\<lparr>h_refs := h_refs h + 1\<rparr>)"
      using Ref_ok [OF inv h(1)] by blast
    have "account c' = account c" using count_update(4) [OF h(1) c'(7)] c'(4) by simp
    then have "shrinks c c'" "shrinks c' c" using c' h(1) by (auto simp: shrinks_def)
    then show ?thesis using r(1) Some c' h by (auto simp: shard_Lookup_def)
  qed
qed

lemma shard_Erase_ok:
  assumes inv: "shard_inv held (cached c) c"
  shows "\<exists>c'. shard_Erase key hash c = Some c' \<and> shard_inv held (cached c') c' \<and> shrinks c c' \<and> (\<forall>v. \<not> has_entry c' key hash v)"
proof -
  have t: "table_ok (handles c) (ht c) (cached c)" using inv by (simp add: shard_inv_def)
  obtain r t' where r: "table_Remove (handles c) (ht c) key hash = Some (r, t')"
    "matching (handles c) (cached c) key hash = set_option r" "table_ok (handles c) t' (cached c - set_option r)"
    using table_Remove_ok [OF t] by blast
  have sub: "set_option r \<subseteq> cached c" unfolding r(2) [symmetric] by (auto simp: matching_def)
  have "shard_inv held (cached c - set_option r) (c\<lparr>ht := t'\<rparr>)" by (rule with_table [OF inv]) (use r in auto)
  then obtain c' where c': "FinishErase r (c\<lparr>ht := t'\<rparr>) = Some (r \<noteq> None, c')" "shard_inv held (cached c') c'"
    "cached c' = cached c - set_option r" "shrinks c c'"
    using FinishErase_option_ok [of held "c\<lparr>ht := t'\<rparr>" r] sub by auto
  have "\<not> has_entry c' key hash v" for v
  proof
    assume "has_entry c' key hash v"
    then obtain e h' where e: "handles c' e = Some h'" "in_cache h'" "h_key h' = key" "h_hash h' = hash" by (auto simp: has_entry_def)
    then obtain h where "handles c e = Some h" "fixed h' = fixed h" "in_cache h" using c'(4) by (auto simp: shrinks_def)
    then have "e \<in> matching (handles c) (cached c) key hash" using e by (auto simp: matching_def cached_def)
    moreover have "e \<in> cached c'" using e by (auto simp: cached_def)
    ultimately show False unfolding r(2) c'(3) by blast
  qed
  then show ?thesis using c' r(1) by (simp add: shard_Erase_def)
qed

text \<open>The entry of an \<open>Insert\<close>: the client's handle, and the cached entry that makes the older one of its key leave.\<close>

definition new_entry :: "slice \<Rightarrow> u32 \<Rightarrow> 'v \<Rightarrow> u64 \<Rightarrow> 'v LRUHandle" where
  "new_entry key hash val charge =
     \<lparr>h_key = key, h_value = val, h_charge = charge, in_cache = False, h_refs = 1, h_hash = hash\<rparr>"

definition with_handle :: "slice \<Rightarrow> u32 \<Rightarrow> 'v \<Rightarrow> u64 \<Rightarrow> 'v LRUCache \<Rightarrow> 'v LRUCache" where
  "with_handle key hash val charge c =
     c\<lparr>handles := (handles c)(fresh_handle c \<mapsto> new_entry key hash val charge), fresh_handle := fresh_handle c + 1\<rparr>"

definition with_cached :: "slice \<Rightarrow> u32 \<Rightarrow> 'v \<Rightarrow> u64 \<Rightarrow> 'v LRUCache \<Rightarrow> 'v LRUCache" where
  "with_cached key hash val charge c =
     c\<lparr>fresh_handle := fresh_handle c + 1,
       handles := (handles c)(fresh_handle c \<mapsto> (new_entry key hash val charge)\<lparr>h_refs := 2, in_cache := True\<rparr>),
       in_use := in_use c @ [fresh_handle c], usage := usage c + charge\<rparr>"

lemma shard_Insert_eq:
  "shard_Insert key hash val charge c =
     (if capacity c > 0 then do {
        let c1 = with_cached key hash val charge c in do {
        (old, t) \<leftarrow> table_Insert (handles c1) (ht c1) (fresh_handle c);
        (_, c2) \<leftarrow> FinishErase old (c1\<lparr>ht := t\<rparr>);
        c3 \<leftarrow> evict_loop c2;
        Some (fresh_handle c, c3) } }
      else do { c3 \<leftarrow> evict_loop (with_handle key hash val charge c); Some (fresh_handle c, c3) })"
  by (simp add: shard_Insert_def with_cached_def with_handle_def new_entry_def Let_def split_def)

text \<open>Only the new entry is added to the entries and to the account.\<close>

definition adds :: "nat \<Rightarrow> 'v LRUHandle \<Rightarrow> 'v LRUCache \<Rightarrow> 'v LRUCache \<Rightarrow> bool" where
  "adds e new c c' \<longleftrightarrow> fresh_handle c' = fresh_handle c + 1 \<and> capacity c' = capacity c \<and>
     account c' = add_mset (h_key new, h_value new) (account c) \<and>
     (\<forall>d h'. handles c' d = Some h' \<longrightarrow> d = e \<and> fixed h' = fixed new \<or>
        d \<noteq> e \<and> (\<exists>h. handles c d = Some h \<and> fixed h' = fixed h \<and> (in_cache h' \<longrightarrow> in_cache h)))"

lemma adds_shrinks: "adds e new c c1 \<Longrightarrow> shrinks c1 c2 \<Longrightarrow> adds e new c c2"
  unfolding adds_def shrinks_def by metis

lemma account_add:
  assumes hp: "heap_inv held c" and e: "handles c e = None" and up: "handles c' = (handles c)(e \<mapsto> h)" "deleted c' = deleted c"
  shows "account c' = add_mset (h_key h, h_value h) (account c)"
proof -
  have dom: "dom (handles c') = insert e (dom (handles c))" by (simp add: up)
  have "e \<notin> dom (handles c)" using e by auto
  moreover have "image_mset (\<lambda>e. let h = the (handles c' e) in (h_key h, h_value h)) (mset_set (dom (handles c))) =
      image_mset (\<lambda>e. let h = the (handles c e) in (h_key h, h_value h)) (mset_set (dom (handles c)))"
    by (rule image_mset_cong) (use finite_heap [OF hp] e in \<open>auto simp: up\<close>)
  ultimately show ?thesis unfolding account_def dom using finite_heap [OF hp] by (simp add: up)
qed

lemma fresh_None: "shard_inv held T c \<Longrightarrow> handles c (fresh_handle c) = None \<and> held (fresh_handle c) = 0 \<and> fresh_handle c \<notin> cached c"
  using heap_fresh [of held c "fresh_handle c"] by (auto simp: shard_inv_def heap_inv_def cached_def)

lemma with_handle_ok:
  fixes key hash val charge
  assumes inv: "shard_inv held (cached c) c"
  defines "c' \<equiv> with_handle key hash val charge c" and "new \<equiv> new_entry key hash val charge"
  shows "shard_inv (held(fresh_handle c := 1)) (cached c') c'" and "adds (fresh_handle c) new c c'" and "cached c' = cached c"
proof -
  let ?e = "fresh_handle c"
  have hp: "heap_inv held c" and li: "lists_inv held c" using inv by (simp_all add: shard_inv_def)
  note e = fresh_None [OF inv]
  have up: "handles c' = (handles c)(?e \<mapsto> new)" "deleted c' = deleted c" "lru c' = lru c" "in_use c' = in_use c"
    "usage c' = usage c" "capacity c' = capacity c" "ht c' = ht c" "fresh_handle c' = fresh_handle c + 1"
    by (simp_all add: c'_def with_handle_def new_def)
  have new: "\<not> in_cache new" "h_refs new = 1" by (simp_all add: new_def new_entry_def)
  show cd: "cached c' = cached c" using e new by (auto simp: cached_def up)
  have "heap_inv (held(?e := 1)) c'"
    unfolding heap_inv_def using new heap_fresh [OF hp] hp [unfolded heap_inv_def]
    by (auto simp: up dest: heap_refs [OF hp] split: if_splits)
  moreover have "lists_inv (held(?e := 1)) c'" using li e unfolding lists_inv_def cd by (auto simp: up)
  moreover have "table_ok (handles c') (ht c) (cached c)"
    by (rule table_ok_cong [of "handles c"]) (use inv e in \<open>auto simp: shard_inv_def up\<close>)
  moreover have "total_charge (handles c') (cached c) = total_charge (handles c) (cached c)"
    unfolding total_charge_def by (rule sum.cong) (use e in \<open>auto simp: up\<close>)
  ultimately show "shard_inv (held(?e := 1)) (cached c') c'" using inv by (simp add: shard_inv_def up cd)
  show "adds ?e new c c'"
    using account_add [OF hp _ up(1,2)] e new by (auto simp: adds_def up)
qed

lemma with_cached_ok:
  fixes key hash val charge
  assumes inv: "shard_inv held (cached c) c" and cap: "capacity c > 0"
  defines "c' \<equiv> with_cached key hash val charge c" and "new \<equiv> new_entry key hash val charge"
  shows "shard_inv (held(fresh_handle c := 1)) (cached c) c'" and "adds (fresh_handle c) new c c'"
    and "cached c' = insert (fresh_handle c) (cached c)" and "\<exists>h. handles c' (fresh_handle c) = Some h \<and> fixed h = fixed new"
proof -
  let ?e = "fresh_handle c" and ?h = "new\<lparr>h_refs := 2, in_cache := True\<rparr>"
  have hp: "heap_inv held c" and li: "lists_inv held c" using inv by (simp_all add: shard_inv_def)
  note e = fresh_None [OF inv]
  have up: "handles c' = (handles c)(?e \<mapsto> ?h)" "deleted c' = deleted c" "lru c' = lru c" "in_use c' = in_use c @ [?e]"
    "usage c' = usage c + charge" "capacity c' = capacity c" "ht c' = ht c" "fresh_handle c' = fresh_handle c + 1"
    by (simp_all add: c'_def with_cached_def new_def)
  have new: "h_charge new = charge" by (simp add: new_def new_entry_def)
  show cd: "cached c' = insert ?e (cached c)" by (auto simp: cached_def up)
  have "heap_inv (held(?e := 1)) c'"
    unfolding heap_inv_def using heap_fresh [OF hp] hp [unfolded heap_inv_def]
    by (auto simp: up dest: heap_refs [OF hp] split: if_splits)
  moreover have "lists_inv (held(?e := 1)) c'" using li e unfolding lists_inv_def cd by (auto simp: up)
  moreover have "table_ok (handles c') (ht c) (cached c)"
    by (rule table_ok_cong [of "handles c"]) (use inv e in \<open>auto simp: shard_inv_def up\<close>)
  moreover have "total_charge (handles c') (insert ?e (cached c)) = charge + total_charge (handles c) (cached c)"
  proof -
    have "total_charge (handles c') (cached c) = total_charge (handles c) (cached c)"
      unfolding total_charge_def by (rule sum.cong) (use e in \<open>auto simp: up\<close>)
    then show ?thesis unfolding total_charge_def using e finite_cached [OF hp] by (simp add: up new)
  qed
  ultimately show "shard_inv (held(?e := 1)) (cached c) c'" using inv cap by (auto simp: shard_inv_def up cd)
  show "adds ?e new c c'"
    using account_add [OF hp _ up(1,2)] e by (auto simp: adds_def up)
  show "\<exists>h. handles c' ?e = Some h \<and> fixed h = fixed new" by (simp add: up)
qed

lemma shard_Insert_ok:
  assumes inv: "shard_inv held (cached c) c"
  shows "\<exists>c'. shard_Insert key hash val charge c = Some (fresh_handle c, c') \<and>
    shard_inv (held(fresh_handle c := 1)) (cached c') c' \<and> adds (fresh_handle c) (new_entry key hash val charge) c c' \<and>
    (usage c' \<le> capacity c' \<or> lru c' = []) \<and> (\<forall>v. has_entry c' key hash v \<longrightarrow> v = val)"
proof (cases "capacity c > 0")
  case True
  let ?e = "fresh_handle c" and ?c = "with_cached key hash val charge c" and ?new = "new_entry key hash val charge"
  note w = with_cached_ok [OF inv True, where key = key and hash = hash and val = val and charge = charge]
  obtain h where h: "handles ?c ?e = Some h" "fixed h = fixed ?new" using w(4) by blast
  have key: "h_key h = key" "h_hash h = hash" "h_value h = val" using h(2) by (simp_all add: new_entry_def)
  have t: "table_ok (handles ?c) (ht ?c) (cached c)" using w(1) by (simp add: shard_inv_def)
  have e: "?e \<notin> cached c" using fresh_None [OF inv] by blast
  obtain r t' where r: "table_Insert (handles ?c) (ht ?c) ?e = Some (r, t')"
    "matching (handles ?c) (cached c) (h_key h) (h_hash h) = set_option r"
    "table_ok (handles ?c) t' (insert ?e (cached c - set_option r))"
    using table_Insert_ok [OF t h(1) e] by blast
  have sub: "set_option r \<subseteq> cached c" unfolding r(2) [symmetric] by (auto simp: matching_def)
  have diff: "insert ?e (cached c - set_option r) = cached ?c - set_option r" using sub e unfolding w(3) by blast
  have "shard_inv (held(?e := 1)) (cached ?c - set_option r) (?c\<lparr>ht := t'\<rparr>)"
    by (rule with_table [OF w(1)]) (use r(3) diff in auto)
  moreover have "set_option r \<subseteq> cached (?c\<lparr>ht := t'\<rparr>)" using sub w(3) by auto
  ultimately obtain c2 where c2: "FinishErase r (?c\<lparr>ht := t'\<rparr>) = Some (r \<noteq> None, c2)" "shard_inv (held(?e := 1)) (cached c2) c2"
    "cached c2 = cached ?c - set_option r" "shrinks ?c c2"
    using FinishErase_option_ok [of "held(?e := 1)" "?c\<lparr>ht := t'\<rparr>" r] by auto
  obtain c3 where c3: "evict_loop c2 = Some c3" "shard_inv (held(?e := 1)) (cached c3) c3" "cached c3 \<subseteq> cached c2" "shrinks c2 c3"
    "usage c3 \<le> capacity c3 \<or> lru c3 = []"
    using evict_loop_ok [OF c2(2)] by blast
  have s: "shrinks ?c c3" by (rule shrinks_trans [OF c2(4) c3(4)])
  have "v = val" if v: "has_entry c3 key hash v" for v
  proof -
    obtain d g where d: "handles c3 d = Some g" "in_cache g" "h_key g = key" "h_hash g = hash" "h_value g = v"
      using v by (auto simp: has_entry_def)
    obtain g' where g': "handles ?c d = Some g'" "fixed g = fixed g'" "in_cache g'"
      using s d(1,2) unfolding shrinks_def by blast
    have dc: "d \<in> cached ?c - set_option r" using d c3(3) unfolding c2(3) by (auto simp: cached_def)
    show ?thesis
    proof (cases "d = ?e")
      case True
      then show ?thesis using g' h key d by simp
    next
      case False
      then have "d \<in> cached c" using dc w(3) by auto
      then have "d \<in> matching (handles ?c) (cached c) (h_key h) (h_hash h)" using g' d key by (simp add: matching_def)
      then show ?thesis using dc unfolding r(2) by blast
    qed
  qed
  then show ?thesis
    using True r(1) c2(1) c3 adds_shrinks [OF w(2) s] by (simp add: shard_Insert_eq)
next
  case False
  then have cap: "capacity c = 0" by (simp add: word_gt_0)
  let ?e = "fresh_handle c" and ?c = "with_handle key hash val charge c"
  note w = with_handle_ok [OF inv, where key = key and hash = hash and val = val and charge = charge]
  obtain c3 where c3: "evict_loop ?c = Some c3" "shard_inv (held(?e := 1)) (cached c3) c3" "cached c3 \<subseteq> cached ?c" "shrinks ?c c3"
    "usage c3 \<le> capacity c3 \<or> lru c3 = []"
    using evict_loop_ok [OF w(1)] by blast
  have "cached c3 = {}" using c3(3) w(3) inv cap by (simp add: shard_inv_def)
  then have "\<not> has_entry c3 key hash v" for v by (auto simp: has_entry_def cached_def)
  then show ?thesis using False c3 adds_shrinks [OF w(2) c3(4)] by (simp add: shard_Insert_eq)
qed

text \<open>The destructor, when no client holds a handle: every value is given to the deleter.\<close>

lemma delete_entries_ok:
  assumes "finite (dom (handles c))" "distinct es" "\<forall>e \<in> set es. \<exists>h. handles c e = Some h \<and> in_cache h \<and> h_refs h = 1"
  shows "\<exists>c'. delete_entries es c = Some c' \<and> dom (handles c') = dom (handles c) - set es \<and> account c' = account c"
  using assms
proof (induction es arbitrary: c)
  case (Cons e es)
  obtain h where h: "handles c e = Some h" "in_cache h" "h_refs h = 1" using Cons.prems(3) by auto
  let ?c = "c\<lparr>handles := (handles c)(e := None), deleted := deleted c @ [(h_key h, h_value h)]\<rparr>"
  have acc: "account ?c = account c" by (rule account_free [OF Cons.prems(1) h(1)]) simp_all
  have "Unref e (c\<lparr>handles := (handles c)(e \<mapsto> h\<lparr>in_cache := False\<rparr>)\<rparr>) = Some ?c" using h by (simp add: Unref_def Let_def)
  then have "delete_entries (e # es) c = delete_entries es ?c" using h by simp
  moreover have dom: "dom (handles ?c) = dom (handles c) - {e}" by auto
  moreover have "finite (dom (handles ?c))" unfolding dom using Cons.prems(1) by simp
  moreover have "\<forall>d \<in> set es. \<exists>h. handles ?c d = Some h \<and> in_cache h \<and> h_refs h = 1" using Cons.prems(2,3) by auto
  ultimately obtain c' where "delete_entries es ?c = Some c'" "dom (handles c') = dom (handles c) - {e} - set es" "account c' = account ?c"
    using Cons.IH [of ?c] Cons.prems(2) unfolding dom by auto
  then show ?case using \<open>delete_entries (e # es) c = delete_entries es ?c\<close> acc by auto
qed simp

lemma delete_LRUCache_ok:
  assumes inv: "shard_inv (\<lambda>_. 0) (cached c) c"
  shows "\<exists>c'. delete_LRUCache c = Some c' \<and> handles c' = Map.empty \<and> mset (deleted c') = account c"
proof -
  have hp: "heap_inv (\<lambda>_. 0) c" and li: "lists_inv (\<lambda>_. 0) c" using inv by (simp_all add: shard_inv_def)
  have lru: "set (lru c) = cached c" "in_use c = []" "distinct (lru c)" using li by (auto simp: lists_inv_def)
  have in_lru: "in_cache h \<and> h_refs h = 1" if h: "handles c e = Some h" for e h using heap_refs [OF hp h] by (auto split: if_splits)
  then have dom: "dom (handles c) = set (lru c)" unfolding lru(1) by (auto simp: cached_def)
  have "\<forall>e \<in> set (lru c). \<exists>h. handles c e = Some h \<and> in_cache h \<and> h_refs h = 1" unfolding dom [symmetric] using in_lru by blast
  then obtain c' where c': "delete_entries (lru c) c = Some c'" "dom (handles c') = {}" "account c' = account c"
    using delete_entries_ok [OF finite_heap [OF hp] lru(3)] dom by auto
  then show ?thesis using lru(2) by (auto simp: delete_LRUCache_def account_def)
qed

end
