(* ===== verification/LDB_Cache_Client.thy ===== *)
theory LDB_Cache_Client
  imports LDB_Cache_Correct
begin

text \<open>
  The clients of the cache: their calls as a step relation, and what holds in every state they reach.
\<close>

section \<open>The invariant of all shards\<close>

definition shard_at :: "nat \<Rightarrow> (nat \<Rightarrow> nat) \<Rightarrow> 'v LRUCache \<Rightarrow> bool" where
  "shard_at s held sh \<longleftrightarrow> shard_inv held (cached sh) sh \<and>
     (\<forall>e h. handles sh e = Some h \<longrightarrow> h_hash h = HashSlice (h_key h) \<and> Shard (h_hash h) = s)"

definition cache_inv :: "(nat \<times> nat \<Rightarrow> nat) \<Rightarrow> 'v ShardedLRUCache \<Rightarrow> bool" where
  "cache_inv held c \<longleftrightarrow> length (shard c) = kNumShards \<and> (\<forall>s < kNumShards. shard_at s (\<lambda>e. held (s, e)) (shard c ! s)) \<and>
     (\<forall>s e. held (s, e) > 0 \<longrightarrow> s < kNumShards)"

definition entry :: "'v ShardedLRUCache \<Rightarrow> nat \<times> nat \<Rightarrow> 'v LRUHandle option" where
  "entry c h = handles (shard c ! fst h) (snd h)"

definition has_key :: "'v ShardedLRUCache \<Rightarrow> slice \<Rightarrow> 'v \<Rightarrow> bool" where
  "has_key c key v \<longleftrightarrow> has_entry (shard c ! Shard (HashSlice key)) key (HashSlice key) v"

definition cache_account :: "'v ShardedLRUCache \<Rightarrow> (slice \<times> 'v) multiset" where
  "cache_account c = (\<Sum>sh\<leftarrow>shard c. account sh)"

lemma Shard_less: "Shard hash < kNumShards"
proof -
  have "unat hash < 2 ^ 32" using unsigned_less [of hash] by simp
  then show ?thesis by (simp add: Shard_def kNumShards_def kNumShardBits_def unat_drop_bit_div less_mult_imp_div_less)
qed

lemma cache_inv_shard: "cache_inv held c \<Longrightarrow> s < kNumShards \<Longrightarrow> shard_at s (\<lambda>e. held (s, e)) (shard c ! s)"
  by (simp add: cache_inv_def)

text \<open>One shard is replaced.\<close>

lemma cache_inv_update:
  assumes inv: "cache_inv held c" and s: "s < kNumShards" and sh: "shard_at s (\<lambda>e. held' (s, e)) sh"
    and other: "\<And>r e. r \<noteq> s \<Longrightarrow> held' (r, e) = held (r, e)"
  shows "cache_inv held' (c\<lparr>shard := (shard c)[s := sh]\<rparr>)"
proof -
  have "shard_at r (\<lambda>e. held' (r, e)) ((shard c)[s := sh] ! r)" if "r < kNumShards" for r
    using inv sh other that by (cases "r = s") (simp_all add: cache_inv_def)
  moreover have "r < kNumShards" if "held' (r, e) > 0" for r e
    using inv s other [of r e] that by (cases "r = s") (auto simp: cache_inv_def)
  ultimately show ?thesis using inv by (simp add: cache_inv_def)
qed

lemma shard_at_shrinks: "shard_at s held sh \<Longrightarrow> shrinks sh sh' \<Longrightarrow> shard_inv held' (cached sh') sh' \<Longrightarrow> shard_at s held' sh'"
  unfolding shard_at_def shrinks_def by fastforce

lemma shard_at_adds:
  "shard_at s held sh \<Longrightarrow> adds e new sh sh' \<Longrightarrow> h_hash new = HashSlice (h_key new) \<Longrightarrow> Shard (h_hash new) = s \<Longrightarrow>
    shard_inv held' (cached sh') sh' \<Longrightarrow> shard_at s held' sh'"
  unfolding shard_at_def adds_def by fastforce

lemma account_update:
  assumes "s < length (shard c)"
  shows "cache_account (c\<lparr>shard := (shard c)[s := sh]\<rparr>) + account (shard c ! s) = cache_account c + account sh"
  unfolding cache_account_def using assms
proof (induction "shard c" arbitrary: c s)
  case (Cons x xs)
  show ?case
  proof (cases s)
    case 0
    then show ?thesis by (simp add: Cons.hyps(2) [symmetric] ac_simps)
  next
    case (Suc n)
    then show ?thesis using Cons.hyps(1) [of "c\<lparr>shard := xs\<rparr>" n] Cons.prems
      by (simp add: Cons.hyps(2) [symmetric] ac_simps)
  qed
qed simp

text \<open>From \<open>c\<close> to \<open>c'\<close>, entries only leave.\<close>

definition cache_shrinks :: "'v ShardedLRUCache \<Rightarrow> 'v ShardedLRUCache \<Rightarrow> bool" where
  "cache_shrinks c c' \<longleftrightarrow> cache_account c' = cache_account c \<and> map capacity (shard c') = map capacity (shard c) \<and>
     (\<forall>h e'. fst h < kNumShards \<and> entry c' h = Some e' \<longrightarrow> (\<exists>e. entry c h = Some e \<and> fixed e' = fixed e)) \<and>
     (\<forall>key v. has_key c' key v \<longrightarrow> has_key c key v)"

lemma cache_shrinks_update:
  assumes len: "length (shard c) = kNumShards" and s: "s < kNumShards" and sh: "shrinks (shard c ! s) sh"
  shows "cache_shrinks c (c\<lparr>shard := (shard c)[s := sh]\<rparr>)"
proof -
  have "account sh = account (shard c ! s)" using sh by (simp add: shrinks_def)
  then have "cache_account (c\<lparr>shard := (shard c)[s := sh]\<rparr>) = cache_account c" using account_update [of s c sh] s len by simp
  moreover have "\<exists>e. entry c h = Some e \<and> fixed e' = fixed e"
    if h: "entry (c\<lparr>shard := (shard c)[s := sh]\<rparr>) h = Some e'" for h e'
  proof (cases "fst h = s")
    case True
    then show ?thesis using h s len sh unfolding shrinks_def entry_def by auto
  next
    case False
    then show ?thesis using h by (simp add: entry_def)
  qed
  moreover have "has_key c key v" if h: "has_key (c\<lparr>shard := (shard c)[s := sh]\<rparr>) key v" for key v
    using h s len shrinks_entry [OF sh] by (cases "Shard (HashSlice key) = s") (auto simp: has_key_def)
  moreover have "map capacity ((shard c)[s := sh]) = map capacity (shard c)" using s len sh
    by (intro nth_equalityI) (auto simp: nth_list_update shrinks_def)
  ultimately show ?thesis by (auto simp: cache_shrinks_def)
qed

section \<open>The calls\<close>

lemma held_at: "(\<lambda>e'. (held((s, e) := n)) (s, e')) = (\<lambda>e'. held (s, e'))(e := n)"
  by auto

lemma shrinks_same_entry:
  assumes "shrinks c c'" "cached c' = cached c"
  shows "has_entry c' key hash v = has_entry c key hash v"
proof
  assume "has_entry c key hash v"
  then obtain e h where h: "handles c e = Some h" "in_cache h" "h_key h = key" "h_hash h = hash" "h_value h = v"
    by (auto simp: has_entry_def)
  then have "e \<in> cached c'" using assms(2) by (auto simp: cached_def)
  then obtain h' where h': "handles c' e = Some h'" "in_cache h'" by (auto simp: cached_def)
  then obtain g where "handles c e = Some g" "fixed h' = fixed g" using assms(1) unfolding shrinks_def by blast
  then show "has_entry c' key hash v" using h h' by (auto simp: has_entry_def)
qed (rule shrinks_entry [OF assms(1)])

lemma held_entry:
  assumes "cache_inv held c" "held h > 0"
  shows "\<exists>e. entry c h = Some e \<and> Shard (h_hash e) = fst h" and "fst h < kNumShards"
proof -
  obtain s e where h: "h = (s, e)" by (cases h)
  show s: "fst h < kNumShards" using assms by (auto simp: cache_inv_def h)
  have sh: "shard_at s (\<lambda>e. held (s, e)) (shard c ! s)" using cache_inv_shard [OF assms(1)] s by (simp add: h)
  then have "handles (shard c ! s) e \<noteq> None" using assms(2) by (auto simp: shard_at_def shard_inv_def heap_inv_def h)
  then show "\<exists>e. entry c h = Some e \<and> Shard (h_hash e) = fst h" using sh by (auto simp: entry_def h shard_at_def)
qed

lemma cache_Lookup_ok:
  assumes inv: "cache_inv held c"
  shows "(\<exists>h e c'. cache_Lookup key c = Some (Some h, c') \<and> entry c' h = Some e \<and> h_key e = key \<and> has_key c key (h_value e) \<and>
      cache_inv (held(h := held h + 1)) c' \<and> cache_shrinks c c' \<and> cache_shrinks c' c) \<or>
    (cache_Lookup key c = Some (None, c) \<and> (\<forall>v. \<not> has_key c key v))"
proof -
  let ?hash = "HashSlice key"
  let ?s = "Shard ?hash" and ?sh = "shard c ! Shard ?hash"
  have s: "?s < kNumShards" by (rule Shard_less)
  have len: "length (shard c) = kNumShards" using inv by (simp add: cache_inv_def)
  have at: "shard_at ?s (\<lambda>e. held (?s, e)) ?sh" by (rule cache_inv_shard [OF inv s])
  then have sinv: "shard_inv (\<lambda>e. held (?s, e)) (cached ?sh) ?sh" by (simp add: shard_at_def)
  from shard_Lookup_ok [OF sinv, where key = key and hash = ?hash]
  consider (found) e h sh where "shard_Lookup key ?hash ?sh = Some (Some e, sh)" "handles ?sh e = Some h" "in_cache h" "h_key h = key"
      "h_hash h = ?hash" "handles sh = (handles ?sh)(e \<mapsto> h\<lparr>h_refs := h_refs h + 1\<rparr>)"
      "shard_inv ((\<lambda>e. held (?s, e))(e := held (?s, e) + 1)) (cached sh) sh" "shrinks ?sh sh" "shrinks sh ?sh"
    | (none) "shard_Lookup key ?hash ?sh = Some (None, ?sh)" "\<forall>v. \<not> has_entry ?sh key ?hash v" by blast
  then show ?thesis
  proof cases
    case found
    let ?c = "c\<lparr>shard := (shard c)[?s := sh]\<rparr>" and ?held = "held((?s, e) := held (?s, e) + 1)"
    have "cache_Lookup key c = Some (Some (?s, e), ?c)" using found(1) by (simp add: cache_Lookup_def Let_def)
    moreover have "entry ?c (?s, e) = Some (h\<lparr>h_refs := h_refs h + 1\<rparr>)" using s len found(6) by (simp add: entry_def)
    moreover have "has_key c key (h_value h)" using found(2-5) by (auto simp: has_key_def has_entry_def)
    moreover have "cache_inv ?held ?c"
    proof (rule cache_inv_update [OF inv s])
      show "shard_at ?s (\<lambda>e'. ?held (?s, e')) sh" unfolding held_at by (rule shard_at_shrinks [OF at found(8,7)])
    qed simp
    moreover have "cache_shrinks c ?c" by (rule cache_shrinks_update [OF len s found(8)])
    moreover have "cache_shrinks ?c c"
      using cache_shrinks_update [of ?c ?s ?sh] len s found(9) by simp
    ultimately show ?thesis using found(4) by (intro disjI1 exI [of _ "(?s, e)"]) auto
  next
    case none
    then show ?thesis by (simp add: cache_Lookup_def Let_def has_key_def)
  qed
qed

lemma cache_Release_ok:
  assumes inv: "cache_inv held c" and h: "held h > 0"
  shows "\<exists>c'. cache_Release h c = Some c' \<and> cache_inv (held(h := held h - 1)) c' \<and> cache_shrinks c c' \<and>
    (\<forall>key v. has_key c' key v = has_key c key v)"
proof -
  obtain s e where se: "h = (s, e)" by (cases h)
  let ?sh = "shard c ! s"
  obtain hd where hd: "handles ?sh e = Some hd" "Shard (h_hash hd) = s" and s: "s < kNumShards"
    using held_entry [OF inv h] by (auto simp: se entry_def)
  have len: "length (shard c) = kNumShards" using inv by (simp add: cache_inv_def)
  have at: "shard_at s (\<lambda>e. held (s, e)) ?sh" by (rule cache_inv_shard [OF inv s])
  then have sinv: "shard_inv (\<lambda>e. held (s, e)) (cached ?sh) ?sh" by (simp add: shard_at_def)
  obtain sh where sh: "Unref e ?sh = Some sh" "shard_inv ((\<lambda>e. held (s, e))(e := held (s, e) - 1)) (cached ?sh) sh"
    "cached sh = cached ?sh" "shrinks ?sh sh"
    using Unref_ok [OF sinv hd(1)] h by (auto simp: se)
  let ?c = "c\<lparr>shard := (shard c)[s := sh]\<rparr>"
  have "cache_Release h c = Some ?c" using hd sh(1) by (simp add: cache_Release_def se shard_Release_def)
  moreover have "cache_inv (held((s, e) := held (s, e) - 1)) ?c"
  proof (rule cache_inv_update [OF inv s])
    show "shard_at s (\<lambda>e'. (held((s, e) := held (s, e) - 1)) (s, e')) sh"
      unfolding held_at by (rule shard_at_shrinks [OF at sh(4)]) (use sh in simp)
  qed simp
  moreover have "has_key ?c key v = has_key c key v" for key v
    using shrinks_same_entry [OF sh(4,3)] s len by (cases "Shard (HashSlice key) = s") (simp_all add: has_key_def)
  ultimately show ?thesis using cache_shrinks_update [OF len s sh(4)] by (simp add: se)
qed

lemma cache_Erase_ok:
  assumes inv: "cache_inv held c"
  shows "\<exists>c'. cache_Erase key c = Some c' \<and> cache_inv held c' \<and> cache_shrinks c c' \<and> (\<forall>v. \<not> has_key c' key v)"
proof -
  let ?hash = "HashSlice key"
  let ?s = "Shard ?hash" and ?sh = "shard c ! Shard ?hash"
  have s: "?s < kNumShards" by (rule Shard_less)
  have len: "length (shard c) = kNumShards" using inv by (simp add: cache_inv_def)
  have at: "shard_at ?s (\<lambda>e. held (?s, e)) ?sh" by (rule cache_inv_shard [OF inv s])
  then have sinv: "shard_inv (\<lambda>e. held (?s, e)) (cached ?sh) ?sh" by (simp add: shard_at_def)
  obtain sh where sh: "shard_Erase key ?hash ?sh = Some sh" "shard_inv (\<lambda>e. held (?s, e)) (cached sh) sh" "shrinks ?sh sh"
    "\<forall>v. \<not> has_entry sh key ?hash v"
    using shard_Erase_ok [OF sinv] by blast
  have "cache_inv held (c\<lparr>shard := (shard c)[?s := sh]\<rparr>)"
    by (rule cache_inv_update [OF inv s]) (auto intro: shard_at_shrinks [OF at sh(3,2)])
  then show ?thesis using sh cache_shrinks_update [OF len s sh(3)] s len by (simp add: cache_Erase_def Let_def has_key_def)
qed

lemma cache_shrinks_refl: "cache_shrinks c c"
  by (simp add: cache_shrinks_def)

lemma prune_shards_ok:
  assumes "\<forall>i < length ss. shard_at (k + i) (\<lambda>e. held (k + i, e)) (ss ! i)"
  shows "\<exists>ss'. prune_shards ss = Some ss' \<and> length ss' = length ss \<and>
    (\<forall>i < length ss. shard_at (k + i) (\<lambda>e. held (k + i, e)) (ss' ! i) \<and> shrinks (ss ! i) (ss' ! i) \<and> lru (ss' ! i) = [])"
  using assms
proof (induction ss arbitrary: k)
  case (Cons s ss)
  have at: "shard_at k (\<lambda>e. held (k, e)) s" using Cons.prems by (auto dest: spec [of _ 0])
  then have sinv: "shard_inv (\<lambda>e. held (k, e)) (cached s) s" by (simp add: shard_at_def)
  obtain s' where s': "shard_Prune s = Some s'" "shard_inv (\<lambda>e. held (k, e)) (cached s') s'" "shrinks s s'" "lru s' = []"
    using shard_Prune_ok [OF sinv] by blast
  have "\<forall>i < length ss. shard_at (Suc k + i) (\<lambda>e. held (Suc k + i, e)) (ss ! i)" using Cons.prems by auto
  then obtain ss' where "prune_shards ss = Some ss'" "length ss' = length ss"
    "\<forall>i < length ss. shard_at (Suc k + i) (\<lambda>e. held (Suc k + i, e)) (ss' ! i) \<and> shrinks (ss ! i) (ss' ! i) \<and> lru (ss' ! i) = []"
    using Cons.IH by blast
  moreover have "shard_at k (\<lambda>e. held (k, e)) s'" by (rule shard_at_shrinks [OF at s'(3,2)])
  ultimately show ?case using s' by (auto simp: less_Suc_eq_0_disj nth_Cons split: nat.splits)
qed simp

lemma cache_Prune_ok:
  assumes inv: "cache_inv held c"
  shows "\<exists>c'. cache_Prune c = Some c' \<and> cache_inv held c' \<and> cache_shrinks c c'"
proof -
  have len: "length (shard c) = kNumShards" using inv by (simp add: cache_inv_def)
  obtain ss where ss: "prune_shards (shard c) = Some ss" "length ss = kNumShards"
    "\<forall>i < kNumShards. shard_at i (\<lambda>e. held (i, e)) (ss ! i) \<and> shrinks (shard c ! i) (ss ! i)"
    using prune_shards_ok [of "shard c" 0 held] inv by (auto simp: cache_inv_def)
  have "cache_inv held (c\<lparr>shard := ss\<rparr>)" using inv ss by (simp add: cache_inv_def)
  moreover have "cache_account (c\<lparr>shard := ss\<rparr>) = cache_account c"
  proof -
    have "map account ss = map account (shard c)" using ss len by (intro nth_equalityI) (auto simp: shrinks_def)
    then show ?thesis by (simp add: cache_account_def)
  qed
  moreover have "map capacity ss = map capacity (shard c)" using ss len by (intro nth_equalityI) (auto simp: shrinks_def)
  moreover have "\<exists>e. entry c h = Some e \<and> fixed e' = fixed e" if "fst h < kNumShards" "entry (c\<lparr>shard := ss\<rparr>) h = Some e'" for h e'
    using ss(3) that unfolding shrinks_def entry_def by fastforce
  moreover have "has_key c key v" if "has_key (c\<lparr>shard := ss\<rparr>) key v" for key v
    using ss(3) that shrinks_entry Shard_less unfolding has_key_def by fastforce
  ultimately show ?thesis using ss(1) by (auto simp: cache_Prune_def cache_shrinks_def)
qed

lemma cache_Insert_ok:
  assumes inv: "cache_inv held c"
  shows "\<exists>h e c'. cache_Insert key val charge c = Some (h, c') \<and> cache_inv (held(h := 1)) c' \<and>
    entry c h = None \<and> entry c' h = Some e \<and> h_key e = key \<and> h_value e = val \<and>
    cache_account c' = add_mset (key, val) (cache_account c) \<and>
    (\<forall>h' e'. fst h' < kNumShards \<and> h' \<noteq> h \<and> entry c' h' = Some e' \<longrightarrow> (\<exists>e. entry c h' = Some e \<and> fixed e' = fixed e)) \<and>
    (\<forall>key' v. has_key c' key' v \<longrightarrow> (if key' = key then v = val else has_key c key' v)) \<and>
    map capacity (shard c') = map capacity (shard c) \<and>
    (let sh = shard c' ! Shard (HashSlice key) in usage sh \<le> capacity sh \<or> lru sh = [])"
proof -
  let ?hash = "HashSlice key"
  let ?s = "Shard ?hash" and ?sh = "shard c ! Shard ?hash"
  let ?e = "fresh_handle ?sh" and ?new = "new_entry key ?hash val charge"
  have s: "?s < kNumShards" by (rule Shard_less)
  have len: "length (shard c) = kNumShards" using inv by (simp add: cache_inv_def)
  have at: "shard_at ?s (\<lambda>e. held (?s, e)) ?sh" by (rule cache_inv_shard [OF inv s])
  then have sinv: "shard_inv (\<lambda>e. held (?s, e)) (cached ?sh) ?sh" by (simp add: shard_at_def)
  obtain sh where sh: "shard_Insert key ?hash val charge ?sh = Some (?e, sh)"
    "shard_inv ((\<lambda>e. held (?s, e))(?e := 1)) (cached sh) sh" "adds ?e ?new ?sh sh"
    "usage sh \<le> capacity sh \<or> lru sh = []" "\<forall>v. has_entry sh key ?hash v \<longrightarrow> v = val"
    using shard_Insert_ok [OF sinv] by blast
  let ?c = "c\<lparr>shard := (shard c)[?s := sh]\<rparr>" and ?held = "held((?s, ?e) := 1)"
  have hp: "heap_inv ((\<lambda>e. held (?s, e))(?e := 1)) sh" using sh(2) by (simp add: shard_inv_def)
  then obtain e where e: "handles sh ?e = Some e" unfolding heap_inv_def by (cases "handles sh ?e") fastforce+
  have fe: "fixed e = fixed ?new" using sh(3) e unfolding adds_def by blast
  have "cache_Insert key val charge c = Some ((?s, ?e), ?c)" using sh(1) by (simp add: cache_Insert_def Let_def)
  moreover have "cache_inv ?held ?c"
  proof (rule cache_inv_update [OF inv s])
    show "shard_at ?s (\<lambda>e'. ?held (?s, e')) sh"
      unfolding held_at by (rule shard_at_adds [OF at sh(3) _ _ sh(2)]) (simp_all add: new_entry_def)
  qed simp
  moreover have "entry c (?s, ?e) = None" using fresh_None [OF sinv] by (simp add: entry_def)
  moreover have "entry ?c (?s, ?e) = Some e" using e s len by (simp add: entry_def)
  moreover have "h_key e = key" "h_value e = val" using fe by (simp_all add: new_entry_def)
  moreover have "cache_account ?c = add_mset (key, val) (cache_account c)"
    using account_update [of ?s c sh] s len sh(3) by (simp add: adds_def new_entry_def)
  moreover have "\<exists>e. entry c h' = Some e \<and> fixed e' = fixed e" if h': "h' \<noteq> (?s, ?e)" "entry ?c h' = Some e'" for h' e'
  proof (cases "fst h' = ?s")
    case True
    then have "snd h' \<noteq> ?e" using h'(1) by (cases h') simp
    moreover have "handles sh (snd h') = Some e'" using h'(2) True s len by (simp add: entry_def)
    ultimately show ?thesis using sh(3) True unfolding adds_def entry_def by auto
  next
    case False
    then show ?thesis using h' by (simp add: entry_def)
  qed
  moreover have "if key' = key then v = val else has_key c key' v" if v: "has_key ?c key' v" for key' v
  proof (cases "Shard (HashSlice key') = ?s")
    case True
    then obtain d g where g: "handles sh d = Some g" "in_cache g" "h_key g = key'" "h_hash g = HashSlice key'" "h_value g = v"
      using v s len by (auto simp: has_key_def has_entry_def)
    show ?thesis
    proof (cases "key' = key")
      case True
      then show ?thesis using sh(5) g by (auto simp: has_entry_def)
    next
      case False
      then have "fixed g \<noteq> fixed ?new" using g(3) by (simp add: new_entry_def)
      then obtain h where "handles ?sh d = Some h" "fixed g = fixed h" "in_cache h" using sh(3) g(1,2) unfolding adds_def by blast
      then have "has_entry ?sh key' (HashSlice key') v"
        using g unfolding has_entry_def by (intro exI [of _ d] exI [of _ h]) auto
      then show ?thesis using False True by (simp add: has_key_def)
    qed
  next
    case False
    then have "has_key c key' v" using v by (simp add: has_key_def)
    then show ?thesis using False by auto
  qed
  moreover have "map capacity ((shard c)[?s := sh]) = map capacity (shard c)" using s len sh(3)
    by (intro nth_equalityI) (auto simp: nth_list_update adds_def)
  ultimately show ?thesis
    using sh(4) s len by (intro exI [of _ "(?s, ?e)"] exI [of _ e] exI [of _ ?c]) (simp add: Let_def)
qed

section \<open>Runs of clients\<close>

text \<open>
  What a client knows: how many references it holds to a handle (\<open>held\<close>), the key and value of the handle when it was
  got (\<open>got\<close>), the value that was inserted last under a key and not erased (\<open>latest\<close>), and all keys and values that were
  inserted (\<open>given\<close>). It releases only handles that it holds.
\<close>

inductive cache_run ::
  "u64 \<Rightarrow> (nat \<times> nat \<Rightarrow> nat) \<Rightarrow> (nat \<times> nat \<Rightarrow> slice \<times> 'v) \<Rightarrow> (slice \<Rightarrow> 'v option) \<Rightarrow> (slice \<times> 'v) multiset \<Rightarrow>
   'v ShardedLRUCache \<Rightarrow> bool" for cap where
  start: "cache_run cap (\<lambda>_. 0) got Map.empty {#} (NewLRUCache cap)"
| insert: "cache_run cap held got latest given c \<Longrightarrow> cache_Insert key val charge c = Some (h, c') \<Longrightarrow>
    cache_run cap (held(h := held h + 1)) (got(h := (key, val))) (latest(key \<mapsto> val)) (add_mset (key, val) given) c'"
| hit: "cache_run cap held got latest given c \<Longrightarrow> cache_Lookup key c = Some (Some h, c') \<Longrightarrow>
    cache_run cap (held(h := held h + 1)) (got(h := (key, the (latest key)))) latest given c'"
| miss: "cache_run cap held got latest given c \<Longrightarrow> cache_Lookup key c = Some (None, c') \<Longrightarrow>
    cache_run cap held got latest given c'"
| release: "cache_run cap held got latest given c \<Longrightarrow> held h > 0 \<Longrightarrow> cache_Release h c = Some c' \<Longrightarrow>
    cache_run cap (held(h := held h - 1)) got latest given c'"
| erase: "cache_run cap held got latest given c \<Longrightarrow> cache_Erase key c = Some c' \<Longrightarrow>
    cache_run cap held got (latest(key := None)) given c'"
| prune: "cache_run cap held got latest given c \<Longrightarrow> cache_Prune c = Some c' \<Longrightarrow> cache_run cap held got latest given c'"
| new_id: "cache_run cap held got latest given c \<Longrightarrow> cache_run cap held got latest given (snd (cache_NewId c))"

definition per_shard :: "u64 \<Rightarrow> u64" where
  "per_shard cap = (cap + (of_nat kNumShards - 1)) div of_nat kNumShards"

definition client_inv ::
  "u64 \<Rightarrow> (nat \<times> nat \<Rightarrow> nat) \<Rightarrow> (nat \<times> nat \<Rightarrow> slice \<times> 'v) \<Rightarrow> (slice \<Rightarrow> 'v option) \<Rightarrow> (slice \<times> 'v) multiset \<Rightarrow> 'v ShardedLRUCache \<Rightarrow> bool" where
  "client_inv cap held got latest given c \<longleftrightarrow> cache_inv held c \<and> cache_account c = given \<and>
     map capacity (shard c) = replicate kNumShards (per_shard cap) \<and>
     (\<forall>h e. held h > 0 \<and> entry c h = Some e \<longrightarrow> (h_key e, h_value e) = got h) \<and>
     (\<forall>key v. has_key c key v \<longrightarrow> latest key = Some v)"

lemma client_inv_shrinks:
  assumes inv: "client_inv cap held got latest given c" and c': "cache_inv held' c'" "cache_shrinks c c'"
    and held: "\<And>h. held' h > 0 \<Longrightarrow> held h > 0"
  shows "client_inv cap held' got latest given c'"
proof -
  have "(h_key e', h_value e') = got h" if h: "held' h > 0" "entry c' h = Some e'" for h e'
  proof -
    have "fst h < kNumShards" using held_entry(2) [OF c'(1) h(1)] .
    then obtain e where "entry c h = Some e" "fixed e' = fixed e" using c'(2) h(2) unfolding cache_shrinks_def by blast
    moreover have "(h_key e, h_value e) = got h" using inv held [OF h(1)] calculation(1) unfolding client_inv_def by blast
    ultimately show ?thesis by simp
  qed
  then show ?thesis using inv c' by (auto simp: client_inv_def cache_shrinks_def)
qed

lemma new_LRUCache_inv: "shard_inv (\<lambda>_. 0) (cached (new_LRUCache cap)) (new_LRUCache cap)" "cached (new_LRUCache cap) = {}"
  by (simp_all add: shard_inv_def heap_inv_def lists_inv_def cached_def new_LRUCache_def new_HandleTable_ok total_charge_def)

lemma sum_list_empty: "sum_list (replicate n {#}) = {#}"
  by (induction n) simp_all

lemma NewLRUCache_inv: "client_inv cap (\<lambda>_. 0) got Map.empty {#} (NewLRUCache cap)"
proof -
  have "cache_account (NewLRUCache cap :: 'a ShardedLRUCache) = {#}"
    by (simp add: cache_account_def NewLRUCache_def account_def new_LRUCache_def sum_list_empty)
  then show ?thesis
    using new_LRUCache_inv(1) Shard_less
    by (auto simp: client_inv_def cache_inv_def shard_at_def has_key_def has_entry_def NewLRUCache_def per_shard_def)
      (simp_all add: new_LRUCache_def)
qed

lemma cache_run_inv: "cache_run cap held got latest given c \<Longrightarrow> client_inv cap held got latest given c"
proof (induction rule: cache_run.induct)
  case (start got)
  show ?case by (rule NewLRUCache_inv)
next
  case (insert held got latest given c key val charge h c')
  have inv: "cache_inv held c" using insert.IH by (simp add: client_inv_def)
  obtain e where e: "cache_inv (held(h := 1)) c'" "entry c h = None" "entry c' h = Some e" "h_key e = key" "h_value e = val"
    "cache_account c' = add_mset (key, val) (cache_account c)" "map capacity (shard c') = map capacity (shard c)"
    "\<forall>h' e'. fst h' < kNumShards \<and> h' \<noteq> h \<and> entry c' h' = Some e' \<longrightarrow> (\<exists>e. entry c h' = Some e \<and> fixed e' = fixed e)"
    "\<forall>key' v. has_key c' key' v \<longrightarrow> (if key' = key then v = val else has_key c key' v)"
    using cache_Insert_ok [OF inv, where key = key and val = val and charge = charge] insert.hyps by auto
  have h0: "held h = 0" using held_entry(1) [OF inv, of h] e(2) by auto
  have "(h_key e', h_value e') = (got(h := (key, val))) h'" if h': "(held(h := held h + 1)) h' > 0" "entry c' h' = Some e'" for h' e'
  proof (cases "h' = h")
    case True
    then show ?thesis using e h' by simp
  next
    case False
    then have "fst h' < kNumShards" using held_entry(2) [OF inv, of h'] h' by simp
    then obtain g where g: "entry c h' = Some g" "fixed e' = fixed g" using e(8) False h'(2) by blast
    moreover have "(h_key g, h_value g) = got h'"
    proof -
      have "held h' > 0" using False h'(1) by simp
      then show ?thesis using insert.IH g(1) unfolding client_inv_def by blast
    qed
    ultimately show ?thesis using False by simp
  qed
  moreover have "(latest(key \<mapsto> val)) key' = Some v" if "has_key c' key' v" for key' v
    using e(9) that insert.IH by (cases "key' = key") (auto simp: client_inv_def)
  moreover have "cache_inv (held(h := held h + 1)) c'" using e(1) h0 by simp
  moreover have "cache_account c' = add_mset (key, val) given" "map capacity (shard c') = replicate kNumShards (per_shard cap)"
    using e(6,7) insert.IH by (simp_all add: client_inv_def)
  ultimately show ?case unfolding client_inv_def by blast
next
  case (hit held got latest given c key h c')
  have inv: "cache_inv held c" using hit.IH by (simp add: client_inv_def)
  obtain e where e: "entry c' h = Some e" "h_key e = key" "has_key c key (h_value e)" "cache_inv (held(h := held h + 1)) c'"
    "cache_shrinks c c'"
    using cache_Lookup_ok [OF inv, of key] hit.hyps by auto
  have "latest key = Some (h_value e)" using e(3) hit.IH unfolding client_inv_def by blast
  moreover have "(h_key e', h_value e') = got h'" if h': "held h' > 0" "entry c' h' = Some e'" for h' e'
  proof -
    have "fst h' < kNumShards" using held_entry(2) [OF inv h'(1)] .
    then obtain g where g: "entry c h' = Some g" "fixed e' = fixed g" using e(5) h'(2) unfolding cache_shrinks_def by blast
    moreover have "(h_key g, h_value g) = got h'" using hit.IH h'(1) g(1) unfolding client_inv_def by blast
    ultimately show ?thesis by simp
  qed
  ultimately have "(h_key e', h_value e') = (got(h := (key, the (latest key)))) h'"
    if "(held(h := held h + 1)) h' > 0" "entry c' h' = Some e'" for h' e'
    using that e(1,2) by (cases "h' = h") auto
  moreover have "cache_account c' = given" "map capacity (shard c') = replicate kNumShards (per_shard cap)"
    "\<forall>key v. has_key c' key v \<longrightarrow> latest key = Some v"
    using e(5) hit.IH unfolding client_inv_def cache_shrinks_def by auto
  ultimately show ?case using e(4) unfolding client_inv_def by blast
next
  case (miss held got latest given c key c')
  have "cache_inv held c" using miss.IH by (simp add: client_inv_def)
  then have "c' = c" using cache_Lookup_ok [of held c key] miss.hyps by auto
  then show ?case using miss.IH by simp
next
  case (release held got latest given c h c')
  have inv: "cache_inv held c" using release.IH by (simp add: client_inv_def)
  have c': "cache_inv (held(h := held h - 1)) c'" "cache_shrinks c c'"
    using cache_Release_ok [OF inv release.hyps(2)] release.hyps(3) by auto
  show ?case by (rule client_inv_shrinks [OF release.IH c']) (auto split: if_splits)
next
  case (erase held got latest given c key c')
  have inv: "cache_inv held c" using erase.IH by (simp add: client_inv_def)
  have c': "cache_inv held c'" "cache_shrinks c c'" "\<forall>v. \<not> has_key c' key v"
    using cache_Erase_ok [OF inv, of key] erase.hyps by auto
  have "client_inv cap held got latest given c'" by (rule client_inv_shrinks [OF erase.IH c'(1,2)])
  then show ?case using c'(3) by (auto simp: client_inv_def)
next
  case (prune held got latest given c c')
  have inv: "cache_inv held c" using prune.IH by (simp add: client_inv_def)
  show ?case
    by (rule client_inv_shrinks [OF prune.IH]) (use cache_Prune_ok [OF inv] prune.hyps in auto)
next
  case (new_id held got latest given c)
  then show ?case by (simp add: client_inv_def cache_inv_def cache_NewId_def cache_account_def entry_def has_key_def)
qed

section \<open>What clients can rely on\<close>

lemma delete_shards_ok:
  assumes "\<forall>sh \<in> set ss. shard_inv (\<lambda>_. 0) (cached sh) sh"
  shows "\<exists>ss'. delete_shards ss = Some ss' \<and> (\<forall>sh \<in> set ss'. handles sh = Map.empty) \<and>
    mset (concat (map deleted ss')) = (\<Sum>sh\<leftarrow>ss. account sh)"
  using assms
proof (induction ss)
  case (Cons sh ss)
  obtain sh' where "delete_LRUCache sh = Some sh'" "handles sh' = Map.empty" "mset (deleted sh') = account sh"
    using delete_LRUCache_ok [of sh] Cons.prems by auto
  then show ?case using Cons by auto
qed simp

section \<open>Runs with numbers\<close>

text \<open>An insertion, a second one under the same key, and the release of both handles.\<close>

definition demo_start :: "nat ShardedLRUCache" where
  "demo_start = NewLRUCache 16"

definition demo_insert :: "(nat \<times> nat) \<times> nat ShardedLRUCache" where
  "demo_insert = the (cache_Insert [1] 7 1 demo_start)"

definition demo_replace :: "(nat \<times> nat) \<times> nat ShardedLRUCache" where
  "demo_replace = the (cache_Insert [1] 8 1 (snd demo_insert))"

definition demo_released :: "nat ShardedLRUCache" where
  "demo_released = the (cache_Release (fst demo_insert) (the (cache_Release (fst demo_replace) (snd demo_replace))))"

lemma demo_insert: "cache_Insert [1] 7 1 demo_start = Some demo_insert"
proof -
  have "cache_Insert [1] 7 1 demo_start \<noteq> None" by code_simp
  then show ?thesis by (auto simp: demo_insert_def)
qed

lemma demo_replace: "cache_Insert [1] 8 1 (snd demo_insert) = Some demo_replace"
proof -
  have "cache_Insert [1] 8 1 (snd demo_insert) \<noteq> None" by code_simp
  then show ?thesis by (auto simp: demo_replace_def)
qed

lemma demo_handles: "fst demo_insert = (4, 0)" "fst demo_replace = (4, 1)" "Shard (HashSlice [1]) = 4"
  by code_simp+

lemma demo_run1:
  "cache_run 16 ((\<lambda>_. 0)((4, 0) := 1)) ((\<lambda>_. ([], 0))((4, 0) := ([1], 7))) [[1] \<mapsto> 7] {#([1], 7)#} (snd demo_insert)"
  using cache_run.insert [OF cache_run.start [of 16 "\<lambda>_. ([], 0)"], of "[1]" 7 1 "(4, 0)" "snd demo_insert"] demo_insert demo_handles
  by (simp add: demo_start_def [symmetric] prod_eq_iff [of demo_insert])

lemma demo_run2:
  "cache_run 16 ((\<lambda>_. 0)((4, 0) := 1, (4, 1) := 1)) ((\<lambda>_. ([], 0))((4, 0) := ([1], 7), (4, 1) := ([1], 8))) [[1] \<mapsto> 8] {#([1], 8), ([1], 7)#}
    (snd demo_replace)"
  using cache_run.insert [OF demo_run1, of "[1]" 8 1 "(4, 1)" "snd demo_replace"] demo_replace demo_handles
  by (simp add: prod_eq_iff [of demo_replace] add_mset_commute)

lemma demo_run3:
  "cache_run 16 (\<lambda>_. 0) ((\<lambda>_. ([], 0))((4, 0) := ([1], 7), (4, 1) := ([1], 8))) [[1] \<mapsto> 8] {#([1], 8), ([1], 7)#} demo_released"
proof -
  have "cache_Release (4, 1) (snd demo_replace) \<noteq> None" by code_simp
  then obtain c where c: "cache_Release (4, 1) (snd demo_replace) = Some c" by auto
  have "cache_Release (4, 0) (the (cache_Release (4, 1) (snd demo_replace))) \<noteq> None" by code_simp
  then have "cache_Release (4, 0) c \<noteq> None" unfolding c option.sel .
  then have c': "cache_Release (4, 0) c = Some demo_released" unfolding demo_released_def demo_handles c option.sel by auto
  show ?thesis
    by (rule back_subst [of "\<lambda>held. cache_run 16 held _ _ _ _", OF cache_run.release [OF cache_run.release [OF demo_run2 _ c] _ c']]) auto
qed

section \<open>The properties\<close>







text \<open>
  C40. After an insertion the charges of its shard are within the capacity, unless clients hold every entry that the shard
  still has.
\<close>

theorem cache_insert_evicts:
  assumes "cache_run cap held got latest given c" and "cache_Insert key val charge c = Some (h, c')"
  defines "s \<equiv> Shard (HashSlice key)"
  shows "usage (shard c' ! s) \<le> per_shard cap \<or>
    (\<forall>e hd. handles (shard c' ! s) e = Some hd \<longrightarrow> held (s, e) > 0 \<or> h = (s, e))"
proof -
  have run: "client_inv cap held got latest given c" by (rule cache_run_inv [OF assms(1)])
  have run': "client_inv cap (held(h := held h + 1)) (got(h := (key, val))) (latest(key \<mapsto> val)) (add_mset (key, val) given) c'"
    by (rule cache_run_inv [OF cache_run.insert [OF assms(1,2)]])
  have s: "s < kNumShards" unfolding s_def by (rule Shard_less)
  have inv: "cache_inv held c" using run by (simp add: client_inv_def)
  have evict: "usage (shard c' ! s) \<le> capacity (shard c' ! s) \<or> lru (shard c' ! s) = []"
    using cache_Insert_ok [OF inv, of key val charge] assms(2) by (auto simp: Let_def s_def)
  have inv': "cache_inv (held(h := held h + 1)) c'" and caps: "map capacity (shard c') = replicate kNumShards (per_shard cap)"
    using run' by (simp_all add: client_inv_def)
  have "capacity (shard c' ! s) = per_shard cap"
    using arg_cong [OF caps, of "\<lambda>xs. xs ! s"] s inv' by (simp add: cache_inv_def)
  moreover have "held (s, e) > 0 \<or> h = (s, e)"
    if lru: "lru (shard c' ! s) = []" and e: "handles (shard c' ! s) e = Some hd" for e hd
  proof (rule ccontr)
    assume "\<not> ?thesis"
    then have none: "(held(h := held h + 1)) (s, e) = 0" by auto
    have "shard_inv (\<lambda>e. (held(h := held h + 1)) (s, e)) (cached (shard c' ! s)) (shard c' ! s)"
      using cache_inv_shard [OF inv' s] by (simp add: shard_at_def)
    then have "heap_inv (\<lambda>e. (held(h := held h + 1)) (s, e)) (shard c' ! s)" and
      li: "lists_inv (\<lambda>e. (held(h := held h + 1)) (s, e)) (shard c' ! s)" by (simp_all add: shard_inv_def)
    from heap_refs [OF this(1) e] have "in_cache hd" using none by (auto split: if_splits)
    then have "e \<in> set (lru (shard c' ! s))" using li e none by (auto simp: lists_inv_def cached_def)
    then show False using lru by simp
  qed
  ultimately show ?thesis using evict by auto
qed

lemma cache_insert_evicts_witness:
  "usage (shard (snd demo_replace) ! 4) \<le> per_shard 16 \<or> (\<forall>e hd. handles (shard (snd demo_replace) ! 4) e = Some hd \<longrightarrow> e = 0 \<or> e = 1)"
proof -
  have "cache_Insert [1] 8 1 (snd demo_insert) = Some ((4, 1), snd demo_replace)"
    using demo_replace demo_handles by (simp add: prod_eq_iff [of demo_replace])
  from cache_insert_evicts [OF demo_run1 this] show ?thesis
    unfolding demo_handles(3) by (elim disj_forward all_forward imp_forward) (auto split: if_splits)
qed

end
