(* ===== verification/LDB_BlockCache.thy ===== *)
theory LDB_BlockCache
  imports LDB_Cache_Client LDB_Table_Correct
begin

text \<open>
  The cache as the block cache of tables: what \<open>Table::BlockReader\<close> does with it keeps the contract \<open>block_cache\<close>.
\<close>

section \<open>The calls of a table\<close>

text \<open>A table releases the handle of a block when its iterator is deleted, before its next call.\<close>

definition find_block :: "Block ShardedLRUCache \<Rightarrow> slice \<Rightarrow> Block option \<times> Block ShardedLRUCache" where
  "find_block c key =
     (case cache_Lookup key c of
        Some (Some h, c') \<Rightarrow> (cache_Value h c', the (cache_Release h c'))
      | _ \<Rightarrow> (None, c))"

definition add_block :: "Block ShardedLRUCache \<Rightarrow> slice \<Rightarrow> Block \<Rightarrow> nat \<Rightarrow> Block ShardedLRUCache" where
  "add_block c key block charge =
     (case cache_Insert key block (of_nat charge) c of
        Some (h, c') \<Rightarrow> the (cache_Release h c')
      | None \<Rightarrow> c)"

definition usable_cache :: "Block ShardedLRUCache \<Rightarrow> bool" where
  "usable_cache c \<longleftrightarrow> (\<exists>held. cache_inv held c)"

lemma has_key_unique: "cache_inv held c \<Longrightarrow> has_key c key v \<Longrightarrow> has_key c key w \<Longrightarrow> v = w"
  using entry_unique cache_inv_shard [OF _ Shard_less] unfolding has_key_def shard_at_def by metis

lemma find_block_ok:
  assumes inv: "cache_inv held c"
  shows "cache_inv held (snd (find_block c key)) \<and> (fst (find_block c key) = Some b \<longleftrightarrow> has_key c key b) \<and>
    (\<forall>k v. has_key (snd (find_block c key)) k v = has_key c k v)"
  using cache_Lookup_ok [OF inv, of key]
proof (elim disjE exE conjE)
  fix h e c'
  assume l: "cache_Lookup key c = Some (Some h, c')" and e: "entry c' h = Some e" "has_key c key (h_value e)"
    and inv': "cache_inv (held(h := held h + 1)) c'" and s: "cache_shrinks c c'" "cache_shrinks c' c"
  obtain c2 where c2: "cache_Release h c' = Some c2" "cache_inv held c2" "\<forall>key v. has_key c2 key v = has_key c' key v"
    using cache_Release_ok [OF inv', of h] by auto
  have "find_block c key = (Some (h_value e), c2)" using l e(1) c2(1) by (simp add: find_block_def cache_Value_def entry_def)
  moreover have "has_key c' key v = has_key c key v" for key v using s unfolding cache_shrinks_def by blast
  moreover have "Some (h_value e) = Some b \<longleftrightarrow> has_key c key b" using e(2) has_key_unique [OF inv e(2)] by blast
  ultimately show ?thesis using c2(2,3) by simp
next
  assume "cache_Lookup key c = Some (None, c)" "\<forall>v. \<not> has_key c key v"
  then show ?thesis using inv by (simp add: find_block_def)
qed

lemma add_block_ok:
  assumes inv: "cache_inv held c"
  shows "cache_inv held (add_block c key block n) \<and>
    (has_key (add_block c key block n) key' b \<longrightarrow> (if key' = key then b = block else has_key c key' b))"
proof -
  obtain h c' where c': "cache_Insert key block (of_nat n) c = Some (h, c')" "cache_inv (held(h := 1)) c'" "entry c h = None"
    "\<forall>key' v. has_key c' key' v \<longrightarrow> (if key' = key then v = block else has_key c key' v)"
    using cache_Insert_ok [OF inv, of key block "of_nat n"] by auto
  have h: "held h = 0" using held_entry(1) [OF inv, of h] c'(3) by auto
  obtain c2 where c2: "cache_Release h c' = Some c2" "cache_inv ((held(h := 1))(h := 0)) c2"
    "\<forall>key v. has_key c2 key v = has_key c' key v"
    using cache_Release_ok [OF c'(2), of h] by auto
  have "(held(h := 1))(h := 0) = held" using h by auto
  moreover have "add_block c key block n = c2" using c'(1) c2(1) by (simp add: add_block_def)
  ultimately show ?thesis using c2 c'(4) by auto
qed

lemma find_block_eq:
  assumes "cache_inv held c" "cache_inv held' c'" "\<forall>k v. has_key c' k v = has_key c k v"
  shows "fst (find_block c' key) = fst (find_block c key)"
proof -
  have "fst (find_block c' key) = Some b \<longleftrightarrow> fst (find_block c key) = Some b" for b
    using find_block_ok [OF assms(1), of key b] find_block_ok [OF assms(2), of key b] assms(3) by simp
  then show ?thesis by (cases "fst (find_block c key)"; cases "fst (find_block c' key)") auto
qed

interpretation lru: block_cache usable_cache find_block add_block
proof
  fix c :: "Block ShardedLRUCache" and k k'
  assume "usable_cache c"
  then obtain held where inv: "cache_inv held c" by (auto simp: usable_cache_def)
  note find = find_block_ok [OF inv, of k]
  have "cache_inv held (snd (find_block c k))" using find by blast
  then show "usable_cache (snd (find_block c k)) \<and> fst (find_block (snd (find_block c k)) k') = fst (find_block c k')"
    using find_block_eq [OF inv \<open>cache_inv held (snd (find_block c k))\<close>, of k'] find unfolding usable_cache_def by blast
next
  fix c :: "Block ShardedLRUCache" and k k' b n b'
  assume "usable_cache c"
  then obtain held where inv: "cache_inv held c" by (auto simp: usable_cache_def)
  note add = add_block_ok [OF inv, of k b n]
  have inv': "cache_inv held (add_block c k b n)" using add by blast
  have "fst (find_block (add_block c k b n) k') = Some b' \<longleftrightarrow> has_key (add_block c k b n) k' b'"
    "fst (find_block c k') = Some b' \<longleftrightarrow> has_key c k' b'"
    using find_block_ok [OF inv', of k' b'] find_block_ok [OF inv, of k' b'] by blast+
  then show "usable_cache (add_block c k b n) \<and>
    (fst (find_block (add_block c k b n) k') = Some b' \<longrightarrow> k' = k \<and> b' = b \<or> k' \<noteq> k \<and> fst (find_block c k') = Some b')"
    using inv' add_block_ok [OF inv, of k b n k' b'] unfolding usable_cache_def by (cases "k' = k") auto
qed

lemma usable_new: "usable_cache (NewLRUCache cap)" "fst (find_block (NewLRUCache cap) k) = None"
proof -
  have inv: "client_inv cap (\<lambda>_. 0) undefined Map.empty {#} (NewLRUCache cap :: Block ShardedLRUCache)" by (rule NewLRUCache_inv)
  then have c: "cache_inv (\<lambda>_. 0) (NewLRUCache cap :: Block ShardedLRUCache)" by (simp add: client_inv_def)
  then show "usable_cache (NewLRUCache cap)" by (auto simp: usable_cache_def)
  have "\<not> has_key (NewLRUCache cap) k b" for b :: Block using inv unfolding client_inv_def by auto
  then show "fst (find_block (NewLRUCache cap) k) = None"
    using find_block_ok [OF c, of k] by (cases "fst (find_block (NewLRUCache cap) k)") auto
qed

end
