(* ===== verification/Spec2Isabelle.thy ===== *)
theory Spec2Isabelle
  imports PB_Encode_Correct PB_Decode_Correct F_Base64_Correct
    LDB_Correct LDB_Log_Correct LDB_WriteBatch LDB_VersionEdit LDB_Format LDB_Block_Correct
    LDB_MemTable_Correct LDB_Table_Correct LDB_VersionBuilder_Correct LDB_BlockCache
begin

text \<open>
  Verification of the C and C++ code of the job-finder application.

  The repository is an iOS application whose own sources (\<open>job-finder/job-finder\<close>) are Swift views over
  the Firebase services. Its C and C++ code is in the directory \<open>job-finder/Pods\<close>: nanopb, the protocol
  buffer coder of the analytics and authentication services; a base64 coder used by the web socket of
  the realtime database; and leveldb, the key-value store in which the realtime database keeps its data
  on the device. The development models these three, for the target of the Xcode project: 64-bit,
  little-endian, signed \<open>char\<close>, leveldb built for POSIX without SSE and nanopb with 32-bit field
  descriptors and \<open>PB_ENABLE_MALLOC\<close>.

  Common theories. \<open>Prelude\<close> names the machine types and has the lemmas on the option monad, lists, words
  and little-endian bytes that the components share. \<open>C_Memory\<close> is a byte-addressed C memory with
  allocation; an access outside of what is allocated is \<open>None\<close>.

  nanopb (\<open>Pods/nanopb\<close>), theories \<open>PB_*\<close>.
  \<^item> \<open>PB_Types\<close>: \<open>pb.h\<close>, the descriptors \<open>pb_field_t\<close> and the macros that build them.
  \<^item> \<open>PB_Common\<close>: the field iterator of \<open>pb_common.c\<close>.
  \<^item> \<open>PB_Ostream\<close>, \<open>PB_Encode\<close>: \<open>pb_encode.c\<close>; \<open>PB_Sink\<close> says what it means that a computation
    writes given bytes to any kind of stream, \<open>PB_Wire\<close> is the specification, a function from a message
    in memory to the bytes of its wire format, and \<open>PB_Encode_Correct\<close> has the properties: what
    \<open>pb_encode\<close> writes, when it fails, and the sizes it announces. \<open>PB_Example\<close> holds a message for the
    witnesses.
  \<^item> \<open>PB_Istream\<close>, \<open>PB_Release\<close>, \<open>PB_Decode\<close>: \<open>pb_decode.c\<close>. \<open>PB_Source\<close> describes the bytes an input
    stream still holds, \<open>PB_Varint\<close> the numbers, \<open>PB_Progress\<close> that every step consumes input and
    returns, \<open>PB_Layout\<close>, \<open>PB_Static\<close>, \<open>PB_Decode_Safe\<close> that decoding into a static message stays inside
    it, \<open>PB_Required\<close> the check of required fields; \<open>PB_Decode_Correct\<close> has the properties. The recursion
    of messages is bounded by a fuel argument, the depth of the nesting of the descriptors; the loops
    over the input are partial functions whose termination is proved from the bytes consumed.

  base64 (\<open>Pods/FirebaseDatabase/.../SocketRocket\<close>), theories \<open>F_Base64*\<close>: \<open>fbase64.c\<close> and the method that
  sizes its buffer; the specification is the encoding of bytes as lists of letters and its decoder.

  leveldb (\<open>Pods/leveldb-library\<close>), theories \<open>LDB_*\<close>. Slices and strings are lists of bytes; states are
  records; a function that changes its object returns the new one.
  \<^item> \<open>LDB_Coding\<close>: \<open>slice.h\<close>, \<open>coding.cc\<close>, the contract of comparators (locale \<open>comparator\<close>) and
    \<open>comparator.cc\<close>, which satisfies it.
  \<^item> \<open>LDB_Crc32c\<close>: \<open>crc32c.cc\<close> with its tables, equal to the checksum computed bit by bit.
  \<^item> \<open>LDB_Bloom\<close>: \<open>hash.cc\<close>, \<open>bloom.cc\<close>; the contract of filter policies is the locale \<open>filter_policy\<close>.
  \<^item> \<open>LDB_Dbformat\<close>: \<open>dbformat.cc\<close>, internal keys; the internal comparator and filter policy satisfy the
    contracts whenever those of the user do. \<open>LDB_Correct\<close> has the properties of these four.
  \<^item> \<open>LDB_Status\<close>, \<open>LDB_Env\<close>: \<open>status.cc\<close>, \<open>logging.cc\<close> and the files of \<open>env_posix.cc\<close>, on streams of the C
    library in which any call may fail; the contract of files being written is the locale \<open>writable_file\<close>.
  \<^item> \<open>LDB_Log\<close>, \<open>LDB_Log_Write\<close>, \<open>LDB_Log_Read\<close>, \<open>LDB_Log_Correct\<close>: the write-ahead log of
    \<open>log_writer.cc\<close> and \<open>log_reader.cc\<close>; what is read back from a log that was cut anywhere.
  \<^item> \<open>LDB_WriteBatch\<close>: \<open>write_batch.cc\<close>. \<open>LDB_VersionEdit\<close>: \<open>version_edit.cc\<close>. \<open>LDB_Format\<close>: \<open>format.cc\<close>.
  \<^item> \<open>LDB_Block\<close>: \<open>block_builder.cc\<close> and \<open>block.cc\<close>; \<open>LDB_Block_Correct\<close>: iterating over and seeking in a
    built block, for any comparator.
  \<^item> \<open>LDB_FilterBlock\<close>: \<open>filter_block.cc\<close>, the filters of a table; a filter never hides a key of its block.
  \<^item> \<open>LDB_RandomAccess\<close>: the random access files of \<open>env_posix.cc\<close> (\<open>pread\<close> and \<open>mmap\<close>) and the limiter that
    chooses between them; the locale \<open>random_access_file\<close> is the contract both satisfy.
  \<^item> \<open>LDB_TableBuilder\<close>: \<open>options.cc\<close>, \<open>SanitizeOptions\<close> and \<open>table_builder.cc\<close>; \<open>LDB_Table\<close>: \<open>iterator.cc\<close> and
    \<open>table.cc\<close>, with the block cache as an argument. \<open>LDB_TableBuilder_Correct\<close> describes the bytes of a
    built table as a layout of blocks, for any compressor that decompresses what it compressed (locale
    \<open>compressor\<close>); \<open>LDB_Table_Correct\<close> shows what looking a key up in such a file finds.
  \<^item> \<open>LDB_Arena\<close>: \<open>arena.cc\<close> and \<open>random.h\<close>. \<open>LDB_SkipList\<close>, \<open>LDB_SkipList_Correct\<close>: \<open>skiplist.h\<close>, for any
    comparator (locale \<open>key_order\<close>); a reader may run at any step of an insertion. \<open>LDB_MemTable\<close>,
    \<open>LDB_MemTable_Correct\<close>: \<open>memtable.cc\<close>, and reading back a batch that was inserted.
  \<^item> \<open>LDB_Version\<close>: the versions of \<open>version_set.cc\<close>, that is the files of the levels, \<open>Version::Get\<close> and overlapping
    files; file objects are shared between versions and named by pointers. \<open>LDB_Version_Correct\<close>: looking up finds
    the newest entry in all files (any store of tables with the locale \<open>table_store\<close>), and the search for overlapping
    files, which starts again when the range grows, returns. \<open>LDB_VersionBuilder\<close>: the builder of the next version, the
    edit and the snapshot of the manifest, and recovery; \<open>LDB_VersionBuilder_Correct\<close>: what an edit makes of a version,
    and that a manifest gives the set of versions back.
  \<^item> \<open>LDB_Cache\<close>: \<open>cache.cc\<close>, the hash table, the shards with their two lists, and the cache of all shards; a freed
    entry is \<open>None\<close> in the heap of handles. \<open>LDB_Cache_Correct\<close>: the invariant of a shard and what each of its
    operations does to it. \<open>LDB_Cache_Client\<close>: the runs of clients (relation \<open>cache_run\<close>) and what they can rely on.
    \<open>LDB_BlockCache\<close> interprets the locale \<open>block_cache\<close>, which tables need, on this cache.

  Not modelled: the Swift application and the Objective-C libraries (user interface, network services and
  the Objective-C runtime), and of leveldb the threads, locks and system calls. Operations of leveldb that
  the sources leave to an interface (files, comparators, filter policies, handlers, compression) are
  parameters of the definitions, and their contracts are locales that the sources' own implementations
  interpret.
\<close>

end
